(* ===== verification/Prelude.thy ===== *)
theory Prelude
  imports Main "HOL-Library.Word" "HOL-Library.Monad_Syntax" "HOL-Library.Code_Target_Nat"
begin

text \<open>
  Shared ground of the development: the fact collections the component theories add to, the
  result type of fallible code (\<open>Inl\<close> the error, as Rust's \<open>Err\<close>), and generic lemmas on
  lists, options and results that several components use.
\<close>

named_theorems text_simps \<open>byte offsets, boundaries and slices of UTF-8 text\<close>
named_theorems span_simps \<open>spans and the tokens that carry them\<close>
named_theorems result_simps \<open>sequencing of fallible steps\<close>

subsection \<open>Results\<close>

type_synonym ('e, 'a) result = "'e + 'a"

abbreviation Err :: "'e \<Rightarrow> ('e, 'a) result" where
  "Err e \<equiv> Inl e"

abbreviation Ok :: "'a \<Rightarrow> ('e, 'a) result" where
  "Ok a \<equiv> Inr a"

definition result_bind :: "('e, 'a) result \<Rightarrow> ('a \<Rightarrow> ('e, 'b) result) \<Rightarrow> ('e, 'b) result" where
  "result_bind r f = (case r of Inl e \<Rightarrow> Inl e | Inr a \<Rightarrow> f a)"

lemma result_bind_Ok [simp, result_simps]: "result_bind (Ok a) f = f a"
  by (simp add: result_bind_def)

lemma result_bind_Err [simp, result_simps]: "result_bind (Err e) f = Err e"
  by (simp add: result_bind_def)

lemma result_bind_eq_Ok [result_simps]:
  "result_bind r f = Ok b \<longleftrightarrow> (\<exists>a. r = Ok a \<and> f a = Ok b)"
  by (cases r) auto

lemma result_bind_eq_Err [result_simps]:
  "result_bind r f = Err e \<longleftrightarrow> r = Err e \<or> (\<exists>a. r = Ok a \<and> f a = Err e)"
  by (cases r) auto

text \<open>\<open>Option::ok_or\<close>: an absent value becomes the given error.\<close>

definition ok_or :: "'a option \<Rightarrow> 'e \<Rightarrow> ('e, 'a) result" where
  "ok_or x e = (case x of None \<Rightarrow> Err e | Some a \<Rightarrow> Ok a)"

lemma ok_or_simps [simp]: "ok_or None e = Err e" "ok_or (Some a) e = Ok a"
  by (simp_all add: ok_or_def)

lemma ok_or_eq_Ok [result_simps]: "ok_or x e = Ok a \<longleftrightarrow> x = Some a"
  by (cases x) auto

text \<open>\<open>slice.get(i)\<close>: a bounds-checked read.\<close>

definition get :: "'a list \<Rightarrow> nat \<Rightarrow> 'a option" where
  "get xs i = (if i < length xs then Some (xs ! i) else None)"

lemma get_eq_Some: "get xs i = Some x \<longleftrightarrow> i < length xs \<and> xs ! i = x"
  by (auto simp: get_def)

lemma get_eq_None: "get xs i = None \<longleftrightarrow> length xs \<le> i"
  by (auto simp: get_def)

lemma get_append_length [simp]: "get (xs @ y # ys) (length xs) = Some y"
  by (simp add: get_def)

lemma get_append_left: "get xs i = Some x \<Longrightarrow> get (xs @ ys) i = Some x"
  by (auto simp: get_def nth_append)

subsection \<open>Lists\<close>

lemma takeWhile_dropWhile_split:
  "xs = takeWhile P xs @ dropWhile P xs"
  by simp

lemma set_takeWhile_P: "x \<in> set (takeWhile P xs) \<Longrightarrow> P x"
  by (rule set_takeWhileD [THEN conjunct2])

lemma concat_map_singleton: "concat (map (\<lambda>x. [f x]) xs) = map f xs"
  by (induction xs) auto

lemma last_not_dropWhile_rev:
  "dropWhile P (rev xs) = y # ys \<Longrightarrow> \<not> P y"
  by (metis dropWhile_eq_Cons_conv)

subsection \<open>Loops that make progress\<close>

text \<open>
  The contract of a \<open>while\<close> loop over a state: a fallible step that, in a good state with something
  left to do, succeeds, relates the two states by \<open>R\<close>, keeps the state good and leaves less to do.
  The loop then returns in a good state with nothing left, related to the start by a chain of steps.
\<close>

locale progress_loop =
  fixes step :: "'s \<Rightarrow> 's option"
    and loop :: "'s \<Rightarrow> 's option"
    and left :: "'s \<Rightarrow> nat"
    and good :: "'s \<Rightarrow> bool"
    and R :: "'s \<Rightarrow> 's \<Rightarrow> bool"
  assumes loop_eq: "loop s = (if left s = 0 then Some s else Option.bind (step s) loop)"
    and step_good: "good s \<Longrightarrow> left s \<noteq> 0 \<Longrightarrow> \<exists>s'. step s = Some s' \<and> R s s' \<and> good s' \<and> left s' < left s"
begin

lemma loop_returns:
  "good s \<Longrightarrow> \<exists>s'. loop s = Some s' \<and> R\<^sup>*\<^sup>* s s' \<and> good s' \<and> left s' = 0"
proof (induction "left s" arbitrary: s rule: less_induct)
  case less
  show ?case
  proof (cases "left s = 0")
    case True
    then have "loop s = Some s" by (simp add: loop_eq [of s])
    with True less.prems show ?thesis by (intro exI [of _ s]) simp
  next
    case False
    from step_good [OF less.prems False] obtain s1 where
      s1: "step s = Some s1" "R s s1" "good s1" "left s1 < left s" by blast
    from less.hyps [OF s1(4,3)] obtain s' where s': "loop s1 = Some s'" "R\<^sup>*\<^sup>* s1 s'" "good s'" "left s' = 0"
      by blast
    have "loop s = Some s'" using False s1(1) s'(1) by (simp add: loop_eq [of s])
    moreover have "R\<^sup>*\<^sup>* s s'" using s1(2) s'(2) by (rule converse_rtranclp_into_rtranclp)
    ultimately show ?thesis using s' by blast
  qed
qed

end

end
