(* ===== verification/Rust_Text.thy ===== *)
theory Rust_Text
  imports Prelude
begin

text \<open>
  Rust's \<open>str\<close> and \<open>char\<close>, as the crates use them. A \<open>char\<close> is its Unicode scalar value, a
  \<open>str\<close> the list of its scalars; every offset is a UTF-8 byte offset, as in the source, so
  \<open>len\<close>, \<open>is_char_boundary\<close> and slicing are defined through the encoded width of each scalar.
  A slice whose end is not a character boundary panics in Rust; here it is \<open>None\<close>.
\<close>

type_synonym uchar = nat
type_synonym ustring = "uchar list"
type_synonym byte = "8 word"

text \<open>ASCII literals of the source: \<open>lit ''fn''\<close> is the \<open>str\<close> \<open>fn\<close>.\<close>

definition lit :: "string \<Rightarrow> ustring" where
  "lit s = map of_char s"

lemma lit_simps [simp]: "lit [] = []" "lit (c # s) = of_char c # lit s"
  by (simp_all add: lit_def)

abbreviation ch :: "char \<Rightarrow> uchar" where
  "ch c \<equiv> of_char c"

abbreviation ch_newline :: uchar where "ch_newline \<equiv> 10"
abbreviation ch_return :: uchar where "ch_return \<equiv> 13"
abbreviation ch_tab :: uchar where "ch_tab \<equiv> 9"
abbreviation ch_space :: uchar where "ch_space \<equiv> 32"
abbreviation ch_quote :: uchar where "ch_quote \<equiv> 34"
abbreviation ch_apostrophe :: uchar where "ch_apostrophe \<equiv> 39"
abbreviation ch_backslash :: uchar where "ch_backslash \<equiv> 92"

subsection \<open>UTF-8\<close>

text \<open>The values a Rust \<open>char\<close> can have.\<close>

definition is_scalar :: "uchar \<Rightarrow> bool" where
  "is_scalar c \<longleftrightarrow> c < 0xD800 \<or> (0xE000 \<le> c \<and> c < 0x110000)"

definition valid_str :: "ustring \<Rightarrow> bool" where
  "valid_str s = list_all is_scalar s"

lemma valid_str_simps [simp]:
  "valid_str []" "valid_str (c # s) \<longleftrightarrow> is_scalar c \<and> valid_str s"
  "valid_str (s @ t) \<longleftrightarrow> valid_str s \<and> valid_str t"
  by (simp_all add: valid_str_def)

definition len_utf8 :: "uchar \<Rightarrow> nat" where
  "len_utf8 c = (if c < 0x80 then 1 else if c < 0x800 then 2 else if c < 0x10000 then 3 else 4)"

text \<open>The code units as numbers, then as bytes.\<close>

definition utf8_units :: "uchar \<Rightarrow> nat list" where
  "utf8_units c =
     (if c < 0x80 then [c]
      else if c < 0x800 then [0xC0 + c div 64, 0x80 + c mod 64]
      else if c < 0x10000 then [0xE0 + c div 4096, 0x80 + c div 64 mod 64, 0x80 + c mod 64]
      else [0xF0 + c div 262144, 0x80 + c div 4096 mod 64, 0x80 + c div 64 mod 64, 0x80 + c mod 64])"

definition encode_utf8 :: "uchar \<Rightarrow> byte list" where
  "encode_utf8 c = map of_nat (utf8_units c)"

lemma length_encode_utf8 [simp]: "length (encode_utf8 c) = len_utf8 c"
  by (simp add: encode_utf8_def utf8_units_def len_utf8_def)

lemma len_utf8_pos [simp]: "0 < len_utf8 c"
  by (simp add: len_utf8_def)

lemma len_utf8_ascii [simp]: "c < 128 \<Longrightarrow> len_utf8 c = 1"
  by (simp add: len_utf8_def)

lemma len_utf8_neq_0 [simp]: "len_utf8 c \<noteq> 0"
  by (simp add: len_utf8_def)

definition as_bytes :: "ustring \<Rightarrow> byte list" where
  "as_bytes s = concat (map encode_utf8 s)"

definition str_len :: "ustring \<Rightarrow> nat" where
  "str_len s = sum_list (map len_utf8 s)"

lemma str_len_simps [simp, text_simps]:
  "str_len [] = 0" "str_len (c # s) = len_utf8 c + str_len s"
  "str_len (s @ t) = str_len s + str_len t"
  by (simp_all add: str_len_def)

lemma as_bytes_simps [simp]:
  "as_bytes [] = []" "as_bytes (c # s) = encode_utf8 c @ as_bytes s"
  "as_bytes (s @ t) = as_bytes s @ as_bytes t"
  by (simp_all add: as_bytes_def)

lemma length_as_bytes [simp]: "length (as_bytes s) = str_len s"
  by (induction s) auto

lemma str_len_eq_0 [simp]: "str_len s = 0 \<longleftrightarrow> s = []"
  by (cases s) auto

lemma str_len_pos [simp]: "0 < str_len s \<longleftrightarrow> s \<noteq> []"
  by (cases s) auto

text \<open>A newline byte in the encoding of a valid text is a newline character.\<close>

lemma utf8_units_bound: "is_scalar c \<Longrightarrow> n \<in> set (utf8_units c) \<Longrightarrow> n < 256"
proof -
  assume "is_scalar c" and n: "n \<in> set (utf8_units c)"
  then have c: "c < 0x110000" by (auto simp: is_scalar_def)
  have m: "0x80 + k mod 64 < 256" for k :: nat
    using mod_less_divisor [of 64 k] by linarith
  from n c show ?thesis
    by (auto simp: utf8_units_def m less_mult_imp_div_less split: if_splits)
qed

lemma newline_unit: "10 \<in> set (utf8_units c) \<longleftrightarrow> c = ch_newline"
  by (auto simp: utf8_units_def)

lemma newline_byte:
  assumes "is_scalar c"
  shows "(10 :: byte) \<in> set (encode_utf8 c) \<longleftrightarrow> c = ch_newline"
proof -
  have eq: "(10 :: byte) = of_nat n \<longleftrightarrow> n = 10" if "n < 256" for n
  proof -
    have "(of_nat 10 :: byte) = of_nat n \<longleftrightarrow> 10 mod 256 = n mod 256"
      by (simp only: word_unat_eq_iff unat_of_nat) simp
    with that show ?thesis by auto
  qed
  have "(10 :: byte) \<in> set (encode_utf8 c) \<longleftrightarrow> (\<exists>n \<in> set (utf8_units c). (10 :: byte) = of_nat n)"
    by (auto simp: encode_utf8_def image_iff)
  also have "\<dots> \<longleftrightarrow> 10 \<in> set (utf8_units c)"
    using utf8_units_bound [OF assms] eq by blast
  finally show ?thesis by (simp add: newline_unit)
qed

subsection \<open>Boundaries and slices\<close>

text \<open>\<open>str::is_char_boundary\<close>: the offset is 0, the length, or the start of a scalar.\<close>

fun is_char_boundary :: "ustring \<Rightarrow> nat \<Rightarrow> bool" where
  "is_char_boundary s 0 = True"
| "is_char_boundary [] (Suc i) = False"
| "is_char_boundary (c # s) (Suc i) =
     (len_utf8 c \<le> Suc i \<and> is_char_boundary s (Suc i - len_utf8 c))"

text \<open>\<open>&s[i..]\<close> and \<open>&s[..i]\<close>, \<open>None\<close> where Rust panics.\<close>

fun str_from :: "ustring \<Rightarrow> nat \<Rightarrow> ustring option" where
  "str_from s 0 = Some s"
| "str_from [] (Suc i) = None"
| "str_from (c # s) (Suc i) =
     (if len_utf8 c \<le> Suc i then str_from s (Suc i - len_utf8 c) else None)"

fun str_to :: "ustring \<Rightarrow> nat \<Rightarrow> ustring option" where
  "str_to s 0 = Some []"
| "str_to [] (Suc i) = None"
| "str_to (c # s) (Suc i) =
     (if len_utf8 c \<le> Suc i then map_option ((#) c) (str_to s (Suc i - len_utf8 c)) else None)"

text \<open>The same three functions by cases on the text only, for evaluation on binary numbers.\<close>

lemma is_char_boundary_code [code]:
  "is_char_boundary s i =
     (i = 0 \<or> (case s of [] \<Rightarrow> False | c # s' \<Rightarrow> len_utf8 c \<le> i \<and> is_char_boundary s' (i - len_utf8 c)))"
  by (cases i; cases s) auto

lemma str_from_code [code]:
  "str_from s i =
     (if i = 0 then Some s
      else case s of [] \<Rightarrow> None
        | c # s' \<Rightarrow> if len_utf8 c \<le> i then str_from s' (i - len_utf8 c) else None)"
  by (cases i; cases s) auto

lemma str_to_code [code]:
  "str_to s i =
     (if i = 0 then Some []
      else case s of [] \<Rightarrow> None
        | c # s' \<Rightarrow> if len_utf8 c \<le> i then map_option ((#) c) (str_to s' (i - len_utf8 c)) else None)"
  by (cases i; cases s) auto

text \<open>\<open>s.get(a..b)\<close>: \<open>None\<close> for a range that is not ordered, out of range or not on boundaries.\<close>

definition str_get :: "ustring \<Rightarrow> nat \<Rightarrow> nat \<Rightarrow> ustring option" where
  "str_get s a b = (if a \<le> b then do { t \<leftarrow> str_from s a; str_to t (b - a) } else None)"

lemma str_from_append [simp, text_simps]: "str_from (s @ t) (str_len s) = Some t"
proof (induction s)
  case Nil
  then show ?case by simp
next
  case (Cons c s)
  obtain n where n: "len_utf8 c + str_len s = Suc n"
    by (metis Suc_pred add_gr_0 len_utf8_pos)
  have "len_utf8 c \<le> Suc n" "Suc n - len_utf8 c = str_len s"
    using n by linarith+
  with Cons show ?case by (simp add: n)
qed

lemma str_from_len [simp]: "str_from s (str_len s) = Some []"
  using str_from_append [of s "[]"] by simp

lemma str_from_Some:
  "str_from s i = Some t \<Longrightarrow> \<exists>p. s = p @ t \<and> i = str_len p"
proof (induction s i rule: str_from.induct)
  case (1 s)
  then show ?case by (intro exI [of _ "[]"]) simp
next
  case (2 i)
  then show ?case by simp
next
  case (3 c s i)
  then obtain p where "s = p @ t" "Suc i - len_utf8 c = str_len p" "len_utf8 c \<le> Suc i"
    by (auto split: if_splits)
  then show ?case by (intro exI [of _ "c # p"]) auto
qed

lemma str_to_append [simp, text_simps]: "str_to (s @ t) (str_len s) = Some s"
proof (induction s)
  case Nil
  then show ?case by simp
next
  case (Cons c s)
  obtain n where n: "len_utf8 c + str_len s = Suc n"
    by (metis Suc_pred add_gr_0 len_utf8_pos)
  have "len_utf8 c \<le> Suc n" "Suc n - len_utf8 c = str_len s"
    using n by linarith+
  with Cons show ?case by (simp add: n)
qed

lemma str_to_len [simp]: "str_to s (str_len s) = Some s"
  using str_to_append [of s "[]"] by simp

lemma str_to_Some:
  "str_to s i = Some p \<Longrightarrow> \<exists>t. s = p @ t \<and> i = str_len p"
proof (induction s i arbitrary: p rule: str_to.induct)
  case (1 s)
  then show ?case by simp
next
  case (2 i)
  then show ?case by simp
next
  case (3 c s i)
  then obtain q where q: "str_to s (Suc i - len_utf8 c) = Some q" "p = c # q" "len_utf8 c \<le> Suc i"
    by (auto split: if_splits)
  with 3 obtain t where "s = q @ t" "Suc i - len_utf8 c = str_len q"
    by auto
  with q show ?case by auto
qed

lemma is_char_boundary_iff: "is_char_boundary s i \<longleftrightarrow> (\<exists>p t. s = p @ t \<and> i = str_len p)"
proof -
  have "is_char_boundary s i \<longleftrightarrow> (\<exists>t. str_from s i = Some t)"
    by (induction s i rule: is_char_boundary.induct) auto
  then show ?thesis by (metis str_from_Some str_from_append)
qed

lemma is_char_boundary_append [simp]: "is_char_boundary (s @ t) (str_len s)"
  by (auto simp: is_char_boundary_iff)

lemma is_char_boundary_len [simp]: "is_char_boundary s (str_len s)"
  using is_char_boundary_append [of s "[]"] by simp

lemma str_get_append [simp, text_simps]:
  "str_get (p @ m @ t) (str_len p) (str_len p + str_len m) = Some m"
  by (simp add: str_get_def)

lemma str_get_Some:
  "str_get s a b = Some m \<Longrightarrow> \<exists>p t. s = p @ m @ t \<and> a = str_len p \<and> b = str_len p + str_len m"
proof -
  assume "str_get s a b = Some m"
  then obtain t where t: "a \<le> b" "str_from s a = Some t" "str_to t (b - a) = Some m"
    by (auto simp: str_get_def bind_eq_Some_conv split: if_splits)
  from str_from_Some [OF t(2)] obtain p where p: "s = p @ t" "a = str_len p" by blast
  from str_to_Some [OF t(3)] obtain r where r: "t = m @ r" "b - a = str_len m" by blast
  from p r t(1) show ?thesis by (intro exI [of _ p] exI [of _ r]) auto
qed

text \<open>Prefixes of one text are determined by their byte length.\<close>

lemma str_len_split_unique:
  "p @ t = q @ u \<Longrightarrow> str_len p = str_len q \<Longrightarrow> p = q \<and> t = u"
  by (metis option.inject str_from_append str_to_append)

lemma str_len_prefix_le:
  "p @ t = q @ u \<Longrightarrow> str_len p \<le> str_len q \<Longrightarrow> \<exists>m. q = p @ m \<and> t = m @ u"
proof -
  assume eq: "p @ t = q @ u" and le: "str_len p \<le> str_len q"
  from eq consider (left) m where "p = q @ m" "u = m @ t" | (right) m where "q = p @ m" "t = m @ u"
    by (auto simp: append_eq_append_conv2)
  then show ?thesis
  proof cases
    case left
    with le have "str_len m = 0" by simp
    with left show ?thesis by simp
  next
    case right
    then show ?thesis by blast
  qed
qed

subsection \<open>Character classes\<close>

text \<open>\<open>char::is_whitespace\<close>: the Unicode property \<open>White_Space\<close>.\<close>

definition is_whitespace :: "uchar \<Rightarrow> bool" where
  "is_whitespace c \<longleftrightarrow> (9 \<le> c \<and> c \<le> 13) \<or> c = 32 \<or> c = 0x85 \<or> c = 0xA0 \<or> c = 0x1680 \<or>
     (0x2000 \<le> c \<and> c \<le> 0x200A) \<or> c = 0x2028 \<or> c = 0x2029 \<or> c = 0x202F \<or> c = 0x205F \<or> c = 0x3000"

text \<open>\<open>char::is_control\<close>: general category \<open>Cc\<close>.\<close>

definition is_control :: "uchar \<Rightarrow> bool" where
  "is_control c \<longleftrightarrow> c < 32 \<or> (127 \<le> c \<and> c < 160)"

definition is_ascii_digit :: "uchar \<Rightarrow> bool" where
  "is_ascii_digit c \<longleftrightarrow> 48 \<le> c \<and> c \<le> 57"

definition is_ascii_alphabetic :: "uchar \<Rightarrow> bool" where
  "is_ascii_alphabetic c \<longleftrightarrow> (65 \<le> c \<and> c \<le> 90) \<or> (97 \<le> c \<and> c \<le> 122)"

definition is_ascii_alphanumeric :: "uchar \<Rightarrow> bool" where
  "is_ascii_alphanumeric c \<longleftrightarrow> is_ascii_alphabetic c \<or> is_ascii_digit c"

definition to_ascii_lowercase :: "uchar \<Rightarrow> uchar" where
  "to_ascii_lowercase c = (if 65 \<le> c \<and> c \<le> 90 then c + 32 else c)"

lemmas char_class_defs = is_whitespace_def is_control_def is_ascii_digit_def
  is_ascii_alphabetic_def is_ascii_alphanumeric_def to_ascii_lowercase_def

subsection \<open>Searching and trimming\<close>

definition starts_with :: "ustring \<Rightarrow> ustring \<Rightarrow> bool" where
  "starts_with s p \<longleftrightarrow> take (length p) s = p"

definition ends_with :: "ustring \<Rightarrow> ustring \<Rightarrow> bool" where
  "ends_with s p \<longleftrightarrow> starts_with (rev s) (rev p)"

lemma starts_with_simps [simp]:
  "starts_with s []" "starts_with (c # s) (d # p) \<longleftrightarrow> c = d \<and> starts_with s p"
  "\<not> starts_with [] (d # p)"
  by (auto simp: starts_with_def)

lemma starts_with_iff: "starts_with s p \<longleftrightarrow> (\<exists>t. s = p @ t)"
  by (metis append_eq_conv_conj starts_with_def)

lemma ends_with_iff: "ends_with s p \<longleftrightarrow> (\<exists>t. s = t @ p)"
  by (auto simp: ends_with_def starts_with_iff) (metis rev_append rev_rev_ident)

definition strip_prefix :: "ustring \<Rightarrow> ustring \<Rightarrow> ustring option" where
  "strip_prefix s p = (if starts_with s p then Some (drop (length p) s) else None)"

lemma strip_prefix_eq_Some: "strip_prefix s p = Some t \<longleftrightarrow> s = p @ t"
  by (auto simp: strip_prefix_def starts_with_iff)

definition trim_start_matches :: "(uchar \<Rightarrow> bool) \<Rightarrow> ustring \<Rightarrow> ustring" where
  "trim_start_matches P s = dropWhile P s"

definition trim_end_matches :: "(uchar \<Rightarrow> bool) \<Rightarrow> ustring \<Rightarrow> ustring" where
  "trim_end_matches P s = rev (dropWhile P (rev s))"

definition trim :: "ustring \<Rightarrow> ustring" where
  "trim s = trim_end_matches is_whitespace (trim_start_matches is_whitespace s)"

lemma filter_trim_start: "(\<And>c. P c \<Longrightarrow> \<not> Q c) \<Longrightarrow> filter Q (trim_start_matches P s) = filter Q s"
  by (induction s) (auto simp: trim_start_matches_def)

lemma filter_trim_end: "(\<And>c. P c \<Longrightarrow> \<not> Q c) \<Longrightarrow> filter Q (trim_end_matches P s) = filter Q s"
proof -
  assume a: "\<And>c. P c \<Longrightarrow> \<not> Q c"
  have "filter Q (dropWhile P (rev s)) = filter Q (rev s)"
    using filter_trim_start [of P Q "rev s", OF a] by (simp add: trim_start_matches_def)
  then show ?thesis by (simp add: trim_end_matches_def flip: rev_filter)
qed

lemma filter_trim: "(\<And>c. is_whitespace c \<Longrightarrow> \<not> Q c) \<Longrightarrow> filter Q (trim s) = filter Q s"
  by (simp add: trim_def filter_trim_start filter_trim_end)

subsection \<open>Splitting and joining\<close>

text \<open>\<open>str::split\<close> with a one-character pattern: always at least one piece.\<close>

fun split_on :: "uchar \<Rightarrow> ustring \<Rightarrow> ustring list" where
  "split_on d [] = [[]]"
| "split_on d (c # s) =
     (if c = d then [] # split_on d s
      else (case split_on d s of [] \<Rightarrow> [[c]] | w # ws \<Rightarrow> (c # w) # ws))"

text \<open>\<open>slice.join\<close> with a one-character separator.\<close>

fun join_with :: "uchar \<Rightarrow> ustring list \<Rightarrow> ustring" where
  "join_with d [] = []"
| "join_with d [w] = w"
| "join_with d (w # ws) = w @ d # join_with d ws"

lemma split_on_neq_Nil [simp]: "split_on d s \<noteq> []"
  by (induction s) (auto split: list.splits)

lemma join_split [simp]: "join_with d (split_on d s) = s"
proof (induction s)
  case Nil
  then show ?case by simp
next
  case (Cons c s)
  obtain w ws where w: "split_on d s = w # ws" by (cases "split_on d s") auto
  with Cons show ?case by (cases ws) auto
qed

lemma split_on_no_sep: "w \<in> set (split_on d s) \<Longrightarrow> d \<notin> set w"
proof (induction s arbitrary: w)
  case Nil
  then show ?case by simp
next
  case (Cons c s)
  then show ?case by (cases "split_on d s") (auto split: if_splits)
qed

lemma split_on_word: "d \<notin> set w \<Longrightarrow> split_on d w = [w]"
  by (induction w) auto

lemma split_on_append: "d \<notin> set w \<Longrightarrow> split_on d (w @ d # s) = w # split_on d s"
  by (induction w) auto

lemma split_join: "ws \<noteq> [] \<Longrightarrow> \<forall>w \<in> set ws. d \<notin> set w \<Longrightarrow> split_on d (join_with d ws) = ws"
  by (induction d ws rule: join_with.induct) (auto simp: split_on_word split_on_append)

lemma set_split_on: "w \<in> set (split_on d s) \<Longrightarrow> set w \<subseteq> set s"
proof (induction s arbitrary: w)
  case Nil
  then show ?case by simp
next
  case (Cons c s)
  show ?case
  proof (cases "c = d")
    case True
    with Cons show ?thesis by (auto dest: Cons.IH)
  next
    case False
    obtain v vs where v: "split_on d s = v # vs" by (cases "split_on d s") auto
    with False Cons.prems consider "w = c # v" | "w \<in> set vs" by auto
    then show ?thesis
    proof cases
      case 1
      then show ?thesis using Cons.IH [of v] v by auto
    next
      case 2
      then show ?thesis using Cons.IH [of w] v by auto
    qed
  qed
qed

lemma join_with_eq_Nil: "\<forall>w \<in> set ws. w \<noteq> [] \<Longrightarrow> join_with d ws = [] \<longleftrightarrow> ws = []"
  by (induction d ws rule: join_with.induct) auto

subsection \<open>Numbers as text\<close>

text \<open>\<open>usize::to_string\<close>: decimal digits without leading zeros.\<close>

fun nat_to_string :: "nat \<Rightarrow> ustring" where
  "nat_to_string n = (if n < 10 then [48 + n] else nat_to_string (n div 10) @ [48 + n mod 10])"

declare nat_to_string.simps [simp del]

lemma nat_to_string_digits: "\<forall>c \<in> set (nat_to_string n). is_ascii_digit c"
proof (induction n rule: nat_to_string.induct)
  case (1 n)
  show ?case
  proof (cases "n < 10")
    case True
    then show ?thesis by (simp add: nat_to_string.simps [of n] is_ascii_digit_def)
  next
    case False
    then show ?thesis
      using 1 by (auto simp: nat_to_string.simps [of n] is_ascii_digit_def)
  qed
qed

lemma nat_to_string_neq_Nil [simp]: "nat_to_string n \<noteq> []"
  by (simp add: nat_to_string.simps [of n])

definition hex_digit :: "nat \<Rightarrow> uchar" where
  "hex_digit d = (if d < 10 then 48 + d else 87 + d)"

text \<open>\<open>{:0nx}\<close> for a value below \<open>16^n\<close>: \<open>n\<close> lower-case hexadecimal digits.\<close>

fun hex_digits :: "nat \<Rightarrow> nat \<Rightarrow> ustring" where
  "hex_digits 0 v = []"
| "hex_digits (Suc n) v = hex_digits n (v div 16) @ [hex_digit (v mod 16)]"

lemma length_hex_digits [simp]: "length (hex_digits n v) = n"
  by (induction n arbitrary: v) auto

end
