(* ===== verification/Determinism.thy ===== *)
theory Determinism
  imports Rust_Text
begin

text \<open>
  The crate \<open>jadren-determinism\<close>: the streaming FNV-1a hasher with its length-delimited field
  helpers, the fingerprints every other crate derives from it, and the lexical path
  normalisation. Shown here: chunking does not change a hash, two inputs that differ in one
  byte never share a fingerprint, and normalisation reaches a normal form.
\<close>

unbundle bit_operations_syntax

subsection \<open>Fingerprints\<close>

definition FNV1A_OFFSET :: "64 word" where
  "FNV1A_OFFSET = 0xcbf29ce484222325"

definition FNV1A_PRIME :: "64 word" where
  "FNV1A_PRIME = 0x00000100000001b3"

datatype Fingerprint = Fingerprint (as_u64: "64 word")

definition from_u64 :: "64 word \<Rightarrow> Fingerprint" where
  "from_u64 v = Fingerprint v"

text \<open>\<open>{:016x}\<close>: sixteen lower-case hexadecimal digits.\<close>

definition fingerprint_to_string :: "Fingerprint \<Rightarrow> ustring" where
  "fingerprint_to_string f = hex_digits 16 (unat (as_u64 f))"

subsection \<open>The hasher\<close>

record StableHasher =
  hash_state :: "64 word"

definition hasher_new :: StableHasher where
  "hasher_new = \<lparr>hash_state = FNV1A_OFFSET\<rparr>"

text \<open>The loop of \<open>update\<close>: xor in the byte, multiply by the prime, modulo \<open>2^64\<close>.\<close>

fun hash_update :: "StableHasher \<Rightarrow> byte list \<Rightarrow> StableHasher" where
  "hash_update h [] = h"
| "hash_update h (b # bs) =
     hash_update (h\<lparr>hash_state := (hash_state h XOR ucast b) * FNV1A_PRIME\<rparr>) bs"

definition to_le_bytes :: "64 word \<Rightarrow> byte list" where
  "to_le_bytes v = map (\<lambda>i. ucast (drop_bit (8 * i) v)) [0..<8]"

definition write_u64 :: "StableHasher \<Rightarrow> 64 word \<Rightarrow> StableHasher" where
  "write_u64 h v = hash_update h (to_le_bytes v)"

definition write_bytes :: "StableHasher \<Rightarrow> byte list \<Rightarrow> StableHasher" where
  "write_bytes h bs = hash_update (write_u64 h (of_nat (length bs))) bs"

definition write_str :: "StableHasher \<Rightarrow> ustring \<Rightarrow> StableHasher" where
  "write_str h s = write_bytes h (as_bytes s)"

definition write_bool :: "StableHasher \<Rightarrow> bool \<Rightarrow> StableHasher" where
  "write_bool h b = hash_update h [if b then 1 else 0]"

definition with_domain :: "ustring \<Rightarrow> StableHasher" where
  "with_domain domain = write_str hasher_new domain"

definition hash_finish :: "StableHasher \<Rightarrow> Fingerprint" where
  "hash_finish h = Fingerprint (hash_state h)"

definition fingerprint_bytes :: "ustring \<Rightarrow> byte list \<Rightarrow> Fingerprint" where
  "fingerprint_bytes domain bs = hash_finish (write_bytes (with_domain domain) bs)"

subsection \<open>A streaming hasher as an interface\<close>

text \<open>
  What the clients of a streaming hash rely on: feeding two chunks is feeding their
  concatenation, and feeding one further byte is injective in the state and in the byte.
  Everything the fingerprints promise follows from these three laws.
\<close>

locale streaming_hash =
  fixes upd :: "'s \<Rightarrow> 'b list \<Rightarrow> 's"
  assumes upd_Nil: "upd h [] = h"
    and upd_append: "upd h (xs @ ys) = upd (upd h xs) ys"
    and upd_inj_state: "upd g [b] = upd h [b] \<Longrightarrow> g = h"
    and upd_inj_byte: "upd h [a] = upd h [b] \<Longrightarrow> a = b"
begin

lemma upd_inj: "upd g xs = upd h xs \<Longrightarrow> g = h"
proof (induction xs arbitrary: g h)
  case Nil
  then show ?case by (simp add: upd_Nil)
next
  case (Cons x xs)
  then have "upd (upd g [x]) xs = upd (upd h [x]) xs"
    using upd_append [of _ "[x]" xs] by simp
  then show ?case by (blast dest: Cons.IH upd_inj_state)
qed

lemma upd_one_byte:
  "upd h (xs @ a # ys) = upd h (xs @ b # ys) \<longleftrightarrow> a = b"
proof
  assume "upd h (xs @ a # ys) = upd h (xs @ b # ys)"
  then have "upd (upd (upd h xs) [a]) ys = upd (upd (upd h xs) [b]) ys"
    using upd_append [of _ "[_]" ys] upd_append [of h xs] by simp
  then show "a = b" by (blast dest: upd_inj upd_inj_byte)
qed simp

lemma upd_concat: "foldl upd h chunks = upd h (concat chunks)"
  by (induction chunks arbitrary: h) (simp_all add: upd_Nil upd_append)

end

lemma fnv_prime_inverse: "FNV1A_PRIME * 0xce965057aff6957b = 1"
  by (simp add: FNV1A_PRIME_def)

lemma fnv_mult_inj: "x * FNV1A_PRIME = y * FNV1A_PRIME \<longleftrightarrow> x = y"
proof
  assume "x * FNV1A_PRIME = y * FNV1A_PRIME"
  then have "x * (FNV1A_PRIME * 0xce965057aff6957b) = y * (FNV1A_PRIME * 0xce965057aff6957b)"
    by (simp only: mult.assoc [symmetric])
  then show "x = y" by (simp only: fnv_prime_inverse mult_1_right)
qed simp

lemma xor_right_cancel: "(x XOR z) = (y XOR z) \<longleftrightarrow> x = (y :: 'a :: len word)"
  by (metis xor.assoc xor.right_neutral xor_self_eq)

lemma hash_update_append: "hash_update h (xs @ ys) = hash_update (hash_update h xs) ys"
  by (induction xs arbitrary: h) simp_all

lemma xor_left_cancel: "(z XOR x) = (z XOR y) \<longleftrightarrow> x = (y :: 'a :: len word)"
  by (simp add: xor_right_cancel xor.commute [of z])

lemma ucast_byte_inj: "(ucast (a :: byte) :: 64 word) = ucast b \<longleftrightarrow> a = b"
proof
  assume "(ucast a :: 64 word) = ucast b"
  then have "ucast (ucast a :: 64 word) = (ucast (ucast b :: 64 word) :: byte)" by simp
  then show "a = b" by (simp add: ucast_up_ucast_id is_up)
qed simp

interpretation fnv: streaming_hash hash_update
proof unfold_locales
  show "hash_update h [] = h" for h by simp
  show "hash_update h (xs @ ys) = hash_update (hash_update h xs) ys" for h xs ys
    by (rule hash_update_append)
  show "g = h" if "hash_update g [b] = hash_update h [b]" for g h :: StableHasher and b
    using that by (cases g; cases h) (simp add: fnv_mult_inj xor_right_cancel)
  show "a = b" if "hash_update h [a] = hash_update h [b]" for h a b
    using that by (cases h) (simp add: fnv_mult_inj ucast_byte_inj xor_left_cancel)
qed

subsection \<open>Lexical path normalisation\<close>

abbreviation ch_slash :: uchar where "ch_slash \<equiv> 47"
abbreviation ch_colon :: uchar where "ch_colon \<equiv> 58"

definition split_prefix :: "ustring \<Rightarrow> ustring \<times> ustring \<times> bool" where
  "split_prefix path =
     (case strip_prefix path (lit ''//'') of
        Some rest \<Rightarrow> (lit ''//'', rest, True)
      | None \<Rightarrow>
        (case strip_prefix path (lit ''/'') of
           Some rest \<Rightarrow> (lit ''/'', rest, True)
         | None \<Rightarrow>
           (case path of
              drive # colon # rest \<Rightarrow>
                if colon = ch_colon \<and> is_ascii_alphabetic drive then
                  let d = to_ascii_lowercase drive; rooted = starts_with rest (lit ''/'')
                  in (if rooted then d # lit '':/'' else d # lit '':'',
                      trim_start_matches (\<lambda>c. c = ch_slash) rest, rooted)
                else ([], path, False)
            | _ \<Rightarrow> ([], path, False))))"

text \<open>The loop over the components; \<open>components\<close> is the stack the source pushes and pops.\<close>

fun collapse_components :: "bool \<Rightarrow> ustring list \<Rightarrow> ustring list \<Rightarrow> ustring list" where
  "collapse_components rooted components [] = components"
| "collapse_components rooted components (component # rest) =
     collapse_components rooted
       (if component = [] \<or> component = lit ''.'' then components
        else if component = lit ''..'' \<and> components \<noteq> [] \<and> last components \<noteq> lit ''..''
          then butlast components
        else if component = lit ''..'' \<and> \<not> rooted then components @ [component]
        else if component = lit ''..'' then components
        else components @ [component])
       rest"

definition normalize_path :: "ustring \<Rightarrow> ustring" where
  "normalize_path path =
     (let raw = map (\<lambda>c. if c = ch_backslash then ch_slash else c) path;
          (prefix, rest, rooted) = split_prefix raw;
          body = join_with ch_slash (collapse_components rooted [] (split_on ch_slash rest))
      in if prefix = [] \<and> body = [] then lit ''.''
         else if body = [] then prefix
         else if prefix = [] then body
         else if ends_with prefix (lit ''/'') then prefix @ body
         else prefix @ lit ''/'' @ body)"

text \<open>
  The normal form of a component list: no empty, \<open>.\<close> or separator-holding component, every
  \<open>..\<close> in front, and none at all under a root.
\<close>

definition canonical_components :: "bool \<Rightarrow> ustring list \<Rightarrow> bool" where
  "canonical_components rooted cs \<longleftrightarrow>
     (\<forall>c \<in> set cs. c \<noteq> [] \<and> c \<noteq> lit ''.'' \<and> ch_slash \<notin> set c) \<and>
     (rooted \<longrightarrow> lit ''..'' \<notin> set cs) \<and>
     (\<exists>n rest. cs = replicate n (lit ''..'') @ rest \<and> lit ''..'' \<notin> set rest)"

lemma canonical_components_Nil: "canonical_components rooted []"
  by (auto simp: canonical_components_def)

lemma canonical_components_butlast:
  assumes "canonical_components rooted cs" "cs \<noteq> []" "last cs \<noteq> lit ''..''"
  shows "canonical_components rooted (butlast cs)"
proof -
  from assms(1) obtain n rest where n: "cs = replicate n (lit ''..'') @ rest" "lit ''..'' \<notin> set rest"
    by (auto simp: canonical_components_def)
  have "rest \<noteq> []"
  proof
    assume "rest = []"
    with n(1) have "cs = replicate n (lit ''..'')" by simp
    with assms(2,3) show False by (metis last_replicate replicate_empty)
  qed
  with n have "butlast cs = replicate n (lit ''..'') @ butlast rest" "lit ''..'' \<notin> set (butlast rest)"
    by (auto simp: butlast_append dest: in_set_butlastD)
  with assms(1) show ?thesis
    unfolding canonical_components_def by (meson in_set_butlastD)
qed

lemma canonical_components_snoc:
  assumes "canonical_components rooted cs" "c \<noteq> []" "c \<noteq> lit ''.''" "ch_slash \<notin> set c" "c \<noteq> lit ''..''"
  shows "canonical_components rooted (cs @ [c])"
proof -
  from assms(1) obtain n rest where n: "cs = replicate n (lit ''..'') @ rest" "lit ''..'' \<notin> set rest"
    by (auto simp: canonical_components_def)
  then have "cs @ [c] = replicate n (lit ''..'') @ (rest @ [c])" "lit ''..'' \<notin> set (rest @ [c])"
    using assms(5) by auto
  with assms show ?thesis
    unfolding canonical_components_def by fastforce
qed

lemma canonical_components_up:
  assumes "canonical_components False cs" "cs = [] \<or> last cs = lit ''..''"
  shows "canonical_components False (cs @ [lit ''..''])"
proof -
  from assms(1) obtain n rest where n: "cs = replicate n (lit ''..'') @ rest" "lit ''..'' \<notin> set rest"
    by (auto simp: canonical_components_def)
  have "rest = []"
  proof (rule ccontr)
    assume "rest \<noteq> []"
    with n assms(2) have "lit ''..'' \<in> set rest" by (metis append_is_Nil_conv last_appendR last_in_set)
    with n show False by simp
  qed
  with n have "cs @ [lit ''..''] = replicate (Suc n) (lit ''..'') @ []"
    by (simp only: append_Nil2 replicate_append_same [symmetric] replicate_Suc)
  then have ex: "\<exists>n rest. cs @ [lit ''..''] = replicate n (lit ''..'') @ rest \<and> lit ''..'' \<notin> set rest"
    by (metis list.set(1) empty_iff)
  from assms(1) have "\<forall>c \<in> set (cs @ [lit ''..'']). c \<noteq> [] \<and> c \<noteq> lit ''.'' \<and> ch_slash \<notin> set c"
    by (auto simp: canonical_components_def)
  with ex show ?thesis unfolding canonical_components_def by blast
qed

lemma collapse_components_canonical:
  "canonical_components rooted acc \<Longrightarrow> \<forall>c \<in> set cs. ch_slash \<notin> set c \<Longrightarrow>
   canonical_components rooted (collapse_components rooted acc cs)"
proof (induction rooted acc cs rule: collapse_components.induct)
  case (1 rooted acc)
  then show ?case by simp
next
  case (2 rooted acc c cs)
  have "canonical_components rooted
     (if c = [] \<or> c = lit ''.'' then acc
      else if c = lit ''..'' \<and> acc \<noteq> [] \<and> last acc \<noteq> lit ''..'' then butlast acc
      else if c = lit ''..'' \<and> \<not> rooted then acc @ [c]
      else if c = lit ''..'' then acc
      else acc @ [c])" (is "canonical_components rooted ?acc")
    using "2.prems" canonical_components_butlast [of rooted acc]
      canonical_components_up [of acc] canonical_components_snoc [of rooted acc c]
    by (cases rooted) (auto simp del: lit_simps)
  with 2 show ?case by (simp del: lit_simps)
qed

lemma collapse_components_id:
  "canonical_components rooted (acc @ cs) \<Longrightarrow> collapse_components rooted acc cs = acc @ cs"
proof (induction cs arbitrary: acc)
  case Nil
  then show ?case by simp
next
  case (Cons c cs)
  from Cons.prems obtain n rest where n: "acc @ c # cs = replicate n (lit ''..'') @ rest"
    "lit ''..'' \<notin> set rest" by (auto simp: canonical_components_def)
  have c: "c \<noteq> []" "c \<noteq> lit ''.''" "rooted \<Longrightarrow> c \<noteq> lit ''..''"
    using Cons.prems by (auto simp: canonical_components_def)
  have up: "acc = [] \<or> last acc = lit ''..''" if "c = lit ''..''"
  proof (cases "length acc < n")
    case True
    then have "acc = take (length acc) (replicate n (lit ''..'') @ rest)"
      by (metis append_eq_conv_conj n(1))
    with True have "acc = replicate (length acc) (lit ''..'')" by simp
    then show ?thesis by (metis last_replicate replicate_empty)
  next
    case False
    then have "c \<in> set rest"
      by (metis (no_types, opaque_lifting) n(1) append_eq_append_conv_if append_take_drop_id
          length_replicate not_less in_set_conv_decomp drop_eq_Nil nth_append nth_append_length nth_mem
          length_append length_Cons add_less_cancel_left less_add_Suc1 le_add_diff_inverse)
    with that n(2) show ?thesis by simp
  qed
  have "collapse_components rooted acc (c # cs) = collapse_components rooted (acc @ [c]) cs"
    using c up by (auto simp del: lit_simps)
  also have "\<dots> = (acc @ [c]) @ cs" using Cons.prems by (intro Cons.IH) simp
  finally show ?case by simp
qed

lemma set_collapse_components: "set (collapse_components rooted acc cs) \<subseteq> set acc \<union> set cs"
  by (induction rooted acc cs rule: collapse_components.induct)
    (auto simp del: lit_simps dest: in_set_butlastD split: if_splits)

lemma set_join_with: "set (join_with d ws) \<subseteq> insert d (\<Union> (set ` set ws))"
  by (induction d ws rule: join_with.induct) auto

lemma canonical_join_head:
  assumes "canonical_components rooted cs" "cs \<noteq> []"
  obtains c t where "join_with ch_slash cs = c # t" "c \<noteq> ch_slash"
proof -
  from assms obtain w ws where w: "cs = w # ws" "w \<noteq> []" "ch_slash \<notin> set w"
    by (cases cs) (auto simp: canonical_components_def)
  obtain c w' where "w = c # w'" using w by (cases w) auto
  with w that show ?thesis by (cases ws) auto
qed

text \<open>How the source puts a prefix and the collapsed components together.\<close>

definition render_path :: "ustring \<Rightarrow> ustring list \<Rightarrow> ustring" where
  "render_path prefix cs = (if prefix = [] \<and> cs = [] then lit ''.'' else prefix @ join_with ch_slash cs)"

definition separators_to_slash :: "ustring \<Rightarrow> ustring" where
  "separators_to_slash path = map (\<lambda>c. if c = ch_backslash then ch_slash else c) path"

lemma separators_to_slash_id: "ch_backslash \<notin> set p \<Longrightarrow> separators_to_slash p = p"
  unfolding separators_to_slash_def by (rule map_idI) auto

lemma set_separators_to_slash: "set (separators_to_slash p) \<subseteq> insert ch_slash (set p - {ch_backslash})"
  by (auto simp: separators_to_slash_def)

lemma split_on_collapse_canonical:
  "canonical_components rooted (collapse_components rooted [] (split_on ch_slash rest))"
  by (rule collapse_components_canonical)
    (auto simp: canonical_components_Nil dest: split_on_no_sep)

lemma normalize_path_eq_render:
  assumes "split_prefix (separators_to_slash p) = (prefix, rest, rooted)"
    and "prefix \<in> {[], lit ''/'', lit ''//''}"
  shows "normalize_path p = render_path prefix (collapse_components rooted [] (split_on ch_slash rest))"
proof -
  let ?cs = "collapse_components rooted [] (split_on ch_slash rest)"
  have "join_with ch_slash ?cs = [] \<longleftrightarrow> ?cs = []"
    using split_on_collapse_canonical [of rooted rest]
    by (intro join_with_eq_Nil) (simp add: canonical_components_def)
  with assms show ?thesis
    by (auto simp: normalize_path_def render_path_def separators_to_slash_def [symmetric] Let_def
        ends_with_def)
qed

lemma split_prefix_no_colon:
  assumes "ch_colon \<notin> set p" and "split_prefix p = (prefix, rest, rooted)"
  shows "prefix \<in> {[], lit ''/'', lit ''//''} \<and> (rooted \<longleftrightarrow> prefix \<noteq> []) \<and> set rest \<subseteq> set p"
  using assms
  by (auto simp: split_prefix_def strip_prefix_def starts_with_iff split: list.splits if_splits)

lemma split_prefix_render:
  assumes "canonical_components rooted cs" "rooted \<longleftrightarrow> prefix \<noteq> []"
    and "prefix \<in> {[], lit ''/'', lit ''//''}" "ch_colon \<notin> set (join_with ch_slash cs)"
  shows "split_prefix (render_path prefix cs) =
           (prefix, if prefix = [] \<and> cs = [] then lit ''.'' else join_with ch_slash cs, rooted)"
proof (cases "cs = []")
  case True
  with assms(2,3) show ?thesis
    by (auto simp: render_path_def split_prefix_def strip_prefix_def starts_with_def)
next
  case False
  obtain c t where "join_with ch_slash cs = c # t" "c \<noteq> ch_slash"
    using canonical_join_head [OF assms(1) False] .
  with assms False show ?thesis
    by (auto simp: render_path_def split_prefix_def strip_prefix_def starts_with_def split: list.splits)
qed

lemma normalize_path_render:
  assumes "canonical_components rooted cs" "rooted \<longleftrightarrow> prefix \<noteq> []"
    and "prefix \<in> {[], lit ''/'', lit ''//''}" "set (join_with ch_slash cs) \<inter> {ch_colon, ch_backslash} = {}"
  shows "normalize_path (render_path prefix cs) = render_path prefix cs"
proof -
  have raw: "separators_to_slash (render_path prefix cs) = render_path prefix cs"
    using assms(3,4) by (intro separators_to_slash_id) (auto simp: render_path_def)
  have coll: "collapse_components rooted [] cs = cs"
    using collapse_components_id [of rooted "[]" cs] assms(1) by simp
  have sp: "split_prefix (render_path prefix cs) =
      (prefix, if prefix = [] \<and> cs = [] then lit ''.'' else join_with ch_slash cs, rooted)"
    using assms by (intro split_prefix_render) auto
  have split: "split_on ch_slash (join_with ch_slash cs) = cs" if "cs \<noteq> []"
    using assms(1) that by (intro split_join) (auto simp: canonical_components_def)
  have sp': "split_prefix (separators_to_slash (render_path prefix cs)) =
      (prefix, if prefix = [] \<and> cs = [] then lit ''.'' else join_with ch_slash cs, rooted)"
    by (simp only: raw sp)
  show ?thesis
    using normalize_path_eq_render [OF sp' assms(3)] split coll
    by (cases "cs = []") (auto simp: render_path_def)
qed

subsection \<open>Properties\<close>

text \<open>
  A fingerprint separates any two inputs of one domain that differ in a single byte: the
  FNV-1a step is injective in the state (the prime is odd) and in the byte.
\<close>

theorem fingerprint_one_byte:
  "fingerprint_bytes domain (xs @ a # ys) = fingerprint_bytes domain (xs @ b # ys) \<longleftrightarrow> a = b"
proof -
  have "hash_update h (xs @ a # ys) = hash_update h (xs @ b # ys) \<longleftrightarrow> a = b" for h
    by (rule fnv.upd_one_byte)
  moreover have "hash_state g = hash_state h \<longleftrightarrow> g = h" for g h :: StableHasher
    by (cases g; cases h) simp
  ultimately show ?thesis
    by (simp add: fingerprint_bytes_def hash_finish_def write_bytes_def)
qed

text \<open>
  Chunking does not change a hash: feeding any sequence of chunks to \<open>update\<close> gives the
  state that feeding their concatenation gives.
\<close>

theorem update_chunking: "foldl hash_update h chunks = hash_update h (concat chunks)"
  by (rule fnv.upd_concat)

text \<open>
  Path normalisation reaches a normal form: on every path without a colon (no drive letter)
  a second normalisation changes nothing.
\<close>

theorem normalize_path_idempotent:
  assumes "ch_colon \<notin> set p"
  shows "normalize_path (normalize_path p) = normalize_path p"
proof -
  let ?raw = "separators_to_slash p"
  obtain prefix rest rooted where sp: "split_prefix ?raw = (prefix, rest, rooted)"
    by (cases "split_prefix ?raw") auto
  have colon: "ch_colon \<notin> set ?raw" and backsl: "ch_backslash \<notin> set ?raw"
    using set_separators_to_slash [of p] assms by auto
  from split_prefix_no_colon [OF colon sp]
  have pre: "prefix \<in> {[], lit ''/'', lit ''//''}" "rooted \<longleftrightarrow> prefix \<noteq> []" "set rest \<subseteq> set ?raw"
    by auto
  let ?cs = "collapse_components rooted [] (split_on ch_slash rest)"
  have "set w \<subseteq> set rest" if "w \<in> set ?cs" for w
    using that set_collapse_components [of rooted "[]" "split_on ch_slash rest"]
    by (auto dest: set_split_on)
  then have "set (join_with ch_slash ?cs) \<subseteq> insert ch_slash (set ?raw)"
    using set_join_with [of ch_slash ?cs] pre(3) by blast
  with colon backsl have "set (join_with ch_slash ?cs) \<inter> {ch_colon, ch_backslash} = {}" by auto
  with normalize_path_render [OF split_on_collapse_canonical pre(2,1)]
  show ?thesis by (simp add: normalize_path_eq_render [OF sp pre(1)])
qed

theorem normalize_path_idempotent_witness:
  "ch_colon \<notin> set (lit ''src/./a/../b'') \<and>
   normalize_path (normalize_path (lit ''src/./a/../b'')) = lit ''src/b''"
proof -
  have h: "ch_colon \<notin> set (lit ''src/./a/../b'')" by simp
  have "normalize_path (lit ''src/./a/../b'') = lit ''src/b''" by code_simp
  with h normalize_path_idempotent [OF h] show ?thesis by simp
qed

text \<open>
  A drive-relative path is not preserved: the source joins prefix and body with a slash, so
  \<open>C:..\<close> becomes the rooted \<open>c:/..\<close>, which a second normalisation maps to \<open>c:/\<close>, and the
  drive-relative \<open>C:lib\<close> and the absolute \<open>C:/lib\<close> share one normal form.
\<close>

theorem normalize_path_drive_relative:
  "normalize_path (lit ''C:..'') = lit ''c:/..'' \<and>
   normalize_path (normalize_path (lit ''C:..'')) = lit ''c:/'' \<and>
   normalize_path (lit ''C:lib'') = normalize_path (lit ''C:/lib'')"
  by code_simp

end
