(* ===== verification/Source.thy ===== *)
theory Source
  imports Determinism
begin

text \<open>
  The crate \<open>jadren-source\<close>: source files of one compiler session, half-open byte spans, the
  mapping of byte offsets to lines and columns, and slicing. Shown here: line and column are
  what counting newlines and characters gives, spans slice exactly the text between two
  character boundaries, and the session's identifiers are the registration order.
\<close>

subsection \<open>Identifiers, spans and locations\<close>

datatype SourceId = SourceId (source_index: "32 word")

record Span =
  span_source :: SourceId
  span_start :: nat
  span_end :: nat

definition span_new :: "SourceId \<Rightarrow> nat \<Rightarrow> nat \<Rightarrow> Span option" where
  "span_new s a b = (if a \<le> b then Some \<lparr>span_source = s, span_start = a, span_end = b\<rparr> else None)"

definition span_empty :: "SourceId \<Rightarrow> nat \<Rightarrow> Span" where
  "span_empty s offset = \<lparr>span_source = s, span_start = offset, span_end = offset\<rparr>"

definition span_len :: "Span \<Rightarrow> nat" where
  "span_len sp = span_end sp - span_start sp"

definition span_is_empty :: "Span \<Rightarrow> bool" where
  "span_is_empty sp \<longleftrightarrow> span_start sp = span_end sp"

record Location =
  line :: nat
  column :: nat

subsection \<open>Source files\<close>

record SourceFile =
  file_id :: SourceId
  file_path :: ustring
  file_text :: ustring
  line_starts :: "nat list"
  stable_hash :: "64 word"

text \<open>The loop of \<open>compute_line_starts\<close> over the bytes and their indices.\<close>

fun line_starts_from :: "nat \<Rightarrow> byte list \<Rightarrow> nat list" where
  "line_starts_from index [] = []"
| "line_starts_from index (b # bs) =
     (if b = 10 then (index + 1) # line_starts_from (index + 1) bs
      else line_starts_from (index + 1) bs)"

definition compute_line_starts :: "ustring \<Rightarrow> nat list" where
  "compute_line_starts s = 0 # line_starts_from 0 (as_bytes s)"

definition source_file_new :: "SourceId \<Rightarrow> ustring \<Rightarrow> ustring \<Rightarrow> SourceFile" where
  "source_file_new i p s =
     \<lparr>file_id = i, file_path = p, file_text = s, line_starts = compute_line_starts s,
      stable_hash = as_u64 (fingerprint_bytes (lit ''jadren-source-v1'') (as_bytes s))\<rparr>"

text \<open>\<open>partition_point\<close> on a partitioned slice: the length of the prefix that satisfies the predicate.\<close>

definition partition_point :: "('a \<Rightarrow> bool) \<Rightarrow> 'a list \<Rightarrow> nat" where
  "partition_point P xs = length (takeWhile P xs)"

text \<open>
  \<open>location\<close>. An out-of-range read or a slice off a boundary, where Rust would panic, is also
  \<open>None\<close> here; \<open>location_correct\<close> below shows that neither happens.
\<close>

definition location :: "SourceFile \<Rightarrow> nat \<Rightarrow> Location option" where
  "location f offset =
     (if str_len (file_text f) < offset \<or> \<not> is_char_boundary (file_text f) offset then None
      else let line_index = partition_point (\<lambda>s. s \<le> offset) (line_starts f) - 1
           in do {
             line_start \<leftarrow> get (line_starts f) line_index;
             before \<leftarrow> str_get (file_text f) line_start offset;
             Some \<lparr>line = line_index + 1, column = length before + 1\<rparr>
           })"

definition is_line_end :: "uchar \<Rightarrow> bool" where
  "is_line_end c \<longleftrightarrow> c = ch_return \<or> c = ch_newline"

definition line_text :: "SourceFile \<Rightarrow> nat \<Rightarrow> ustring option" where
  "line_text f one_based_line =
     (if one_based_line = 0 then None
      else let line_index = one_based_line - 1
           in do {
             a \<leftarrow> get (line_starts f) line_index;
             let b = (case get (line_starts f) (line_index + 1) of
                        Some b \<Rightarrow> b | None \<Rightarrow> str_len (file_text f));
             s \<leftarrow> str_get (file_text f) a b;
             Some (trim_end_matches is_line_end s)
           })"

definition slice :: "SourceFile \<Rightarrow> Span \<Rightarrow> ustring option" where
  "slice f sp =
     (if span_source sp \<noteq> file_id f \<or> str_len (file_text f) < span_end sp
         \<or> \<not> is_char_boundary (file_text f) (span_start sp) \<or> \<not> is_char_boundary (file_text f) (span_end sp)
      then None
      else str_get (file_text f) (span_start sp) (span_end sp))"

subsection \<open>The source manager\<close>

datatype SourceError = TooManyFiles

record SourceManager =
  files :: "SourceFile list"

definition source_manager_new :: SourceManager where
  "source_manager_new = \<lparr>files = []\<rparr>"

definition add_source :: "SourceManager \<Rightarrow> ustring \<Rightarrow> ustring \<Rightarrow> (SourceError, SourceManager \<times> SourceId) result" where
  "add_source m p s =
     (if length (files m) \<le> 4294967295 then
        let i = SourceId (of_nat (length (files m)))
        in Ok (m\<lparr>files := files m @ [source_file_new i p s]\<rparr>, i)
      else Err TooManyFiles)"

definition get_source :: "SourceManager \<Rightarrow> SourceId \<Rightarrow> SourceFile option" where
  "get_source m i = get (files m) (unat (source_index i))"

subsection \<open>Line starts\<close>

text \<open>The line starts as a scan over characters, for text whose characters are scalars.\<close>

fun char_line_starts :: "nat \<Rightarrow> ustring \<Rightarrow> nat list" where
  "char_line_starts off [] = []"
| "char_line_starts off (c # s) =
     (if c = ch_newline then [off + 1] else []) @ char_line_starts (off + len_utf8 c) s"

lemma line_starts_from_append:
  "line_starts_from i (xs @ ys) = line_starts_from i xs @ line_starts_from (i + length xs) ys"
  by (induction xs arbitrary: i) auto

lemma line_starts_from_no_newline: "10 \<notin> set bs \<Longrightarrow> line_starts_from i bs = []"
  by (induction bs arbitrary: i) auto

lemma line_starts_from_chars:
  "valid_str s \<Longrightarrow> line_starts_from i (as_bytes s) = char_line_starts i s"
proof (induction s arbitrary: i)
  case Nil
  then show ?case by simp
next
  case (Cons c s)
  have "line_starts_from i (encode_utf8 c) = (if c = ch_newline then [i + 1] else [])"
  proof (cases "c = ch_newline")
    case True
    then show ?thesis by (simp add: encode_utf8_def utf8_units_def)
  next
    case False
    with Cons.prems newline_byte [of c] show ?thesis by (simp add: line_starts_from_no_newline)
  qed
  with Cons show ?case by (simp add: line_starts_from_append)
qed

lemma char_line_starts_append:
  "char_line_starts off (s @ t) = char_line_starts off s @ char_line_starts (off + str_len s) t"
  by (induction s arbitrary: off) (auto simp: add.assoc)

lemma char_line_starts_gt: "x \<in> set (char_line_starts off s) \<Longrightarrow> off < x"
  by (induction s arbitrary: off) (fastforce split: if_splits)+

lemma char_line_starts_le: "x \<in> set (char_line_starts off s) \<Longrightarrow> x \<le> off + str_len s"
  by (induction s arbitrary: off) (fastforce split: if_splits)+

lemma length_char_line_starts: "length (char_line_starts off s) = count_list s ch_newline"
  by (induction s arbitrary: off) auto

text \<open>The part of a text after its last newline, and the part up to it.\<close>

definition current_line :: "ustring \<Rightarrow> ustring" where
  "current_line s = rev (takeWhile (\<lambda>c. c \<noteq> ch_newline) (rev s))"

definition earlier_lines :: "ustring \<Rightarrow> ustring" where
  "earlier_lines s = rev (dropWhile (\<lambda>c. c \<noteq> ch_newline) (rev s))"

lemma earlier_current: "earlier_lines s @ current_line s = s"
  by (simp add: earlier_lines_def current_line_def flip: rev_append)

lemma last_line_start: "last (0 # char_line_starts 0 s) = str_len (earlier_lines s)"
proof (induction s rule: rev_induct)
  case Nil
  then show ?case by (simp add: earlier_lines_def)
next
  case (snoc c s)
  then show ?case
    by (cases "c = ch_newline") (auto simp: earlier_lines_def char_line_starts_append split: if_splits)
qed

lemma partition_line_starts:
  assumes "valid_str (s @ t)"
  shows "takeWhile (\<lambda>x. x \<le> str_len s) (compute_line_starts (s @ t)) = 0 # char_line_starts 0 s"
proof -
  have "compute_line_starts (s @ t) = (0 # char_line_starts 0 s) @ char_line_starts (str_len s) t"
    using line_starts_from_chars [OF assms, of 0]
    by (simp add: compute_line_starts_def char_line_starts_append)
  moreover have "\<forall>x \<in> set (0 # char_line_starts 0 s). x \<le> str_len s"
    using char_line_starts_le [of _ 0 s] by auto
  moreover have "takeWhile (\<lambda>x. x \<le> str_len s) (char_line_starts (str_len s) t) = []"
    using char_line_starts_gt [of _ "str_len s" t] by (cases "char_line_starts (str_len s) t") force+
  ultimately show ?thesis by (simp add: takeWhile_append)
qed

lemma location_append:
  assumes "valid_str (s @ t)"
  shows "location (source_file_new i p (s @ t)) (str_len s) =
           Some \<lparr>line = count_list s ch_newline + 1, column = length (current_line s) + 1\<rparr>"
proof -
  let ?n = "count_list s ch_newline"
  have idx: "partition_point (\<lambda>x. x \<le> str_len s) (compute_line_starts (s @ t)) = ?n + 1"
    by (simp add: partition_point_def partition_line_starts [OF assms] length_char_line_starts)
  have starts: "compute_line_starts (s @ t) = (0 # char_line_starts 0 s) @ char_line_starts (str_len s) t"
    using line_starts_from_chars [OF assms, of 0]
    by (simp add: compute_line_starts_def char_line_starts_append)
  have "(0 # char_line_starts 0 s) ! ?n = str_len (earlier_lines s)"
    using last_conv_nth [of "0 # char_line_starts 0 s"] last_line_start [of s]
    by (simp add: length_char_line_starts)
  then have get: "get (compute_line_starts (s @ t)) ?n = Some (str_len (earlier_lines s))"
    unfolding starts get_def by (simp add: nth_append length_char_line_starts del: append_Cons)
  have "str_get (earlier_lines s @ current_line s @ t) (str_len (earlier_lines s))
          (str_len (earlier_lines s) + str_len (current_line s)) = Some (current_line s)"
    by (rule str_get_append)
  then have sl: "str_get (s @ t) (str_len (earlier_lines s)) (str_len s) = Some (current_line s)"
    by (simp only: append_assoc [symmetric] str_len_simps(3) [symmetric] earlier_current)
  show ?thesis
    by (simp add: location_def source_file_new_def idx get sl Let_def)
qed

lemma location_None_iff:
  "valid_str s \<Longrightarrow> location (source_file_new i p s) offset = None \<longleftrightarrow> \<not> is_char_boundary s offset"
proof
  assume v: "valid_str s" and none: "location (source_file_new i p s) offset = None"
  show "\<not> is_char_boundary s offset"
  proof
    assume "is_char_boundary s offset"
    then obtain a t where "s = a @ t" "offset = str_len a" by (auto simp: is_char_boundary_iff)
    with v none location_append [of a t i p] show False by simp
  qed
next
  assume "\<not> is_char_boundary s offset"
  then show "location (source_file_new i p s) offset = None"
    by (simp add: location_def source_file_new_def)
qed

text \<open>The lines of a text, cut at its newlines, and the line starts as the offsets of the cuts.\<close>

fun line_offsets :: "nat \<Rightarrow> ustring list \<Rightarrow> nat list" where
  "line_offsets off [] = []"
| "line_offsets off (l # ls) = off # line_offsets (off + str_len l + 1) ls"

lemma char_line_starts_offsets:
  "off # char_line_starts off s = line_offsets off (split_on ch_newline s)"
proof (induction s arbitrary: off)
  case Nil
  then show ?case by simp
next
  case (Cons c s)
  obtain l ls where l: "split_on ch_newline s = l # ls" by (cases "split_on ch_newline s") auto
  show ?case
  proof (cases "c = ch_newline")
    case True
    then show ?thesis using Cons.IH [of "off + 1"] by simp
  next
    case False
    with Cons.IH [of "off + len_utf8 c"] l show ?thesis by (simp add: add.assoc)
  qed
qed

lemma length_line_offsets [simp]: "length (line_offsets off ls) = length ls"
  by (induction ls arbitrary: off) auto

lemma line_offsets_nth:
  "i < length ls \<Longrightarrow>
     line_offsets off ls ! i = off + str_len (concat (map (\<lambda>l. l @ [ch_newline]) (take i ls)))"
proof (induction ls arbitrary: i off)
  case Nil
  then show ?case by simp
next
  case (Cons l ls)
  then show ?case by (cases i) auto
qed

lemma join_newline_split:
  "i < length ls \<Longrightarrow>
     join_with ch_newline ls =
       concat (map (\<lambda>l. l @ [ch_newline]) (take i ls)) @ ls ! i @
       (if Suc i < length ls then ch_newline # join_with ch_newline (drop (Suc i) ls) else [])"
proof (induction ls arbitrary: i)
  case Nil
  then show ?case by simp
next
  case (Cons l ls)
  show ?case
  proof (cases i)
    case 0
    then show ?thesis by (cases ls) auto
  next
    case (Suc j)
    with Cons.prems have "j < length ls" by simp
    moreover from this have "join_with ch_newline (l # ls) = l @ ch_newline # join_with ch_newline ls"
      by (cases ls) auto
    ultimately show ?thesis using Suc Cons.IH [of j] by simp
  qed
qed

lemma line_text_split:
  assumes "valid_str s"
  shows "line_text (source_file_new i p s) (Suc k) =
     (if k < length (split_on ch_newline s)
      then Some (trim_end_matches is_line_end (split_on ch_newline s ! k)) else None)"
proof -
  let ?ls = "split_on ch_newline s"
  have starts: "compute_line_starts s = line_offsets 0 ?ls"
    using line_starts_from_chars [OF assms, of 0] char_line_starts_offsets [of 0 s]
    by (simp add: compute_line_starts_def)
  show ?thesis
  proof (cases "k < length ?ls")
    case False
    then show ?thesis
      by (simp add: line_text_def source_file_new_def starts get_def)
  next
    case True
    let ?pre = "concat (map (\<lambda>l. l @ [ch_newline]) (take k ?ls))"
    let ?tl = "if Suc k < length ?ls then ch_newline # join_with ch_newline (drop (Suc k) ?ls) else []"
    have s: "s = ?pre @ ?ls ! k @ ?tl"
      using join_newline_split [OF True] by simp
    have trim: "trim_end_matches is_line_end (x @ [ch_newline]) = trim_end_matches is_line_end x" for x
      by (simp add: trim_end_matches_def is_line_end_def)
    show ?thesis
    proof (cases "Suc k < length ?ls")
      case last: True
      have "str_len (concat (map (\<lambda>l. l @ [ch_newline]) (take (Suc k) ?ls))) =
              str_len ?pre + str_len (?ls ! k @ [ch_newline])"
        using True by (simp add: take_Suc_conv_app_nth)
      moreover have "s = ?pre @ (?ls ! k @ [ch_newline]) @ join_with ch_newline (drop (Suc k) ?ls)"
        using s last by simp
      ultimately have "str_get s (str_len ?pre)
            (str_len (concat (map (\<lambda>l. l @ [ch_newline]) (take (Suc k) ?ls)))) =
          Some (?ls ! k @ [ch_newline])"
        using str_get_append by metis
      with True last show ?thesis
        by (simp add: line_text_def source_file_new_def starts get_def line_offsets_nth trim)
    next
      case False
      with s have s2: "s = ?pre @ ?ls ! k @ []" by simp
      then have "str_len s = str_len ?pre + str_len (?ls ! k)" by (metis append_Nil2 str_len_simps(3))
      with s2 have "str_get s (str_len ?pre) (str_len s) = Some (?ls ! k)"
        using str_get_append by metis
      with True False show ?thesis
        by (simp add: line_text_def source_file_new_def starts get_def line_offsets_nth)
    qed
  qed
qed

subsection \<open>Slices\<close>

lemma slice_append [span_simps]:
  assumes "file_text f = p @ m @ t"
  shows "slice f \<lparr>span_source = file_id f, span_start = str_len p,
                   span_end = str_len p + str_len m\<rparr> = Some m"
proof -
  have "is_char_boundary (p @ m @ t) (str_len p)" by simp
  moreover have "is_char_boundary (p @ m @ t) (str_len p + str_len m)"
    using is_char_boundary_append [of "p @ m" t] by simp
  ultimately show ?thesis
    using assms by (simp add: slice_def)
qed

lemma slice_Some_iff:
  "slice f sp = Some m \<longleftrightarrow>
     span_source sp = file_id f \<and>
     (\<exists>p t. file_text f = p @ m @ t \<and> span_start sp = str_len p \<and> span_end sp = str_len p + str_len m)"
  (is "?L \<longleftrightarrow> ?R")
proof
  assume ?L
  then have "span_source sp = file_id f" "str_get (file_text f) (span_start sp) (span_end sp) = Some m"
    by (auto simp: slice_def split: if_splits)
  then show ?R by (blast dest: str_get_Some)
next
  assume ?R
  then obtain p t where pt: "file_text f = p @ m @ t" "span_start sp = str_len p"
      "span_end sp = str_len p + str_len m" "span_source sp = file_id f" by blast
  then have "sp = \<lparr>span_source = file_id f, span_start = str_len p, span_end = str_len p + str_len m\<rparr>"
    by (cases sp) simp
  with slice_append [OF pt(1)] show ?L by simp
qed

text \<open>
  What the syntax tree and the formatter need of a sliced text: the whole text is a slice, and
  adjacent slices join. From these laws, cutting a text into consecutive ranges and
  concatenating the pieces gives the text back.
\<close>

fun tiles :: "nat \<Rightarrow> (nat \<times> nat) list \<Rightarrow> nat \<Rightarrow> bool" where
  "tiles a [] e \<longleftrightarrow> a = e"
| "tiles a ((b, c) # rs) e \<longleftrightarrow> b = a \<and> b \<le> c \<and> tiles c rs e"

lemma tiles_append: "tiles a (xs @ ys) e \<longleftrightarrow> (\<exists>m. tiles a xs m \<and> tiles m ys e)"
  by (induction a xs e rule: tiles.induct) auto

lemma tiles_le: "tiles a rs e \<Longrightarrow> a \<le> e"
  by (induction a rs e rule: tiles.induct) auto

locale sliced_text =
  fixes slc :: "nat \<Rightarrow> nat \<Rightarrow> 'c list option"
    and len :: nat
    and whole :: "'c list"
  assumes slice_whole: "slc 0 len = Some whole"
    and slice_join: "slc a b = Some x \<Longrightarrow> slc b c = Some y \<Longrightarrow> slc a c = Some (x @ y)"
    and slice_point: "slc a b = Some x \<Longrightarrow> slc a a = Some []"
begin

lemma concat_slices:
  assumes "tiles a rs e" and "\<forall>(b, c) \<in> set rs. slc b c \<noteq> None" and "slc a a = Some []"
  shows "slc a e = Some (concat (map (\<lambda>(b, c). the (slc b c)) rs))"
  using assms
proof (induction a rs e rule: tiles.induct)
  case (1 a e)
  then show ?case by simp
next
  case (2 a b c rs e)
  then obtain x where x: "slc a c = Some x" "b = a" "tiles c rs e" by auto
  show ?case
  proof (cases rs)
    case Nil
    with x show ?thesis by simp
  next
    case (Cons r rs')
    then obtain d where r: "r = (c, d)" using x(3) by (cases r) auto
    with Cons "2.prems"(2) obtain y where "slc c d = Some y" by auto
    then have "slc c c = Some []" by (rule slice_point)
    with 2 x have "slc c e = Some (concat (map (\<lambda>(b, c). the (slc b c)) rs))" by auto
    with x slice_join [OF x(1)] show ?thesis by simp
  qed
qed

lemma concat_slices_whole:
  assumes "tiles 0 rs len" and "\<forall>(b, c) \<in> set rs. slc b c \<noteq> None"
  shows "concat (map (\<lambda>(b, c). the (slc b c)) rs) = whole"
  using concat_slices [OF assms] slice_point [OF slice_whole] slice_whole by simp

end

abbreviation span_at :: "SourceFile \<Rightarrow> nat \<Rightarrow> nat \<Rightarrow> Span" where
  "span_at f a b \<equiv> \<lparr>span_source = file_id f, span_start = a, span_end = b\<rparr>"

interpretation file_slices: sliced_text "\<lambda>a b. slice f (span_at f a b)" "str_len (file_text f)" "file_text f"
  for f :: SourceFile
proof unfold_locales
  show "slice f (span_at f 0 (str_len (file_text f))) = Some (file_text f)"
    using slice_append [of f "[]" "file_text f" "[]"] by simp
next
  fix a b c x y
  assume "slice f (span_at f a b) = Some x" "slice f (span_at f b c) = Some y"
  then obtain p t q u where p: "file_text f = p @ x @ t" "a = str_len p" "b = str_len p + str_len x"
    and q: "file_text f = q @ y @ u" "b = str_len q" "c = str_len q + str_len y"
    by (auto simp: slice_Some_iff)
  from p q have "p @ x = q" "t = y @ u"
    using str_len_split_unique [of "p @ x" t q "y @ u"] by auto
  with p q show "slice f (span_at f a c) = Some (x @ y)"
    using slice_append [of f p "x @ y" u] by (simp add: add.assoc)
next
  fix a b x
  assume "slice f (span_at f a b) = Some x"
  then obtain p t where "file_text f = p @ [] @ (x @ t)" "a = str_len p"
    by (auto simp: slice_Some_iff)
  then show "slice f (span_at f a a) = Some []"
    using slice_append [of f p "[]" "x @ t"] by simp
qed

subsection \<open>The session invariant\<close>

definition manager_ok :: "SourceManager \<Rightarrow> bool" where
  "manager_ok m \<longleftrightarrow> length (files m) \<le> 2 ^ 32 \<and>
     (\<forall>i < length (files m). \<exists>p s. files m ! i = source_file_new (SourceId (of_nat i)) p s)"

lemma manager_ok_new: "manager_ok source_manager_new"
  by (simp add: manager_ok_def source_manager_new_def)

lemma manager_ok_add:
  assumes "manager_ok m" "add_source m p s = Ok (m', i)"
  shows "manager_ok m'"
  using assms
  by (auto simp: manager_ok_def add_source_def Let_def nth_append less_Suc_eq split: if_splits) blast

lemma get_source_add_new:
  assumes "add_source m p s = Ok (m', i)"
  shows "get_source m' i = Some (source_file_new i p s)"
proof -
  from assms have le: "length (files m) \<le> 4294967295"
    and m': "m' = m\<lparr>files := files m @ [source_file_new i p s]\<rparr>"
    and i: "i = SourceId (of_nat (length (files m)))"
    by (auto simp: add_source_def Let_def split: if_splits)
  have "unat (of_nat (length (files m)) :: 32 word) = length (files m)"
    using le by (simp add: unat_of_nat)
  with m' i show ?thesis by (simp add: get_source_def)
qed

lemma get_source_add_old:
  assumes "add_source m p s = Ok (m', i)" "get_source m j = Some f"
  shows "get_source m' j = Some f"
  using assms
  by (auto simp: add_source_def get_source_def Let_def get_append_left split: if_splits)

lemma get_source_id:
  assumes "manager_ok m" "get_source m i = Some f"
  shows "file_id f = i"
proof -
  from assms obtain p s where "f = source_file_new (SourceId (of_nat (unat (source_index i)))) p s"
    by (auto simp: manager_ok_def get_source_def get_eq_Some)
  then show ?thesis by (cases i) (simp add: source_file_new_def)
qed

subsection \<open>Properties\<close>

text \<open>
  Locations: at every character boundary, \<open>location\<close> answers with the number of newlines
  before the offset and the number of characters since the last of them (both one-based); at
  every other offset it answers \<open>None\<close>. In particular its indexing and slicing never panic.
\<close>

theorem location_correct:
  assumes "valid_str s"
  shows "location (source_file_new i p s) offset =
     (if is_char_boundary s offset
      then let before = the (str_to s offset)
           in Some \<lparr>line = count_list before ch_newline + 1, column = length (current_line before) + 1\<rparr>
      else None)"
proof (cases "is_char_boundary s offset")
  case True
  then obtain a t where "s = a @ t" "offset = str_len a" by (auto simp: is_char_boundary_iff)
  with True assms location_append [of a t i p] show ?thesis by simp
next
  case False
  with location_None_iff [OF assms] show ?thesis by simp
qed

theorem location_correct_witness:
  "valid_str [97, 10, 318, 98] \<and>
   location (source_file_new (SourceId 0) [] [97, 10, 318, 98]) 4 = Some \<lparr>line = 2, column = 2\<rparr> \<and>
   location (source_file_new (SourceId 0) [] [97, 10, 318, 98]) 3 = None"
proof -
  have v: "valid_str [97, 10, 318, 98]" by (simp add: is_scalar_def)
  have b: "is_char_boundary [97, 10, 318, 98] 4" "\<not> is_char_boundary [97, 10, 318, 98] 3"
    "str_to [97, 10, 318, 98] 4 = Some [97, 10, 318]" by code_simp+
  have c: "current_line [97, 10, 318] = [318]" by code_simp
  show ?thesis
    using v location_correct [OF v, of "SourceId 0" "[]" 4] location_correct [OF v, of "SourceId 0" "[]" 3]
    by (simp add: b c Let_def)
qed

text \<open>
  Lines: \<open>line_text\<close> returns the pieces between the newlines, in order, without trailing
  carriage returns, and \<open>None\<close> for line 0 and past the last line.
\<close>

theorem line_text_correct:
  assumes "valid_str s"
  shows "line_text (source_file_new i p s) n =
     (if n = 0 \<or> length (split_on ch_newline s) < n then None
      else Some (trim_end_matches is_line_end (split_on ch_newline s ! (n - 1))))"
proof (cases n)
  case 0
  then show ?thesis by (simp add: line_text_def)
next
  case (Suc k)
  then show ?thesis by (simp add: line_text_split [OF assms] not_less Suc_le_eq)
qed

theorem line_text_correct_witness:
  "valid_str (lit ''a'' @ [13, 10] @ lit ''b'') \<and>
   line_text (source_file_new (SourceId 0) [] (lit ''a'' @ [13, 10] @ lit ''b'')) 1 = Some (lit ''a'')"
proof -
  have v: "valid_str (lit ''a'' @ [13, 10] @ lit ''b'')" by (simp add: is_scalar_def)
  show ?thesis
    using v line_text_correct [OF v, of "SourceId 0" "[]" 1]
    by (simp add: trim_end_matches_def is_line_end_def)
qed

text \<open>
  Registration: an added source is found under the identifier \<open>add\<close> returned, with its text
  and path, every earlier identifier still finds the same file, and every file of a session
  built by \<open>add\<close> carries the identifier it is found under.
\<close>

theorem add_source_get:
  assumes "manager_ok m" "add_source m p s = Ok (m', i)"
  shows "get_source m' i = Some (source_file_new i p s) \<and> manager_ok m' \<and>
         (\<forall>j f. get_source m j = Some f \<longrightarrow> get_source m' j = Some f \<and> file_id f = j)"
  using assms manager_ok_add get_source_add_new get_source_add_old get_source_id by blast

theorem add_source_get_witness:
  "\<exists>m' i. add_source source_manager_new (lit ''a.jdn'') (lit ''fn'') = Ok (m', i) \<and>
          get_source m' i = Some (source_file_new i (lit ''a.jdn'') (lit ''fn''))"
proof -
  obtain m' i where a: "add_source source_manager_new (lit ''a.jdn'') (lit ''fn'') = Ok (m', i)"
    by (simp add: add_source_def source_manager_new_def Let_def)
  from add_source_get [OF manager_ok_new a] a show ?thesis by blast
qed

end
