(* ===== verification/Diagnostics.thy ===== *)
theory Diagnostics
  imports Source
begin

text \<open>
  The crate \<open>jadren-diagnostics\<close>: diagnostics with labelled spans, and their rendering as
  terminal text and as JSON. Shown here: a rendered JSON string reads back as the value, the
  underline of a span inside one line has the span's width, and the one way the text renderer
  can fail.
\<close>

datatype Severity = Error | Warning | Note

definition severity_as_str :: "Severity \<Rightarrow> ustring" where
  "severity_as_str s = (case s of Error \<Rightarrow> lit ''error'' | Warning \<Rightarrow> lit ''warning'' | Note \<Rightarrow> lit ''note'')"

record Label =
  label_span :: Span
  label_message :: ustring

definition label_new :: "Span \<Rightarrow> ustring \<Rightarrow> Label" where
  "label_new sp m = \<lparr>label_span = sp, label_message = m\<rparr>"

record Diagnostic =
  diag_code :: ustring
  severity :: Severity
  diag_message :: ustring
  primary :: Label
  secondary :: "Label list"
  diag_notes :: "ustring list"
  diag_help :: "ustring option"

definition diagnostic_error :: "ustring \<Rightarrow> ustring \<Rightarrow> Span \<Rightarrow> ustring \<Rightarrow> Diagnostic" where
  "diagnostic_error c m sp l =
     \<lparr>diag_code = c, severity = Error, diag_message = m, primary = label_new sp l,
      secondary = [], diag_notes = [], diag_help = None\<rparr>"

definition with_secondary :: "Diagnostic \<Rightarrow> Span \<Rightarrow> ustring \<Rightarrow> Diagnostic" where
  "with_secondary d sp m = d\<lparr>secondary := secondary d @ [label_new sp m]\<rparr>"

definition with_note :: "Diagnostic \<Rightarrow> ustring \<Rightarrow> Diagnostic" where
  "with_note d n = d\<lparr>diag_notes := diag_notes d @ [n]\<rparr>"

definition with_help :: "Diagnostic \<Rightarrow> ustring \<Rightarrow> Diagnostic" where
  "with_help d h = d\<lparr>diag_help := Some h\<rparr>"

subsection \<open>Terminal text\<close>

text \<open>\<open>usize\<close> subtraction with overflow checks: \<open>None\<close> is the panic.\<close>

definition usize_sub :: "nat \<Rightarrow> nat \<Rightarrow> nat option" where
  "usize_sub a b = (if b \<le> a then Some (a - b) else None)"

definition span_width_on_line :: "Span \<Rightarrow> SourceFile \<Rightarrow> nat \<Rightarrow> nat option" where
  "span_width_on_line sp f one_based_line =
     (case location f (span_start sp) of
        None \<Rightarrow> Some 1
      | Some a \<Rightarrow>
          if line a \<noteq> one_based_line then Some 1
          else (case location f (min (span_end sp) (str_len (file_text f))) of
                  None \<Rightarrow> Some 1
                | Some b \<Rightarrow>
                    if line b = line a then Some (column b - column a)
                    else (case line_text f (line a) of
                            None \<Rightarrow> Some 1
                          | Some l \<Rightarrow> usize_sub (length l + 1) (column a))))"

definition render_location :: "SourceFile \<Rightarrow> Location \<Rightarrow> ustring" where
  "render_location f l =
     file_path f @ lit '':'' @ nat_to_string (line l) @ lit '':'' @ nat_to_string (column l)"

text \<open>The block \<open>if let Some(file) ... && let Some(location) ...\<close> for the primary label.\<close>

definition render_primary :: "Diagnostic \<Rightarrow> SourceManager \<Rightarrow> ustring option" where
  "render_primary d sources =
     (let sp = label_span (primary d) in
      case get_source sources (span_source sp) of
        None \<Rightarrow> Some []
      | Some f \<Rightarrow>
        (case location f (span_start sp) of
           None \<Rightarrow> Some []
         | Some l \<Rightarrow>
           (let head = lit '' --> '' @ render_location f l @ [ch_newline];
                width = length (nat_to_string (line l))
            in case line_text f (line l) of
                 None \<Rightarrow> Some head
               | Some t \<Rightarrow> do {
                   w \<leftarrow> span_width_on_line sp f (line l);
                   Some (head
                     @ replicate width ch_space @ lit '' |'' @ [ch_newline]
                     @ nat_to_string (line l) @ lit '' | '' @ t @ [ch_newline]
                     @ replicate width ch_space @ lit '' | '' @ replicate (column l - 1) ch_space
                     @ replicate (max w 1) (ch CHR ''^'') @ [ch_space]
                     @ label_message (primary d) @ [ch_newline])
                 })))"

definition render_secondary :: "SourceManager \<Rightarrow> Label \<Rightarrow> ustring" where
  "render_secondary sources l =
     (case get_source sources (span_source (label_span l)) of
        None \<Rightarrow> []
      | Some f \<Rightarrow>
        (case location f (span_start (label_span l)) of
           None \<Rightarrow> []
         | Some loc \<Rightarrow>
             lit '' note: '' @ render_location f loc @ lit '': '' @ label_message l @ [ch_newline]))"

definition render_text :: "Diagnostic \<Rightarrow> SourceManager \<Rightarrow> ustring option" where
  "render_text d sources = do {
     p \<leftarrow> render_primary d sources;
     Some (severity_as_str (severity d) @ lit ''['' @ diag_code d @ lit '']: '' @ diag_message d @ [ch_newline]
       @ p
       @ concat (map (render_secondary sources) (secondary d))
       @ concat (map (\<lambda>n. lit '' note: '' @ n @ [ch_newline]) (diag_notes d))
       @ (case diag_help d of Some h \<Rightarrow> lit '' help: '' @ h @ [ch_newline] | None \<Rightarrow> []))
   }"

subsection \<open>JSON\<close>

text \<open>One character of a JSON string, by the match of \<open>push_json_string\<close>.\<close>

definition json_char :: "uchar \<Rightarrow> ustring" where
  "json_char c =
     (if c = ch_quote then [ch_backslash, ch_quote]
      else if c = ch_backslash then [ch_backslash, ch_backslash]
      else if c = ch_newline then [ch_backslash, ch CHR ''n'']
      else if c = ch_return then [ch_backslash, ch CHR ''r'']
      else if c = ch_tab then [ch_backslash, ch CHR ''t'']
      else if is_control c then [ch_backslash, ch CHR ''u''] @ hex_digits 4 c
      else [c])"

definition push_json_string :: "ustring \<Rightarrow> ustring \<Rightarrow> ustring" where
  "push_json_string out v = out @ [ch_quote] @ concat (map json_char v) @ [ch_quote]"

definition push_json_field :: "ustring \<Rightarrow> ustring \<Rightarrow> ustring \<Rightarrow> bool \<Rightarrow> ustring" where
  "push_json_field out key v comma =
     push_json_string (push_json_string (if comma then out @ lit '','' else out) key @ lit '':'') v"

definition push_label_json :: "ustring \<Rightarrow> Label \<Rightarrow> SourceManager \<Rightarrow> ustring" where
  "push_label_json out l sources =
     (let file = get_source sources (span_source (label_span l));
          p = (case file of Some f \<Rightarrow> file_path f | None \<Rightarrow> []);
          loc = Option.bind file (\<lambda>f. location f (span_start (label_span l)));
          o1 = push_json_field (out @ [ch CHR ''{'']) (lit ''file'') p False;
          o2 = o1 @ lit '','' @ [ch_quote] @ lit ''start'' @ [ch_quote] @ lit '':''
                  @ nat_to_string (span_start (label_span l))
                  @ lit '','' @ [ch_quote] @ lit ''end'' @ [ch_quote] @ lit '':''
                  @ nat_to_string (span_end (label_span l));
          key = (\<lambda>k. lit '','' @ [ch_quote] @ k @ [ch_quote] @ lit '':'');
          o3 = (case loc of
                  Some q \<Rightarrow> o2 @ key (lit ''line'') @ nat_to_string (line q)
                               @ key (lit ''column'') @ nat_to_string (column q)
                | None \<Rightarrow> o2 @ key (lit ''line'') @ lit ''null'' @ key (lit ''column'') @ lit ''null'')
      in push_json_field o3 (lit ''label'') (label_message l) True @ [ch CHR ''}''])"

text \<open>The comma-separated loops of \<open>render_json\<close>: a comma before every element but the first.\<close>

fun push_separated :: "(ustring \<Rightarrow> 'a \<Rightarrow> ustring) \<Rightarrow> ustring \<Rightarrow> nat \<Rightarrow> 'a list \<Rightarrow> ustring" where
  "push_separated push out index [] = out"
| "push_separated push out index (x # xs) =
     push_separated push (push (if 0 < index then out @ lit '','' else out) x) (Suc index) xs"

definition render_json :: "Diagnostic \<Rightarrow> SourceManager \<Rightarrow> ustring" where
  "render_json d sources =
     (let key = (\<lambda>k. lit '','' @ [ch_quote] @ k @ [ch_quote] @ lit '':'');
          o1 = push_json_field [ch CHR ''{''] (lit ''code'') (diag_code d) False;
          o2 = push_json_field o1 (lit ''severity'') (severity_as_str (severity d)) True;
          o3 = push_json_field o2 (lit ''message'') (diag_message d) True;
          o4 = push_label_json (o3 @ key (lit ''primary'')) (primary d) sources;
          o5 = push_separated (\<lambda>out l. push_label_json out l sources)
                 (o4 @ key (lit ''secondary'') @ lit ''['') 0 (secondary d) @ lit '']'';
          o6 = push_separated push_json_string (o5 @ key (lit ''notes'') @ lit ''['') 0 (diag_notes d) @ lit '']'';
          o7 = (case diag_help d of
                  Some h \<Rightarrow> push_json_string (o6 @ key (lit ''help'')) h
                | None \<Rightarrow> o6 @ key (lit ''help'') @ lit ''null'')
      in o7 @ [ch CHR ''}''])"

subsection \<open>What the JSON renderer promises\<close>

text \<open>JSON values and their canonical print: what \<open>render_json\<close> is meant to produce.\<close>

datatype json = JNull | JNum nat | JStr ustring | JArr "json list" | JObj "(ustring \<times> json) list"

definition json_string :: "ustring \<Rightarrow> ustring" where
  "json_string v = [ch_quote] @ concat (map json_char v) @ [ch_quote]"

abbreviation ch_comma :: uchar where "ch_comma \<equiv> 44"

fun json_print :: "json \<Rightarrow> ustring" where
  "json_print JNull = lit ''null''"
| "json_print (JNum n) = nat_to_string n"
| "json_print (JStr v) = json_string v"
| "json_print (JArr xs) = lit ''['' @ join_with ch_comma (map json_print xs) @ lit '']''"
| "json_print (JObj fs) =
     [ch CHR ''{''] @ join_with ch_comma (map (\<lambda>(k, v). json_string k @ lit '':'' @ json_print v) fs)
     @ [ch CHR ''}'']"

definition label_json :: "SourceManager \<Rightarrow> Label \<Rightarrow> json" where
  "label_json sources l =
     (let file = get_source sources (span_source (label_span l));
          loc = Option.bind file (\<lambda>f. location f (span_start (label_span l)))
      in JObj [(lit ''file'', JStr (case file of Some f \<Rightarrow> file_path f | None \<Rightarrow> [])),
               (lit ''start'', JNum (span_start (label_span l))),
               (lit ''end'', JNum (span_end (label_span l))),
               (lit ''line'', case loc of Some q \<Rightarrow> JNum (line q) | None \<Rightarrow> JNull),
               (lit ''column'', case loc of Some q \<Rightarrow> JNum (column q) | None \<Rightarrow> JNull),
               (lit ''label'', JStr (label_message l))])"

definition diagnostic_json :: "SourceManager \<Rightarrow> Diagnostic \<Rightarrow> json" where
  "diagnostic_json sources d =
     JObj [(lit ''code'', JStr (diag_code d)),
           (lit ''severity'', JStr (severity_as_str (severity d))),
           (lit ''message'', JStr (diag_message d)),
           (lit ''primary'', label_json sources (primary d)),
           (lit ''secondary'', JArr (map (label_json sources) (secondary d))),
           (lit ''notes'', JArr (map JStr (diag_notes d))),
           (lit ''help'', case diag_help d of Some h \<Rightarrow> JStr h | None \<Rightarrow> JNull)]"

lemma push_json_string_eq: "push_json_string out v = out @ json_string v"
  by (simp add: push_json_string_def json_string_def)

text \<open>The keys of the source are ASCII without characters to escape.\<close>

lemma json_string_plain: "\<forall>c \<in> set k. 35 \<le> c \<and> c < 92 \<or> 93 \<le> c \<and> c < 127 \<Longrightarrow> json_string k = ch_quote # k @ [ch_quote]"
proof -
  assume "\<forall>c \<in> set k. 35 \<le> c \<and> c < 92 \<or> 93 \<le> c \<and> c < 127"
  then have "concat (map json_char k) = k"
    by (induction k) (auto simp: json_char_def is_control_def)
  then show ?thesis by (simp add: json_string_def)
qed

lemma push_json_field_eq:
  "push_json_field out k v comma =
     out @ (if comma then [ch_comma] else []) @ json_string k @ lit '':'' @ json_string v"
  by (simp add: push_json_field_def push_json_string_eq)

lemma push_separated_from:
  assumes "\<And>out x. push out x = out @ g x"
  shows "push_separated push out (Suc i) xs = out @ concat (map (\<lambda>x. ch_comma # g x) xs)"
  by (induction xs arbitrary: out i) (simp_all add: assms)

lemma join_with_concat: "join_with d (x # xs) = x @ concat (map (\<lambda>y. d # y) xs)"
  by (induction xs arbitrary: x) auto

lemma push_separated_eq:
  assumes "\<And>out x. push out x = out @ g x"
  shows "push_separated push out 0 xs = out @ join_with ch_comma (map g xs)"
proof (cases xs)
  case Nil
  then show ?thesis by simp
next
  case (Cons x ys)
  then show ?thesis
    by (simp add: assms push_separated_from [OF assms] join_with_concat comp_def)
qed

lemma push_label_json_eq: "push_label_json out l sources = out @ json_print (label_json sources l)"
proof -
  define src_file where "src_file = get_source sources (span_source (label_span l))"
  define loc where "loc = Option.bind src_file (\<lambda>f. location f (span_start (label_span l)))"
  show ?thesis
    unfolding push_label_json_def label_json_def src_file_def [symmetric] loc_def [symmetric] Let_def
    by (cases loc) (simp_all add: push_json_field_eq json_string_plain)
qed

subsection \<open>Reading a JSON string back\<close>

text \<open>The string grammar of RFC 8259 for the escapes the renderer can emit.\<close>

definition unhex :: "uchar \<Rightarrow> nat option" where
  "unhex c = (if 48 \<le> c \<and> c \<le> 57 then Some (c - 48)
              else if 97 \<le> c \<and> c \<le> 102 then Some (c - 87) else None)"

fun json_read_escape :: "ustring \<Rightarrow> (uchar \<times> ustring) option" where
  "json_read_escape (e # s) =
     (if e = ch_quote then Some (ch_quote, s)
      else if e = ch_backslash then Some (ch_backslash, s)
      else if e = ch CHR ''n'' then Some (ch_newline, s)
      else if e = ch CHR ''r'' then Some (ch_return, s)
      else if e = ch CHR ''t'' then Some (ch_tab, s)
      else if e = ch CHR ''u'' then
        (case s of
           h1 # h2 # h3 # h4 # r \<Rightarrow> do {
             a \<leftarrow> unhex h1; b \<leftarrow> unhex h2; c \<leftarrow> unhex h3; d \<leftarrow> unhex h4;
             Some (a * 4096 + b * 256 + c * 16 + d, r) }
         | _ \<Rightarrow> None)
      else None)"
| "json_read_escape [] = None"

lemma json_read_escape_shorter: "json_read_escape s = Some (c, r) \<Longrightarrow> length r < length s"
  by (induction s rule: json_read_escape.induct)
    (auto simp: bind_eq_Some_conv split: if_splits list.splits)

function json_read_string :: "ustring \<Rightarrow> (ustring \<times> ustring) option" where
  "json_read_string [] = None"
| "json_read_string (c # s) =
     (if c = ch_quote then Some ([], s)
      else if c = ch_backslash then
        (case json_read_escape s of
           None \<Rightarrow> None
         | Some (d, r) \<Rightarrow> map_option (\<lambda>(v, t). (d # v, t)) (json_read_string r))
      else if c < 32 then None
      else map_option (\<lambda>(v, t). (c # v, t)) (json_read_string s))"
  by pat_completeness auto
termination
  by (relation "measure length") (auto dest: json_read_escape_shorter)

lemma unhex_hex_digit: "d < 16 \<Longrightarrow> unhex (hex_digit d) = Some d"
  by (auto simp: unhex_def hex_digit_def)

lemma hex_digits_4:
  "hex_digits 4 c = [hex_digit (c div 4096 mod 16), hex_digit (c div 256 mod 16),
                     hex_digit (c div 16 mod 16), hex_digit (c mod 16)]"
proof -
  have four: "(4 :: nat) = Suc (Suc (Suc (Suc 0)))" by simp
  have "c div 16 div 16 = c div 256" "c div 16 div 16 div 16 = c div 4096"
    by (simp_all only: div_mult2_eq [symmetric]) simp_all
  then show ?thesis by (simp only: four hex_digits.simps) simp
qed

lemma hex_value: "(c :: nat) < 65536 \<Longrightarrow>
    c div 4096 mod 16 * 4096 + c div 256 mod 16 * 256 + c div 16 mod 16 * 16 + c mod 16 = c"
proof -
  assume "c < 65536"
  then have "c div 4096 mod 16 = c div 4096" by simp
  moreover have "c div 256 div 16 = c div 4096" "c div 16 div 16 = c div 256"
    by (simp_all only: div_mult2_eq [symmetric]) simp_all
  ultimately show ?thesis
    using div_mult_mod_eq [of c 16] div_mult_mod_eq [of "c div 16" 16] div_mult_mod_eq [of "c div 256" 16]
    by linarith
qed

lemma json_read_char:
  "json_read_string (json_char c @ s) = map_option (\<lambda>(v, t). (c # v, t)) (json_read_string s)"
proof (cases "is_control c \<and> c \<notin> {ch_newline, ch_return, ch_tab}")
  case True
  then have "c < 65536" by (auto simp: is_control_def)
  moreover have "c \<notin> {ch_quote, ch_backslash}" using True by (auto simp: is_control_def)
  ultimately show ?thesis
    using True hex_value [of c] by (simp add: json_char_def hex_digits_4 unhex_hex_digit)
next
  case False
  then show ?thesis by (auto simp: json_char_def is_control_def)
qed

lemma json_read_chars:
  "json_read_string (concat (map json_char v) @ ch_quote # s) = Some (v, s)"
  by (induction v) (simp_all add: json_read_char)

subsection \<open>Columns inside one line\<close>

lemma current_line_append:
  "ch_newline \<notin> set m \<Longrightarrow> current_line (a @ m) = current_line a @ m"
  by (simp add: current_line_def takeWhile_append)

subsection \<open>Properties\<close>

text \<open>
  \<open>render_json\<close> refines the JSON value of a diagnostic: the text it assembles piece by piece
  is the canonical print of one object with the fields code, severity, message, primary,
  secondary, notes and help, in that order, for every diagnostic and session.
\<close>

theorem render_json_refines: "render_json d sources = json_print (diagnostic_json sources d)"
proof -
  have l: "push_separated (\<lambda>out l. push_label_json out l sources) out 0 ls =
      out @ join_with ch_comma (map (\<lambda>l. json_print (label_json sources l)) ls)" for out ls
    by (rule push_separated_eq) (rule push_label_json_eq)
  have n: "push_separated push_json_string out 0 vs = out @ join_with ch_comma (map json_string vs)" for out vs
    by (rule push_separated_eq) (rule push_json_string_eq)
  show ?thesis
    unfolding render_json_def diagnostic_json_def Let_def l n
    by (cases "diag_help d")
      (simp_all add: push_json_field_eq push_label_json_eq push_json_string_eq json_string_plain comp_def)
qed

text \<open>
  JSON strings round trip: whatever follows it, the text \<open>push_json_string\<close> appends after
  the opening quote reads back, by the JSON string grammar, as the value that was pushed.
\<close>

theorem json_string_roundtrip:
  "\<exists>body. push_json_string out v = out @ ch_quote # body \<and>
          json_read_string (body @ rest) = Some (v, rest)"
  by (rule exI [of _ "concat (map json_char v) @ [ch_quote]"])
    (simp add: push_json_string_def json_read_chars)

text \<open>
  The underline: for a span that stays inside one line, the width computed for the carets
  is the number of characters the span covers.
\<close>

theorem span_width_one_line:
  assumes "valid_str (a @ m @ b)" and "ch_newline \<notin> set m"
  shows "span_width_on_line (span_at (source_file_new i p (a @ m @ b)) (str_len a) (str_len a + str_len m))
           (source_file_new i p (a @ m @ b)) (count_list a ch_newline + 1) = Some (length m)"
proof -
  let ?f = "source_file_new i p (a @ m @ b)"
  have "location ?f (str_len a) =
      Some \<lparr>line = count_list a ch_newline + 1, column = length (current_line a) + 1\<rparr>"
    using location_append [of a "m @ b" i p] assms(1) by simp
  moreover have "location ?f (str_len a + str_len m) =
      Some \<lparr>line = count_list a ch_newline + 1, column = length (current_line a) + length m + 1\<rparr>"
    using location_append [of "a @ m" b i p] assms
    by (simp add: current_line_append count_notin)
  moreover have "file_text ?f = a @ m @ b" by (simp add: source_file_new_def)
  ultimately show ?thesis by (simp add: span_width_on_line_def)
qed

theorem span_width_one_line_witness:
  "span_width_on_line (span_at (source_file_new (SourceId 0) [] (lit ''let '' @ [318, 318] @ lit '';'')) 4 8)
     (source_file_new (SourceId 0) [] (lit ''let '' @ [318, 318] @ lit '';'')) 1 = Some 2"
proof -
  have v: "valid_str (lit ''let '' @ [318, 318] @ lit '';'')" by (simp add: is_scalar_def)
  have n: "ch_newline \<notin> set [318, 318 :: nat]" by simp
  have e: "str_len (lit ''let '') = 4" "4 + str_len [318, 318] = 8" "length [318, 318 :: nat] = 2"
    "count_list (lit ''let '') ch_newline + 1 = 1" by code_simp+
  show ?thesis
    using span_width_one_line [OF v n, of "SourceId 0" "[]"] by (simp only: e)
qed

text \<open>
  The text renderer can fail: for a span that starts on the line feed of a CRLF line end
  and ends on the next line, the column lies past the trimmed line and the width
  \<open>line.chars().count() + 1 - start.column\<close> underflows.
\<close>

theorem render_text_crlf_underflow:
  "render_text (diagnostic_error (lit ''J0001'') [] (span_at (source_file_new (SourceId 0) [] []) 3 5) [])
     \<lparr>files = [source_file_new (SourceId 0) [] (lit ''ab'' @ [13, 10] @ lit ''c'')]\<rparr> = None"
proof -
  have ls: "compute_line_starts (lit ''ab'' @ [13, 10] @ lit ''c'') = [0, 4]" by code_simp
  have "render_text (diagnostic_error (lit ''J0001'') [] (span_at \<lparr>file_id = SourceId 0, file_path = [],
            file_text = [], line_starts = [0], stable_hash = h\<rparr> 3 5) [])
     \<lparr>files = [\<lparr>file_id = SourceId 0, file_path = [], file_text = lit ''ab'' @ [13, 10] @ lit ''c'',
                 line_starts = [0, 4], stable_hash = h'\<rparr>]\<rparr> = None" for h h'
    by code_simp
  then show ?thesis by (simp only: source_file_new_def ls SourceFile.simps)
qed

end
