(* ===== verification/Tokens.thy ===== *)
theory Tokens
  imports Diagnostics
begin

text \<open>
  The token kinds of the crate \<open>jadren-lexer\<close>: keywords with their spelling, punctuation,
  operators and the token categories. Constructors carry a prefix (\<open>Kw\<close>, \<open>Op\<close>) where the
  source's names would clash with names of HOL.
\<close>

subsection \<open>Token kinds\<close>

datatype Keyword =
    KwAs | KwBreak | KwComponent | KwConst | KwContinue | KwElse | KwEnum
  | KwExtern | KwFalse | KwFn | KwFor | KwIf | KwImport | KwIn
  | KwLet | KwMatch | KwModule | KwMut | KwOwned | KwPanic | KwPub
  | KwRead | KwRegion | KwResult | KwReturn | KwShared | KwStruct | KwTrait
  | KwTrue | KwType | KwUnsafe | KwVar | KwWhere | KwWhile | KwWrite

definition keyword_ALL :: "Keyword list" where
  "keyword_ALL =
     [KwAs, KwBreak, KwComponent, KwConst, KwContinue, KwElse, KwEnum,
      KwExtern, KwFalse, KwFn, KwFor, KwIf, KwImport, KwIn,
      KwLet, KwMatch, KwModule, KwMut, KwOwned, KwPanic, KwPub,
      KwRead, KwRegion, KwResult, KwReturn, KwShared, KwStruct, KwTrait,
      KwTrue, KwType, KwUnsafe, KwVar, KwWhere, KwWhile, KwWrite]"

fun keyword_as_str :: "Keyword \<Rightarrow> ustring" where
  "keyword_as_str KwAs = lit ''as''"
| "keyword_as_str KwBreak = lit ''break''"
| "keyword_as_str KwComponent = lit ''component''"
| "keyword_as_str KwConst = lit ''const''"
| "keyword_as_str KwContinue = lit ''continue''"
| "keyword_as_str KwElse = lit ''else''"
| "keyword_as_str KwEnum = lit ''enum''"
| "keyword_as_str KwExtern = lit ''extern''"
| "keyword_as_str KwFalse = lit ''false''"
| "keyword_as_str KwFn = lit ''fn''"
| "keyword_as_str KwFor = lit ''for''"
| "keyword_as_str KwIf = lit ''if''"
| "keyword_as_str KwImport = lit ''import''"
| "keyword_as_str KwIn = lit ''in''"
| "keyword_as_str KwLet = lit ''let''"
| "keyword_as_str KwMatch = lit ''match''"
| "keyword_as_str KwModule = lit ''module''"
| "keyword_as_str KwMut = lit ''mut''"
| "keyword_as_str KwOwned = lit ''owned''"
| "keyword_as_str KwPanic = lit ''panic''"
| "keyword_as_str KwPub = lit ''pub''"
| "keyword_as_str KwRead = lit ''read''"
| "keyword_as_str KwRegion = lit ''region''"
| "keyword_as_str KwResult = lit ''result''"
| "keyword_as_str KwReturn = lit ''return''"
| "keyword_as_str KwShared = lit ''shared''"
| "keyword_as_str KwStruct = lit ''struct''"
| "keyword_as_str KwTrait = lit ''trait''"
| "keyword_as_str KwTrue = lit ''true''"
| "keyword_as_str KwType = lit ''type''"
| "keyword_as_str KwUnsafe = lit ''unsafe''"
| "keyword_as_str KwVar = lit ''var''"
| "keyword_as_str KwWhere = lit ''where''"
| "keyword_as_str KwWhile = lit ''while''"
| "keyword_as_str KwWrite = lit ''write''"

definition from_identifier :: "ustring \<Rightarrow> Keyword option" where
  "from_identifier identifier =
     (if identifier = lit ''as'' then Some KwAs
      else if identifier = lit ''break'' then Some KwBreak
      else if identifier = lit ''component'' then Some KwComponent
      else if identifier = lit ''const'' then Some KwConst
      else if identifier = lit ''continue'' then Some KwContinue
      else if identifier = lit ''else'' then Some KwElse
      else if identifier = lit ''enum'' then Some KwEnum
      else if identifier = lit ''extern'' then Some KwExtern
      else if identifier = lit ''false'' then Some KwFalse
      else if identifier = lit ''fn'' then Some KwFn
      else if identifier = lit ''for'' then Some KwFor
      else if identifier = lit ''if'' then Some KwIf
      else if identifier = lit ''import'' then Some KwImport
      else if identifier = lit ''in'' then Some KwIn
      else if identifier = lit ''let'' then Some KwLet
      else if identifier = lit ''match'' then Some KwMatch
      else if identifier = lit ''module'' then Some KwModule
      else if identifier = lit ''mut'' then Some KwMut
      else if identifier = lit ''owned'' then Some KwOwned
      else if identifier = lit ''panic'' then Some KwPanic
      else if identifier = lit ''pub'' then Some KwPub
      else if identifier = lit ''read'' then Some KwRead
      else if identifier = lit ''region'' then Some KwRegion
      else if identifier = lit ''result'' then Some KwResult
      else if identifier = lit ''return'' then Some KwReturn
      else if identifier = lit ''shared'' then Some KwShared
      else if identifier = lit ''struct'' then Some KwStruct
      else if identifier = lit ''trait'' then Some KwTrait
      else if identifier = lit ''true'' then Some KwTrue
      else if identifier = lit ''type'' then Some KwType
      else if identifier = lit ''unsafe'' then Some KwUnsafe
      else if identifier = lit ''var'' then Some KwVar
      else if identifier = lit ''where'' then Some KwWhere
      else if identifier = lit ''while'' then Some KwWhile
      else if identifier = lit ''write'' then Some KwWrite
      else None)"

datatype Punctuation =
    LeftParen | RightParen | LeftBrace | RightBrace | LeftBracket | RightBracket | Comma
  | Dot | Colon | Semicolon | At

datatype Operator =
    OpAssign | OpPlus | OpMinus | OpStar | OpSlash | OpPercent | OpBang
  | OpAmpersand | OpPipe | OpCaret | OpTilde | OpQuestion | OpLess | OpGreater
  | OpEqual | OpNotEqual | OpLessEqual | OpGreaterEqual | OpAnd | OpOr | OpPlusAssign
  | OpMinusAssign | OpStarAssign | OpSlashAssign | OpPercentAssign | OpArrow | OpFatArrow | OpRange
  | OpRangeExclusive | OpPathSeparator

datatype TokenKind =
    Whitespace | LineComment | DocLineComment | BlockComment | DocBlockComment
  | Identifier | Keyword Keyword | IntegerLiteral | FloatLiteral | StringLiteral | CharLiteral
  | Punctuation Punctuation | Operator Operator | Invalid | Eof

definition is_trivia :: "TokenKind \<Rightarrow> bool" where
  "is_trivia k \<longleftrightarrow>
     k = Whitespace \<or> k = LineComment \<or> k = DocLineComment \<or> k = BlockComment \<or> k = DocBlockComment"

record Token =
  kind :: TokenKind
  token_span :: Span

subsection \<open>Keyword spelling\<close>

lemma from_identifier_as_str: "from_identifier (keyword_as_str k) = Some k"
  by (cases k) (simp_all add: from_identifier_def)

lemma from_identifier_Some: "from_identifier s = Some k \<Longrightarrow> s = keyword_as_str k"
  by (auto simp: from_identifier_def simp del: lit_simps split: if_splits)

lemma keyword_ALL_complete: "k \<in> set keyword_ALL"
  by (cases k) (simp_all add: keyword_ALL_def)

end
