(* ===== verification/Lexer.thy ===== *)
theory Lexer
  imports Tokens
begin

text \<open>
  The lexer of the crate \<open>jadren-lexer\<close> as the source has it: a position in the text, moved by
  the \<open>lex_*\<close> routines, each of which pushes one token and possibly diagnostics. A slice of the
  text at an offset that is not a character boundary panics in Rust; every routine here returns
  \<open>None\<close> in that case, and the theorems show that it never happens.
\<close>

subsection \<open>Output\<close>

record LexOutput =
  tokens :: "Token list"
  diagnostics :: "Diagnostic list"

definition has_errors :: "LexOutput \<Rightarrow> bool" where
  "has_errors out \<longleftrightarrow> list_ex (\<lambda>d. severity d = Error) (diagnostics out)"

subsection \<open>The lexer state\<close>

record Lexer =
  source_id :: SourceId
  lex_text :: ustring
  position :: nat
  lex_output :: LexOutput

definition lexer_new :: "SourceFile \<Rightarrow> Lexer" where
  "lexer_new f =
     \<lparr>source_id = file_id f, lex_text = file_text f, position = 0,
      lex_output = \<lparr>tokens = [], diagnostics = []\<rparr>\<rparr>"

definition remaining :: "Lexer \<Rightarrow> ustring option" where
  "remaining lx = str_from (lex_text lx) (position lx)"

definition peek_char :: "Lexer \<Rightarrow> uchar option option" where
  "peek_char lx = do { r \<leftarrow> remaining lx; Some (case r of [] \<Rightarrow> None | c # _ \<Rightarrow> Some c) }"

definition peek_second_char :: "Lexer \<Rightarrow> uchar option option" where
  "peek_second_char lx =
     do { r \<leftarrow> remaining lx; Some (case r of _ # c # _ \<Rightarrow> Some c | _ \<Rightarrow> None) }"

definition advance_char :: "Lexer \<Rightarrow> Lexer option" where
  "advance_char lx = do {
     c \<leftarrow> peek_char lx;
     Some (case c of Some character \<Rightarrow> lx\<lparr>position := position lx + len_utf8 character\<rparr> | None \<Rightarrow> lx)
   }"

definition lexer_span :: "Lexer \<Rightarrow> nat \<Rightarrow> Span" where
  "lexer_span lx a =
     (case span_new (source_id lx) a (position lx) of Some sp \<Rightarrow> sp | None \<Rightarrow> span_empty (source_id lx) a)"

definition push_token :: "Lexer \<Rightarrow> Token \<Rightarrow> Lexer" where
  "push_token lx t =
     lx\<lparr>lex_output := (lex_output lx)\<lparr>tokens := tokens (lex_output lx) @ [t]\<rparr>\<rparr>"

definition push_diagnostic :: "Lexer \<Rightarrow> Diagnostic \<Rightarrow> Lexer" where
  "push_diagnostic lx d =
     lx\<lparr>lex_output := (lex_output lx)\<lparr>diagnostics := diagnostics (lex_output lx) @ [d]\<rparr>\<rparr>"

definition push :: "Lexer \<Rightarrow> TokenKind \<Rightarrow> nat \<Rightarrow> Lexer" where
  "push lx k a = push_token lx \<lparr>kind = k, token_span = lexer_span lx a\<rparr>"

subsection \<open>Positions\<close>

text \<open>
  \<open>consumes lx m lx'\<close>: \<open>lx'\<close> is \<open>lx\<close> with the text \<open>m\<close> read; the text and the identifier are
  those of \<open>lx\<close>, the position is past \<open>m\<close>. Output may differ.
\<close>

definition consumes :: "Lexer \<Rightarrow> ustring \<Rightarrow> Lexer \<Rightarrow> bool" where
  "consumes lx m lx' \<longleftrightarrow>
     (\<exists>p t. lex_text lx = p @ m @ t \<and> position lx = str_len p \<and> position lx' = str_len p + str_len m) \<and>
     lex_text lx' = lex_text lx \<and> source_id lx' = source_id lx"

lemma remaining_Some_iff:
  "remaining lx = Some r \<longleftrightarrow> (\<exists>p. lex_text lx = p @ r \<and> position lx = str_len p)"
  by (auto simp: remaining_def dest: str_from_Some)

lemma consumes_remaining:
  "consumes lx m lx' \<longleftrightarrow>
     (\<exists>t. remaining lx = Some (m @ t) \<and> remaining lx' = Some t) \<and>
     lex_text lx' = lex_text lx \<and> source_id lx' = source_id lx \<and>
     position lx' = position lx + str_len m" (is "?L \<longleftrightarrow> ?R")
proof
  assume ?L
  then obtain p t where "lex_text lx = p @ m @ t" "position lx = str_len p"
    "position lx' = str_len p + str_len m" "lex_text lx' = lex_text lx" "source_id lx' = source_id lx"
    by (auto simp: consumes_def)
  moreover from this have "remaining lx' = Some t"
    using str_from_append [of "p @ m" t] by (simp add: remaining_def)
  ultimately show ?R by (auto simp: remaining_def)
next
  assume R: ?R
  then obtain t where t: "remaining lx = Some (m @ t)" by blast
  then obtain p where "lex_text lx = p @ m @ t" "position lx = str_len p"
    by (auto simp: remaining_Some_iff)
  with R show ?L by (auto simp: consumes_def)
qed

lemma consumes_Nil: "remaining lx = Some r \<Longrightarrow> consumes lx [] lx"
  by (auto simp: consumes_remaining)

lemma consumes_trans [trans]:
  assumes "consumes a m b" "consumes b n c"
  shows "consumes a (m @ n) c"
  using assms by (auto simp: consumes_remaining)

lemma remaining_bound: "remaining lx = Some r \<Longrightarrow> position lx + str_len r = str_len (lex_text lx)"
  by (auto simp: remaining_Some_iff)

lemma remaining_lt: "remaining lx = Some r \<Longrightarrow> position lx < str_len (lex_text lx) \<longleftrightarrow> r \<noteq> []"
  using remaining_bound [of lx r] str_len_pos [of r] by linarith

lemma remaining_cong:
  "lex_text lx' = lex_text lx \<Longrightarrow> position lx' = position lx \<Longrightarrow> remaining lx' = remaining lx"
  by (simp add: remaining_def)

lemma peek_char_eq:
  "remaining lx = Some r \<Longrightarrow> peek_char lx = Some (case r of [] \<Rightarrow> None | c # _ \<Rightarrow> Some c)"
  by (simp add: peek_char_def)

lemma peek_char_Some: "peek_char lx = Some (Some c) \<Longrightarrow> \<exists>r. remaining lx = Some (c # r)"
proof -
  assume "peek_char lx = Some (Some c)"
  then obtain r where "remaining lx = Some r" "(case r of [] \<Rightarrow> None | c # _ \<Rightarrow> Some c) = Some c"
    by (auto simp: peek_char_def bind_eq_Some_conv)
  then show ?thesis by (cases r) auto
qed

text \<open>The state after reading \<open>m\<close> and nothing else.\<close>

definition moved :: "Lexer \<Rightarrow> ustring \<Rightarrow> Lexer" where
  "moved lx m = lx\<lparr>position := position lx + str_len m\<rparr>"

lemma moved_simps [simp]:
  "lex_text (moved lx m) = lex_text lx" "source_id (moved lx m) = source_id lx"
  "lex_output (moved lx m) = lex_output lx" "position (moved lx m) = position lx + str_len m"
  by (simp_all add: moved_def)

lemma moved_moved [simp]: "moved (moved lx m) n = moved lx (m @ n)"
  by (simp add: moved_def add.assoc)

lemma moved_Nil [simp]: "moved lx [] = lx"
  by (simp add: moved_def)

lemma remaining_moved: "remaining lx = Some (m @ t) \<Longrightarrow> remaining (moved lx m) = Some t"
  using str_from_append [of "_ @ m" t] by (fastforce simp: remaining_Some_iff)

lemma consumes_moved: "remaining lx = Some (m @ t) \<Longrightarrow> consumes lx m (moved lx m)"
  by (auto simp: consumes_remaining remaining_moved)

lemma advance_char_Cons: "remaining lx = Some (c # r) \<Longrightarrow> advance_char lx = Some (moved lx [c])"
  by (simp add: advance_char_def peek_char_eq moved_def)

lemma advance_char_Nil: "remaining lx = Some [] \<Longrightarrow> advance_char lx = Some lx"
  by (simp add: advance_char_def peek_char_eq)

lemma advance_char_measure:
  assumes "peek_char lx = Some (Some c)" "advance_char lx = Some lx'"
  shows "lex_text lx' = lex_text lx \<and> position lx < position lx' \<and> position lx' \<le> str_len (lex_text lx)"
proof -
  from assms(1) obtain r where r: "remaining lx = Some (c # r)" by (auto dest: peek_char_Some)
  with assms(2) have "lx' = moved lx [c]" by (simp add: advance_char_Cons)
  with remaining_bound [OF r] len_utf8_pos [of c] show ?thesis by (simp del: len_utf8_pos)
qed

lemma advance_char_measure_lt:
  assumes "\<not> str_len (lex_text lx) \<le> position lx" "remaining lx = Some r" "advance_char lx = Some lx'"
  shows "lex_text lx' = lex_text lx \<and> position lx < position lx' \<and> position lx' \<le> str_len (lex_text lx)"
proof -
  from remaining_bound [OF assms(2)] assms(1) obtain c r' where "r = c # r'" by (cases r) auto
  with assms(2) have "peek_char lx = Some (Some c)" by (simp add: peek_char_eq)
  then show ?thesis using assms(3) by (rule advance_char_measure)
qed

subsection \<open>Loops over characters\<close>

text \<open>
  The loops \<open>while self.peek_char().is_some_and(p) { self.advance_char() }\<close> of the source, for
  whitespace, identifiers, digits, literal suffixes and line comments.
\<close>

function advance_while :: "(uchar \<Rightarrow> bool) \<Rightarrow> Lexer \<Rightarrow> Lexer option" where
  "advance_while P lx =
     (case peek_char lx of
        None \<Rightarrow> None
      | Some None \<Rightarrow> Some lx
      | Some (Some c) \<Rightarrow>
          if P c then (case advance_char lx of None \<Rightarrow> None | Some lx' \<Rightarrow> advance_while P lx')
          else Some lx)"
  by pat_completeness auto
termination
  by (relation "measure (\<lambda>(P, lx). str_len (lex_text lx) - position lx)")
    (auto dest!: advance_char_measure)

declare advance_while.simps [simp del]

lemma advance_while_eq:
  "remaining lx = Some r \<Longrightarrow> advance_while P lx = Some (moved lx (takeWhile P r))"
proof (induction r arbitrary: lx)
  case Nil
  then show ?case by (simp add: advance_while.simps [of P lx] peek_char_eq)
next
  case (Cons c r)
  then have "remaining (moved lx [c]) = Some r" by (simp add: remaining_moved)
  with Cons show ?case
    by (simp add: advance_while.simps [of P lx] peek_char_eq advance_char_Cons)
qed

definition lex_line_comment :: "Lexer \<Rightarrow> nat \<Rightarrow> Lexer option" where
  "lex_line_comment lx a = do {
     r \<leftarrow> remaining lx;
     let doc = starts_with r (lit ''///'');
     l1 \<leftarrow> advance_while (\<lambda>c. \<not> is_line_end c) (lx\<lparr>position := position lx + 2\<rparr>);
     Some (push l1 (if doc then DocLineComment else LineComment) a)
   }"

text \<open>
  The loop of \<open>lex_block_comment\<close>. \<open>depth\<close> is a \<open>u32\<close> that saturates at its maximum; the flag
  says whether the comment was closed (the source returns at that point).
\<close>

definition saturating_inc_u32 :: "nat \<Rightarrow> nat" where
  "saturating_inc_u32 d = min (2 ^ 32 - 1) (d + 1)"

function block_comment_loop :: "Lexer \<Rightarrow> nat \<Rightarrow> (Lexer \<times> bool) option" where
  "block_comment_loop lx depth =
     (if str_len (lex_text lx) \<le> position lx then Some (lx, False)
      else case remaining lx of
        None \<Rightarrow> None
      | Some r \<Rightarrow>
          if starts_with r (lit ''/*'') then
            block_comment_loop (lx\<lparr>position := position lx + 2\<rparr>) (saturating_inc_u32 depth)
          else if starts_with r (lit ''*/'') then
            (let l1 = lx\<lparr>position := position lx + 2\<rparr>
             in if depth - 1 = 0 then Some (l1, True) else block_comment_loop l1 (depth - 1))
          else (case advance_char lx of None \<Rightarrow> None | Some l1 \<Rightarrow> block_comment_loop l1 depth))"
  by pat_completeness auto
termination
  by (relation "measure (\<lambda>(lx, depth). str_len (lex_text lx) - position lx)")
    (auto dest!: advance_char_measure_lt)

declare block_comment_loop.simps [simp del]

definition lex_block_comment :: "Lexer \<Rightarrow> nat \<Rightarrow> Lexer option" where
  "lex_block_comment lx a = do {
     r \<leftarrow> remaining lx;
     let doc = (starts_with r (lit ''/**'') \<and> \<not> starts_with r (lit ''/**/''));
     (l1, closed) \<leftarrow> block_comment_loop (lx\<lparr>position := position lx + 2\<rparr>) 1;
     let l2 = push l1 (if doc then DocBlockComment else BlockComment) a;
     Some (if closed then l2
           else push_diagnostic l2
             (with_help
               (diagnostic_error (lit ''J0002'') (lit ''unterminated block comment'') (lexer_span l1 a)
                 (lit ''this comment is not closed''))
               (lit ''add `*/` before the end of the file'')))
   }"

text \<open>
  The loop of \<open>lex_quoted\<close>, with the count of logical characters; the flag is \<open>closed\<close>. The
  diagnostic of an invalid escape is pushed inside the loop.
\<close>

definition is_escape_char :: "uchar \<Rightarrow> bool" where
  "is_escape_char c \<longleftrightarrow>
     c \<in> {ch CHR ''n'', ch CHR ''r'', ch CHR ''t'', ch CHR ''0'', ch_backslash, ch_quote, ch_apostrophe}"

definition invalid_escape :: "Span \<Rightarrow> uchar \<Rightarrow> Diagnostic" where
  "invalid_escape sp invalid =
     with_help
       (diagnostic_error (lit ''J0004'') (lit ''invalid escape sequence'') sp
         (lit ''`'' @ [ch_backslash, invalid] @ lit ''` is not a supported escape''))
       (lit ''use one of: '' @ [ch_backslash] @ lit ''n, '' @ [ch_backslash] @ lit ''r, ''
         @ [ch_backslash] @ lit ''t, '' @ [ch_backslash] @ lit ''0, '' @ [ch_backslash, ch_backslash]
         @ lit '', '' @ [ch_backslash, ch_quote] @ lit '', or '' @ [ch_backslash, ch_apostrophe])"

function quoted_loop :: "uchar \<Rightarrow> Lexer \<Rightarrow> nat \<Rightarrow> (Lexer \<times> nat \<times> bool) option" where
  "quoted_loop quote lx logical_characters =
     (case peek_char lx of
        None \<Rightarrow> None
      | Some None \<Rightarrow> Some (lx, logical_characters, False)
      | Some (Some character) \<Rightarrow>
          if character = quote then
            (case advance_char lx of None \<Rightarrow> None | Some l1 \<Rightarrow> Some (l1, logical_characters, True))
          else if is_line_end character then Some (lx, logical_characters, False)
          else if character = ch_backslash then
            (let escape_start = position lx in
             case advance_char lx of
               None \<Rightarrow> None
             | Some l1 \<Rightarrow>
                 (case peek_char l1 of
                    None \<Rightarrow> None
                  | Some None \<Rightarrow> Some (l1, logical_characters, False)
                  | Some (Some e) \<Rightarrow>
                      (case advance_char l1 of
                         None \<Rightarrow> None
                       | Some l2 \<Rightarrow>
                           if is_escape_char e then quoted_loop quote l2 (logical_characters + 1)
                           else quoted_loop quote
                                  (push_diagnostic l2 (invalid_escape (lexer_span l2 escape_start) e))
                                  logical_characters)))
          else (case advance_char lx of
                  None \<Rightarrow> None | Some l1 \<Rightarrow> quoted_loop quote l1 (logical_characters + 1)))"
  by pat_completeness auto
termination
  by (relation "measure (\<lambda>(q, lx, n). str_len (lex_text lx) - position lx)")
    (auto dest!: advance_char_measure simp: push_diagnostic_def)

declare quoted_loop.simps [simp del]

definition lex_quoted :: "Lexer \<Rightarrow> nat \<Rightarrow> uchar \<Rightarrow> TokenKind \<Rightarrow> Lexer option" where
  "lex_quoted lx a quote k = do {
     l0 \<leftarrow> advance_char lx;
     (l1, logical_characters, closed) \<leftarrow> quoted_loop quote l0 0;
     let sp = lexer_span l1 a;
     let l2 = push_token l1 \<lparr>kind = k, token_span = sp\<rparr>;
     let description = (if quote = ch_quote then lit ''string'' else lit ''character'');
     Some (if \<not> closed then
             push_diagnostic l2
               (with_help
                 (diagnostic_error (lit ''J0003'') (lit ''unterminated '' @ description @ lit '' literal'') sp
                   (lit ''this '' @ description @ lit '' literal is not closed''))
                 (lit ''add `'' @ [quote] @ lit ''` before the end of the line''))
           else if quote = ch_apostrophe \<and> logical_characters \<noteq> 1 then
             push_diagnostic l2
               (with_help
                 (diagnostic_error (lit ''J0005'') (lit ''invalid character literal'') sp
                   (lit ''a character literal must contain exactly one character''))
                 (lit ''use double quotes for a string literal''))
           else l2)
   }"

abbreviation ch_underscore :: uchar where "ch_underscore \<equiv> 95"

definition is_identifier_char :: "uchar \<Rightarrow> bool" where
  "is_identifier_char c \<longleftrightarrow> is_ascii_alphanumeric c \<or> c = ch_underscore"

definition lex_identifier :: "Lexer \<Rightarrow> nat \<Rightarrow> Lexer option" where
  "lex_identifier lx a = do {
     l0 \<leftarrow> advance_char lx;
     l1 \<leftarrow> advance_while is_identifier_char l0;
     t \<leftarrow> str_get (lex_text l1) a (position l1);
     Some (push l1 (case from_identifier t of None \<Rightarrow> Identifier | Some k \<Rightarrow> Keyword k) a)
   }"

definition is_digit_or_underscore :: "uchar \<Rightarrow> bool" where
  "is_digit_or_underscore c \<longleftrightarrow> is_ascii_digit c \<or> c = ch_underscore"

definition consume_digits_and_underscores :: "Lexer \<Rightarrow> Lexer option" where
  "consume_digits_and_underscores lx = advance_while is_digit_or_underscore lx"

text \<open>The two-byte windows of the literal that make a separator invalid.\<close>

definition bad_separator_window :: "uchar \<Rightarrow> uchar \<Rightarrow> bool" where
  "bad_separator_window x y \<longleftrightarrow>
     (x = ch_underscore \<and> y = ch_underscore) \<or>
     (x = ch_underscore \<and> y \<in> {ch CHR ''.'', ch CHR ''e'', ch CHR ''E''}) \<or>
     (x \<in> {ch CHR ''.'', ch CHR ''e'', ch CHR ''E'', ch CHR ''+'', ch CHR ''-''} \<and> y = ch_underscore)"

fun any_window :: "(uchar \<Rightarrow> uchar \<Rightarrow> bool) \<Rightarrow> ustring \<Rightarrow> bool" where
  "any_window P (x # y # s) = (P x y \<or> any_window P (y # s))"
| "any_window P _ = False"

definition has_invalid_numeric_separator :: "ustring \<Rightarrow> bool" where
  "has_invalid_numeric_separator literal \<longleftrightarrow>
     (literal \<noteq> [] \<and> (hd literal = ch_underscore \<or> last literal = ch_underscore)) \<or>
     any_window bad_separator_window literal"

text \<open>The fraction and the exponent of \<open>lex_number\<close>, each with the \<open>is_float\<close> flag it may set.\<close>

definition lex_fraction :: "Lexer \<Rightarrow> (Lexer \<times> bool) option" where
  "lex_fraction lx = do {
     c \<leftarrow> peek_char lx;
     r \<leftarrow> remaining lx;
     c2 \<leftarrow> peek_second_char lx;
     if c = Some (ch CHR ''.'') \<and> \<not> starts_with r (lit ''..'')
        \<and> (case c2 of Some d \<Rightarrow> is_ascii_digit d | None \<Rightarrow> False)
     then do { l1 \<leftarrow> advance_char lx; l2 \<leftarrow> consume_digits_and_underscores l1; Some (l2, True) }
     else Some (lx, False)
   }"

definition lex_exponent :: "Lexer \<Rightarrow> (Lexer \<times> bool) option" where
  "lex_exponent lx = do {
     c \<leftarrow> peek_char lx;
     if c = Some (ch CHR ''e'') \<or> c = Some (ch CHR ''E'')
     then do {
       l1 \<leftarrow> advance_char lx;
       s \<leftarrow> peek_char l1;
       l2 \<leftarrow> (if s = Some (ch CHR ''+'') \<or> s = Some (ch CHR ''-'') then advance_char l1 else Some l1);
       l3 \<leftarrow> consume_digits_and_underscores l2;
       Some (l3, True)
     }
     else Some (lx, False)
   }"

definition lex_number :: "Lexer \<Rightarrow> nat \<Rightarrow> Lexer option" where
  "lex_number lx a = do {
     l1 \<leftarrow> consume_digits_and_underscores lx;
     (l2, fraction) \<leftarrow> lex_fraction l1;
     (l3, exponent) \<leftarrow> lex_exponent l2;
     l4 \<leftarrow> advance_while is_ascii_alphanumeric l3;
     let sp = lexer_span l4 a;
     literal \<leftarrow> str_get (lex_text l4) a (position l4);
     let l5 = push_token l4
       \<lparr>kind = (if fraction \<or> exponent then FloatLiteral else IntegerLiteral), token_span = sp\<rparr>;
     Some (if has_invalid_numeric_separator literal then
             push_diagnostic l5
               (with_help
                 (diagnostic_error (lit ''J0006'') (lit ''invalid numeric separator'') sp
                   (lit ''underscores must separate digits''))
                 (lit ''remove repeated, leading, or trailing underscores''))
           else l5)
   }"

definition match_symbol :: "ustring \<Rightarrow> (TokenKind \<times> nat) option" where
  "match_symbol t =
     (if starts_with t (lit ''..<'') then Some (Operator OpRangeExclusive, 3)
      else if starts_with t (lit ''->'') then Some (Operator OpArrow, 2)
      else if starts_with t (lit ''=>'') then Some (Operator OpFatArrow, 2)
      else if starts_with t (lit ''=='') then Some (Operator OpEqual, 2)
      else if starts_with t (lit ''!='') then Some (Operator OpNotEqual, 2)
      else if starts_with t (lit ''<='') then Some (Operator OpLessEqual, 2)
      else if starts_with t (lit ''>='') then Some (Operator OpGreaterEqual, 2)
      else if starts_with t (lit ''&&'') then Some (Operator OpAnd, 2)
      else if starts_with t (lit ''||'') then Some (Operator OpOr, 2)
      else if starts_with t (lit ''+='') then Some (Operator OpPlusAssign, 2)
      else if starts_with t (lit ''-='') then Some (Operator OpMinusAssign, 2)
      else if starts_with t (lit ''*='') then Some (Operator OpStarAssign, 2)
      else if starts_with t (lit ''/='') then Some (Operator OpSlashAssign, 2)
      else if starts_with t (lit ''%='') then Some (Operator OpPercentAssign, 2)
      else if starts_with t (lit ''..'') then Some (Operator OpRange, 2)
      else if starts_with t (lit ''::'') then Some (Operator OpPathSeparator, 2)
      else case t of
        [] \<Rightarrow> None
      | c # _ \<Rightarrow>
          map_option (\<lambda>k. (k, 1))
          (if c = ch CHR ''('' then Some (Punctuation LeftParen)
           else if c = ch CHR '')'' then Some (Punctuation RightParen)
           else if c = ch CHR ''{'' then Some (Punctuation LeftBrace)
           else if c = ch CHR ''}'' then Some (Punctuation RightBrace)
           else if c = ch CHR ''['' then Some (Punctuation LeftBracket)
           else if c = ch CHR '']'' then Some (Punctuation RightBracket)
           else if c = ch CHR '','' then Some (Punctuation Comma)
           else if c = ch CHR ''.'' then Some (Punctuation Dot)
           else if c = ch CHR '':'' then Some (Punctuation Colon)
           else if c = ch CHR '';'' then Some (Punctuation Semicolon)
           else if c = ch CHR ''@'' then Some (Punctuation At)
           else if c = ch CHR ''='' then Some (Operator OpAssign)
           else if c = ch CHR ''+'' then Some (Operator OpPlus)
           else if c = ch CHR ''-'' then Some (Operator OpMinus)
           else if c = ch CHR ''*'' then Some (Operator OpStar)
           else if c = ch CHR ''/'' then Some (Operator OpSlash)
           else if c = ch CHR ''%'' then Some (Operator OpPercent)
           else if c = ch CHR ''!'' then Some (Operator OpBang)
           else if c = ch CHR ''&'' then Some (Operator OpAmpersand)
           else if c = ch CHR ''|'' then Some (Operator OpPipe)
           else if c = ch CHR ''^'' then Some (Operator OpCaret)
           else if c = ch CHR ''~'' then Some (Operator OpTilde)
           else if c = ch CHR ''?'' then Some (Operator OpQuestion)
           else if c = ch CHR ''<'' then Some (Operator OpLess)
           else if c = ch CHR ''>'' then Some (Operator OpGreater)
           else None))"

subsection \<open>One token, and the whole file\<close>

definition lex_one :: "Lexer \<Rightarrow> Lexer option" where
  "lex_one lx =
     (let a = position lx in do {
        r \<leftarrow> remaining lx;
        if a = 0 \<and> starts_with r [0xFEFF] then do {
          l1 \<leftarrow> advance_char lx;
          Some (push l1 Whitespace a)
        }
        else do {
          c \<leftarrow> peek_char lx;
          case c of
            None \<Rightarrow> Some lx
          | Some character \<Rightarrow>
              if is_whitespace character then do {
                l1 \<leftarrow> advance_char lx;
                l2 \<leftarrow> advance_while is_whitespace l1;
                Some (push l2 Whitespace a)
              }
              else if starts_with r (lit ''//'') then lex_line_comment lx a
              else if starts_with r (lit ''/*'') then lex_block_comment lx a
              else if character = ch_quote then lex_quoted lx a ch_quote StringLiteral
              else if character = ch_apostrophe then lex_quoted lx a ch_apostrophe CharLiteral
              else if is_ascii_alphabetic character \<or> character = ch_underscore then lex_identifier lx a
              else if is_ascii_digit character then lex_number lx a
              else (case match_symbol r of
                Some (k, width) \<Rightarrow> Some (push (lx\<lparr>position := position lx + width\<rparr>) k a)
              | None \<Rightarrow> do {
                  l1 \<leftarrow> advance_char lx;
                  let sp = lexer_span l1 a;
                  Some (push_diagnostic (push_token l1 \<lparr>kind = Invalid, token_span = sp\<rparr>)
                    (with_help
                      (diagnostic_error (lit ''J0001'') (lit ''invalid character'') sp
                        (lit ''`'' @ [character] @ lit ''` is not valid Jadren syntax''))
                      (lit ''remove the character or replace it with a valid token'')))
                })
        }
      })"

subsection \<open>What the routines read and push\<close>

lemma push_simps [simp]:
  "lex_text (push_token lx t) = lex_text lx" "source_id (push_token lx t) = source_id lx"
  "position (push_token lx t) = position lx"
  "tokens (lex_output (push_token lx t)) = tokens (lex_output lx) @ [t]"
  "diagnostics (lex_output (push_token lx t)) = diagnostics (lex_output lx)"
  "lex_text (push_diagnostic lx d) = lex_text lx" "source_id (push_diagnostic lx d) = source_id lx"
  "position (push_diagnostic lx d) = position lx"
  "tokens (lex_output (push_diagnostic lx d)) = tokens (lex_output lx)"
  "diagnostics (lex_output (push_diagnostic lx d)) = diagnostics (lex_output lx) @ [d]"
  by (simp_all add: push_token_def push_diagnostic_def)

text \<open>A diagnostic about a range of the text that starts and ends on character boundaries.\<close>

definition diag_ok :: "SourceId \<Rightarrow> ustring \<Rightarrow> Diagnostic \<Rightarrow> bool" where
  "diag_ok i t d \<longleftrightarrow>
     severity d = Error \<and>
     (let sp = label_span (primary d)
      in span_source sp = i \<and> span_start sp \<le> span_end sp \<and>
         is_char_boundary t (span_start sp) \<and> is_char_boundary t (span_end sp))"

text \<open>
  \<open>reads\<close>: the state moved over \<open>m\<close>, no token was pushed, and only well-placed diagnostics were.
  \<open>emits\<close>: the same with exactly one token, of kind \<open>k\<close>, covering \<open>m\<close>.
\<close>

definition reads :: "Lexer \<Rightarrow> ustring \<Rightarrow> Lexer \<Rightarrow> bool" where
  "reads lx m lx' \<longleftrightarrow>
     consumes lx m lx' \<and> tokens (lex_output lx') = tokens (lex_output lx) \<and>
     (\<exists>ds. diagnostics (lex_output lx') = diagnostics (lex_output lx) @ ds \<and>
           (\<forall>d \<in> set ds. diag_ok (source_id lx) (lex_text lx) d))"

definition emits :: "Lexer \<Rightarrow> TokenKind \<Rightarrow> ustring \<Rightarrow> Lexer \<Rightarrow> bool" where
  "emits lx k m lx' \<longleftrightarrow>
     consumes lx m lx' \<and> m \<noteq> [] \<and>
     tokens (lex_output lx') = tokens (lex_output lx) @
       [\<lparr>kind = k, token_span = \<lparr>span_source = source_id lx, span_start = position lx,
                               span_end = position lx'\<rparr>\<rparr>] \<and>
     (\<exists>ds. diagnostics (lex_output lx') = diagnostics (lex_output lx) @ ds \<and>
           (\<forall>d \<in> set ds. diag_ok (source_id lx) (lex_text lx) d) \<and> (k = Invalid \<longrightarrow> ds \<noteq> []))"

lemma lexer_span_eq:
  "a \<le> position lx \<Longrightarrow>
     lexer_span lx a = \<lparr>span_source = source_id lx, span_start = a, span_end = position lx\<rparr>"
  by (simp add: lexer_span_def span_new_def)

lemma consumes_boundaries:
  assumes "consumes lx m lx'"
  shows "is_char_boundary (lex_text lx) (position lx)" "is_char_boundary (lex_text lx) (position lx')"
    "position lx \<le> position lx'"
proof -
  from assms obtain p t where "lex_text lx = p @ m @ t" "position lx = str_len p"
    "position lx' = str_len p + str_len m" by (auto simp: consumes_def)
  then show "is_char_boundary (lex_text lx) (position lx)" "is_char_boundary (lex_text lx) (position lx')"
    "position lx \<le> position lx'"
    using is_char_boundary_append [of "p @ m" t] by simp_all
qed

lemma reads_moved: "remaining lx = Some (m @ t) \<Longrightarrow> reads lx m (moved lx m)"
  by (auto simp: reads_def consumes_moved)

lemma reads_consumes: "reads lx m lx' \<Longrightarrow> consumes lx m lx'"
  by (simp add: reads_def)

lemma reads_trans [trans]:
  assumes "reads a m b" "reads b n c"
  shows "reads a (m @ n) c"
proof -
  have "lex_text b = lex_text a" "source_id b = source_id a"
    using assms(1) by (auto simp: reads_def consumes_def)
  with assms show ?thesis
    unfolding reads_def by (force intro: consumes_trans)
qed

lemma reads_push_diagnostic:
  assumes "reads lx m l1" "diag_ok (source_id lx) (lex_text lx) d"
  shows "reads lx m (push_diagnostic l1 d)"
  using assms unfolding reads_def consumes_def by force

lemma reads_push_token:
  assumes "reads lx m l1" "m \<noteq> []" "k \<noteq> Invalid" "a = position lx"
  shows "emits lx k m (push_token l1 \<lparr>kind = k, token_span = lexer_span l1 a\<rparr>)"
  using assms consumes_boundaries(3) [OF reads_consumes [OF assms(1)]]
  by (auto simp: reads_def emits_def consumes_def lexer_span_eq)

lemma reads_push:
  assumes "reads lx m l1" "m \<noteq> []" "k \<noteq> Invalid" "a = position lx"
  shows "emits lx k m (push l1 k a)"
  unfolding push_def using assms by (rule reads_push_token)

lemma emits_push_diagnostic:
  assumes "emits lx k m l1" "diag_ok (source_id lx) (lex_text lx) d"
  shows "emits lx k m (push_diagnostic l1 d)"
  using assms unfolding emits_def consumes_def by force

text \<open>The error diagnostics of the lexer are about ranges it has read.\<close>

lemma diag_ok_span:
  assumes "consumes lx m l1" "a = position lx" "primary d = label_new (lexer_span l1 a) msg" "severity d = Error"
  shows "diag_ok (source_id lx) (lex_text lx) d"
  using assms consumes_boundaries [OF assms(1)]
  by (auto simp: diag_ok_def label_new_def lexer_span_eq consumes_def)

lemma diagnostic_error_simps [simp]:
  "primary (with_help (diagnostic_error c m sp l) h) = label_new sp l"
  "severity (with_help (diagnostic_error c m sp l) h) = Error"
  by (simp_all add: with_help_def diagnostic_error_def)

lemma block_comment_loop_moved:
  assumes "remaining lx = Some r"
  shows "\<exists>m t closed. r = m @ t \<and> block_comment_loop lx depth = Some (moved lx m, closed) \<and>
           (\<not> closed \<longrightarrow> t = [])"
  using assms
proof (induction "length r" arbitrary: r lx depth rule: less_induct)
  case less
  show ?case
  proof (cases "r = []")
    case True
    with less.prems remaining_bound [of lx r] have "str_len (lex_text lx) \<le> position lx" by simp
    with True show ?thesis by (auto simp: block_comment_loop.simps [of lx])
  next
    case False
    then have lt: "\<not> str_len (lex_text lx) \<le> position lx"
      using remaining_lt [OF less.prems] by (simp add: not_le)
    have step: "\<exists>m t closed. r = m @ t \<and> block_comment_loop (moved lx p) d = Some (moved lx m, closed) \<and>
        (\<not> closed \<longrightarrow> t = [])" if "r = p @ u" "p \<noteq> []" for p u d
    proof -
      have "remaining (moved lx p) = Some u" using less.prems that by (simp add: remaining_moved)
      moreover have "length u < length r" using that by simp
      ultimately obtain m t closed where "u = m @ t"
        "block_comment_loop (moved lx p) d = Some (moved (moved lx p) m, closed)" "\<not> closed \<longrightarrow> t = []"
        using less.hyps [of u "moved lx p" d] by blast
      with that show ?thesis
        by (intro exI [of _ "p @ m"] exI [of _ t] exI [of _ closed]) simp
    qed
    consider (nested) u where "r = lit ''/*'' @ u" | (final) u where "r = lit ''*/'' @ u" "\<not> starts_with r (lit ''/*'')"
      | (other) "\<not> starts_with r (lit ''/*'')" "\<not> starts_with r (lit ''*/'')"
      by (auto simp: starts_with_iff)
    then show ?thesis
    proof cases
      case nested
      then have "block_comment_loop lx depth =
          block_comment_loop (moved lx (lit ''/*'')) (saturating_inc_u32 depth)"
        using less.prems lt by (simp add: block_comment_loop.simps [of lx] moved_def)
      with nested step [of "lit ''/*''" u] show ?thesis by simp
    next
      case final
      then have eq: "block_comment_loop lx depth =
          (if depth - 1 = 0 then Some (moved lx (lit ''*/''), True)
           else block_comment_loop (moved lx (lit ''*/'')) (depth - 1))"
        using less.prems lt by (simp add: block_comment_loop.simps [of lx depth] moved_def Let_def)
      show ?thesis
      proof (cases "depth - 1 = 0")
        case True
        with eq final show ?thesis
          by (intro exI [of _ "lit ''*/''"] exI [of _ u] exI [of _ True]) simp
      next
        case False
        with eq final step [of "lit ''*/''" u "depth - 1"] show ?thesis by simp
      qed
    next
      case other
      obtain c u where r: "r = [c] @ u" using False by (cases r) auto
      have "block_comment_loop lx depth = block_comment_loop (moved lx [c]) depth"
        unfolding block_comment_loop.simps [of lx depth]
        using less.prems lt other r by (simp only: advance_char_Cons append_Cons append_Nil if_False option.case)
      with r step [of "[c]" u depth] show ?thesis by simp
    qed
  qed
qed

lemma quoted_loop_reads:
  assumes "remaining lx = Some r"
  shows "\<exists>m t l1 n' closed. r = m @ t \<and> quoted_loop q lx n = Some (l1, n', closed) \<and> reads lx m l1"
  using assms
proof (induction "length r" arbitrary: r lx n rule: less_induct)
  case less
  have stop: "\<exists>m t l1 n' closed. r = m @ t \<and> Some (moved lx p, k, b) = Some (l1, n', closed) \<and> reads lx m l1"
    if "r = p @ u" for p u k b
  proof -
    have "reads lx p (moved lx p)" using that less.prems by (intro reads_moved) simp
    with that show ?thesis by blast
  qed
  have step: "\<exists>m t l1 n' closed. r = m @ t \<and> quoted_loop q l0 k = Some (l1, n', closed) \<and> reads lx m l1"
    if "r = p @ u" "p \<noteq> []" "reads lx p l0" for p u l0 k
  proof -
    from that less.prems have "remaining l0 = Some u"
      by (auto simp: reads_def consumes_remaining)
    moreover have "length u < length r" using that by simp
    ultimately obtain m t l1 n' closed where "u = m @ t"
      "quoted_loop q l0 k = Some (l1, n', closed)" "reads l0 m l1"
      using less.hyps [of u l0 k] by blast
    with that reads_trans [OF that(3)] show ?thesis
      by (intro exI [of _ "p @ m"] exI [of _ t] exI [of _ l1] exI [of _ n'] exI [of _ closed]) simp
  qed
  show ?case
  proof (cases r)
    case Nil
    then show ?thesis
      using less.prems stop [of "[]" "[]" n False] by (simp add: quoted_loop.simps [of q lx] peek_char_eq)
  next
    case (Cons c u)
    have adv: "advance_char lx = Some (moved lx [c])" "peek_char lx = Some (Some c)"
      using less.prems Cons by (simp_all add: advance_char_Cons peek_char_eq)
    have rem1: "remaining (moved lx [c]) = Some u" using less.prems Cons by (simp add: remaining_moved)
    consider (close) "c = q" | (eol) "c \<noteq> q" "is_line_end c"
      | (esc) "c \<noteq> q" "\<not> is_line_end c" "c = ch_backslash" | (char) "c \<noteq> q" "\<not> is_line_end c" "c \<noteq> ch_backslash"
      by blast
    then show ?thesis
    proof cases
      case close
      then show ?thesis
        using Cons adv stop [of "[c]" u n True] by (simp add: quoted_loop.simps [of q lx])
    next
      case eol
      then show ?thesis
        using Cons adv stop [of "[]" r n False] by (simp add: quoted_loop.simps [of q lx])
    next
      case char
      have "reads lx [c] (moved lx [c])" using less.prems Cons by (intro reads_moved) simp
      with char show ?thesis
        using Cons adv step [of "[c]" u] by (simp add: quoted_loop.simps [of q lx])
    next
      case esc
      show ?thesis
      proof (cases u)
        case Nil
        with esc rem1 show ?thesis
          using Cons adv stop [of "[c]" "[]" n False]
          by (simp add: quoted_loop.simps [of q lx] peek_char_eq)
      next
        case (Cons e v)
        let ?l2 = "moved lx [c, e]"
        have adv2: "advance_char (moved lx [c]) = Some ?l2" "peek_char (moved lx [c]) = Some (Some e)"
          using rem1 Cons by (simp_all add: advance_char_Cons peek_char_eq)
        have rd: "reads lx [c, e] ?l2"
          using less.prems \<open>r = c # u\<close> Cons by (intro reads_moved [of _ _ v]) simp
        then have "diag_ok (source_id lx) (lex_text lx) (invalid_escape (lexer_span ?l2 (position lx)) e)"
          by (intro diag_ok_span [OF reads_consumes]) (auto simp: invalid_escape_def)
        with rd have "reads lx [c, e] (push_diagnostic ?l2 (invalid_escape (lexer_span ?l2 (position lx)) e))"
          by (rule reads_push_diagnostic)
        with rd esc adv adv2 \<open>r = c # u\<close> Cons show ?thesis
          using step [of "[c, e]" v] by (simp add: quoted_loop.simps [of q lx] Let_def)
      qed
    qed
  qed
qed

text \<open>Each routine of \<open>lex_one\<close>, started where it is called, emits one token of its kind.\<close>

lemma lex_line_comment_emits:
  assumes "remaining lx = Some (lit ''//'' @ t)"
  shows "\<exists>lx' m. lex_line_comment lx (position lx) =  Some lx' \<and> m = lit ''//'' @ takeWhile (\<lambda>c. \<not> is_line_end c) t \<and>
     emits lx (if starts_with t (lit ''/'') then DocLineComment else LineComment) m lx'"
proof -
  have pos: "lx\<lparr>position := position lx + 2\<rparr> = moved lx (lit ''//'')" by (simp add: moved_def)
  have rem: "remaining (moved lx (lit ''//'')) = Some t" using assms by (rule remaining_moved)
  let ?m = "lit ''//'' @ takeWhile (\<lambda>c. \<not> is_line_end c) t"
  have "remaining lx = Some (?m @ dropWhile (\<lambda>c. \<not> is_line_end c) t)" using assms by simp
  then have "reads lx ?m (moved lx ?m)" by (rule reads_moved)
  from reads_push [OF this]
  have em: "k \<noteq> Invalid \<Longrightarrow> emits lx k ?m (push (moved lx ?m) k (position lx))" for k by simp
  have "lex_line_comment lx (position lx) =
      Some (push (moved lx ?m) (if starts_with t (lit ''/'') then DocLineComment else LineComment) (position lx))"
    by (simp only: lex_line_comment_def assms pos advance_while_eq [OF rem] moved_moved bind.bind_lunit Let_def) simp
  with em show ?thesis by auto
qed

lemma lex_block_comment_emits:
  assumes "remaining lx = Some (lit ''/*'' @ t)"
  shows "\<exists>lx' m u k. lex_block_comment lx (position lx) = Some lx' \<and> t = m @ u \<and>
     k \<in> {BlockComment, DocBlockComment} \<and> emits lx k (lit ''/*'' @ m) lx'"
proof -
  have pos: "lx\<lparr>position := position lx + 2\<rparr> = moved lx (lit ''/*'')" by (simp add: moved_def)
  have rem: "remaining (moved lx (lit ''/*'')) = Some t" using assms by (rule remaining_moved)
  obtain m u closed where t: "t = m @ u"
    and loop: "block_comment_loop (moved lx (lit ''/*'')) 1 = Some (moved lx (lit ''/*'' @ m), closed)"
    using block_comment_loop_moved [OF rem, of 1] by auto
  let ?m = "lit ''/*'' @ m" and ?l1 = "moved lx (lit ''/*'' @ m)"
  let ?doc = "starts_with (lit ''/*'' @ t) (lit ''/**'') \<and> \<not> starts_with (lit ''/*'' @ t) (lit ''/**/'')"
  let ?k = "if ?doc then DocBlockComment else BlockComment"
  have rd: "reads lx ?m ?l1" using assms t by (intro reads_moved [of _ _ u]) simp
  have em: "emits lx ?k ?m (push ?l1 ?k (position lx))"
    using rd by (intro reads_push) auto
  have "diag_ok (source_id lx) (lex_text lx) (with_help
               (diagnostic_error c mm (lexer_span ?l1 (position lx)) l) h)" for c mm l h
    using rd by (intro diag_ok_span [OF reads_consumes]) auto
  note emd = emits_push_diagnostic [OF em this]
  have "\<exists>lx'. lex_block_comment lx (position lx) = Some lx' \<and> emits lx ?k ?m lx'"
  proof (cases closed)
    case True
    then have "lex_block_comment lx (position lx) = Some (push ?l1 ?k (position lx))"
      by (simp only: lex_block_comment_def assms pos loop bind.bind_lunit Let_def prod.case if_True)
    with em show ?thesis by blast
  next
    case False
    then have "lex_block_comment lx (position lx) =
        Some (push_diagnostic (push ?l1 ?k (position lx))
          (with_help (diagnostic_error (lit ''J0002'') (lit ''unterminated block comment'')
             (lexer_span ?l1 (position lx)) (lit ''this comment is not closed''))
             (lit ''add `*/` before the end of the file'')))"
      by (simp only: lex_block_comment_def assms pos loop bind.bind_lunit Let_def prod.case if_False)
    with emd show ?thesis by blast
  qed
  moreover have "?k \<in> {BlockComment, DocBlockComment}" by simp
  ultimately show ?thesis using t by blast
qed

lemma lex_quoted_emits:
  assumes "remaining lx = Some (c # t)" "k \<noteq> Invalid"
  shows "\<exists>lx' m u. lex_quoted lx (position lx) q k = Some lx' \<and> t = m @ u \<and> emits lx k (c # m) lx'"
proof -
  have adv: "advance_char lx = Some (moved lx [c])" using assms(1) by (rule advance_char_Cons)
  have rem: "remaining (moved lx [c]) = Some t" using assms(1) by (simp add: remaining_moved)
  obtain m u l1 n closed where t: "t = m @ u" and loop: "quoted_loop q (moved lx [c]) 0 = Some (l1, n, closed)"
    and rd1: "reads (moved lx [c]) m l1" using quoted_loop_reads [OF rem, of q 0] by blast
  have "reads lx [c] (moved lx [c])" using assms(1) by (intro reads_moved) simp
  then have rd: "reads lx (c # m) l1" using rd1 reads_trans [of lx "[c]" _ m l1] by simp
  let ?l2 = "push_token l1 \<lparr>kind = k, token_span = lexer_span l1 (position lx)\<rparr>"
  have em: "emits lx k (c # m) ?l2"
    using rd assms(2) by (intro reads_push_token) auto
  have "diag_ok (source_id lx) (lex_text lx) (with_help
               (diagnostic_error e mm (lexer_span l1 (position lx)) l) h)" for e mm l h
    using rd by (intro diag_ok_span [OF reads_consumes]) auto
  note emd = emits_push_diagnostic [OF em this]
  have "\<exists>lx'. lex_quoted lx (position lx) q k = Some lx' \<and> emits lx k (c # m) lx'"
    unfolding lex_quoted_def adv bind.bind_lunit loop Let_def prod.case
    using em emd by (cases closed; cases "q = ch_apostrophe \<and> n \<noteq> 1") (auto simp del: lit_simps)
  with t show ?thesis by blast
qed

lemma str_get_consumed:
  assumes "consumes lx m l1"
  shows "str_get (lex_text l1) (position lx) (position l1) = Some m"
  using assms by (auto simp: consumes_def)

lemma lex_identifier_eq:
  assumes "remaining lx = Some (c # t)"
  defines "m \<equiv> c # takeWhile is_identifier_char t"
  shows "lex_identifier lx (position lx) =
      Some (push (moved lx m) (case from_identifier m of None \<Rightarrow> Identifier | Some k \<Rightarrow> Keyword k) (position lx))"
    "reads lx m (moved lx m)"
proof -
  have adv: "advance_char lx = Some (moved lx [c])" using assms(1) by (rule advance_char_Cons)
  have rem: "remaining (moved lx [c]) = Some t" using assms(1) by (simp add: remaining_moved)
  have "remaining lx = Some (m @ dropWhile is_identifier_char t)" using assms by simp
  then show rd: "reads lx m (moved lx m)" by (rule reads_moved)
  have aw: "advance_while is_identifier_char (moved lx [c]) = Some (moved lx m)"
    by (simp add: advance_while_eq [OF rem] m_def)
  show "lex_identifier lx (position lx) =
      Some (push (moved lx m) (case from_identifier m of None \<Rightarrow> Identifier | Some k \<Rightarrow> Keyword k) (position lx))"
    by (simp only: lex_identifier_def adv aw bind.bind_lunit str_get_consumed [OF reads_consumes [OF rd]])
qed

lemma lex_identifier_emits:
  assumes "remaining lx = Some (c # t)"
  defines "m \<equiv> c # takeWhile is_identifier_char t"
  shows "\<exists>lx'. lex_identifier lx (position lx) = Some lx' \<and>
     emits lx (case from_identifier m of None \<Rightarrow> Identifier | Some k \<Rightarrow> Keyword k) m lx'"
proof -
  have "emits lx (case from_identifier m of None \<Rightarrow> Identifier | Some k \<Rightarrow> Keyword k) m
      (push (moved lx m) (case from_identifier m of None \<Rightarrow> Identifier | Some k \<Rightarrow> Keyword k) (position lx))"
    using lex_identifier_eq(2) [OF assms(1)] by (intro reads_push) (auto simp: m_def split: option.splits)
  then show ?thesis using lex_identifier_eq(1) [OF assms(1)] by (simp add: m_def)
qed

text \<open>The characters a numeric literal can hold.\<close>

definition is_number_char :: "uchar \<Rightarrow> bool" where
  "is_number_char c \<longleftrightarrow>
     is_ascii_alphanumeric c \<or> c = ch_underscore \<or> c \<in> {ch CHR ''.'', ch CHR ''+'', ch CHR ''-''}"

lemma takeWhile_number_chars:
  "(\<And>c. P c \<Longrightarrow> is_number_char c) \<Longrightarrow> list_all is_number_char (takeWhile P r)"
  by (auto simp: list_all_iff dest: set_takeWhileD)

lemma digit_number_char: "is_digit_or_underscore c \<Longrightarrow> is_number_char c"
  by (auto simp: is_digit_or_underscore_def is_number_char_def is_ascii_alphanumeric_def)

lemma lex_fraction_moved:
  assumes "remaining lx = Some r"
  shows "\<exists>m t b. r = m @ t \<and> lex_fraction lx = Some (moved lx m, b) \<and> list_all is_number_char m"
proof (cases "\<exists>u. r = ch CHR ''.'' # u \<and> \<not> starts_with r (lit ''..'') \<and> u \<noteq> [] \<and> is_ascii_digit (hd u)")
  case True
  then obtain u where u: "r = ch CHR ''.'' # u" "\<not> starts_with r (lit ''..'')" "u \<noteq> []" "is_ascii_digit (hd u)"
    by blast
  let ?m = "ch CHR ''.'' # takeWhile is_digit_or_underscore u"
  have rem: "remaining (moved lx [ch CHR ''.'']) = Some u" using assms u by (simp add: remaining_moved)
  have "advance_while is_digit_or_underscore (moved lx [46]) = Some (moved lx ?m)"
    using advance_while_eq [OF rem, of is_digit_or_underscore] by simp
  then have "lex_fraction lx = Some (moved lx ?m, True)"
    using assms u
    by (cases u) (auto simp: lex_fraction_def peek_char_eq peek_second_char_def advance_char_Cons
        consume_digits_and_underscores_def)
  moreover have "list_all is_number_char ?m"
    by (simp add: takeWhile_number_chars digit_number_char) (simp add: is_number_char_def)
  moreover have "r = ?m @ dropWhile is_digit_or_underscore u" using u by simp
  ultimately show ?thesis by blast
next
  case False
  then have "lex_fraction lx = Some (moved lx [], False)"
    using assms
    by (auto simp: lex_fraction_def peek_char_eq peek_second_char_def split: list.splits)
  then show ?thesis by (intro exI [of _ "[]"] exI [of _ r] exI [of _ False]) simp
qed

end
