(* ===== verification/Lexing.thy ===== *)
theory Lexing
  imports Lexer
begin

text \<open>
  The main loop of \<open>jadren-lexer\<close> and what it guarantees: every step reads a non-empty piece of
  the text and pushes one token for it whose kind fits its spelling; the loop therefore ends,
  never slices the text inside a character, and the tokens cover the text without gaps or overlap.
\<close>

subsection \<open>Numbers\<close>

lemma lex_exponent_moved:
  assumes "remaining lx = Some r"
  shows "\<exists>m t b. r = m @ t \<and> lex_exponent lx = Some (moved lx m, b) \<and> list_all is_number_char m"
proof (cases "\<exists>c u. r = c # u \<and> c \<in> {ch CHR ''e'', ch CHR ''E''}")
  case True
  then obtain c u where r: "r = c # u" and c: "c \<in> {ch CHR ''e'', ch CHR ''E''}" by blast
  have adv: "advance_char lx = Some (moved lx [c])" and pk: "peek_char lx = Some (Some c)"
    using assms r by (simp_all add: advance_char_Cons peek_char_eq)
  have rem: "remaining (moved lx [c]) = Some u" using assms r by (simp add: remaining_moved)
  obtain s v where u: "u = s @ v" and s: "list_all is_number_char s" "remaining (moved lx (c # s)) = Some v"
    and sign: "(do { x \<leftarrow> peek_char (moved lx [c]);
            if x = Some (ch CHR ''+'') \<or> x = Some (ch CHR ''-'') then advance_char (moved lx [c])
            else Some (moved lx [c]) }) = Some (moved lx (c # s))"
  proof (cases "\<exists>d w. u = d # w \<and> d \<in> {ch CHR ''+'', ch CHR ''-''}")
    case True
    then obtain d w where u: "u = d # w" and d: "d \<in> {ch CHR ''+'', ch CHR ''-''}" by blast
    have "remaining (moved lx [c, d]) = Some w" using assms r u by (simp add: remaining_moved)
    then show ?thesis
      using that [of "[d]" w] u d rem by (auto simp: is_number_char_def peek_char_eq advance_char_Cons)
  next
    case False
    then show ?thesis
      using that [of "[]" u] rem by (cases u) (auto simp: peek_char_eq)
  qed
  let ?m = "c # s @ takeWhile is_digit_or_underscore v"
  have "consume_digits_and_underscores (moved lx (c # s)) = Some (moved lx ?m)"
    by (simp add: consume_digits_and_underscores_def advance_while_eq [OF s(2)])
  with sign have "lex_exponent lx = Some (moved lx ?m, True)"
    unfolding lex_exponent_def pk bind.bind_lunit adv using c
    by (auto simp: bind_eq_Some_conv)
  moreover have "list_all is_number_char ?m"
    using s c takeWhile_number_chars [of is_digit_or_underscore v, OF digit_number_char]
    by (auto simp: is_number_char_def is_ascii_alphanumeric_def is_ascii_alphabetic_def)
  moreover have "r = ?m @ dropWhile is_digit_or_underscore v" using r u by simp
  ultimately show ?thesis by blast
next
  case False
  then have "lex_exponent lx = Some (moved lx [], False)"
    using assms by (auto simp: lex_exponent_def peek_char_eq split: list.splits)
  then show ?thesis by (intro exI [of _ "[]"] exI [of _ r] exI [of _ False]) simp
qed

lemma lex_number_emits:
  assumes "remaining lx = Some (c # t)" "is_ascii_digit c"
  shows "\<exists>lx' m u k. lex_number lx (position lx) = Some lx' \<and> t = m @ u \<and>
     list_all is_number_char (c # m) \<and> k \<in> {IntegerLiteral, FloatLiteral} \<and> emits lx k (c # m) lx'"
proof -
  let ?D = is_digit_or_underscore
  have dc: "?D c" using assms(2) by (simp add: is_digit_or_underscore_def)
  define m1 where "m1 = c # takeWhile ?D t"
  have l1: "consume_digits_and_underscores lx = Some (moved lx m1)"
    unfolding consume_digits_and_underscores_def advance_while_eq [OF assms(1)] using dc by (simp add: m1_def)
  have n1: "list_all is_number_char m1"
    using dc by (simp add: m1_def takeWhile_number_chars digit_number_char)
  have r1: "remaining (moved lx m1) = Some (dropWhile ?D t)"
    using assms(1) by (intro remaining_moved) (simp add: m1_def)
  obtain m2 t2 b2 where t2: "dropWhile ?D t = m2 @ t2"
    and l2: "lex_fraction (moved lx m1) = Some (moved lx (m1 @ m2), b2)" and n2: "list_all is_number_char m2"
    using lex_fraction_moved [OF r1] by auto
  have r2: "remaining (moved lx (m1 @ m2)) = Some t2"
    using remaining_moved [of "moved lx m1" m2 t2] r1 t2 by simp
  obtain m3 t3 b3 where t3: "t2 = m3 @ t3"
    and l3: "lex_exponent (moved lx (m1 @ m2)) = Some (moved lx (m1 @ m2 @ m3), b3)"
    and n3: "list_all is_number_char m3"
    using lex_exponent_moved [OF r2] by auto
  have r3: "remaining (moved lx (m1 @ m2 @ m3)) = Some t3"
    using remaining_moved [of "moved lx (m1 @ m2)" m3 t3] r2 t3 by simp
  let ?suffix = "takeWhile is_ascii_alphanumeric t3"
  define m where "m = takeWhile ?D t @ m2 @ m3 @ ?suffix"
  let ?l4 = "moved lx (c # m)" and ?k = "if b2 \<or> b3 then FloatLiteral else IntegerLiteral"
  have l4: "advance_while is_ascii_alphanumeric (moved lx (m1 @ m2 @ m3)) = Some ?l4"
    unfolding advance_while_eq [OF r3] by (simp add: m1_def m_def)
  have t: "t = m @ dropWhile is_ascii_alphanumeric t3"
    using t2 t3 takeWhile_dropWhile_id [of ?D t] by (simp add: m_def)
  have num: "list_all is_number_char (c # m)"
    using n1 n2 n3 by (auto simp: m_def m1_def is_number_char_def intro!: takeWhile_number_chars)
  have rd: "reads lx (c # m) ?l4"
    using assms(1) t by (intro reads_moved [of _ _ "dropWhile is_ascii_alphanumeric t3"]) simp
  have em: "emits lx ?k (c # m) (push_token ?l4 \<lparr>kind = ?k, token_span = lexer_span ?l4 (position lx)\<rparr>)"
    using rd by (intro reads_push_token) auto
  have "diag_ok (source_id lx) (lex_text lx) (with_help
               (diagnostic_error e mm (lexer_span ?l4 (position lx)) l) h)" for e mm l h
    using rd by (intro diag_ok_span [OF reads_consumes]) auto
  note emd = emits_push_diagnostic [OF em this]
  have "\<exists>lx'. lex_number lx (position lx) = Some lx' \<and> emits lx ?k (c # m) lx'"
    unfolding lex_number_def l1 l2 l3 l4 bind.bind_lunit prod.case Let_def
      str_get_consumed [OF reads_consumes [OF rd]]
    using em emd by (cases "has_invalid_numeric_separator (c # m)") (auto simp del: lit_simps)
  moreover have "?k \<in> {IntegerLiteral, FloatLiteral}" by simp
  ultimately obtain lx' where "lex_number lx (position lx) = Some lx'" "emits lx ?k (c # m) lx'"
    "?k \<in> {IntegerLiteral, FloatLiteral}" by blast
  then show ?thesis using t num
    by (intro exI [of _ lx'] exI [of _ m] exI [of _ "dropWhile is_ascii_alphanumeric t3"] exI [of _ ?k]) (intro conjI)
qed

subsection \<open>Symbols\<close>

text \<open>The spelling of each punctuation mark and operator, as the documentation of the enums gives it.\<close>

primrec punctuation_spelling :: "Punctuation \<Rightarrow> ustring" where
  "punctuation_spelling LeftParen = lit ''(''"
| "punctuation_spelling RightParen = lit '')''"
| "punctuation_spelling LeftBrace = lit ''{''"
| "punctuation_spelling RightBrace = lit ''}''"
| "punctuation_spelling LeftBracket = lit ''[''"
| "punctuation_spelling RightBracket = lit '']''"
| "punctuation_spelling Comma = lit '',''"
| "punctuation_spelling Dot = lit ''.''"
| "punctuation_spelling Colon = lit '':''"
| "punctuation_spelling Semicolon = lit '';''"
| "punctuation_spelling At = lit ''@''"

primrec operator_spelling :: "Operator \<Rightarrow> ustring" where
  "operator_spelling OpAssign = lit ''=''"
| "operator_spelling OpPlus = lit ''+''"
| "operator_spelling OpMinus = lit ''-''"
| "operator_spelling OpStar = lit ''*''"
| "operator_spelling OpSlash = lit ''/''"
| "operator_spelling OpPercent = lit ''%''"
| "operator_spelling OpBang = lit ''!''"
| "operator_spelling OpAmpersand = lit ''&''"
| "operator_spelling OpPipe = lit ''|''"
| "operator_spelling OpCaret = lit ''^''"
| "operator_spelling OpTilde = lit ''~''"
| "operator_spelling OpQuestion = lit ''?''"
| "operator_spelling OpLess = lit ''<''"
| "operator_spelling OpGreater = lit ''>''"
| "operator_spelling OpEqual = lit ''==''"
| "operator_spelling OpNotEqual = lit ''!=''"
| "operator_spelling OpLessEqual = lit ''<=''"
| "operator_spelling OpGreaterEqual = lit ''>=''"
| "operator_spelling OpAnd = lit ''&&''"
| "operator_spelling OpOr = lit ''||''"
| "operator_spelling OpPlusAssign = lit ''+=''"
| "operator_spelling OpMinusAssign = lit ''-=''"
| "operator_spelling OpStarAssign = lit ''*=''"
| "operator_spelling OpSlashAssign = lit ''/=''"
| "operator_spelling OpPercentAssign = lit ''%=''"
| "operator_spelling OpArrow = lit ''->''"
| "operator_spelling OpFatArrow = lit ''=>''"
| "operator_spelling OpRange = lit ''..''"
| "operator_spelling OpRangeExclusive = lit ''..<''"
| "operator_spelling OpPathSeparator = lit ''::''"

definition symbol_spelling :: "TokenKind \<Rightarrow> ustring option" where
  "symbol_spelling k =
     (case k of Punctuation p \<Rightarrow> Some (punctuation_spelling p)
              | Operator q \<Rightarrow> Some (operator_spelling q) | _ \<Rightarrow> None)"

lemma match_symbol_punctuation_spelling:
  "match_symbol (punctuation_spelling p) = Some (Punctuation p, str_len (punctuation_spelling p))"
  by (cases p) (simp_all add: match_symbol_def)

lemma match_symbol_operator_spelling:
  "match_symbol (operator_spelling q) = Some (Operator q, str_len (operator_spelling q))"
  by (cases q) (simp_all add: match_symbol_def)

lemma match_symbol_spelling: "symbol_spelling k = Some m \<Longrightarrow> match_symbol m = Some (k, str_len m)"
  by (auto simp: symbol_spelling_def match_symbol_punctuation_spelling match_symbol_operator_spelling
      split: TokenKind.splits)

lemma symbol_spelling_inj: "symbol_spelling k = Some m \<Longrightarrow> symbol_spelling k' = Some m \<Longrightarrow> k = k'"
  using match_symbol_spelling [of k m] match_symbol_spelling [of k' m] by auto

lemma match_symbol_Some:
  assumes "match_symbol r = Some (k, w)"
  shows "\<exists>m t. symbol_spelling k = Some m \<and> r = m @ t \<and> str_len m = w \<and> m \<noteq> []"
proof (cases r)
  case Nil
  then show ?thesis using assms by (simp add: match_symbol_def)
next
  case (Cons c t)
  show ?thesis
    using assms unfolding match_symbol_def Cons
    by (auto simp: symbol_spelling_def starts_with_iff split: if_splits)
qed

lemma match_symbol_punctuation:
  "\<exists>k w. match_symbol (punctuation_spelling p @ t) = Some (k, w) \<and> str_len (punctuation_spelling p) \<le> w"
  by (cases p) (simp_all add: match_symbol_def)

lemma match_symbol_operator:
  "\<exists>k w. match_symbol (operator_spelling q @ t) = Some (k, w) \<and> str_len (operator_spelling q) \<le> w"
  by (cases q) (simp_all add: match_symbol_def)

lemma match_symbol_longest:
  "symbol_spelling k' = Some m' \<Longrightarrow>
     \<exists>k w. match_symbol (m' @ t) = Some (k, w) \<and> str_len m' \<le> w"
  using match_symbol_punctuation match_symbol_operator
  by (auto simp: symbol_spelling_def split: TokenKind.splits)

text \<open>
  \<open>match_symbol\<close> is the longest match over the spellings of all punctuation marks and
  operators: it fails exactly when no spelling is a prefix of the text, and what it returns is a
  token kind whose spelling is a prefix, with the byte width of that spelling, and no other
  spelling that is a prefix is longer.
\<close>

theorem match_symbol_correct:
  "match_symbol r = Some (k, w) \<longleftrightarrow>
     (\<exists>m t. symbol_spelling k = Some m \<and> r = m @ t \<and> w = str_len m \<and>
        (\<nexists>k' m' t'. symbol_spelling k' = Some m' \<and> r = m' @ t' \<and> str_len m < str_len m'))"
  (is "?L \<longleftrightarrow> ?R")
proof
  assume L: ?L
  then obtain m t where m: "symbol_spelling k = Some m" "r = m @ t" "str_len m = w"
    by (auto dest: match_symbol_Some)
  moreover have "str_len m' \<le> w" if "symbol_spelling k' = Some m'" "r = m' @ t'" for k' m' t'
    using match_symbol_longest [OF that(1), of t'] L that(2) by auto
  ultimately show ?R by (metis leD)
next
  assume ?R
  then obtain m t where m: "symbol_spelling k = Some m" "r = m @ t" "w = str_len m"
    and max: "\<And>k' m' t'. symbol_spelling k' = Some m' \<Longrightarrow> r = m' @ t' \<Longrightarrow> str_len m' \<le> str_len m"
    by (metis leI)
  from match_symbol_longest [OF m(1), of t] m(2) obtain k1 w1
    where k1: "match_symbol r = Some (k1, w1)" "str_len m \<le> w1" by blast
  then obtain m1 t1 where m1: "symbol_spelling k1 = Some m1" "r = m1 @ t1" "str_len m1 = w1"
    by (auto dest: match_symbol_Some)
  with max k1(2) have "str_len m1 = str_len m" by (metis le_antisym)
  with m(2) m1(2) have "m1 = m" by (metis str_len_split_unique)
  with m(1) m1(1) have "k1 = k" by (metis symbol_spelling_inj)
  with k1 m1 m \<open>m1 = m\<close> show ?L by simp
qed

subsection \<open>One step\<close>

text \<open>
  What the spelling of a token of each kind looks like. It is the reading of the kinds' documentation
  that the parser and the formatter rely on.
\<close>

definition token_shape :: "TokenKind \<Rightarrow> ustring \<Rightarrow> bool" where
  "token_shape k m \<longleftrightarrow>
     m \<noteq> [] \<and>
     (case k of
        Whitespace \<Rightarrow> m = [0xFEFF] \<or> list_all is_whitespace m
      | LineComment \<Rightarrow> starts_with m (lit ''//'') \<and> list_all (\<lambda>c. \<not> is_line_end c) m
      | DocLineComment \<Rightarrow> starts_with m (lit ''///'') \<and> list_all (\<lambda>c. \<not> is_line_end c) m
      | BlockComment \<Rightarrow> starts_with m (lit ''/*'')
      | DocBlockComment \<Rightarrow> starts_with m (lit ''/*'')
      | Identifier \<Rightarrow> \<not> is_ascii_digit (hd m) \<and> list_all is_identifier_char m \<and> from_identifier m = None
      | Keyword w \<Rightarrow> m = keyword_as_str w
      | IntegerLiteral \<Rightarrow> is_ascii_digit (hd m) \<and> list_all is_number_char m
      | FloatLiteral \<Rightarrow> is_ascii_digit (hd m) \<and> list_all is_number_char m
      | StringLiteral \<Rightarrow> hd m = ch_quote
      | CharLiteral \<Rightarrow> hd m = ch_apostrophe
      | Punctuation p \<Rightarrow> m = punctuation_spelling p
      | Operator q \<Rightarrow> m = operator_spelling q
      | Invalid \<Rightarrow> length m = 1 \<and> \<not> is_whitespace (hd m) \<and> \<not> is_identifier_char (hd m)
      | Eof \<Rightarrow> False)"

text \<open>A step of the lexer: one token, of a kind that fits the text it covers.\<close>

definition scans :: "Lexer \<Rightarrow> Lexer \<Rightarrow> bool" where
  "scans lx lx' \<longleftrightarrow> (\<exists>k m. emits lx k m lx' \<and> token_shape k m)"

lemma scans_moved_push:
  assumes "remaining lx = Some (m @ t)" "token_shape k m" "k \<noteq> Invalid"
  shows "scans lx (push (moved lx m) k (position lx))"
  unfolding scans_def using assms
  by (intro exI [of _ k] exI [of _ m] conjI reads_push [OF reads_moved]) (auto simp: token_shape_def)

lemma token_shape_identifier:
  fixes c :: uchar and t :: ustring
  assumes "is_ascii_alphabetic c \<or> c = ch_underscore"
  defines "m \<equiv> c # takeWhile is_identifier_char t"
  shows "token_shape (case from_identifier m of None \<Rightarrow> Identifier | Some k \<Rightarrow> Keyword k) m"
proof (cases "from_identifier m")
  case None
  have "list_all is_identifier_char m" "\<not> is_ascii_digit (hd m)"
    using assms(1) by (auto simp: m_def is_identifier_char_def is_ascii_alphanumeric_def list_all_iff
        is_ascii_alphabetic_def is_ascii_digit_def dest: set_takeWhileD)
  with None show ?thesis by (simp add: token_shape_def m_def)
next
  case (Some k)
  then show ?thesis using from_identifier_Some [OF Some] by (auto simp: token_shape_def m_def)
qed

lemma lex_one_comment_scans:
  assumes "remaining lx = Some (ch CHR ''/'' # d # t)" "d \<in> {ch CHR ''/'', ch CHR ''*''}"
  shows "\<exists>lx'. (if d = ch CHR ''/'' then lex_line_comment else lex_block_comment) lx (position lx) = Some lx' \<and>
           scans lx lx'"
proof (cases "d = ch CHR ''/''")
  case True
  with assms have "remaining lx = Some (lit ''//'' @ t)" by simp
  from lex_line_comment_emits [OF this] obtain lx' m where
    lx': "lex_line_comment lx (position lx) = Some lx'" "m = lit ''//'' @ takeWhile (\<lambda>c. \<not> is_line_end c) t"
    "emits lx (if starts_with t (lit ''/'') then DocLineComment else LineComment) m lx'" by blast
  have "token_shape (if starts_with t (lit ''/'') then DocLineComment else LineComment) m"
    by (cases t) (auto simp: token_shape_def lx'(2) list_all_iff is_line_end_def dest: set_takeWhileD)
  with lx' True show ?thesis by (auto simp: scans_def)
next
  case False
  with assms have "remaining lx = Some (lit ''/*'' @ t)" by simp
  from lex_block_comment_emits [OF this] obtain lx' m k where
    lx': "lex_block_comment lx (position lx) = Some lx'" "k \<in> {BlockComment, DocBlockComment}"
    "emits lx k (lit ''/*'' @ m) lx'" by blast
  then have "token_shape k (lit ''/*'' @ m)" by (auto simp: token_shape_def)
  with lx' have "scans lx lx'" unfolding scans_def by blast
  with lx'(1) False show ?thesis by auto
qed

lemma lex_one_invalid_scans:
  assumes "remaining lx = Some (c # t)" "\<not> is_whitespace c" "\<not> is_identifier_char c"
  defines "sp \<equiv> lexer_span (moved lx [c]) (position lx)"
  shows "scans lx (push_diagnostic (push_token (moved lx [c]) \<lparr>kind = Invalid, token_span = sp\<rparr>)
           (with_help (diagnostic_error e mm sp l) h))"
proof -
  have rd: "reads lx [c] (moved lx [c])" using assms(1) by (intro reads_moved) simp
  have d: "diag_ok (source_id lx) (lex_text lx) (with_help (diagnostic_error e mm sp l) h)"
    unfolding sp_def using rd by (intro diag_ok_span [OF reads_consumes]) auto
  have "emits lx Invalid [c] (push_diagnostic (push_token (moved lx [c]) \<lparr>kind = Invalid, token_span = sp\<rparr>)
           (with_help (diagnostic_error e mm sp l) h))"
    using rd d unfolding emits_def reads_def consumes_def by (simp add: sp_def lexer_span_eq)
  then show ?thesis
    unfolding scans_def using assms(2,3)
    by (intro exI [of _ Invalid] exI [of _ "[c]"]) (simp add: token_shape_def)
qed

text \<open>The part of \<open>lex_one\<close> after whitespace and comments, by the first character.\<close>

definition lex_plain :: "Lexer \<Rightarrow> uchar \<Rightarrow> ustring \<Rightarrow> Lexer option" where
  "lex_plain lx character r =
     (if character = ch_quote then lex_quoted lx (position lx) ch_quote StringLiteral
      else if character = ch_apostrophe then lex_quoted lx (position lx) ch_apostrophe CharLiteral
      else if is_ascii_alphabetic character \<or> character = ch_underscore then lex_identifier lx (position lx)
      else if is_ascii_digit character then lex_number lx (position lx)
      else (case match_symbol r of
        Some (k, width) \<Rightarrow> Some (push (lx\<lparr>position := position lx + width\<rparr>) k (position lx))
      | None \<Rightarrow> do {
          l1 \<leftarrow> advance_char lx;
          let sp = lexer_span l1 (position lx);
          Some (push_diagnostic (push_token l1 \<lparr>kind = Invalid, token_span = sp\<rparr>)
            (with_help
              (diagnostic_error (lit ''J0001'') (lit ''invalid character'') sp
                (lit ''`'' @ [character] @ lit ''` is not valid Jadren syntax''))
              (lit ''remove the character or replace it with a valid token'')))
        }))"

lemma lex_symbol_scans:
  assumes "remaining lx = Some r" "match_symbol r = Some (k, w)"
  shows "scans lx (push (lx\<lparr>position := position lx + w\<rparr>) k (position lx))"
proof -
  obtain m t where m: "symbol_spelling k = Some m" "r = m @ t" "str_len m = w" "m \<noteq> []"
    using match_symbol_Some [OF assms(2)] by blast
  have "token_shape k m" "k \<noteq> Invalid"
    using m(1,4) by (auto simp: symbol_spelling_def token_shape_def split: TokenKind.splits)
  then have "scans lx (push (moved lx m) k (position lx))"
    using assms(1) m(2) by (intro scans_moved_push) simp_all
  then show ?thesis using m(3) by (simp add: moved_def)
qed

lemma lex_plain_scans:
  assumes "remaining lx = Some (c # t)" "\<not> is_whitespace c"
  shows "\<exists>lx'. lex_plain lx c (c # t) = Some lx' \<and> scans lx lx'"
proof -
  have adv: "advance_char lx = Some (moved lx [c])" using assms(1) by (rule advance_char_Cons)
  consider (str) "c = ch_quote" | (chr) "c = ch_apostrophe"
    | (ident) "c \<noteq> ch_quote" "c \<noteq> ch_apostrophe" "is_ascii_alphabetic c \<or> c = ch_underscore"
    | (num) "c \<noteq> ch_quote" "c \<noteq> ch_apostrophe" "\<not> (is_ascii_alphabetic c \<or> c = ch_underscore)" "is_ascii_digit c"
    | (sym) "c \<noteq> ch_quote" "c \<noteq> ch_apostrophe" "\<not> (is_ascii_alphabetic c \<or> c = ch_underscore)" "\<not> is_ascii_digit c"
    by argo
  then show ?thesis
  proof cases
    case str
    from lex_quoted_emits [OF assms(1), of StringLiteral ch_quote]
    obtain lx' m where "lex_quoted lx (position lx) ch_quote StringLiteral = Some lx'"
      "emits lx StringLiteral (c # m) lx'" by auto
    with str show ?thesis by (auto simp: lex_plain_def scans_def token_shape_def intro!: exI [of _ "c # m"])
  next
    case chr
    from lex_quoted_emits [OF assms(1), of CharLiteral ch_apostrophe]
    obtain lx' m where "lex_quoted lx (position lx) ch_apostrophe CharLiteral = Some lx'"
      "emits lx CharLiteral (c # m) lx'" by auto
    with chr show ?thesis by (auto simp: lex_plain_def scans_def token_shape_def intro!: exI [of _ "c # m"])
  next
    case ident
    from lex_identifier_emits [OF assms(1)] token_shape_identifier [OF ident(3), of t] ident show ?thesis
      by (auto simp: lex_plain_def scans_def)
  next
    case num
    from lex_number_emits [OF assms(1) num(4)] obtain lx' m k where
      lx': "lex_number lx (position lx) = Some lx'" "list_all is_number_char (c # m)"
      "k \<in> {IntegerLiteral, FloatLiteral}" "emits lx k (c # m) lx'" by blast
    with num have "token_shape k (c # m)" by (auto simp: token_shape_def)
    with lx' have "scans lx lx'" unfolding scans_def by blast
    with lx' num show ?thesis by (simp add: lex_plain_def)
  next
    case sym
    show ?thesis
    proof (cases "match_symbol (c # t)")
      case None
      have "\<not> is_identifier_char c" using sym by (simp add: is_identifier_char_def is_ascii_alphanumeric_def)
      from lex_one_invalid_scans [OF assms this] None sym adv show ?thesis
        by (simp add: lex_plain_def Let_def del: lit_simps)
    next
      case (Some kw)
      then obtain k w where kw: "match_symbol (c # t) = Some (k, w)" by (cases kw) auto
      from lex_symbol_scans [OF assms(1) kw] kw sym show ?thesis by (simp add: lex_plain_def)
    qed
  qed
qed

lemma lex_one_identifier:
  assumes "remaining lx = Some (c # t)" "is_ascii_alphabetic c \<or> c = ch_underscore"
  defines "m \<equiv> c # takeWhile is_identifier_char t"
  shows "lex_one lx =
      Some (push (moved lx m) (case from_identifier m of None \<Rightarrow> Identifier | Some k \<Rightarrow> Keyword k) (position lx))"
proof -
  have c: "c < 128" "c \<noteq> 47" "c \<noteq> 34" "c \<noteq> 39" "\<not> is_whitespace c"
    using assms(2) by (auto simp: is_ascii_alphabetic_def is_whitespace_def)
  then have "lex_one lx = lex_identifier lx (position lx)"
    using assms by (auto simp: lex_one_def Let_def peek_char_eq)
  then show ?thesis using lex_identifier_eq(1) [OF assms(1)] by (simp add: m_def)
qed

lemma lex_one_scans:
  assumes "remaining lx = Some r" "r \<noteq> []"
  shows "\<exists>lx'. lex_one lx = Some lx' \<and> scans lx lx'"
proof -
  obtain c t where r: "r = c # t" using assms(2) by (cases r) auto
  note rem = assms(1) [unfolded r]
  have adv: "advance_char lx = Some (moved lx [c])" and pk: "peek_char lx = Some (Some c)"
    using rem by (simp_all add: advance_char_Cons peek_char_eq)
  note one = lex_one_def Let_def rem bind.bind_lunit pk option.case adv
  consider (bom) "position lx = 0" "c = 0xFEFF" | (space) "\<not> (position lx = 0 \<and> c = 0xFEFF)" "is_whitespace c"
    | (rest) "\<not> (position lx = 0 \<and> c = 0xFEFF)" "\<not> is_whitespace c" by argo
  then show ?thesis
  proof cases
    case bom
    then have "scans lx (push (moved lx [c]) Whitespace (position lx))"
      using rem by (intro scans_moved_push) (auto simp: token_shape_def)
    then show ?thesis using bom unfolding one by simp
  next
    case space
    let ?m = "c # takeWhile is_whitespace t"
    have "remaining (moved lx [c]) = Some t" using rem by (simp add: remaining_moved)
    then have "advance_while is_whitespace (moved lx [c]) = Some (moved lx ?m)"
      by (simp add: advance_while_eq)
    moreover have "scans lx (push (moved lx ?m) Whitespace (position lx))"
      using rem space
      by (intro scans_moved_push [of _ _ "dropWhile is_whitespace t"])
        (auto simp: token_shape_def list_all_iff dest: set_takeWhileD)
    ultimately show ?thesis using space unfolding one by auto
  next
    case rest
    then have nobom: "\<not> (position lx = 0 \<and> starts_with (c # t) [0xFEFF])" by simp
    have eq: "lex_one lx =
       (if starts_with (c # t) (lit ''//'') then lex_line_comment lx (position lx)
        else if starts_with (c # t) (lit ''/*'') then lex_block_comment lx (position lx)
        else lex_plain lx c (c # t))"
      unfolding one if_not_P [OF nobom] if_not_P [OF rest(2)] lex_plain_def ..
    have "\<exists>lx'. lex_plain lx c (c # t) = Some lx' \<and> scans lx lx'"
      using rem rest(2) by (rule lex_plain_scans)
    then show ?thesis
      unfolding eq using lex_one_comment_scans [of lx] rem by (cases t) auto
  qed
qed

subsection \<open>The main loop\<close>

lemma scans_consumes: "scans lx lx' \<Longrightarrow> \<exists>m. m \<noteq> [] \<and> consumes lx m lx'"
  by (auto simp: scans_def emits_def)

lemma scans_progress:
  assumes "scans lx lx'"
  shows "lex_text lx' = lex_text lx" "source_id lx' = source_id lx" "position lx < position lx'"
    "position lx' \<le> str_len (lex_text lx)"
proof -
  obtain m where m: "m \<noteq> []" "consumes lx m lx'" using scans_consumes [OF assms] by blast
  then show "lex_text lx' = lex_text lx" "source_id lx' = source_id lx" by (auto simp: consumes_def)
  have "0 < str_len m" using m(1) by (simp add: str_len_pos)
  with m(2) show "position lx < position lx'" "position lx' \<le> str_len (lex_text lx)"
    by (auto simp: consumes_def)
qed

lemma lex_one_progress:
  assumes "position lx < str_len (lex_text lx)" "lex_one lx = Some lx'"
  shows "str_len (lex_text lx') - position lx' < str_len (lex_text lx) - position lx"
proof -
  obtain r where r: "remaining lx = Some r"
    using assms(2) by (cases "remaining lx") (auto simp: lex_one_def Let_def)
  have "r \<noteq> []" using remaining_lt [OF r] assms(1) by simp
  with lex_one_scans [OF r] assms(2) have "scans lx lx'" by auto
  from scans_progress [OF this] show ?thesis by simp
qed

function lex_loop :: "Lexer \<Rightarrow> Lexer option" where
  "lex_loop lx =
     (if position lx < str_len (lex_text lx) then
        (case lex_one lx of None \<Rightarrow> None | Some lx' \<Rightarrow> lex_loop lx')
      else Some lx)"
  by pat_completeness auto
termination
  by (relation "measure (\<lambda>lx. str_len (lex_text lx) - position lx)") (auto intro: lex_one_progress)

declare lex_loop.simps [simp del]

definition run :: "Lexer \<Rightarrow> LexOutput option" where
  "run lx = do {
     l1 \<leftarrow> lex_loop lx;
     Some (lex_output (push_token l1
       \<lparr>kind = Eof, token_span = span_empty (source_id l1) (str_len (lex_text l1))\<rparr>))
   }"

definition lex :: "SourceFile \<Rightarrow> LexOutput option" where
  "lex source = run (lexer_new source)"

interpretation lex_main: progress_loop lex_one lex_loop "\<lambda>lx. str_len (lex_text lx) - position lx"
  "\<lambda>lx. \<exists>r. remaining lx = Some r" scans
proof unfold_locales
  fix lx
  show "lex_loop lx = (if str_len (lex_text lx) - position lx = 0 then Some lx else Option.bind (lex_one lx) lex_loop)"
    by (subst lex_loop.simps) (auto split: option.splits)
next
  fix lx
  assume "\<exists>r. remaining lx = Some r" and left: "str_len (lex_text lx) - position lx \<noteq> 0"
  then obtain r where r: "remaining lx = Some r" by blast
  have "r \<noteq> []" using remaining_lt [OF r] left by simp
  from lex_one_scans [OF r this] obtain lx' where lx': "lex_one lx = Some lx'" "scans lx lx'" by blast
  moreover have "\<exists>r. remaining lx' = Some r"
    using scans_consumes [OF lx'(2)] by (auto simp: consumes_remaining)
  moreover have "str_len (lex_text lx') - position lx' < str_len (lex_text lx) - position lx"
    using left lx'(1) by (intro lex_one_progress) simp_all
  ultimately show "\<exists>lx'. lex_one lx = Some lx' \<and> scans lx lx' \<and> (\<exists>r. remaining lx' = Some r) \<and>
      str_len (lex_text lx') - position lx' < str_len (lex_text lx) - position lx" by blast
qed

subsection \<open>The output\<close>

definition token_range :: "Token \<Rightarrow> nat \<times> nat" where
  "token_range t = (span_start (token_span t), span_end (token_span t))"

text \<open>A token of the file whose text, cut out of the file, has the shape of its kind.\<close>

definition token_fits :: "SourceId \<Rightarrow> ustring \<Rightarrow> Token \<Rightarrow> bool" where
  "token_fits i txt t \<longleftrightarrow>
     span_source (token_span t) = i \<and>
     (case str_get txt (span_start (token_span t)) (span_end (token_span t)) of
        None \<Rightarrow> False | Some m \<Rightarrow> token_shape (kind t) m)"

definition output_ok :: "Lexer \<Rightarrow> bool" where
  "output_ok lx \<longleftrightarrow>
     tiles 0 (map token_range (tokens (lex_output lx))) (position lx) \<and>
     list_all (token_fits (source_id lx) (lex_text lx)) (tokens (lex_output lx)) \<and>
     list_all (diag_ok (source_id lx) (lex_text lx)) (diagnostics (lex_output lx)) \<and>
     (list_ex (\<lambda>t. kind t = Invalid) (tokens (lex_output lx)) \<longrightarrow> diagnostics (lex_output lx) \<noteq> [])"

lemma scans_output_ok:
  assumes "scans lx lx'" "output_ok lx"
  shows "output_ok lx'"
proof -
  obtain k m where em: "emits lx k m lx'" and sh: "token_shape k m" using assms(1) by (auto simp: scans_def)
  let ?t = "\<lparr>kind = k, token_span = \<lparr>span_source = source_id lx, span_start = position lx, span_end = position lx'\<rparr>\<rparr>"
  from em have toks: "tokens (lex_output lx') = tokens (lex_output lx) @ [?t]" by (simp add: emits_def)
  from em obtain ds where ds: "diagnostics (lex_output lx') = diagnostics (lex_output lx) @ ds"
    "list_all (diag_ok (source_id lx) (lex_text lx)) ds" "k = Invalid \<longrightarrow> ds \<noteq> []"
    by (auto simp: emits_def list_all_iff)
  note p = scans_progress [OF assms(1)]
  have "str_get (lex_text lx) (position lx) (position lx') = Some m"
    using em str_get_consumed [of lx m lx'] p(1) by (simp add: emits_def)
  then have "token_fits (source_id lx) (lex_text lx) ?t" using sh by (simp add: token_fits_def)
  moreover have "tiles 0 (map token_range (tokens (lex_output lx'))) (position lx')"
    using assms(2) p(3) by (auto simp: toks tiles_append token_range_def output_ok_def intro!: exI [of _ "position lx"])
  ultimately show ?thesis
    using assms(2) ds by (auto simp: output_ok_def toks p(1,2))
qed

lemma scans_star:
  assumes "scans\<^sup>*\<^sup>* lx lx'" "output_ok lx"
  shows "output_ok lx' \<and> lex_text lx' = lex_text lx \<and> source_id lx' = source_id lx"
  using assms by (induction rule: rtranclp_induct) (auto simp: scans_output_ok scans_progress)

lemma lex_result:
  "\<exists>ts ds. lex f = Some \<lparr>tokens = ts @ [\<lparr>kind = Eof, token_span = span_empty (file_id f) (str_len (file_text f))\<rparr>],
                        diagnostics = ds\<rparr> \<and>
     tiles 0 (map token_range ts) (str_len (file_text f)) \<and>
     list_all (token_fits (file_id f) (file_text f)) ts \<and> list_all (diag_ok (file_id f) (file_text f)) ds \<and>
     (list_ex (\<lambda>t. kind t = Invalid) ts \<longrightarrow> ds \<noteq> [])"
proof -
  let ?l0 = "lexer_new f"
  have good: "\<exists>r. remaining ?l0 = Some r"
    using str_from_append [of "[]" "file_text f"] by (simp add: remaining_def lexer_new_def)
  have ok0: "output_ok ?l0" by (simp add: output_ok_def lexer_new_def)
  from lex_main.loop_returns [OF good] obtain l1 r where
    l1: "lex_loop ?l0 = Some l1" "scans\<^sup>*\<^sup>* ?l0 l1" "remaining l1 = Some r" "str_len (lex_text l1) - position l1 = 0"
    by blast
  note ok1 = scans_star [OF l1(2) ok0]
  have "position l1 = str_len (lex_text l1)" using remaining_bound [OF l1(3)] l1(4) by simp
  moreover obtain ts ds where "lex_output l1 = \<lparr>tokens = ts, diagnostics = ds\<rparr>" by (cases "lex_output l1") auto
  ultimately show ?thesis
    using l1(1) ok1 by (auto simp: lex_def run_def output_ok_def push_token_def lexer_new_def)
qed

lemma token_fits_slice:
  assumes "token_fits (file_id f) (file_text f) t"
  shows "\<exists>m. slice f (token_span t) = Some m \<and> token_shape (kind t) m"
    and "token_span t = span_at f (fst (token_range t)) (snd (token_range t))"
proof -
  obtain m where m: "str_get (file_text f) (span_start (token_span t)) (span_end (token_span t)) = Some m"
    "token_shape (kind t) m" "span_source (token_span t) = file_id f"
    using assms by (auto simp: token_fits_def split: option.splits)
  then have "slice f (token_span t) = Some m"
    by (auto simp: slice_Some_iff dest!: str_get_Some)
  with m show "\<exists>m. slice f (token_span t) = Some m \<and> token_shape (kind t) m" by blast
  show "token_span t = span_at f (fst (token_range t)) (snd (token_range t))"
    using m(3) by (simp add: token_range_def)
qed

lemma lexed_slices:
  assumes tl: "tiles 0 (map token_range ts) (str_len (file_text f))"
    and fits: "list_all (token_fits (file_id f) (file_text f)) ts"
  shows "list_all (\<lambda>t. slice f (token_span t) \<noteq> None) ts"
    "concat (map (\<lambda>t. the (slice f (token_span t))) ts) = file_text f"
proof -
  have sl: "slice f (token_span t) = slice f (span_at f (fst (token_range t)) (snd (token_range t)))"
    "slice f (token_span t) \<noteq> None" if "t \<in> set ts" for t
  proof -
    have "token_fits (file_id f) (file_text f) t" using fits that by (simp add: list_all_iff)
    from token_fits_slice [OF this]
    show "slice f (token_span t) = slice f (span_at f (fst (token_range t)) (snd (token_range t)))"
      "slice f (token_span t) \<noteq> None" by auto
  qed
  have "concat (map (\<lambda>(b, c). the (slice f (span_at f b c))) (map token_range ts)) = file_text f"
    using tl sl by (intro file_slices.concat_slices_whole) (auto simp: split_beta)
  moreover have eq: "map (\<lambda>(b, c). the (slice f (span_at f b c))) (map token_range ts) =
      map (\<lambda>t. the (slice f (token_span t))) ts"
    using sl(1) by (simp add: split_beta)
  ultimately show "concat (map (\<lambda>t. the (slice f (token_span t))) ts) = file_text f" by (simp only: eq)
  show "list_all (\<lambda>t. slice f (token_span t) \<noteq> None) ts" using sl(2) by (simp add: list_all_iff)
qed

text \<open>
  C1. The lexer is total and lossless: on every file it returns, without ever slicing the text inside
  a character; the tokens before the final end-of-file token cover the text from 0 to its length in order,
  without gap or overlap, each of them can be sliced out of the file, and the slices put together
  are the text.
\<close>

theorem lex_lossless:
  "\<exists>ts ds. lex f = Some \<lparr>tokens = ts @ [\<lparr>kind = Eof, token_span = span_empty (file_id f) (str_len (file_text f))\<rparr>],
                        diagnostics = ds\<rparr> \<and>
     tiles 0 (map token_range ts) (str_len (file_text f)) \<and>
     list_all (\<lambda>t. slice f (token_span t) \<noteq> None) ts \<and>
     concat (map (\<lambda>t. the (slice f (token_span t))) ts) = file_text f"
  using lex_result [of f] lexed_slices [of _ f] by blast

text \<open>
  Every token but the last has the spelling its kind promises: whitespace is whitespace or the byte
  order mark, a keyword token is that keyword's spelling, an identifier is not a keyword, a symbol is
  its spelling, literals and comments start as they must, and only a single character that starts
  no token is \<open>Invalid\<close>; the end-of-file kind occurs only at the end.
\<close>

theorem lex_token_kinds:
  "\<exists>out. lex f = Some out \<and> tokens out \<noteq> [] \<and> kind (last (tokens out)) = Eof \<and>
     list_all (\<lambda>t. case slice f (token_span t) of None \<Rightarrow> False | Some m \<Rightarrow> token_shape (kind t) m)
       (butlast (tokens out))"
proof -
  obtain ts ds where out: "lex f = Some \<lparr>tokens = ts @ [\<lparr>kind = Eof, token_span = span_empty (file_id f) (str_len (file_text f))\<rparr>],
                        diagnostics = ds\<rparr>"
    and fits: "list_all (token_fits (file_id f) (file_text f)) ts"
    using lex_result [of f] by blast
  have "(case slice f (token_span t) of None \<Rightarrow> False | Some m \<Rightarrow> token_shape (kind t) m)" if "t \<in> set ts" for t
    using fits that token_fits_slice(1) [of f t] by (auto simp: list_all_iff)
  with out show ?thesis by (auto simp: list_all_iff)
qed

text \<open>
  Errors of the lexer: every diagnostic is an error about a range of this file between two character
  boundaries, and an \<open>Invalid\<close> token is never silent: the output then has errors.
\<close>

theorem lex_diagnostics:
  assumes "lex f = Some out"
  shows "list_all (diag_ok (file_id f) (file_text f)) (diagnostics out) \<and>
    (list_ex (\<lambda>t. kind t = Invalid) (tokens out) \<longrightarrow> has_errors out)"
proof -
  obtain ts ds where out: "lex f = Some \<lparr>tokens = ts @ [\<lparr>kind = Eof, token_span = span_empty (file_id f) (str_len (file_text f))\<rparr>],
                        diagnostics = ds\<rparr>"
    and ds: "list_all (diag_ok (file_id f) (file_text f)) ds" "list_ex (\<lambda>t. kind t = Invalid) ts \<longrightarrow> ds \<noteq> []"
    using lex_result [of f] by blast
  show ?thesis
    using out ds assms by (cases ds) (auto simp: has_errors_def diag_ok_def)
qed

text \<open>
  A file that is one word, that is a letter or underscore followed by letters, digits and underscores,
  lexes to exactly one token over all of it, a keyword if it is the spelling of one and an
  identifier otherwise, and the end of the file, with no diagnostics.
\<close>

theorem lex_word:
  assumes "file_text f = c # t" "is_ascii_alphabetic c \<or> c = ch_underscore" "list_all is_identifier_char t"
  shows "lex f = Some
    \<lparr>tokens =
       [\<lparr>kind = (case from_identifier (file_text f) of None \<Rightarrow> Identifier | Some k \<Rightarrow> Keyword k),
         token_span = span_at f 0 (str_len (file_text f))\<rparr>,
        \<lparr>kind = Eof, token_span = span_empty (file_id f) (str_len (file_text f))\<rparr>],
     diagnostics = []\<rparr>"
proof -
  let ?l0 = "lexer_new f" and ?m = "file_text f"
  let ?k = "case from_identifier ?m of None \<Rightarrow> Identifier | Some k \<Rightarrow> Keyword k"
  have rem: "remaining ?l0 = Some (c # t)"
    using str_from_append [of "[]" "c # t"] assms(1) by (simp add: remaining_def lexer_new_def)
  have tw: "takeWhile is_identifier_char t = t" using assms(3) by (simp add: takeWhile_eq_all_conv list_all_iff)
  let ?l1 = "push (moved ?l0 ?m) ?k (position ?l0)"
  have one: "lex_one ?l0 = Some ?l1"
    using lex_one_identifier [OF rem assms(2)] by (simp add: tw assms(1))
  have pos: "position ?l1 = str_len ?m" "lex_text ?l1 = ?m" by (simp_all add: push_def lexer_new_def)
  have lt: "position ?l0 < str_len (lex_text ?l0)"
    using assms(1) by (simp add: lexer_new_def str_len_pos)
  have "lex_loop ?l0 = Some ?l1"
    using one pos lt lex_loop.simps [of ?l0] lex_loop.simps [of ?l1] by simp
  then show ?thesis
    by (simp add: lex_def run_def push_def push_token_def moved_def lexer_new_def lexer_span_eq)
qed


text \<open>A file for the examples; the lexer reads only its identifier and its text.\<close>

definition sample_file :: "ustring \<Rightarrow> SourceFile" where
  "sample_file t = \<lparr>file_id = SourceId 7, file_path = lit ''a.jdn'', file_text = t, line_starts = [0], stable_hash = 0\<rparr>"

lemma lex_diagnostics_witness:
  "\<exists>out. lex (sample_file (lit ''a # b'')) = Some out \<and> has_errors out"
proof -
  let ?f = "sample_file (lit ''a # b'')"
  have "case lex ?f of None \<Rightarrow> False | Some out \<Rightarrow> list_ex (\<lambda>t. kind t = Invalid) (tokens out)"
    by code_simp
  then obtain out where out: "lex ?f = Some out" "list_ex (\<lambda>t. kind t = Invalid) (tokens out)"
    by (auto split: option.splits)
  from lex_diagnostics [OF out(1)] out show ?thesis by blast
qed

lemma lex_word_witness:
  "lex (sample_file (lit ''while'')) = Some
    \<lparr>tokens = [\<lparr>kind = Keyword KwWhile, token_span = span_at (sample_file []) 0 5\<rparr>,
               \<lparr>kind = Eof, token_span = span_empty (SourceId 7) 5\<rparr>], diagnostics = []\<rparr>"
  using lex_word [of "sample_file (lit ''while'')" 119 "lit ''hile''"] from_identifier_as_str [of KwWhile]
  by (simp add: sample_file_def is_ascii_alphabetic_def is_identifier_char_def is_ascii_alphanumeric_def
      eval_nat_numeral)

end
