(* ===== verification/Syntax_Tree.thy ===== *)
theory Syntax_Tree
  imports Lexing "HOL-Library.Product_Lexorder" "HOL-Library.Multiset"
begin

text \<open>
  The crate \<open>jadren-syntax\<close>: the builder of the lossless syntax tree, which nests the node
  descriptions of the parser by their spans and distributes the tokens of the lexer below them.
  The tree has the tokens it was given as leaves, in order, and every node description occurs in
  it exactly once, in the order of the sorted descriptions, below a node that contains it.
\<close>

subsection \<open>Data\<close>

datatype SyntaxKind =
    Root | ModuleDeclaration | ImportDeclaration | Annotation | FunctionDeclaration
  | ExternBlock | ExternFunctionDeclaration | StructDeclaration | ComponentDeclaration
  | EnumDeclaration | GenericParameterList | GenericParameter | ParameterList | Parameter
  | PathType | ArrayType | CapabilityType | FunctionType | FieldDeclaration | EnumVariant
  | EnumVariantField | Block | BindingStatement | ReturnStatement | RegionStatement
  | WhileStatement | ForStatement | BreakStatement | ContinueStatement | NameExpression
  | LiteralExpression | UnaryExpression | BinaryExpression | CallExpression | FieldExpression
  | IndexExpression | TryExpression | CastExpression | ArrayExpression | StructExpression
  | StructFieldInitializer | GroupExpression | BlockExpression | IfExpression | MatchExpression
  | MatchArm | WildcardPattern | PathPattern | ConstructorPattern | LiteralPattern
  | SyntaxError

text \<open>\<open>kind as u8\<close>: the position of the constructor.\<close>

primrec syntax_kind_order :: "SyntaxKind \<Rightarrow> nat" where
  "syntax_kind_order Root = 0"
| "syntax_kind_order ModuleDeclaration = 1"
| "syntax_kind_order ImportDeclaration = 2"
| "syntax_kind_order Annotation = 3"
| "syntax_kind_order FunctionDeclaration = 4"
| "syntax_kind_order ExternBlock = 5"
| "syntax_kind_order ExternFunctionDeclaration = 6"
| "syntax_kind_order StructDeclaration = 7"
| "syntax_kind_order ComponentDeclaration = 8"
| "syntax_kind_order EnumDeclaration = 9"
| "syntax_kind_order GenericParameterList = 10"
| "syntax_kind_order GenericParameter = 11"
| "syntax_kind_order ParameterList = 12"
| "syntax_kind_order Parameter = 13"
| "syntax_kind_order PathType = 14"
| "syntax_kind_order ArrayType = 15"
| "syntax_kind_order CapabilityType = 16"
| "syntax_kind_order FunctionType = 17"
| "syntax_kind_order FieldDeclaration = 18"
| "syntax_kind_order EnumVariant = 19"
| "syntax_kind_order EnumVariantField = 20"
| "syntax_kind_order Block = 21"
| "syntax_kind_order BindingStatement = 22"
| "syntax_kind_order ReturnStatement = 23"
| "syntax_kind_order RegionStatement = 24"
| "syntax_kind_order WhileStatement = 25"
| "syntax_kind_order ForStatement = 26"
| "syntax_kind_order BreakStatement = 27"
| "syntax_kind_order ContinueStatement = 28"
| "syntax_kind_order NameExpression = 29"
| "syntax_kind_order LiteralExpression = 30"
| "syntax_kind_order UnaryExpression = 31"
| "syntax_kind_order BinaryExpression = 32"
| "syntax_kind_order CallExpression = 33"
| "syntax_kind_order FieldExpression = 34"
| "syntax_kind_order IndexExpression = 35"
| "syntax_kind_order TryExpression = 36"
| "syntax_kind_order CastExpression = 37"
| "syntax_kind_order ArrayExpression = 38"
| "syntax_kind_order StructExpression = 39"
| "syntax_kind_order StructFieldInitializer = 40"
| "syntax_kind_order GroupExpression = 41"
| "syntax_kind_order BlockExpression = 42"
| "syntax_kind_order IfExpression = 43"
| "syntax_kind_order MatchExpression = 44"
| "syntax_kind_order MatchArm = 45"
| "syntax_kind_order WildcardPattern = 46"
| "syntax_kind_order PathPattern = 47"
| "syntax_kind_order ConstructorPattern = 48"
| "syntax_kind_order LiteralPattern = 49"
| "syntax_kind_order SyntaxError = 50"

text \<open>The derived \<open>Debug\<close> of the kind: the constructor's name.\<close>

primrec syntax_kind_debug :: "SyntaxKind \<Rightarrow> ustring" where
  "syntax_kind_debug Root = lit ''Root''"
| "syntax_kind_debug ModuleDeclaration = lit ''ModuleDeclaration''"
| "syntax_kind_debug ImportDeclaration = lit ''ImportDeclaration''"
| "syntax_kind_debug Annotation = lit ''Annotation''"
| "syntax_kind_debug FunctionDeclaration = lit ''FunctionDeclaration''"
| "syntax_kind_debug ExternBlock = lit ''ExternBlock''"
| "syntax_kind_debug ExternFunctionDeclaration = lit ''ExternFunctionDeclaration''"
| "syntax_kind_debug StructDeclaration = lit ''StructDeclaration''"
| "syntax_kind_debug ComponentDeclaration = lit ''ComponentDeclaration''"
| "syntax_kind_debug EnumDeclaration = lit ''EnumDeclaration''"
| "syntax_kind_debug GenericParameterList = lit ''GenericParameterList''"
| "syntax_kind_debug GenericParameter = lit ''GenericParameter''"
| "syntax_kind_debug ParameterList = lit ''ParameterList''"
| "syntax_kind_debug Parameter = lit ''Parameter''"
| "syntax_kind_debug PathType = lit ''PathType''"
| "syntax_kind_debug ArrayType = lit ''ArrayType''"
| "syntax_kind_debug CapabilityType = lit ''CapabilityType''"
| "syntax_kind_debug FunctionType = lit ''FunctionType''"
| "syntax_kind_debug FieldDeclaration = lit ''FieldDeclaration''"
| "syntax_kind_debug EnumVariant = lit ''EnumVariant''"
| "syntax_kind_debug EnumVariantField = lit ''EnumVariantField''"
| "syntax_kind_debug Block = lit ''Block''"
| "syntax_kind_debug BindingStatement = lit ''BindingStatement''"
| "syntax_kind_debug ReturnStatement = lit ''ReturnStatement''"
| "syntax_kind_debug RegionStatement = lit ''RegionStatement''"
| "syntax_kind_debug WhileStatement = lit ''WhileStatement''"
| "syntax_kind_debug ForStatement = lit ''ForStatement''"
| "syntax_kind_debug BreakStatement = lit ''BreakStatement''"
| "syntax_kind_debug ContinueStatement = lit ''ContinueStatement''"
| "syntax_kind_debug NameExpression = lit ''NameExpression''"
| "syntax_kind_debug LiteralExpression = lit ''LiteralExpression''"
| "syntax_kind_debug UnaryExpression = lit ''UnaryExpression''"
| "syntax_kind_debug BinaryExpression = lit ''BinaryExpression''"
| "syntax_kind_debug CallExpression = lit ''CallExpression''"
| "syntax_kind_debug FieldExpression = lit ''FieldExpression''"
| "syntax_kind_debug IndexExpression = lit ''IndexExpression''"
| "syntax_kind_debug TryExpression = lit ''TryExpression''"
| "syntax_kind_debug CastExpression = lit ''CastExpression''"
| "syntax_kind_debug ArrayExpression = lit ''ArrayExpression''"
| "syntax_kind_debug StructExpression = lit ''StructExpression''"
| "syntax_kind_debug StructFieldInitializer = lit ''StructFieldInitializer''"
| "syntax_kind_debug GroupExpression = lit ''GroupExpression''"
| "syntax_kind_debug BlockExpression = lit ''BlockExpression''"
| "syntax_kind_debug IfExpression = lit ''IfExpression''"
| "syntax_kind_debug MatchExpression = lit ''MatchExpression''"
| "syntax_kind_debug MatchArm = lit ''MatchArm''"
| "syntax_kind_debug WildcardPattern = lit ''WildcardPattern''"
| "syntax_kind_debug PathPattern = lit ''PathPattern''"
| "syntax_kind_debug ConstructorPattern = lit ''ConstructorPattern''"
| "syntax_kind_debug LiteralPattern = lit ''LiteralPattern''"
| "syntax_kind_debug SyntaxError = lit ''Error''"

record NodeSpec =
  spec_kind :: SyntaxKind
  spec_span :: Span

datatype SyntaxElement = NodeElement SyntaxNode | TokenElement Token
and SyntaxNode = SyntaxNode (node_kind: SyntaxKind) (node_span: Span) (node_children: "SyntaxElement list")

datatype SyntaxBuildError =
    InvalidRootSpan
  | TokenOutsideRoot Span
  | OverlappingTokens (err_previous: Span) (err_current: Span)
  | NodeOutsideRoot Span
  | DuplicateNodeSpan Span
  | CrossingNodes (err_left: Span) (err_right: Span)
  | TokenCrossesNode (err_token: Span) (err_node: Span)

subsection \<open>Reading a tree\<close>

definition child_nodes :: "SyntaxNode \<Rightarrow> SyntaxNode list" where
  "child_nodes n = concat (map (\<lambda>c. case c of NodeElement m \<Rightarrow> [m] | TokenElement _ \<Rightarrow> []) (node_children n))"

definition child_tokens :: "SyntaxNode \<Rightarrow> Token list" where
  "child_tokens n = concat (map (\<lambda>c. case c of NodeElement _ \<Rightarrow> [] | TokenElement t \<Rightarrow> [t]) (node_children n))"

fun token_count :: "SyntaxNode \<Rightarrow> nat"
and token_count_all :: "SyntaxElement list \<Rightarrow> nat" where
  "token_count (SyntaxNode k sp cs) = token_count_all cs"
| "token_count_all [] = 0"
| "token_count_all (NodeElement n # cs) = token_count n + token_count_all cs"
| "token_count_all (TokenElement t # cs) = 1 + token_count_all cs"

fun reconstruct_into :: "SyntaxNode \<Rightarrow> SourceFile \<Rightarrow> ustring \<Rightarrow> ustring"
and reconstruct_all :: "SyntaxElement list \<Rightarrow> SourceFile \<Rightarrow> ustring \<Rightarrow> ustring" where
  "reconstruct_into (SyntaxNode k sp cs) f out = reconstruct_all cs f out"
| "reconstruct_all [] f out = out"
| "reconstruct_all (NodeElement n # cs) f out = reconstruct_all cs f (reconstruct_into n f out)"
| "reconstruct_all (TokenElement t # cs) f out =
     reconstruct_all cs f (case slice f (token_span t) of Some s \<Rightarrow> out @ s | None \<Rightarrow> out)"

text \<open>One line of the dump: indentation, kind and range.\<close>

definition pretty_line :: "nat \<Rightarrow> SyntaxKind \<Rightarrow> Span \<Rightarrow> ustring" where
  "pretty_line depth k sp =
     concat (replicate depth (lit ''  '')) @ syntax_kind_debug k @ lit '' '' @
     nat_to_string (span_start sp) @ lit ''..'' @ nat_to_string (span_end sp) @ [ch_newline]"

fun pretty_nodes_into :: "SyntaxNode \<Rightarrow> nat \<Rightarrow> ustring \<Rightarrow> ustring"
and pretty_nodes_all :: "SyntaxElement list \<Rightarrow> nat \<Rightarrow> ustring \<Rightarrow> ustring" where
  "pretty_nodes_into (SyntaxNode k sp cs) depth out =
     pretty_nodes_all cs (depth + 1) (out @ pretty_line depth k sp)"
| "pretty_nodes_all [] depth out = out"
| "pretty_nodes_all (NodeElement n # cs) depth out = pretty_nodes_all cs depth (pretty_nodes_into n depth out)"
| "pretty_nodes_all (TokenElement t # cs) depth out = pretty_nodes_all cs depth out"

subsection \<open>Building a tree\<close>

fun validate_tokens_from :: "Span \<Rightarrow> Span option \<Rightarrow> Token list \<Rightarrow> (SyntaxBuildError, unit) result" where
  "validate_tokens_from root previous [] = Ok ()"
| "validate_tokens_from root previous (t # ts) =
     (let sp = token_span t in
      if span_source sp \<noteq> span_source root \<or> span_start sp < span_start root \<or> span_end sp > span_end root
      then Err (TokenOutsideRoot sp)
      else case previous of
        Some p \<Rightarrow> if span_end p > span_start sp then Err (OverlappingTokens p sp)
                  else validate_tokens_from root (Some sp) ts
      | None \<Rightarrow> validate_tokens_from root (Some sp) ts)"

definition validate_tokens :: "Span \<Rightarrow> Token list \<Rightarrow> (SyntaxBuildError, unit) result" where
  "validate_tokens root ts = validate_tokens_from root None ts"

fun validate_nodes :: "Span \<Rightarrow> NodeSpec list \<Rightarrow> (SyntaxBuildError, unit) result" where
  "validate_nodes root [] = Ok ()"
| "validate_nodes root (n # ns) =
     (let sp = spec_span n in
      if span_source sp \<noteq> span_source root \<or> span_is_empty sp \<or>
         span_start sp < span_start root \<or> span_end sp > span_end root
      then Err (NodeOutsideRoot sp)
      else if (case ns of [] \<Rightarrow> False | m # _ \<Rightarrow> spec_span m = sp) then Err (DuplicateNodeSpan sp)
      else validate_nodes root ns)"

definition strictly_contains :: "Span \<Rightarrow> Span \<Rightarrow> bool" where
  "strictly_contains parent child \<longleftrightarrow>
     span_source parent = span_source child \<and> span_start parent \<le> span_start child \<and>
     span_end child \<le> span_end parent \<and>
     (span_start parent < span_start child \<or> span_end child < span_end parent)"

definition spans_overlap :: "Span \<Rightarrow> Span \<Rightarrow> bool" where
  "spans_overlap left right \<longleftrightarrow>
     span_source left = span_source right \<and> span_start left < span_end right \<and>
     span_start right < span_end left"

text \<open>The order of the nodes: by start, the wider first, then by kind. \<open>sort_by\<close> is stable, as \<open>sort_key\<close> is.\<close>

definition node_key :: "NodeSpec \<Rightarrow> nat \<times> int \<times> nat" where
  "node_key n = (span_start (spec_span n), - int (span_end (spec_span n)), syntax_kind_order (spec_kind n))"

definition sort_nodes :: "NodeSpec list \<Rightarrow> NodeSpec list" where
  "sort_nodes ns = sort_key node_key ns"

text \<open>
  The stack of \<open>build\<close> holds indices of the nodes that enclose the next one, the innermost first;
  the \<open>while\<close> loop pops those that do not contain it.
\<close>

fun pop_stack :: "NodeSpec list \<Rightarrow> nat \<Rightarrow> nat list \<Rightarrow> (SyntaxBuildError, nat list) result" where
  "pop_stack nodes index [] = Ok []"
| "pop_stack nodes index (parent # stack) =
     (if strictly_contains (spec_span (nodes ! parent)) (spec_span (nodes ! index)) then Ok (parent # stack)
      else if spans_overlap (spec_span (nodes ! parent)) (spec_span (nodes ! index))
      then Err (CrossingNodes (spec_span (nodes ! parent)) (spec_span (nodes ! index)))
      else pop_stack nodes index stack)"

record BuildState =
  direct_children :: "nat list list"
  root_children :: "nat list"
  node_stack :: "nat list"

definition build_state_new :: "nat \<Rightarrow> BuildState" where
  "build_state_new n = \<lparr>direct_children = replicate n [], root_children = [], node_stack = []\<rparr>"

definition place_node :: "NodeSpec list \<Rightarrow> BuildState \<Rightarrow> nat \<Rightarrow> (SyntaxBuildError, BuildState) result" where
  "place_node nodes s index =
     result_bind (pop_stack nodes index (node_stack s)) (\<lambda>stack.
       Ok (case stack of
         parent # _ \<Rightarrow>
           s\<lparr>direct_children := (direct_children s)[parent := direct_children s ! parent @ [index]],
             node_stack := index # stack\<rparr>
       | [] \<Rightarrow> s\<lparr>root_children := root_children s @ [index], node_stack := [index]\<rparr>))"

fun place_nodes :: "NodeSpec list \<Rightarrow> BuildState \<Rightarrow> nat list \<Rightarrow> (SyntaxBuildError, BuildState) result" where
  "place_nodes nodes s [] = Ok s"
| "place_nodes nodes s (index # rest) =
     result_bind (place_node nodes s index) (\<lambda>s'. place_nodes nodes s' rest)"

text \<open>The tokens a child takes: those that start before its end; one that ends after it is an error.\<close>

fun child_token_range :: "Span \<Rightarrow> Token list \<Rightarrow> (SyntaxBuildError, Token list \<times> Token list) result" where
  "child_token_range sp [] = Ok ([], [])"
| "child_token_range sp (t # ts) =
     (if span_start (token_span t) < span_end sp then
        (if span_end (token_span t) > span_end sp then Err (TokenCrossesNode (token_span t) sp)
         else result_bind (child_token_range sp ts) (\<lambda>(mine, rest). Ok (t # mine, rest)))
      else Ok ([], t # ts))"

text \<open>
  \<open>build_node\<close>: the loop over the children, with the tokens not yet placed. The recursion goes
  down the child lists; \<open>fuel\<close> bounds its depth and \<open>None\<close> is running out of it.
\<close>

fun build_children :: "nat \<Rightarrow> NodeSpec list \<Rightarrow> nat list list \<Rightarrow> nat list \<Rightarrow> Token list \<Rightarrow>
    (SyntaxBuildError, SyntaxElement list) result option" where
  "build_children fuel nodes dc [] toks = Some (Ok (map TokenElement toks))"
| "build_children 0 nodes dc (i # is) toks = None"
| "build_children (Suc fuel) nodes dc (i # is) toks =
     (let child_spec = nodes ! i; sp = spec_span child_spec;
          before = takeWhile (\<lambda>t. span_end (token_span t) \<le> span_start sp) toks;
          from_child = dropWhile (\<lambda>t. span_end (token_span t) \<le> span_start sp) toks
      in case child_token_range sp from_child of
           Inl e \<Rightarrow> Some (Err e)
         | Inr (mine, rest) \<Rightarrow>
             (case build_children fuel nodes dc (dc ! i) mine of
                None \<Rightarrow> None
              | Some (Inl e) \<Rightarrow> Some (Err e)
              | Some (Inr cs) \<Rightarrow>
                  (case build_children (Suc fuel) nodes dc is rest of
                     None \<Rightarrow> None
                   | Some (Inl e) \<Rightarrow> Some (Err e)
                   | Some (Inr es) \<Rightarrow>
                       Some (Ok (map TokenElement before @
                                 NodeElement (SyntaxNode (spec_kind child_spec) sp cs) # es)))))"

definition build_node :: "nat \<Rightarrow> SyntaxKind \<Rightarrow> Span \<Rightarrow> nat list \<Rightarrow> NodeSpec list \<Rightarrow> nat list list \<Rightarrow>
    Token list \<Rightarrow> (SyntaxBuildError, SyntaxNode) result option" where
  "build_node fuel k sp child_indices nodes dc toks =
     map_option (\<lambda>r. result_bind r (\<lambda>cs. Ok (SyntaxNode k sp cs))) (build_children fuel nodes dc child_indices toks)"

definition build :: "SourceId \<Rightarrow> nat \<Rightarrow> Token list \<Rightarrow> NodeSpec list \<Rightarrow>
    (SyntaxBuildError, SyntaxNode) result option" where
  "build src source_len toks ns =
     (case ok_or (span_new src 0 source_len) InvalidRootSpan of
        Inl e \<Rightarrow> Some (Err e)
      | Inr root_span \<Rightarrow>
          (case validate_tokens root_span toks of
             Inl e \<Rightarrow> Some (Err e)
           | Inr _ \<Rightarrow>
               (let nodes = sort_nodes ns in
                case validate_nodes root_span nodes of
                  Inl e \<Rightarrow> Some (Err e)
                | Inr _ \<Rightarrow>
                    (case place_nodes nodes (build_state_new (length nodes)) [0..<length nodes] of
                       Inl e \<Rightarrow> Some (Err e)
                     | Inr s \<Rightarrow>
                         build_node (length nodes) Root root_span (root_children s) nodes
                           (direct_children s) toks))))"

definition flat :: "SourceId \<Rightarrow> nat \<Rightarrow> Token list \<Rightarrow> SyntaxNode" where
  "flat src source_len toks =
     SyntaxNode Root
       (case span_new src 0 source_len of Some sp \<Rightarrow> sp | None \<Rightarrow> span_empty src 0)
       (map TokenElement toks)"

definition reconstruct :: "SyntaxNode \<Rightarrow> SourceFile \<Rightarrow> ustring" where
  "reconstruct root f = reconstruct_into root f []"

definition pretty_nodes :: "SyntaxNode \<Rightarrow> ustring" where
  "pretty_nodes root = pretty_nodes_into root 0 []"

subsection \<open>Leaves and nodes of a tree\<close>

fun leaves :: "SyntaxNode \<Rightarrow> Token list"
and leaves_all :: "SyntaxElement list \<Rightarrow> Token list" where
  "leaves (SyntaxNode k sp cs) = leaves_all cs"
| "leaves_all [] = []"
| "leaves_all (NodeElement n # cs) = leaves n @ leaves_all cs"
| "leaves_all (TokenElement t # cs) = t # leaves_all cs"

text \<open>The node descriptions of a tree, parents before children and left to right.\<close>

fun specs :: "SyntaxNode \<Rightarrow> NodeSpec list"
and specs_all :: "SyntaxElement list \<Rightarrow> NodeSpec list" where
  "specs (SyntaxNode k sp cs) = \<lparr>spec_kind = k, spec_span = sp\<rparr> # specs_all cs"
| "specs_all [] = []"
| "specs_all (NodeElement n # cs) = specs n @ specs_all cs"
| "specs_all (TokenElement t # cs) = specs_all cs"

definition contains_span :: "Span \<Rightarrow> Span \<Rightarrow> bool" where
  "contains_span p c \<longleftrightarrow>
     span_source p = span_source c \<and> span_start p \<le> span_start c \<and> span_end c \<le> span_end p"

text \<open>Every node lies within its parent.\<close>

fun nested :: "SyntaxNode \<Rightarrow> bool"
and nested_all :: "Span \<Rightarrow> SyntaxElement list \<Rightarrow> bool" where
  "nested (SyntaxNode k sp cs) \<longleftrightarrow> nested_all sp cs"
| "nested_all sp [] \<longleftrightarrow> True"
| "nested_all sp (NodeElement n # cs) \<longleftrightarrow> contains_span sp (node_span n) \<and> nested n \<and> nested_all sp cs"
| "nested_all sp (TokenElement t # cs) \<longleftrightarrow> nested_all sp cs"

lemma token_count_leaves:
  "token_count n = length (leaves n)" "token_count_all es = length (leaves_all es)"
  by (induction n and es rule: token_count_token_count_all.induct) simp_all

definition slice_or_empty :: "SourceFile \<Rightarrow> Token \<Rightarrow> ustring" where
  "slice_or_empty f t = (case slice f (token_span t) of Some s \<Rightarrow> s | None \<Rightarrow> [])"

lemma reconstruct_leaves:
  "reconstruct_into n f out = out @ concat (map (slice_or_empty f) (leaves n))"
  "reconstruct_all es f out = out @ concat (map (slice_or_empty f) (leaves_all es))"
  by (induction n f out and es f out rule: reconstruct_into_reconstruct_all.induct)
    (auto simp: slice_or_empty_def split: option.splits)

lemma leaves_tokens [simp]:
  "leaves_all (map TokenElement ts) = ts" "specs_all (map TokenElement ts) = []"
  "nested_all sp (map TokenElement ts)"
  by (induction ts) simp_all

lemma leaves_all_append [simp]:
  "leaves_all (xs @ ys) = leaves_all xs @ leaves_all ys"
  "specs_all (xs @ ys) = specs_all xs @ specs_all ys"
  "nested_all sp (xs @ ys) \<longleftrightarrow> nested_all sp xs \<and> nested_all sp ys"
  by (induction xs rule: leaves_leaves_all.induct(2)) auto

subsection \<open>The child lists as a forest\<close>

text \<open>\<open>preorder dc is xs\<close>: following the child lists \<open>dc\<close> from the roots \<open>is\<close> visits \<open>xs\<close> in this order.\<close>

inductive preorder :: "nat list list \<Rightarrow> nat list \<Rightarrow> nat list \<Rightarrow> bool" for dc where
  preorder_Nil: "preorder dc [] []"
| preorder_Cons: "preorder dc (dc ! i) xs \<Longrightarrow> preorder dc is ys \<Longrightarrow> preorder dc (i # is) (i # xs @ ys)"

inductive_cases preorder_ConsE: "preorder dc (i # is) zs"
inductive_simps preorder_Nil_iff [simp]: "preorder dc [] zs"

lemma preorder_append:
  "preorder dc (is @ js) zs \<longleftrightarrow> (\<exists>xs ys. zs = xs @ ys \<and> preorder dc is xs \<and> preorder dc js ys)"
proof (induction "is" arbitrary: zs)
  case Nil
  then show ?case by simp
next
  case (Cons i "is")
  show ?case
  proof
    assume "preorder dc ((i # is) @ js) zs"
    then obtain xs ys where z: "zs = i # xs @ ys" "preorder dc (dc ! i) xs" "preorder dc (is @ js) ys"
      by (auto elim: preorder_ConsE)
    with Cons obtain ys1 ys2 where "ys = ys1 @ ys2" "preorder dc is ys1" "preorder dc js ys2" by blast
    with z show "\<exists>xs ys. zs = xs @ ys \<and> preorder dc (i # is) xs \<and> preorder dc js ys"
      by (intro exI [of _ "i # xs @ ys1"] exI [of _ ys2]) (auto intro: preorder_Cons)
  next
    assume "\<exists>xs ys. zs = xs @ ys \<and> preorder dc (i # is) xs \<and> preorder dc js ys"
    then show "preorder dc ((i # is) @ js) zs"
      using Cons by (fastforce elim!: preorder_ConsE intro: preorder_Cons)
  qed
qed

lemma preorder_single: "preorder dc [i] zs \<longleftrightarrow> (\<exists>xs. zs = i # xs \<and> preorder dc (dc ! i) xs)"
proof
  assume "preorder dc [i] zs"
  then show "\<exists>xs. zs = i # xs \<and> preorder dc (dc ! i) xs" by (auto elim: preorder_ConsE)
next
  assume "\<exists>xs. zs = i # xs \<and> preorder dc (dc ! i) xs"
  then obtain xs where "zs = i # xs" "preorder dc (dc ! i) xs" by blast
  from preorder_Cons [OF this(2) preorder_Nil] this(1) show "preorder dc [i] zs" by simp
qed

lemma preorder_frame: "preorder dc is xs \<Longrightarrow> p \<notin> set xs \<Longrightarrow> preorder (dc[p := v]) is xs"
  by (induction rule: preorder.induct) (auto intro: preorder.intros)

text \<open>\<open>rpath dc is ss\<close>: \<open>ss\<close> goes down from the roots \<open>is\<close> along last children.\<close>

fun rpath :: "nat list list \<Rightarrow> nat list \<Rightarrow> nat list \<Rightarrow> bool" where
  "rpath dc is [] \<longleftrightarrow> True"
| "rpath dc is (s # ss) \<longleftrightarrow> is \<noteq> [] \<and> last is = s \<and> rpath dc (dc ! s) ss"

lemma rpath_prefix: "rpath dc is (ss @ ts) \<Longrightarrow> rpath dc is ss"
  by (induction dc "is" ss rule: rpath.induct) auto

lemma preorder_last:
  assumes "preorder dc is xs" "is \<noteq> []"
  obtains ys zs where "xs = ys @ last is # zs" "preorder dc (butlast is) ys" "preorder dc (dc ! last is) zs"
proof -
  have "preorder dc (butlast is @ [last is]) xs" using assms by simp
  then show ?thesis using that unfolding preorder_append preorder_single by blast
qed

lemma rpath_subset: "rpath dc is ss \<Longrightarrow> preorder dc is xs \<Longrightarrow> set ss \<subseteq> set xs"
proof (induction dc "is" ss arbitrary: xs rule: rpath.induct)
  case (2 dc "is" s ss)
  then have s: "is \<noteq> []" "last is = s" "rpath dc (dc ! s) ss" by auto
  from preorder_last [OF "2.prems"(2) s(1)] obtain ys zs
    where "xs = ys @ s # zs" "preorder dc (dc ! s) zs" using s(2) by metis
  with "2.IH" [OF s(3)] show ?case by auto
qed simp

lemma preorder_insert:
  assumes "rpath dc is ss" "preorder dc is xs" "distinct xs" "ss \<noteq> []" "last ss = p"
    and "p < length dc" "dc ! k = []" "k \<noteq> p"
  defines "dc' \<equiv> dc[p := dc ! p @ [k]]"
  shows "preorder dc' is (xs @ [k]) \<and> rpath dc' is (ss @ [k])"
  using assms(1-5)
proof (induction ss arbitrary: "is" xs)
  case (Cons s ss)
  then have s: "is \<noteq> []" "last is = s" "rpath dc (dc ! s) ss" by auto
  obtain ys zs where xs: "xs = ys @ s # zs" and ys: "preorder dc (butlast is) ys"
    and zs: "preorder dc (dc ! s) zs"
    using preorder_last [OF Cons.prems(2) s(1)] s(2) by metis
  have dist: "distinct zs" "s \<notin> set ys" "s \<notin> set zs" "set ys \<inter> set zs = {}" using Cons.prems(3) xs by auto
  have k': "dc' ! k = []" using assms(7,8) by (simp add: dc'_def)
  have goal: "preorder dc' is (xs @ [k]) \<and> rpath dc' is ((s # ss) @ [k])"
    if "p \<notin> set ys" "preorder dc' (dc' ! s) (zs @ [k])" "rpath dc' (dc' ! s) (ss @ [k])"
  proof -
    have "preorder dc' (butlast is) ys" using preorder_frame [OF ys that(1)] by (simp add: dc'_def)
    moreover have "preorder dc' [s] (s # zs @ [k])" using that(2) by (simp add: preorder_single)
    ultimately have "preorder dc' (butlast is @ [s]) (ys @ s # zs @ [k])"
      unfolding preorder_append by blast
    moreover have "butlast is @ [s] = is" using s by auto
    ultimately show ?thesis using that(3) s xs by simp
  qed
  show ?case
  proof (cases ss)
    case Nil
    then have p: "p = s" using Cons.prems(5) by simp
    have "preorder dc' (dc ! s) zs" using preorder_frame [OF zs] dist(3) by (simp add: dc'_def p)
    moreover have "preorder dc' [k] [k]" using k' by (simp add: preorder_single)
    moreover have "dc' ! s = dc ! s @ [k]" using assms(6) by (simp add: dc'_def p)
    ultimately have "preorder dc' (dc' ! s) (zs @ [k])" using preorder_append [of dc' "dc ! s" "[k]"] by auto
    moreover have "rpath dc' (dc' ! s) [k]" using \<open>dc' ! s = dc ! s @ [k]\<close> by simp
    ultimately show ?thesis using goal dist(2) p Nil by simp
  next
    case (Cons s' ss')
    then have l: "last ss = p" "ss \<noteq> []" using Cons.prems(5) by auto
    have "p \<in> set zs" using rpath_subset [OF s(3) zs] l by (metis last_in_set subsetD)
    then have "s \<noteq> p" "p \<notin> set ys" using dist by auto
    moreover from this have "dc' ! s = dc ! s" by (simp add: dc'_def)
    ultimately have "dc' ! s = dc ! s" "p \<notin> set ys" by simp_all
    with Cons.IH [OF s(3) zs dist(1) l(2,1)] goal show ?thesis by simp
  qed
qed simp

subsection \<open>Placing the nodes\<close>

abbreviation spn :: "NodeSpec list \<Rightarrow> nat \<Rightarrow> Span" where
  "spn nodes i \<equiv> spec_span (nodes ! i)"

lemma pop_stack_Ok:
  assumes "pop_stack nodes k st = Ok st'"
  shows "\<exists>pre. st = pre @ st' \<and> (st' \<noteq> [] \<longrightarrow> strictly_contains (spn nodes (hd st')) (spn nodes k)) \<and>
           (\<forall>q \<in> set pre. \<not> spans_overlap (spn nodes q) (spn nodes k))"
  using assms
proof (induction nodes k st rule: pop_stack.induct)
  case (2 nodes k q st)
  show ?case
  proof (cases "strictly_contains (spn nodes q) (spn nodes k)")
    case True
    with "2.prems" show ?thesis by (intro exI [of _ "[]"]) auto
  next
    case False
    with "2.prems" have no: "\<not> spans_overlap (spn nodes q) (spn nodes k)" "pop_stack nodes k st = Ok st'"
      by (auto split: if_splits)
    from "2.IH" [OF False no] obtain pre where "st = pre @ st'"
      "st' \<noteq> [] \<longrightarrow> strictly_contains (spn nodes (hd st')) (spn nodes k)"
      "\<forall>q \<in> set pre. \<not> spans_overlap (spn nodes q) (spn nodes k)" by blast
    with no(1) show ?thesis by (intro exI [of _ "q # pre"]) auto
  qed
qed simp

text \<open>
  What holds when the nodes before \<open>k\<close> have been placed: the child lists visit them in order, the
  stack is a path along last children, and children are inside their parents.
\<close>

definition placed :: "NodeSpec list \<Rightarrow> nat \<Rightarrow> BuildState \<Rightarrow> bool" where
  "placed nodes k s \<longleftrightarrow>
     length (direct_children s) = length nodes \<and>
     preorder (direct_children s) (root_children s) [0..<k] \<and>
     rpath (direct_children s) (root_children s) (rev (node_stack s)) \<and>
     (\<forall>i. k \<le> i \<and> i < length nodes \<longrightarrow> direct_children s ! i = []) \<and>
     (\<forall>i < length nodes. \<forall>c \<in> set (direct_children s ! i). strictly_contains (spn nodes i) (spn nodes c)) \<and>
     set (node_stack s) \<subseteq> {..<k}"

lemma placedD:
  assumes "placed nodes k s"
  shows "length (direct_children s) = length nodes"
    "preorder (direct_children s) (root_children s) [0..<k]"
    "rpath (direct_children s) (root_children s) (rev (node_stack s))"
    "\<forall>i. k \<le> i \<and> i < length nodes \<longrightarrow> direct_children s ! i = []"
    "\<forall>i < length nodes. \<forall>c \<in> set (direct_children s ! i). strictly_contains (spn nodes i) (spn nodes c)"
    "set (node_stack s) \<subseteq> {..<k}"
  by (insert assms [unfolded placed_def]) (elim conjE, assumption)+

lemma placed_new: "placed nodes 0 (build_state_new (length nodes))"
  by (simp add: placed_def build_state_new_def)

lemma placed_root:
  assumes "placed nodes k s" "k < length nodes"
  shows "preorder (direct_children s) (root_children s @ [k]) [0..<Suc k]"
proof -
  have "direct_children s ! k = []" using placedD(4) [OF assms(1)] assms(2) by simp
  then have "preorder (direct_children s) [k] [k]" by (simp add: preorder_single)
  with placedD(2) [OF assms(1)] show ?thesis
    using preorder_append [of "direct_children s" "root_children s" "[k]" "[0..<k] @ [k]"] by auto
qed

lemma placed_child:
  assumes pl: "placed nodes k s" "k < length nodes" and st: "node_stack s = pre @ parent # rest"
  defines "dc' \<equiv> (direct_children s)[parent := direct_children s ! parent @ [k]]"
  shows "preorder dc' (root_children s) [0..<Suc k]" "rpath dc' (root_children s) (rev (k # parent # rest))"
    "parent < k"
proof -
  note d = placedD [OF pl(1)]
  show par: "parent < k" using d(6) by (auto simp: st)
  have "rpath (direct_children s) (root_children s) (rev (parent # rest) @ rev pre)" using d(3) by (simp add: st)
  then have rp: "rpath (direct_children s) (root_children s) (rev (parent # rest))" by (rule rpath_prefix)
  have "direct_children s ! k = []" using d(4) pl(2) by simp
  with rp d(2) par pl(2) d(1)
  have "preorder dc' (root_children s) ([0..<k] @ [k]) \<and> rpath dc' (root_children s) (rev (parent # rest) @ [k])"
    unfolding dc'_def by (intro preorder_insert) auto
  then show "preorder dc' (root_children s) [0..<Suc k]" "rpath dc' (root_children s) (rev (k # parent # rest))"
    by simp_all
qed

lemma placed_step:
  assumes pl: "placed nodes k s" and k: "k < length nodes" and step: "place_node nodes s k = Ok s'"
  shows "placed nodes (Suc k) s'"
proof -
  from step obtain st' where pop: "pop_stack nodes k (node_stack s) = Ok st'"
    by (auto simp: place_node_def result_bind_eq_Ok)
  note d = placedD [OF pl]
  obtain pre where pre: "node_stack s = pre @ st'"
    "st' \<noteq> [] \<longrightarrow> strictly_contains (spn nodes (hd st')) (spn nodes k)" using pop_stack_Ok [OF pop] by blast
  have sub: "set (k # st') \<subseteq> {..<Suc k}" using d(6) pre(1) by auto
  show ?thesis
  proof (cases st')
    case Nil
    then have "s' = s\<lparr>root_children := root_children s @ [k], node_stack := [k]\<rparr>"
      using step pop by (simp add: place_node_def)
    with placed_root [OF pl k] d sub Nil show ?thesis unfolding placed_def by simp
  next
    case (Cons parent rest)
    let ?dc = "(direct_children s)[parent := direct_children s ! parent @ [k]]"
    have s': "s' = s\<lparr>direct_children := ?dc, node_stack := k # st'\<rparr>"
      using step pop Cons by (simp add: place_node_def)
    note ch = placed_child [OF pl k, of pre parent rest, folded Cons, OF pre(1)]
    have "strictly_contains (spn nodes parent) (spn nodes k)" using pre(2) Cons by simp
    then have in': "\<forall>i < length nodes. \<forall>c \<in> set (?dc ! i). strictly_contains (spn nodes i) (spn nodes c)"
      using d(5) d(1) by (intro allI impI) (case_tac "i = parent", simp_all)
    have nil': "\<forall>i. Suc k \<le> i \<and> i < length nodes \<longrightarrow> ?dc ! i = []"
      using d(4) ch(3) by simp
    show ?thesis
      unfolding placed_def s' using d(1) ch(1,2) nil' in' sub Cons by simp
  qed
qed

lemma place_nodes_placed:
  assumes "placed nodes k s" "place_nodes nodes s [k..<length nodes] = Ok s'" "k \<le> length nodes"
  shows "placed nodes (length nodes) s'"
  using assms
proof (induction "length nodes - k" arbitrary: k s)
  case 0
  then show ?case by simp
next
  case (Suc n)
  then have k: "k < length nodes" by simp
  with Suc.prems(2) obtain s1 where s1: "place_node nodes s k = Ok s1"
    "place_nodes nodes s1 [Suc k..<length nodes] = Ok s'"
    by (auto simp: upt_conv_Cons result_bind_eq_Ok)
  have "placed nodes (Suc k) s1" by (rule placed_step [OF Suc.prems(1) k s1(1)])
  with Suc.hyps(1) [of "Suc k" s1] Suc.hyps(2) s1(2) k show ?case by simp
qed

subsection \<open>Distributing the tokens\<close>

lemma child_token_range_Ok: "child_token_range sp ts = Ok (mine, rest) \<Longrightarrow> ts = mine @ rest"
  by (induction sp ts arbitrary: mine rest rule: child_token_range.induct)
    (auto simp: result_bind_eq_Ok split: if_splits)

lemma build_children_preorder:
  assumes "preorder dc is xs" "length xs \<le> fuel"
    and "\<forall>i < length nodes. \<forall>c \<in> set (dc ! i). contains_span (spn nodes i) (spn nodes c)"
    and "set xs \<subseteq> {..<length nodes}" "\<forall>i \<in> set is. contains_span sp (spn nodes i)"
  shows "\<exists>r. build_children fuel nodes dc is toks = Some r \<and>
     (\<forall>es. r = Ok es \<longrightarrow> leaves_all es = toks \<and> specs_all es = map ((!) nodes) xs \<and> nested_all sp es)"
  using assms(1,2,4,5)
proof (induction arbitrary: fuel toks sp rule: preorder.induct)
  case preorder_Nil
  then show ?case by simp
next
  case (preorder_Cons i xs "is" ys)
  from preorder_Cons.prems obtain f where f: "fuel = Suc f" by (cases fuel) auto
  let ?sp = "spn nodes i"
  let ?b = "takeWhile (\<lambda>t. span_end (token_span t) \<le> span_start ?sp) toks"
  let ?a = "dropWhile (\<lambda>t. span_end (token_span t) \<le> span_start ?sp) toks"
  have i: "i < length nodes" using preorder_Cons.prems by auto
  have bound: "length xs \<le> f" "length ys \<le> Suc f" "set xs \<subseteq> {..<length nodes}" "set ys \<subseteq> {..<length nodes}"
    using preorder_Cons.prems f by auto
  have in': "\<forall>c \<in> set (dc ! i). contains_span ?sp (spn nodes c)" "\<forall>c \<in> set is. contains_span sp (spn nodes c)"
    "contains_span sp ?sp" using assms(3) i preorder_Cons.prems(3) by auto
  show ?case
  proof (cases "child_token_range ?sp ?a")
    case (Inl e)
    then show ?thesis by (simp add: f Let_def)
  next
    case (Inr mr)
    then obtain mine rest where mr: "child_token_range ?sp ?a = Ok (mine, rest)" by (cases mr) auto
    have split: "toks = ?b @ mine @ rest"
      using child_token_range_Ok [OF mr] takeWhile_dropWhile_id by metis
    obtain r1 where r1: "build_children f nodes dc (dc ! i) mine = Some r1"
      "\<forall>es. r1 = Ok es \<longrightarrow> leaves_all es = mine \<and> specs_all es = map ((!) nodes) xs \<and> nested_all ?sp es"
      using preorder_Cons.IH(1) [OF bound(1,3) in'(1)] by blast
    obtain r2 where r2: "build_children (Suc f) nodes dc is rest = Some r2"
      "\<forall>es. r2 = Ok es \<longrightarrow> leaves_all es = rest \<and> specs_all es = map ((!) nodes) ys \<and> nested_all sp es"
      using preorder_Cons.IH(2) [OF bound(2,4) in'(2)] by blast
    show ?thesis
    proof (cases "\<exists>cs es. r1 = Ok cs \<and> r2 = Ok es")
      case True
      then obtain cs es where eq: "r1 = Ok cs" "r2 = Ok es" by blast
      let ?es = "map TokenElement ?b @ NodeElement (SyntaxNode (spec_kind (nodes ! i)) ?sp cs) # es"
      have "build_children fuel nodes dc (i # is) toks = Some (Ok ?es)"
        using mr r1(1) r2(1) eq by (simp add: f Let_def)
      moreover have "leaves_all ?es = toks" using r1(2) r2(2) eq split by simp
      moreover have "specs_all ?es = map ((!) nodes) (i # xs @ ys)" using r1(2) r2(2) eq by simp
      moreover have "nested_all sp ?es" using r1(2) r2(2) eq in'(3) by simp
      ultimately show ?thesis by (intro exI [of _ "Ok ?es"]) simp
    next
      case False
      then show ?thesis using mr r1(1) r2(1) by (auto simp: f Let_def split: sum.splits)
    qed
  qed
qed

subsection \<open>The whole builder\<close>

lemma validate_nodes_Ok:
  assumes "validate_nodes root ns = Ok ()" "n \<in> set ns"
  shows "contains_span root (spec_span n)" "\<not> span_is_empty (spec_span n)"
  using assms by (induction ns)
    (auto simp: Let_def contains_span_def split: if_splits)

lemma sort_nodes_start:
  assumes "j < length (sort_nodes ns)" "i < j"
  shows "node_key (sort_nodes ns ! i) \<le> node_key (sort_nodes ns ! j)"
proof -
  have "sorted (map node_key (sort_nodes ns))" by (simp add: sort_nodes_def)
  from sorted_nth_mono [OF this, of i j] assms show ?thesis by simp
qed

lemma node_key_le:
  "node_key m \<le> node_key n \<Longrightarrow>
     span_start (spec_span m) \<le> span_start (spec_span n) \<and>
     (span_start (spec_span m) = span_start (spec_span n) \<longrightarrow> span_end (spec_span n) \<le> span_end (spec_span m))"
  by (auto simp: node_key_def less_eq_prod_def)

lemma strictly_contains_imp: "strictly_contains p c \<Longrightarrow> contains_span p c"
  by (simp add: strictly_contains_def contains_span_def)

text \<open>What \<open>build\<close> has established when it reaches \<open>build_node\<close>.\<close>

lemma build_cases:
  obtains (err) e where "build src len toks ns = Some (Err e)"
  | (tree) s where "place_nodes (sort_nodes ns) (build_state_new (length (sort_nodes ns))) [0..<length (sort_nodes ns)] = Ok s"
      "validate_nodes \<lparr>span_source = src, span_start = 0, span_end = len\<rparr> (sort_nodes ns) = Ok ()"
      "placed (sort_nodes ns) (length (sort_nodes ns)) s"
      "build src len toks ns = build_node (length (sort_nodes ns)) Root
         \<lparr>span_source = src, span_start = 0, span_end = len\<rparr> (root_children s) (sort_nodes ns) (direct_children s) toks"
proof -
  let ?root = "\<lparr>span_source = src, span_start = 0, span_end = len\<rparr>" and ?ns = "sort_nodes ns"
  show ?thesis
  proof (cases "validate_tokens ?root toks")
    case (Inl e)
    then show ?thesis by (intro err [of e]) (simp add: build_def span_new_def)
  next
    case vt: (Inr u)
    show ?thesis
    proof (cases "validate_nodes ?root ?ns")
      case (Inl e)
      then show ?thesis using vt by (intro err [of e]) (simp add: build_def span_new_def Let_def)
    next
      case vn: (Inr u')
      then have ok: "validate_nodes ?root ?ns = Ok ()" by simp
      show ?thesis
      proof (cases "place_nodes ?ns (build_state_new (length ?ns)) [0..<length ?ns]")
        case (Inl e)
        then show ?thesis using vt vn by (intro err [of e]) (simp add: build_def span_new_def Let_def)
      next
        case (Inr s)
        have "placed ?ns (length ?ns) s"
          using place_nodes_placed [OF placed_new Inr] by simp
        then show ?thesis using vt vn ok Inr by (intro tree [of s]) (simp_all add: build_def span_new_def Let_def)
      qed
    qed
  qed
qed

lemma build_result:
  "\<exists>r. build src len toks ns = Some r \<and>
     (\<forall>root. r = Ok root \<longrightarrow>
        leaves root = toks \<and>
        specs root = \<lparr>spec_kind = Root, spec_span = \<lparr>span_source = src, span_start = 0, span_end = len\<rparr>\<rparr> # sort_nodes ns \<and>
        nested root)"
proof (cases rule: build_cases [of src len toks ns])
  case (err e)
  then show ?thesis by simp
next
  case (tree s)
  let ?root = "\<lparr>span_source = src, span_start = 0, span_end = len\<rparr>" and ?ns = "sort_nodes ns"
  note d = placedD [OF tree(3)]
  have inside: "contains_span ?root (spn ?ns i)" if "i \<in> set (root_children s)" for i
  proof -
    have "i \<in> set [0..<length ?ns]" using d(2) that
      by (induction rule: preorder.induct) auto
    then show ?thesis using validate_nodes_Ok(1) [OF tree(2) nth_mem] by simp
  qed
  have dcs: "\<forall>i < length ?ns. \<forall>c \<in> set (direct_children s ! i). contains_span (spn ?ns i) (spn ?ns c)"
    using d(5) strictly_contains_imp by blast
  obtain r where r: "build_children (length ?ns) ?ns (direct_children s) (root_children s) toks = Some r"
    "\<forall>es. r = Ok es \<longrightarrow> leaves_all es = toks \<and> specs_all es = map ((!) ?ns) [0..<length ?ns] \<and> nested_all ?root es"
    using build_children_preorder [OF d(2) _ dcs, of "length ?ns" ?root toks] inside by (auto simp: atLeast0LessThan)
  show ?thesis
    unfolding tree(4) build_node_def using r by (auto simp: result_bind_eq_Ok map_nth split: sum.splits)
qed

subsection \<open>Crossing nodes\<close>

lemma strictly_contains_trans:
  "strictly_contains a b \<Longrightarrow> strictly_contains b c \<Longrightarrow> strictly_contains a c"
  unfolding strictly_contains_def by auto

text \<open>The nodes are sorted by their start, not empty, and of one source.\<close>

definition nodes_ok :: "NodeSpec list \<Rightarrow> bool" where
  "nodes_ok nodes \<longleftrightarrow>
     (\<forall>j < length nodes. \<forall>i < j. span_start (spn nodes i) \<le> span_start (spn nodes j)) \<and>
     (\<forall>i < length nodes. span_start (spn nodes i) < span_end (spn nodes i)) \<and>
     (\<forall>i < length nodes. \<forall>j < length nodes. span_source (spn nodes i) = span_source (spn nodes j))"

lemma nodes_okD:
  assumes "nodes_ok nodes" "j < length nodes" "i \<le> j"
  shows "span_start (spn nodes i) \<le> span_start (spn nodes j)" "span_start (spn nodes j) < span_end (spn nodes j)"
    "span_source (spn nodes i) = span_source (spn nodes j)"
proof -
  have "i < length nodes" using assms(2,3) by (rule le_less_trans [rotated])
  with assms(1,2) show "span_start (spn nodes j) < span_end (spn nodes j)"
    "span_source (spn nodes i) = span_source (spn nodes j)"
    unfolding nodes_ok_def by blast+
  show "span_start (spn nodes i) \<le> span_start (spn nodes j)"
    using assms unfolding nodes_ok_def by (cases "i = j") (blast, metis le_neq_implies_less)
qed

lemma nodes_ok_before:
  assumes "nodes_ok nodes" "j < length nodes" "i < j" "\<not> spans_overlap (spn nodes i) (spn nodes j)"
  shows "span_end (spn nodes i) \<le> span_start (spn nodes j)"
proof -
  note n = nodes_okD [OF assms(1,2) less_imp_le [OF assms(3)]]
  show ?thesis
    using assms(4) n(3) le_less_trans [OF n(1,2)] unfolding spans_overlap_def by linarith
qed

lemma nodes_ok_sort:
  assumes "validate_nodes root (sort_nodes ns) = Ok ()"
    and "\<forall>n \<in> set ns. span_start (spec_span n) \<le> span_end (spec_span n)"
  shows "nodes_ok (sort_nodes ns)"
proof -
  note v = validate_nodes_Ok [OF assms(1) nth_mem]
  have "span_source (spn (sort_nodes ns) i) = span_source root"
    "span_start (spn (sort_nodes ns) i) < span_end (spn (sort_nodes ns) i)"
    if "i < length (sort_nodes ns)" for i
  proof -
    have "sort_nodes ns ! i \<in> set ns" using nth_mem [OF that] by (simp add: sort_nodes_def)
    with assms(2) v [OF that] show "span_source (spn (sort_nodes ns) i) = span_source root"
      "span_start (spn (sort_nodes ns) i) < span_end (spn (sort_nodes ns) i)"
      by (auto simp: contains_span_def span_is_empty_def le_less)
  qed
  with node_key_le [OF sort_nodes_start] show ?thesis unfolding nodes_ok_def by metis
qed

text \<open>
  Of the nodes before \<open>k\<close>: one on the stack contains those above it, one that left the stack ends before
  the last one placed starts, and any two of them are nested or apart.
\<close>

definition laminar :: "NodeSpec list \<Rightarrow> nat \<Rightarrow> bool" where
  "laminar nodes k \<longleftrightarrow>
     (\<forall>j < k. \<forall>i < j. strictly_contains (spn nodes i) (spn nodes j) \<or> span_end (spn nodes i) \<le> span_start (spn nodes j))"

definition stack_ok :: "NodeSpec list \<Rightarrow> nat \<Rightarrow> nat list \<Rightarrow> bool" where
  "stack_ok nodes k st \<longleftrightarrow>
     sorted_wrt (\<lambda>above below. strictly_contains (spn nodes below) (spn nodes above)) st \<and>
     (\<forall>i < k. i \<notin> set st \<longrightarrow> span_end (spn nodes i) \<le> span_start (spn nodes (k - 1))) \<and>
     set st \<subseteq> {..<k}"

lemma stack_contains:
  assumes "sorted_wrt (\<lambda>above below. strictly_contains (spn nodes below) (spn nodes above)) (a # st)"
    "strictly_contains (spn nodes a) (spn nodes k)" "q \<in> set (a # st)"
  shows "strictly_contains (spn nodes q) (spn nodes k)"
  using assms strictly_contains_trans by (metis set_ConsD sorted_wrt.simps(2))

lemma laminar_step:
  assumes ok: "nodes_ok nodes" and st: "stack_ok nodes k st" and k: "k < length nodes"
    and lam: "laminar nodes k" and pop: "pop_stack nodes k st = Ok st'"
  shows "stack_ok nodes (Suc k) (k # st')" "laminar nodes (Suc k)"
proof -
  obtain pre where pre: "st = pre @ st'"
    "st' \<noteq> [] \<longrightarrow> strictly_contains (spn nodes (hd st')) (spn nodes k)"
    "\<forall>q \<in> set pre. \<not> spans_overlap (spn nodes q) (spn nodes k)"
    using pop_stack_Ok [OF pop] by blast
  have srt: "sorted_wrt (\<lambda>above below. strictly_contains (spn nodes below) (spn nodes above)) st'"
    using st unfolding pre(1) stack_ok_def by (simp only: sorted_wrt_append)
  have gone: "\<forall>i < k. i \<notin> set (pre @ st') \<longrightarrow> span_end (spn nodes i) \<le> span_start (spn nodes (k - 1))"
    using st unfolding pre(1) stack_ok_def by (elim conjE)
  have up: "strictly_contains (spn nodes q) (spn nodes k)" if "q \<in> set st'" for q
  proof (cases st')
    case (Cons a rest)
    have "strictly_contains (spn nodes a) (spn nodes k)" using pre(2) Cons by simp
    then show ?thesis using stack_contains [of nodes a rest k q] srt that Cons by simp
  qed (use that in simp)
  have off: "span_end (spn nodes i) \<le> span_start (spn nodes k)" if "i < k" "i \<notin> set st'" for i
  proof (cases "i \<in> set pre")
    case True
    with pre(3) ok k \<open>i < k\<close> show ?thesis by (intro nodes_ok_before) auto
  next
    case False
    with that gone have "span_end (spn nodes i) \<le> span_start (spn nodes (k - 1))" by auto
    also have "\<dots> \<le> span_start (spn nodes k)" using nodes_okD(1) [OF ok k] by simp
    finally show ?thesis .
  qed
  have "set (k # st') \<subseteq> {..<Suc k}" using st by (auto simp: stack_ok_def pre(1))
  moreover have "\<forall>i < Suc k. i \<notin> set (k # st') \<longrightarrow> span_end (spn nodes i) \<le> span_start (spn nodes (Suc k - 1))"
    using off by (auto simp: less_Suc_eq)
  ultimately show "stack_ok nodes (Suc k) (k # st')" unfolding stack_ok_def using srt up by simp
  show "laminar nodes (Suc k)" using lam off up unfolding laminar_def by (metis less_Suc_eq)
qed

lemma place_node_stack:
  assumes "place_node nodes s k = Ok s1"
  shows "\<exists>st'. pop_stack nodes k (node_stack s) = Ok st' \<and> node_stack s1 = k # st'"
proof -
  obtain st' where pop: "pop_stack nodes k (node_stack s) = Ok st'"
    using assms by (auto simp: place_node_def result_bind_eq_Ok)
  with assms have "node_stack s1 = k # st'" by (cases st') (auto simp: place_node_def)
  with pop show ?thesis by blast
qed

lemma place_nodes_laminar:
  assumes "nodes_ok nodes" "stack_ok nodes k (node_stack s)" "laminar nodes k"
    and "place_nodes nodes s [k..<length nodes] = Ok s'" "k \<le> length nodes"
  shows "laminar nodes (length nodes)"
  using assms(2-5)
proof (induction "length nodes - k" arbitrary: k s)
  case 0
  then show ?case by simp
next
  case (Suc n)
  then have k: "k < length nodes" by simp
  with Suc.prems(3) obtain s1 where s1: "place_node nodes s k = Ok s1"
    "place_nodes nodes s1 [Suc k..<length nodes] = Ok s'"
    by (auto simp: upt_conv_Cons result_bind_eq_Ok)
  from s1(1) obtain st' where pop: "pop_stack nodes k (node_stack s) = Ok st'" and "node_stack s1 = k # st'"
    using place_node_stack [OF s1(1)] by blast
  with laminar_step [OF assms(1) Suc.prems(1) k Suc.prems(2) pop] Suc.hyps(1) [of "Suc k" s1] Suc.hyps(2) s1(2) k
  show ?case by simp
qed

lemma pop_stack_Err:
  assumes "pop_stack nodes k st = Err e"
  shows "\<exists>i \<in> set st. e = CrossingNodes (spn nodes i) (spn nodes k) \<and>
    spans_overlap (spn nodes i) (spn nodes k) \<and> \<not> strictly_contains (spn nodes i) (spn nodes k)"
  using assms by (induction nodes k st rule: pop_stack.induct) (auto split: if_splits)

lemma place_nodes_Err:
  assumes "place_nodes nodes s [k..<length nodes] = Err e" "placed nodes k s" "k \<le> length nodes"
  shows "\<exists>j i. j < length nodes \<and> i < j \<and> e = CrossingNodes (spn nodes i) (spn nodes j) \<and>
    spans_overlap (spn nodes i) (spn nodes j) \<and> \<not> strictly_contains (spn nodes i) (spn nodes j)"
  using assms
proof (induction "length nodes - k" arbitrary: k s)
  case (Suc n)
  then have k: "k < length nodes" by simp
  from Suc.prems(1) k consider (here) "place_node nodes s k = Err e"
    | (later) s1 where "place_node nodes s k = Ok s1" "place_nodes nodes s1 [Suc k..<length nodes] = Err e"
    by (auto simp: upt_conv_Cons result_bind_eq_Err)
  then show ?case
  proof cases
    case here
    then have "pop_stack nodes k (node_stack s) = Err e" by (simp add: place_node_def result_bind_eq_Err)
    then have "\<exists>i \<in> set (node_stack s). e = CrossingNodes (spn nodes i) (spn nodes k) \<and>
        spans_overlap (spn nodes i) (spn nodes k) \<and> \<not> strictly_contains (spn nodes i) (spn nodes k)"
      by (rule pop_stack_Err)
    with k placedD(6) [OF Suc.prems(2)] show ?thesis by auto
  next
    case later
    with placed_step [OF Suc.prems(2) k later(1)] Suc.hyps(1) [of "Suc k" s1] Suc.hyps(2) k show ?thesis by simp
  qed
qed simp

lemma validate_nodes_adjacent:
  "validate_nodes root ns = Ok () \<Longrightarrow> Suc i < length ns \<Longrightarrow> spec_span (ns ! i) \<noteq> spec_span (ns ! Suc i)"
proof (induction ns arbitrary: i)
  case (Cons n ns)
  then show ?case
    by (cases i; cases ns) (auto simp: Let_def split: if_splits)
qed simp

lemma sort_nodes_crossing:
  assumes v: "validate_nodes root (sort_nodes ns) = Ok ()" and j: "j < length (sort_nodes ns)" "i < j"
    and o: "spans_overlap (spn (sort_nodes ns) i) (spn (sort_nodes ns) j)"
    and c: "\<not> strictly_contains (spn (sort_nodes ns) i) (spn (sort_nodes ns) j)"
  shows "span_start (spn (sort_nodes ns) i) < span_start (spn (sort_nodes ns) j)"
    "span_start (spn (sort_nodes ns) j) < span_end (spn (sort_nodes ns) i)"
    "span_end (spn (sort_nodes ns) i) < span_end (spn (sort_nodes ns) j)"
proof -
  let ?s = "sort_nodes ns"
  note key = node_key_le [OF sort_nodes_start [OF j]]
  show lt: "span_start (spn ?s i) < span_start (spn ?s j)"
  proof (rule ccontr)
    assume "\<not> ?thesis"
    with key o c have eq: "span_start (spn ?s i) = span_start (spn ?s j)" "span_end (spn ?s i) = span_end (spn ?s j)"
      "span_source (spn ?s i) = span_source (spn ?s j)"
      by (auto simp: strictly_contains_def spans_overlap_def)
    let ?m = "Suc i"
    have m: "?m < length ?s" using j by simp
    have k1: "span_start (spn ?s i) \<le> span_start (spn ?s ?m)"
      "span_start (spn ?s i) = span_start (spn ?s ?m) \<longrightarrow> span_end (spn ?s ?m) \<le> span_end (spn ?s i)"
      using node_key_le [OF sort_nodes_start [OF m]] by auto
    have k2: "span_start (spn ?s ?m) \<le> span_start (spn ?s j)"
      "span_start (spn ?s ?m) = span_start (spn ?s j) \<longrightarrow> span_end (spn ?s j) \<le> span_end (spn ?s ?m)"
      using node_key_le [OF sort_nodes_start [OF j(1)], of ?m] j(2) by (cases "?m = j"; auto)+
    have "span_source (spn ?s i) = span_source (spn ?s ?m)"
      using validate_nodes_Ok(1) [OF v nth_mem] m by (metis contains_span_def Suc_lessD)
    with k1 k2 eq have "spn ?s i = spn ?s ?m" by (intro Span.equality) auto
    with validate_nodes_adjacent [OF v m] show False by simp
  qed
  from lt o c show "span_start (spn ?s j) < span_end (spn ?s i)" "span_end (spn ?s i) < span_end (spn ?s j)"
    by (auto simp: strictly_contains_def spans_overlap_def)
qed

lemma validate_tokens_Err: "validate_tokens root ts \<noteq> Err (CrossingNodes l r)"
proof -
  have "validate_tokens_from root p ts \<noteq> Err (CrossingNodes l r)" for p
    by (induction root p ts rule: validate_tokens_from.induct) (auto simp: Let_def split: option.splits)
  then show ?thesis by (simp add: validate_tokens_def)
qed

lemma validate_nodes_Err: "validate_nodes root ns \<noteq> Err (CrossingNodes l r)"
  by (induction root ns rule: validate_nodes.induct) (auto simp: Let_def)

lemma child_token_range_Err: "child_token_range sp ts \<noteq> Err (CrossingNodes l r)"
  by (induction sp ts rule: child_token_range.induct) (auto simp: result_bind_eq_Err)

lemma build_children_Err: "build_children fuel nodes dc is toks \<noteq> Some (Err (CrossingNodes l r))"
proof (induction fuel nodes dc "is" toks rule: build_children.induct)
  case (3 fuel nodes dc i "is" toks)
  let ?from = "dropWhile (\<lambda>t. span_end (token_span t) \<le> span_start (spn nodes i)) toks"
  show ?case
  proof (cases "child_token_range (spn nodes i) ?from")
    case (Inl e)
    then show ?thesis using child_token_range_Err [of "spn nodes i" ?from] by (auto simp: Let_def)
  next
    case (Inr mr)
    obtain mine rest where mr: "mr = (mine, rest)" by (cases mr)
    note IH = "3.IH" [OF refl refl refl refl Inr mr [symmetric]]
    from mr IH(1) IH(2) Inr show ?thesis
      by (auto simp: Let_def split: option.splits sum.splits)
  qed
qed simp_all

subsection \<open>Properties\<close>

text \<open>The order that the nodes of a tree have in preorder.\<close>

definition in_order :: "NodeSpec \<Rightarrow> NodeSpec \<Rightarrow> bool" where
  "in_order m n \<longleftrightarrow> span_start (spec_span m) < span_start (spec_span n) \<or>
     span_start (spec_span m) = span_start (spec_span n) \<and>
       (span_end (spec_span n) < span_end (spec_span m) \<or>
        span_end (spec_span m) = span_end (spec_span n) \<and> syntax_kind_order (spec_kind m) \<le> syntax_kind_order (spec_kind n))"

lemma sort_nodes_in_order: "sorted_wrt in_order (sort_nodes ns)"
  unfolding sorted_wrt_iff_nth_less
proof (intro allI impI)
  fix i j
  assume "i < j" "j < length (sort_nodes ns)"
  then show "in_order (sort_nodes ns ! i) (sort_nodes ns ! j)"
    using sort_nodes_start [of j ns i] by (auto simp: in_order_def node_key_def less_eq_prod_def)
qed

text \<open>
  A report of crossing nodes is never spurious: the two spans of \<open>CrossingNodes\<close> belong to given node
  descriptions, and the second starts inside the first and ends after it.
\<close>

theorem build_crossing_sound:
  assumes "build src len toks ns = Some (Err (CrossingNodes l r))"
  shows "l \<in> spec_span ` set ns \<and> r \<in> spec_span ` set ns \<and>
    span_start l < span_start r \<and> span_start r < span_end l \<and> span_end l < span_end r"
proof -
  let ?root = "\<lparr>span_source = src, span_start = 0, span_end = len\<rparr>" and ?s = "sort_nodes ns"
  have vt: "validate_tokens ?root toks \<noteq> Err (CrossingNodes l r)"
    and vn: "validate_nodes ?root ?s \<noteq> Err (CrossingNodes l r)"
    using validate_tokens_Err validate_nodes_Err by blast+
  have bc: "build_node fuel k sp is ?s dc toks \<noteq> Some (Err (CrossingNodes l r))" for fuel k sp "is" dc
    using build_children_Err [of fuel ?s dc "is" toks] by (auto simp: build_node_def result_bind_eq_Err)
  from assms vt vn bc have v: "validate_nodes ?root ?s = Ok ()"
    and pe: "place_nodes ?s (build_state_new (length ?s)) [0..<length ?s] = Err (CrossingNodes l r)"
    by (auto simp: build_def span_new_def Let_def split: sum.splits)
  from place_nodes_Err [OF pe placed_new] obtain i j where ij: "j < length ?s" "i < j"
    "l = spn ?s i" "r = spn ?s j" "spans_overlap (spn ?s i) (spn ?s j)" "\<not> strictly_contains (spn ?s i) (spn ?s j)"
    by auto
  have "?s ! i \<in> set ns" "?s ! j \<in> set ns"
    using nth_mem [of i ?s] nth_mem [of j ?s] ij(1,2) by (simp_all add: sort_nodes_def)
  with sort_nodes_crossing [OF v ij(1,2,5,6)] ij(3,4) show ?thesis by simp
qed

text \<open>
  C3. The builder always returns, and a tree it returns is lossless: its leaves are the given tokens in
  order, its nodes in preorder are the root and then each of the given node descriptions once, ordered by their start,
  from the wider to the narrower, and by kind, and every node lies within its parent. It reports crossing nodes only
  for two given descriptions of which the second starts inside the first and ends after it.
\<close>

theorem build_lossless:
  "\<exists>r. build src len toks ns = Some r \<and>
     (case r of
        Inl e \<Rightarrow> (case e of
            CrossingNodes outer inner \<Rightarrow> outer \<in> spec_span ` set ns \<and> inner \<in> spec_span ` set ns \<and>
              span_start outer < span_start inner \<and> span_start inner < span_end outer \<and> span_end outer < span_end inner
          | _ \<Rightarrow> True)
      | Inr root \<Rightarrow>
          leaves root = toks \<and> token_count root = length toks \<and>
          (\<exists>sorted. specs root = \<lparr>spec_kind = Root, spec_span = \<lparr>span_source = src, span_start = 0, span_end = len\<rparr>\<rparr> # sorted \<and>
             mset sorted = mset ns \<and> sorted_wrt in_order sorted) \<and>
          nested root)"
proof -
  obtain r where r: "build src len toks ns = Some r" "\<forall>root. r = Ok root \<longrightarrow> leaves root = toks \<and>
        specs root = \<lparr>spec_kind = Root, spec_span = \<lparr>span_source = src, span_start = 0, span_end = len\<rparr>\<rparr> # sort_nodes ns \<and>
        nested root" using build_result by blast
  moreover have "mset (sort_nodes ns) = mset ns" by (simp add: sort_nodes_def)
  moreover have "l \<in> spec_span ` set ns \<and> m \<in> spec_span ` set ns \<and> span_start l < span_start m \<and>
      span_start m < span_end l \<and> span_end l < span_end m" if "r = Err (CrossingNodes l m)" for l m
    using build_crossing_sound [of src len toks ns l m] r(1) that by simp
  ultimately show ?thesis
    by (intro exI [of _ r]) (simp add: token_count_leaves sort_nodes_in_order split: sum.split SyntaxBuildError.split)
qed

text \<open>
  C4. No crossing nodes get into a tree: when the builder returns a tree, two different node descriptions
  that overlap are strictly nested, one in the other.
\<close>

theorem build_no_crossing:
  assumes "build src len toks ns = Some (Ok root)"
    and "\<forall>n \<in> set ns. span_start (spec_span n) \<le> span_end (spec_span n)"
    and "n \<in> set ns" "m \<in> set ns" "n \<noteq> m" "spans_overlap (spec_span n) (spec_span m)"
  shows "strictly_contains (spec_span n) (spec_span m) \<or> strictly_contains (spec_span m) (spec_span n)"
proof (cases rule: build_cases [of src len toks ns])
  case (err e)
  then show ?thesis using assms(1) by simp
next
  case (tree s)
  let ?s = "sort_nodes ns"
  have ok: "nodes_ok ?s" using nodes_ok_sort [OF tree(2) assms(2)] .
  have lam: "laminar ?s (length ?s)"
    using place_nodes_laminar [OF ok _ _ tree(1)] by (simp add: stack_ok_def laminar_def build_state_new_def)
  obtain i j where ij: "i < length ?s" "?s ! i = n" "j < length ?s" "?s ! j = m"
    using assms(3,4) by (metis in_set_conv_nth set_sort sort_nodes_def)
  with assms(5) have "i < j \<or> j < i" by (metis linorder_neqE_nat)
  with lam ij assms(6) show ?thesis unfolding laminar_def spans_overlap_def by (metis leD)
qed

lemma build_no_crossing_witness:
  "strictly_contains \<lparr>span_source = SourceId 0, span_start = 0, span_end = 6\<rparr>
     \<lparr>span_source = SourceId 0, span_start = 2, span_end = 4\<rparr>"
proof -
  let ?n = "\<lparr>spec_kind = Block, spec_span = \<lparr>span_source = SourceId 0, span_start = 0, span_end = 6\<rparr>\<rparr>"
  let ?m = "\<lparr>spec_kind = NameExpression, spec_span = \<lparr>span_source = SourceId 0, span_start = 2, span_end = 4\<rparr>\<rparr>"
  have "case build (SourceId 0) 6 [] [?m, ?n] of Some (Inr root) \<Rightarrow> True | _ \<Rightarrow> False" by code_simp
  then obtain root where "build (SourceId 0) 6 [] [?m, ?n] = Some (Ok root)"
    by (auto split: option.splits sum.splits)
  from build_no_crossing [OF this, of ?n ?m] show ?thesis
    by (simp add: spans_overlap_def strictly_contains_def)
qed

lemma build_crossing_sound_witness:
  "\<exists>l r. build (SourceId 0) 9 []
       [\<lparr>spec_kind = Block, spec_span = \<lparr>span_source = SourceId 0, span_start = 3, span_end = 9\<rparr>\<rparr>,
        \<lparr>spec_kind = Block, spec_span = \<lparr>span_source = SourceId 0, span_start = 0, span_end = 5\<rparr>\<rparr>] =
     Some (Err (CrossingNodes l r)) \<and> span_start l < span_start r \<and> span_end l < span_end r"
proof -
  let ?l = "\<lparr>span_source = SourceId 0, span_start = 0, span_end = 5\<rparr>"
  let ?r = "\<lparr>span_source = SourceId 0, span_start = 3, span_end = 9\<rparr>"
  have "build (SourceId 0) 9 [] [\<lparr>spec_kind = Block, spec_span = ?r\<rparr>, \<lparr>spec_kind = Block, spec_span = ?l\<rparr>] =
      Some (Err (CrossingNodes ?l ?r))" by code_simp
  with build_crossing_sound [OF this] show ?thesis by blast
qed

text \<open>
  A token that crosses the start of a node is not rejected: the loop of \<open>build_node\<close> compares only the
  end of a token with the end of the node, so a token from 0 to 4 is placed below a node from 2 to 6.
\<close>

theorem build_left_crossing_accepted:
  "build (SourceId 0) 6
     [\<lparr>kind = Identifier, token_span = \<lparr>span_source = SourceId 0, span_start = 0, span_end = 4\<rparr>\<rparr>,
      \<lparr>kind = Identifier, token_span = \<lparr>span_source = SourceId 0, span_start = 4, span_end = 6\<rparr>\<rparr>]
     [\<lparr>spec_kind = NameExpression, spec_span = \<lparr>span_source = SourceId 0, span_start = 2, span_end = 6\<rparr>\<rparr>] =
   Some (Ok (SyntaxNode Root \<lparr>span_source = SourceId 0, span_start = 0, span_end = 6\<rparr>
     [NodeElement (SyntaxNode NameExpression \<lparr>span_source = SourceId 0, span_start = 2, span_end = 6\<rparr>
       [TokenElement \<lparr>kind = Identifier, token_span = \<lparr>span_source = SourceId 0, span_start = 0, span_end = 4\<rparr>\<rparr>,
        TokenElement \<lparr>kind = Identifier, token_span = \<lparr>span_source = SourceId 0, span_start = 4, span_end = 6\<rparr>\<rparr>])]))"
  by code_simp

end
