(* ===== verification/Formatter.thy ===== *)
theory Formatter
  imports Lexing
begin

text \<open>
  The crate \<open>jadren-format\<close>: whitespace is regenerated from the token stream while every other
  character of the tokens is written as it stands. The state of the formatter is a record that each
  method updates.
\<close>

datatype FormatError = InvalidToken | InvalidSpan

record Formatter =
  fmt_output :: ustring
  indent :: nat
  line_start :: bool
  previous :: "Token option"
  angle_depth :: nat

definition formatter_new :: Formatter where
  "formatter_new = \<lparr>fmt_output = [], indent = 0, line_start = True, previous = None, angle_depth = 0\<rparr>"

definition fmt_INDENT :: ustring where
  "fmt_INDENT = lit ''    ''"

subsection \<open>Output primitives\<close>

definition push_output :: "ustring \<Rightarrow> Formatter \<Rightarrow> Formatter" where
  "push_output s fm = fm\<lparr>fmt_output := fmt_output fm @ s\<rparr>"

definition write_indentation :: "Formatter \<Rightarrow> Formatter" where
  "write_indentation fm =
     (if line_start fm
      then (push_output (concat (replicate (indent fm) fmt_INDENT)) fm)\<lparr>line_start := False\<rparr>
      else fm)"

definition fmt_write :: "ustring \<Rightarrow> Formatter \<Rightarrow> Formatter" where
  "fmt_write s fm = push_output s (write_indentation fm)"

definition space_if_needed :: "Formatter \<Rightarrow> Formatter" where
  "space_if_needed fm =
     (if \<not> line_start fm \<and> \<not> (ends_with (fmt_output fm) [ch_space] \<or> ends_with (fmt_output fm) [ch_newline])
      then push_output [ch_space] fm else fm)"

definition trim_space :: "Formatter \<Rightarrow> Formatter" where
  "trim_space fm = fm\<lparr>fmt_output := trim_end_matches (\<lambda>c. c = ch_space) (fmt_output fm)\<rparr>"

definition fmt_newline :: "Formatter \<Rightarrow> Formatter" where
  "fmt_newline fm =
     (let f1 = trim_space fm;
          f2 = (if fmt_output f1 \<noteq> [] \<and> \<not> ends_with (fmt_output f1) [ch_newline]
                then push_output [ch_newline] f1 else f1)
      in f2\<lparr>line_start := True\<rparr>)"

definition fmt_finish :: "Formatter \<Rightarrow> ustring" where
  "fmt_finish fm =
     (let s = trim_end_matches (\<lambda>c. c = ch_newline) (fmt_output (trim_space fm))
      in if s \<noteq> [] then s @ [ch_newline] else s)"

subsection \<open>Token classes\<close>

definition is_word_like :: "TokenKind \<Rightarrow> bool" where
  "is_word_like k =
     (case k of Identifier \<Rightarrow> True | Keyword _ \<Rightarrow> True | IntegerLiteral \<Rightarrow> True | FloatLiteral \<Rightarrow> True
              | StringLiteral \<Rightarrow> True | CharLiteral \<Rightarrow> True | _ \<Rightarrow> False)"

definition previous_is :: "(TokenKind \<Rightarrow> bool) \<Rightarrow> Formatter \<Rightarrow> bool" where
  "previous_is P fm = (case previous fm of Some t \<Rightarrow> P (kind t) | None \<Rightarrow> False)"

definition is_generic_open :: "Formatter \<Rightarrow> (Token \<times> ustring) option \<Rightarrow> bool" where
  "is_generic_open fm nxt \<longleftrightarrow>
     previous_is is_word_like fm \<and> (case nxt of Some (t, _) \<Rightarrow> is_word_like (kind t) | None \<Rightarrow> False)"

definition should_break_at_newline :: "Formatter \<Rightarrow> bool" where
  "should_break_at_newline fm =
     (if line_start fm then False
      else \<not> previous_is (\<lambda>k. case k of
          Operator _ \<Rightarrow> True
        | Punctuation p \<Rightarrow> p \<in> {LeftParen, LeftBracket, Comma, Colon, Dot, At}
        | _ \<Rightarrow> False) fm)"

definition has_line_end :: "ustring \<Rightarrow> bool" where
  "has_line_end s \<longleftrightarrow> list_ex is_line_end s"

subsection \<open>One token\<close>

definition trivia :: "TokenKind \<Rightarrow> ustring \<Rightarrow> Formatter \<Rightarrow> Formatter" where
  "trivia k s fm =
     (case k of
        Whitespace \<Rightarrow> if has_line_end s \<and> should_break_at_newline fm then fmt_newline fm else fm
      | LineComment \<Rightarrow> fmt_newline (fmt_write (trim_end_matches is_line_end s) (space_if_needed fm))
      | DocLineComment \<Rightarrow> fmt_newline (fmt_write (trim_end_matches is_line_end s) (space_if_needed fm))
      | BlockComment \<Rightarrow>
          (let f1 = fmt_write (trim s) (space_if_needed fm)
           in if has_line_end s then fmt_newline f1 else space_if_needed f1)
      | DocBlockComment \<Rightarrow>
          (let f1 = fmt_write (trim s) (space_if_needed fm)
           in if has_line_end s then fmt_newline f1 else space_if_needed f1)
      | _ \<Rightarrow> fm)"

definition write_word :: "ustring \<Rightarrow> Formatter \<Rightarrow> Formatter" where
  "write_word s fm =
     (let after_brace = previous_is (\<lambda>k. k = Punctuation RightBrace) fm;
          f1 = (if previous_is (\<lambda>k. is_word_like k \<or> k = Punctuation RightParen \<or> k = Punctuation RightBracket) fm
                then space_if_needed fm
                else if after_brace \<and> s \<noteq> lit ''else'' then fmt_newline fm
                else if after_brace then space_if_needed fm
                else fm)
      in fmt_write s (write_indentation f1))"

definition write_punctuation :: "Punctuation \<Rightarrow> ustring \<Rightarrow> Formatter \<Rightarrow> Formatter" where
  "write_punctuation p s fm =
     (case p of
        LeftBrace \<Rightarrow>
          (let f1 = (if \<not> line_start fm \<and>
                        \<not> previous_is (\<lambda>k. k = Punctuation LeftParen \<or> k = Punctuation LeftBracket) fm
                     then space_if_needed fm else fm);
               f2 = fmt_write s f1
           in fmt_newline (f2\<lparr>indent := indent f2 + 1\<rparr>))
      | RightBrace \<Rightarrow>
          (let f1 = (if \<not> line_start fm then fmt_newline fm else fm)
           in fmt_write s (f1\<lparr>indent := indent f1 - 1\<rparr>))
      | Semicolon \<Rightarrow> fmt_newline (fmt_write s (trim_space fm))
      | Comma \<Rightarrow>
          (let f1 = fmt_write s (trim_space fm)
           in if indent f1 > 0 then fmt_newline f1 else space_if_needed f1)
      | Colon \<Rightarrow> space_if_needed (fmt_write s (trim_space fm))
      | Dot \<Rightarrow> fmt_write s (trim_space fm)
      | At \<Rightarrow> fmt_write s (write_indentation fm)
      | LeftParen \<Rightarrow>
          (let f1 = (if previous_is (\<lambda>k. k \<in> {Keyword KwIf, Keyword KwFor, Keyword KwWhile, Keyword KwMatch}) fm
                     then space_if_needed fm else fm)
           in fmt_write s (trim_space f1))
      | RightParen \<Rightarrow> fmt_write s (trim_space fm)
      | RightBracket \<Rightarrow> fmt_write s (trim_space fm)
      | LeftBracket \<Rightarrow> fmt_write s (trim_space fm))"

definition write_operator :: "Operator \<Rightarrow> ustring \<Rightarrow> (Token \<times> ustring) option \<Rightarrow> Formatter \<Rightarrow> Formatter" where
  "write_operator q s nxt fm =
     (if q = OpPathSeparator \<or> q = OpQuestion then fmt_write s (trim_space fm)
      else if q = OpLess \<and> is_generic_open fm nxt then
        (let f1 = fmt_write s (trim_space fm) in f1\<lparr>angle_depth := angle_depth f1 + 1\<rparr>)
      else if q = OpGreater \<and> angle_depth fm > 0 then
        (let f1 = fmt_write s (trim_space fm) in f1\<lparr>angle_depth := angle_depth f1 - 1\<rparr>)
      else space_if_needed (fmt_write s (space_if_needed fm)))"

definition fmt_syntax :: "Token \<Rightarrow> ustring \<Rightarrow> (Token \<times> ustring) option \<Rightarrow> Formatter \<Rightarrow> Formatter" where
  "fmt_syntax t s nxt fm =
     (case kind t of
        Punctuation p \<Rightarrow> write_punctuation p s fm
      | Operator q \<Rightarrow> write_operator q s nxt fm
      | k \<Rightarrow> if is_word_like k then write_word s fm else fmt_write s (write_indentation fm))"

subsection \<open>The loop\<close>

text \<open>\<open>next_significant\<close>, on the tokens after the current one.\<close>

fun next_significant :: "SourceFile \<Rightarrow> Token list \<Rightarrow> (FormatError, (Token \<times> ustring) option) result" where
  "next_significant f [] = Ok None"
| "next_significant f (t # ts) =
     (if is_trivia (kind t) then next_significant f ts
      else result_bind (ok_or (slice f (token_span t)) InvalidSpan) (\<lambda>s. Ok (Some (t, s))))"

fun fmt_run :: "SourceFile \<Rightarrow> Token list \<Rightarrow> Formatter \<Rightarrow> (FormatError, Formatter) result" where
  "fmt_run f [] fm = Ok fm"
| "fmt_run f (t # ts) fm =
     result_bind (ok_or (slice f (token_span t)) InvalidSpan) (\<lambda>s.
       if is_trivia (kind t) then fmt_run f ts (trivia (kind t) s fm)
       else result_bind (next_significant f ts) (\<lambda>nxt.
         fmt_run f ts ((fmt_syntax t s nxt fm)\<lparr>previous := Some t\<rparr>)))"

definition format_source :: "SourceFile \<Rightarrow> Token list \<Rightarrow> (FormatError, ustring) result" where
  "format_source f toks =
     (let significant = filter (\<lambda>t. kind t \<noteq> Eof) toks in
      if list_ex (\<lambda>t. kind t = Invalid) significant then Err InvalidToken
      else result_bind (fmt_run f significant formatter_new) (\<lambda>fm. Ok (fmt_finish fm)))"

subsection \<open>What is not whitespace is kept\<close>

definition visible :: "ustring \<Rightarrow> ustring" where
  "visible s = filter (\<lambda>c. \<not> is_whitespace c) s"

lemma visible_append [simp]: "visible (s @ t) = visible s @ visible t"
  by (simp add: visible_def)

lemma whitespace_chars [simp]: "is_whitespace ch_space" "is_whitespace ch_newline"
  by (simp_all add: is_whitespace_def)

lemma line_end_whitespace: "is_line_end c \<Longrightarrow> is_whitespace c"
  by (auto simp: is_line_end_def is_whitespace_def)

lemma visible_trim [simp]:
  "visible (trim s) = visible s" "visible (trim_end_matches is_line_end s) = visible s"
  "visible (trim_end_matches (\<lambda>c. c = ch_space) s) = visible s"
  "visible (trim_end_matches (\<lambda>c. c = ch_newline) s) = visible s"
  unfolding visible_def by (auto intro!: filter_trim filter_trim_end dest: line_end_whitespace)

lemma visible_ws [simp]: "visible [ch_space] = []" "visible [ch_newline] = []" "visible [] = []"
  by (simp_all add: visible_def is_whitespace_def)

lemma visible_indent [simp]: "visible (concat (replicate n fmt_INDENT)) = []"
  by (induction n) (simp_all add: fmt_INDENT_def visible_def is_whitespace_def)

abbreviation shown :: "Formatter \<Rightarrow> ustring" where
  "shown fm \<equiv> visible (fmt_output fm)"

lemma shown_primitives [simp]:
  "shown (push_output s fm) = shown fm @ visible s"
  "shown (write_indentation fm) = shown fm"
  "shown (fmt_write s fm) = shown fm @ visible s"
  "shown (space_if_needed fm) = shown fm"
  "shown (trim_space fm) = shown fm"
  "shown (fmt_newline fm) = shown fm"
proof -
  show p: "shown (push_output s fm) = shown fm @ visible s" for s fm by (simp add: push_output_def)
  show w: "shown (write_indentation fm) = shown fm" for fm by (simp add: write_indentation_def p)
  show "shown (fmt_write s fm) = shown fm @ visible s" by (simp add: fmt_write_def p w)
  show "shown (space_if_needed fm) = shown fm" by (simp add: space_if_needed_def p)
  show t: "shown (trim_space fm) = shown fm" by (simp add: trim_space_def)
  show "shown (fmt_newline fm) = shown fm" by (simp add: fmt_newline_def Let_def p t)
qed

lemma shown_trivia:
  "is_trivia k \<Longrightarrow> shown (trivia k s fm) = shown fm @ (if k = Whitespace then [] else visible s)"
  by (cases k) (simp_all add: trivia_def is_trivia_def Let_def)

lemma shown_write_word: "shown (write_word s fm) = shown fm @ visible s"
  by (simp add: write_word_def Let_def)

lemma shown_write_punctuation: "shown (write_punctuation p s fm) = shown fm @ visible s"
  by (cases p) (simp_all add: write_punctuation_def Let_def)

lemma shown_write_operator: "shown (write_operator q s nxt fm) = shown fm @ visible s"
  by (simp add: write_operator_def Let_def)

lemma shown_syntax: "shown (fmt_syntax t s nxt fm) = shown fm @ visible s"
  by (cases "kind t")
    (simp_all add: fmt_syntax_def shown_write_word shown_write_punctuation shown_write_operator)

lemma fmt_run_shown:
  "fmt_run f ts fm = Ok fm' \<Longrightarrow>
     shown fm' = shown fm @
       concat (map (\<lambda>t. visible (the (slice f (token_span t)))) (filter (\<lambda>t. kind t \<noteq> Whitespace) ts))"
proof (induction ts arbitrary: fm)
  case (Cons t ts)
  from Cons.prems obtain s where s: "slice f (token_span t) = Some s"
    by (auto simp: result_bind_eq_Ok ok_or_eq_Ok)
  show ?case
  proof (cases "is_trivia (kind t)")
    case True
    with Cons.prems s have "fmt_run f ts (trivia (kind t) s fm) = Ok fm'" by simp
    from Cons.IH [OF this] s True show ?thesis by (simp add: shown_trivia)
  next
    case False
    with Cons.prems s obtain nxt where "fmt_run f ts ((fmt_syntax t s nxt fm)\<lparr>previous := Some t\<rparr>) = Ok fm'"
      by (auto simp: result_bind_eq_Ok)
    from Cons.IH [OF this] s False show ?thesis by (auto simp: shown_syntax is_trivia_def)
  qed
qed simp

lemma visible_finish: "visible (fmt_finish fm) = shown fm"
proof -
  let ?s = "trim_end_matches (\<lambda>c. c = ch_newline) (fmt_output (trim_space fm))"
  have "visible (fmt_finish fm) = visible ?s" by (simp add: fmt_finish_def Let_def del: visible_trim)
  also have "\<dots> = shown fm" by simp
  finally show ?thesis .
qed

lemma next_significant_Ok:
  "list_all (\<lambda>t. slice f (token_span t) \<noteq> None) ts \<Longrightarrow> \<exists>nxt. next_significant f ts = Ok nxt"
  by (induction ts) auto

lemma fmt_run_Ok:
  "list_all (\<lambda>t. slice f (token_span t) \<noteq> None) ts \<Longrightarrow> \<exists>fm'. fmt_run f ts fm = Ok fm'"
proof (induction ts arbitrary: fm)
  case (Cons t ts)
  then obtain s nxt where "slice f (token_span t) = Some s" "next_significant f ts = Ok nxt"
    using next_significant_Ok by force
  with Cons show ?case by (cases "is_trivia (kind t)") auto
qed simp

lemma trim_end_last: "trim_end_matches P s \<noteq> [] \<Longrightarrow> \<not> P (last (trim_end_matches P s))"
  by (simp add: trim_end_matches_def last_rev hd_dropWhile)

subsection \<open>Properties\<close>

text \<open>
  C5. The formatter on the output of the lexer: it fails exactly when the lexer left an \<open>Invalid\<close>
  token, it is never stopped by a span, and the text it returns has, whitespace aside, the same
  characters in the same order as the tokens of the file that are not whitespace.
\<close>

theorem format_preserves:
  "\<exists>out. lex f = Some out \<and>
     (case format_source f (tokens out) of
        Inl e \<Rightarrow> e = InvalidToken \<and> list_ex (\<lambda>t. kind t = Invalid) (tokens out)
      | Inr s \<Rightarrow>
          \<not> list_ex (\<lambda>t. kind t = Invalid) (tokens out) \<and>
          visible s = visible (concat (map (\<lambda>t. the (slice f (token_span t)))
            (filter (\<lambda>t. kind t \<noteq> Whitespace \<and> kind t \<noteq> Eof) (tokens out)))))"
proof -
  obtain ts ds where out: "lex f = Some \<lparr>tokens = ts @ [\<lparr>kind = Eof, token_span = span_empty (file_id f) (str_len (file_text f))\<rparr>],
                        diagnostics = ds\<rparr>" and fits: "list_all (token_fits (file_id f) (file_text f)) ts"
    using lex_result [of f] by blast
  have k: "kind t \<noteq> Eof" "slice f (token_span t) \<noteq> None" if "t \<in> set ts" for t
    using fits that token_fits_slice(1) [of f t] by (auto simp: list_all_iff token_shape_def)
  then have flt: "filter (\<lambda>t. kind t \<noteq> Eof) ts = ts" by (simp add: filter_id_conv)
  obtain fm where fm: "fmt_run f ts formatter_new = Ok fm"
    using fmt_run_Ok [of f ts formatter_new] k(2) by (auto simp: list_all_iff)
  have "shown fm = visible (concat (map (\<lambda>t. the (slice f (token_span t))) (filter (\<lambda>t. kind t \<noteq> Whitespace) ts)))"
    using fmt_run_shown [OF fm] by (simp add: formatter_new_def visible_def filter_concat comp_def)
  moreover have "filter (\<lambda>t. kind t \<noteq> Whitespace \<and> kind t \<noteq> Eof) ts = filter (\<lambda>t. kind t \<noteq> Whitespace) ts"
    using k(1) by (intro filter_cong) auto
  moreover have "visible (fmt_finish fm) = shown fm" by (rule visible_finish)
  ultimately show ?thesis using out fm flt by (simp add: format_source_def Let_def)
qed

text \<open>
  Formatted text is empty or ends with exactly one newline.
\<close>

theorem format_final_newline:
  assumes "format_source f toks = Ok s"
  shows "s = [] \<or> (\<exists>r. s = r @ [ch_newline] \<and> r \<noteq> [] \<and> last r \<noteq> ch_newline)"
proof -
  obtain fm where "s = fmt_finish fm"
    using assms by (auto simp: format_source_def Let_def result_bind_eq_Ok split: if_splits)
  then show ?thesis
    using trim_end_last [of "\<lambda>c. c = ch_newline" "fmt_output (trim_space fm)"]
    by (auto simp: fmt_finish_def Let_def)
qed

text \<open>
  Formatting is not always token-preserving: the colons of \<open>a: :b\<close> are written next to each other,
  and the result lexes to a path separator instead.
\<close>

theorem format_merges_tokens:
  "(case lex (sample_file (lit ''a: :b'')) of None \<Rightarrow> False | Some out \<Rightarrow>
      filter (\<lambda>k. k \<noteq> Whitespace) (map kind (tokens out)) =
        [Identifier, Punctuation Colon, Punctuation Colon, Identifier, Eof] \<and>
      format_source (sample_file (lit ''a: :b'')) (tokens out) = Ok (lit ''a:: b'' @ [ch_newline])) \<and>
   (case lex (sample_file (lit ''a:: b'' @ [ch_newline])) of None \<Rightarrow> False | Some out \<Rightarrow>
      filter (\<lambda>k. k \<noteq> Whitespace) (map kind (tokens out)) =
        [Identifier, Operator OpPathSeparator, Identifier, Eof])"
  by code_simp

theorem format_final_newline_witness:
  "\<exists>s. format_source (sample_file (lit ''a'')) [\<lparr>kind = Identifier, token_span = span_at (sample_file []) 0 1\<rparr>] = Ok s \<and>
     (\<exists>r. s = r @ [ch_newline])"
proof -
  have "case format_source (sample_file (lit ''a'')) [\<lparr>kind = Identifier, token_span = span_at (sample_file []) 0 1\<rparr>] of
      Inl e \<Rightarrow> False | Inr s \<Rightarrow> s \<noteq> []" by code_simp
  then obtain s where s: "format_source (sample_file (lit ''a'')) [\<lparr>kind = Identifier, token_span = span_at (sample_file []) 0 1\<rparr>] = Ok s"
    "s \<noteq> []" by (auto split: sum.splits)
  with format_final_newline [OF s(1)] show ?thesis by blast
qed

end
