(* ===== verification/BTree.thy ===== *)
theory BTree
  imports Prelude "HOL-Library.List_Lexorder"
begin

text \<open>
  The ordered maps and sets of the source (\<open>BTreeMap\<close>, \<open>BTreeSet\<close>) as association lists with strictly
  ascending keys, which is what iterating over them yields. Strings as keys are ordered
  lexicographically. The locale states what clients rely on; it is interpreted on the operations.
\<close>

fun bt_insert :: "'k::linorder \<Rightarrow> 'v \<Rightarrow> ('k \<times> 'v) list \<Rightarrow> ('k \<times> 'v) list" where
  "bt_insert k v [] = [(k, v)]"
| "bt_insert k v ((k', v') # m) =
     (if k < k' then (k, v) # (k', v') # m
      else if k = k' then (k, v) # m
      else (k', v') # bt_insert k v m)"

definition bt_get :: "('k \<times> 'v) list \<Rightarrow> 'k \<Rightarrow> 'v option" where
  "bt_get m k = map_of m k"

definition bt_ok :: "('k::linorder \<times> 'v) list \<Rightarrow> bool" where
  "bt_ok m \<longleftrightarrow> sorted_wrt (<) (map fst m)"

lemma bt_ok_simps [simp]:
  "bt_ok []" "bt_ok ((k, v) # m) \<longleftrightarrow> (\<forall>x \<in> set m. k < fst x) \<and> bt_ok m"
  by (simp_all add: bt_ok_def)

lemma set_bt_insert: "set (bt_insert k v m) \<subseteq> insert (k, v) (set m)"
  by (induction k v m rule: bt_insert.induct) auto

lemma set_foldl_bt_insert: "set (foldl (\<lambda>m (k, v). bt_insert k v m) m xs) \<subseteq> set m \<union> set xs"
proof (induction xs arbitrary: m)
  case (Cons x xs)
  then show ?case using set_bt_insert [of "fst x" "snd x" m] by (cases x) fastforce
qed simp

lemma fst_bt_insert: "fst ` set (bt_insert k v m) = insert k (fst ` set m)"
  by (induction k v m rule: bt_insert.induct) auto

lemma bt_ok_insert: "bt_ok m \<Longrightarrow> bt_ok (bt_insert k v m)"
proof (induction k v m rule: bt_insert.induct)
  case (2 k v k' v' m)
  have "k' < fst x" if "\<not> k < k'" "k \<noteq> k'" "x \<in> set (bt_insert k v m)" for x
    using that "2.prems" set_bt_insert [of k v m] by force
  with 2 show ?case by (auto intro: less_trans)
qed simp

lemma bt_get_insert: "bt_get (bt_insert k v m) k' = (if k' = k then Some v else bt_get m k')"
  by (induction k v m rule: bt_insert.induct) (auto simp: bt_get_def)

lemma bt_ok_distinct: "bt_ok m \<Longrightarrow> distinct (map fst m)"
  by (simp add: bt_ok_def strict_sorted_iff)

lemma bt_get_in: "bt_ok m \<Longrightarrow> bt_get m k = Some v \<longleftrightarrow> (k, v) \<in> set m"
  by (simp add: bt_get_def bt_ok_distinct)

lemma bt_get_None: "bt_get m k = None \<longleftrightarrow> k \<notin> fst ` set m"
  by (simp add: bt_get_def map_of_eq_None_iff)

lemma bt_in_insert:
  "bt_ok m \<Longrightarrow> (a, b) \<in> set (bt_insert k v m) \<longleftrightarrow> (if a = k then b = v else (a, b) \<in> set m)"
  using bt_get_in [OF bt_ok_insert, of m k v a b] bt_get_in [of m a b] bt_get_insert [of k v m a] by auto

lemma bt_insert_last: "\<forall>x \<in> set m. fst x < k \<Longrightarrow> bt_insert k v m = m @ [(k, v)]"
  by (induction k v m rule: bt_insert.induct) auto

lemma bt_entries: "bt_ok m \<Longrightarrow> map (\<lambda>k. (k, the (bt_get m k))) (map fst m) = m"
  by (simp add: comp_def) (intro map_idI, force simp: bt_get_def bt_ok_distinct)

lemma bt_ext:
  assumes "bt_ok m" "bt_ok n" "\<And>k. bt_get m k = bt_get n k"
  shows "m = n"
proof -
  have "k \<in> set (map fst m) \<longleftrightarrow> k \<in> set (map fst n)" for k
    using assms(3) bt_get_None [of m k] bt_get_None [of n k] by simp
  then have "set (map fst m) = set (map fst n)" by blast
  then have keys: "map fst m = map fst n"
    using assms(1,2) by (intro strict_sorted_equal) (simp_all add: bt_ok_def)
  have "m = map (\<lambda>k. (k, the (bt_get m k))) (map fst m)" using bt_entries [OF assms(1)] by simp
  also have "\<dots> = map (\<lambda>k. (k, the (bt_get n k))) (map fst n)" unfolding keys assms(3) ..
  also have "\<dots> = n" by (rule bt_entries [OF assms(2)])
  finally show ?thesis .
qed

subsection \<open>The interface\<close>

locale ordered_map =
  fixes empty :: 'm
    and upd :: "'k \<Rightarrow> 'v \<Rightarrow> 'm \<Rightarrow> 'm"
    and lookup :: "'m \<Rightarrow> 'k \<Rightarrow> 'v option"
    and ok :: "'m \<Rightarrow> bool"
  assumes ok_empty: "ok empty" and lookup_empty: "lookup empty k = None"
    and ok_upd: "ok m \<Longrightarrow> ok (upd k v m)"
    and lookup_upd: "ok m \<Longrightarrow> lookup (upd k v m) k' = (if k' = k then Some v else lookup m k')"
    and map_ext: "ok m \<Longrightarrow> ok n \<Longrightarrow> (\<And>k. lookup m k = lookup n k) \<Longrightarrow> m = n"
begin

lemma foldl_ok: "ok m \<Longrightarrow> ok (foldl (\<lambda>m (k, v). upd k v m) m xs)"
  by (induction xs arbitrary: m) (auto simp: ok_upd)

lemma foldl_lookup:
  assumes "ok m" "distinct (map fst xs)"
  shows "lookup (foldl (\<lambda>m (k, v). upd k v m) m xs) k =
    (if k \<in> fst ` set xs then map_of xs k else lookup m k)"
  using assms
proof (induction xs arbitrary: m)
  case (Cons x xs)
  obtain a b where x: "x = (a, b)" by (cases x)
  have ok': "ok (upd a b m)" using Cons.prems by (simp add: ok_upd)
  have dist: "distinct (map fst xs)" "a \<notin> fst ` set xs" using Cons.prems x by auto
  show ?case
    using Cons.IH [OF ok' dist(1)] lookup_upd [OF Cons.prems(1)] dist(2) x by auto
qed simp

lemma foldl_order:
  assumes "ok m" "distinct (map fst xs)" "set xs = set ys" "distinct (map fst ys)"
  shows "foldl (\<lambda>m (k, v). upd k v m) m xs = foldl (\<lambda>m (k, v). upd k v m) m ys"
proof (rule map_ext)
  fix k
  have "map_of xs k = map_of ys k" using assms by (metis map_of_inject_set)
  with assms show "lookup (foldl (\<lambda>m (k, v). upd k v m) m xs) k = lookup (foldl (\<lambda>m (k, v). upd k v m) m ys) k"
    by (simp add: foldl_lookup)
qed (use assms foldl_ok in auto)

end

interpretation btree: ordered_map "[]" bt_insert bt_get bt_ok
proof unfold_locales
  show "bt_get [] k = None" for k :: 'a by (simp add: bt_get_def)
qed (simp_all add: bt_ok_insert bt_get_insert bt_ext)

text \<open>Inserting the entries of a map in order gives the map.\<close>

lemma bt_insert_all:
  assumes "bt_ok (m @ xs)"
  shows "foldl (\<lambda>m (k, v). bt_insert k v m) m xs = m @ xs"
  using assms
proof (induction xs arbitrary: m)
  case (Cons x xs)
  obtain k v where x: "x = (k, v)" by (cases x)
  have "\<forall>y \<in> set m. fst y < k" using Cons.prems x by (auto simp: bt_ok_def sorted_wrt_append)
  then have "bt_insert k v m = m @ [(k, v)]" by (rule bt_insert_last)
  with Cons x show ?case by simp
qed simp

end
