(* ===== verification/Manifest.thy ===== *)
theory Manifest
  imports Determinism BTree
begin

text \<open>
  The manifest half of the crate \<open>jadren-package\<close>: the parser of \<open>jadren.toml\<close>, line by line over an
  explicit state, its validators, the canonical printer and the lock file. Dependencies are a
  \<open>BTreeMap\<close>, here an association list with ascending keys.
\<close>

subsection \<open>Data\<close>

definition MANIFEST_FILE :: ustring where "MANIFEST_FILE = lit ''jadren.toml''"

definition LOCKFILE_FILE :: ustring where "LOCKFILE_FILE = lit ''jadren.lock''"

definition SCHEMA_VERSION :: "32 word" where "SCHEMA_VERSION = 1"

record PackageMetadata =
  pkg_name :: ustring
  pkg_version :: ustring
  pkg_edition :: ustring

record TargetConfig =
  target_library :: bool

datatype DependencySpec = Version ustring | Path ustring

definition requirement :: "DependencySpec \<Rightarrow> ustring option" where
  "requirement d = (case d of Version v \<Rightarrow> Some v | Path _ \<Rightarrow> None)"

definition dep_path :: "DependencySpec \<Rightarrow> ustring option" where
  "dep_path d = (case d of Version _ \<Rightarrow> None | Path v \<Rightarrow> Some v)"

record PackageManifest =
  package :: PackageMetadata
  dependencies :: "(ustring \<times> DependencySpec) list"
  targets :: TargetConfig

datatype ManifestError =
    InvalidLine nat ustring
  | DuplicateKey nat ustring
  | MissingKey ustring ustring
  | InvalidValue nat ustring ustring

definition manifest_error_to_string :: "ManifestError \<Rightarrow> ustring" where
  "manifest_error_to_string e =
     (case e of
        InvalidLine line message \<Rightarrow> lit ''line '' @ nat_to_string line @ lit '': '' @ message
      | DuplicateKey line key \<Rightarrow> lit ''line '' @ nat_to_string line @ lit '': duplicate key `'' @ key @ lit ''`''
      | MissingKey section key \<Rightarrow> lit ''missing `'' @ section @ lit ''.'' @ key @ lit ''`''
      | InvalidValue line key message \<Rightarrow>
          lit ''line '' @ nat_to_string line @ lit '': invalid `'' @ key @ lit ''`: '' @ message)"

subsection \<open>Pieces of a line\<close>

text \<open>\<open>str::lines\<close>: a final line without a newline keeps a trailing carriage return.\<close>

definition strip_cr :: "ustring \<Rightarrow> ustring" where
  "strip_cr s = (if ends_with s [ch_return] then butlast s else s)"

definition str_lines :: "ustring \<Rightarrow> ustring list" where
  "str_lines s =
     (let parts = split_on ch_newline s
      in map strip_cr (butlast parts) @ (if last parts = [] then [] else [last parts]))"

definition split_once :: "uchar \<Rightarrow> ustring \<Rightarrow> (ustring \<times> ustring) option" where
  "split_once c s =
     (case dropWhile (\<lambda>x. x \<noteq> c) s of [] \<Rightarrow> None | _ # rest \<Rightarrow> Some (takeWhile (\<lambda>x. x \<noteq> c) s, rest))"

fun strip_comment_from :: "bool \<Rightarrow> ustring \<Rightarrow> ustring" where
  "strip_comment_from in_string [] = []"
| "strip_comment_from in_string (c # s) =
     (if c = ch_quote then c # strip_comment_from (\<not> in_string) s
      else if c = ch CHR ''#'' \<and> \<not> in_string then []
      else c # strip_comment_from in_string s)"

definition strip_comment :: "ustring \<Rightarrow> ustring" where
  "strip_comment line = strip_comment_from False line"

definition quote_char :: "uchar \<Rightarrow> ustring" where
  "quote_char c =
     (if c = ch_quote then [ch_backslash, ch_quote]
      else if c = ch_backslash then [ch_backslash, ch_backslash]
      else if c = ch_newline then [ch_backslash, ch CHR ''n'']
      else if c = ch_return then [ch_backslash, ch CHR ''r'']
      else if c = ch_tab then [ch_backslash, ch CHR ''t'']
      else [c])"

definition quote :: "ustring \<Rightarrow> ustring" where
  "quote v = [ch_quote] @ concat (map quote_char v) @ [ch_quote]"

definition parse_string :: "ustring \<Rightarrow> nat \<Rightarrow> (ManifestError, ustring) result" where
  "parse_string v line =
     (if str_len v < 2 \<or> \<not> starts_with v [ch_quote] \<or> \<not> ends_with v [ch_quote]
      then Err (InvalidValue line (lit ''string'') (lit ''expected a double-quoted string''))
      else let inner = butlast (tl v) in
        if ch_quote \<in> set inner \<or> ch_newline \<in> set inner \<or> ch_return \<in> set inner
        then Err (InvalidValue line (lit ''string'')
          (lit ''embedded quotes/newlines are not supported in MVP TOML''))
        else Ok inner)"

definition parse_dependency :: "ustring \<Rightarrow> nat \<Rightarrow> (ManifestError, DependencySpec) result" where
  "parse_dependency v line =
     (if starts_with v [ch_quote] then result_bind (parse_string v line) (\<lambda>s. Ok (Version s))
      else if \<not> (starts_with v (lit ''{'') \<and> ends_with v (lit ''}'')) then
        Err (InvalidValue line (lit ''dependency'')
          (lit ''expected a quoted version or `{ path = '' @ [ch_quote] @ lit ''...'' @ [ch_quote] @ lit '' }`''))
      else let body = trim (butlast (tl v)) in
        case split_once (ch CHR ''='') body of
          None \<Rightarrow> Err (InvalidValue line (lit ''dependency'')
            (lit ''path dependency requires `path = '' @ [ch_quote] @ lit ''...'' @ [ch_quote] @ lit ''`''))
        | Some (key, path_value) \<Rightarrow>
            if trim key \<noteq> lit ''path'' then
              Err (InvalidValue line (lit ''dependency'')
                (lit ''unsupported inline dependency key `'' @ trim key @ lit ''`''))
            else result_bind (parse_string (trim path_value) line) (\<lambda>s. Ok (Path s)))"

definition parse_bool :: "ustring \<Rightarrow> nat \<Rightarrow> (ManifestError, bool) result" where
  "parse_bool v line =
     (if v = lit ''true'' then Ok True
      else if v = lit ''false'' then Ok False
      else Err (InvalidValue line (lit ''boolean'') (lit ''expected `true` or `false`'')))"

definition valid_name :: "ustring \<Rightarrow> bool" where
  "valid_name name =
     (case name of
        [] \<Rightarrow> False
      | c # cs \<Rightarrow>
          (is_ascii_alphabetic c \<or> c = ch CHR ''_'') \<and>
          list_all (\<lambda>d. is_ascii_alphanumeric d \<or> d = ch CHR ''_'' \<or> d = ch CHR ''-'') cs)"

definition validate_name :: "ustring \<Rightarrow> nat \<Rightarrow> (ManifestError, unit) result" where
  "validate_name name line =
     (if valid_name name then Ok ()
      else Err (InvalidValue line (lit ''name'')
        (lit ''invalid package/dependency identifier `'' @ name @ lit ''`'')))"

definition valid_version :: "ustring \<Rightarrow> bool" where
  "valid_version version \<longleftrightarrow>
     length (split_on (ch CHR ''.'') version) = 3 \<and>
     list_all (\<lambda>part. part \<noteq> [] \<and> list_all is_ascii_digit part) (split_on (ch CHR ''.'') version)"

definition validate_version :: "ustring \<Rightarrow> nat \<Rightarrow> (ManifestError, unit) result" where
  "validate_version version line =
     (if valid_version version then Ok ()
      else Err (InvalidValue line (lit ''version'') (lit ''expected semantic version `major.minor.patch`'')))"

definition valid_edition :: "ustring \<Rightarrow> bool" where
  "valid_edition edition \<longleftrightarrow> str_len edition = 4 \<and> list_all is_ascii_digit edition"

definition validate_edition :: "ustring \<Rightarrow> nat \<Rightarrow> (ManifestError, unit) result" where
  "validate_edition edition line =
     (if valid_edition edition then Ok ()
      else Err (InvalidValue line (lit ''edition'') (lit ''expected four-digit edition'')))"

definition set_once :: "'a option \<Rightarrow> 'a \<Rightarrow> ustring \<Rightarrow> nat \<Rightarrow> (ManifestError, 'a option) result" where
  "set_once slot v key line = (if slot \<noteq> None then Err (DuplicateKey line key) else Ok (Some v))"

subsection \<open>The parser\<close>

record ParseState =
  section_name :: "ustring option"
  package_name :: "ustring option"
  package_version :: "ustring option"
  package_edition :: "ustring option"
  parsed_dependencies :: "(ustring \<times> DependencySpec) list"
  library :: "bool option"

definition parse_state_new :: ParseState where
  "parse_state_new =
     \<lparr>section_name = None, package_name = None, package_version = None, package_edition = None,
      parsed_dependencies = [], library = None\<rparr>"

definition parse_package_key :: "ParseState \<Rightarrow> ustring \<Rightarrow> ustring \<Rightarrow> nat \<Rightarrow> (ManifestError, ParseState) result" where
  "parse_package_key st key v line =
     (if key = lit ''name'' then
        result_bind (parse_string v line) (\<lambda>s.
        result_bind (set_once (package_name st) s key line) (\<lambda>slot. Ok (st\<lparr>package_name := slot\<rparr>)))
      else if key = lit ''version'' then
        result_bind (parse_string v line) (\<lambda>s.
        result_bind (set_once (package_version st) s key line) (\<lambda>slot. Ok (st\<lparr>package_version := slot\<rparr>)))
      else if key = lit ''edition'' then
        result_bind (parse_string v line) (\<lambda>s.
        result_bind (set_once (package_edition st) s key line) (\<lambda>slot. Ok (st\<lparr>package_edition := slot\<rparr>)))
      else Err (InvalidLine line (lit ''unsupported `[package]` key `'' @ key @ lit ''`'')))"

definition parse_dependency_key :: "ParseState \<Rightarrow> ustring \<Rightarrow> ustring \<Rightarrow> nat \<Rightarrow> (ManifestError, ParseState) result" where
  "parse_dependency_key st key v line =
     result_bind (validate_name key line) (\<lambda>_.
     result_bind (parse_dependency v line) (\<lambda>spec.
       if bt_get (parsed_dependencies st) key \<noteq> None then Err (DuplicateKey line key)
       else Ok (st\<lparr>parsed_dependencies := bt_insert key spec (parsed_dependencies st)\<rparr>)))"

definition parse_target_key :: "ParseState \<Rightarrow> ustring \<Rightarrow> ustring \<Rightarrow> nat \<Rightarrow> (ManifestError, ParseState) result" where
  "parse_target_key st key v line =
     (if key \<noteq> lit ''library'' then
        Err (InvalidLine line (lit ''unsupported `[targets]` key `'' @ key @ lit ''`''))
      else result_bind (parse_bool v line) (\<lambda>b.
        result_bind (set_once (library st) b key line) (\<lambda>slot. Ok (st\<lparr>library := slot\<rparr>))))"

text \<open>
  One line. The section is one of three names, checked where it is set, so that the last arm of the
  source's \<open>match\<close> is never reached; here the third name takes its place.
\<close>

definition parse_line :: "nat \<Rightarrow> ustring \<Rightarrow> ParseState \<Rightarrow> (ManifestError, ParseState) result" where
  "parse_line line_number raw_line st =
     (let line = trim (strip_comment raw_line) in
      if line = [] then Ok st
      else if starts_with line (lit ''['') \<and> ends_with line (lit '']'') then
        (let name = butlast (tl line) in
         if name \<notin> {lit ''package'', lit ''dependencies'', lit ''targets''}
         then Err (InvalidLine line_number (lit ''unsupported section `'' @ name @ lit ''`''))
         else Ok (st\<lparr>section_name := Some name\<rparr>))
      else case split_once (ch CHR ''='') line of
        None \<Rightarrow> Err (InvalidLine line_number (lit ''expected `key = value`''))
      | Some (k, v) \<Rightarrow>
          (let key = trim k; val = trim v in
           case section_name st of
             None \<Rightarrow> Err (InvalidLine line_number (lit ''key appears before a section''))
           | Some section \<Rightarrow>
               if section = lit ''package'' then parse_package_key st key val line_number
               else if section = lit ''dependencies'' then parse_dependency_key st key val line_number
               else parse_target_key st key val line_number))"

fun parse_lines :: "nat \<Rightarrow> ustring list \<Rightarrow> ParseState \<Rightarrow> (ManifestError, ParseState) result" where
  "parse_lines n [] st = Ok st"
| "parse_lines n (l # ls) st = result_bind (parse_line n l st) (\<lambda>st'. parse_lines (n + 1) ls st')"

definition is_empty_spec :: "DependencySpec \<Rightarrow> bool" where
  "is_empty_spec spec \<longleftrightarrow>
     (case requirement spec of Some r \<Rightarrow> trim r = [] | None \<Rightarrow> False) \<or>
     (case dep_path spec of Some p \<Rightarrow> trim p = [] | None \<Rightarrow> False)"

fun check_dependencies :: "(ustring \<times> DependencySpec) list \<Rightarrow> (ManifestError, unit) result" where
  "check_dependencies [] = Ok ()"
| "check_dependencies ((name, spec) # ds) =
     (if is_empty_spec spec
      then Err (InvalidValue 0 name (lit ''dependency requirement must not be empty''))
      else check_dependencies ds)"

definition parse_finish :: "ParseState \<Rightarrow> (ManifestError, PackageManifest) result" where
  "parse_finish st =
     result_bind (ok_or (package_name st) (MissingKey (lit ''package'') (lit ''name''))) (\<lambda>name.
     result_bind (validate_name name 0) (\<lambda>_.
     result_bind (ok_or (package_version st) (MissingKey (lit ''package'') (lit ''version''))) (\<lambda>version.
     result_bind (validate_version version 0) (\<lambda>_.
     result_bind (ok_or (package_edition st) (MissingKey (lit ''package'') (lit ''edition''))) (\<lambda>edition.
     result_bind (validate_edition edition 0) (\<lambda>_.
     result_bind (check_dependencies (parsed_dependencies st)) (\<lambda>_.
       Ok \<lparr>package = \<lparr>pkg_name = name, pkg_version = version, pkg_edition = edition\<rparr>,
           dependencies = parsed_dependencies st,
           targets = \<lparr>target_library = (case library st of Some b \<Rightarrow> b | None \<Rightarrow> True)\<rparr>\<rparr>)))))))"

definition parse :: "ustring \<Rightarrow> (ManifestError, PackageManifest) result" where
  "parse s = result_bind (parse_lines 1 (str_lines s) parse_state_new) parse_finish"

definition starter :: "ustring \<Rightarrow> (ManifestError, PackageManifest) result" where
  "starter name =
     result_bind (validate_name name 0) (\<lambda>_.
       Ok \<lparr>package = \<lparr>pkg_name = name, pkg_version = lit ''0.1.0'', pkg_edition = lit ''2026''\<rparr>,
           dependencies = [], targets = \<lparr>target_library = True\<rparr>\<rparr>)"

subsection \<open>The printer and the lock file\<close>

definition toml_line :: "ustring \<Rightarrow> ustring" where
  "toml_line s = s @ [ch_newline]"

definition package_lines :: "PackageMetadata \<Rightarrow> ustring list" where
  "package_lines p =
     [lit ''[package]'', lit ''name = '' @ quote (pkg_name p), lit ''version = '' @ quote (pkg_version p),
      lit ''edition = '' @ quote (pkg_edition p), []]"

definition dependency_line :: "ustring \<times> DependencySpec \<Rightarrow> ustring" where
  "dependency_line d =
     (case d of
        (name, Version r) \<Rightarrow> name @ lit '' = '' @ quote r
      | (name, Path p) \<Rightarrow> name @ lit '' = { path = '' @ quote p @ lit '' }'')"

definition to_toml :: "PackageManifest \<Rightarrow> ustring" where
  "to_toml m =
     concat (map toml_line
       (package_lines (package m) @
        [lit ''[dependencies]''] @ map dependency_line (dependencies m) @
        [[], lit ''[targets]'',
         lit ''library = '' @ (if target_library (targets m) then lit ''true'' else lit ''false'')]))"

definition manifest_fingerprint :: "PackageManifest \<Rightarrow> Fingerprint" where
  "manifest_fingerprint m = fingerprint_bytes (lit ''jadren-package-manifest-v1'') (as_bytes (to_toml m))"

record LockedDependency =
  locked_name :: ustring
  locked_requirement :: ustring
  locked_source :: ustring

record PackageLockfile =
  lock_version :: "32 word"
  lock_fingerprint :: Fingerprint
  lock_package :: PackageMetadata
  lock_dependencies :: "LockedDependency list"

definition lock_dependency :: "ustring \<times> DependencySpec \<Rightarrow> LockedDependency" where
  "lock_dependency d =
     (case d of (name, spec) \<Rightarrow>
       \<lparr>locked_name = name,
        locked_requirement = (case requirement spec of Some r \<Rightarrow> r | None \<Rightarrow> []),
        locked_source = (case dep_path spec of Some p \<Rightarrow> lit ''path:'' @ p | None \<Rightarrow> lit ''unresolved'')\<rparr>)"

definition from_manifest :: "PackageManifest \<Rightarrow> PackageLockfile" where
  "from_manifest m =
     \<lparr>lock_version = SCHEMA_VERSION, lock_fingerprint = manifest_fingerprint m, lock_package = package m,
      lock_dependencies = map lock_dependency (dependencies m)\<rparr>"

definition lock_to_toml :: "PackageLockfile \<Rightarrow> ustring" where
  "lock_to_toml l =
     concat (map toml_line
       ([lit ''version = '' @ nat_to_string (unat (lock_version l)),
         lit ''manifest_fingerprint = '' @ quote (fingerprint_to_string (lock_fingerprint l)), []] @
        package_lines (lock_package l) @
        concat (map (\<lambda>d. [lit ''[[dependency]]'', lit ''name = '' @ quote (locked_name d),
             lit ''requirement = '' @ quote (locked_requirement d),
             lit ''source = '' @ quote (locked_source d), []]) (lock_dependencies l))))"

subsection \<open>Reading back what is printed\<close>

lemma trim_wrapped:
  assumes "s \<noteq> []" "\<not> is_whitespace (hd s)" "\<not> is_whitespace (last s)"
    and "list_all is_whitespace p" "list_all is_whitespace q"
  shows "trim (p @ s @ q) = s"
proof -
  have "dropWhile is_whitespace (p @ s @ q) = s @ q"
    using assms(1,2,4) by (cases s) (auto simp: dropWhile_append list_all_iff)
  moreover have "dropWhile is_whitespace (rev q @ rev s) = rev s"
    using assms(1,3,5) by (cases "rev s") (auto simp: dropWhile_append list_all_iff hd_rev [symmetric])
  ultimately show ?thesis by (simp add: trim_def trim_start_matches_def trim_end_matches_def)
qed

lemma strip_comment_from_append:
  "ch_quote \<notin> set s \<Longrightarrow> b \<or> ch CHR ''#'' \<notin> set s \<Longrightarrow>
     strip_comment_from b (s @ t) = s @ strip_comment_from b t"
  by (induction s) auto

definition plain :: "ustring \<Rightarrow> bool" where
  "plain v \<longleftrightarrow> set v \<inter> {ch_quote, ch_backslash, ch_newline, ch_return, ch_tab} = {}"

lemma quote_plain: "plain v \<Longrightarrow> quote v = ch_quote # v @ [ch_quote]"
proof -
  assume "plain v"
  then have "concat (map quote_char v) = v"
    by (induction v) (auto simp: plain_def quote_char_def)
  then show ?thesis by (simp add: quote_def)
qed

lemma strip_comment_quoted: "plain v \<Longrightarrow> strip_comment_from False (quote v @ t) = quote v @ strip_comment_from False t"
  using strip_comment_from_append [of v True "ch_quote # t"]
  by (simp add: quote_plain plain_def)

lemma parse_string_quoted: "plain v \<Longrightarrow> parse_string (quote v) n = Ok v"
  by (auto simp: quote_plain parse_string_def ends_with_def Let_def plain_def butlast_append)

text \<open>Characters of a key: none of them means anything to the line parser.\<close>

definition key_char :: "uchar \<Rightarrow> bool" where
  "key_char c \<longleftrightarrow> is_ascii_alphanumeric c \<or> c = ch CHR ''_'' \<or> c = ch CHR ''-''"

lemma valid_name_key: "valid_name k \<Longrightarrow> k \<noteq> [] \<and> list_all key_char k"
  by (cases k) (auto simp: valid_name_def key_char_def is_ascii_alphanumeric_def list_all_iff)

lemma key_char_neq:
  assumes "key_char c"
  shows "\<not> is_whitespace c" "c \<noteq> 34" "c \<noteq> 35" "c \<noteq> 61" "c \<noteq> 91" "c \<noteq> 10" "c \<noteq> 13" "c \<noteq> 92" "c \<noteq> 9"
  using assms by (auto simp: key_char_def char_class_defs)

lemma split_once_append: "c \<notin> set k \<Longrightarrow> split_once c (k @ c # r) = Some (k, r)"
  by (simp add: split_once_def dropWhile_append takeWhile_append)

definition key_value :: "ParseState \<Rightarrow> ustring \<Rightarrow> ustring \<Rightarrow> nat \<Rightarrow> (ManifestError, ParseState) result" where
  "key_value st key v n =
     (case section_name st of
        None \<Rightarrow> Err (InvalidLine n (lit ''key appears before a section''))
      | Some section \<Rightarrow>
          if section = lit ''package'' then parse_package_key st key v n
          else if section = lit ''dependencies'' then parse_dependency_key st key v n
          else parse_target_key st key v n)"

lemma parse_line_key_value:
  assumes k: "k \<noteq> []" "list_all key_char k"
    and v: "v \<noteq> []" "\<not> is_whitespace (hd v)" "\<not> is_whitespace (last v)" "strip_comment_from False v = v"
  shows "parse_line n (k @ lit '' = '' @ v) st = key_value st k v n"
proof -
  have kc: "key_char c" if "c \<in> set k" for c using that k(2) by (simp add: list_all_iff)
  have hk: "key_char (hd k)" "key_char (last k)" using k(1) kc by simp_all
  let ?l = "k @ lit '' = '' @ v"
  have "strip_comment ?l = k @ strip_comment_from False (lit '' = '' @ v)"
    unfolding strip_comment_def using key_char_neq(2,3) [OF kc] by (intro strip_comment_from_append) auto
  then have sc: "strip_comment ?l = ?l" using v(4) by simp
  have "trim ([] @ ?l @ []) = ?l"
    using k v key_char_neq(1) [OF hk(1)] by (intro trim_wrapped) auto
  then have tr: "trim (strip_comment ?l) = ?l" by (simp only: sc append_Nil append_Nil2)
  have sec: "\<not> starts_with ?l (lit ''['')" "?l \<noteq> []"
    using k(1) key_char_neq(5) [OF hk(1)] by (cases k; simp)+
  have "ch CHR ''='' \<notin> set (k @ lit '' '')" using key_char_neq(4) [OF kc] by auto
  from split_once_append [OF this, of "lit '' '' @ v"]
  have sp: "split_once (ch CHR ''='') ?l = Some (k @ lit '' '', lit '' '' @ v)" by simp
  have t1: "trim (k @ lit '' '') = k"
    using trim_wrapped [of k "[]" "lit '' ''"] k key_char_neq(1) [OF hk(1)] key_char_neq(1) [OF hk(2)]
    by (simp add: is_whitespace_def)
  have t2: "trim (lit '' '' @ v) = v"
    using trim_wrapped [of v "lit '' ''" "[]"] v by (simp add: is_whitespace_def)
  show ?thesis
    unfolding parse_line_def tr Let_def using sec
    by (simp only: sp t1 t2 key_value_def if_False simp_thms option.case prod.case)
qed

lemma key_value_plain:
  assumes "k \<noteq> []" "list_all key_char k" "plain v"
  shows "parse_line n (k @ lit '' = '' @ quote v) st = key_value st k (quote v) n"
  using assms(1,2)
proof (rule parse_line_key_value)
  show "strip_comment_from False (quote v) = quote v"
    using strip_comment_quoted [OF assms(3), of "[]"] by simp
qed (use assms(3) in \<open>simp_all add: quote_plain is_whitespace_def\<close>)

lemma split_on_lines:
  "\<forall>l \<in> set ls. ch_newline \<notin> set l \<Longrightarrow> split_on ch_newline (concat (map toml_line ls)) = ls @ [[]]"
  by (induction ls) (auto simp: toml_line_def split_on_append)

lemma str_lines_toml:
  assumes "\<forall>l \<in> set ls. ch_newline \<notin> set l \<and> ch_return \<notin> set l"
  shows "str_lines (concat (map toml_line ls)) = ls"
proof -
  have "split_on ch_newline (concat (map toml_line ls)) = ls @ [[]]"
    using assms by (intro split_on_lines) blast
  moreover have "map strip_cr ls = ls"
    using assms by (intro map_idI) (auto simp: strip_cr_def ends_with_iff)
  ultimately show ?thesis by (simp add: str_lines_def Let_def)
qed

definition spec_text :: "DependencySpec \<Rightarrow> ustring" where
  "spec_text d = (case d of Version v \<Rightarrow> v | Path p \<Rightarrow> p)"

text \<open>What the parser guarantees of a manifest.\<close>

definition manifest_ok :: "PackageManifest \<Rightarrow> bool" where
  "manifest_ok m \<longleftrightarrow>
     valid_name (pkg_name (package m)) \<and> valid_version (pkg_version (package m)) \<and>
     valid_edition (pkg_edition (package m)) \<and> bt_ok (dependencies m) \<and>
     list_all (\<lambda>(k, d). valid_name k \<and> \<not> is_empty_spec d \<and>
       set (spec_text d) \<inter> {ch_quote, ch_newline, ch_return} = {}) (dependencies m)"

lemma plainI: "(\<And>c. c \<in> set v \<Longrightarrow> c \<notin> {ch_quote, ch_backslash, ch_newline, ch_return, ch_tab}) \<Longrightarrow> plain v"
  unfolding plain_def by blast

lemma plain_key: "list_all key_char k \<Longrightarrow> plain k"
  by (rule plainI) (auto simp: list_all_iff dest!: bspec dest: key_char_neq)

lemma plain_name: "valid_name k \<Longrightarrow> plain k"
  using valid_name_key plain_key by blast

lemma plain_digits: "list_all is_ascii_digit v \<Longrightarrow> plain v"
  by (auto simp: plain_def list_all_iff is_ascii_digit_def)

lemma plain_version:
  assumes "valid_version v"
  shows "plain v"
proof -
  have "c = ch CHR ''.'' \<or> is_ascii_digit c" if "c \<in> set v" for c
  proof -
    have "c \<in> set (join_with (ch CHR ''.'') (split_on (ch CHR ''.'') v))" using that by simp
    with set_join_with [of "ch CHR ''.''" "split_on (ch CHR ''.'') v"] assms show ?thesis
      by (fastforce simp: valid_version_def list_all_iff)
  qed
  then show ?thesis by (intro plainI) (fastforce simp: is_ascii_digit_def)
qed

subsection \<open>The dependency lines\<close>

lemma parse_dependency_printed:
  assumes "plain (spec_text d)"
  shows "parse_dependency (case d of Version r \<Rightarrow> quote r | Path p \<Rightarrow> lit ''{ path = '' @ quote p @ lit '' }'') n = Ok d"
proof (cases d)
  case (Version r)
  with assms show ?thesis
    by (simp add: spec_text_def parse_dependency_def parse_string_quoted) (simp add: quote_plain)
next
  case (Path p)
  then have q: "plain p" using assms by (simp add: spec_text_def)
  let ?body = "lit ''path = '' @ quote p"
  have "trim (lit '' '' @ ?body @ lit '' '') = ?body"
    using q by (intro trim_wrapped) (simp_all add: quote_plain is_whitespace_def)
  then have tr: "trim (butlast (tl (lit ''{ path = '' @ quote p @ lit '' }''))) = ?body"
    by (simp add: butlast_append)
  have sp: "split_once (ch CHR ''='') ?body = Some (lit ''path '', lit '' '' @ quote p)"
    using split_once_append [of "ch CHR ''=''" "lit ''path ''" "lit '' '' @ quote p"] by simp
  have t1: "trim (lit ''path '') = lit ''path''"
    using trim_wrapped [of "lit ''path''" "[]" "lit '' ''"] by (simp add: is_whitespace_def)
  have t2: "trim (lit '' '' @ quote p) = quote p"
    using trim_wrapped [of "quote p" "lit '' ''" "[]"] q by (simp add: quote_plain is_whitespace_def)
  have "starts_with (lit ''{ path = '' @ quote p @ lit '' }'') (lit ''{'')"
    "\<not> starts_with (lit ''{ path = '' @ quote p @ lit '' }'') [ch_quote]"
    "ends_with (lit ''{ path = '' @ quote p @ lit '' }'') (lit ''}'')" by (simp_all add: ends_with_def)
  with tr sp t1 t2 parse_string_quoted [OF q] Path show ?thesis
    unfolding parse_dependency_def by (simp only: DependencySpec.case Let_def if_False if_True simp_thms
        option.case prod.case result_bind_Ok)
qed

lemma parse_dependency_line:
  assumes "valid_name k" "plain (spec_text d)" "section_name st = Some (lit ''dependencies'')"
    and "\<forall>x \<in> set (parsed_dependencies st). fst x < k"
  shows "parse_line n (dependency_line (k, d)) st =
    Ok (st\<lparr>parsed_dependencies := parsed_dependencies st @ [(k, d)]\<rparr>)"
proof -
  let ?v = "case d of Version r \<Rightarrow> quote r | Path p \<Rightarrow> lit ''{ path = '' @ quote p @ lit '' }''"
  have v: "?v \<noteq> []" "\<not> is_whitespace (hd ?v)" "\<not> is_whitespace (last ?v)" "strip_comment_from False ?v = ?v"
    using assms(2) strip_comment_quoted [of "spec_text d" "[]"] strip_comment_quoted [of "spec_text d" "lit '' }''"]
    by (cases d; simp add: spec_text_def quote_plain is_whitespace_def)+
  have "parse_line n (k @ lit '' = '' @ ?v) st = key_value st k ?v n"
    using valid_name_key [OF assms(1)] v by (intro parse_line_key_value) simp_all
  moreover have "k @ lit '' = '' @ ?v = dependency_line (k, d)"
    by (cases d) (simp_all add: dependency_line_def)
  moreover have "bt_get (parsed_dependencies st) k = None"
    using assms(4) by (auto simp: bt_get_None)
  ultimately show ?thesis
    using assms(1,3) parse_dependency_printed [OF assms(2), of n] bt_insert_last [OF assms(4)]
    by (simp add: key_value_def parse_dependency_key_def validate_name_def)
qed

lemma parse_dependency_lines:
  assumes "bt_ok (parsed_dependencies st @ ds)" "section_name st = Some (lit ''dependencies'')"
    and "list_all (\<lambda>(k, d). valid_name k \<and> plain (spec_text d)) ds"
  shows "parse_lines n (map dependency_line ds @ ls) st =
    parse_lines (n + length ds) ls (st\<lparr>parsed_dependencies := parsed_dependencies st @ ds\<rparr>)"
  using assms
proof (induction ds arbitrary: st n)
  case (Cons x ds)
  obtain k d where x: "x = (k, d)" by (cases x)
  have "\<forall>y \<in> set (parsed_dependencies st). fst y < k"
    using Cons.prems(1) x by (auto simp: bt_ok_def sorted_wrt_append)
  with Cons.prems x have "parse_line n (dependency_line x) st =
      Ok (st\<lparr>parsed_dependencies := parsed_dependencies st @ [x]\<rparr>)"
    by (simp add: parse_dependency_line)
  with Cons show ?case by simp
qed simp

subsection \<open>The whole manifest\<close>

lemma parse_lines_append:
  "parse_lines n (xs @ ys) st = result_bind (parse_lines n xs st) (\<lambda>st'. parse_lines (n + length xs) ys st')"
proof (induction xs arbitrary: n st)
  case (Cons x xs)
  show ?case by (cases "parse_line n x st") (simp_all add: Cons)
qed simp

lemma parse_line_empty: "parse_line n [] st = Ok st"
  by (simp add: parse_line_def strip_comment_def trim_def trim_start_matches_def trim_end_matches_def)

lemma parse_line_section:
  assumes "name \<in> {lit ''package'', lit ''dependencies'', lit ''targets''}"
  shows "parse_line n (lit ''['' @ name @ lit '']'') st = Ok (st\<lparr>section_name := Some name\<rparr>)"
proof -
  let ?l = "lit ''['' @ name @ lit '']''"
  have "strip_comment ?l = ?l" using assms by (auto simp: strip_comment_def)
  moreover have "trim ([] @ ?l @ []) = ?l" by (intro trim_wrapped) (simp_all add: is_whitespace_def)
  ultimately have tr: "trim (strip_comment ?l) = ?l" by simp
  have "starts_with ?l (lit ''['')" "ends_with ?l (lit '']'')" "?l \<noteq> []" "butlast (tl ?l) = name"
    by (simp_all add: ends_with_def)
  with assms show ?thesis unfolding parse_line_def tr Let_def by (simp only: if_False if_True simp_thms)
qed

lemma parse_package_line:
  assumes "section_name st = Some (lit ''package'')" "plain v"
  shows "package_name st = None \<Longrightarrow>
      parse_line n (lit ''name = '' @ quote v) st = Ok (st\<lparr>package_name := Some v\<rparr>)"
    and "package_version st = None \<Longrightarrow>
      parse_line n (lit ''version = '' @ quote v) st = Ok (st\<lparr>package_version := Some v\<rparr>)"
    and "package_edition st = None \<Longrightarrow>
      parse_line n (lit ''edition = '' @ quote v) st = Ok (st\<lparr>package_edition := Some v\<rparr>)"
proof -
  have key: "list_all key_char (lit ''name'')" "list_all key_char (lit ''version'')" "list_all key_char (lit ''edition'')"
    by (simp_all add: key_char_def char_class_defs)
  note kv = key_value_plain [OF _ key(1) assms(2)] key_value_plain [OF _ key(2) assms(2)]
    key_value_plain [OF _ key(3) assms(2)]
  note defs = key_value_def parse_package_key_def parse_string_quoted [OF assms(2)] set_once_def assms(1)
  show "parse_line n (lit ''name = '' @ quote v) st = Ok (st\<lparr>package_name := Some v\<rparr>)" if "package_name st = None"
    using kv(1) that by (simp add: defs)
  show "parse_line n (lit ''version = '' @ quote v) st = Ok (st\<lparr>package_version := Some v\<rparr>)" if "package_version st = None"
    using kv(2) that by (simp add: defs)
  show "parse_line n (lit ''edition = '' @ quote v) st = Ok (st\<lparr>package_edition := Some v\<rparr>)" if "package_edition st = None"
    using kv(3) that by (simp add: defs)
qed

lemma parse_package_lines:
  assumes "plain (pkg_name p)" "plain (pkg_version p)" "plain (pkg_edition p)"
  shows "parse_lines n (package_lines p @ ls) parse_state_new =
    parse_lines (n + 5) ls
      \<lparr>section_name = Some (lit ''package''), package_name = Some (pkg_name p), package_version = Some (pkg_version p),
       package_edition = Some (pkg_edition p), parsed_dependencies = [], library = None\<rparr>"
proof -
  have sec: "parse_line n (lit ''[package]'') st = Ok (st\<lparr>section_name := Some (lit ''package'')\<rparr>)" for n st
    using parse_line_section [of "lit ''package''" n st] by simp
  have five: "n + 1 + 1 + 1 + 1 + 1 = n + 5" by simp
  show ?thesis
    using assms
    by (simp add: package_lines_def sec parse_package_line parse_line_empty parse_state_new_def five del: lit_simps add_2_eq_Suc' One_nat_def)
qed

lemma parse_target_line:
  assumes "section_name st = Some (lit ''targets'')" "library st = None"
  shows "parse_line n (lit ''library = '' @ (if b then lit ''true'' else lit ''false'')) st = Ok (st\<lparr>library := Some b\<rparr>)"
proof -
  let ?v = "if b then lit ''true'' else lit ''false''"
  have "parse_line n (lit ''library'' @ lit '' = '' @ ?v) st = key_value st (lit ''library'') ?v n"
    by (intro parse_line_key_value) (auto simp: key_char_def char_class_defs)
  then show ?thesis
    using assms by (cases b) (simp_all add: key_value_def parse_target_key_def parse_bool_def set_once_def)
qed

lemma check_dependencies_Ok:
  "check_dependencies ds = Ok () \<longleftrightarrow> list_all (\<lambda>(k, d). \<not> is_empty_spec d) ds"
  by (induction ds rule: check_dependencies.induct) auto

lemma to_toml_lines:
  assumes "manifest_ok m"
  shows "str_lines (to_toml m) =
    package_lines (package m) @ [lit ''[dependencies]''] @ map dependency_line (dependencies m) @
    [[], lit ''[targets]'', lit ''library = '' @ (if target_library (targets m) then lit ''true'' else lit ''false'')]"
proof -
  have q: "ch_newline \<notin> set (quote v) \<and> ch_return \<notin> set (quote v)" for v
    by (auto simp: quote_def quote_char_def split: if_splits)
  have pl: "plain k" if "(k, d) \<in> set (dependencies m)" for k d
    using assms that plain_name by (auto simp: manifest_ok_def list_all_iff)
  have dl: "ch_newline \<notin> set (dependency_line x) \<and> ch_return \<notin> set (dependency_line x)"
    if "x \<in> set (dependencies m)" for x
    using pl [of "fst x" "snd x"] that q by (cases x; cases "snd x") (auto simp: dependency_line_def plain_def)
  show ?thesis
    unfolding to_toml_def using q dl by (intro str_lines_toml) (auto simp: package_lines_def)
qed

definition parse_state_ok :: "ParseState \<Rightarrow> bool" where
  "parse_state_ok st \<longleftrightarrow>
     (case section_name st of None \<Rightarrow> True
        | Some name \<Rightarrow> name \<in> {lit ''package'', lit ''dependencies'', lit ''targets''}) \<and>
     bt_ok (parsed_dependencies st) \<and>
     (\<forall>(k, d) \<in> set (parsed_dependencies st). valid_name k \<and> set (spec_text d) \<inter> {ch_quote, ch_newline, ch_return} = {})"

lemma parse_string_Ok: "parse_string v n = Ok w \<Longrightarrow> set w \<inter> {ch_quote, ch_newline, ch_return} = {}"
  by (auto simp: parse_string_def Let_def split: if_splits)

lemma parse_dependency_Ok:
  "parse_dependency v n = Ok d \<Longrightarrow> set (spec_text d) \<inter> {ch_quote, ch_newline, ch_return} = {}"
  by (auto simp: parse_dependency_def Let_def result_bind_eq_Ok spec_text_def split: if_splits option.splits
      dest!: parse_string_Ok)

lemma parse_dependency_key_ok:
  assumes "parse_dependency_key st key v n = Ok st'" "parse_state_ok st"
  shows "parse_state_ok st'"
proof -
  from assms(1) obtain d where d: "valid_name key" "parse_dependency v n = Ok d"
    "st' = st\<lparr>parsed_dependencies := bt_insert key d (parsed_dependencies st)\<rparr>"
    by (auto simp: parse_dependency_key_def result_bind_eq_Ok validate_name_def split: if_splits)
  with assms(2) parse_dependency_Ok [OF d(2)] set_bt_insert [of key d "parsed_dependencies st"] show ?thesis
    by (auto simp: parse_state_ok_def bt_ok_insert)
qed

lemma parse_package_key_ok:
  "parse_package_key st key v n = Ok st' \<Longrightarrow> parse_state_ok st \<Longrightarrow> parse_state_ok st'"
  by (auto simp: parse_package_key_def result_bind_eq_Ok parse_state_ok_def split: if_splits)

lemma parse_target_key_ok:
  "parse_target_key st key v n = Ok st' \<Longrightarrow> parse_state_ok st \<Longrightarrow> parse_state_ok st'"
  by (auto simp: parse_target_key_def result_bind_eq_Ok parse_state_ok_def split: if_splits)

lemma parse_line_ok: "parse_line n l st = Ok st' \<Longrightarrow> parse_state_ok st \<Longrightarrow> parse_state_ok st'"
  unfolding parse_line_def Let_def
  by (auto split: if_splits option.splits simp del: lit_simps
      elim: parse_dependency_key_ok parse_package_key_ok parse_target_key_ok)
    (auto simp: parse_state_ok_def)

lemma parse_lines_ok: "parse_lines n ls st = Ok st' \<Longrightarrow> parse_state_ok st \<Longrightarrow> parse_state_ok st'"
  by (induction n ls st rule: parse_lines.induct) (auto simp: result_bind_eq_Ok dest: parse_line_ok)

subsection \<open>Properties\<close>

text \<open>
  C39. What is printed is read back: parsing the canonical text of a well-formed manifest whose dependency
  strings hold no backslash and no tab gives the manifest again.
\<close>

theorem parse_to_toml:
  assumes "manifest_ok m"
    and "list_all (\<lambda>(k, d). ch_backslash \<notin> set (spec_text d) \<and> ch_tab \<notin> set (spec_text d)) (dependencies m)"
  shows "parse (to_toml m) = Ok m"
proof -
  obtain p ds t where m: "m = \<lparr>package = p, dependencies = ds, targets = t\<rparr>" by (cases m) auto
  obtain b where t: "t = \<lparr>target_library = b\<rparr>" by (cases t) auto
  note mo = assms(1) [unfolded manifest_ok_def m PackageManifest.simps]
  have p: "plain (pkg_name p)" "plain (pkg_version p)" "plain (pkg_edition p)"
    using mo plain_name plain_version plain_digits by (auto simp: valid_edition_def)
  have ds: "list_all (\<lambda>(k, d). valid_name k \<and> plain (spec_text d)) ds"
    using mo assms(2) m by (fastforce simp: list_all_iff plain_def)
  let ?st = "\<lparr>section_name = Some (lit ''dependencies''), package_name = Some (pkg_name p), package_version = Some (pkg_version p),
       package_edition = Some (pkg_edition p), parsed_dependencies = [], library = None\<rparr>"
  have sec: "parse_line n (lit ''[dependencies]'') st = Ok (st\<lparr>section_name := Some (lit ''dependencies'')\<rparr>)"
    "parse_line n (lit ''[targets]'') st = Ok (st\<lparr>section_name := Some (lit ''targets'')\<rparr>)" for n st
    using parse_line_section [of "lit ''dependencies''" n st] parse_line_section [of "lit ''targets''" n st] by simp_all
  have "parse_lines 1 (str_lines (to_toml m)) parse_state_new =
      Ok (?st\<lparr>parsed_dependencies := ds, section_name := Some (lit ''targets''), library := Some b\<rparr>)"
    unfolding to_toml_lines [OF assms(1)]
    using mo ds sec p parse_dependency_lines [of ?st ds] parse_target_line [of "?st\<lparr>parsed_dependencies := ds, section_name := Some (lit ''targets'')\<rparr>"]
    by (simp add: m t parse_package_lines parse_line_empty)
  moreover have "check_dependencies ds = Ok ()"
    using mo by (auto simp: check_dependencies_Ok list_all_iff)
  ultimately show ?thesis
    using mo by (simp add: parse_def parse_finish_def m t validate_name_def validate_version_def validate_edition_def)
qed

theorem parse_to_toml_witness:
  "\<exists>m. starter (lit ''demo'') = Ok m \<and> parse (to_toml m) = Ok m"
proof -
  let ?m = "\<lparr>package = \<lparr>pkg_name = lit ''demo'', pkg_version = lit ''0.1.0'', pkg_edition = lit ''2026''\<rparr>,
     dependencies = [], targets = \<lparr>target_library = True\<rparr>\<rparr>"
  have "starter (lit ''demo'') = Ok ?m" "manifest_ok ?m" by code_simp+
  with parse_to_toml [of ?m] show ?thesis by simp
qed

text \<open>
  C40. Everything the parser accepts is well formed: name, version and edition pass their validators, the
  dependencies are in ascending order of valid names, each with a non-empty specification that
  holds no quote and no line end.
\<close>

theorem parse_manifest_ok:
  assumes "parse s = Ok m"
  shows "manifest_ok m"
proof -
  obtain st where st: "parse_lines 1 (str_lines s) parse_state_new = Ok st" "parse_finish st = Ok m"
    using assms by (auto simp: parse_def result_bind_eq_Ok)
  have "parse_state_ok parse_state_new" by (simp add: parse_state_ok_def parse_state_new_def)
  from parse_lines_ok [OF st(1) this] st(2) show ?thesis
    by (auto simp: parse_finish_def result_bind_eq_Ok ok_or_eq_Ok manifest_ok_def parse_state_ok_def
        validate_name_def validate_version_def validate_edition_def check_dependencies_Ok list_all_iff split: if_splits)
qed

theorem parse_manifest_ok_witness:
  "\<exists>m. parse (to_toml \<lparr>package = \<lparr>pkg_name = lit ''a'', pkg_version = lit ''0.1.0'', pkg_edition = lit ''2026''\<rparr>,
     dependencies = [(lit ''b'', Version (lit ''1''))], targets = \<lparr>target_library = False\<rparr>\<rparr>) = Ok m \<and> manifest_ok m"
proof -
  let ?t = "to_toml \<lparr>package = \<lparr>pkg_name = lit ''a'', pkg_version = lit ''0.1.0'', pkg_edition = lit ''2026''\<rparr>,
     dependencies = [(lit ''b'', Version (lit ''1''))], targets = \<lparr>target_library = False\<rparr>\<rparr>"
  have "case parse ?t of Inl e \<Rightarrow> False | Inr m \<Rightarrow> True" by code_simp
  then obtain m where m: "parse ?t = Ok m" by (auto split: sum.splits)
  with parse_manifest_ok [OF m] show ?thesis by blast
qed

text \<open>
  The printer and the parser disagree on backslashes: the printer doubles a backslash, the parser
  keeps both, so a path dependency written with one comes back changed.
\<close>

theorem to_toml_backslash:
  "parse (to_toml \<lparr>package = \<lparr>pkg_name = lit ''a'', pkg_version = lit ''0.1.0'', pkg_edition = lit ''2026''\<rparr>,
       dependencies = [(lit ''b'', Path (lit ''..'' @ [ch_backslash] @ lit ''b''))], targets = \<lparr>target_library = True\<rparr>\<rparr>) =
   Ok \<lparr>package = \<lparr>pkg_name = lit ''a'', pkg_version = lit ''0.1.0'', pkg_edition = lit ''2026''\<rparr>,
       dependencies = [(lit ''b'', Path (lit ''..'' @ [ch_backslash, ch_backslash] @ lit ''b''))], targets = \<lparr>target_library = True\<rparr>\<rparr>"
  by code_simp

end
