(* ===== verification/Resolver.thy ===== *)
theory Resolver
  imports Manifest
begin

text \<open>
  The local path resolver of \<open>jadren-package\<close>. The file system and the platform's path operations are
  parameters, a record of functions; the recursion of \<open>visit\<close> follows the dependencies found on disk
  and is bounded by fuel, with \<open>None\<close> for running out of it. When the package names found on disk are
  finitely many, their number is enough fuel.
\<close>

subsection \<open>Parameters and data\<close>

datatype FileKind = IsDir | IsFile | IsOther

record 'p FileSystem =
  fs_metadata :: "'p \<Rightarrow> (ustring, FileKind) result"
  fs_canonicalize :: "'p \<Rightarrow> (ustring, 'p) result"
  fs_read :: "'p \<Rightarrow> (ustring, ustring) result"
  path_join :: "'p \<Rightarrow> ustring \<Rightarrow> 'p"
  path_parent :: "'p \<Rightarrow> 'p option"
  path_new :: "ustring \<Rightarrow> 'p"

record 'p LocalPackage =
  manifest_path :: 'p
  manifest :: PackageManifest

record 'p LocalResolution =
  root :: "'p LocalPackage"
  resolved :: "'p LocalPackage list"

definition packages_of :: "'p LocalResolution \<Rightarrow> 'p LocalPackage list" where
  "packages_of r = root r # resolved r"

datatype 'p ResolutionError =
    ManifestFailure 'p ustring
  | UnresolvedVersion ustring ustring
  | NameMismatch ustring ustring ustring 'p
  | DuplicatePackage ustring 'p 'p
  | Cycle "ustring list"

record 'p LocalResolver =
  packages :: "(ustring \<times> 'p LocalPackage) list"
  paths :: "(ustring \<times> 'p) list"
  visiting :: "ustring list"

definition map_err :: "('e \<Rightarrow> 'f) \<Rightarrow> ('e, 'a) result \<Rightarrow> ('f, 'a) result" where
  "map_err f r = (case r of Inl e \<Rightarrow> Err (f e) | Inr a \<Rightarrow> Ok a)"

lemma map_err_eq_Ok [simp]: "map_err f r = Ok a \<longleftrightarrow> r = Ok a"
  by (cases r) (simp_all add: map_err_def)

subsection \<open>The resolver\<close>

definition find_manifest :: "'p FileSystem \<Rightarrow> 'p \<Rightarrow> (ustring, 'p) result" where
  "find_manifest fs p =
     result_bind (fs_metadata fs p) (\<lambda>k.
       case k of
         IsDir \<Rightarrow> Ok (path_join fs p MANIFEST_FILE)
       | IsFile \<Rightarrow> Ok p
       | IsOther \<Rightarrow> Err (lit ''path is not a file or directory''))"

text \<open>The part of \<open>visit\<close> that reads and parses one manifest.\<close>

definition load_manifest :: "'p FileSystem \<Rightarrow> 'p \<Rightarrow> ('p ResolutionError, 'p \<times> PackageManifest) result" where
  "load_manifest fs p =
     result_bind (map_err (ManifestFailure p) (find_manifest fs p)) (\<lambda>input.
     result_bind (map_err (ManifestFailure input) (fs_canonicalize fs input)) (\<lambda>mp.
     result_bind (map_err (ManifestFailure mp) (fs_read fs mp)) (\<lambda>content.
     result_bind (map_err (\<lambda>e. ManifestFailure mp (manifest_error_to_string e)) (parse content)) (\<lambda>m.
       Ok (mp, m)))))"

text \<open>\<open>self.visiting.iter().position(..)\<close> and the cycle reported from there.\<close>

definition cycle_from :: "ustring list \<Rightarrow> ustring \<Rightarrow> ustring list" where
  "cycle_from names name = dropWhile (\<lambda>n. n \<noteq> name) names @ [name]"

definition dependency_dir :: "'p FileSystem \<Rightarrow> 'p \<Rightarrow> ustring \<Rightarrow> 'p" where
  "dependency_dir fs mp relative =
     path_join fs (case path_parent fs mp of Some d \<Rightarrow> d | None \<Rightarrow> path_new fs (lit ''.'')) relative"

fun visit :: "nat \<Rightarrow> 'p FileSystem \<Rightarrow> 'p LocalResolver \<Rightarrow> 'p \<Rightarrow> ustring option \<Rightarrow>
    ('p ResolutionError, ustring \<times> 'p LocalResolver) result option"
and visit_deps :: "nat \<Rightarrow> 'p FileSystem \<Rightarrow> 'p \<Rightarrow> ustring \<Rightarrow> (ustring \<times> DependencySpec) list \<Rightarrow> 'p LocalResolver \<Rightarrow>
    ('p ResolutionError, 'p LocalResolver) result option" where
  "visit 0 fs r p expected = None"
| "visit (Suc fuel) fs r p expected =
     (case load_manifest fs p of
        Inl e \<Rightarrow> Some (Err e)
      | Inr (mp, m) \<Rightarrow>
          (let name = pkg_name (package m) in
           if (case expected of Some x \<Rightarrow> x \<noteq> name | None \<Rightarrow> False)
           then Some (Err (NameMismatch (the expected) (the expected) name mp))
           else if name \<in> set (visiting r) then Some (Err (Cycle (cycle_from (visiting r) name)))
           else case bt_get (paths r) name of
             Some existing \<Rightarrow>
               if existing \<noteq> mp then Some (Err (DuplicatePackage name existing mp)) else Some (Ok (name, r))
           | None \<Rightarrow>
               (case visit_deps fuel fs mp name (dependencies m)
                  (r\<lparr>visiting := visiting r @ [name], paths := bt_insert name mp (paths r)\<rparr>) of
                  None \<Rightarrow> None
                | Some (Inl e) \<Rightarrow> Some (Err e)
                | Some (Inr r') \<Rightarrow>
                    Some (Ok (name,
                      r'\<lparr>visiting := butlast (visiting r'),
                         packages := bt_insert name \<lparr>manifest_path = mp, manifest = m\<rparr> (packages r')\<rparr>)))))"
| "visit_deps fuel fs mp name [] r = Some (Ok r)"
| "visit_deps fuel fs mp name ((d, spec) # ds) r =
     (case spec of
        Version _ \<Rightarrow> Some (Err (UnresolvedVersion name d))
      | Path relative \<Rightarrow>
          (case visit fuel fs r (dependency_dir fs mp relative) (Some d) of
             None \<Rightarrow> None
           | Some (Inl e) \<Rightarrow> Some (Err e)
           | Some (Inr (_, r')) \<Rightarrow> visit_deps fuel fs mp name ds r'))"

definition resolver_new :: "'p LocalResolver" where
  "resolver_new = \<lparr>packages = [], paths = [], visiting = []\<rparr>"

definition resolve_local :: "nat \<Rightarrow> 'p FileSystem \<Rightarrow> 'p \<Rightarrow> ('p ResolutionError, 'p LocalResolution) result option" where
  "resolve_local fuel fs p =
     (case map_err (ManifestFailure p) (find_manifest fs p) of
        Inl e \<Rightarrow> Some (Err e)
      | Inr root_manifest \<Rightarrow>
          (case visit fuel fs resolver_new root_manifest None of
             None \<Rightarrow> None
           | Some (Inl e) \<Rightarrow> Some (Err e)
           | Some (Inr (root_name, r)) \<Rightarrow>
               (case bt_get (packages r) root_name of
                  None \<Rightarrow> None
                | Some rt \<Rightarrow>
                    Some (Ok \<lparr>root = rt,
                      resolved = map snd (filter (\<lambda>(n, _). n \<noteq> root_name) (packages r))\<rparr>))))"

subsection \<open>The resolver returns\<close>

abbreviation keys :: "('k \<times> 'v) list \<Rightarrow> 'k set" where
  "keys m \<equiv> fst ` set m"

definition names_on_disk :: "'p FileSystem \<Rightarrow> ustring set" where
  "names_on_disk fs = {pkg_name (package m) | p content m. fs_read fs p = Ok content \<and> parse content = Ok m}"

lemma load_manifest_Ok:
  "load_manifest fs p = Ok (mp, m) \<Longrightarrow> \<exists>content. fs_read fs mp = Ok content \<and> parse content = Ok m"
  by (auto simp: load_manifest_def result_bind_eq_Ok)

abbreviation enter :: "'p LocalResolver \<Rightarrow> ustring \<Rightarrow> 'p \<Rightarrow> 'p LocalResolver" where
  "enter r name mp \<equiv> r\<lparr>visiting := visiting r @ [name], paths := bt_insert name mp (paths r)\<rparr>"

abbreviation leave :: "'p LocalResolver \<Rightarrow> ustring \<Rightarrow> 'p \<Rightarrow> PackageManifest \<Rightarrow> 'p LocalResolver" where
  "leave r name mp m \<equiv>
     r\<lparr>visiting := butlast (visiting r),
       packages := bt_insert name \<lparr>manifest_path = mp, manifest = m\<rparr> (packages r)\<rparr>"

text \<open>The two ways a visit succeeds: the package is known, or its dependencies are visited first.\<close>

lemma visit_OkE:
  assumes "visit (Suc fuel) fs r p e = Some (Ok (n, r'))"
  obtains mp m where "load_manifest fs p = Ok (mp, m)" "n = pkg_name (package m)"
      "e = None \<or> e = Some n" "n \<notin> set (visiting r)" "bt_get (paths r) n = Some mp" "r' = r"
  | mp m r1 where "load_manifest fs p = Ok (mp, m)" "n = pkg_name (package m)"
      "e = None \<or> e = Some n" "n \<notin> set (visiting r)" "bt_get (paths r) n = None"
      "visit_deps fuel fs mp n (dependencies m) (enter r n mp) = Some (Ok r1)" "r' = leave r1 n mp m"
proof (cases "load_manifest fs p")
  case (Inr mm)
  obtain mp m where mm: "mm = (mp, m)" by (cases mm)
  let ?name = "pkg_name (package m)"
  have ex: "e = None \<or> e = Some ?name" and nv: "?name \<notin> set (visiting r)"
    using assms Inr mm by (auto simp: Let_def split: if_splits option.splits)
  show ?thesis
  proof (cases "bt_get (paths r) ?name")
    case (Some q)
    with assms Inr mm ex nv have "q = mp" "n = ?name" "r' = r"
      by (auto simp: Let_def split: if_splits option.splits)
    with that(1) Inr mm ex nv Some show ?thesis by blast
  next
    case None
    with assms Inr mm ex nv obtain r1 where "visit_deps fuel fs mp ?name (dependencies m) (enter r ?name mp) = Some (Ok r1)"
      "n = ?name" "r' = leave r1 ?name mp m"
      by (auto simp: Let_def split: if_splits option.splits sum.splits)
    with that(2) Inr mm ex nv None show ?thesis by blast
  qed
qed (use assms in simp)

lemma visit_deps_OkE:
  assumes "visit_deps fuel fs mp name ((d, spec) # ds) r = Some (Ok r'')"
  obtains relative n r' where "spec = Path relative"
    "visit fuel fs r (dependency_dir fs mp relative) (Some d) = Some (Ok (n, r'))"
    "visit_deps fuel fs mp name ds r' = Some (Ok r'')"
  using assms that by (auto split: DependencySpec.splits option.splits sum.splits)

lemma visit_deps_paths:
  assumes v: "\<And>r p e n r'. visit fuel fs r p e = Some (Ok (n, r')) \<Longrightarrow> keys (paths r) \<subseteq> keys (paths r')"
    and "visit_deps fuel fs mp name ds r = Some (Ok r'')"
  shows "keys (paths r) \<subseteq> keys (paths r'')"
  using assms(2)
proof (induction ds arbitrary: r)
  case (Cons x ds)
  obtain d spec where x: "x = (d, spec)" by (cases x)
  from Cons.prems [unfolded x] show ?case
  proof (rule visit_deps_OkE)
    fix relative n r'
    assume "visit fuel fs r (dependency_dir fs mp relative) (Some d) = Some (Ok (n, r'))"
      "visit_deps fuel fs mp name ds r' = Some (Ok r'')"
    from v [OF this(1)] Cons.IH [OF this(2)] show ?thesis by (rule subset_trans)
  qed
qed simp

lemma visit_paths: "visit fuel fs r p e = Some (Ok (n, r')) \<Longrightarrow> keys (paths r) \<subseteq> keys (paths r')"
proof (induction fuel arbitrary: r p e n r')
  case (Suc fuel)
  from Suc.prems show ?case
  proof (rule visit_OkE)
    fix mp m r1
    assume a: "visit_deps fuel fs mp n (dependencies m) (enter r n mp) = Some (Ok r1)" "r' = leave r1 n mp m"
    have "keys (paths (enter r n mp)) \<subseteq> keys (paths r1)"
      using a(1) by (rule visit_deps_paths [rotated]) (rule Suc.IH)
    then show ?thesis using a(2) by (simp add: fst_bt_insert)
  qed simp
qed simp

lemma visit_fuel:
  assumes "finite N" "names_on_disk fs \<subseteq> N"
  shows "card (N - keys (paths r)) < fuel \<Longrightarrow> visit fuel fs r p e \<noteq> None"
    and "card (N - keys (paths r)) < fuel \<Longrightarrow> visit_deps fuel fs mp name ds r \<noteq> None"
  using assms(2)
proof (induction fuel fs r p e and fuel fs mp name ds r rule: visit_visit_deps.induct)
  case (2 fuel fs r p e)
  show ?case
  proof (cases "load_manifest fs p")
    case (Inr mm)
    obtain mp m where mm: "mm = (mp, m)" by (cases mm)
    let ?name = "pkg_name (package m)"
    let ?r = "r\<lparr>visiting := visiting r @ [?name], paths := bt_insert ?name mp (paths r)\<rparr>"
    have "?name \<in> N" using load_manifest_Ok [of fs p mp m] Inr mm "2.prems"(2) by (auto simp: names_on_disk_def)
    have "visit_deps fuel fs mp ?name (dependencies m) ?r \<noteq> None"
      if "\<not> (case e of Some x \<Rightarrow> x \<noteq> ?name | None \<Rightarrow> False)" "?name \<notin> set (visiting r)" "bt_get (paths r) ?name = None"
    proof -
      have "N - keys (paths ?r) = (N - keys (paths r)) - {?name}" by (auto simp: fst_bt_insert)
      moreover have "?name \<in> N - keys (paths r)" using that(3) \<open>?name \<in> N\<close> by (auto simp: bt_get_None)
      ultimately have "card (N - keys (paths ?r)) < card (N - keys (paths r))"
        using assms(1) by (metis card_Diff1_less finite_Diff)
      then show ?thesis using "2.IH" [OF Inr mm [symmetric] refl that] "2.prems" by simp
    qed
    then show ?thesis using Inr mm
      by (cases "case e of Some x \<Rightarrow> x \<noteq> ?name | None \<Rightarrow> False"; cases "?name \<in> set (visiting r)";
          cases "bt_get (paths r) ?name") (auto simp: Let_def split: option.splits sum.splits)
  qed simp
next
  case (4 fuel fs mp name d spec ds r)
  show ?case
  proof (cases spec)
    case (Path relative)
    let ?v = "visit fuel fs r (dependency_dir fs mp relative) (Some d)"
    have v: "?v \<noteq> None" using "4.IH"(1) [OF Path] "4.prems" by blast
    have "visit_deps fuel fs mp name ds r' \<noteq> None" if r': "?v = Some (Ok (n, r'))" for n r'
    proof -
      have "keys (paths r) \<subseteq> keys (paths r')" using visit_paths [OF r'] .
      then have "card (N - keys (paths r')) \<le> card (N - keys (paths r))"
        using assms(1) by (intro card_mono) auto
      then show ?thesis using "4.IH"(2) [OF Path r' refl refl] "4.prems" by simp
    qed
    then show ?thesis using v Path by (auto split: option.splits sum.splits)
  qed simp
qed auto

subsection \<open>What a resolution holds\<close>

definition dep_names :: "'p LocalPackage \<Rightarrow> ustring set" where
  "dep_names p = keys (dependencies (manifest p))"

text \<open>
  The state of the resolver: a finished package was read from its path, all its dependencies are local and
  finished; names being visited are not finished, and the recorded paths are those of both; the
  dependency relation between finished packages descends along some rank, so it has no cycle.
\<close>

definition package_ok :: "'p FileSystem \<Rightarrow> 'p LocalResolver \<Rightarrow> ustring \<Rightarrow> 'p LocalPackage \<Rightarrow> bool" where
  "package_ok fs r n p \<longleftrightarrow>
     n = pkg_name (package (manifest p)) \<and>
     (\<exists>content. fs_read fs (manifest_path p) = Ok content \<and> parse content = Ok (manifest p)) \<and>
     (\<forall>(d, spec) \<in> set (dependencies (manifest p)). (\<exists>relative. spec = Path relative) \<and> d \<in> keys (packages r))"

definition ranked :: "'p LocalResolver \<Rightarrow> bool" where
  "ranked r \<longleftrightarrow> (\<exists>rank :: ustring \<Rightarrow> nat. \<forall>(n, p) \<in> set (packages r). \<forall>d \<in> dep_names p. rank d < rank n)"

definition resolver_ok :: "'p FileSystem \<Rightarrow> 'p LocalResolver \<Rightarrow> bool" where
  "resolver_ok fs r \<longleftrightarrow>
     bt_ok (packages r) \<and> (\<forall>(n, p) \<in> set (packages r). package_ok fs r n p) \<and>
     keys (paths r) = keys (packages r) \<union> set (visiting r) \<and>
     set (visiting r) \<inter> keys (packages r) = {} \<and> ranked r"

lemma resolver_ok_new: "resolver_ok fs resolver_new"
  by (simp add: resolver_ok_def resolver_new_def ranked_def)

lemma package_ok_mono:
  "package_ok fs r n p \<Longrightarrow> keys (packages r) \<subseteq> keys (packages r') \<Longrightarrow> package_ok fs r' n p"
  unfolding package_ok_def by blast

lemma resolver_ok_enter:
  assumes "resolver_ok fs r" "bt_get (paths r) n = None"
  shows "resolver_ok fs (enter r n mp)"
proof -
  have "n \<notin> keys (packages r)" using assms by (auto simp: resolver_ok_def bt_get_None)
  with assms(1) show ?thesis
    unfolding resolver_ok_def ranked_def package_ok_def by (auto simp: fst_bt_insert)
qed

lemma ranked_insert:
  assumes "ranked r" "\<forall>(m, q) \<in> set (packages r). n \<notin> dep_names q" "n \<notin> dep_names p"
    "finite (dep_names p)" "bt_ok (packages r)"
  shows "ranked (r\<lparr>packages := bt_insert n p (packages r), visiting := v\<rparr>)"
proof -
  obtain rank :: "ustring \<Rightarrow> nat" where rank: "\<forall>(m, q) \<in> set (packages r). \<forall>d \<in> dep_names q. rank d < rank m"
    using assms(1) by (auto simp: ranked_def)
  let ?rank = "rank(n := Suc (Max (insert 0 (rank ` dep_names p))))"
  have "?rank d < ?rank m" if "(m, q) \<in> insert (n, p) (set (packages r))" "d \<in> dep_names q" "m = n \<longrightarrow> q = p" for m q d
  proof (cases "m = n")
    case True
    then have "d \<in> dep_names p" "d \<noteq> n" using that assms(3) by auto
    moreover have "rank d \<le> Max (insert 0 (rank ` dep_names p))"
      using \<open>d \<in> dep_names p\<close> assms(4) by (intro Max_ge) auto
    ultimately show ?thesis using True by simp
  next
    case False
    with that have "(m, q) \<in> set (packages r)" by auto
    with rank assms(2) that(2) False show ?thesis by fastforce
  qed
  moreover have "(m, q) \<in> insert (n, p) (set (packages r)) \<and> (m = n \<longrightarrow> q = p)"
    if "(m, q) \<in> set (bt_insert n p (packages r))" for m q
    using that bt_in_insert [OF assms(5)] by (auto split: if_splits)
  ultimately have "\<forall>(m, q) \<in> set (bt_insert n p (packages r)). \<forall>d \<in> dep_names q. ?rank d < ?rank m" by blast
  then show ?thesis unfolding ranked_def by (intro exI [of _ ?rank]) simp
qed

lemma resolver_ok_leave:
  assumes ok: "resolver_ok fs r" and v: "visiting r = vs @ [n]" "n \<notin> set vs"
    and m: "n = pkg_name (package m)" "fs_read fs mp = Ok content" "parse content = Ok m"
    and ds: "\<forall>(d, spec) \<in> set (dependencies m). (\<exists>relative. spec = Path relative) \<and> d \<in> keys (packages r)"
  shows "resolver_ok fs (leave r n mp m)"
proof -
  let ?p = "\<lparr>manifest_path = mp, manifest = m\<rparr>" and ?r = "leave r n mp m"
  have n: "n \<notin> keys (packages r)" and bt: "bt_ok (packages r)" and rk: "ranked r"
    and old: "\<forall>(k, q) \<in> set (packages r). package_ok fs r k q"
    and pk: "keys (paths r) = keys (packages r) \<union> set (visiting r)" "set (visiting r) \<inter> keys (packages r) = {}"
    using ok v(1) by (auto simp: resolver_ok_def)
  have keys: "keys (packages ?r) = insert n (keys (packages r))" by (simp add: fst_bt_insert)
  have "package_ok fs ?r k q" if "(k, q) \<in> set (packages ?r)" for k q
  proof (cases "k = n")
    case True
    then have "q = ?p" using that bt_in_insert [OF bt] by simp
    with True m ds show ?thesis unfolding package_ok_def using keys by fastforce
  next
    case False
    then have "(k, q) \<in> set (packages r)" using that bt_in_insert [OF bt, of k q n ?p] by simp
    with old have "package_ok fs r k q" by blast
    then show ?thesis by (rule package_ok_mono) (use keys in blast)
  qed
  moreover have "ranked ?r"
  proof -
    have "n \<notin> dep_names q" if "(k, q) \<in> set (packages r)" for k q
      using old that n by (fastforce simp: package_ok_def dep_names_def)
    moreover have "n \<notin> dep_names ?p" using ds n by (fastforce simp: dep_names_def)
    ultimately have "ranked (r\<lparr>packages := bt_insert n ?p (packages r), visiting := butlast (visiting r)\<rparr>)"
      using rk bt by (intro ranked_insert) (auto simp: dep_names_def)
    then show ?thesis by (simp add: ranked_def)
  qed
  ultimately show ?thesis
    using pk v n unfolding resolver_ok_def keys by (auto simp: bt_ok_insert [OF bt])
qed

text \<open>A visit keeps the invariant and the names being visited, and finishes the package it was called for.\<close>

definition visited :: "'p FileSystem \<Rightarrow> 'p LocalResolver \<Rightarrow> 'p LocalResolver \<Rightarrow> bool" where
  "visited fs r r' \<longleftrightarrow>
     resolver_ok fs r' \<and> visiting r' = visiting r \<and> keys (packages r) \<subseteq> keys (packages r')"

lemma visited_trans: "visited fs a b \<Longrightarrow> visited fs b c \<Longrightarrow> visited fs a c"
  unfolding visited_def by auto

lemma visit_deps_visited:
  assumes v: "\<And>r p e n r'. visit fuel fs r p e = Some (Ok (n, r')) \<Longrightarrow> resolver_ok fs r \<Longrightarrow>
      visited fs r r' \<and> n \<in> keys (packages r') \<and> (e = None \<or> e = Some n)"
    and "visit_deps fuel fs mp name ds r = Some (Ok r'')" "resolver_ok fs r"
  shows "visited fs r r'' \<and>
    (\<forall>(d, spec) \<in> set ds. (\<exists>relative. spec = Path relative) \<and> d \<in> keys (packages r''))"
  using assms(2,3)
proof (induction ds arbitrary: r)
  case Nil
  then show ?case by (simp add: visited_def)
next
  case (Cons x ds)
  obtain d spec where x: "x = (d, spec)" by (cases x)
  from Cons.prems(1) [unfolded x] show ?case
  proof (rule visit_deps_OkE)
    fix relative n r'
    assume a: "spec = Path relative" "visit fuel fs r (dependency_dir fs mp relative) (Some d) = Some (Ok (n, r'))"
      "visit_deps fuel fs mp name ds r' = Some (Ok r'')"
    from v [OF a(2) Cons.prems(2)] have n: "visited fs r r'" "d \<in> keys (packages r')" by auto
    then have "resolver_ok fs r'" by (simp add: visited_def)
    from Cons.IH [OF a(3) this] have IH: "visited fs r' r''"
      "\<forall>(d, spec) \<in> set ds. (\<exists>relative. spec = Path relative) \<and> d \<in> keys (packages r'')" by blast+
    then have "d \<in> keys (packages r'')" using n(2) unfolding visited_def by blast
    with IH(2) x a(1) visited_trans [OF n(1) IH(1)] show ?thesis by simp
  qed
qed

lemma visit_visited:
  "visit fuel fs r p e = Some (Ok (n, r')) \<Longrightarrow> resolver_ok fs r \<Longrightarrow>
     visited fs r r' \<and> n \<in> keys (packages r') \<and> (e = None \<or> e = Some n)"
proof (induction fuel arbitrary: r p e n r')
  case (Suc fuel)
  from Suc.prems(1) show ?case
  proof (rule visit_OkE)
    fix mp m
    assume "e = None \<or> e = Some n" "n \<notin> set (visiting r)" "bt_get (paths r) n = Some mp" "r' = r"
    moreover from this have "n \<in> keys (paths r)" using bt_get_None [of "paths r" n] by auto
    ultimately show ?thesis using Suc.prems(2) by (auto simp: resolver_ok_def visited_def)
  next
    fix mp m r1
    assume a: "load_manifest fs p = Ok (mp, m)" "n = pkg_name (package m)" "e = None \<or> e = Some n"
      "n \<notin> set (visiting r)" "bt_get (paths r) n = None"
      "visit_deps fuel fs mp n (dependencies m) (enter r n mp) = Some (Ok r1)" "r' = leave r1 n mp m"
    have "resolver_ok fs (enter r n mp)" using resolver_ok_enter [OF Suc.prems(2) a(5)] .
    with a(6) have "visited fs (enter r n mp) r1 \<and>
      (\<forall>(d, spec) \<in> set (dependencies m). (\<exists>relative. spec = Path relative) \<and> d \<in> keys (packages r1))"
      by (rule visit_deps_visited [rotated]) (erule (1) Suc.IH)
    then have r1: "visited fs (enter r n mp) r1"
      "\<forall>(d, spec) \<in> set (dependencies m). (\<exists>relative. spec = Path relative) \<and> d \<in> keys (packages r1)" by blast+
    then have vs: "resolver_ok fs r1" "visiting r1 = visiting r @ [n]" "keys (packages r) \<subseteq> keys (packages r1)"
      by (simp_all add: visited_def)
    obtain content where "fs_read fs mp = Ok content" "parse content = Ok m" using load_manifest_Ok [OF a(1)] by blast
    then have "resolver_ok fs r'"
      unfolding a(7) by (intro resolver_ok_leave [OF vs(1,2) a(4,2)]) (use r1(2) in auto)
    then show ?thesis using a(3,7) vs by (auto simp: visited_def fst_bt_insert)
  qed
qed simp

lemma resolve_local_OkE:
  assumes "resolve_local fuel fs p = Some (Ok res)"
  obtains q n r where "visit fuel fs resolver_new q None = Some (Ok (n, r))" "bt_get (packages r) n = Some (root res)"
    "resolved res = map snd (filter (\<lambda>(k, _). k \<noteq> n) (packages r))"
  using assms that by (auto simp: resolve_local_def split: sum.splits option.splits)

lemma resolve_local_packages:
  assumes "resolve_local fuel fs p = Some (Ok res)"
  obtains r where "resolver_ok fs r" "set (packages_of res) = snd ` set (packages r)"
proof -
  from assms obtain q n r where r: "visit fuel fs resolver_new q None = Some (Ok (n, r))"
    "bt_get (packages r) n = Some (root res)" "resolved res = map snd (filter (\<lambda>(k, _). k \<noteq> n) (packages r))"
    by (rule resolve_local_OkE)
  have ok: "resolver_ok fs r" using visit_visited [OF r(1) resolver_ok_new] by (simp add: visited_def)
  then have bt: "bt_ok (packages r)" by (simp add: resolver_ok_def)
  have root: "(n, root res) \<in> set (packages r)" using r(2) bt_get_in [OF bt] by simp
  have uniq: "x = (n, root res)" if "x \<in> set (packages r)" "fst x = n" for x
    using that r(2) bt_get_in [OF bt, of n "snd x"] by (cases x) auto
  have split: "set (packages r) = insert (n, root res) {x \<in> set (packages r). fst x \<noteq> n}"
    using root uniq by blast
  have "snd ` set (packages r) = insert (root res) (snd ` {x \<in> set (packages r). fst x \<noteq> n})"
    by (subst split) simp
  also have "\<dots> = set (packages_of res)" by (simp add: packages_of_def r(3) split_beta)
  finally show ?thesis using that ok by simp
qed

subsection \<open>Properties\<close>

text \<open>
  C7. The resolver terminates: when finitely many package names can be read from the file system, more
  fuel than there are names is enough, whatever the dependencies between them, cycles included.
\<close>

theorem resolve_local_returns:
  assumes "finite (names_on_disk fs)" "card (names_on_disk fs) < fuel"
  shows "resolve_local fuel fs p \<noteq> None"
proof -
  have "visit fuel fs resolver_new q None \<noteq> None" for q
    using assms visit_fuel(1) [OF assms(1) order.refl, of resolver_new fuel q None] by (simp add: resolver_new_def)
  moreover have "bt_get (packages r) n \<noteq> None" if "visit fuel fs resolver_new q None = Some (Ok (n, r))" for q n r
    using visit_visited [OF that resolver_ok_new] by (simp add: bt_get_None)
  ultimately show ?thesis
    by (simp add: resolve_local_def split: sum.splits option.splits) (metis not_None_eq)
qed

text \<open>
  C6. A resolution is closed and acyclic: every package in it was read and parsed from its manifest path, all
  its dependencies are path dependencies on packages of the resolution under the declared name, and
  the packages can be ranked so that every dependency ranks below its dependent.
\<close>

theorem resolve_local_sound:
  assumes "resolve_local fuel fs p = Some (Ok res)"
  shows "(\<forall>q \<in> set (packages_of res).
      (\<exists>content. fs_read fs (manifest_path q) = Ok content \<and> parse content = Ok (manifest q)) \<and>
      (\<forall>(d, spec) \<in> set (dependencies (manifest q)). (\<exists>relative. spec = Path relative) \<and>
         (\<exists>q' \<in> set (packages_of res). pkg_name (package (manifest q')) = d))) \<and>
    (\<exists>rank :: ustring \<Rightarrow> nat. \<forall>q \<in> set (packages_of res). \<forall>d \<in> dep_names q.
       rank d < rank (pkg_name (package (manifest q))))"
proof -
  from assms obtain r where ok: "resolver_ok fs r" and ps: "set (packages_of res) = snd ` set (packages r)"
    by (rule resolve_local_packages)
  have pk: "package_ok fs r n q" if "(n, q) \<in> set (packages r)" for n q
    using ok that by (auto simp: resolver_ok_def)
  have named: "\<exists>q' \<in> set (packages_of res). pkg_name (package (manifest q')) = d" if d: "d \<in> keys (packages r)" for d
  proof -
    from d obtain q' where q': "(d, q') \<in> set (packages r)" by auto
    from pk [OF this] have "pkg_name (package (manifest q')) = d" by (simp add: package_ok_def)
    with q' ps show ?thesis by force
  qed
  obtain rank :: "ustring \<Rightarrow> nat" where "\<forall>(n, q) \<in> set (packages r). \<forall>d \<in> dep_names q. rank d < rank n"
    using ok by (auto simp: resolver_ok_def ranked_def)
  moreover have "n = pkg_name (package (manifest q))" if "(n, q) \<in> set (packages r)" for n q
    using pk [OF that] by (simp add: package_ok_def)
  ultimately have "\<forall>q \<in> set (packages_of res). \<forall>d \<in> dep_names q. rank d < rank (pkg_name (package (manifest q)))"
    unfolding ps by fastforce
  moreover have "(\<exists>content. fs_read fs (manifest_path q) = Ok content \<and> parse content = Ok (manifest q)) \<and>
      (\<forall>(d, spec) \<in> set (dependencies (manifest q)). (\<exists>relative. spec = Path relative) \<and>
         (\<exists>q' \<in> set (packages_of res). pkg_name (package (manifest q')) = d))" if q: "q \<in> set (packages_of res)" for q
  proof -
    from q ps obtain n where "(n, q) \<in> set (packages r)" by force
    from pk [OF this] named show ?thesis unfolding package_ok_def by blast
  qed
  ultimately show ?thesis by blast
qed

text \<open>A file system of two packages, \<open>app\<close> with a path dependency on \<open>math\<close>.\<close>

definition sample_manifest :: "ustring \<Rightarrow> (ustring \<times> DependencySpec) list \<Rightarrow> PackageManifest" where
  "sample_manifest name deps =
     \<lparr>package = \<lparr>pkg_name = name, pkg_version = lit ''0.1.0'', pkg_edition = lit ''2026''\<rparr>,
      dependencies = deps, targets = \<lparr>target_library = True\<rparr>\<rparr>"

definition sample_fs :: "nat FileSystem" where
  "sample_fs =
     \<lparr>fs_metadata = \<lambda>_. Ok IsFile, fs_canonicalize = Ok,
      fs_read = \<lambda>p. if p = 0 then Ok (to_toml (sample_manifest (lit ''app'') [(lit ''math'', Path (lit ''math''))]))
                    else if p = 1 then Ok (to_toml (sample_manifest (lit ''math'') []))
                    else Err (lit ''not found''),
      path_join = \<lambda>p s. if s = lit ''math'' then 1 else p, path_parent = \<lambda>p. Some p, path_new = \<lambda>_. 0\<rparr>"

lemma sample_fs_parse:
  "parse (to_toml (sample_manifest (lit ''app'') [(lit ''math'', Path (lit ''math''))])) =
     Ok (sample_manifest (lit ''app'') [(lit ''math'', Path (lit ''math''))])"
  "parse (to_toml (sample_manifest (lit ''math'') [])) = Ok (sample_manifest (lit ''math'') [])"
  by code_simp+

lemma resolve_local_returns_witness: "resolve_local 3 sample_fs 0 \<noteq> None"
proof (rule resolve_local_returns)
  have sub: "names_on_disk sample_fs \<subseteq> {lit ''app'', lit ''math''}"
    by (auto simp: names_on_disk_def sample_fs_def sample_fs_parse simp del: lit_simps split: if_splits)
      (auto simp: sample_manifest_def)
  then show "finite (names_on_disk sample_fs)" by (rule finite_subset) simp
  from card_mono [OF _ sub] show "card (names_on_disk sample_fs) < 3" by simp
qed

lemma resolve_local_sound_witness:
  "\<exists>res. resolve_local 3 sample_fs 0 = Some (Ok res) \<and>
     (\<exists>q' \<in> set (packages_of res). pkg_name (package (manifest q')) = lit ''math'')"
proof -
  have "case resolve_local 3 sample_fs 0 of Some (Inr res) \<Rightarrow>
      dependencies (manifest (root res)) = [(lit ''math'', Path (lit ''math''))] | _ \<Rightarrow> False"
    by code_simp
  then obtain res where res: "resolve_local 3 sample_fs 0 = Some (Ok res)"
    "dependencies (manifest (root res)) = [(lit ''math'', Path (lit ''math''))]"
    by (auto split: option.splits sum.splits)
  from resolve_local_sound [OF res(1)] res show ?thesis by (auto simp: packages_of_def)
qed

end
