(* ===== verification/Migration.thy ===== *)
theory Migration
  imports Manifest
begin

text \<open>
  The crate \<open>jadren-migration\<close>: the planner that rewrites the draft edition of a manifest, line by line,
  to the current one, and how it acts on manifests that the package crate prints.
\<close>

definition CURRENT_EDITION :: ustring where "CURRENT_EDITION = lit ''2026''"

definition DRAFT_EDITION :: ustring where "DRAFT_EDITION = lit ''0.1-draft''"

record MigrationEdit =
  edit_line :: nat
  before :: ustring
  after :: ustring

record MigrationPlan =
  plan_from :: ustring
  plan_to :: ustring
  edits :: "MigrationEdit list"
  plan_output :: ustring

definition changed :: "MigrationPlan \<Rightarrow> bool" where
  "changed p \<longleftrightarrow> edits p \<noteq> []"

datatype MigrationError =
    UnsupportedSource ustring
  | UnsupportedTarget ustring
  | UnsupportedEdition ustring
  | EditionNotFound ustring

definition canonical_edition :: "ustring \<Rightarrow> (MigrationError, ustring) result" where
  "canonical_edition v =
     (let e = map to_ascii_lowercase (trim v) in
      if e = CURRENT_EDITION then Ok CURRENT_EDITION
      else if e = DRAFT_EDITION then Ok DRAFT_EDITION
      else Err (UnsupportedEdition e))"

text \<open>\<open>str::split_inclusive\<close> at newlines.\<close>

definition split_inclusive :: "ustring \<Rightarrow> ustring list" where
  "split_inclusive s =
     (let parts = split_on ch_newline s
      in map toml_line (butlast parts) @ (if last parts = [] then [] else [last parts]))"

text \<open>\<open>str::find\<close>, as the text before and after the first occurrence.\<close>

fun find_split :: "ustring \<Rightarrow> ustring \<Rightarrow> (ustring \<times> ustring) option" where
  "find_split p [] = (if p = [] then Some ([], []) else None)"
| "find_split p (c # s) =
     (if starts_with (c # s) p then Some ([], drop (length p) (c # s))
      else map_option (\<lambda>(a, b). (c # a, b)) (find_split p s))"

definition draft_marker :: ustring where
  "draft_marker = [ch_quote] @ DRAFT_EDITION @ [ch_quote]"

definition line_ending :: "ustring \<Rightarrow> ustring" where
  "line_ending line =
     (if ends_with line [ch_return, ch_newline] then [ch_return, ch_newline]
      else if ends_with line [ch_newline] then [ch_newline] else [])"

definition is_draft_line :: "ustring \<Rightarrow> bool" where
  "is_draft_line candidate =
     (case strip_prefix (trim candidate) (lit ''edition'') of
        None \<Rightarrow> False
      | Some v \<Rightarrow> starts_with (trim_start_matches is_whitespace v) (lit ''='') \<and> find_split draft_marker v \<noteq> None)"

text \<open>The body of the loop: the text to append, and the edit if the line is one.\<close>

definition plan_line :: "ustring \<Rightarrow> nat \<Rightarrow> ustring \<Rightarrow> (MigrationError, ustring \<times> MigrationEdit list) result" where
  "plan_line from index line =
     (let ending = line_ending line; candidate = take (length line - length ending) line in
      if is_draft_line candidate then
        (case find_split draft_marker candidate of
           None \<Rightarrow> Err (EditionNotFound from)
         | Some (a, b) \<Rightarrow>
             (let new = a @ [ch_quote] @ CURRENT_EDITION @ [ch_quote] @ b
              in Ok (new @ ending, [\<lparr>edit_line = index + 1, before = candidate, after = new\<rparr>])))
      else Ok (line, []))"

fun plan_lines :: "ustring \<Rightarrow> nat \<Rightarrow> ustring list \<Rightarrow> (MigrationError, ustring \<times> MigrationEdit list) result" where
  "plan_lines from index [] = Ok ([], [])"
| "plan_lines from index (l # ls) =
     result_bind (plan_line from index l) (\<lambda>(s, e).
     result_bind (plan_lines from (index + 1) ls) (\<lambda>(t, es). Ok (s @ t, e @ es)))"

definition plan_manifest :: "ustring \<Rightarrow> ustring \<Rightarrow> ustring \<Rightarrow> (MigrationError, MigrationPlan) result" where
  "plan_manifest s from0 to0 =
     result_bind (canonical_edition from0) (\<lambda>from.
     result_bind (canonical_edition to0) (\<lambda>to.
       if to \<noteq> CURRENT_EDITION then Err (UnsupportedTarget to)
       else if from = to then Ok \<lparr>plan_from = from, plan_to = to, edits = [], plan_output = s\<rparr>
       else if from \<noteq> DRAFT_EDITION then Err (UnsupportedSource from)
       else result_bind (plan_lines from 0 (split_inclusive s)) (\<lambda>(out, es).
         if es = [] then Err (EditionNotFound from)
         else Ok \<lparr>plan_from = from, plan_to = to, edits = es, plan_output = out\<rparr>)))"

definition migration_error_to_string :: "MigrationError \<Rightarrow> ustring" where
  "migration_error_to_string e =
     (case e of
        UnsupportedSource v \<Rightarrow> lit ''unsupported source edition `'' @ v @ lit ''`''
      | UnsupportedTarget v \<Rightarrow> lit ''unsupported target edition `'' @ v @ lit ''`''
      | UnsupportedEdition v \<Rightarrow> lit ''unsupported edition `'' @ v @ lit ''`''
      | EditionNotFound v \<Rightarrow> lit ''manifest has no edition line for `'' @ v @ lit ''`'')"

subsection \<open>Lines\<close>

lemma concat_split_inclusive: "concat (split_inclusive s) = s"
proof -
  let ?p = "split_on ch_newline s"
  have join: "join_with ch_newline (ws @ [w]) = concat (map toml_line ws) @ w" for ws w
    by (induction ws rule: induct_list012) (simp_all add: toml_line_def)
  have "join_with ch_newline (butlast ?p @ [last ?p]) = concat (map toml_line (butlast ?p)) @ last ?p"
    by (rule join)
  then have "concat (map toml_line (butlast ?p)) @ last ?p = s" by simp
  then show ?thesis by (cases "last ?p = []") (simp_all add: split_inclusive_def Let_def)
qed

lemma find_split_Some: "find_split p s = Some (a, b) \<Longrightarrow> s = a @ p @ b"
proof (induction p s arbitrary: a b rule: find_split.induct)
  case (2 p c s)
  show ?case
  proof (cases "starts_with (c # s) p")
    case True
    then have "c # s = p @ drop (length p) (c # s)" by (metis append_take_drop_id starts_with_def)
    with True "2.prems" show ?thesis by simp
  next
    case False
    with "2.prems" "2.IH" show ?thesis by auto
  qed
qed (auto split: if_splits)

lemma find_split_append: "find_split p (a @ p @ b) \<noteq> None"
proof (induction a)
  case Nil
  have "starts_with (p @ b) p" by (auto simp: starts_with_iff)
  then show ?case by (cases "p @ b") auto
qed auto

lemma line_ending_split: "line = take (length line - length (line_ending line)) line @ line_ending line"
  by (auto simp: line_ending_def ends_with_iff)

text \<open>What an edit does to its line, and that other lines stay.\<close>

definition edit_ok :: "MigrationEdit \<Rightarrow> ustring \<Rightarrow> ustring \<Rightarrow> bool" where
  "edit_ok e l l' \<longleftrightarrow>
     (\<exists>a b ending. before e = a @ draft_marker @ b \<and> after e = a @ [ch_quote] @ CURRENT_EDITION @ [ch_quote] @ b \<and>
        l = before e @ ending \<and> l' = after e @ ending)"

lemma plan_line_Ok:
  assumes "plan_line ed i l = Ok (l', es)"
  shows "(es = [] \<and> l' = l) \<or> (\<exists>e. es = [e] \<and> edit_line e = i + 1 \<and> edit_ok e l l')"
proof -
  let ?c = "take (length l - length (line_ending l)) l"
  show ?thesis
  proof (cases "is_draft_line ?c")
    case True
    with assms obtain a b where f: "find_split draft_marker ?c = Some (a, b)"
      and r: "l' = (a @ [ch_quote] @ CURRENT_EDITION @ [ch_quote] @ b) @ line_ending l"
      "es = [\<lparr>edit_line = i + 1, before = ?c, after = a @ [ch_quote] @ CURRENT_EDITION @ [ch_quote] @ b\<rparr>]"
      by (auto simp: plan_line_def Let_def split: option.splits)
    let ?e = "\<lparr>edit_line = i + 1, before = ?c, after = a @ [ch_quote] @ CURRENT_EDITION @ [ch_quote] @ b\<rparr>"
    have "edit_ok ?e l l'"
      unfolding edit_ok_def using find_split_Some [OF f] line_ending_split [of l] r(1)
      by (intro exI [of _ a] exI [of _ b] exI [of _ "line_ending l"]) simp
    with r(2) show ?thesis by (intro disjI2 exI [of _ ?e]) simp
  next
    case False
    with assms show ?thesis by (simp add: plan_line_def Let_def)
  qed
qed

inductive patched :: "nat \<Rightarrow> ustring list \<Rightarrow> ustring list \<Rightarrow> MigrationEdit list \<Rightarrow> bool" where
  patched_Nil: "patched i [] [] []"
| patched_keep: "patched (i + 1) ls ls' es \<Longrightarrow> patched i (l # ls) (l # ls') es"
| patched_edit: "edit_line e = i + 1 \<Longrightarrow> edit_ok e l l' \<Longrightarrow> patched (i + 1) ls ls' es \<Longrightarrow>
    patched i (l # ls) (l' # ls') (e # es)"

lemma plan_lines_Ok:
  "plan_lines ed i ls = Ok (out, es) \<Longrightarrow> \<exists>ls'. out = concat ls' \<and> patched i ls ls' es"
proof (induction ed i ls arbitrary: out es rule: plan_lines.induct)
  case (1 ed i)
  then show ?case by (auto intro!: exI [of _ "[]"] patched_Nil)
next
  case (2 ed i l ls)
  from "2.prems" obtain s e t es' where
    p: "plan_line ed i l = Ok (s, e)" "plan_lines ed (i + 1) ls = Ok (t, es')" "out = s @ t" "es = e @ es'"
    by (auto simp: result_bind_eq_Ok)
  from "2.IH" [OF p(2)] obtain ls' where ls': "t = concat ls'" "patched (i + 1) ls ls' es'" by blast
  from plan_line_Ok [OF p(1)] show ?case
  proof
    assume "e = [] \<and> s = l"
    with p ls' show ?thesis by (auto intro!: exI [of _ "l # ls'"] patched_keep)
  next
    assume "\<exists>x. e = [x] \<and> edit_line x = i + 1 \<and> edit_ok x l s"
    with p ls' show ?thesis by (auto intro!: exI [of _ "s # ls'"] patched_edit)
  qed
qed

subsection \<open>Manifests as the package crate prints them\<close>

lemma split_inclusive_toml:
  assumes "\<forall>l \<in> set ls. ch_newline \<notin> set l"
  shows "split_inclusive (concat (map toml_line ls)) = map toml_line ls"
  using split_on_lines [OF assms] by (simp add: split_inclusive_def Let_def)

lemma line_ending_toml:
  "ch_return \<notin> set l \<Longrightarrow> line_ending (toml_line l) = [ch_newline]"
  by (auto simp: line_ending_def toml_line_def ends_with_iff)

lemma plan_line_toml:
  assumes "ch_return \<notin> set l"
  shows "plan_line ed i (toml_line l) =
    (if is_draft_line l then
       (case find_split draft_marker l of
          None \<Rightarrow> Err (EditionNotFound ed)
        | Some (a, b) \<Rightarrow>
            (let new = a @ [ch_quote] @ CURRENT_EDITION @ [ch_quote] @ b
             in Ok (toml_line new, [\<lparr>edit_line = i + 1, before = l, after = new\<rparr>])))
     else Ok (toml_line l, []))"
proof -
  have "take (length (toml_line l) - length [ch_newline]) (toml_line l) = l" by (simp add: toml_line_def)
  then show ?thesis
    unfolding plan_line_def line_ending_toml [OF assms] Let_def by (simp only: toml_line_def)
qed

lemma plan_lines_append:
  "plan_lines ed i (xs @ ys) =
     result_bind (plan_lines ed i xs) (\<lambda>(s, e).
     result_bind (plan_lines ed (i + length xs) ys) (\<lambda>(t, es). Ok (s @ t, e @ es)))"
proof (induction xs arbitrary: i)
  case Nil
  show ?case by (cases "plan_lines ed i ys") auto
next
  case (Cons x xs)
  show ?case
    by (cases "plan_line ed i x"; cases "plan_lines ed (Suc i) xs"; cases "plan_lines ed (Suc (i + length xs)) ys")
      (auto simp: Cons)
qed

lemma plan_lines_keep:
  "\<forall>l \<in> set ls. ch_return \<notin> set l \<and> \<not> is_draft_line l \<Longrightarrow>
     plan_lines ed i (map toml_line ls) = Ok (concat (map toml_line ls), [])"
  by (induction ls arbitrary: i) (auto simp: plan_line_toml)

lemma not_draft_prefix: "\<not> starts_with (trim l) (lit ''edition'') \<Longrightarrow> \<not> is_draft_line l"
  by (simp add: is_draft_line_def strip_prefix_def)

text \<open>A line \<open>key = value\<close> is taken for the edition only if its key is \<open>edition\<close>.\<close>

lemma not_draft_key:
  assumes "valid_name k" "k \<noteq> lit ''edition''" "v \<noteq> []" "\<not> is_whitespace (last v)"
  shows "\<not> is_draft_line (k @ lit '' = '' @ v)"
proof -
  let ?l = "k @ lit '' = '' @ v"
  have k: "k \<noteq> []" "list_all key_char k" using valid_name_key [OF assms(1)] by auto
  then have "key_char (hd k)" by (cases k) auto
  then have "\<not> is_whitespace (hd k)" by (rule key_char_neq)
  then have "trim ([] @ ?l @ []) = ?l" using k assms(3,4) by (intro trim_wrapped) auto
  then have tr: "trim ?l = ?l" by simp
  show ?thesis
  proof (cases "starts_with ?l (lit ''edition'')")
    case True
    then obtain r where r: "k @ lit '' = '' @ v = lit ''edition'' @ r" by (auto simp: starts_with_iff)
    obtain u where u: "k = lit ''edition'' @ u"
    proof -
      obtain u where
        "(k = lit ''edition'' @ u \<and> u @ lit '' = '' @ v = r) \<or> (k @ u = lit ''edition'' \<and> lit '' = '' @ v = u @ r)"
        using append_eq_append_conv2 [THEN iffD1, OF r] by blast
      moreover have "u = []" if u: "k @ u = lit ''edition''" "lit '' = '' @ v = u @ r"
      proof (rule ccontr)
        assume "u \<noteq> []"
        then have "ch_space \<in> set (k @ u)" using u(2) by (cases u) auto
        then show False unfolding u(1) by simp
      qed
      ultimately have "k = lit ''edition'' @ u" by (metis append_Nil2)
      then show ?thesis by (rule that)
    qed
    with assms(2) obtain c u' where cu: "u = c # u'" by (cases u) auto
    have c: "key_char c" using k(2) u cu by simp
    have "strip_prefix ?l (lit ''edition'') = Some (c # u' @ lit '' = '' @ v)"
      by (simp add: strip_prefix_def u cu starts_with_iff)
    moreover have "trim_start_matches is_whitespace (c # u' @ lit '' = '' @ v) = c # u' @ lit '' = '' @ v"
      using key_char_neq(1) [OF c] by (simp add: trim_start_matches_def)
    ultimately show ?thesis
      using key_char_neq(4) [OF c] unfolding is_draft_line_def tr by simp
  next
    case False
    then show ?thesis by (intro not_draft_prefix) (simp only: tr not_False_eq_True)
  qed
qed

lemma draft_edition_line:
  "is_draft_line (lit ''edition = '' @ quote DRAFT_EDITION)"
  "find_split draft_marker (lit ''edition = '' @ quote DRAFT_EDITION) = Some (lit ''edition = '', [])"
  by code_simp+

lemma lines_not_draft:
  assumes "manifest_ok m" "list_all (\<lambda>(k, d). k \<noteq> lit ''edition'') (dependencies m)"
  shows "\<forall>l \<in> set ([lit ''[package]'', lit ''name = '' @ quote (pkg_name (package m)),
         lit ''version = '' @ quote (pkg_version (package m))] @
       [[], lit ''[dependencies]''] @ map dependency_line (dependencies m) @
       [[], lit ''[targets]'', lit ''library = '' @ (if target_library (targets m) then lit ''true'' else lit ''false'')]).
     ch_return \<notin> set l \<and> ch_newline \<notin> set l \<and> \<not> is_draft_line l"
proof -
  have q: "ch_return \<notin> set (quote v) \<and> ch_newline \<notin> set (quote v)" "quote v \<noteq> []" "\<not> is_whitespace (last (quote v))" for v
    by (auto simp: quote_def quote_char_def is_whitespace_def split: if_splits)
  have names: "valid_name (lit ''name'')" "valid_name (lit ''version'')" "valid_name (lit ''library'')" by code_simp+
  have nv: "\<not> is_draft_line (lit ''name = '' @ quote v)" "\<not> is_draft_line (lit ''version = '' @ quote v)" for v
    using not_draft_key [OF names(1) _ q(2,3)] not_draft_key [OF names(2) _ q(2,3)] by simp_all
  have lib: "\<not> is_draft_line (lit ''library = '' @ (if b then lit ''true'' else lit ''false''))" for b
    using not_draft_key [OF names(3), of "lit ''true''"] not_draft_key [OF names(3), of "lit ''false''"]
    by (simp add: is_whitespace_def)
  have dep: "ch_return \<notin> set (dependency_line x) \<and> ch_newline \<notin> set (dependency_line x) \<and> \<not> is_draft_line (dependency_line x)"
    if "x \<in> set (dependencies m)" for x
  proof -
    obtain k d where x: "x = (k, d)" by (cases x)
    have k: "valid_name k" "k \<noteq> lit ''edition''" "plain k"
      using assms that x plain_name by (auto simp: manifest_ok_def list_all_iff)
    let ?v = "case d of Version r \<Rightarrow> quote r | Path p \<Rightarrow> lit ''{ path = '' @ quote p @ lit '' }''"
    have l: "dependency_line x = k @ lit '' = '' @ ?v" using x by (cases d) (simp_all add: dependency_line_def)
    have v: "?v \<noteq> []" "\<not> is_whitespace (last ?v)" "ch_return \<notin> set ?v" "ch_newline \<notin> set ?v"
      using q by (cases d; simp add: is_whitespace_def)+
    have "\<not> is_draft_line (dependency_line x)" unfolding l using not_draft_key [OF k(1,2) v(1,2)] .
    moreover have "ch_return \<notin> set (dependency_line x)" "ch_newline \<notin> set (dependency_line x)"
      unfolding l using k(3) v(3,4) by (simp_all add: plain_def)
    ultimately show ?thesis by blast
  qed
  have "\<not> is_draft_line []" "\<not> is_draft_line (lit ''[package]'')" "\<not> is_draft_line (lit ''[dependencies]'')"
    "\<not> is_draft_line (lit ''[targets]'')" by code_simp+
  with q(1) nv lib dep show ?thesis by (simp del: lit_simps) (simp add: ball_Un)
qed

subsection \<open>Properties\<close>

text \<open>
  A plan changes nothing but edition values: the output consists of the lines of the input in order,
  each either unchanged or, where there is an edit with its line number, with its first
  \<open>"0.1-draft"\<close> replaced by \<open>"2026"\<close> and the line ending kept; a plan between equal editions has
  no edits and the same text.
\<close>

theorem plan_manifest_patches:
  assumes "plan_manifest s from0 to0 = Ok plan"
  shows "concat (split_inclusive s) = s \<and>
    (\<exists>ls. plan_output plan = concat ls \<and> patched 0 (split_inclusive s) ls (edits plan))"
proof -
  have same: "patched i ls ls []" for i ls
    by (induction ls arbitrary: i) (auto intro: patched_Nil patched_keep)
  from assms consider (noop) "edits plan = []" "plan_output plan = s"
    | (edit) ed where "plan_lines ed 0 (split_inclusive s) = Ok (plan_output plan, edits plan)"
    by (auto simp: plan_manifest_def result_bind_eq_Ok split: if_splits)
  then show ?thesis
  proof cases
    case noop
    with same [of 0 "split_inclusive s"] concat_split_inclusive [of s] show ?thesis
      by (intro conjI exI [of _ "split_inclusive s"]) simp_all
  next
    case edit
    from plan_lines_Ok [OF edit] show ?thesis using concat_split_inclusive by (intro conjI)
  qed
qed

text \<open>
  Migrating a canonical manifest: the planner turns the canonical text of a manifest with the draft
  edition into the canonical text of the same manifest with the current edition, by one edit, provided
  that no dependency is called \<open>edition\<close>.
\<close>

theorem plan_manifest_canonical:
  assumes "manifest_ok m" "pkg_edition (package m) = CURRENT_EDITION"
    and "list_all (\<lambda>(k, d). k \<noteq> lit ''edition'') (dependencies m)"
  shows "\<exists>plan. plan_manifest (to_toml (m\<lparr>package := (package m)\<lparr>pkg_edition := DRAFT_EDITION\<rparr>\<rparr>)) DRAFT_EDITION CURRENT_EDITION =
      Ok plan \<and> plan_output plan = to_toml m \<and> length (edits plan) = 1"
proof -
  let ?pre = "[lit ''[package]'', lit ''name = '' @ quote (pkg_name (package m)),
         lit ''version = '' @ quote (pkg_version (package m))]"
  let ?post = "[[], lit ''[dependencies]''] @ map dependency_line (dependencies m) @
       [[], lit ''[targets]'', lit ''library = '' @ (if target_library (targets m) then lit ''true'' else lit ''false'')]"
  let ?old = "lit ''edition = '' @ quote DRAFT_EDITION" and ?new = "lit ''edition = '' @ quote CURRENT_EDITION"
  let ?m = "m\<lparr>package := (package m)\<lparr>pkg_edition := DRAFT_EDITION\<rparr>\<rparr>"
  note nd = lines_not_draft [OF assms(1,3)]
  have toml: "to_toml ?m = concat (map toml_line (?pre @ [?old] @ ?post))"
    "to_toml m = concat (map toml_line (?pre @ [?new] @ ?post))"
    using assms(2) by (simp_all add: to_toml_def package_lines_def)
  have old: "ch_newline \<notin> set ?old" "ch_return \<notin> set ?old" by code_simp+
  have "split_inclusive (to_toml ?m) = map toml_line (?pre @ [?old] @ ?post)"
    unfolding toml using nd old(1) by (intro split_inclusive_toml) (simp del: lit_simps)
  then have lines: "split_inclusive (to_toml ?m) = map toml_line ?pre @ toml_line ?old # map toml_line ?post" by simp
  have "plan_lines DRAFT_EDITION i (map toml_line ?pre) = Ok (concat (map toml_line ?pre), [])"
    "plan_lines DRAFT_EDITION i (map toml_line ?post) = Ok (concat (map toml_line ?post), [])" for i
    using nd by (intro plan_lines_keep; simp del: lit_simps)+
  moreover have "plan_line DRAFT_EDITION i (toml_line ?old) =
      Ok (toml_line ?new, [\<lparr>edit_line = i + 1, before = ?old, after = ?new\<rparr>])" for i
  proof -
    have "?new = lit ''edition = '' @ [ch_quote] @ CURRENT_EDITION @ [ch_quote] @ []" by code_simp
    then show ?thesis
      unfolding plan_line_toml [OF old(2)] using draft_edition_line by (simp add: Let_def del: lit_simps)
  qed
  ultimately have "plan_lines DRAFT_EDITION 0 (split_inclusive (to_toml ?m)) =
      Ok (to_toml m, [\<lparr>edit_line = length ?pre + 1, before = ?old, after = ?new\<rparr>])"
    unfolding lines toml(2) plan_lines_append by (simp del: lit_simps)
  moreover have "canonical_edition DRAFT_EDITION = Ok DRAFT_EDITION" "canonical_edition CURRENT_EDITION = Ok CURRENT_EDITION"
    "DRAFT_EDITION \<noteq> CURRENT_EDITION" by code_simp+
  ultimately show ?thesis by (simp add: plan_manifest_def)
qed

theorem plan_manifest_canonical_witness:
  "\<exists>m plan. starter (lit ''demo'') = Ok m \<and>
     plan_manifest (to_toml (m\<lparr>package := (package m)\<lparr>pkg_edition := DRAFT_EDITION\<rparr>\<rparr>)) DRAFT_EDITION CURRENT_EDITION = Ok plan \<and>
     plan_output plan = to_toml m"
proof -
  let ?m = "\<lparr>package = \<lparr>pkg_name = lit ''demo'', pkg_version = lit ''0.1.0'', pkg_edition = CURRENT_EDITION\<rparr>,
     dependencies = [], targets = \<lparr>target_library = True\<rparr>\<rparr>"
  have "starter (lit ''demo'') = Ok ?m" "manifest_ok ?m" by code_simp+
  with plan_manifest_canonical [of ?m] show ?thesis by fastforce
qed

theorem plan_manifest_patches_witness:
  "\<exists>plan ls. plan_manifest (lit ''edition = '' @ draft_marker @ [ch_newline]) DRAFT_EDITION CURRENT_EDITION = Ok plan \<and>
     plan_output plan = concat ls \<and>
     patched 0 (split_inclusive (lit ''edition = '' @ draft_marker @ [ch_newline])) ls (edits plan)"
proof -
  let ?s = "lit ''edition = '' @ draft_marker @ [ch_newline]"
  have "case plan_manifest ?s DRAFT_EDITION CURRENT_EDITION of Inl e \<Rightarrow> False | Inr p \<Rightarrow> True" by code_simp
  then obtain plan where p: "plan_manifest ?s DRAFT_EDITION CURRENT_EDITION = Ok plan" by (auto split: sum.splits)
  from plan_manifest_patches [OF p] p show ?thesis by blast
qed

text \<open>
  A dependency called \<open>edition\<close> is rewritten too: the planner looks at the key only, in whatever
  section, so a version requirement \<open>"0.1-draft"\<close> of such a dependency becomes \<open>"2026"\<close>.
\<close>

theorem plan_manifest_edits_dependency:
  "map_option (map (\<lambda>e. (edit_line e, before e, after e)))
     (case plan_manifest (concat (map toml_line [lit ''[dependencies]'', lit ''edition = '' @ draft_marker]))
        DRAFT_EDITION CURRENT_EDITION of Inl _ \<Rightarrow> None | Inr p \<Rightarrow> Some (edits p)) =
   Some [(2, lit ''edition = '' @ draft_marker, lit ''edition = '' @ [ch_quote] @ CURRENT_EDITION @ [ch_quote])]"
  by code_simp

end
