(* ===== verification/Release.thy ===== *)
theory Release
  imports Manifest Diagnostics "HOL-Library.Product_Lexorder" "HOL-Library.Option_ord" "HOL-Library.Multiset"
begin

text \<open>
  The crate \<open>jadren-release\<close>: the bill of materials read from \<open>Cargo.lock\<close> text and the provenance record,
  with their JSON. The JSON value type and its printer are those of the diagnostics theory.
\<close>

definition SBOM_SCHEMA :: ustring where "SBOM_SCHEMA = lit ''jadren-sbom-0.1''"

definition PROVENANCE_SCHEMA :: ustring where "PROVENANCE_SCHEMA = lit ''jadren-provenance-0.1''"

record Component =
  comp_name :: ustring
  comp_version :: ustring
  comp_source :: ustring
  comp_checksum :: "ustring option"

record Sbom =
  components :: "Component list"

datatype ReleaseError = Lockfile ustring | ProvenanceError ustring

definition release_error_to_string :: "ReleaseError \<Rightarrow> ustring" where
  "release_error_to_string e =
     (case e of Lockfile m \<Rightarrow> lit ''lockfile error: '' @ m | ProvenanceError m \<Rightarrow> lit ''provenance error: '' @ m)"

text \<open>The derived order of the fields, in declaration order; an absent checksum is least.\<close>

definition component_key :: "Component \<Rightarrow> ustring \<times> ustring \<times> ustring \<times> ustring option" where
  "component_key c = (comp_name c, comp_version c, comp_source c, comp_checksum c)"

subsection \<open>Reading the lock file\<close>

record ComponentBuilder =
  b_name :: "ustring option"
  b_version :: "ustring option"
  b_source :: "ustring option"
  b_checksum :: "ustring option"

definition builder_default :: ComponentBuilder where
  "builder_default = \<lparr>b_name = None, b_version = None, b_source = None, b_checksum = None\<rparr>"

definition builder_finish :: "ComponentBuilder \<Rightarrow> nat \<Rightarrow> (ReleaseError, Component) result" where
  "builder_finish b ln =
     result_bind (ok_or (b_name b) (Lockfile (lit ''package near line '' @ nat_to_string ln @ lit '' has no name''))) (\<lambda>name.
     result_bind (ok_or (b_version b) (Lockfile (lit ''package `'' @ name @ lit ''` near line '' @ nat_to_string ln @
         lit '' has no version''))) (\<lambda>version.
       Ok \<lparr>comp_name = name, comp_version = version,
           comp_source = (case b_source b of Some s \<Rightarrow> s | None \<Rightarrow> lit ''workspace''),
           comp_checksum = b_checksum b\<rparr>))"

definition release_parse_string :: "ustring \<Rightarrow> nat \<Rightarrow> (ReleaseError, ustring) result" where
  "release_parse_string v ln =
     (if str_len v < 2 \<or> \<not> starts_with v [ch_quote] \<or> \<not> ends_with v [ch_quote]
      then Err (Lockfile (lit ''line '' @ nat_to_string ln @ lit '' requires a quoted string''))
      else let inner = butlast (tl v) in
        if list_ex is_line_end inner
        then Err (Lockfile (lit ''line '' @ nat_to_string ln @ lit '' contains an invalid string''))
        else Ok inner)"

definition builder_set :: "ustring \<Rightarrow> ustring \<Rightarrow> nat \<Rightarrow> ComponentBuilder \<Rightarrow> (ReleaseError, ComponentBuilder) result" where
  "builder_set key v ln b =
     (if key = lit ''name'' then result_bind (release_parse_string v ln) (\<lambda>s. Ok (b\<lparr>b_name := Some s\<rparr>))
      else if key = lit ''version'' then result_bind (release_parse_string v ln) (\<lambda>s. Ok (b\<lparr>b_version := Some s\<rparr>))
      else if key = lit ''source'' then result_bind (release_parse_string v ln) (\<lambda>s. Ok (b\<lparr>b_source := Some s\<rparr>))
      else if key = lit ''checksum'' then result_bind (release_parse_string v ln) (\<lambda>s. Ok (b\<lparr>b_checksum := Some s\<rparr>))
      else Ok b)"

text \<open>The loop over the lines, with the record being built and the components finished so far.\<close>

fun lock_lines :: "nat \<Rightarrow> ustring list \<Rightarrow> ComponentBuilder option \<Rightarrow> Component list \<Rightarrow>
    (ReleaseError, ComponentBuilder option \<times> Component list) result" where
  "lock_lines index [] current cs = Ok (current, cs)"
| "lock_lines index (raw # ls) current cs =
     (let ln = trim raw in
      if ln = lit ''[[package]]'' then
        (case current of
           Some b \<Rightarrow> result_bind (builder_finish b (index + 1)) (\<lambda>c.
             lock_lines (index + 1) ls (Some builder_default) (cs @ [c]))
         | None \<Rightarrow> lock_lines (index + 1) ls (Some builder_default) cs)
      else case current of
        None \<Rightarrow> lock_lines (index + 1) ls current cs
      | Some b \<Rightarrow>
          (case split_once (ch CHR ''='') ln of
             None \<Rightarrow> lock_lines (index + 1) ls current cs
           | Some (key, v) \<Rightarrow>
               result_bind (builder_set (trim key) (trim v) (index + 1) b) (\<lambda>b'.
                 lock_lines (index + 1) ls (Some b') cs)))"

definition lock_records :: "ustring \<Rightarrow> (ReleaseError, Component list) result" where
  "lock_records s =
     result_bind (lock_lines 0 (str_lines s) None []) (\<lambda>(current, cs).
       case current of
         None \<Rightarrow> Ok cs
       | Some b \<Rightarrow> result_bind (builder_finish b (length (str_lines s) + 1)) (\<lambda>c. Ok (cs @ [c])))"

text \<open>\<open>retain\<close> with the set of components seen: the first of equal ones stays.\<close>

fun retain_new :: "Component list \<Rightarrow> Component list \<Rightarrow> Component list" where
  "retain_new seen [] = []"
| "retain_new seen (c # cs) = (if c \<in> set seen then retain_new seen cs else c # retain_new (c # seen) cs)"

definition from_cargo_lock :: "ustring \<Rightarrow> (ReleaseError, Sbom) result" where
  "from_cargo_lock s =
     result_bind (lock_records s) (\<lambda>cs.
       let sorted = retain_new [] (sort_key component_key cs)
       in if sorted = [] then Err (Lockfile (lit ''no [[package]] records found''))
          else Ok \<lparr>components = sorted\<rparr>)"

subsection \<open>JSON and provenance\<close>

definition replace_char :: "uchar \<Rightarrow> ustring \<Rightarrow> ustring \<Rightarrow> ustring" where
  "replace_char c r s = concat (map (\<lambda>x. if x = c then r else [x]) s)"

definition release_quote :: "ustring \<Rightarrow> ustring" where
  "release_quote v =
     [ch_quote] @ replace_char ch_quote [ch_backslash, ch_quote] (replace_char ch_backslash [ch_backslash, ch_backslash] v) @ [ch_quote]"

definition in_quotes :: "ustring \<Rightarrow> ustring" where
  "in_quotes s = [ch_quote] @ s @ [ch_quote]"

definition component_to_json :: "Component \<Rightarrow> ustring" where
  "component_to_json c =
     [ch CHR ''{''] @ in_quotes (lit ''name'') @ lit '':'' @ release_quote (comp_name c) @
     lit '','' @ in_quotes (lit ''version'') @ lit '':'' @ release_quote (comp_version c) @
     lit '','' @ in_quotes (lit ''source'') @ lit '':'' @ release_quote (comp_source c) @
     lit '','' @ in_quotes (lit ''checksum'') @ lit '':'' @
     (case comp_checksum c of Some s \<Rightarrow> release_quote s | None \<Rightarrow> lit ''null'') @ [ch CHR ''}'']"

fun push_components :: "bool \<Rightarrow> Component list \<Rightarrow> ustring" where
  "push_components first [] = []"
| "push_components first (c # cs) = (if first then [] else lit '','') @ component_to_json c @ push_components False cs"

definition sbom_to_json :: "Sbom \<Rightarrow> ustring" where
  "sbom_to_json s =
     [ch CHR ''{''] @ in_quotes (lit ''schema'') @ lit '':'' @ [ch_quote] @ SBOM_SCHEMA @ [ch_quote] @
     lit '','' @ in_quotes (lit ''format'') @ lit '':'' @ in_quotes (lit ''SPDX-lite'') @
     lit '','' @ in_quotes (lit ''components'') @ lit '':['' @ push_components True (components s) @ lit '']}'' @ [ch_newline]"

definition sbom_fingerprint :: "Sbom \<Rightarrow> Fingerprint" where
  "sbom_fingerprint s = fingerprint_bytes (lit ''jadren-sbom-0.1'') (as_bytes (sbom_to_json s))"

record Provenance =
  prov_fingerprint :: Fingerprint
  source_fingerprint :: ustring
  toolchain :: ustring

definition provenance_new :: "Sbom \<Rightarrow> ustring \<Rightarrow> ustring \<Rightarrow> (ReleaseError, Provenance) result" where
  "provenance_new s src tool =
     (if src = [] \<or> tool = []
      then Err (ProvenanceError (lit ''source fingerprint and toolchain must be non-empty''))
      else Ok \<lparr>prov_fingerprint = sbom_fingerprint s, source_fingerprint = src, toolchain = tool\<rparr>)"

definition provenance_to_json :: "Provenance \<Rightarrow> ustring" where
  "provenance_to_json p =
     [ch CHR ''{''] @ in_quotes (lit ''schema'') @ lit '':'' @ in_quotes PROVENANCE_SCHEMA @
     lit '','' @ in_quotes (lit ''sbom_fingerprint'') @ lit '':'' @ in_quotes (fingerprint_to_string (prov_fingerprint p)) @
     lit '','' @ in_quotes (lit ''source_fingerprint'') @ lit '':'' @ release_quote (source_fingerprint p) @
     lit '','' @ in_quotes (lit ''toolchain'') @ lit '':'' @ release_quote (toolchain p) @ [ch CHR ''}'', ch_newline]"

subsection \<open>What the JSON is meant to be\<close>

definition component_json :: "Component \<Rightarrow> json" where
  "component_json c =
     JObj [(lit ''name'', JStr (comp_name c)), (lit ''version'', JStr (comp_version c)), (lit ''source'', JStr (comp_source c)),
           (lit ''checksum'', case comp_checksum c of Some s \<Rightarrow> JStr s | None \<Rightarrow> JNull)]"

definition sbom_json :: "Sbom \<Rightarrow> json" where
  "sbom_json s =
     JObj [(lit ''schema'', JStr SBOM_SCHEMA), (lit ''format'', JStr (lit ''SPDX-lite'')),
           (lit ''components'', JArr (map component_json (components s)))]"

definition component_strings :: "Component \<Rightarrow> ustring list" where
  "component_strings c = [comp_name c, comp_version c, comp_source c] @ (case comp_checksum c of Some s \<Rightarrow> [s] | None \<Rightarrow> [])"

text \<open>The condition under which \<open>quote\<close> writes a JSON string: no control characters.\<close>

definition sbom_printable :: "Sbom \<Rightarrow> bool" where
  "sbom_printable s = list_all (\<lambda>c. list_all (list_all (\<lambda>x. \<not> is_control x)) (component_strings c)) (components s)"

text \<open>The lock file of the crate's tests, with its two records in both orders.\<close>

definition sample_record :: "string \<Rightarrow> ustring" where
  "sample_record n = concat (map toml_line [lit ''[[package]]'', lit ''name = '' @ in_quotes (lit n), lit ''version = '' @ in_quotes (lit ''0.1.0'')])"

subsection \<open>Quoting\<close>

lemma release_quote_chars:
  "release_quote v = [ch_quote] @ concat (map (\<lambda>x. if x = ch_quote then [ch_backslash, ch_quote]
     else if x = ch_backslash then [ch_backslash, ch_backslash] else [x]) v) @ [ch_quote]"
proof -
  have "replace_char ch_quote [ch_backslash, ch_quote] (replace_char ch_backslash [ch_backslash, ch_backslash] v) =
      concat (map (\<lambda>x. if x = ch_quote then [ch_backslash, ch_quote]
        else if x = ch_backslash then [ch_backslash, ch_backslash] else [x]) v)"
    by (induction v) (simp_all add: replace_char_def)
  then show ?thesis by (simp add: release_quote_def)
qed

lemma release_quote_json: "list_all (\<lambda>x. \<not> is_control x) v \<Longrightarrow> release_quote v = json_string v"
proof -
  assume v: "list_all (\<lambda>x. \<not> is_control x) v"
  have "\<not> is_control x \<Longrightarrow> json_char x = (if x = ch_quote then [ch_backslash, ch_quote]
     else if x = ch_backslash then [ch_backslash, ch_backslash] else [x])" for x
    by (auto simp: json_char_def is_control_def)
  with v have "map (\<lambda>x. if x = ch_quote then [ch_backslash, ch_quote]
     else if x = ch_backslash then [ch_backslash, ch_backslash] else [x]) v = map json_char v"
    by (auto simp: list_all_iff)
  then show ?thesis unfolding release_quote_chars json_string_def by (simp only:)
qed

lemma in_quotes_json: "\<forall>c \<in> set k. 35 \<le> c \<and> c < 92 \<or> 93 \<le> c \<and> c < 127 \<Longrightarrow> in_quotes k = json_string k"
  by (simp add: in_quotes_def json_string_plain)

lemma component_to_json_eq:
  assumes "list_all (list_all (\<lambda>x. \<not> is_control x)) (component_strings c)"
  shows "component_to_json c = json_print (component_json c)"
  using assms
  by (cases "comp_checksum c")
    (simp_all add: component_to_json_def component_json_def component_strings_def release_quote_json in_quotes_json)

lemma push_components_eq:
  assumes "list_all (\<lambda>c. list_all (list_all (\<lambda>x. \<not> is_control x)) (component_strings c)) cs"
  shows "push_components False cs = concat (map (\<lambda>y. ch_comma # y) (map (\<lambda>c. json_print (component_json c)) cs))"
  using assms by (induction cs) (simp_all add: component_to_json_eq)

subsection \<open>Sorting\<close>

lemma component_key_inj: "component_key c = component_key d \<Longrightarrow> c = d"
  by (cases c; cases d) (simp add: component_key_def)

lemma retain_new_set: "set (retain_new seen cs) = set cs - set seen"
  by (induction seen cs rule: retain_new.induct) auto

lemma retain_new_sorted:
  "sorted (map component_key cs) \<Longrightarrow> sorted_wrt (<) (map component_key (retain_new seen cs))"
proof (induction seen cs rule: retain_new.induct)
  case (2 seen c cs)
  have "component_key c < component_key x" if "x \<in> set (retain_new (c # seen) cs)" for x
  proof -
    have "x \<in> set cs" "x \<noteq> c" using that by (auto simp: retain_new_set)
    moreover from this have "component_key c \<le> component_key x" using "2.prems" by auto
    moreover have "component_key c \<noteq> component_key x" using \<open>x \<noteq> c\<close> component_key_inj by blast
    ultimately show ?thesis by simp
  qed
  with 2 show ?case by auto
qed simp

text \<open>Sorting and removing duplicates depends on the set of components only.\<close>

lemma sbom_components_set:
  assumes "set cs = set ds"
  shows "retain_new [] (sort_key component_key cs) = retain_new [] (sort_key component_key ds)" (is "?a = ?b")
proof -
  have "sorted_wrt (<) (map component_key ?a)" "sorted_wrt (<) (map component_key ?b)"
    by (simp_all add: retain_new_sorted)
  moreover have "set (map component_key ?a) = set (map component_key ?b)" using assms by (simp add: retain_new_set)
  ultimately have "map component_key ?a = map component_key ?b" using strict_sorted_equal by metis
  then show ?thesis by (metis (no_types) component_key_inj inj_onI map_injective injI)
qed

subsection \<open>Properties\<close>

text \<open>
  A bill of materials is not empty, its components are in strictly ascending order, and they are exactly the
  records of the lock file.
\<close>

theorem from_cargo_lock_sorted:
  assumes "from_cargo_lock s = Ok b"
  shows "components b \<noteq> [] \<and> sorted_wrt (<) (map component_key (components b)) \<and>
    (\<exists>cs. lock_records s = Ok cs \<and> set (components b) = set cs)"
  using assms by (auto simp: from_cargo_lock_def result_bind_eq_Ok Let_def retain_new_set retain_new_sorted split: if_splits)

text \<open>
  The order and the repetition of the records do not matter: two lock files with the same set of records
  give the same bill of materials, byte for byte also as JSON.
\<close>

theorem from_cargo_lock_order:
  assumes "lock_records s = Ok cs" "lock_records t = Ok ds" "set cs = set ds"
  shows "from_cargo_lock s = from_cargo_lock t"
  using sbom_components_set [OF assms(3)] assms(1,2) by (simp add: from_cargo_lock_def)

theorem from_cargo_lock_sorted_witness:
  "\<exists>b. from_cargo_lock (sample_record ''sha2'' @ sample_record ''cli'') = Ok b \<and>
     map comp_name (components b) = [lit ''cli'', lit ''sha2''] \<and> sorted_wrt (<) (map component_key (components b))"
proof -
  let ?s = "sample_record ''sha2'' @ sample_record ''cli''"
  have "case from_cargo_lock ?s of Inl e \<Rightarrow> False | Inr b \<Rightarrow> map comp_name (components b) = [lit ''cli'', lit ''sha2'']"
    by code_simp
  then obtain b where b: "from_cargo_lock ?s = Ok b" "map comp_name (components b) = [lit ''cli'', lit ''sha2'']"
    by (auto split: sum.splits)
  have "sorted_wrt (<) (map component_key (components b))" using from_cargo_lock_sorted [OF b(1)] by (elim conjE)
  with b show ?thesis by (intro exI [of _ b] conjI)
qed

theorem from_cargo_lock_order_witness:
  "from_cargo_lock (sample_record ''sha2'' @ sample_record ''cli'') =
     from_cargo_lock (sample_record ''cli'' @ sample_record ''sha2'' @ sample_record ''cli'')"
proof -
  let ?s = "sample_record ''sha2'' @ sample_record ''cli''"
  let ?t = "sample_record ''cli'' @ sample_record ''sha2'' @ sample_record ''cli''"
  have "case (lock_records ?s, lock_records ?t) of (Inr cs, Inr ds) \<Rightarrow> set cs = set ds | _ \<Rightarrow> False" by code_simp
  then obtain cs ds where "lock_records ?s = Ok cs" "lock_records ?t = Ok ds" "set cs = set ds"
    by (auto split: sum.splits)
  then show ?thesis by (rule from_cargo_lock_order)
qed

text \<open>
  The hand-written JSON of a bill of materials is the print of its JSON value, with a final newline,
  as long as no string has a control character.
\<close>

theorem sbom_to_json_refines:
  assumes "sbom_printable s"
  shows "sbom_to_json s = json_print (sbom_json s) @ [ch_newline]"
proof -
  have "push_components True (components s) = join_with ch_comma (map (\<lambda>c. json_print (component_json c)) (components s))"
  proof (cases "components s")
    case (Cons c cs)
    then have "list_all (\<lambda>c. list_all (list_all (\<lambda>x. \<not> is_control x)) (component_strings c)) (c # cs)"
      using assms by (simp only: sbom_printable_def)
    then show ?thesis using Cons by (simp add: component_to_json_eq push_components_eq join_with_concat)
  qed simp
  then show ?thesis by (simp add: sbom_to_json_def sbom_json_def in_quotes_json json_string_plain SBOM_SCHEMA_def comp_def)
qed

theorem sbom_to_json_refines_witness:
  "\<exists>b. from_cargo_lock (sample_record ''cli'') = Ok b \<and> sbom_printable b \<and> sbom_to_json b = json_print (sbom_json b) @ [ch_newline]"
proof -
  have "case from_cargo_lock (sample_record ''cli'') of Inl e \<Rightarrow> False | Inr b \<Rightarrow> sbom_printable b" by code_simp
  then obtain b where "from_cargo_lock (sample_record ''cli'') = Ok b" "sbom_printable b" by (auto split: sum.splits)
  with sbom_to_json_refines show ?thesis by blast
qed

text \<open>
  A tab inside a quoted value of the lock file reaches the JSON unescaped, where a JSON string has no raw
  control characters.
\<close>

theorem sbom_to_json_raw_tab:
  "(case from_cargo_lock (concat (map toml_line [lit ''[[package]]'', lit ''name = '' @ in_quotes [ch CHR ''a'', ch_tab], lit ''version = '' @ in_quotes (lit ''1'')])) of
      Inl e \<Rightarrow> False
    | Inr b \<Rightarrow> ch_tab \<in> set (sbom_to_json b) \<and> ch_tab \<notin> set (json_print (sbom_json b)))"
  by code_simp

end
