(* ===== verification/State_Ops.thy ===== *)
theory State_Ops
  imports Prelude
begin

text \<open>
  Fallible operations on a mutable state: \<open>&mut self\<close> methods that return a \<open>Result\<close>. An operation returns the
  result together with the state it leaves, also when it fails; \<open>None\<close> is a call that does not return.
  The sequencing, the loops over lists and their monotonicity rules allow operations to be
  defined by \<open>partial_function\<close>; the locale gives the proof rule for operations that only let the state grow.
\<close>

type_synonym ('s, 'e, 'a) op = "'s \<Rightarrow> (('e, 'a) result \<times> 's) option"

definition op_return :: "'a \<Rightarrow> ('s, 'e, 'a) op" where
  "op_return a s = Some (Ok a, s)"

definition op_throw :: "'e \<Rightarrow> ('s, 'e, 'a) op" where
  "op_throw e s = Some (Err e, s)"

text \<open>\<open>?\<close>: an error ends the operation with the state reached so far.\<close>

definition op_bind :: "('s, 'e, 'a) op \<Rightarrow> ('a \<Rightarrow> ('s, 'e, 'b) op) \<Rightarrow> ('s, 'e, 'b) op" where
  "op_bind m f s = Option.bind (m s) (\<lambda>(r, s'). case r of Inl e \<Rightarrow> Some (Err e, s') | Inr a \<Rightarrow> f a s')"

text \<open>An operation that cannot fail.\<close>

definition op_lift :: "('s \<Rightarrow> 'a \<times> 's) \<Rightarrow> ('s, 'e, 'a) op" where
  "op_lift f s = (case f s of (a, s') \<Rightarrow> Some (Ok a, s'))"

text \<open>\<open>ok_or\<close> followed by \<open>?\<close>.\<close>

definition op_ok_or :: "'a option \<Rightarrow> 'e \<Rightarrow> ('s, 'e, 'a) op" where
  "op_ok_or x e s = (case x of None \<Rightarrow> Some (Err e, s) | Some a \<Rightarrow> Some (Ok a, s))"

text \<open>\<open>iter().map(f).collect::<Result<Vec<_>, _>>()\<close>: in order, up to the first error.\<close>

fun op_map :: "('a \<Rightarrow> ('s, 'e, 'b) op) \<Rightarrow> 'a list \<Rightarrow> ('s, 'e, 'b list) op" where
  "op_map f [] s = Some (Ok [], s)"
| "op_map f (x # xs) s = op_bind (f x) (\<lambda>y. op_bind (op_map f xs) (\<lambda>ys. op_return (y # ys))) s"

text \<open>Two operations one after the other, and a \<open>for\<close> loop.\<close>

definition op_then :: "('s, 'e, unit) op \<Rightarrow> ('s, 'e, 'a) op \<Rightarrow> ('s, 'e, 'a) op" where
  "op_then m n = op_bind m (\<lambda>_. n)"

fun op_for :: "('a \<Rightarrow> ('s, 'e, unit) op) \<Rightarrow> 'a list \<Rightarrow> ('s, 'e, unit) op" where
  "op_for f [] s = Some (Ok (), s)"
| "op_for f (x # xs) s = op_then (f x) (op_for f xs) s"

lemma op_return_simp [simp]: "op_return a s = Some (Ok a, s)"
  by (simp add: op_return_def)

lemma op_throw_simp [simp]: "op_throw e s = Some (Err e, s)"
  by (simp add: op_throw_def)

lemma op_bind_step [simp]:
  "m s = Some (Ok a, s') \<Longrightarrow> op_bind m f s = f a s'"
  "m s = Some (Err e, s') \<Longrightarrow> op_bind m f s = Some (Err e, s')"
  "m s = None \<Longrightarrow> op_bind m f s = None"
  by (simp_all add: op_bind_def)

lemma op_lift_simp [simp]: "f s = (a, s') \<Longrightarrow> op_lift f s = Some (Ok a, s')"
  by (simp add: op_lift_def)

lemma op_ok_or_simps [simp]:
  "op_ok_or (Some a) e s = Some (Ok a, s)" "op_ok_or None e s = Some (Err e, s)"
  by (simp_all add: op_ok_or_def)

subsection \<open>Monotonicity\<close>

lemma op_bind_mono [partial_function_mono]:
  assumes "mono_option (\<lambda>f. m f s)" "\<And>a s. mono_option (\<lambda>f. g a f s)"
  shows "mono_option (\<lambda>f. op_bind (m f) (\<lambda>a. g a f) s)"
proof -
  have "mono_option (\<lambda>f. case p of (r, s') \<Rightarrow> (case r of Inl e \<Rightarrow> Some (Err e, s') | Inr a \<Rightarrow> g a f s'))" for p
    using assms(2) by (cases p; cases "fst p") (auto intro: option.const_mono)
  then show ?thesis unfolding op_bind_def using assms(1) by (intro bind_mono)
qed

lemma op_map_mono [partial_function_mono]:
  assumes "\<And>x s. mono_option (\<lambda>f. g x f s)"
  shows "mono_option (\<lambda>f. op_map (\<lambda>x. g x f) xs s)"
proof (induction xs arbitrary: s)
  case Nil
  show ?case by (simp add: option.const_mono)
next
  case (Cons x xs)
  show ?case unfolding op_map.simps
    by (intro op_bind_mono assms Cons) (simp add: option.const_mono)
qed

lemma op_then_mono [partial_function_mono]:
  assumes "mono_option (\<lambda>f. m f s)" "\<And>s. mono_option (\<lambda>f. n f s)"
  shows "mono_option (\<lambda>f. op_then (m f) (n f) s)"
  unfolding op_then_def by (intro op_bind_mono assms)

lemma op_for_mono [partial_function_mono]:
  assumes "\<And>x s. mono_option (\<lambda>f. g x f s)"
  shows "mono_option (\<lambda>f. op_for (\<lambda>x. g x f) xs s)"
proof (induction xs arbitrary: s)
  case Nil
  show ?case by (simp add: option.const_mono)
next
  case (Cons x xs)
  show ?case unfolding op_for.simps by (intro op_then_mono assms Cons)
qed

subsection \<open>Operations that let the state grow\<close>

text \<open>
  \<open>ext\<close> is how the state may change, \<open>good\<close> what it keeps. \<open>delivers\<close> says that an operation returns, keeps the
  invariant, only extends the state, and gives either a result with \<open>Q\<close> or an error with \<open>E\<close>.
\<close>

locale growing_state =
  fixes good :: "'s \<Rightarrow> bool" and ext :: "'s \<Rightarrow> 's \<Rightarrow> bool"
  assumes ext_refl: "ext s s"
    and ext_trans: "ext s t \<Longrightarrow> ext t u \<Longrightarrow> ext s u"
begin

definition delivers :: "('s, 'e, 'a) op \<Rightarrow> 's \<Rightarrow> ('e \<Rightarrow> bool) \<Rightarrow> ('a \<Rightarrow> 's \<Rightarrow> bool) \<Rightarrow> bool" where
  "delivers m s E Q \<longleftrightarrow>
     (\<exists>r s'. m s = Some (r, s') \<and> good s' \<and> ext s s' \<and> (case r of Inl e \<Rightarrow> E e | Inr a \<Rightarrow> Q a s'))"

lemma delivers_return: "good s \<Longrightarrow> Q a s \<Longrightarrow> delivers (op_return a) s E Q"
  by (simp add: delivers_def ext_refl)

lemma delivers_throw: "good s \<Longrightarrow> E e \<Longrightarrow> delivers (op_throw e) s E Q"
  by (simp add: delivers_def ext_refl)

lemma delivers_bind:
  assumes "delivers m s E P"
    and "\<And>a s'. good s' \<Longrightarrow> ext s s' \<Longrightarrow> P a s' \<Longrightarrow> delivers (f a) s' E Q"
  shows "delivers (op_bind m f) s E Q"
proof -
  from assms(1) obtain r s' where m: "m s = Some (r, s')" "good s'" "ext s s'"
    "case r of Inl e \<Rightarrow> E e | Inr a \<Rightarrow> P a s'" unfolding delivers_def by blast
  show ?thesis
  proof (cases r)
    case (Inl e)
    with m show ?thesis by (auto simp: delivers_def)
  next
    case (Inr a)
    with m assms(2) have "delivers (f a) s' E Q" by auto
    then obtain r' s'' where f: "f a s' = Some (r', s'')" "good s''" "ext s' s''"
      "case r' of Inl e \<Rightarrow> E e | Inr a \<Rightarrow> Q a s''" unfolding delivers_def by blast
    with m Inr show ?thesis unfolding delivers_def using ext_trans by auto
  qed
qed

lemma delivers_mono:
  assumes "delivers m s E P" "\<And>a s'. good s' \<Longrightarrow> ext s s' \<Longrightarrow> P a s' \<Longrightarrow> Q a s'" "\<And>e. E e \<Longrightarrow> F e"
  shows "delivers m s F Q"
  using assms unfolding delivers_def by (metis (mono_tags, lifting) sum.case_eq_if)

text \<open>A loop over a list: the items are related to the results one by one.\<close>

lemma delivers_map:
  assumes f: "\<And>x t. x \<in> set xs \<Longrightarrow> good t \<Longrightarrow> ext s t \<Longrightarrow> delivers (f x) t E (R x)"
    and stable: "\<And>x y t u. x \<in> set xs \<Longrightarrow> R x y t \<Longrightarrow> ext t u \<Longrightarrow> good u \<Longrightarrow> R x y u"
    and s: "good s"
  shows "delivers (op_map f xs) s E (\<lambda>ys t. list_all2 (\<lambda>x y. R x y t) xs ys)"
  using f stable s
proof (induction xs arbitrary: s)
  case Nil
  then show ?case by (simp add: delivers_def ext_refl)
next
  case (Cons x xs)
  have "op_map f (x # xs) = op_bind (f x) (\<lambda>y. op_bind (op_map f xs) (\<lambda>ys. op_return (y # ys)))"
    by (rule ext) simp
  moreover have "delivers (op_bind (f x) (\<lambda>y. op_bind (op_map f xs) (\<lambda>ys. op_return (y # ys)))) s E
      (\<lambda>ys t. list_all2 (\<lambda>x y. R x y t) (x # xs) ys)"
  proof (rule delivers_bind)
    show "delivers (f x) s E (R x)" using Cons.prems ext_refl by simp
  next
    fix y s' assume s': "good s'" "ext s s'" "R x y s'"
    show "delivers (op_bind (op_map f xs) (\<lambda>ys. op_return (y # ys))) s' E
        (\<lambda>ys t. list_all2 (\<lambda>x y. R x y t) (x # xs) ys)"
    proof (rule delivers_bind)
      show "delivers (op_map f xs) s' E (\<lambda>ys t. list_all2 (\<lambda>x y. R x y t) xs ys)"
      proof (rule Cons.IH)
        show "delivers (f z) t E (R z)" if "z \<in> set xs" "good t" "ext s' t" for z t
          using that Cons.prems(1) ext_trans [OF s'(2)] by simp
        show "R z v u" if "z \<in> set xs" "R z v t" "ext t u" "good u" for z v t u
          using that Cons.prems(2) [of z v t u] by simp
      qed (rule s'(1))
    next
      fix ys t assume "good t" "ext s' t" "list_all2 (\<lambda>x y. R x y t) xs ys"
      then show "delivers (op_return (y # ys)) t E (\<lambda>ys t. list_all2 (\<lambda>x y. R x y t) (x # xs) ys)"
        using s' Cons.prems(2) by (intro delivers_return) auto
    qed
  qed
  ultimately show ?case by simp
qed

end

end
