(* ===== verification/Types.thy ===== *)
theory Types
  imports Determinism BTree State_Ops
begin

text \<open>
  The crate \<open>jadren-types\<close>, first part: the type descriptions, the interner \<open>TypeStore\<close> that gives equal
  descriptions the same identity, the application of core type names, and the fingerprints of concrete
  types. A description over identities is one level of a type; the tree of an identity unfolds it completely.
  Shown here: the interner is injective on trees, and a fingerprint depends on the tree only.
\<close>

subsection \<open>Identities and declarations\<close>

type_synonym TypeId = nat
type_synonym TypeVariableId = nat

datatype NominalTypeId = NominalTypeId (nominal_fingerprint: Fingerprint)

definition from_path :: "ustring \<Rightarrow> NominalTypeId" where
  "from_path canonical_path =
     NominalTypeId (hash_finish (write_str (with_domain (lit ''jadren-nominal-type-v1'')) canonical_path))"

text \<open>The derived order: by owner, then by position.\<close>

datatype GenericParameterId = GenericParameterId (owner: Fingerprint) (parameter_index: nat)

instantiation Fingerprint :: linorder
begin

definition less_eq_Fingerprint :: "Fingerprint \<Rightarrow> Fingerprint \<Rightarrow> bool" where
  "less_eq_Fingerprint a b \<longleftrightarrow> as_u64 a \<le> as_u64 b"

definition less_Fingerprint :: "Fingerprint \<Rightarrow> Fingerprint \<Rightarrow> bool" where
  "less_Fingerprint a b \<longleftrightarrow> as_u64 a < as_u64 b"

instance
  by standard (auto simp: less_eq_Fingerprint_def less_Fingerprint_def intro: Fingerprint.expand)

end

instantiation GenericParameterId :: linorder
begin

definition less_eq_GenericParameterId :: "GenericParameterId \<Rightarrow> GenericParameterId \<Rightarrow> bool" where
  "less_eq_GenericParameterId a b \<longleftrightarrow> owner a < owner b \<or> owner a = owner b \<and> parameter_index a \<le> parameter_index b"

definition less_GenericParameterId :: "GenericParameterId \<Rightarrow> GenericParameterId \<Rightarrow> bool" where
  "less_GenericParameterId a b \<longleftrightarrow> owner a < owner b \<or> owner a = owner b \<and> parameter_index a < parameter_index b"

instance
  by standard (auto simp: less_eq_GenericParameterId_def less_GenericParameterId_def intro: GenericParameterId.expand)

end

datatype AbiRepr = AbiJadren | AbiC

record NominalFieldLayout =
  field_name :: ustring
  field_ty :: TypeId

record NominalVariantLayout =
  variant_name :: ustring
  variant_fields :: "TypeId list"

datatype NominalLayoutKind = RecordLayout "NominalFieldLayout list" | EnumLayout "NominalVariantLayout list"

record NominalLayout =
  layout_constructor :: NominalTypeId
  generic_parameters :: "GenericParameterId list"
  abi_repr :: AbiRepr
  layout_kind :: NominalLayoutKind

subsection \<open>Traits\<close>

datatype BuiltinTrait = Addable | Numeric | IntegerTrait | Floating | Equatable | Ordered

definition BUILTIN_TRAITS :: "BuiltinTrait list" where
  "BUILTIN_TRAITS = [Addable, Numeric, IntegerTrait, Floating, Equatable, Ordered]"

definition trait_name :: "BuiltinTrait \<Rightarrow> ustring" where
  "trait_name t = (case t of
      Addable \<Rightarrow> lit ''Addable'' | Numeric \<Rightarrow> lit ''Numeric'' | IntegerTrait \<Rightarrow> lit ''Integer''
    | Floating \<Rightarrow> lit ''Floating'' | Equatable \<Rightarrow> lit ''Equatable'' | Ordered \<Rightarrow> lit ''Ordered'')"

definition trait_from_name :: "ustring \<Rightarrow> BuiltinTrait option" where
  "trait_from_name name = find (\<lambda>t. trait_name t = name) BUILTIN_TRAITS"

definition trait_implies :: "BuiltinTrait \<Rightarrow> BuiltinTrait \<Rightarrow> bool" where
  "trait_implies t required \<longleftrightarrow>
     t = required \<or>
     (t = IntegerTrait \<or> t = Floating) \<and> required = Numeric \<or>
     (t = IntegerTrait \<or> t = Floating \<or> t = Numeric) \<and> required = Addable \<or>
     (t = IntegerTrait \<or> t = Floating \<or> t = Numeric) \<and> required = Equatable \<or>
     (t = IntegerTrait \<or> t = Floating \<or> t = Numeric) \<and> required = Ordered"

subsection \<open>Type descriptions\<close>

datatype Signedness = Signed | Unsigned
datatype IntegerWidth = IntBits8 | IntBits16 | IntBits32 | IntBits64 | IntPointer
datatype FloatWidth = FloatBits16 | FloatBits32 | FloatBits64
datatype Capability = Owned | Read | Write

text \<open>
  One level of a type over identities \<open>'t\<close> for its parts; with \<open>TypeId\<close> it is \<open>TypeKind\<close>, with whole types it is the
  node of a tree.
\<close>

datatype 't type_kind =
    TError | TBool | TChar | TString | TOwnedString | TUnit | TNever
  | TInteger Signedness IntegerWidth
  | TFloat FloatWidth
  | TVector 't "16 word"
  | TArray 't "64 word"
  | TBuffer 't
  | TSlice 't
  | TPointer 't
  | TOption 't
  | TResult 't 't
  | TNominal NominalTypeId "'t list"
  | TGeneric GenericParameterId
  | TInfer TypeVariableId
  | TFunction "'t list" 't
  | TCapability Capability 't

type_synonym TypeKind = "TypeId type_kind"

datatype Ty = Ty (node: "Ty type_kind")

definition is_integer :: "'t type_kind \<Rightarrow> bool" where
  "is_integer k = (case k of TInteger _ _ \<Rightarrow> True | _ \<Rightarrow> False)"

definition is_numeric :: "'t type_kind \<Rightarrow> bool" where
  "is_numeric k = (case k of TInteger _ _ \<Rightarrow> True | TFloat _ \<Rightarrow> True | TVector _ _ \<Rightarrow> True | _ \<Rightarrow> False)"

definition is_vector :: "'t type_kind \<Rightarrow> bool" where
  "is_vector k = (case k of TVector _ _ \<Rightarrow> True | _ \<Rightarrow> False)"

datatype CarrierTag = Residual | Success

definition tag_from_raw :: "32 word \<Rightarrow> CarrierTag option" where
  "tag_from_raw r = (if r = 0 then Some Residual else if r = 1 then Some Success else None)"

definition tag_raw :: "CarrierTag \<Rightarrow> 32 word" where
  "tag_raw t = (case t of Residual \<Rightarrow> 0 | Success \<Rightarrow> 1)"

definition is_success :: "CarrierTag \<Rightarrow> bool" where
  "is_success t \<longleftrightarrow> t = Success"

datatype CarrierKind = OptionCarrier | ResultCarrier

definition residual_tag :: "CarrierKind \<Rightarrow> CarrierTag" where "residual_tag c = Residual"

definition success_tag :: "CarrierKind \<Rightarrow> CarrierTag" where "success_tag c = Success"

definition carrier_from_type :: "'t type_kind \<Rightarrow> CarrierKind option" where
  "carrier_from_type k = (case k of TOption _ \<Rightarrow> Some OptionCarrier | TResult _ _ \<Rightarrow> Some ResultCarrier | _ \<Rightarrow> None)"

subsection \<open>The interner\<close>

record CoreTypes =
  c_error :: TypeId
  c_bool :: TypeId
  c_char :: TypeId
  c_string :: TypeId
  c_owned_string :: TypeId
  c_unit :: TypeId
  c_never :: TypeId
  c_int8 :: TypeId
  c_int16 :: TypeId
  c_int32 :: TypeId
  c_int64 :: TypeId
  c_int_size :: TypeId
  c_uint8 :: TypeId
  c_uint16 :: TypeId
  c_uint32 :: TypeId
  c_uint64 :: TypeId
  c_uint_size :: TypeId
  c_float16 :: TypeId
  c_float32 :: TypeId
  c_float64 :: TypeId
  c_float2 :: TypeId
  c_float3 :: TypeId
  c_float4 :: TypeId
  c_float8 :: TypeId

record TypeStore =
  kinds :: "TypeKind list"
  interned :: "TypeKind \<Rightarrow> TypeId option"
  core :: CoreTypes

definition kind_of :: "TypeStore \<Rightarrow> TypeId \<Rightarrow> TypeKind option" where
  "kind_of s i = get (kinds s) i"

definition intern :: "TypeKind \<Rightarrow> TypeStore \<Rightarrow> TypeId \<times> TypeStore" where
  "intern k s =
     (case interned s k of
        Some i \<Rightarrow> (i, s)
      | None \<Rightarrow>
          (let i = length (kinds s)
           in (i, s\<lparr>kinds := kinds s @ [k], interned := (interned s)(k \<mapsto> i)\<rparr>)))"

definition store_len :: "TypeStore \<Rightarrow> nat" where
  "store_len s = length (kinds s)"

definition store_is_empty :: "TypeStore \<Rightarrow> bool" where
  "store_is_empty s \<longleftrightarrow> kinds s = []"

definition intern_integer :: "Signedness \<Rightarrow> IntegerWidth \<Rightarrow> TypeStore \<Rightarrow> TypeId \<times> TypeStore" where
  "intern_integer sg w s = intern (TInteger sg w) s"

text \<open>The store before the core types are interned: every core identity is zero.\<close>

definition core_zero :: CoreTypes where
  "core_zero = \<lparr>c_error = 0, c_bool = 0, c_char = 0, c_string = 0, c_owned_string = 0, c_unit = 0, c_never = 0,
     c_int8 = 0, c_int16 = 0, c_int32 = 0, c_int64 = 0, c_int_size = 0,
     c_uint8 = 0, c_uint16 = 0, c_uint32 = 0, c_uint64 = 0, c_uint_size = 0,
     c_float16 = 0, c_float32 = 0, c_float64 = 0, c_float2 = 0, c_float3 = 0, c_float4 = 0, c_float8 = 0\<rparr>"

definition store_empty :: TypeStore where
  "store_empty = \<lparr>kinds = [], interned = Map.empty, core = core_zero\<rparr>"

definition type_store_new :: TypeStore where
  "type_store_new =
     (case intern TError store_empty of (error, s) \<Rightarrow>
      case intern TBool s of (bool, s) \<Rightarrow>
      case intern TChar s of (char, s) \<Rightarrow>
      case intern TString s of (string, s) \<Rightarrow>
      case intern TUnit s of (unit, s) \<Rightarrow>
      case intern TNever s of (never, s) \<Rightarrow>
      case intern_integer Signed IntBits8 s of (int8, s) \<Rightarrow>
      case intern_integer Signed IntBits16 s of (int16, s) \<Rightarrow>
      case intern_integer Signed IntBits32 s of (int32, s) \<Rightarrow>
      case intern_integer Signed IntBits64 s of (int64, s) \<Rightarrow>
      case intern_integer Signed IntPointer s of (int_size, s) \<Rightarrow>
      case intern_integer Unsigned IntBits8 s of (uint8, s) \<Rightarrow>
      case intern_integer Unsigned IntBits16 s of (uint16, s) \<Rightarrow>
      case intern_integer Unsigned IntBits32 s of (uint32, s) \<Rightarrow>
      case intern_integer Unsigned IntBits64 s of (uint64, s) \<Rightarrow>
      case intern_integer Unsigned IntPointer s of (uint_size, s) \<Rightarrow>
      case intern (TFloat FloatBits16) s of (float16, s) \<Rightarrow>
      case intern (TFloat FloatBits32) s of (float32, s) \<Rightarrow>
      case intern (TFloat FloatBits64) s of (float64, s) \<Rightarrow>
      case intern (TVector float32 4) s of (float4, s) \<Rightarrow>
      case intern (TVector float32 8) s of (float8, s) \<Rightarrow>
      case intern (TVector float32 2) s of (float2, s) \<Rightarrow>
      case intern (TVector float32 3) s of (float3, s) \<Rightarrow>
      case intern TOwnedString s of (owned_string, s) \<Rightarrow>
        s\<lparr>core := \<lparr>c_error = error, c_bool = bool, c_char = char, c_string = string, c_owned_string = owned_string,
            c_unit = unit, c_never = never,
            c_int8 = int8, c_int16 = int16, c_int32 = int32, c_int64 = int64, c_int_size = int_size,
            c_uint8 = uint8, c_uint16 = uint16, c_uint32 = uint32, c_uint64 = uint64, c_uint_size = uint_size,
            c_float16 = float16, c_float32 = float32, c_float64 = float64,
            c_float2 = float2, c_float3 = float3, c_float4 = float4, c_float8 = float8\<rparr>\<rparr>)"

subsection \<open>Core type names\<close>

datatype BuiltinTypeError = UnknownBuiltin ustring | Arity ustring nat nat

definition builtin_error_to_string :: "BuiltinTypeError \<Rightarrow> ustring" where
  "builtin_error_to_string e =
     (case e of
        UnknownBuiltin name \<Rightarrow> lit ''unknown core type `'' @ name @ lit ''`''
      | Arity name expected actual \<Rightarrow>
          lit ''core type `'' @ name @ lit ''` expects '' @ nat_to_string expected @
          lit '' type arguments but received '' @ nat_to_string actual)"

definition require_arity :: "ustring \<Rightarrow> TypeId list \<Rightarrow> nat \<Rightarrow> (BuiltinTypeError, unit) result" where
  "require_arity name arguments expected =
     (if length arguments = expected then Ok () else Err (Arity name expected (length arguments)))"

text \<open>The first \<open>match name\<close>: the scalars, as pairs of a spelling and the core identity.\<close>

definition scalar_names :: "CoreTypes \<Rightarrow> (ustring \<times> TypeId) list" where
  "scalar_names c =
     [(lit ''Bool'', c_bool c), (lit ''Char'', c_char c), (lit ''String'', c_string c),
      (lit ''OwnedString'', c_owned_string c), (lit ''Status'', c_int32 c), (lit ''Unit'', c_unit c),
      (lit ''Never'', c_never c), (lit ''Int8'', c_int8 c), (lit ''Int16'', c_int16 c), (lit ''Int32'', c_int32 c),
      (lit ''Int64'', c_int64 c), (lit ''IntSize'', c_int_size c), (lit ''UInt8'', c_uint8 c),
      (lit ''UInt16'', c_uint16 c), (lit ''UInt32'', c_uint32 c), (lit ''UInt64'', c_uint64 c),
      (lit ''UIntSize'', c_uint_size c), (lit ''Float16'', c_float16 c), (lit ''F16'', c_float16 c),
      (lit ''Float32'', c_float32 c), (lit ''F32'', c_float32 c), (lit ''Float64'', c_float64 c),
      (lit ''F64'', c_float64 c), (lit ''Float2'', c_float2 c), (lit ''Float3'', c_float3 c),
      (lit ''Float4'', c_float4 c), (lit ''Float8'', c_float8 c)]"

definition apply_builtin :: "ustring \<Rightarrow> TypeId list \<Rightarrow> TypeStore \<Rightarrow> (BuiltinTypeError, TypeId) result \<times> TypeStore" where
  "apply_builtin name arguments s =
     (case map_of (scalar_names (core s)) name of
        Some i \<Rightarrow> (result_bind (require_arity name arguments 0) (\<lambda>_. Ok i), s)
      | None \<Rightarrow>
          (let unary = (\<lambda>con.
                 case require_arity name arguments 1 of
                   Inl e \<Rightarrow> (Err e, s)
                 | Inr _ \<Rightarrow> (case intern (con (arguments ! 0)) s of (i, s') \<Rightarrow> (Ok i, s')))
           in if name = lit ''Buffer'' \<or> name = lit ''DynamicArray'' then unary TBuffer
              else if name = lit ''Slice'' then unary TSlice
              else if name = lit ''Pointer'' then unary TPointer
              else if name = lit ''Option'' then unary TOption
              else if name = lit ''Result'' then
                (case require_arity name arguments 2 of
                   Inl e \<Rightarrow> (Err e, s)
                 | Inr _ \<Rightarrow> (case intern (TResult (arguments ! 0) (arguments ! 1)) s of (i, s') \<Rightarrow> (Ok i, s')))
              else (Err (UnknownBuiltin name), s)))"

subsection \<open>Fingerprints of concrete types\<close>

datatype TypeTransformError = InvalidType TypeId | InferenceVariableError TypeVariableId | GenericParameterError GenericParameterId

definition signedness_u64 :: "Signedness \<Rightarrow> 64 word" where
  "signedness_u64 s = (case s of Signed \<Rightarrow> 0 | Unsigned \<Rightarrow> 1)"

definition integer_width_u64 :: "IntegerWidth \<Rightarrow> 64 word" where
  "integer_width_u64 w = (case w of IntBits8 \<Rightarrow> 0 | IntBits16 \<Rightarrow> 1 | IntBits32 \<Rightarrow> 2 | IntBits64 \<Rightarrow> 3 | IntPointer \<Rightarrow> 4)"

definition float_width_u64 :: "FloatWidth \<Rightarrow> 64 word" where
  "float_width_u64 w = (case w of FloatBits16 \<Rightarrow> 0 | FloatBits32 \<Rightarrow> 1 | FloatBits64 \<Rightarrow> 2)"

definition capability_u64 :: "Capability \<Rightarrow> 64 word" where
  "capability_u64 c = (case c of Owned \<Rightarrow> 0 | Read \<Rightarrow> 1 | Write \<Rightarrow> 2)"

definition op_write :: "64 word \<Rightarrow> (StableHasher, 'e, unit) op" where
  "op_write v h = Some (Ok (), write_u64 h v)"

partial_function (option) hash_type :: "TypeStore \<Rightarrow> TypeId \<Rightarrow> StableHasher \<Rightarrow> ((TypeTransformError, unit) result \<times> StableHasher) option"
where
  "hash_type st ty h =
     (case kind_of st ty of
        None \<Rightarrow> Some (Err (InvalidType ty), h)
      | Some k \<Rightarrow>
          (case k of
             TError \<Rightarrow> op_write 0 h
           | TBool \<Rightarrow> op_write 1 h
           | TChar \<Rightarrow> op_write 2 h
           | TString \<Rightarrow> op_write 3 h
           | TOwnedString \<Rightarrow> op_write 18 h
           | TUnit \<Rightarrow> op_write 4 h
           | TNever \<Rightarrow> op_write 5 h
           | TInteger sg w \<Rightarrow> op_then (op_write 6) (op_then (op_write (signedness_u64 sg)) (op_write (integer_width_u64 w))) h
           | TFloat w \<Rightarrow> op_then (op_write 7) (op_write (float_width_u64 w)) h
           | TVector e lanes \<Rightarrow> op_then (op_write 17) (op_then (op_write (ucast lanes)) (hash_type st e)) h
           | TArray e n \<Rightarrow> op_then (op_write 8) (op_then (op_write n) (hash_type st e)) h
           | TBuffer e \<Rightarrow> op_then (op_write 9) (hash_type st e) h
           | TSlice e \<Rightarrow> op_then (op_write 10) (hash_type st e) h
           | TPointer e \<Rightarrow> op_then (op_write 11) (hash_type st e) h
           | TOption e \<Rightarrow> op_then (op_write 12) (hash_type st e) h
           | TResult a b \<Rightarrow> op_then (op_write 13) (op_then (hash_type st a) (hash_type st b)) h
           | TNominal c as \<Rightarrow>
               op_then (op_write 14) (op_then (op_write (as_u64 (nominal_fingerprint c)))
                 (op_then (op_write (of_nat (length as))) (op_for (hash_type st) as))) h
           | TGeneric p \<Rightarrow> op_throw (GenericParameterError p) h
           | TInfer v \<Rightarrow> op_throw (InferenceVariableError v) h
           | TFunction ps r \<Rightarrow>
               op_then (op_write 15) (op_then (op_write (of_nat (length ps)))
                 (op_then (op_for (hash_type st) ps) (hash_type st r))) h
           | TCapability c e \<Rightarrow> op_then (op_write 16) (op_then (op_write (capability_u64 c)) (hash_type st e)) h))"

text \<open>\<open>TypeFingerprint\<close> and \<open>MonomorphizationKey\<close> wrap fingerprints.\<close>

datatype TypeFingerprint = TypeFingerprint (type_fingerprint: Fingerprint)

definition stable_fingerprint :: "TypeStore \<Rightarrow> TypeId \<Rightarrow> (TypeTransformError, TypeFingerprint) result option" where
  "stable_fingerprint st ty =
     Option.bind (hash_type st ty (with_domain (lit ''jadren-concrete-type-v1''))) (\<lambda>(r, h).
       Some (case r of Inl e \<Rightarrow> Err e | Inr _ \<Rightarrow> Ok (TypeFingerprint (hash_finish h))))"

datatype MonomorphizationKey = MonomorphizationKey (key_fingerprint: Fingerprint)

definition monomorphization_key :: "Fingerprint \<Rightarrow> TypeFingerprint list \<Rightarrow> MonomorphizationKey" where
  "monomorphization_key declaration arguments =
     (let h0 = with_domain (lit ''jadren-monomorphization-v1'');
          h1 = write_u64 h0 (as_u64 declaration);
          h2 = write_u64 h1 (of_nat (length arguments));
          h3 = foldl (\<lambda>h a. write_u64 h (as_u64 (type_fingerprint a))) h2 arguments
      in MonomorphizationKey (hash_finish h3))"

subsection \<open>Trees\<close>

text \<open>
  The well-formed stores: descriptions are distinct, the parts of a description have smaller identities, the map
  is the inverse of the list, and the core identities have their descriptions.
\<close>

definition kinds_ok :: "TypeKind list \<Rightarrow> bool" where
  "kinds_ok ks \<longleftrightarrow> distinct ks \<and> (\<forall>i < length ks. \<forall>c \<in> set_type_kind (ks ! i). c < i)"

definition interner_ok :: "TypeStore \<Rightarrow> bool" where
  "interner_ok s \<longleftrightarrow> kinds_ok (kinds s) \<and> (\<forall>k i. interned s k = Some i \<longleftrightarrow> get (kinds s) i = Some k)"

definition core_ok :: "TypeStore \<Rightarrow> bool" where
  "core_ok s \<longleftrightarrow>
     (let c = core s in
      list_all (\<lambda>(i, k). get (kinds s) i = Some k)
        [(c_error c, TError), (c_bool c, TBool), (c_char c, TChar), (c_string c, TString),
         (c_owned_string c, TOwnedString), (c_unit c, TUnit), (c_never c, TNever),
         (c_int8 c, TInteger Signed IntBits8), (c_int16 c, TInteger Signed IntBits16),
         (c_int32 c, TInteger Signed IntBits32), (c_int64 c, TInteger Signed IntBits64),
         (c_int_size c, TInteger Signed IntPointer),
         (c_uint8 c, TInteger Unsigned IntBits8), (c_uint16 c, TInteger Unsigned IntBits16),
         (c_uint32 c, TInteger Unsigned IntBits32), (c_uint64 c, TInteger Unsigned IntBits64),
         (c_uint_size c, TInteger Unsigned IntPointer),
         (c_float16 c, TFloat FloatBits16), (c_float32 c, TFloat FloatBits32), (c_float64 c, TFloat FloatBits64),
         (c_float2 c, TVector (c_float32 c) 2), (c_float3 c, TVector (c_float32 c) 3),
         (c_float4 c, TVector (c_float32 c) 4), (c_float8 c, TVector (c_float32 c) 8)])"

definition store_ok :: "TypeStore \<Rightarrow> bool" where
  "store_ok s \<longleftrightarrow> interner_ok s \<and> core_ok s"

text \<open>How operations change a store: new descriptions are appended.\<close>

definition store_ext :: "TypeStore \<Rightarrow> TypeStore \<Rightarrow> bool" where
  "store_ext s t \<longleftrightarrow> core t = core s \<and> (\<exists>ls. kinds t = kinds s @ ls)"

primrec tree_upto :: "nat \<Rightarrow> TypeKind list \<Rightarrow> TypeId \<Rightarrow> Ty" where
  "tree_upto 0 ks i = Ty TError"
| "tree_upto (Suc n) ks i = Ty (map_type_kind (tree_upto n ks) (ks ! i))"

definition tree :: "TypeKind list \<Rightarrow> TypeId \<Rightarrow> Ty" where
  "tree ks i = tree_upto (Suc i) ks i"

lemma kinds_okD:
  "kinds_ok ks \<Longrightarrow> i < length ks \<Longrightarrow> c \<in> set_type_kind (ks ! i) \<Longrightarrow> c < i"
  by (simp add: kinds_ok_def)

lemma tree_upto_eq:
  "kinds_ok ks \<Longrightarrow> i < length ks \<Longrightarrow> i < n \<Longrightarrow> i < m \<Longrightarrow> tree_upto n ks i = tree_upto m ks i"
proof (induction n arbitrary: i m)
  case (Suc n)
  then obtain m' where m: "m = Suc m'" by (cases m) auto
  have "tree_upto n ks c = tree_upto m' ks c" if "c \<in> set_type_kind (ks ! i)" for c
    using kinds_okD [OF Suc.prems(1,2) that] Suc.prems m by (intro Suc.IH) auto
  then show ?case by (simp add: m cong: type_kind.map_cong)
qed simp

lemma tree_unfold:
  assumes "kinds_ok ks" "i < length ks"
  shows "tree ks i = Ty (map_type_kind (tree ks) (ks ! i))"
proof -
  have "tree_upto i ks c = tree ks c" if "c \<in> set_type_kind (ks ! i)" for c
    using kinds_okD [OF assms that] assms unfolding tree_def by (intro tree_upto_eq) auto
  then show ?thesis by (simp add: tree_def [of ks i] cong: type_kind.map_cong)
qed

lemma kinds_ok_append: "kinds_ok (ks @ ls) \<Longrightarrow> kinds_ok ks"
  by (auto simp: kinds_ok_def nth_append)

lemma tree_append:
  assumes "kinds_ok (ks @ ls)" "i < length ks"
  shows "tree (ks @ ls) i = tree ks i"
  using assms(2)
proof (induction i rule: less_induct)
  case (less i)
  have ks: "kinds_ok ks" using assms(1) by (rule kinds_ok_append)
  have "tree (ks @ ls) c = tree ks c" if "c \<in> set_type_kind (ks ! i)" for c
    using kinds_okD [OF ks less.prems that] less by auto
  then show ?case
    using tree_unfold [OF assms(1), of i] tree_unfold [OF ks less.prems] less.prems
    by (simp add: nth_append cong: type_kind.map_cong)
qed

text \<open>Hash consing: an identity is its tree.\<close>

lemma tree_inj:
  assumes "kinds_ok ks"
  shows "i < length ks \<Longrightarrow> j < length ks \<Longrightarrow> tree ks i = tree ks j \<Longrightarrow> i = j"
proof (induction i arbitrary: j rule: less_induct)
  case (less i)
  have "map_type_kind (tree ks) (ks ! i) = map_type_kind (tree ks) (ks ! j)"
    using less.prems by (simp add: tree_unfold [OF assms])
  moreover have "c = d" if "c \<in> set_type_kind (ks ! i)" "d \<in> set_type_kind (ks ! j)" "tree ks c = tree ks d" for c d
    using that kinds_okD [OF assms less.prems(1) that(1)] kinds_okD [OF assms less.prems(2) that(2)] less
    by (intro less.IH) auto
  ultimately have "ks ! i = ks ! j" by (rule type_kind.inj_map_strong [rotated])
  then show ?case using assms less.prems by (simp add: kinds_ok_def nth_eq_iff_index_eq)
qed

subsection \<open>Interning\<close>

lemma store_ext_refl [simp]: "store_ext s s"
  by (simp add: store_ext_def)

lemma store_ext_trans: "store_ext s t \<Longrightarrow> store_ext t u \<Longrightarrow> store_ext s u"
  by (auto simp: store_ext_def)

lemma store_ext_get: "store_ext s t \<Longrightarrow> get (kinds s) i = Some k \<Longrightarrow> get (kinds t) i = Some k"
  by (auto simp: store_ext_def intro: get_append_left)

lemma store_ext_less: "store_ext s t \<Longrightarrow> i < length (kinds s) \<Longrightarrow> i < length (kinds t)"
  by (auto simp: store_ext_def)

lemma store_ext_tree:
  "store_ext s t \<Longrightarrow> interner_ok t \<Longrightarrow> i < length (kinds s) \<Longrightarrow> tree (kinds t) i = tree (kinds s) i"
  by (auto simp: store_ext_def interner_ok_def intro: tree_append)

lemma core_ok_ext: "core_ok s \<Longrightarrow> store_ext s t \<Longrightarrow> core_ok t"
proof -
  assume s: "core_ok s" and t: "store_ext s t"
  have "core t = core s" using t by (simp add: store_ext_def)
  then show "core_ok t" using s unfolding core_ok_def Let_def
    by (simp only:) (erule list.pred_mono_strong, simp only: split_beta, erule store_ext_get [OF t])
qed

abbreviation inverse_ok :: "TypeStore \<Rightarrow> bool" where
  "inverse_ok s \<equiv> \<forall>k i. interned s k = Some i \<longleftrightarrow> get (kinds s) i = Some k"

lemma inverse_new: "inverse_ok s \<Longrightarrow> interned s k = None \<Longrightarrow> k \<notin> set (kinds s)"
  by (metis get_def in_set_conv_nth option.distinct(1))

lemma intern_inverse:
  assumes inv: "inverse_ok s" and i: "intern k s = (i, s')"
  shows "inverse_ok s'"
proof (cases "interned s k")
  case None
  then have s': "i = length (kinds s)" "s' = s\<lparr>kinds := kinds s @ [k], interned := (interned s)(k \<mapsto> i)\<rparr>"
    using i by (auto simp: intern_def Let_def)
  have "((interned s)(k \<mapsto> i)) k' = Some j \<longleftrightarrow> get (kinds s @ [k]) j = Some k'" for k' j
    using inv [rule_format, of k' j] inverse_new [OF inv None] s'(1)
    by (auto simp: get_def nth_append in_set_conv_nth split: if_splits)
  then show ?thesis using s'(2) by simp
next
  case (Some j)
  then have "s' = s" using i by (simp add: intern_def)
  with inv show ?thesis by simp
qed

lemma intern_interner:
  assumes "interner_ok s" "set_type_kind k \<subseteq> {..<length (kinds s)}" "intern k s = (i, s')"
  shows "interner_ok s' \<and> store_ext s s' \<and> get (kinds s') i = Some k"
proof (cases "interned s k")
  case None
  then have s': "i = length (kinds s)" "s' = s\<lparr>kinds := kinds s @ [k], interned := (interned s)(k \<mapsto> i)\<rparr>"
    using assms(3) by (auto simp: intern_def Let_def)
  have ok: "kinds_ok (kinds s)" and inv: "inverse_ok s" using assms(1) by (auto simp: interner_ok_def)
  have "kinds_ok (kinds s @ [k])" using ok inverse_new [OF inv None] assms(2)
    by (auto simp: kinds_ok_def nth_append less_Suc_eq)
  with s' intern_inverse [OF inv assms(3)] show ?thesis by (auto simp: interner_ok_def store_ext_def)
next
  case (Some j)
  then show ?thesis using assms by (auto simp: intern_def interner_ok_def)
qed

lemma intern_store:
  assumes "store_ok s" "set_type_kind k \<subseteq> {..<length (kinds s)}" "intern k s = (i, s')"
  shows "store_ok s' \<and> store_ext s s' \<and> get (kinds s') i = Some k"
  using assms intern_interner [of s k i s'] core_ok_ext unfolding store_ok_def by blast

text \<open>The tree of an interned description.\<close>

lemma tree_get:
  assumes "interner_ok s" "get (kinds s) i = Some k"
  shows "tree (kinds s) i = Ty (map_type_kind (tree (kinds s)) k)" "i < length (kinds s)"
    "set_type_kind k \<subseteq> {..<i}"
  using assms tree_unfold [of "kinds s" i] kinds_okD [of "kinds s" i]
  by (auto simp: interner_ok_def get_eq_Some)

lemma intern_tree:
  assumes "store_ok s" "set_type_kind k \<subseteq> {..<length (kinds s)}" "intern k s = (i, s')"
  shows "tree (kinds s') i = Ty (map_type_kind (tree (kinds s)) k)" "i < length (kinds s')"
proof -
  from intern_store [OF assms] have s': "interner_ok s'" "store_ext s s'" "get (kinds s') i = Some k"
    by (auto simp: store_ok_def)
  then have "tree (kinds s') c = tree (kinds s) c" if "c \<in> set_type_kind k" for c
    using that assms(2) by (intro store_ext_tree) auto
  then show "tree (kinds s') i = Ty (map_type_kind (tree (kinds s)) k)"
    using tree_get(1) [OF s'(1,3)] by (simp cong: type_kind.map_cong)
  show "i < length (kinds s')" using tree_get(2) [OF s'(1,3)] .
qed

interpretation store: growing_state store_ok store_ext
  by unfold_locales (auto intro: store_ext_trans)

subsection \<open>The new store\<close>

lemma intern_chain:
  assumes s: "inverse_ok s" and P: "\<And>i s'. inverse_ok s' \<Longrightarrow> P (F i s')"
  shows "P (case intern k s of (i, s') \<Rightarrow> F i s')"
proof -
  obtain i s' where i: "intern k s = (i, s')" by (cases "intern k s")
  from intern_inverse [OF s i] have "inverse_ok s'" .
  with P i show ?thesis by simp
qed

lemma type_store_new_interner: "interner_ok type_store_new"
proof -
  have start: "inverse_ok store_empty" by (simp add: store_empty_def get_def)
  have "inverse_ok type_store_new"
    unfolding type_store_new_def intern_integer_def
    by (rule intern_chain [where P = inverse_ok], (rule start | assumption))+ simp
  moreover have "kinds_ok (kinds type_store_new)" by code_simp
  ultimately show ?thesis by (simp add: interner_ok_def)
qed

lemma type_store_new_ok: "store_ok type_store_new"
proof -
  have "core_ok type_store_new" by code_simp
  with type_store_new_interner show ?thesis by (simp add: store_ok_def)
qed

subsection \<open>The stream of a concrete type\<close>

text \<open>What a description feeds to the hasher, given the streams of its parts.\<close>

definition kind_words :: "64 word list type_kind \<Rightarrow> 64 word list" where
  "kind_words k =
     (case k of
        TError \<Rightarrow> [0] | TBool \<Rightarrow> [1] | TChar \<Rightarrow> [2] | TString \<Rightarrow> [3] | TOwnedString \<Rightarrow> [18] | TUnit \<Rightarrow> [4] | TNever \<Rightarrow> [5]
      | TInteger sg w \<Rightarrow> [6, signedness_u64 sg, integer_width_u64 w]
      | TFloat w \<Rightarrow> [7, float_width_u64 w]
      | TVector e lanes \<Rightarrow> 17 # ucast lanes # e
      | TArray e n \<Rightarrow> 8 # n # e
      | TBuffer e \<Rightarrow> 9 # e
      | TSlice e \<Rightarrow> 10 # e
      | TPointer e \<Rightarrow> 11 # e
      | TOption e \<Rightarrow> 12 # e
      | TResult a b \<Rightarrow> 13 # a @ b
      | TNominal c as \<Rightarrow> 14 # as_u64 (nominal_fingerprint c) # of_nat (length as) # concat as
      | TGeneric p \<Rightarrow> []
      | TInfer v \<Rightarrow> []
      | TFunction ps r \<Rightarrow> 15 # of_nat (length ps) # concat ps @ r
      | TCapability c e \<Rightarrow> 16 # capability_u64 c # e)"

primrec type_words :: "Ty \<Rightarrow> 64 word list" where
  "type_words (Ty k) = kind_words (map_type_kind type_words k)"

definition no_variable :: "'t type_kind \<Rightarrow> bool" where
  "no_variable k = (case k of TGeneric _ \<Rightarrow> False | TInfer _ \<Rightarrow> False | _ \<Rightarrow> True)"

primrec concrete :: "Ty \<Rightarrow> bool" where
  "concrete (Ty k) \<longleftrightarrow> no_variable k \<and> False \<notin> set_type_kind (map_type_kind concrete k)"

text \<open>Argument lists shorter than \<open>2^64\<close>, as every slice is.\<close>

definition short_lists :: "'t type_kind \<Rightarrow> bool" where
  "short_lists k = (case k of TNominal _ as \<Rightarrow> length as < 2 ^ 64 | TFunction ps _ \<Rightarrow> length ps < 2 ^ 64 | _ \<Rightarrow> True)"

primrec short_type :: "Ty \<Rightarrow> bool" where
  "short_type (Ty k) \<longleftrightarrow> short_lists k \<and> False \<notin> set_type_kind (map_type_kind short_type k)"

lemma concrete_parts: "concrete (Ty k) \<longleftrightarrow> no_variable k \<and> (\<forall>c \<in> set_type_kind k. concrete c)"
  by (auto simp: type_kind.set_map image_iff)

lemma short_parts: "short_type (Ty k) \<longleftrightarrow> short_lists k \<and> (\<forall>c \<in> set_type_kind k. short_type c)"
  by (auto simp: type_kind.set_map image_iff)

lemma op_write_simp [simp]: "op_write v h = Some (Ok (), write_u64 h v)"
  by (simp add: op_write_def)

text \<open>The contract of a hashing step: it always returns; it feeds \<open>ws\<close> if \<open>ok\<close> and fails otherwise.\<close>

definition feeds :: "(StableHasher, 'e, unit) op \<Rightarrow> bool \<Rightarrow> 64 word list \<Rightarrow> bool" where
  "feeds m ok ws \<longleftrightarrow>
     (\<forall>h. if ok then m h = Some (Ok (), foldl write_u64 h ws) else (\<exists>e h'. m h = Some (Err e, h')))"

lemma feeds_write: "feeds (op_write v) True [v]"
  by (simp add: feeds_def)

lemma feeds_throw: "feeds (op_throw e) False ws"
  by (simp add: feeds_def)

lemma feeds_then:
  assumes "feeds m a u" "feeds n b w"
  shows "feeds (op_then m n) (a \<and> b) (u @ w)"
  unfolding feeds_def
proof
  fix h
  show "if a \<and> b then op_then m n h = Some (Ok (), foldl write_u64 h (u @ w)) else \<exists>e h'. op_then m n h = Some (Err e, h')"
  proof (cases a)
    case True
    then have "op_then m n h = n (foldl write_u64 h u)" using assms(1) by (simp add: feeds_def op_then_def)
    then show ?thesis using assms(2) True by (simp add: feeds_def)
  next
    case False
    then obtain e h' where "m h = Some (Err e, h')" using assms(1) unfolding feeds_def by presburger
    then show ?thesis using False by (simp add: op_then_def)
  qed
qed

lemma feeds_for:
  assumes "\<forall>x \<in> set xs. feeds (f x) (ok x) (ws x)"
  shows "feeds (op_for f xs) (\<forall>x \<in> set xs. ok x) (concat (map ws xs))"
  using assms
proof (induction xs)
  case Nil
  then show ?case by (simp add: feeds_def)
next
  case (Cons x xs)
  have "op_for f (x # xs) = op_then (f x) (op_for f xs)"
    by (rule ext) simp
  then show ?case using feeds_then [of "f x" "ok x" "ws x" "op_for f xs"] Cons by auto
qed

lemma feeds_cong: "feeds m ok ws \<Longrightarrow> ok = ok' \<Longrightarrow> (ok' \<Longrightarrow> ws = ws') \<Longrightarrow> feeds m ok' ws'"
  by (auto simp: feeds_def)

lemma feeds_eq: "(\<And>h. m h = m' h) \<Longrightarrow> feeds m' ok ws \<Longrightarrow> feeds m ok ws"
  by (simp add: feeds_def)

lemma hash_type_words:
  assumes "interner_ok st"
  shows "i < length (kinds st) \<Longrightarrow> feeds (hash_type st i) (concrete (tree (kinds st) i)) (type_words (tree (kinds st) i))"
proof (induction i rule: less_induct)
  case (less i)
  obtain k where k: "get (kinds st) i = Some k" using less.prems by (simp add: get_def)
  note t = tree_get [OF assms k]
  let ?t = "tree (kinds st)"
  have IH: "feeds (hash_type st c) (concrete (?t c)) (type_words (?t c))" if "c \<in> set_type_kind k" for c
    using that t(3) less by (auto intro!: less.IH)
  have IHs: "feeds (op_for (hash_type st) cs) (\<forall>c \<in> set cs. concrete (?t c)) (concat (map (type_words \<circ> ?t) cs))"
    if "set cs \<subseteq> set_type_kind k" for cs
    using feeds_for [of cs "hash_type st" "\<lambda>c. concrete (?t c)" "type_words \<circ> ?t"] IH that by auto
  have conc: "concrete (?t i) \<longleftrightarrow> no_variable k \<and> (\<forall>c \<in> set_type_kind k. concrete (?t c))"
    unfolding t(1) concrete_parts by (cases k) (auto simp: no_variable_def type_kind.set_map)
  have words: "type_words (?t i) = kind_words (map_type_kind (type_words \<circ> ?t) k)"
    unfolding t(1) by (simp add: type_kind.map_comp)
  show ?case
    unfolding conc words
    apply (cases k; rule feeds_eq, subst hash_type.simps)
    apply (simp_all only: kind_of_def k option.case type_kind.case)
    apply (rule feeds_cong, (rule feeds_then feeds_write feeds_throw IH IHs | (simp; fail) | (simp, blast))+;
      auto simp: no_variable_def kind_words_def; fail)+
    done
qed

subsection \<open>The stream determines the type\<close>

lemma concat_prefix:
  assumes "length xs = length ys" "concat (map f xs) @ r = concat (map f ys) @ r'"
    and "\<And>x y u v. x \<in> set xs \<Longrightarrow> y \<in> set ys \<Longrightarrow> f x @ u = f y @ v \<Longrightarrow> x = y \<and> u = v"
  shows "xs = ys \<and> r = r'"
  using assms
proof (induction xs ys rule: list_induct2)
  case (Cons x xs y ys)
  have "f x @ (concat (map f xs) @ r) = f y @ (concat (map f ys) @ r')" using Cons.prems(1) by simp
  from Cons.prems(2) [OF _ _ this] have "x = y" "concat (map f xs) @ r = concat (map f ys) @ r'" by simp_all
  moreover from this(2) have "xs = ys \<and> r = r'" using Cons.prems(2) by (intro Cons.IH) auto
  ultimately show ?case by simp
qed simp

lemma of_nat_short: "m < 2 ^ 64 \<Longrightarrow> n < 2 ^ 64 \<Longrightarrow> (of_nat m :: 64 word) = of_nat n \<longleftrightarrow> m = n"
  by (simp add: word_of_nat_eq_iff take_bit_nat_eq_self)

lemma enum_inj [simp]:
  "signedness_u64 a = signedness_u64 b \<longleftrightarrow> a = b" "integer_width_u64 w = integer_width_u64 v \<longleftrightarrow> w = v"
  "float_width_u64 x = float_width_u64 y \<longleftrightarrow> x = y" "capability_u64 c = capability_u64 d \<longleftrightarrow> c = d"
  subgoal by (cases a; cases b; simp add: signedness_u64_def)
  subgoal by (cases w; cases v; simp add: integer_width_u64_def)
  subgoal by (cases x; cases y; simp add: float_width_u64_def)
  subgoal by (cases c; cases d; simp add: capability_u64_def)
  done

lemma ucast_lanes [simp]: "(ucast (a::16 word) :: 64 word) = ucast b \<longleftrightarrow> a = b"
  by transfer (simp add: take_bit_take_bit min_def)

lemma as_u64_eq: "as_u64 (nominal_fingerprint c) = as_u64 (nominal_fingerprint d) \<longleftrightarrow> c = d"
  by (auto intro: NominalTypeId.expand Fingerprint.expand)

lemma type_words_prefix:
  "concrete t \<Longrightarrow> concrete t' \<Longrightarrow> short_type t \<Longrightarrow> short_type t' \<Longrightarrow> type_words t @ r = type_words t' @ r' \<Longrightarrow> t = t' \<and> r = r'"
proof (induction t arbitrary: t' r r')
  case (Ty k)
  obtain k' where t': "t' = Ty k'" by (cases t')
  have parts: "no_variable k" "no_variable k'" "short_lists k" "short_lists k'"
    "\<And>c. c \<in> set_type_kind k \<Longrightarrow> concrete c \<and> short_type c" "\<And>c. c \<in> set_type_kind k' \<Longrightarrow> concrete c \<and> short_type c"
    using Ty.prems(1-4) unfolding t' concrete_parts short_parts by blast+
  have IH: "c = c' \<and> u = v" if "c \<in> set_type_kind k" "c' \<in> set_type_kind k'" "type_words c @ u = type_words c' @ v" for c c' u v
    using Ty.IH [OF that(1) _ _ _ _ that(3)] parts(5) [OF that(1)] parts(6) [OF that(2)] by blast
  have IHs: "cs = cs' \<and> u = v"
    if "set cs \<subseteq> set_type_kind k" "set cs' \<subseteq> set_type_kind k'" "length cs = length cs'"
      "concat (map type_words cs) @ u = concat (map type_words cs') @ v" for cs cs' u v
    using that IH by (intro concat_prefix [OF that(3,4)]) blast
  have eq: "kind_words (map_type_kind type_words k) @ r = kind_words (map_type_kind type_words k') @ r'"
    using Ty.prems(5) by (simp add: t')
  show ?case unfolding t'
    using eq parts(1-4)
    apply (cases k; cases k'; simp add: kind_words_def no_variable_def)
    apply (simp_all add: short_lists_def of_nat_short as_u64_eq)
    apply (drule IH [rotated 2], simp, simp, simp; fail)+
    subgoal for a b a' b'
      using IH [of a a' "type_words b @ r" "type_words b' @ r'"] IH [of b b' r r'] by simp
    subgoal for _ as as' using IHs [of as as' r r'] by simp
    subgoal for ps q ps' q'
      using IHs [of ps ps' "type_words q @ r" "type_words q' @ r'"] IH [of q q' r r'] by auto
    subgoal for _ e e' using IH [of e e' r r'] by simp
    done
qed

subsection \<open>Properties\<close>

text \<open>
  C37. The interner is a hash-consing table: in a well-formed store two identities are equal exactly if they
  stand for the same type; interning a description over existing identities keeps the store well formed, keeps
  every existing identity and its type, and returns the identity of the described type.
\<close>

theorem intern_hash_consing:
  assumes "store_ok s" "set_type_kind k \<subseteq> {..<length (kinds s)}" "intern k s = (i, s')"
  shows "store_ok s' \<and> core s' = core s \<and> tree (kinds s') i = Ty (map_type_kind (tree (kinds s)) k) \<and>
    (\<forall>j < length (kinds s). tree (kinds s') j = tree (kinds s) j) \<and>
    (\<forall>a < length (kinds s'). \<forall>b < length (kinds s'). tree (kinds s') a = tree (kinds s') b \<longleftrightarrow> a = b)"
proof -
  note s' = intern_store [OF assms]
  then have ok: "interner_ok s'" "kinds_ok (kinds s')" by (auto simp: store_ok_def interner_ok_def)
  show ?thesis
    using s' intern_tree [OF assms] store_ext_tree [OF _ ok(1)] tree_inj [OF ok(2)]
    by (auto simp: store_ext_def)
qed

theorem intern_hash_consing_witness:
  "store_ok type_store_new \<and>
   (\<exists>i s'. intern (TOption (c_int32 (core type_store_new))) type_store_new = (i, s') \<and> store_ok s' \<and>
      tree (kinds s') i = Ty (TOption (Ty (TInteger Signed IntBits32))))"
proof -
  obtain i s' where i: "intern (TOption (c_int32 (core type_store_new))) type_store_new = (i, s')"
    by (cases "intern (TOption (c_int32 (core type_store_new))) type_store_new")
  have "c_int32 (core type_store_new) < length (kinds type_store_new)" by code_simp
  moreover have "tree (kinds type_store_new) (c_int32 (core type_store_new)) = Ty (TInteger Signed IntBits32)" by code_simp
  ultimately show ?thesis using intern_hash_consing [OF type_store_new_ok _ i] i type_store_new_ok by simp
qed

text \<open>
  The fingerprint of a type always comes out: it is an error exactly if the type contains a generic parameter
  or an inference variable, otherwise it is the hash of a stream of words that depends on the type only, not on
  the store, and two concrete types have the same stream only if they are the same type.
\<close>

theorem stable_fingerprint_stream:
  assumes "store_ok s" "i < length (kinds s)" "store_ok s'" "j < length (kinds s')"
  shows "(\<exists>r. stable_fingerprint s i = Some r \<and>
      (if concrete (tree (kinds s) i)
       then r = Ok (TypeFingerprint (hash_finish
              (foldl write_u64 (with_domain (lit ''jadren-concrete-type-v1'')) (type_words (tree (kinds s) i)))))
       else \<exists>e. r = Err e)) \<and>
    (concrete (tree (kinds s) i) \<and> concrete (tree (kinds s') j) \<and>
     short_type (tree (kinds s) i) \<and> short_type (tree (kinds s') j) \<longrightarrow>
       type_words (tree (kinds s) i) = type_words (tree (kinds s') j) \<longleftrightarrow> tree (kinds s) i = tree (kinds s') j)"
proof
  have "feeds (hash_type s i) (concrete (tree (kinds s) i)) (type_words (tree (kinds s) i))"
    using assms(1,2) by (intro hash_type_words) (simp_all add: store_ok_def)
  then show "\<exists>r. stable_fingerprint s i = Some r \<and>
      (if concrete (tree (kinds s) i)
       then r = Ok (TypeFingerprint (hash_finish
              (foldl write_u64 (with_domain (lit ''jadren-concrete-type-v1'')) (type_words (tree (kinds s) i)))))
       else \<exists>e. r = Err e)"
    unfolding stable_fingerprint_def feeds_def
    by (elim allE [of _ "with_domain (lit ''jadren-concrete-type-v1'')"]) (auto simp del: lit_simps split: if_splits)
  show "concrete (tree (kinds s) i) \<and> concrete (tree (kinds s') j) \<and>
     short_type (tree (kinds s) i) \<and> short_type (tree (kinds s') j) \<longrightarrow>
       type_words (tree (kinds s) i) = type_words (tree (kinds s') j) \<longleftrightarrow> tree (kinds s) i = tree (kinds s') j"
    using type_words_prefix [of "tree (kinds s) i" "tree (kinds s') j" "[]" "[]"] by auto
qed

theorem stable_fingerprint_stream_witness:
  "\<exists>fp. stable_fingerprint type_store_new (c_float4 (core type_store_new)) = Some (Ok fp) \<and>
     type_words (tree (kinds type_store_new) (c_float4 (core type_store_new))) \<noteq>
     type_words (tree (kinds type_store_new) (c_float8 (core type_store_new)))"
proof -
  let ?s = type_store_new
  have "c_float4 (core ?s) < length (kinds ?s)" "c_float8 (core ?s) < length (kinds ?s)"
    "concrete (tree (kinds ?s) (c_float4 (core ?s)))" "concrete (tree (kinds ?s) (c_float8 (core ?s)))"
    "short_type (tree (kinds ?s) (c_float4 (core ?s)))" "short_type (tree (kinds ?s) (c_float8 (core ?s)))"
    "tree (kinds ?s) (c_float4 (core ?s)) \<noteq> tree (kinds ?s) (c_float8 (core ?s))"
    by code_simp+
  with stable_fingerprint_stream [OF type_store_new_ok _ type_store_new_ok, of "c_float4 (core ?s)" "c_float8 (core ?s)"]
  show ?thesis by (auto simp del: lit_simps)
qed
end
