(* ===== verification/Type_Transform.thy ===== *)
theory Type_Transform
  imports Types
begin

text \<open>
  The crate \<open>jadren-types\<close>, second part: rebuilding a type in a store, as the import of a type from another
  store and as the substitution of generic parameters. Both return on every type of a well-formed store,
  let the store only grow, and give the type the tree operation gives.
\<close>

subsection \<open>Rebuilding one level\<close>

text \<open>
  The match that \<open>import_from\<close>, \<open>apply\<close> and \<open>resolve_deep\<close> share: the parts are transformed in the order of the
  source, descriptions without parts stay.
\<close>

definition rebuild :: "('a \<Rightarrow> ('s, 'e, 'b) op) \<Rightarrow> 'a type_kind \<Rightarrow> ('s, 'e, 'b type_kind) op" where
  "rebuild f k =
     (case k of
        TError \<Rightarrow> op_return TError
      | TBool \<Rightarrow> op_return TBool
      | TChar \<Rightarrow> op_return TChar
      | TString \<Rightarrow> op_return TString
      | TOwnedString \<Rightarrow> op_return TOwnedString
      | TUnit \<Rightarrow> op_return TUnit
      | TNever \<Rightarrow> op_return TNever
      | TInteger sg w \<Rightarrow> op_return (TInteger sg w)
      | TFloat w \<Rightarrow> op_return (TFloat w)
      | TVector e lanes \<Rightarrow> op_bind (f e) (\<lambda>e. op_return (TVector e lanes))
      | TArray e n \<Rightarrow> op_bind (f e) (\<lambda>e. op_return (TArray e n))
      | TBuffer e \<Rightarrow> op_bind (f e) (\<lambda>e. op_return (TBuffer e))
      | TSlice e \<Rightarrow> op_bind (f e) (\<lambda>e. op_return (TSlice e))
      | TPointer e \<Rightarrow> op_bind (f e) (\<lambda>e. op_return (TPointer e))
      | TOption e \<Rightarrow> op_bind (f e) (\<lambda>e. op_return (TOption e))
      | TResult a b \<Rightarrow> op_bind (f a) (\<lambda>a. op_bind (f b) (\<lambda>b. op_return (TResult a b)))
      | TNominal c as \<Rightarrow> op_bind (op_map f as) (\<lambda>as. op_return (TNominal c as))
      | TGeneric p \<Rightarrow> op_return (TGeneric p)
      | TInfer v \<Rightarrow> op_return (TInfer v)
      | TFunction ps r \<Rightarrow> op_bind (op_map f ps) (\<lambda>ps. op_bind (f r) (\<lambda>r. op_return (TFunction ps r)))
      | TCapability c e \<Rightarrow> op_bind (f e) (\<lambda>e. op_return (TCapability c e)))"

lemma op_return_mono: "mono_option (\<lambda>f. op_return a s)"
  by (simp add: option.const_mono)

lemma rebuild_mono [partial_function_mono]:
  assumes "\<And>x s. mono_option (\<lambda>f. g x f s)"
  shows "mono_option (\<lambda>f. rebuild (\<lambda>x. g x f) k s)"
  unfolding rebuild_def
  by (cases k; simp only: type_kind.case) (intro op_bind_mono op_map_mono op_return_mono assms)+

partial_function (option) import_from :: "TypeStore \<Rightarrow> TypeId \<Rightarrow> TypeStore \<Rightarrow> ((TypeTransformError, TypeId) result \<times> TypeStore) option"
where
  "import_from source ty s =
     (case kind_of source ty of
        None \<Rightarrow> Some (Err (InvalidType ty), s)
      | Some k \<Rightarrow> op_bind (rebuild (import_from source) k) (\<lambda>imported. op_lift (intern imported)) s)"

subsection \<open>Substitution of generic parameters\<close>

type_synonym Substitution = "(GenericParameterId \<times> TypeId) list"

definition substitution_new :: Substitution where "substitution_new = []"

definition substitution_insert :: "GenericParameterId \<Rightarrow> TypeId \<Rightarrow> Substitution \<Rightarrow> TypeId option \<times> Substitution" where
  "substitution_insert p ty sub = (bt_get sub p, bt_insert p ty sub)"

definition substitution_get :: "Substitution \<Rightarrow> GenericParameterId \<Rightarrow> TypeId option" where
  "substitution_get sub p = bt_get sub p"

definition substitution_iter :: "Substitution \<Rightarrow> (GenericParameterId \<times> TypeId) list" where
  "substitution_iter sub = sub"

text \<open>The arm \<open>GenericParameter(parameter)\<close>, which returns before the others.\<close>

definition as_generic :: "'t type_kind \<Rightarrow> GenericParameterId option" where
  "as_generic k = (case k of TGeneric p \<Rightarrow> Some p | _ \<Rightarrow> None)"

partial_function (option) substitution_apply :: "Substitution \<Rightarrow> TypeId \<Rightarrow> TypeStore \<Rightarrow> ((TypeTransformError, TypeId) result \<times> TypeStore) option"
where
  "substitution_apply sub ty s =
     (case kind_of s ty of
        None \<Rightarrow> Some (Err (InvalidType ty), s)
      | Some k \<Rightarrow>
          (case as_generic k of
             Some p \<Rightarrow> Some (Ok (case substitution_get sub p of Some t \<Rightarrow> t | None \<Rightarrow> ty), s)
           | None \<Rightarrow> op_bind (rebuild (substitution_apply sub) k) (\<lambda>replaced. op_lift (intern replaced)) s))"

text \<open>The operation on trees.\<close>

definition generic_node :: "(GenericParameterId \<Rightarrow> Ty option) \<Rightarrow> Ty type_kind \<Rightarrow> Ty" where
  "generic_node g k = (case Option.bind (as_generic k) g of Some t \<Rightarrow> t | None \<Rightarrow> Ty k)"

primrec generic_subst :: "(GenericParameterId \<Rightarrow> Ty option) \<Rightarrow> Ty \<Rightarrow> Ty" where
  "generic_subst g (Ty k) = generic_node g (map_type_kind (generic_subst g) k)"

subsection \<open>The rule for rebuilding\<close>

context growing_state
begin

lemma delivers_rebuild:
  assumes f: "\<And>c t. c \<in> set_type_kind k \<Longrightarrow> good t \<Longrightarrow> ext s t \<Longrightarrow> delivers (f c) t E (R c)"
    and stable: "\<And>c d t u. c \<in> set_type_kind k \<Longrightarrow> R c d t \<Longrightarrow> ext t u \<Longrightarrow> good u \<Longrightarrow> R c d u"
    and s: "good s"
  shows "delivers (rebuild f k) s E (\<lambda>k' t. rel_type_kind (\<lambda>c d. R c d t) k k')"
proof -
  have ret: "delivers (op_return a) t E Q" if "good t" "Q a t" for a t Q
    using that by (rule delivers_return)
  have one: "delivers (op_bind (f c) (\<lambda>d. op_return (K d))) t E Q"
    if "c \<in> set_type_kind k" "good t" "ext s t" "\<And>d u. R c d u \<Longrightarrow> good u \<Longrightarrow> ext t u \<Longrightarrow> Q (K d) u" for c K t Q
    using that by (intro delivers_bind [OF f] ret) auto
  have many: "delivers (op_map f cs) s E (\<lambda>ds t. list_all2 (\<lambda>c d. R c d t) cs ds)" if "set cs \<subseteq> set_type_kind k" for cs
  proof (rule delivers_map)
    fix c assume "c \<in> set cs"
    with that have c: "c \<in> set_type_kind k" by blast
    show "delivers (f c) t E (R c)" if "good t" "ext s t" for t using c that by (rule f)
    show "R c d u" if "R c d t" "ext t u" "good u" for d t u using c that by (rule stable)
  qed (rule s)
  have stable2: "list_all2 (\<lambda>c d. R c d u) cs ds" if "list_all2 (\<lambda>c d. R c d t) cs ds" "ext t u" "good u" "set cs \<subseteq> set_type_kind k" for t u cs ds
    using that stable by (auto elim!: list.rel_mono_strong)
  note refl = ext_refl
  show ?thesis
  proof (cases k)
    case (TResult a b)
    have "delivers (op_bind (f a) (\<lambda>a. op_bind (f b) (\<lambda>b. op_return (TResult a b)))) s E
        (\<lambda>k' t. rel_type_kind (\<lambda>c d. R c d t) k k')"
    proof (rule delivers_bind)
      show "delivers (f a) s E (R a)" using f s refl TResult by simp
      show "delivers (op_bind (f b) (\<lambda>b. op_return (TResult a' b))) t E (\<lambda>k' t. rel_type_kind (\<lambda>c d. R c d t) k k')"
        if "good t" "ext s t" "R a a' t" for a' t
        using that stable TResult by (intro one) auto
    qed
    then show ?thesis by (simp add: TResult rebuild_def)
  next
    case (TNominal c as)
    have "delivers (op_bind (op_map f as) (\<lambda>as. op_return (TNominal c as))) s E
        (\<lambda>k' t. rel_type_kind (\<lambda>c d. R c d t) k k')"
      using TNominal by (intro delivers_bind [OF many] ret) auto
    then show ?thesis by (simp add: TNominal rebuild_def)
  next
    case (TFunction ps r)
    have "delivers (op_bind (op_map f ps) (\<lambda>ps. op_bind (f r) (\<lambda>r. op_return (TFunction ps r)))) s E
        (\<lambda>k' t. rel_type_kind (\<lambda>c d. R c d t) k k')"
    proof (rule delivers_bind)
      show "delivers (op_map f ps) s E (\<lambda>ds t. list_all2 (\<lambda>c d. R c d t) ps ds)" using TFunction by (intro many) auto
      show "delivers (op_bind (f r) (\<lambda>r. op_return (TFunction ds r))) t E (\<lambda>k' t. rel_type_kind (\<lambda>c d. R c d t) k k')"
        if "good t" "ext s t" "list_all2 (\<lambda>c d. R c d t) ps ds" for ds t
      proof (rule one)
        show "r \<in> set_type_kind k" "good t" "ext s t" using that TFunction by auto
        show "rel_type_kind (\<lambda>c d. R c d u) k (TFunction ds d)" if "R r d u" "good u" "ext t u" for d u
          using that stable2 [OF \<open>list_all2 _ ps ds\<close>, of u] TFunction by auto
      qed
    qed
    then show ?thesis by (simp add: TFunction rebuild_def)
  qed (auto simp: rebuild_def intro!: ret s one refl)
qed

end

subsection \<open>Rebuilding and interning\<close>

lemma rel_type_kind_map:
  assumes "rel_type_kind (\<lambda>c d. P d \<and> h d = g c) k k'"
  shows "map_type_kind h k' = map_type_kind g k \<and> (\<forall>d \<in> set_type_kind k'. P d)"
proof -
  obtain z where z: "map_type_kind fst z = k" "map_type_kind snd z = k'"
    "set_type_kind z \<subseteq> {(c, d). P d \<and> h d = g c}"
    using assms by (auto simp: type_kind.in_rel)
  have "map_type_kind (h \<circ> snd) z = map_type_kind (g \<circ> fst) z"
    using z(3) by (intro type_kind.map_cong refl) auto
  moreover have "\<forall>d \<in> set_type_kind k'. P d" using z(3) by (auto simp: type_kind.set_map simp flip: z(2))
  ultimately show ?thesis by (simp add: type_kind.map_comp flip: z(1,2))
qed

text \<open>The identity \<open>j\<close> stands for the type \<open>t\<close> in the store \<open>s\<close>.\<close>

abbreviation stands_for :: "TypeStore \<Rightarrow> TypeId \<Rightarrow> Ty \<Rightarrow> bool" where
  "stands_for s j t \<equiv> j < length (kinds s) \<and> tree (kinds s) j = t"

lemma stands_for_ext: "stands_for s j t \<Longrightarrow> store_ext s u \<Longrightarrow> store_ok u \<Longrightarrow> stands_for u j t"
  using store_ext_tree store_ext_less by (auto simp: store_ok_def)

lemma delivers_intern:
  assumes "store_ok s" "rel_type_kind (\<lambda>c d. stands_for s d (g c)) k k'"
  shows "store.delivers (op_lift (intern k')) s E (\<lambda>j t. stands_for t j (Ty (map_type_kind g k)))"
proof -
  obtain i s' where i: "intern k' s = (i, s')" by (cases "intern k' s")
  from rel_type_kind_map [OF assms(2)] have m: "map_type_kind (tree (kinds s)) k' = map_type_kind g k"
    "set_type_kind k' \<subseteq> {..<length (kinds s)}" by auto
  from intern_store [OF assms(1) m(2) i] intern_tree [OF assms(1) m(2) i] show ?thesis
    using m(1) i by (simp add: store.delivers_def)
qed

text \<open>One step of a transformation that rebuilds the parts.\<close>

lemma delivers_rebuild_intern:
  assumes "store_ok s"
    and "\<And>c t. c \<in> set_type_kind k \<Longrightarrow> store_ok t \<Longrightarrow> store_ext s t \<Longrightarrow>
      store.delivers (f c) t E (\<lambda>d u. stands_for u d (g c))"
  shows "store.delivers (op_bind (rebuild f k) (\<lambda>r. op_lift (intern r))) s E
    (\<lambda>j t. stands_for t j (Ty (map_type_kind g k)))"
proof (rule store.delivers_bind)
  show "store.delivers (rebuild f k) s E (\<lambda>k' t. rel_type_kind (\<lambda>c d. stands_for t d (g c)) k k')"
    using assms(1,2) stands_for_ext by (intro store.delivers_rebuild [where R = "\<lambda>c d t. stands_for t d (g c)"]) blast+
qed (rule delivers_intern)

lemma import_from_delivers:
  assumes src: "store_ok source"
  shows "i < length (kinds source) \<Longrightarrow> store_ok s \<Longrightarrow>
    store.delivers (import_from source i) s (\<lambda>_. False) (\<lambda>j t. stands_for t j (tree (kinds source) i))"
proof (induction i arbitrary: s rule: less_induct)
  case (less i)
  obtain k where k: "get (kinds source) i = Some k" using less.prems by (simp add: get_def)
  have int: "interner_ok source" using src by (simp add: store_ok_def)
  note t = tree_get [OF int k]
  have "store.delivers (op_bind (rebuild (import_from source) k) (\<lambda>r. op_lift (intern r))) s (\<lambda>_. False)
      (\<lambda>j t. stands_for t j (Ty (map_type_kind (tree (kinds source)) k)))"
    using less.prems t(2,3) by (intro delivers_rebuild_intern less.IH) auto
  then show ?case
    unfolding t(1) store.delivers_def by (subst import_from.simps) (simp add: kind_of_def k)
qed

subsection \<open>Substitution\<close>

lemma as_generic_map [simp]: "as_generic (map_type_kind f k) = as_generic k"
  by (cases k) (simp_all add: as_generic_def)

definition substitution_ok :: "Substitution \<Rightarrow> TypeStore \<Rightarrow> bool" where
  "substitution_ok sub s \<longleftrightarrow> (\<forall>(p, t) \<in> set sub. t < length (kinds s))"

text \<open>What the mapped identities stand for.\<close>

definition substitution_types :: "Substitution \<Rightarrow> TypeStore \<Rightarrow> GenericParameterId \<Rightarrow> Ty option" where
  "substitution_types sub s p = map_option (tree (kinds s)) (substitution_get sub p)"

lemma substitution_get_less: "substitution_ok sub s \<Longrightarrow> substitution_get sub p = Some t \<Longrightarrow> t < length (kinds s)"
  by (auto simp: substitution_ok_def substitution_get_def bt_get_def dest: map_of_SomeD)

lemma substitution_apply_delivers:
  assumes s0: "substitution_ok sub s0"
  shows "i < length (kinds s0) \<Longrightarrow> store_ok s \<Longrightarrow> store_ext s0 s \<Longrightarrow>
    store.delivers (substitution_apply sub i) s (\<lambda>_. False)
      (\<lambda>j t. stands_for t j (generic_subst (substitution_types sub s0) (tree (kinds s0) i)))"
proof (induction i arbitrary: s rule: less_induct)
  case (less i)
  have int: "interner_ok s" using less.prems by (simp add: store_ok_def)
  have less_s: "c < length (kinds s)" if "c < length (kinds s0)" for c using less.prems(3) that by (rule store_ext_less)
  have tree_s: "tree (kinds s) c = tree (kinds s0) c" if "c < length (kinds s0)" for c
    using store_ext_tree [OF less.prems(3) int that] .
  obtain k where k: "get (kinds s) i = Some k" using less_s [OF less.prems(1)] by (simp add: get_def)
  note t = tree_get [OF int k]
  let ?g = "generic_subst (substitution_types sub s0)"
  have parts: "c < i" "c < length (kinds s0)" if "c \<in> set_type_kind k" for c using that t(3) less.prems(1) by auto
  then have tr: "tree (kinds s0) i = Ty (map_type_kind (tree (kinds s0)) k)"
    using t(1) tree_s less.prems(1) by (simp cong: type_kind.map_cong)
  show ?case
  proof (cases "as_generic k")
    case None
    have "store.delivers (op_bind (rebuild (substitution_apply sub) k) (\<lambda>r. op_lift (intern r))) s (\<lambda>_. False)
        (\<lambda>j t. stands_for t j (Ty (map_type_kind (?g \<circ> tree (kinds s0)) k)))"
    proof (rule delivers_rebuild_intern)
      show "store.delivers (substitution_apply sub c) t (\<lambda>_. False) (\<lambda>d u. stands_for u d ((?g \<circ> tree (kinds s0)) c))"
        if "c \<in> set_type_kind k" "store_ok t" "store_ext s t" for c t
        using less.IH [OF parts(1,2) [OF that(1)] that(2) store_ext_trans [OF less.prems(3) that(3)]] by simp
    qed (rule less.prems)
    moreover have g: "?g (tree (kinds s0) i) = Ty (map_type_kind (?g \<circ> tree (kinds s0)) k)"
      by (simp add: tr generic_node_def None type_kind.map_comp)
    ultimately show ?thesis
      unfolding g store.delivers_def by (subst substitution_apply.simps) (simp add: kind_of_def k None)
  next
    case (Some p)
    then have kp: "k = TGeneric p" by (cases k) (simp_all add: as_generic_def)
    let ?j = "case substitution_get sub p of Some t \<Rightarrow> t | None \<Rightarrow> i"
    have "stands_for s ?j (?g (tree (kinds s0) i))"
    proof (cases "substitution_get sub p")
      case None
      then show ?thesis using less_s tree_s less.prems(1)
        by (simp add: tr kp generic_node_def as_generic_def substitution_types_def)
    next
      case (Some t)
      then show ?thesis using substitution_get_less [OF s0 Some] less_s tree_s
        by (simp add: tr kp generic_node_def as_generic_def substitution_types_def)
    qed
    then show ?thesis
      unfolding store.delivers_def by (subst substitution_apply.simps) (simp add: kind_of_def k Some less.prems)
  qed
qed

subsection \<open>Properties\<close>

text \<open>
  C38. Importing a type from another store returns, and gives an identity of the same type: both stores stay well
  formed, every identity of the importing store keeps its type, and the fingerprint is the one of the source.
\<close>

theorem import_from_preserves:
  assumes "store_ok source" "store_ok s" "i < length (kinds source)"
  shows "\<exists>j s'. import_from source i s = Some (Ok j, s') \<and> store_ok s' \<and> tree (kinds s') j = tree (kinds source) i \<and>
    (\<forall>c < length (kinds s). tree (kinds s') c = tree (kinds s) c) \<and>
    (concrete (tree (kinds source) i) \<longrightarrow> stable_fingerprint s' j = stable_fingerprint source i)"
proof -
  from import_from_delivers [OF assms(1,3,2)] obtain r s' where
    r: "import_from source i s = Some (r, s')" "store_ok s'" "store_ext s s'"
      "case r of Inl e \<Rightarrow> False | Inr j \<Rightarrow> stands_for s' j (tree (kinds source) i)"
    unfolding store.delivers_def by blast
  then obtain j where j: "r = Ok j" "j < length (kinds s')" "tree (kinds s') j = tree (kinds source) i"
    by (auto split: sum.splits)
  have int: "interner_ok s'" "interner_ok source" using r(2) assms(1) by (simp_all add: store_ok_def)
  have "stable_fingerprint s' j = stable_fingerprint source i" if "concrete (tree (kinds source) i)"
    using hash_type_words [OF int(1) j(2)] hash_type_words [OF int(2) assms(3)] that j(3)
    by (simp add: feeds_def stable_fingerprint_def del: lit_simps)
  then show ?thesis using r j store_ext_tree [OF r(3) int(1)] by blast
qed

theorem import_from_preserves_witness:
  "\<exists>j s'. import_from type_store_new (c_float4 (core type_store_new)) (snd (intern TOwnedString type_store_new)) = Some (Ok j, s') \<and>
     tree (kinds s') j = Ty (TVector (Ty (TFloat FloatBits32)) 4)"
proof -
  obtain a t where t: "intern TOwnedString type_store_new = (a, t)" by (cases "intern TOwnedString type_store_new")
  have "store_ok (snd (intern TOwnedString type_store_new))" using intern_store [OF type_store_new_ok _ t] t by simp
  moreover have "c_float4 (core type_store_new) < length (kinds type_store_new)"
    "tree (kinds type_store_new) (c_float4 (core type_store_new)) = Ty (TVector (Ty (TFloat FloatBits32)) 4)" by code_simp+
  ultimately show ?thesis using import_from_preserves [OF type_store_new_ok, of _ "c_float4 (core type_store_new)"] by fastforce
qed

text \<open>
  Applying a substitution returns, and gives an identity of the type in which every mapped generic parameter
  is replaced at once by what it is mapped to and every other one stays.
\<close>

theorem substitution_apply_correct:
  assumes "store_ok s" "substitution_ok sub s" "i < length (kinds s)"
  shows "\<exists>j s'. substitution_apply sub i s = Some (Ok j, s') \<and> store_ok s' \<and>
    tree (kinds s') j = generic_subst (substitution_types sub s) (tree (kinds s) i) \<and>
    (\<forall>c < length (kinds s). tree (kinds s') c = tree (kinds s) c)"
proof -
  from substitution_apply_delivers [OF assms(2,3,1) store_ext_refl] obtain r s' where
    r: "substitution_apply sub i s = Some (r, s')" "store_ok s'" "store_ext s s'"
      "case r of Inl e \<Rightarrow> False | Inr j \<Rightarrow> stands_for s' j (generic_subst (substitution_types sub s) (tree (kinds s) i))"
    unfolding store.delivers_def by blast
  moreover have "interner_ok s'" using r(2) by (simp add: store_ok_def)
  ultimately show ?thesis using store_ext_tree [OF r(3)] by (auto split: sum.splits)
qed

text \<open>A store with a generic parameter and an optional value of it.\<close>

definition sample_parameter :: GenericParameterId where
  "sample_parameter = GenericParameterId (Fingerprint 7) 0"

definition sample_generic :: "TypeId \<times> TypeStore" where
  "sample_generic = (case intern (TGeneric sample_parameter) type_store_new of (p, s) \<Rightarrow> intern (TOption p) s)"

theorem substitution_apply_correct_witness:
  "\<exists>j s'. substitution_apply (snd (substitution_insert sample_parameter (c_bool (core type_store_new)) substitution_new))
       (fst sample_generic) (snd sample_generic) = Some (Ok j, s') \<and>
     tree (kinds s') j = Ty (TOption (Ty TBool))"
proof -
  obtain p s where p: "intern (TGeneric sample_parameter) type_store_new = (p, s)"
    by (cases "intern (TGeneric sample_parameter) type_store_new")
  have s: "store_ok s" "p < length (kinds s)"
    using intern_store [OF type_store_new_ok _ p] intern_tree [OF type_store_new_ok _ p] by auto
  obtain i u where i: "intern (TOption p) s = (i, u)" by (cases "intern (TOption p) s")
  have u: "store_ok (snd sample_generic)"
    using intern_store [OF s(1) _ i] s(2) p i by (simp add: sample_generic_def)
  let ?sub = "snd (substitution_insert sample_parameter (c_bool (core type_store_new)) substitution_new)"
  have "substitution_ok ?sub (snd sample_generic)" "fst sample_generic < length (kinds (snd sample_generic))"
    "generic_subst (substitution_types ?sub (snd sample_generic)) (tree (kinds (snd sample_generic)) (fst sample_generic)) =
       Ty (TOption (Ty TBool))"
    by code_simp+
  with substitution_apply_correct [OF u] show ?thesis by fastforce
qed

end
