(* ===== verification/Unification.thy ===== *)
theory Unification
  imports Type_Transform
begin

text \<open>
  The crate \<open>jadren-types\<close>, third part: the table of inference variables and structural unification. The table maps
  a variable to the identity it is bound to; bindings refer to other variables, so a type is read through the
  table. Shown here: on tables that have a solution, which every operation keeps, unification and deep resolution return,
  a successful unification makes the types agree (up to \<open>Never\<close> and \<open>Error\<close>), and it only commits to what every unifier has.
\<close>

subsection \<open>The table\<close>

record UnificationTable =
  bindings :: "TypeId option list"

datatype UnifyError =
    Mismatch TypeId TypeId
  | Occurs TypeVariableId TypeId
  | InvalidUnifyType TypeId
  | UnknownVariable TypeVariableId

definition table_new :: UnificationTable where
  "table_new = \<lparr>bindings = []\<rparr>"

definition fresh :: "UnificationTable \<times> TypeStore \<Rightarrow> TypeId \<times> UnificationTable \<times> TypeStore" where
  "fresh st =
     (case st of (tb, s) \<Rightarrow>
        (let index = length (bindings tb);
             tb' = tb\<lparr>bindings := bindings tb @ [None]\<rparr>
         in case intern (TInfer index) s of (i, s') \<Rightarrow> (i, tb', s')))"

definition as_infer :: "'t type_kind \<Rightarrow> TypeVariableId option" where
  "as_infer k = (case k of TInfer v \<Rightarrow> Some v | _ \<Rightarrow> None)"

partial_function (option) resolve_shallow :: "UnificationTable \<Rightarrow> TypeStore \<Rightarrow> TypeId \<Rightarrow> TypeId option" where
  "resolve_shallow tb s ty =
     (case Option.bind (kind_of s ty) as_infer of
        None \<Rightarrow> Some ty
      | Some v \<Rightarrow>
          (case get (bindings tb) v of
             None \<Rightarrow> Some ty
           | Some slot \<Rightarrow>
               (case slot of
                  None \<Rightarrow> Some ty
                | Some bound \<Rightarrow> if bound = ty then Some ty else resolve_shallow tb s bound)))"

text \<open>The parts of a description in the order of the source, and \<open>any\<close> over them.\<close>

definition kind_parts :: "'t type_kind \<Rightarrow> 't list" where
  "kind_parts k =
     (case k of
        TArray e n \<Rightarrow> [e] | TVector e n \<Rightarrow> [e] | TBuffer e \<Rightarrow> [e] | TSlice e \<Rightarrow> [e] | TPointer e \<Rightarrow> [e] | TOption e \<Rightarrow> [e]
      | TResult a b \<Rightarrow> [a, b]
      | TNominal c as \<Rightarrow> as
      | TFunction ps r \<Rightarrow> ps @ [r]
      | TCapability c e \<Rightarrow> [e]
      | _ \<Rightarrow> [])"

fun any_part :: "('a \<Rightarrow> bool option) \<Rightarrow> 'a list \<Rightarrow> bool option" where
  "any_part f [] = Some False"
| "any_part f (x # xs) = Option.bind (f x) (\<lambda>b. if b then Some True else any_part f xs)"

lemma any_part_mono [partial_function_mono]:
  assumes "\<And>x. mono_option (\<lambda>f. g x f)"
  shows "mono_option (\<lambda>f. any_part (\<lambda>x. g x f) xs)"
proof (induction xs)
  case Nil
  show ?case by (simp add: option.const_mono)
next
  case (Cons x xs)
  have "mono_option (\<lambda>f. if b then Some True else any_part (\<lambda>x. g x f) xs)" for b
    using Cons by (cases b) (simp_all add: option.const_mono)
  then show ?case unfolding any_part.simps by (intro bind_mono assms)
qed

partial_function (option) occurs :: "UnificationTable \<Rightarrow> TypeStore \<Rightarrow> TypeVariableId \<Rightarrow> TypeId \<Rightarrow> bool option" where
  "occurs tb s v ty0 =
     Option.bind (resolve_shallow tb s ty0) (\<lambda>ty.
       case kind_of s ty of
         None \<Rightarrow> Some False
       | Some k \<Rightarrow>
           (case as_infer k of
              Some other \<Rightarrow> Some (other = v)
            | None \<Rightarrow> any_part (occurs tb s v) (kind_parts k)))"

type_synonym 'a unify_op = "(UnificationTable \<times> TypeStore, UnifyError, 'a) op"

definition bind_variable :: "TypeVariableId \<Rightarrow> TypeId \<Rightarrow> unit unify_op" where
  "bind_variable v ty st =
     (case st of (tb, s) \<Rightarrow>
        Option.bind (occurs tb s v ty) (\<lambda>found.
          if found then Some (Err (Occurs v ty), st)
          else if v < length (bindings tb)
          then Some (Ok (), (tb\<lparr>bindings := (bindings tb)[v := Some ty]\<rparr>, s))
          else Some (Err (UnknownVariable v), st)))"

definition intern_type :: "TypeKind \<Rightarrow> TypeId unify_op" where
  "intern_type k = op_lift (\<lambda>(tb, s). case intern k s of (i, s') \<Rightarrow> (i, (tb, s')))"

text \<open>
  The arms of the match of \<open>unify\<close> that unify the parts of two descriptions: the pairs of parts in order, in the
  place they have in the result; absent where the source reports a mismatch.
\<close>

definition match_parts :: "'a type_kind \<Rightarrow> 'b type_kind \<Rightarrow> ('a \<times> 'b) type_kind option" where
  "match_parts l r =
     (case l of
        TArray a n \<Rightarrow> (case r of TArray b m \<Rightarrow> if n = m then Some (TArray (a, b) n) else None | _ \<Rightarrow> None)
      | TVector a n \<Rightarrow> (case r of TVector b m \<Rightarrow> if n = m then Some (TVector (a, b) n) else None | _ \<Rightarrow> None)
      | TBuffer a \<Rightarrow> (case r of TBuffer b \<Rightarrow> Some (TBuffer (a, b)) | _ \<Rightarrow> None)
      | TSlice a \<Rightarrow> (case r of TSlice b \<Rightarrow> Some (TSlice (a, b)) | _ \<Rightarrow> None)
      | TPointer a \<Rightarrow> (case r of TPointer b \<Rightarrow> Some (TPointer (a, b)) | _ \<Rightarrow> None)
      | TOption a \<Rightarrow> (case r of TOption b \<Rightarrow> Some (TOption (a, b)) | _ \<Rightarrow> None)
      | TResult a1 a2 \<Rightarrow> (case r of TResult b1 b2 \<Rightarrow> Some (TResult (a1, b1) (a2, b2)) | _ \<Rightarrow> None)
      | TNominal c as \<Rightarrow>
          (case r of TNominal d bs \<Rightarrow> if c = d \<and> length as = length bs then Some (TNominal c (zip as bs)) else None | _ \<Rightarrow> None)
      | TFunction ps a \<Rightarrow>
          (case r of TFunction qs b \<Rightarrow> if length ps = length qs then Some (TFunction (zip ps qs) (a, b)) else None | _ \<Rightarrow> None)
      | TCapability c a \<Rightarrow> (case r of TCapability d b \<Rightarrow> if c = d then Some (TCapability c (a, b)) else None | _ \<Rightarrow> None)
      | _ \<Rightarrow> None)"

text \<open>The whole match, on two different resolved identities and their descriptions, in the order of its arms.\<close>

definition unify_match :: "(TypeId \<Rightarrow> TypeId \<Rightarrow> TypeId unify_op) \<Rightarrow> TypeId \<Rightarrow> TypeId \<Rightarrow> TypeKind \<Rightarrow> TypeKind \<Rightarrow> TypeId unify_op" where
  "unify_match f left right lk rk =
     (if lk = TError \<or> rk = TError then (\<lambda>st. Some (Ok (c_error (core (snd st))), st))
      else if lk = TNever then op_return right
      else if rk = TNever then op_return left
      else case as_infer lk of
        Some v \<Rightarrow> op_bind (bind_variable v right) (\<lambda>_. op_return right)
      | None \<Rightarrow>
          (case as_infer rk of
             Some v \<Rightarrow> op_bind (bind_variable v left) (\<lambda>_. op_return left)
           | None \<Rightarrow>
               (case match_parts lk rk of
                  None \<Rightarrow> op_throw (Mismatch left right)
                | Some z \<Rightarrow> op_bind (rebuild (\<lambda>p. f (fst p) (snd p)) z) intern_type)))"

lemma unify_match_mono [partial_function_mono]:
  assumes "\<And>a b s. mono_option (\<lambda>f. g a b f s)"
  shows "mono_option (\<lambda>f. unify_match (\<lambda>a b. g a b f) left right lk rk s)"
proof -
  have "mono_option (\<lambda>f. op_bind (rebuild (\<lambda>p. g (fst p) (snd p) f) z) intern_type s)" for z
    by (intro op_bind_mono rebuild_mono assms option.const_mono)
  then show ?thesis
    unfolding unify_match_def
    by (cases "lk = TError \<or> rk = TError"; cases "lk = TNever"; cases "rk = TNever"; cases "as_infer lk"; cases "as_infer rk";
        cases "match_parts lk rk"; simp only: if_True if_False option.case) (simp_all add: option.const_mono)
qed

partial_function (option) unify :: "TypeId \<Rightarrow> TypeId \<Rightarrow> UnificationTable \<times> TypeStore \<Rightarrow>
    ((UnifyError, TypeId) result \<times> UnificationTable \<times> TypeStore) option" where
  "unify left0 right0 st =
     Option.bind (resolve_shallow (fst st) (snd st) left0) (\<lambda>left.
     Option.bind (resolve_shallow (fst st) (snd st) right0) (\<lambda>right.
       if left = right then Some (Ok left, st)
       else case kind_of (snd st) left of
         None \<Rightarrow> Some (Err (InvalidUnifyType left), st)
       | Some lk \<Rightarrow>
           (case kind_of (snd st) right of
              None \<Rightarrow> Some (Err (InvalidUnifyType right), st)
            | Some rk \<Rightarrow> unify_match unify left right lk rk st)))"

partial_function (option) resolve_deep :: "UnificationTable \<Rightarrow> TypeId \<Rightarrow> TypeStore \<Rightarrow> ((UnifyError, TypeId) result \<times> TypeStore) option" where
  "resolve_deep tb ty0 s =
     Option.bind (resolve_shallow tb s ty0) (\<lambda>ty.
       case kind_of s ty of
         None \<Rightarrow> Some (Err (InvalidUnifyType ty), s)
       | Some k \<Rightarrow> op_bind (rebuild (resolve_deep tb) k) (\<lambda>resolved. op_lift (intern resolved)) s)"

subsection \<open>Types with variables\<close>

definition infer_node :: "(TypeVariableId \<Rightarrow> Ty) \<Rightarrow> Ty type_kind \<Rightarrow> Ty" where
  "infer_node \<theta> k = (case as_infer k of Some v \<Rightarrow> \<theta> v | None \<Rightarrow> Ty k)"

primrec infer_subst :: "(TypeVariableId \<Rightarrow> Ty) \<Rightarrow> Ty \<Rightarrow> Ty" where
  "infer_subst \<theta> (Ty k) = infer_node \<theta> (map_type_kind (infer_subst \<theta>) k)"

primrec tvars :: "Ty \<Rightarrow> TypeVariableId set" where
  "tvars (Ty k) = set_option (as_infer k) \<union> \<Union> (set_type_kind (map_type_kind tvars k))"

primrec tsize :: "Ty \<Rightarrow> nat" where
  "tsize (Ty k) = Suc (sum_list (kind_parts (map_type_kind tsize k)))"

text \<open>
  \<open>absorbs t u\<close>: the type \<open>u\<close> is \<open>t\<close> with some occurrences of \<open>Never\<close> replaced, or with an \<open>Error\<close> in place of a part.
\<close>

inductive absorbs :: "Ty \<Rightarrow> Ty \<Rightarrow> bool" where
  absorbs_error: "absorbs t (Ty TError)"
| absorbs_never: "absorbs (Ty TNever) t"
| absorbs_parts: "rel_type_kind absorbs k k' \<Longrightarrow> absorbs (Ty k) (Ty k')"
  monos type_kind.rel_mono

lemma as_infer_map [simp]: "as_infer (map_type_kind f k) = as_infer k"
  by (cases k) (simp_all add: as_infer_def)

lemma as_infer_Some: "as_infer k = Some v \<longleftrightarrow> k = TInfer v"
  by (cases k) (auto simp: as_infer_def)

lemma as_infer_TInfer [simp]: "as_infer (TInfer v) = Some v"
  by (simp add: as_infer_def)

lemma set_kind_parts: "set (kind_parts k) = set_type_kind k"
  by (cases k) (auto simp: kind_parts_def)

lemma kind_parts_map: "kind_parts (map_type_kind f k) = map f (kind_parts k)"
  by (cases k) (simp_all add: kind_parts_def)

lemma tsize_part: "c \<in> set_type_kind k \<Longrightarrow> tsize c < tsize (Ty k)"
  by (simp add: kind_parts_map set_kind_parts [symmetric] less_Suc_eq_le member_le_sum_list)

lemma infer_node_var [simp]: "infer_node \<theta> (TInfer v) = \<theta> v"
  by (simp add: infer_node_def)

lemma infer_subst_node: "as_infer k = None \<Longrightarrow> infer_subst \<theta> (Ty k) = Ty (map_type_kind (infer_subst \<theta>) k)"
  by (simp add: infer_node_def)

lemma tvars_var [simp]: "tvars (Ty (TInfer v)) = {v}"
  by simp

lemma tvars_node: "as_infer k = None \<Longrightarrow> tvars (Ty k) = (\<Union>c \<in> set_type_kind k. tvars c)"
  by (simp add: type_kind.set_map)

lemma infer_subst_cong: "(\<And>v. v \<in> tvars t \<Longrightarrow> \<theta> v = \<theta>' v) \<Longrightarrow> infer_subst \<theta> t = infer_subst \<theta>' t"
proof (induction t)
  case (Ty k)
  show ?case
  proof (cases "as_infer k")
    case None
    have "infer_subst \<theta> c = infer_subst \<theta>' c" if "c \<in> set_type_kind k" for c
      using that Ty.prems None by (intro Ty.IH) (auto simp: tvars_node simp del: tvars.simps)
    then show ?thesis by (simp add: infer_subst_node None cong: type_kind.map_cong del: infer_subst.simps)
  next
    case (Some v)
    then show ?thesis using Ty.prems by (simp add: as_infer_Some)
  qed
qed

lemma infer_subst_comp: "infer_subst \<theta> (infer_subst \<sigma> t) = infer_subst (\<lambda>v. infer_subst \<theta> (\<sigma> v)) t"
proof (induction t)
  case (Ty k)
  show ?case
  proof (cases "as_infer k")
    case None
    then show ?thesis using Ty.IH
      by (simp add: infer_subst_node type_kind.map_comp comp_def cong: type_kind.map_cong del: infer_subst.simps)
  next
    case (Some v)
    then show ?thesis by (simp add: as_infer_Some)
  qed
qed

lemma infer_subst_id: "infer_subst (\<lambda>v. Ty (TInfer v)) t = t"
proof (induction t)
  case (Ty k)
  show ?case
  proof (cases "as_infer k")
    case None
    then show ?thesis using Ty.IH
      by (simp add: infer_subst_node cong: type_kind.map_cong del: infer_subst.simps) (simp add: type_kind.map_ident)
  next
    case (Some v)
    then show ?thesis by (simp add: as_infer_Some)
  qed
qed

lemma infer_subst_absent: "v \<notin> tvars t \<Longrightarrow> infer_subst ((\<lambda>v. Ty (TInfer v))(v := u)) t = t"
proof -
  assume "v \<notin> tvars t"
  then have "infer_subst ((\<lambda>v. Ty (TInfer v))(v := u)) t = infer_subst (\<lambda>v. Ty (TInfer v)) t"
    by (intro infer_subst_cong) auto
  then show ?thesis by (simp add: infer_subst_id)
qed

lemma absorbs_refl: "absorbs t t"
  by (induction t) (auto intro!: absorbs_parts type_kind.rel_refl_strong)

subsection \<open>Solutions of a table\<close>

text \<open>What an identity is under an assignment to the variables.\<close>

definition val :: "(TypeVariableId \<Rightarrow> Ty) \<Rightarrow> TypeStore \<Rightarrow> TypeId \<Rightarrow> Ty" where
  "val \<theta> s i = infer_subst \<theta> (tree (kinds s) i)"

abbreviation bound :: "UnificationTable \<Rightarrow> TypeVariableId \<Rightarrow> TypeId \<Rightarrow> bool" where
  "bound tb v b \<equiv> get (bindings tb) v = Some (Some b)"

definition solves :: "(TypeVariableId \<Rightarrow> Ty) \<Rightarrow> UnificationTable \<Rightarrow> TypeStore \<Rightarrow> bool" where
  "solves \<theta> tb s \<longleftrightarrow> (\<forall>v b. bound tb v b \<longrightarrow> \<theta> v = val \<theta> s b)"

text \<open>
  The invariant: the store is well formed, bindings are identities of it, \<open>\<sigma>\<close> solves the table and leaves the unbound
  variables alone, and following bindings from variable to variable goes down in \<open>rank\<close>.
\<close>

definition table_ok :: "(TypeVariableId \<Rightarrow> Ty) \<Rightarrow> (TypeVariableId \<Rightarrow> nat) \<Rightarrow> UnificationTable \<Rightarrow> TypeStore \<Rightarrow> bool" where
  "table_ok \<sigma> rank tb s \<longleftrightarrow>
     store_ok s \<and> (\<forall>v b. bound tb v b \<longrightarrow> b < length (kinds s)) \<and>
     solves \<sigma> tb s \<and> (\<forall>v. (\<nexists>b. bound tb v b) \<longrightarrow> \<sigma> v = Ty (TInfer v)) \<and>
     (\<forall>v b w. bound tb v b \<longrightarrow> get (kinds s) b = Some (TInfer w) \<longrightarrow> rank w < rank v)"

definition infer_ok :: "UnificationTable \<times> TypeStore \<Rightarrow> bool" where
  "infer_ok st \<longleftrightarrow> (\<exists>\<sigma> rank. table_ok \<sigma> rank (fst st) (snd st))"

text \<open>How operations change the state: the store grows, no variable is added, and bindings stay.\<close>

definition infer_ext :: "UnificationTable \<times> TypeStore \<Rightarrow> UnificationTable \<times> TypeStore \<Rightarrow> bool" where
  "infer_ext st st' \<longleftrightarrow>
     store_ext (snd st) (snd st') \<and> length (bindings (fst st')) = length (bindings (fst st)) \<and>
     (\<forall>v b. bound (fst st) v b \<longrightarrow> bound (fst st') v b)"

lemma table_okD:
  assumes "table_ok \<sigma> rank tb s"
  shows "store_ok s" "interner_ok s" "bound tb v b \<Longrightarrow> b < length (kinds s)" "solves \<sigma> tb s"
    "\<nexists>b. bound tb v b \<Longrightarrow> \<sigma> v = Ty (TInfer v)"
    "bound tb v b \<Longrightarrow> get (kinds s) b = Some (TInfer w) \<Longrightarrow> rank w < rank v"
  using assms by (auto simp: table_ok_def store_ok_def)

lemma val_get:
  assumes "interner_ok s" "get (kinds s) i = Some k"
  shows "val \<theta> s i = (case as_infer k of Some v \<Rightarrow> \<theta> v | None \<Rightarrow> Ty (map_type_kind (val \<theta> s) k))"
  using tree_get(1) [OF assms] as_infer_Some [of k]
  by (auto simp: val_def [abs_def] infer_node_def type_kind.map_comp comp_def split: option.splits)

lemma val_ext: "store_ext s t \<Longrightarrow> interner_ok t \<Longrightarrow> i < length (kinds s) \<Longrightarrow> val \<theta> t i = val \<theta> s i"
  by (simp add: val_def store_ext_tree)

lemma solves_val: "solves \<theta> tb s \<Longrightarrow> bound tb v b \<Longrightarrow> val \<theta> s b = \<theta> v"
  by (simp add: solves_def)

subsection \<open>Following bindings\<close>

lemma resolve_shallow_correct:
  assumes ok: "table_ok \<sigma> rank tb s" and "i < length (kinds s)"
  shows "\<exists>r k. resolve_shallow tb s i = Some r \<and> get (kinds s) r = Some k \<and> (\<forall>\<theta>. solves \<theta> tb s \<longrightarrow> val \<theta> s r = val \<theta> s i) \<and>
    (\<forall>v. k = TInfer v \<longrightarrow> (\<nexists>b. bound tb v b))"
  using assms(2)
proof (induction "case get (kinds s) i of Some (TInfer v) \<Rightarrow> Suc (rank v) | _ \<Rightarrow> 0" arbitrary: i rule: less_induct)
  case less
  note int = table_okD(2) [OF ok]
  obtain k where k: "get (kinds s) i = Some k" using less.prems by (simp add: get_def)
  show ?case
  proof (cases "\<exists>v b. k = TInfer v \<and> bound tb v b")
    case False
    then have "resolve_shallow tb s i = Some i"
      by (subst resolve_shallow.simps) (auto simp: kind_of_def k as_infer_Some split: option.splits)
    with False k show ?thesis by blast
  next
    case True
    then obtain v b where v: "k = TInfer v" "bound tb v b" by blast
    have b: "b < length (kinds s)" using table_okD(3) [OF ok v(2)] .
    obtain kb where kb: "get (kinds s) b = Some kb" using b by (simp add: get_def)
    have down: "(case kb of TInfer w \<Rightarrow> Suc (rank w) | _ \<Rightarrow> 0) < Suc (rank v)"
      using table_okD(6) [OF ok v(2)] kb by (cases kb) auto
    then have "b \<noteq> i" using k kb v(1) by auto
    then have step: "resolve_shallow tb s i = resolve_shallow tb s b"
      by (subst resolve_shallow.simps) (simp add: kind_of_def k v)
    have "val \<theta> s i = val \<theta> s b" if "solves \<theta> tb s" for \<theta>
      using val_get [OF int k, of \<theta>] solves_val [OF that v(2)] v(1) by simp
    moreover have "(case get (kinds s) b of Some (TInfer v) \<Rightarrow> Suc (rank v) | _ \<Rightarrow> 0) <
        (case get (kinds s) i of Some (TInfer v) \<Rightarrow> Suc (rank v) | _ \<Rightarrow> 0)"
      using down by (simp add: k kb v(1))
    ultimately show ?thesis using less.hyps [OF _ b] step by auto
  qed
qed

subsection \<open>The occurs check\<close>

lemma any_part_correct:
  "(\<And>x. x \<in> set xs \<Longrightarrow> f x = Some (P x)) \<Longrightarrow> any_part f xs = Some (\<exists>x \<in> set xs. P x)"
  by (induction xs) auto

text \<open>
  On an unbound variable the check decides whether it occurs in the resolved type; if it does, the variable is
  smaller than the type in every solution, or the type is the variable.
\<close>

lemma occurs_correct:
  assumes ok: "table_ok \<sigma> rank tb s" and v: "\<nexists>b. bound tb v b"
  shows "i < length (kinds s) \<Longrightarrow> val \<sigma> s i = T \<Longrightarrow>
    occurs tb s v i = Some (v \<in> tvars T) \<and>
    (v \<in> tvars T \<longrightarrow> (\<forall>\<theta>. solves \<theta> tb s \<longrightarrow>
       tsize (\<theta> v) \<le> tsize (val \<theta> s i) \<and> (T \<noteq> Ty (TInfer v) \<longrightarrow> tsize (\<theta> v) < tsize (val \<theta> s i))))"
proof (induction T arbitrary: i)
  case (Ty K)
  note int = table_okD(2) [OF ok] and sol = table_okD(4) [OF ok]
  obtain r k where r: "resolve_shallow tb s i = Some r" "get (kinds s) r = Some k"
      "\<And>\<theta>. solves \<theta> tb s \<Longrightarrow> val \<theta> s r = val \<theta> s i" "\<And>w. k = TInfer w \<Longrightarrow> \<nexists>b. bound tb w b"
    using resolve_shallow_correct [OF ok Ty.prems(1)] by blast
  have rT: "val \<sigma> s r = Ty K" using r(3) [OF sol] Ty.prems(2) by simp
  show ?case
  proof (cases "as_infer k")
    case (Some w)
    then have k: "k = TInfer w" by (simp add: as_infer_Some)
    have K: "K = TInfer w" using val_get [OF int r(2), of \<sigma>] rT table_okD(5) [OF ok r(4) [OF k]] k by simp
    have "occurs tb s v i = Some (w = v)"
      by (subst occurs.simps) (simp add: r(1) kind_of_def r(2) k)
    moreover have "val \<theta> s i = \<theta> w" if "solves \<theta> tb s" for \<theta>
      using r(3) [OF that] val_get [OF int r(2), of \<theta>] k by simp
    ultimately show ?thesis using K by auto
  next
    case None
    note vg = val_get [OF int r(2), unfolded None option.case]
    have K: "K = map_type_kind (val \<sigma> s) k" using vg [of \<sigma>] rT by simp
    have part: "c < length (kinds s)" "val \<sigma> s c \<in> set_type_kind K" if "c \<in> set_type_kind k" for c
      using that tree_get(2,3) [OF int r(2)] by (auto simp: K type_kind.set_map)
    have tv: "tvars (Ty K) = (\<Union>c \<in> set_type_kind k. tvars (val \<sigma> s c))"
      using None by (subst tvars_node) (simp_all add: K type_kind.set_map)
    have IH: "occurs tb s v c = Some (v \<in> tvars (val \<sigma> s c))"
      "v \<in> tvars (val \<sigma> s c) \<Longrightarrow> solves \<theta> tb s \<Longrightarrow> tsize (\<theta> v) \<le> tsize (val \<theta> s c)"
      if "c \<in> set_type_kind k" for c \<theta>
      using Ty.IH [OF part(2) [OF that] part(1) [OF that] refl] by blast+
    have "occurs tb s v i = any_part (occurs tb s v) (kind_parts k)"
      by (subst occurs.simps) (simp add: r(1) kind_of_def r(2) None)
    also have "\<dots> = Some (v \<in> tvars (Ty K))"
      using any_part_correct [of "kind_parts k" "occurs tb s v" "\<lambda>c. v \<in> tvars (val \<sigma> s c)"] IH(1)
      by (simp add: set_kind_parts tv del: tvars.simps)
    finally have occ: "occurs tb s v i = Some (v \<in> tvars (Ty K))" .
    have "tsize (\<theta> v) < tsize (val \<theta> s i)" if "v \<in> tvars (Ty K)" "solves \<theta> tb s" for \<theta>
    proof -
      from that(1) tv obtain c where c: "c \<in> set_type_kind k" "v \<in> tvars (val \<sigma> s c)" by blast
      have "tsize (\<theta> v) \<le> tsize (val \<theta> s c)" using IH(2) [OF c that(2)] .
      also have "\<dots> < tsize (val \<theta> s r)"
        unfolding vg using c(1) by (intro tsize_part) (simp add: type_kind.set_map)
      finally show ?thesis using r(3) [OF that(2)] by simp
    qed
    with occ show ?thesis by (auto simp del: tvars.simps intro: less_imp_le)
  qed
qed

subsection \<open>Binding a variable\<close>

text \<open>The new solution replaces the variable in the old one.\<close>

lemma table_ok_bind:
  assumes ok: "table_ok \<sigma> rank tb s" and v: "\<nexists>b. bound tb v b" "v < length (bindings tb)"
    and i: "get (kinds s) i = Some k" "\<And>w. k = TInfer w \<Longrightarrow> \<nexists>b. bound tb w b" and "v \<notin> tvars (val \<sigma> s i)"
  shows "infer_ok (tb\<lparr>bindings := (bindings tb)[v := Some i]\<rparr>, s)"
proof -
  let ?tb = "tb\<lparr>bindings := (bindings tb)[v := Some i]\<rparr>"
  let ?u = "(\<lambda>v. Ty (TInfer v))(v := val \<sigma> s i)"
  define \<sigma>' where "\<sigma>' = (\<lambda>x. infer_subst ?u (\<sigma> x))"
  note int = table_okD(2) [OF ok]
  have bd: "bound ?tb x b \<longleftrightarrow> (if x = v then b = i else bound tb x b)" for x b
    using v(2) by (auto simp: get_def)
  have val': "val \<sigma>' s j = infer_subst ?u (val \<sigma> s j)" for j
    by (simp add: val_def \<sigma>'_def infer_subst_comp)
  have vv: "\<sigma>' v = val \<sigma> s i" using table_okD(5) [OF ok v(1)] by (simp add: \<sigma>'_def)
  have "val \<sigma>' s i = val \<sigma> s i" unfolding val' by (rule infer_subst_absent [OF assms(6)])
  with vv have sol: "solves \<sigma>' ?tb s"
    unfolding solves_def bd using table_okD(4) [OF ok] val' by (auto simp: solves_def \<sigma>'_def)
  have un: "\<sigma>' x = Ty (TInfer x)" if "\<nexists>b. bound ?tb x b" for x
  proof -
    have "x \<noteq> v" using that bd by auto
    moreover have "\<nexists>b. bound tb x b" using that bd \<open>x \<noteq> v\<close> by auto
    ultimately show ?thesis using table_okD(5) [OF ok] by (simp add: \<sigma>'_def)
  qed
  let ?rank = "\<lambda>x. if k = TInfer x then 0 else Suc (rank x)"
  have rank: "?rank w < ?rank x" if "bound ?tb x b" "get (kinds s) b = Some (TInfer w)" for x b w
  proof (cases "x = v")
    case True
    then have b: "b = i" using that(1) bd by simp
    then have kw: "k = TInfer w" using i(1) that(2) by simp
    have "val \<sigma> s i = \<sigma> w" using val_get [OF int i(1), of \<sigma>] kw by simp
    then have "val \<sigma> s i = Ty (TInfer w)" using table_okD(5) [OF ok i(2) [OF kw]] by simp
    then have "w \<noteq> v" using assms(6) by auto
    then show ?thesis using True kw by simp
  next
    case False
    then have "bound tb x b" using that(1) bd by simp
    moreover from this have "k \<noteq> TInfer x" using i(2) by blast
    ultimately show ?thesis using table_okD(6) [OF ok _ that(2)] by auto
  qed
  have "b < length (kinds s)" if "bound ?tb x b" for x b
    using that table_okD(3) [OF ok] tree_get(2) [OF int i(1)] unfolding bd by (auto split: if_splits)
  then have "table_ok \<sigma>' ?rank ?tb s"
    unfolding table_ok_def using table_okD(1) [OF ok] sol un rank by blast
  then show ?thesis unfolding infer_ok_def by auto
qed

lemma infer_ext_bind:
  "\<nexists>b. bound tb v b \<Longrightarrow> infer_ext (tb, s) (tb\<lparr>bindings := (bindings tb)[v := Some i]\<rparr>, s)"
  by (auto simp: infer_ext_def get_def nth_list_update split: if_splits)

subsection \<open>The state of the unifier\<close>

text \<open>The invariant together with a solution \<open>\<Theta>\<close> of interest, if any, and the errors it allows.\<close>

definition keeps :: "(TypeVariableId \<Rightarrow> Ty) option \<Rightarrow> UnificationTable \<times> TypeStore \<Rightarrow> bool" where
  "keeps \<Theta> st \<longleftrightarrow> infer_ok st \<and> (\<forall>\<theta>. \<Theta> = Some \<theta> \<longrightarrow> solves \<theta> (fst st) (snd st))"

definition error_allowed :: "(TypeVariableId \<Rightarrow> Ty) option \<Rightarrow> UnifyError \<Rightarrow> bool" where
  "error_allowed \<Theta> e \<longleftrightarrow> \<Theta> = None \<or> (\<exists>v. e = UnknownVariable v)"

interpretation infer: growing_state "keeps \<Theta>" infer_ext for \<Theta>
  by unfold_locales (auto simp: infer_ext_def intro: store_ext_trans)

definition free_count :: "UnificationTable \<Rightarrow> nat" where
  "free_count tb = length (filter (\<lambda>b. b = None) (bindings tb))"

lemma free_count_ext:
  assumes "infer_ext st st'"
  shows "free_count (fst st') \<le> free_count (fst st) \<and> (free_count (fst st') = free_count (fst st) \<longrightarrow> bindings (fst st') = bindings (fst st))"
proof -
  have "length (bindings (fst st)) = length (bindings (fst st'))" using assms by (simp add: infer_ext_def)
  moreover have "bindings (fst st) ! v = None \<or> bindings (fst st') ! v = bindings (fst st) ! v"
    if "v < length (bindings (fst st))" for v
    using assms that by (cases "bindings (fst st) ! v") (auto simp: infer_ext_def get_def split: if_splits)
  ultimately have "list_all2 (\<lambda>a b. a = None \<or> b = a) (bindings (fst st)) (bindings (fst st'))"
    by (simp add: list_all2_conv_all_nth)
  then show ?thesis unfolding free_count_def
    by (induction rule: list_all2_induct) auto
qed

lemma solves_ext:
  assumes "infer_ext st st'" "solves \<theta> (fst st') (snd st')" "infer_ok st" "infer_ok st'"
  shows "solves \<theta> (fst st) (snd st)"
proof -
  obtain \<sigma> rank \<sigma>' rank' where t: "table_ok \<sigma> rank (fst st) (snd st)" "table_ok \<sigma>' rank' (fst st') (snd st')"
    using assms(3,4) unfolding infer_ok_def by blast
  have "val \<theta> (snd st') b = val \<theta> (snd st) b" if "bound (fst st) v b" for v b
    using assms(1) table_okD(3) [OF t(1) that] table_okD(2) [OF t(2)] by (intro val_ext) (simp_all add: infer_ext_def)
  with assms(1,2) show ?thesis unfolding solves_def infer_ext_def by metis
qed

lemma table_ok_grow:
  assumes "table_ok \<sigma> rank tb s" "store_ext s s'" "store_ok s'"
  shows "table_ok \<sigma> rank tb s'"
proof -
  have int: "interner_ok s'" using assms(3) by (simp add: store_ok_def)
  note D = table_okD [OF assms(1)]
  have "val \<theta> s' b = val \<theta> s b" if "bound tb v b" for \<theta> v b
    using D(3) [OF that] by (rule val_ext [OF assms(2) int])
  then have "solves \<sigma> tb s'" using D(4) by (simp add: solves_def)
  moreover have "rank w < rank v" if b: "bound tb v b" "get (kinds s') b = Some (TInfer w)" for v b w
  proof -
    obtain k where "get (kinds s) b = Some k" using D(3) [OF b(1)] by (simp add: get_def)
    with store_ext_get [OF assms(2) this] b D(6) show ?thesis by simp
  qed
  moreover have "b < length (kinds s')" if "bound tb v b" for v b
    using D(3) [OF that] by (rule store_ext_less [OF assms(2)])
  ultimately show ?thesis unfolding table_ok_def using assms(3) D(5) by blast
qed

lemma solves_grow:
  assumes "table_ok \<sigma> rank tb s" "store_ext s s'" "store_ok s'"
  shows "solves \<theta> tb s' \<longleftrightarrow> solves \<theta> tb s"
proof -
  have int: "interner_ok s'" using assms(3) by (simp add: store_ok_def)
  have "val \<theta> s' b = val \<theta> s b" if "bound tb v b" for v b
    using table_okD(3) [OF assms(1) that] by (rule val_ext [OF assms(2) int])
  then show ?thesis by (auto simp: solves_def)
qed

lemma delivers_intern_type:
  assumes "keeps \<Theta> st" "set_type_kind k \<subseteq> {..<length (kinds (snd st))}" "as_infer k = None"
  shows "infer.delivers \<Theta> (intern_type k) st E
    (\<lambda>j st'. j < length (kinds (snd st')) \<and> (\<forall>\<theta>. val \<theta> (snd st') j = Ty (map_type_kind (val \<theta> (snd st')) k)))"
proof -
  obtain tb s where st: "st = (tb, s)" by (cases st)
  obtain i s' where i: "intern k s = (i, s')" by (cases "intern k s")
  obtain \<sigma> rank where ok: "table_ok \<sigma> rank tb s" using assms(1) by (auto simp: keeps_def infer_ok_def st)
  have k: "set_type_kind k \<subseteq> {..<length (kinds s)}" using assms(2) st by simp
  from intern_store [OF table_okD(1) [OF ok] k i]
  have s': "store_ok s'" "store_ext s s'" "get (kinds s') i = Some k" by auto
  have "infer_ok (tb, s')" using table_ok_grow [OF ok s'(2,1)] by (auto simp: infer_ok_def)
  then have "keeps \<Theta> (tb, s')" using assms(1) solves_grow [OF ok s'(2,1)] by (simp add: keeps_def st)
  moreover have "infer_ext st (tb, s')" using s'(2) by (simp add: infer_ext_def st)
  moreover have "interner_ok s'" using s'(1) by (simp add: store_ok_def)
  ultimately show ?thesis
    using s'(3) val_get [OF _ s'(3)] assms(3) i st tree_get(2) [OF _ s'(3)]
    by (simp add: infer.delivers_def intern_type_def)
qed

lemma delivers_bind_variable:
  assumes keeps: "keeps \<Theta> (tb, s)" and v: "\<nexists>b. bound tb v b"
    and i: "get (kinds s) i = Some k" "\<And>w. k = TInfer w \<Longrightarrow> \<nexists>b. bound tb w b" "k \<noteq> TInfer v"
    and eq: "\<And>\<theta>. \<Theta> = Some \<theta> \<Longrightarrow> \<theta> v = val \<theta> s i"
  shows "infer.delivers \<Theta> (bind_variable v i) (tb, s) (error_allowed \<Theta>)
    (\<lambda>_ st'. snd st' = s \<and> (\<forall>\<theta>. solves \<theta> (fst st') s \<longrightarrow> \<theta> v = val \<theta> s i))"
proof -
  obtain \<sigma> rank where ok: "table_ok \<sigma> rank tb s" using keeps by (auto simp: keeps_def infer_ok_def)
  note int = table_okD(2) [OF ok]
  have len: "i < length (kinds s)" using tree_get(2) [OF int i(1)] .
  have nv: "val \<sigma> s i \<noteq> Ty (TInfer v)"
  proof (cases "as_infer k")
    case None
    then have "as_infer (node (val \<sigma> s i)) = None" using val_get [OF int i(1), of \<sigma>] by simp
    then show ?thesis by auto
  next
    case (Some w)
    then have "k = TInfer w" by (simp add: as_infer_Some)
    then show ?thesis using val_get [OF int i(1), of \<sigma>] table_okD(5) [OF ok i(2)] i(3) by simp
  qed
  note occ = occurs_correct [OF ok v len refl]
  show ?thesis
  proof (cases "v \<in> tvars (val \<sigma> s i)")
    case True
    then have "\<theta> v \<noteq> val \<theta> s i" if "solves \<theta> tb s" for \<theta> using occ nv that by force
    then have "\<Theta> = None" using keeps eq by (cases \<Theta>) (auto simp: keeps_def)
    then show ?thesis using occ True keeps infer.ext_refl
      by (simp add: infer.delivers_def bind_variable_def error_allowed_def)
  next
    case False
    note occ = occ [THEN conjunct1] False
    show ?thesis
    proof (cases "v < length (bindings tb)")
      case True
      let ?tb = "tb\<lparr>bindings := (bindings tb)[v := Some i]\<rparr>"
      have bd: "bound ?tb x b \<longleftrightarrow> (if x = v then b = i else bound tb x b)" for x b
        using True by (auto simp: get_def)
      then have "solves \<theta> ?tb s \<longleftrightarrow> solves \<theta> tb s \<and> \<theta> v = val \<theta> s i" for \<theta>
        using v unfolding solves_def bd by auto
      moreover have "infer_ok (?tb, s)" using table_ok_bind [OF ok v True i(1,2) False] .
      ultimately have "keeps \<Theta> (?tb, s)" "\<And>\<theta>. solves \<theta> ?tb s \<Longrightarrow> \<theta> v = val \<theta> s i"
        using keeps eq by (auto simp: keeps_def)
      then show ?thesis using occ True infer_ext_bind [OF v]
        by (simp add: infer.delivers_def bind_variable_def)
    next
      case unknown: False
      then show ?thesis using occ keeps infer.ext_refl
        by (simp add: infer.delivers_def bind_variable_def error_allowed_def)
    qed
  qed
qed

subsection \<open>The match\<close>

lemma match_parts_Some:
  "match_parts l r = Some z \<Longrightarrow> map_type_kind fst z = l \<and> map_type_kind snd z = r \<and> as_infer z = None"
  by (cases l; cases r) (auto simp: match_parts_def as_infer_def split: if_splits)

lemma match_parts_None:
  "match_parts l r = None \<Longrightarrow> map_type_kind f l = map_type_kind f r \<Longrightarrow> as_infer l = None \<Longrightarrow> l = r"
  by (cases l; cases r) (auto simp: match_parts_def as_infer_def split: if_splits dest: map_eq_imp_length_eq)

lemma map_type_kind_eqD: "map_type_kind f z = map_type_kind g z \<Longrightarrow> x \<in> set_type_kind z \<Longrightarrow> f x = g x"
  by (cases z) auto

text \<open>What a unification delivers: the result is in the store and absorbs both types in every solution.\<close>

definition agrees :: "(TypeVariableId \<Rightarrow> Ty) option \<Rightarrow> TypeId \<Rightarrow> TypeId \<Rightarrow> TypeId \<Rightarrow> UnificationTable \<times> TypeStore \<Rightarrow> bool" where
  "agrees \<Theta> l r j st \<longleftrightarrow>
     j < length (kinds (snd st)) \<and>
     (\<forall>\<theta>. solves \<theta> (fst st) (snd st) \<longrightarrow>
        absorbs (val \<theta> (snd st) l) (val \<theta> (snd st) j) \<and> absorbs (val \<theta> (snd st) r) (val \<theta> (snd st) j)) \<and>
     (\<forall>\<theta>. \<Theta> = Some \<theta> \<longrightarrow> val \<theta> (snd st) j = val \<theta> (snd st) l)"

lemma agrees_same:
  assumes "j < length (kinds (snd st))"
    and "\<And>\<theta>. solves \<theta> (fst st) (snd st) \<Longrightarrow> val \<theta> (snd st) l = val \<theta> (snd st) j"
    and "\<And>\<theta>. solves \<theta> (fst st) (snd st) \<Longrightarrow> val \<theta> (snd st) r = val \<theta> (snd st) j"
    and "\<And>\<theta>. \<Theta> = Some \<theta> \<Longrightarrow> val \<theta> (snd st) j = val \<theta> (snd st) l"
  shows "agrees \<Theta> l r j st"
  using assms by (auto simp: agrees_def absorbs_refl)

lemma agrees_ext:
  assumes "agrees \<Theta> l r j t" "infer_ext t u" "keeps \<Theta> t" "keeps \<Theta> u"
    and "l < length (kinds (snd t))" "r < length (kinds (snd t))"
  shows "agrees \<Theta> l r j u"
proof -
  have ok: "infer_ok t" "infer_ok u" using assms(3,4) by (simp_all add: keeps_def)
  then have int: "interner_ok (snd u)" by (auto simp: infer_ok_def table_ok_def store_ok_def)
  have ext: "store_ext (snd t) (snd u)" using assms(2) by (simp add: infer_ext_def)
  have j: "j < length (kinds (snd t))" using assms(1) by (simp add: agrees_def)
  have "val \<theta> (snd u) c = val \<theta> (snd t) c" if "c \<in> {l, r, j}" for \<theta> c
    using that assms(5,6) j by (intro val_ext [OF ext int]) auto
  moreover have "j < length (kinds (snd u))" using j by (rule store_ext_less [OF ext])
  ultimately show ?thesis
    using assms(1) solves_ext [OF assms(2) _ ok] by (simp add: agrees_def)
qed

lemma rel_agrees:
  assumes "rel_type_kind (\<lambda>p d. agrees \<Theta> (fst p) (snd p) d u) z k'"
  shows "set_type_kind k' \<subseteq> {..<length (kinds (snd u))}" "as_infer k' = as_infer z"
proof -
  have "rel_type_kind (\<lambda>p d. d < length (kinds (snd u)) \<and> () = ()) z k'"
    using assms by (rule type_kind.rel_mono_strong) (simp add: agrees_def)
  from rel_type_kind_map [OF this] show "set_type_kind k' \<subseteq> {..<length (kinds (snd u))}" by blast
  show "as_infer k' = as_infer z" using assms by (cases z; cases k') (simp_all add: as_infer_def)
qed

text \<open>The arms that unify parts.\<close>

lemma unify_parts_delivers:
  assumes keeps: "keeps \<Theta> t" and l: "get (kinds (snd t)) left = Some lk" and r: "get (kinds (snd t)) right = Some rk"
    and eq: "\<And>\<theta>. \<Theta> = Some \<theta> \<Longrightarrow> val \<theta> (snd t) left = val \<theta> (snd t) right"
    and z: "match_parts lk rk = Some z"
    and f: "\<And>a b u. a \<in> set_type_kind lk \<Longrightarrow> b \<in> set_type_kind rk \<Longrightarrow> keeps \<Theta> u \<Longrightarrow> infer_ext t u \<Longrightarrow>
      (\<And>\<theta>. \<Theta> = Some \<theta> \<Longrightarrow> val \<theta> (snd u) a = val \<theta> (snd u) b) \<Longrightarrow>
      infer.delivers \<Theta> (f a b) u (error_allowed \<Theta>) (agrees \<Theta> a b)"
  shows "infer.delivers \<Theta> (op_bind (rebuild (\<lambda>p. f (fst p) (snd p)) z) intern_type) t (error_allowed \<Theta>) (agrees \<Theta> left right)"
proof -
  have int: "interner_ok (snd u)" if "keeps \<Theta> u" for u using that by (auto simp: keeps_def infer_ok_def table_ok_def store_ok_def)
  note zp = match_parts_Some [OF z]
  have none: "as_infer lk = None" "as_infer rk = None" using zp by (metis as_infer_map)+
  have mem: "fst p \<in> set_type_kind lk" "snd p \<in> set_type_kind rk" if "p \<in> set_type_kind z" for p
    using that zp by (auto simp: type_kind.set_map)
  have len: "fst p < length (kinds (snd t))" "snd p < length (kinds (snd t))" if "p \<in> set_type_kind z" for p
    using mem [OF that] tree_get(2,3) [OF int [OF keeps] l] tree_get(2,3) [OF int [OF keeps] r] by auto
  have vals: "val \<theta> u left = Ty (map_type_kind (val \<theta> u \<circ> fst) z)" "val \<theta> u right = Ty (map_type_kind (val \<theta> u \<circ> snd) z)"
    if "interner_ok u" "store_ext (snd t) u" for \<theta> u
    using val_get [OF that(1) store_ext_get [OF that(2) l], of \<theta>] val_get [OF that(1) store_ext_get [OF that(2) r], of \<theta>] none zp
    by (simp_all flip: type_kind.map_comp)
  have parts_eq: "val \<theta> (snd u) (fst p) = val \<theta> (snd u) (snd p)" if u: "\<Theta> = Some \<theta>" "p \<in> set_type_kind z" "keeps \<Theta> u" "infer_ext t u" for \<theta> p u
  proof -
    have "map_type_kind (val \<theta> (snd t) \<circ> fst) z = map_type_kind (val \<theta> (snd t) \<circ> snd) z"
      using vals [OF int [OF keeps] store_ext_refl, of \<theta>] eq [OF u(1)] by simp
    from map_type_kind_eqD [OF this u(2)] show ?thesis
      using val_ext [OF _ int [OF u(3)] len(1) [OF u(2)]] val_ext [OF _ int [OF u(3)] len(2) [OF u(2)]] u(4)
      by (simp add: infer_ext_def)
  qed
  have stable: "keeps \<Theta> w \<and> infer_ext t w \<and> agrees \<Theta> (fst p) (snd p) d w"
    if a: "p \<in> set_type_kind z" "keeps \<Theta> u \<and> infer_ext t u \<and> agrees \<Theta> (fst p) (snd p) d u" "infer_ext u w" "keeps \<Theta> w" for p d u w
  proof -
    have "fst p < length (kinds (snd u))" "snd p < length (kinds (snd u))"
      using a(2) len [OF a(1)] store_ext_less by (auto simp: infer_ext_def)
    with a show ?thesis using agrees_ext [of \<Theta> "fst p" "snd p" d u w] infer.ext_trans [of t u w] by simp
  qed
  show ?thesis
  proof (rule infer.delivers_bind)
    show "infer.delivers \<Theta> (rebuild (\<lambda>p. f (fst p) (snd p)) z) t (error_allowed \<Theta>)
        (\<lambda>k' u. rel_type_kind (\<lambda>p d. keeps \<Theta> u \<and> infer_ext t u \<and> agrees \<Theta> (fst p) (snd p) d u) z k')"
    proof (rule infer.delivers_rebuild [OF _ _ keeps])
      fix p u assume p: "p \<in> set_type_kind z" "keeps \<Theta> u" "infer_ext t u"
      from f [OF mem [OF p(1)] p(2,3) parts_eq [OF _ p]]
      show "infer.delivers \<Theta> (f (fst p) (snd p)) u (error_allowed \<Theta>) (\<lambda>d u. keeps \<Theta> u \<and> infer_ext t u \<and> agrees \<Theta> (fst p) (snd p) d u)"
        by (rule infer.delivers_mono) (use p(3) infer.ext_trans in blast)+
    qed (rule stable)
  next
    fix k' u assume u: "keeps \<Theta> u" "infer_ext t u"
      and rel: "rel_type_kind (\<lambda>p d. keeps \<Theta> u \<and> infer_ext t u \<and> agrees \<Theta> (fst p) (snd p) d u) z k'"
    have rel': "rel_type_kind (\<lambda>p d. agrees \<Theta> (fst p) (snd p) d w) z k'" if w: "keeps \<Theta> w" "infer_ext u w" for w
    proof (rule type_kind.rel_mono_strong [OF rel])
      fix p d assume "p \<in> set_type_kind z" "keeps \<Theta> u \<and> infer_ext t u \<and> agrees \<Theta> (fst p) (snd p) d u"
      then show "agrees \<Theta> (fst p) (snd p) d w" by (rule stable [OF _ _ w(2,1), THEN conjunct2, THEN conjunct2])
    qed
    have "infer.delivers \<Theta> (intern_type k') u (error_allowed \<Theta>)
        (\<lambda>j w. j < length (kinds (snd w)) \<and> (\<forall>\<theta>. val \<theta> (snd w) j = Ty (map_type_kind (val \<theta> (snd w)) k')))"
      using rel_agrees [OF rel' [OF u(1) infer.ext_refl]] zp by (intro delivers_intern_type u(1)) simp_all
    then show "infer.delivers \<Theta> (intern_type k') u (error_allowed \<Theta>) (agrees \<Theta> left right)"
    proof (rule infer.delivers_mono)
      fix j w assume w: "keeps \<Theta> w" "infer_ext u w"
        and j: "j < length (kinds (snd w)) \<and> (\<forall>\<theta>. val \<theta> (snd w) j = Ty (map_type_kind (val \<theta> (snd w)) k'))"
      have "store_ext (snd t) (snd w)" using u(2) w(2) store_ext_trans by (auto simp: infer_ext_def)
      note v = vals [OF int [OF w(1)] this]
      note R = rel' [OF w]
      have "val \<theta> (snd w) j = val \<theta> (snd w) left" if "\<Theta> = Some \<theta>" for \<theta>
        using rel_type_kind_map [of "\<lambda>_. True" "val \<theta> (snd w)" "val \<theta> (snd w) \<circ> fst" z k']
          type_kind.rel_mono_strong [OF R, of "\<lambda>p d. True \<and> val \<theta> (snd w) d = (val \<theta> (snd w) \<circ> fst) p"] j v(1) that
        by (simp add: agrees_def)
      moreover have "absorbs (val \<theta> (snd w) left) (val \<theta> (snd w) j) \<and> absorbs (val \<theta> (snd w) right) (val \<theta> (snd w) j)"
        if "solves \<theta> (fst w) (snd w)" for \<theta>
      proof -
        have "rel_type_kind (\<lambda>p d. absorbs (val \<theta> (snd w) (fst p)) (val \<theta> (snd w) d)) z k'"
          "rel_type_kind (\<lambda>p d. absorbs (val \<theta> (snd w) (snd p)) (val \<theta> (snd w) d)) z k'"
          using that by (auto intro!: type_kind.rel_mono_strong [OF R] simp: agrees_def)
        then show ?thesis using j v by (auto intro!: absorbs_parts simp: type_kind.rel_map)
      qed
      ultimately show "agrees \<Theta> left right j w" using j by (simp add: agrees_def)
    qed
  qed
qed

lemma unify_match_delivers:
  assumes keeps: "keeps \<Theta> t" and ne: "left \<noteq> right"
    and l: "get (kinds (snd t)) left = Some lk" "\<And>v. lk = TInfer v \<Longrightarrow> \<nexists>b. bound (fst t) v b"
    and r: "get (kinds (snd t)) right = Some rk" "\<And>v. rk = TInfer v \<Longrightarrow> \<nexists>b. bound (fst t) v b"
    and eq: "\<And>\<theta>. \<Theta> = Some \<theta> \<Longrightarrow> val \<theta> (snd t) left = val \<theta> (snd t) right"
    and f: "\<And>a b u. as_infer lk = None \<Longrightarrow> a \<in> set_type_kind lk \<Longrightarrow> b \<in> set_type_kind rk \<Longrightarrow> keeps \<Theta> u \<Longrightarrow> infer_ext t u \<Longrightarrow>
      (\<And>\<theta>. \<Theta> = Some \<theta> \<Longrightarrow> val \<theta> (snd u) a = val \<theta> (snd u) b) \<Longrightarrow>
      infer.delivers \<Theta> (f a b) u (error_allowed \<Theta>) (agrees \<Theta> a b)"
  shows "infer.delivers \<Theta> (unify_match f left right lk rk) t (error_allowed \<Theta>) (agrees \<Theta> left right)"
proof -
  obtain tb s where t: "t = (tb, s)" by (cases t)
  have ok: "store_ok s" "interner_ok s" using keeps by (auto simp: keeps_def infer_ok_def table_ok_def store_ok_def t)
  have len: "left < length (kinds s)" "right < length (kinds s)"
    using tree_get(2) [OF ok(2)] l(1) r(1) t by auto
  have lr: "lk \<noteq> rk" using ne l(1) r(1) ok(2) t by (auto simp: interner_ok_def) (metis option.inject)
  note vl = val_get [OF ok(2) l(1) [unfolded t snd_conv]] and vr = val_get [OF ok(2) r(1) [unfolded t snd_conv]]
  note eq' = eq [unfolded t snd_conv]
  have ret: "infer.delivers \<Theta> (\<lambda>st. Some (Ok j, st)) t (error_allowed \<Theta>) (agrees \<Theta> left right)" if "agrees \<Theta> left right j t" for j
    using that keeps infer.ext_refl by (simp add: infer.delivers_def)
  have var: "infer.delivers \<Theta> (op_bind (bind_variable v j) (\<lambda>_. op_return j)) t (error_allowed \<Theta>) (agrees \<Theta> left right)"
    if v: "get (kinds s) i = Some (TInfer v)" "\<nexists>b. bound tb v b"
      and j: "get (kinds s) j = Some kj" "\<And>w. kj = TInfer w \<Longrightarrow> \<nexists>b. bound tb w b" "kj \<noteq> TInfer v"
      and ij: "{i, j} = {left, right}" for v i j kj
  proof (rule infer.delivers_bind)
    have vi: "val \<theta> s i = \<theta> v" for \<theta> using val_get [OF ok(2) v(1), of \<theta>] by simp
    have "val \<theta> s i = val \<theta> s j" if "\<Theta> = Some \<theta>" for \<theta> using eq' [OF that] ij by (auto simp: doubleton_eq_iff)
    then show "infer.delivers \<Theta> (bind_variable v j) t (error_allowed \<Theta>)
        (\<lambda>_ st'. snd st' = s \<and> (\<forall>\<theta>. solves \<theta> (fst st') s \<longrightarrow> \<theta> v = val \<theta> s j))"
      unfolding t using keeps vi by (intro delivers_bind_variable [OF _ v(2) j]) (simp_all add: t)
    fix a u assume u: "keeps \<Theta> u" "snd u = s \<and> (\<forall>\<theta>. solves \<theta> (fst u) s \<longrightarrow> \<theta> v = val \<theta> s j)"
    then have same: "val \<theta> (snd u) left = val \<theta> (snd u) j \<and> val \<theta> (snd u) right = val \<theta> (snd u) j"
      if "solves \<theta> (fst u) (snd u)" for \<theta> using that vi ij by (auto simp: doubleton_eq_iff)
    have "agrees \<Theta> left right j u"
      using same u len ij by (intro agrees_same) (auto simp: doubleton_eq_iff keeps_def)
    then show "infer.delivers \<Theta> (op_return j) u (error_allowed \<Theta>) (agrees \<Theta> left right)"
      by (intro infer.delivers_return u(1))
  qed
  consider (error) "lk = TError \<or> rk = TError" | (never_l) "\<not> (lk = TError \<or> rk = TError)" "lk = TNever"
    | (never_r) "\<not> (lk = TError \<or> rk = TError)" "lk \<noteq> TNever" "rk = TNever"
    | (var_l) v where "\<not> (lk = TError \<or> rk = TError)" "lk \<noteq> TNever" "rk \<noteq> TNever" "lk = TInfer v"
    | (var_r) v where "\<not> (lk = TError \<or> rk = TError)" "lk \<noteq> TNever" "rk \<noteq> TNever" "as_infer lk = None" "rk = TInfer v"
    | (parts) "\<not> (lk = TError \<or> rk = TError)" "lk \<noteq> TNever" "rk \<noteq> TNever" "as_infer lk = None" "as_infer rk = None"
    by (metis as_infer_Some not_None_eq)
  then show ?thesis
  proof cases
    case error
    let ?e = "c_error (core s)"
    have e: "get (kinds s) ?e = Some TError" using ok(1) by (simp add: store_ok_def core_ok_def Let_def)
    have ve: "val \<theta> s ?e = Ty TError" for \<theta> using val_get [OF ok(2) e, of \<theta>] by (simp add: as_infer_def)
    have "val \<theta> s ?e = val \<theta> s left" if "\<Theta> = Some \<theta>" for \<theta>
      using error vl [of \<theta>] vr [of \<theta>] eq' [OF that] ve by (auto simp: as_infer_def)
    then have "agrees \<Theta> left right ?e t" using ve tree_get(2) [OF ok(2) e] by (auto simp: agrees_def t intro: absorbs_error)
    from ret [OF this] show ?thesis using error by (auto simp: unify_match_def t infer.delivers_def)
  next
    case never_l
    have "agrees \<Theta> left right right t"
      using never_l vl len eq' by (auto simp: agrees_def t as_infer_def absorbs_refl intro: absorbs_never)
    from ret [OF this] show ?thesis using never_l by (simp add: unify_match_def infer.delivers_def)
  next
    case never_r
    have "agrees \<Theta> left right left t"
      using never_r vr len by (auto simp: agrees_def t as_infer_def absorbs_refl intro: absorbs_never)
    from ret [OF this] show ?thesis using never_r by (simp add: unify_match_def infer.delivers_def)
  next
    case (var_l v)
    have "infer.delivers \<Theta> (op_bind (bind_variable v right) (\<lambda>_. op_return right)) t (error_allowed \<Theta>) (agrees \<Theta> left right)"
      using l r lr var_l by (intro var [of left v right rk]) (auto simp: t)
    then show ?thesis using var_l by (simp add: unify_match_def)
  next
    case (var_r v)
    have "infer.delivers \<Theta> (op_bind (bind_variable v left) (\<lambda>_. op_return left)) t (error_allowed \<Theta>) (agrees \<Theta> left right)"
      using l r lr var_r by (intro var [of right v left lk]) (auto simp: t)
    then show ?thesis using var_r by (simp add: unify_match_def)
  next
    case parts
    show ?thesis
    proof (cases "match_parts lk rk")
      case None
      have "\<Theta> = None"
      proof (rule ccontr)
        assume "\<Theta> \<noteq> None"
        then obtain \<theta> where "\<Theta> = Some \<theta>" by blast
        then have "map_type_kind (val \<theta> s) lk = map_type_kind (val \<theta> s) rk"
          using eq' vl [of \<theta>] vr [of \<theta>] parts by simp
        from match_parts_None [OF None this parts(4)] lr show False by simp
      qed
      then show ?thesis using parts None keeps infer.ext_refl
        by (simp add: unify_match_def infer.delivers_def error_allowed_def)
    next
      case (Some z)
      then show ?thesis using unify_parts_delivers [OF keeps l(1) r(1) eq Some f] parts
        by (simp add: unify_match_def)
    qed
  qed
qed

subsection \<open>Unification returns\<close>

text \<open>One call, given what its calls on the parts deliver.\<close>

lemma unify_step:
  assumes ok: "table_ok \<sigma> rank (fst t) (snd t)" and keeps: "keeps \<Theta> t"
    and len: "l < length (kinds (snd t))" "r < length (kinds (snd t))"
    and eq: "\<And>\<theta>. \<Theta> = Some \<theta> \<Longrightarrow> val \<theta> (snd t) l = val \<theta> (snd t) r"
    and parts: "\<And>k a b u. val \<sigma> (snd t) l = Ty (map_type_kind (val \<sigma> (snd t)) k) \<Longrightarrow> a \<in> set_type_kind k \<Longrightarrow>
      a < length (kinds (snd t)) \<Longrightarrow> b < length (kinds (snd t)) \<Longrightarrow> keeps \<Theta> u \<Longrightarrow> infer_ext t u \<Longrightarrow>
      (\<And>\<theta>. \<Theta> = Some \<theta> \<Longrightarrow> val \<theta> (snd u) a = val \<theta> (snd u) b) \<Longrightarrow>
      infer.delivers \<Theta> (unify a b) u (error_allowed \<Theta>) (agrees \<Theta> a b)"
  shows "infer.delivers \<Theta> (unify l r) t (error_allowed \<Theta>) (agrees \<Theta> l r)"
proof -
  note int = table_okD(2) [OF ok] and sol = table_okD(4) [OF ok]
  obtain left lk where left: "resolve_shallow (fst t) (snd t) l = Some left" "get (kinds (snd t)) left = Some lk"
      "\<And>\<theta>. solves \<theta> (fst t) (snd t) \<Longrightarrow> val \<theta> (snd t) left = val \<theta> (snd t) l" "\<And>w. lk = TInfer w \<Longrightarrow> \<nexists>b. bound (fst t) w b"
    using resolve_shallow_correct [OF ok len(1)] by blast
  obtain right rk where right: "resolve_shallow (fst t) (snd t) r = Some right" "get (kinds (snd t)) right = Some rk"
      "\<And>\<theta>. solves \<theta> (fst t) (snd t) \<Longrightarrow> val \<theta> (snd t) right = val \<theta> (snd t) r" "\<And>w. rk = TInfer w \<Longrightarrow> \<nexists>b. bound (fst t) w b"
    using resolve_shallow_correct [OF ok len(2)] by blast
  have sols: "solves \<theta> (fst t) (snd t)" if "\<Theta> = Some \<theta>" for \<theta> using keeps that by (simp add: keeps_def)
  have eq': "val \<theta> (snd t) left = val \<theta> (snd t) right" if "\<Theta> = Some \<theta>" for \<theta>
    using left(3) right(3) sols eq that by simp
  have lens: "left < length (kinds (snd t))" "right < length (kinds (snd t))"
    using tree_get(2) [OF int] left(2) right(2) by auto
  have unresolved: "agrees \<Theta> l r j u" if u: "agrees \<Theta> left right j u" "infer_ext t u" "keeps \<Theta> u" for j u
  proof -
    have io: "infer_ok t" "infer_ok u" using keeps u(3) by (simp_all add: keeps_def)
    then have iu: "interner_ok (snd u)" by (auto simp: infer_ok_def table_ok_def store_ok_def)
    have ext: "store_ext (snd t) (snd u)" using u(2) by (simp add: infer_ext_def)
    have "val \<theta> (snd u) l = val \<theta> (snd u) left" "val \<theta> (snd u) r = val \<theta> (snd u) right" if "solves \<theta> (fst u) (snd u)" for \<theta>
      using solves_ext [OF u(2) that io] left(3) right(3) len lens by (simp_all add: val_ext [OF ext iu])
    then show ?thesis using u(1,3) by (simp add: agrees_def keeps_def)
  qed
  show ?thesis
  proof (cases "left = right")
    case True
    then have "agrees \<Theta> l r left t" using left(3) right(3) lens sols by (intro agrees_same) simp_all
    moreover have "unify l r t = Some (Ok left, t)" by (subst unify.simps) (simp add: left(1) right(1) True)
    ultimately show ?thesis using keeps infer.ext_refl by (simp add: infer.delivers_def)
  next
    case False
    have "unify l r t = unify_match unify left right lk rk t"
      by (subst unify.simps) (simp add: left(1,2) right(1,2) False kind_of_def)
    moreover have "infer.delivers \<Theta> (unify_match unify left right lk rk) t (error_allowed \<Theta>) (agrees \<Theta> left right)"
    proof (rule unify_match_delivers [OF keeps False left(2,4) right(2,4) eq'])
      fix a b u assume a: "as_infer lk = None" "a \<in> set_type_kind lk" "b \<in> set_type_kind rk" "keeps \<Theta> u" "infer_ext t u"
        "\<And>\<theta>. \<Theta> = Some \<theta> \<Longrightarrow> val \<theta> (snd u) a = val \<theta> (snd u) b"
      have "val \<sigma> (snd t) l = Ty (map_type_kind (val \<sigma> (snd t)) lk)"
        using left(3) [OF sol] val_get [OF int left(2), of \<sigma>] a(1) by simp
      moreover have "a < length (kinds (snd t))" "b < length (kinds (snd t))"
        using a(2,3) tree_get(2,3) [OF int left(2)] tree_get(2,3) [OF int right(2)] by auto
      ultimately show "infer.delivers \<Theta> (unify a b) u (error_allowed \<Theta>) (agrees \<Theta> a b)"
        using a by (intro parts)
    qed
    then have "infer.delivers \<Theta> (unify_match unify left right lk rk) t (error_allowed \<Theta>) (agrees \<Theta> l r)"
      by (rule infer.delivers_mono) (auto intro: unresolved)
    ultimately show ?thesis by (simp add: infer.delivers_def)
  qed
qed

text \<open>The number of unbound variables goes down, or the type under the current solution gets smaller.\<close>

lemma unify_delivers:
  assumes "keeps \<Theta> st" "l < length (kinds (snd st))" "r < length (kinds (snd st))"
    and "\<And>\<theta>. \<Theta> = Some \<theta> \<Longrightarrow> val \<theta> (snd st) l = val \<theta> (snd st) r"
  shows "infer.delivers \<Theta> (unify l r) st (error_allowed \<Theta>) (agrees \<Theta> l r)"
  using assms
proof (induction "free_count (fst st)" arbitrary: st l r rule: less_induct)
  case less
  from less.prems(1) obtain \<sigma> rank where ok: "table_ok \<sigma> rank (fst st) (snd st)" by (auto simp: keeps_def infer_ok_def)
  have "infer.delivers \<Theta> (unify l r) t (error_allowed \<Theta>) (agrees \<Theta> l r)"
    if "table_ok \<sigma> rank (fst t) (snd t)" "free_count (fst t) = free_count (fst st)" "keeps \<Theta> t"
      "l < length (kinds (snd t))" "r < length (kinds (snd t))" "\<And>\<theta>. \<Theta> = Some \<theta> \<Longrightarrow> val \<theta> (snd t) l = val \<theta> (snd t) r"
      "val \<sigma> (snd t) l = T" for T t l r
    using that
  proof (induction T arbitrary: t l r)
    case (Ty K)
    show ?case
    proof (rule unify_step [OF Ty.prems(1,3-6)])
      fix k a b u
      assume k: "val \<sigma> (snd t) l = Ty (map_type_kind (val \<sigma> (snd t)) k)" "a \<in> set_type_kind k"
        and len: "a < length (kinds (snd t))" "b < length (kinds (snd t))"
        and u: "keeps \<Theta> u" "infer_ext t u" "\<And>\<theta>. \<Theta> = Some \<theta> \<Longrightarrow> val \<theta> (snd u) a = val \<theta> (snd u) b"
      have ext: "store_ext (snd t) (snd u)" and su: "store_ok (snd u)"
        using u(1,2) by (auto simp: infer_ext_def keeps_def infer_ok_def table_ok_def)
      have len': "a < length (kinds (snd u))" "b < length (kinds (snd u))" using len store_ext_less [OF ext] by auto
      show "infer.delivers \<Theta> (unify a b) u (error_allowed \<Theta>) (agrees \<Theta> a b)"
      proof (cases "free_count (fst u) < free_count (fst st)")
        case True
        then show ?thesis using len' u by (intro less.hyps)
      next
        case False
        with free_count_ext [OF u(2)] Ty.prems(2)
        have count: "free_count (fst u) = free_count (fst st)" and same: "fst u = fst t" by auto
        have "table_ok \<sigma> rank (fst u) (snd u)" unfolding same by (rule table_ok_grow [OF Ty.prems(1) ext su])
        moreover have "val \<sigma> (snd u) a = val \<sigma> (snd t) a" using len(1) su by (intro val_ext [OF ext]) (simp add: store_ok_def)
        moreover have "val \<sigma> (snd t) a \<in> set_type_kind K" using k Ty.prems(7) by (auto simp: type_kind.set_map)
        ultimately show ?thesis using count len' u by (intro Ty.IH [of "val \<sigma> (snd t) a"]) auto
      qed
    qed
  qed
  from this [OF ok refl less.prems refl] show ?case .
qed

subsection \<open>Deep resolution\<close>

text \<open>The bound variables are replaced by the solution: the result is the value under \<open>\<sigma>\<close>.\<close>

lemma resolve_deep_delivers:
  assumes ok: "table_ok \<sigma> rank tb s0"
  shows "i < length (kinds s) \<Longrightarrow> store_ext s0 s \<Longrightarrow> store_ok s \<Longrightarrow> val \<sigma> s i = T \<Longrightarrow>
    store.delivers (resolve_deep tb i) s (\<lambda>_. False) (\<lambda>j t. stands_for t j T)"
proof (induction T arbitrary: i s)
  case (Ty K)
  have ok: "table_ok \<sigma> rank tb s" using table_ok_grow [OF ok Ty.prems(2,3)] .
  note int = table_okD(2) [OF ok] and sol = table_okD(4) [OF ok]
  obtain r k where r: "resolve_shallow tb s i = Some r" "get (kinds s) r = Some k"
      "\<And>\<theta>. solves \<theta> tb s \<Longrightarrow> val \<theta> s r = val \<theta> s i" "\<And>w. k = TInfer w \<Longrightarrow> \<nexists>b. bound tb w b"
    using resolve_shallow_correct [OF ok Ty.prems(1)] by blast
  have vr: "val \<sigma> s r = Ty K" using r(3) [OF sol] Ty.prems(4) by simp
  have K: "K = map_type_kind (val \<sigma> s) k"
  proof (cases "as_infer k")
    case (Some w)
    then have "k = TInfer w" by (simp add: as_infer_Some)
    then show ?thesis using val_get [OF int r(2), of \<sigma>] table_okD(5) [OF ok r(4)] vr by simp
  qed (use val_get [OF int r(2), of \<sigma>] vr in simp)
  have "store.delivers (op_bind (rebuild (resolve_deep tb) k) (\<lambda>r. op_lift (intern r))) s (\<lambda>_. False)
      (\<lambda>j t. stands_for t j (Ty (map_type_kind (val \<sigma> s) k)))"
  proof (rule delivers_rebuild_intern [OF Ty.prems(3)])
    fix c t assume c: "c \<in> set_type_kind k" "store_ok t" "store_ext s t"
    have len: "c < length (kinds s)" using c(1) tree_get(2,3) [OF int r(2)] by auto
    have "val \<sigma> t c = val \<sigma> s c" using c(2) by (intro val_ext [OF c(3) _ len]) (simp add: store_ok_def)
    moreover have "val \<sigma> s c \<in> set_type_kind K" using c(1) by (auto simp: K type_kind.set_map)
    ultimately show "store.delivers (resolve_deep tb c) t (\<lambda>_. False) (\<lambda>d u. stands_for u d (val \<sigma> s c))"
      using store_ext_less [OF c(3) len] store_ext_trans [OF Ty.prems(2) c(3)] c(2) by (intro Ty.IH)
  qed
  then show ?case
    unfolding K store.delivers_def by (subst resolve_deep.simps) (simp add: r(1,2) kind_of_def)
qed

text \<open>Any solution factors through \<open>\<sigma>\<close>, whose values have no bound variables.\<close>

lemma val_solution:
  assumes ok: "table_ok \<sigma> rank tb s"
  shows "i < length (kinds s) \<Longrightarrow> val \<sigma> s i = T \<Longrightarrow>
    (\<forall>\<theta>. solves \<theta> tb s \<longrightarrow> infer_subst \<theta> T = val \<theta> s i) \<and> (\<forall>v \<in> tvars T. \<nexists>b. bound tb v b)"
proof (induction T arbitrary: i)
  case (Ty K)
  note int = table_okD(2) [OF ok] and sol = table_okD(4) [OF ok]
  obtain r k where r: "get (kinds s) r = Some k"
      "\<And>\<theta>. solves \<theta> tb s \<Longrightarrow> val \<theta> s r = val \<theta> s i" "\<And>w. k = TInfer w \<Longrightarrow> \<nexists>b. bound tb w b"
    using resolve_shallow_correct [OF ok Ty.prems(1)] by blast
  have vr: "val \<sigma> s r = Ty K" using r(2) [OF sol] Ty.prems(2) by simp
  show ?case
  proof (cases "as_infer k")
    case (Some w)
    then have k: "k = TInfer w" by (simp add: as_infer_Some)
    then have "K = TInfer w" using val_get [OF int r(1), of \<sigma>] table_okD(5) [OF ok r(3)] vr by simp
    then show ?thesis using r(2,3) val_get [OF int r(1)] k by simp
  next
    case None
    note vg = val_get [OF int r(1), unfolded None option.case]
    have K: "K = map_type_kind (val \<sigma> s) k" using vg [of \<sigma>] vr by simp
    then have none: "as_infer K = None" using None by simp
    have IH: "(\<forall>\<theta>. solves \<theta> tb s \<longrightarrow> infer_subst \<theta> (val \<sigma> s c) = val \<theta> s c) \<and> (\<forall>v \<in> tvars (val \<sigma> s c). \<nexists>b. bound tb v b)"
      if "c \<in> set_type_kind k" for c
      using that tree_get(2,3) [OF int r(1)] by (intro Ty.IH) (auto simp: K type_kind.set_map)
    have "infer_subst \<theta> (Ty K) = val \<theta> s i" if "solves \<theta> tb s" for \<theta>
    proof -
      have "infer_subst \<theta> (Ty K) = Ty (map_type_kind (infer_subst \<theta> \<circ> val \<sigma> s) k)"
        unfolding infer_subst_node [OF none] by (simp add: K type_kind.map_comp)
      also have "map_type_kind (infer_subst \<theta> \<circ> val \<sigma> s) k = map_type_kind (val \<theta> s) k"
        using IH that by (intro type_kind.map_cong refl) simp
      finally show ?thesis using r(2) [OF that] vg [of \<theta>] by simp
    qed
    moreover have "\<forall>v \<in> tvars (Ty K). \<nexists>b. bound tb v b"
      unfolding tvars_node [OF none] using IH by (auto simp: K type_kind.set_map)
    ultimately show ?thesis by blast
  qed
qed

subsection \<open>New variables\<close>

lemma table_new_ok: "store_ok s \<Longrightarrow> infer_ok (table_new, s)"
  unfolding infer_ok_def table_ok_def solves_def
  by (auto simp: table_new_def get_def)

lemma fresh_ok:
  assumes "infer_ok (tb, s)" "fresh (tb, s) = (i, tb', s')"
  shows "infer_ok (tb', s') \<and> store_ext s s' \<and> get (kinds s') i = Some (TInfer (length (bindings tb))) \<and>
    (\<forall>v b. bound tb' v b \<longleftrightarrow> bound tb v b) \<and> length (bindings tb') = Suc (length (bindings tb))"
proof -
  obtain \<sigma> rank where ok: "table_ok \<sigma> rank tb s" using assms(1) by (auto simp: infer_ok_def)
  from assms(2) have i: "intern (TInfer (length (bindings tb))) s = (i, s')" "tb' = tb\<lparr>bindings := bindings tb @ [None]\<rparr>"
    by (auto simp: fresh_def Let_def split: prod.splits)
  from intern_store [OF table_okD(1) [OF ok] _ i(1)]
  have s': "store_ok s'" "store_ext s s'" "get (kinds s') i = Some (TInfer (length (bindings tb)))" by auto
  have bd: "bound tb' v b \<longleftrightarrow> bound tb v b" for v b by (auto simp: i(2) get_def nth_append)
  have "table_ok \<sigma> rank tb' s'"
    using table_ok_grow [OF ok s'(2,1)] unfolding table_ok_def solves_def bd .
  then show ?thesis using s' bd i(2) by (auto simp: infer_ok_def)
qed

subsection \<open>Properties\<close>

text \<open>
  C8. Unification returns on every table that has a solution, and the table it leaves has one again. If it
  succeeds, then in every solution of the new table both types are the type of the result, up to occurrences of
  \<open>Never\<close> and to parts replaced by \<open>Error\<close>. Existing bindings and identities stay, also when it fails.
\<close>

theorem unify_sound:
  assumes "infer_ok st" "l < length (kinds (snd st))" "r < length (kinds (snd st))"
  shows "\<exists>res st'. unify l r st = Some (res, st') \<and> infer_ok st' \<and> infer_ext st st' \<and>
    (\<exists>\<theta>. solves \<theta> (fst st') (snd st')) \<and>
    (\<forall>j \<theta>. res = Ok j \<longrightarrow> solves \<theta> (fst st') (snd st') \<longrightarrow>
       absorbs (val \<theta> (snd st') l) (val \<theta> (snd st') j) \<and> absorbs (val \<theta> (snd st') r) (val \<theta> (snd st') j))"
proof -
  have "infer.delivers None (unify l r) st (error_allowed None) (agrees None l r)"
    using assms by (intro unify_delivers) (simp_all add: keeps_def)
  then obtain res st' where u: "unify l r st = Some (res, st')" "keeps None st'" "infer_ext st st'"
    "case res of Inl e \<Rightarrow> error_allowed None e | Inr j \<Rightarrow> agrees None l r j st'" unfolding infer.delivers_def by blast
  have "\<exists>\<theta>. solves \<theta> (fst st') (snd st')"
    using u(2) table_okD(4) unfolding keeps_def infer_ok_def by blast
  with u show ?thesis by (auto simp: keeps_def agrees_def)
qed

text \<open>
  C9. Unification commits to nothing that a unifier does not have: a solution of the table that makes the two types
  equal is a solution of the new table and gives the result the same type, and unification does not fail with a
  mismatch or an occurs check; it can fail only for a variable that the table does not know.
\<close>

theorem unify_most_general:
  assumes "infer_ok st" "l < length (kinds (snd st))" "r < length (kinds (snd st))"
    and "solves \<theta> (fst st) (snd st)" "val \<theta> (snd st) l = val \<theta> (snd st) r"
  shows "\<exists>res st'. unify l r st = Some (res, st') \<and> solves \<theta> (fst st') (snd st') \<and>
    (case res of Inl e \<Rightarrow> \<exists>v. e = UnknownVariable v | Inr j \<Rightarrow> val \<theta> (snd st') j = val \<theta> (snd st) l)"
proof -
  have "infer.delivers (Some \<theta>) (unify l r) st (error_allowed (Some \<theta>)) (agrees (Some \<theta>) l r)"
    using assms by (intro unify_delivers) (simp_all add: keeps_def)
  then obtain res st' where u: "unify l r st = Some (res, st')" "keeps (Some \<theta>) st'" "infer_ext st st'"
    "case res of Inl e \<Rightarrow> error_allowed (Some \<theta>) e | Inr j \<Rightarrow> agrees (Some \<theta>) l r j st'" unfolding infer.delivers_def by blast
  have "interner_ok (snd st')" using u(2) by (auto simp: keeps_def infer_ok_def table_ok_def store_ok_def)
  then have "val \<theta> (snd st') l = val \<theta> (snd st) l" using u(3) assms(2) by (intro val_ext) (simp_all add: infer_ext_def)
  with u show ?thesis by (auto simp: keeps_def agrees_def error_allowed_def split: sum.splits)
qed

text \<open>
  Deep resolution returns an identity of the type with every bound variable replaced: no bound variable is left,
  and the type is the same in every solution of the table.
\<close>

theorem resolve_deep_correct:
  assumes "infer_ok (tb, s)" "i < length (kinds s)"
  shows "\<exists>j s'. resolve_deep tb i s = Some (Ok j, s') \<and> store_ok s' \<and> store_ext s s' \<and>
    (\<forall>v \<in> tvars (tree (kinds s') j). \<nexists>b. bound tb v b) \<and> (\<forall>\<theta>. solves \<theta> tb s \<longrightarrow> val \<theta> s' j = val \<theta> s i)"
proof -
  obtain \<sigma> rank where ok: "table_ok \<sigma> rank tb s" using assms(1) by (auto simp: infer_ok_def)
  from resolve_deep_delivers [OF ok assms(2) store_ext_refl table_okD(1) [OF ok] refl] obtain res s' where
    d: "resolve_deep tb i s = Some (res, s')" "store_ok s'" "store_ext s s'"
      "case res of Inl e \<Rightarrow> False | Inr j \<Rightarrow> stands_for s' j (val \<sigma> s i)"
    unfolding store.delivers_def by blast
  then obtain j where j: "res = Ok j" "tree (kinds s') j = val \<sigma> s i" by (auto split: sum.splits)
  have "val \<theta> s' j = val \<theta> s i" if "solves \<theta> tb s" for \<theta>
    using val_solution [OF ok assms(2) refl] that j(2) by (simp add: val_def [of _ s'])
  moreover have "\<forall>v \<in> tvars (tree (kinds s') j). \<nexists>b. bound tb v b"
    unfolding j(2) using val_solution [OF ok assms(2) refl] by blast
  ultimately show ?thesis using d j(1) by blast
qed

text \<open>The state with one unbound variable, and the witnesses: the variable against an optional integer.\<close>

definition sample_infer :: "TypeId \<times> UnificationTable \<times> TypeStore" where
  "sample_infer = fresh (table_new, snd (intern (TOption (c_int32 (core type_store_new))) type_store_new))"

lemma sample_infer_ok:
  "infer_ok (snd sample_infer)" "fst sample_infer < length (kinds (snd (snd sample_infer)))"
  "c_int32 (core type_store_new) < length (kinds (snd (snd sample_infer)))"
proof -
  obtain i s where i: "intern (TOption (c_int32 (core type_store_new))) type_store_new = (i, s)"
    by (cases "intern (TOption (c_int32 (core type_store_new))) type_store_new")
  have "c_int32 (core type_store_new) < length (kinds type_store_new)" by code_simp
  then have "store_ok s" using intern_store [OF type_store_new_ok _ i] by simp
  moreover obtain j tb' s' where f: "fresh (table_new, s) = (j, tb', s')" by (cases "fresh (table_new, s)")
  ultimately show "infer_ok (snd sample_infer)"
    using fresh_ok [OF table_new_ok f] i by (simp add: sample_infer_def)
  show "fst sample_infer < length (kinds (snd (snd sample_infer)))"
    "c_int32 (core type_store_new) < length (kinds (snd (snd sample_infer)))" by code_simp+
qed

theorem unify_sound_witness:
  "\<exists>res st'. unify (fst sample_infer) (c_int32 (core type_store_new)) (snd sample_infer) = Some (res, st') \<and> infer_ok st'"
  using unify_sound [OF sample_infer_ok] by blast

theorem unify_most_general_witness:
  "\<exists>\<theta> res st'. solves \<theta> (fst (snd sample_infer)) (snd (snd sample_infer)) \<and>
     unify (fst sample_infer) (c_int32 (core type_store_new)) (snd sample_infer) = Some (res, st') \<and>
     solves \<theta> (fst st') (snd st')"
proof -
  let ?\<theta> = "\<lambda>v. Ty (TInteger Signed IntBits32)"
  have "bindings (fst (snd sample_infer)) = [None]" by code_simp
  then have "solves ?\<theta> (fst (snd sample_infer)) (snd (snd sample_infer))" by (simp add: solves_def get_def)
  moreover have "val ?\<theta> (snd (snd sample_infer)) (fst sample_infer) = val ?\<theta> (snd (snd sample_infer)) (c_int32 (core type_store_new))"
    by code_simp
  ultimately show ?thesis using unify_most_general [OF sample_infer_ok] by blast
qed

theorem resolve_deep_correct_witness:
  "\<exists>j s'. resolve_deep (fst (snd sample_infer)) (fst sample_infer) (snd (snd sample_infer)) = Some (Ok j, s') \<and> store_ok s'"
  using resolve_deep_correct [of "fst (snd sample_infer)" "snd (snd sample_infer)"] sample_infer_ok by fastforce

end
