(* ===== verification/Task_Graph.thy ===== *)
theory Task_Graph
  imports BTree Rust_Text
begin

text \<open>
  The crate \<open>jadren-concurrency\<close>, first part: task declarations, the builder that derives the conflict edges, and the
  graph queries a scheduler uses. Shown here: the topological order is computed whenever there is one, a cycle is
  reported exactly if there is one, and in a built graph every two conflicting tasks are ordered by an edge.
\<close>

subsection \<open>Declarations\<close>

type_synonym TaskId = "32 word"
type_synonym ResourceId = ustring

datatype AccessMode = ReadAccess | WriteAccess | AtomicAccess

definition conflicts :: "AccessMode \<Rightarrow> AccessMode \<Rightarrow> bool" where
  "conflicts a b \<longleftrightarrow> \<not> (a = ReadAccess \<and> b = ReadAccess)"

record ResourceAccess =
  resource :: ResourceId
  access_mode :: AccessMode

record TaskSpec =
  task_id :: TaskId
  task_label :: ustring
  accesses :: "ResourceAccess list"
  depends_on :: "TaskId list"

definition task_new :: "TaskId \<Rightarrow> ustring \<Rightarrow> TaskSpec" where
  "task_new i l = \<lparr>task_id = i, task_label = l, accesses = [], depends_on = []\<rparr>"

definition task_access :: "ResourceId \<Rightarrow> AccessMode \<Rightarrow> TaskSpec \<Rightarrow> TaskSpec" where
  "task_access r m t = t\<lparr>accesses := accesses t @ [\<lparr>resource = r, access_mode = m\<rparr>]\<rparr>"

definition task_depends_on :: "TaskId \<Rightarrow> TaskSpec \<Rightarrow> TaskSpec" where
  "task_depends_on d t = t\<lparr>depends_on := depends_on t @ [d]\<rparr>"

datatype DependencyKind = DataConflict | Explicit

record DependencyEdge =
  edge_from :: TaskId
  edge_to :: TaskId
  edge_kinds :: "DependencyKind set"

text \<open>The nested ordered maps; the set of kinds of an edge is only ever inserted into and copied.\<close>

record DependencyGraph =
  graph_tasks :: "(TaskId \<times> TaskSpec) list"
  graph_edges :: "(TaskId \<times> (TaskId \<times> DependencyKind set) list) list"

datatype GraphError =
    DuplicateTask TaskId
  | EmptyLabel TaskId
  | EmptyResource TaskId
  | DuplicateAccess TaskId ResourceId
  | UnknownDependency TaskId TaskId
  | Cycle "TaskId list"

subsection \<open>Queries\<close>

definition task_count :: "DependencyGraph \<Rightarrow> nat" where
  "task_count g = length (graph_tasks g)"

definition task_ids :: "DependencyGraph \<Rightarrow> TaskId list" where
  "task_ids g = map fst (graph_tasks g)"

definition find_task :: "DependencyGraph \<Rightarrow> TaskId \<Rightarrow> TaskSpec option" where
  "find_task g t = bt_get (graph_tasks g) t"

definition edge_list :: "DependencyGraph \<Rightarrow> DependencyEdge list" where
  "edge_list g = concat (map (\<lambda>(a, targets). map (\<lambda>(b, ks). \<lparr>edge_from = a, edge_to = b, edge_kinds = ks\<rparr>) targets) (graph_edges g))"

definition dependencies_of :: "DependencyGraph \<Rightarrow> TaskId \<Rightarrow> TaskId list" where
  "dependencies_of g t = map fst (filter (\<lambda>(a, targets). t \<in> fst ` set targets) (graph_edges g))"

definition dependents_of :: "DependencyGraph \<Rightarrow> TaskId \<Rightarrow> TaskId list" where
  "dependents_of g t = (case bt_get (graph_edges g) t of Some targets \<Rightarrow> map fst targets | None \<Rightarrow> [])"

definition ready_tasks :: "DependencyGraph \<Rightarrow> TaskId set \<Rightarrow> TaskId list" where
  "ready_tasks g completed =
     filter (\<lambda>t. t \<notin> completed \<and> list_all (\<lambda>d. d \<in> completed) (dependencies_of g t)) (task_ids g)"

subsection \<open>The topological order\<close>

text \<open>The \<open>for\<close> loop over the dependents; a missing entry or a degree of zero would be a panic.\<close>

fun relax :: "TaskId list \<Rightarrow> (TaskId \<times> nat) list \<Rightarrow> TaskId list \<Rightarrow> ((TaskId \<times> nat) list \<times> TaskId list) option" where
  "relax [] indegree ready = Some (indegree, ready)"
| "relax (d # ds) indegree ready =
     (case bt_get indegree d of
        None \<Rightarrow> None
      | Some degree \<Rightarrow>
          if degree = 0 then None
          else relax ds (bt_insert d (degree - 1) indegree) (if degree - 1 = 0 then insort_insert d ready else ready))"

text \<open>The \<open>while let Some(task) = ready.pop_first()\<close> loop.\<close>

partial_function (option) kahn :: "DependencyGraph \<Rightarrow> (TaskId \<times> nat) list \<Rightarrow> TaskId list \<Rightarrow> TaskId list \<Rightarrow>
    ((TaskId \<times> nat) list \<times> TaskId list) option" where
  "kahn g indegree ready order =
     (case ready of
        [] \<Rightarrow> Some (indegree, order)
      | t # ready' \<Rightarrow>
          (case relax (dependents_of g t) indegree ready' of
             None \<Rightarrow> None
           | Some (indegree', ready'') \<Rightarrow> kahn g indegree' ready'' (order @ [t])))"

declare kahn.simps [code]

definition topological_order :: "DependencyGraph \<Rightarrow> (GraphError, TaskId list) result option" where
  "topological_order g =
     (let indegree = map (\<lambda>t. (t, length (dependencies_of g t))) (task_ids g);
          ready = map fst (filter (\<lambda>(t, degree). degree = 0) indegree)
      in Option.bind (kahn g indegree ready []) (\<lambda>(indegree', order).
           Some (if length order \<noteq> length (graph_tasks g)
                 then Err (Cycle (map fst (filter (\<lambda>(t, degree). degree \<noteq> 0) indegree')))
                 else Ok order)))"

subsection \<open>The builder\<close>

record TaskGraphBuilder =
  builder_tasks :: "(TaskId \<times> TaskSpec) list"

fun check_accesses :: "TaskId \<Rightarrow> ResourceAccess list \<Rightarrow> ResourceId set \<Rightarrow> (GraphError, unit) result" where
  "check_accesses t [] resources = Ok ()"
| "check_accesses t (a # as) resources =
     (if trim (resource a) = [] then Err (EmptyResource t)
      else if resource a \<in> resources then Err (DuplicateAccess t (resource a))
      else check_accesses t as (insert (resource a) resources))"

definition add_task :: "TaskSpec \<Rightarrow> TaskGraphBuilder \<Rightarrow> (GraphError, TaskGraphBuilder) result" where
  "add_task t b =
     (if trim (task_label t) = [] then Err (EmptyLabel (task_id t))
      else if bt_get (builder_tasks b) (task_id t) \<noteq> None then Err (DuplicateTask (task_id t))
      else result_bind (check_accesses (task_id t) (accesses t) {}) (\<lambda>_.
        Ok (b\<lparr>builder_tasks := bt_insert (task_id t) t (builder_tasks b)\<rparr>)))"

definition accesses_conflict :: "ResourceAccess list \<Rightarrow> ResourceAccess list \<Rightarrow> bool" where
  "accesses_conflict left right =
     list_ex (\<lambda>l. list_ex (\<lambda>r. resource l = resource r \<and> conflicts (access_mode l) (access_mode r)) right) left"

text \<open>\<open>edges.entry(a).or_default().entry(b).or_default().insert(kind)\<close>\<close>

definition add_edge :: "TaskId \<Rightarrow> TaskId \<Rightarrow> DependencyKind \<Rightarrow> (TaskId \<times> (TaskId \<times> DependencyKind set) list) list \<Rightarrow>
    (TaskId \<times> (TaskId \<times> DependencyKind set) list) list" where
  "add_edge a b k es =
     (let targets = (case bt_get es a of Some m \<Rightarrow> m | None \<Rightarrow> []);
          ks = (case bt_get targets b of Some s \<Rightarrow> s | None \<Rightarrow> {})
      in bt_insert a (bt_insert b (insert k ks) targets) es)"

text \<open>The three loops of \<open>build\<close>: unknown dependencies, explicit edges, conflict edges.\<close>

definition unknown_dependency :: "(TaskId \<times> TaskSpec) list \<Rightarrow> (TaskId \<times> TaskId) option" where
  "unknown_dependency ts =
     find (\<lambda>(t, d). bt_get ts d = None) (concat (map (\<lambda>(_, t). map (\<lambda>d. (task_id t, d)) (depends_on t)) ts))"

definition explicit_edges :: "(TaskId \<times> TaskSpec) list \<Rightarrow> (TaskId \<times> (TaskId \<times> DependencyKind set) list) list" where
  "explicit_edges ts =
     fold (\<lambda>(d, t). add_edge d t Explicit) (concat (map (\<lambda>(_, t). map (\<lambda>d. (d, task_id t)) (depends_on t)) ts)) []"

fun conflict_edges :: "TaskSpec list \<Rightarrow> (TaskId \<times> (TaskId \<times> DependencyKind set) list) list \<Rightarrow>
    (TaskId \<times> (TaskId \<times> DependencyKind set) list) list" where
  "conflict_edges [] es = es"
| "conflict_edges (left # rest) es =
     conflict_edges rest
       (fold (\<lambda>right. add_edge (task_id left) (task_id right) DataConflict)
         (filter (\<lambda>right. accesses_conflict (accesses left) (accesses right)) rest) es)"

definition build_graph :: "TaskGraphBuilder \<Rightarrow> (GraphError, DependencyGraph) result option" where
  "build_graph b =
     (let ts = builder_tasks b in
      case unknown_dependency ts of
        Some (t, d) \<Rightarrow> Some (Err (UnknownDependency t d))
      | None \<Rightarrow>
          (let g = \<lparr>graph_tasks = ts, graph_edges = conflict_edges (map snd ts) (explicit_edges ts)\<rparr>
           in Option.bind (topological_order g) (\<lambda>r. Some (result_bind r (\<lambda>_. Ok g)))))"

subsection \<open>Edges\<close>

abbreviation tasks_of :: "DependencyGraph \<Rightarrow> TaskId set" where
  "tasks_of g \<equiv> fst ` set (graph_tasks g)"

abbreviation deps :: "DependencyGraph \<Rightarrow> TaskId \<Rightarrow> TaskId set" where
  "deps g t \<equiv> set (dependencies_of g t)"

text \<open>The edge relation: \<open>a\<close> precedes \<open>b\<close>.\<close>

definition edges_rel :: "DependencyGraph \<Rightarrow> (TaskId \<times> TaskId) set" where
  "edges_rel g = {(a, b). a \<in> deps g b}"

definition graph_ok :: "DependencyGraph \<Rightarrow> bool" where
  "graph_ok g \<longleftrightarrow>
     bt_ok (graph_tasks g) \<and> bt_ok (graph_edges g) \<and>
     (\<forall>(a, targets) \<in> set (graph_edges g). a \<in> tasks_of g \<and> bt_ok targets \<and> fst ` set targets \<subseteq> tasks_of g)"

lemma deps_iff: "a \<in> deps g b \<longleftrightarrow> (\<exists>targets. (a, targets) \<in> set (graph_edges g) \<and> b \<in> fst ` set targets)"
  by (force simp: dependencies_of_def)

lemma dependents_iff:
  assumes "graph_ok g"
  shows "b \<in> set (dependents_of g a) \<longleftrightarrow> a \<in> deps g b"
proof -
  have ok: "bt_ok (graph_edges g)" using assms by (simp add: graph_ok_def)
  show ?thesis
  proof (cases "bt_get (graph_edges g) a")
    case None
    then have "a \<notin> fst ` set (graph_edges g)" by (simp add: bt_get_None)
    then have "a \<notin> deps g b" unfolding deps_iff by force
    then show ?thesis using None by (simp add: dependents_of_def)
  next
    case (Some m)
    then have "(a, n) \<in> set (graph_edges g) \<longleftrightarrow> n = m" for n using bt_get_in [OF ok, of a n] by auto
    then show ?thesis using Some by (simp add: dependents_of_def deps_iff)
  qed
qed

lemma dependencies_distinct: "graph_ok g \<Longrightarrow> distinct (dependencies_of g t)"
  unfolding dependencies_of_def graph_ok_def
  by (auto simp: distinct_map dest!: bt_ok_distinct intro: inj_on_subset)

lemma dependents_distinct: "graph_ok g \<Longrightarrow> distinct (dependents_of g t)"
  using bt_get_in [of "graph_edges g" t] bt_ok_distinct unfolding dependents_of_def graph_ok_def
  by (fastforce split: option.splits)

lemma deps_tasks: "graph_ok g \<Longrightarrow> a \<in> deps g b \<Longrightarrow> a \<in> tasks_of g \<and> b \<in> tasks_of g"
  unfolding deps_iff graph_ok_def by blast

lemma task_ids_distinct: "graph_ok g \<Longrightarrow> distinct (task_ids g) \<and> sorted (task_ids g)"
  by (simp add: graph_ok_def task_ids_def bt_ok_distinct bt_ok_def strict_sorted_imp_sorted)

subsection \<open>The loop over the dependents\<close>

lemma accesses_conflict_sym: "accesses_conflict xs ys \<Longrightarrow> accesses_conflict ys xs"
  unfolding accesses_conflict_def list_ex_iff
  by (elim bexE, rule bexI, rule bexI) (auto simp: conflicts_def)

lemma bt_insert_keys: "bt_ok m \<Longrightarrow> bt_get m k \<noteq> None \<Longrightarrow> map fst (bt_insert k v m) = map fst m"
proof (induction k v m rule: bt_insert.induct)
  case (2 k v k' v' m)
  have "\<not> k < k'"
  proof
    assume "k < k'"
    with "2.prems"(1) have "k \<notin> fst ` set ((k', v') # m)" by (auto dest: less_trans)
    then show False using "2.prems"(2) bt_get_None [of "(k', v') # m" k] by simp
  qed
  then show ?case using 2 by (auto simp: bt_get_def)
qed (simp add: bt_get_def)

lemma relax_Some:
  assumes "distinct ds" "\<forall>d \<in> set ds. \<exists>n. bt_get m d = Some (Suc n)" "sorted ready" "distinct ready" "bt_ok m"
  shows "\<exists>m' ready'. relax ds m ready = Some (m', ready') \<and> bt_ok m' \<and> map fst m' = map fst m \<and>
    (\<forall>x. bt_get m' x = (if x \<in> set ds then map_option (\<lambda>n. n - 1) (bt_get m x) else bt_get m x)) \<and>
    sorted ready' \<and> distinct ready' \<and> set ready' = set ready \<union> {d \<in> set ds. bt_get m d = Some 1}"
  using assms
proof (induction ds arbitrary: m ready)
  case (Cons d ds)
  then obtain n where n: "bt_get m d = Some (Suc n)" by auto
  let ?m = "bt_insert d n m" and ?ready = "if n = 0 then insort_insert d ready else ready"
  have "sorted ?ready" "distinct ?ready" using Cons.prems by (simp_all add: sorted_insort_insert distinct_insort_insert)
  moreover have "\<forall>x \<in> set ds. \<exists>k. bt_get ?m x = Some (Suc k)" using Cons.prems by (auto simp: bt_get_insert)
  ultimately obtain m' ready' where IH: "relax ds ?m ?ready = Some (m', ready')" "bt_ok m'" "map fst m' = map fst ?m"
    "\<forall>x. bt_get m' x = (if x \<in> set ds then map_option (\<lambda>n. n - 1) (bt_get ?m x) else bt_get ?m x)"
    "sorted ready'" "distinct ready'" "set ready' = set ?ready \<union> {d \<in> set ds. bt_get ?m d = Some 1}"
    using Cons.IH [of ?m ?ready] Cons.prems bt_ok_insert [OF Cons.prems(5)] by auto
  have "map fst ?m = map fst m" using n by (intro bt_insert_keys [OF Cons.prems(5)]) simp
  moreover have "set ready' = set ready \<union> {x \<in> set (d # ds). bt_get m x = Some 1}"
    using IH(7) n Cons.prems(1) by (auto simp: bt_get_insert set_insort_insert)
  moreover have "bt_get m' x = (if x \<in> set (d # ds) then map_option (\<lambda>n. n - 1) (bt_get m x) else bt_get m x)" for x
    using IH(4) n Cons.prems(1) by (auto simp: bt_get_insert)
  ultimately show ?case using IH n by simp
qed simp

subsection \<open>The main loop\<close>

definition kahn_inv :: "DependencyGraph \<Rightarrow> (TaskId \<times> nat) list \<Rightarrow> TaskId list \<Rightarrow> TaskId list \<Rightarrow> bool" where
  "kahn_inv g m ready order \<longleftrightarrow>
     distinct order \<and> set order \<subseteq> tasks_of g \<and> (\<forall>i < length order. deps g (order ! i) \<subseteq> set (take i order)) \<and>
     bt_ok m \<and> map fst m = task_ids g \<and>
     (\<forall>t \<in> tasks_of g. bt_get m t = Some (card (deps g t - set order))) \<and>
     sorted ready \<and> distinct ready \<and> set ready = {t \<in> tasks_of g. t \<notin> set order \<and> deps g t \<subseteq> set order}"

lemma kahn_step:
  assumes g: "graph_ok g" and inv: "kahn_inv g m (t # ready) order"
  shows "\<exists>m' ready'. relax (dependents_of g t) m ready = Some (m', ready') \<and> kahn_inv g m' ready' (order @ [t])"
proof -
  have t: "t \<in> tasks_of g" "t \<notin> set order" "deps g t \<subseteq> set order"
    and rd: "sorted ready" "distinct ready" "t \<notin> set ready"
    and deg: "\<And>x. x \<in> tasks_of g \<Longrightarrow> bt_get m x = Some (card (deps g x - set order))"
    and m: "bt_ok m" "map fst m = task_ids g"
    and ord: "distinct order" "set order \<subseteq> tasks_of g" "\<And>i. i < length order \<Longrightarrow> deps g (order ! i) \<subseteq> set (take i order)"
    and ready: "insert t (set ready) = {t \<in> tasks_of g. t \<notin> set order \<and> deps g t \<subseteq> set order}"
    using inv by (auto simp: kahn_inv_def)
  let ?ds = "dependents_of g t"
  have ds: "x \<in> set ?ds \<longleftrightarrow> t \<in> deps g x" for x by (rule dependents_iff [OF g])
  have diff: "card (deps g x - set order) = Suc (card (deps g x - set (order @ [t])))" if "t \<in> deps g x" for x
  proof -
    have "deps g x - set order = insert t (deps g x - set (order @ [t]))" using that t(2) by auto
    then show ?thesis by simp
  qed
  have same: "deps g x - set (order @ [t]) = deps g x - set order" if "t \<notin> deps g x" for x using that by auto
  have pos: "\<forall>d \<in> set ?ds. \<exists>n. bt_get m d = Some (Suc n)"
  proof
    fix d assume "d \<in> set ?ds"
    then have d: "t \<in> deps g d" using ds by simp
    then show "\<exists>n. bt_get m d = Some (Suc n)" using deg [of d] diff [OF d] deps_tasks [OF g d] by simp
  qed
  obtain m' ready' where r: "relax ?ds m ready = Some (m', ready')" "bt_ok m'" "map fst m' = map fst m"
    "\<forall>x. bt_get m' x = (if x \<in> set ?ds then map_option (\<lambda>n. n - 1) (bt_get m x) else bt_get m x)"
    "sorted ready'" "distinct ready'" "set ready' = set ready \<union> {d \<in> set ?ds. bt_get m d = Some 1}"
    using relax_Some [OF dependents_distinct [OF g] pos rd(1,2) m(1)] by (elim exE conjE) (rule that)
  have deg': "bt_get m' x = Some (card (deps g x - set (order @ [t])))" if "x \<in> tasks_of g" for x
    using r(4) [rule_format, of x] deg [OF that] ds [of x] diff [of x] same [of x] by (cases "t \<in> deps g x") simp_all
  have one: "bt_get m d = Some 1 \<longleftrightarrow> deps g d \<subseteq> set (order @ [t])" if "t \<in> deps g d" for d
  proof -
    have "bt_get m d = Some (Suc (card (deps g d - set (order @ [t]))))"
      using deps_tasks [OF g that] deg [of d] diff [OF that] by simp
    then have "bt_get m d = Some 1 \<longleftrightarrow> card (deps g d - set (order @ [t])) = 0" by (simp only: option.inject One_nat_def nat.inject)
    also have "\<dots> \<longleftrightarrow> deps g d - set (order @ [t]) = {}" by (rule card_0_eq) simp
    finally show ?thesis by (simp only: Diff_eq_empty_iff)
  qed
  have notin: "x \<notin> set order" if "t \<in> deps g x" for x
  proof
    assume "x \<in> set order"
    then obtain i where "i < length order" "order ! i = x" by (auto simp: in_set_conv_nth)
    with ord(3) [of i] that have "t \<in> set (take i order)" by blast
    then show False using t(2) by (blast dest: in_set_takeD)
  qed
  have "set ready' = {x \<in> tasks_of g. x \<notin> set (order @ [t]) \<and> deps g x \<subseteq> set (order @ [t])}" (is "_ = ?R")
  proof (rule set_eqI)
    fix x
    show "x \<in> set ready' \<longleftrightarrow> x \<in> ?R"
    proof (cases "t \<in> deps g x")
      case True
      have "x \<noteq> t" using True t(2,3) by blast
      have "x \<notin> set ready" using True ready t(2) by blast
      then show ?thesis using True r(7) ds one [OF True] notin [OF True] deps_tasks [OF g True] \<open>x \<noteq> t\<close> by auto
    next
      case False
      then have "deps g x \<subseteq> set (order @ [t]) \<longleftrightarrow> deps g x \<subseteq> set order" by auto
      moreover have "x \<in> set ready' \<longleftrightarrow> x \<in> set ready" using False r(7) ds by auto
      ultimately show ?thesis using ready rd(3) by auto
    qed
  qed
  moreover have "deps g ((order @ [t]) ! i) \<subseteq> set (take i (order @ [t]))" if "i < length (order @ [t])" for i
    using that ord(3) [of i] t(3) by (cases "i < length order") (auto simp: nth_append)
  ultimately have "kahn_inv g m' ready' (order @ [t])"
    unfolding kahn_inv_def using ord t r(2,3,5,6) m(2) deg' by auto
  with r(1) show ?thesis by blast
qed

lemma kahn_returns:
  assumes g: "graph_ok g"
  shows "kahn_inv g m ready order \<Longrightarrow> \<exists>m' order'. kahn g m ready order = Some (m', order') \<and> kahn_inv g m' [] order'"
proof (induction "card (tasks_of g - set order)" arbitrary: m ready order rule: less_induct)
  case less
  show ?case
  proof (cases ready)
    case Nil
    then show ?thesis using less.prems by (subst kahn.simps) auto
  next
    case (Cons t ready')
    from kahn_step [OF g less.prems [unfolded Cons]] obtain m1 ready1 where
      s: "relax (dependents_of g t) m ready' = Some (m1, ready1)" "kahn_inv g m1 ready1 (order @ [t])" by blast
    have "t \<in> tasks_of g" "t \<notin> set order" using less.prems Cons by (auto simp: kahn_inv_def)
    then have "card (tasks_of g - set (order @ [t])) < card (tasks_of g - set order)"
      by (intro psubset_card_mono) auto
    from less.hyps [OF this s(2)] show ?thesis using Cons s(1) by (subst kahn.simps) simp
  qed
qed

lemma kahn_inv_start:
  assumes g: "graph_ok g"
  shows "kahn_inv g (map (\<lambda>t. (t, length (dependencies_of g t))) (task_ids g))
    (map fst (filter (\<lambda>(t, degree). degree = 0) (map (\<lambda>t. (t, length (dependencies_of g t))) (task_ids g)))) []"
proof -
  let ?m = "map (\<lambda>t. (t, length (dependencies_of g t))) (task_ids g)"
  have keys: "map fst ?m = task_ids g" by (simp add: comp_def)
  have "bt_ok ?m" unfolding bt_ok_def keys strict_sorted_iff using task_ids_distinct [OF g] by blast
  moreover have "bt_get ?m t = Some (card (deps g t))" if "t \<in> tasks_of g" for t
    using that bt_get_in [OF \<open>bt_ok ?m\<close>] distinct_card [OF dependencies_distinct [OF g]] by (auto simp: task_ids_def)
  moreover have "map fst (filter (\<lambda>(t, degree). degree = 0) ?m) = filter (\<lambda>t. dependencies_of g t = []) (task_ids g)"
    by (induction "task_ids g") (simp_all add: filter_map comp_def)
  ultimately show ?thesis
    unfolding kahn_inv_def using keys task_ids_distinct [OF g] by (auto simp: sorted_filter [of "\<lambda>x. x", simplified] task_ids_def)
qed

text \<open>What is left at the end: every task outside the order waits for another one.\<close>

lemma kahn_inv_end:
  assumes g: "graph_ok g" and inv: "kahn_inv g m [] order" and t: "t \<in> tasks_of g - set order"
  shows "\<exists>p \<in> tasks_of g - set order. p \<in> deps g t"
proof -
  have "\<not> deps g t \<subseteq> set order" using inv t by (auto simp: kahn_inv_def)
  then obtain p where "p \<in> deps g t" "p \<notin> set order" by blast
  with deps_tasks [OF g] show ?thesis by blast
qed

subsection \<open>The built graph\<close>

text \<open>The edges a map of maps stands for, and its well-formedness.\<close>

definition has_edge :: "(TaskId \<times> (TaskId \<times> DependencyKind set) list) list \<Rightarrow> TaskId \<Rightarrow> TaskId \<Rightarrow> bool" where
  "has_edge es a b \<longleftrightarrow> (\<exists>m. bt_get es a = Some m \<and> bt_get m b \<noteq> None)"

definition edges_ok :: "TaskId set \<Rightarrow> (TaskId \<times> (TaskId \<times> DependencyKind set) list) list \<Rightarrow> bool" where
  "edges_ok T es \<longleftrightarrow> bt_ok es \<and> (\<forall>(a, m) \<in> set es. a \<in> T \<and> bt_ok m \<and> fst ` set m \<subseteq> T)"

lemma bt_get_Nil [simp]: "bt_get [] k = None"
  by (simp add: bt_get_def)

lemma has_edge_add: "has_edge (add_edge a b k es) x y \<longleftrightarrow> (x = a \<and> y = b) \<or> has_edge es x y"
  by (auto simp: has_edge_def add_edge_def Let_def bt_get_insert split: option.splits if_splits)

lemma edges_ok_add:
  assumes "edges_ok T es" "a \<in> T" "b \<in> T"
  shows "edges_ok T (add_edge a b k es)"
proof -
  let ?m = "case bt_get es a of Some m \<Rightarrow> m | None \<Rightarrow> []"
  have es: "bt_ok es" using assms(1) by (simp add: edges_ok_def)
  have m: "bt_ok ?m \<and> fst ` set ?m \<subseteq> T"
  proof (cases "bt_get es a")
    case (Some m)
    then have "(a, m) \<in> set es" using bt_get_in [OF es, of a m] by simp
    with assms(1) have "bt_ok m \<and> fst ` set m \<subseteq> T" unfolding edges_ok_def by blast
    with Some show ?thesis by simp
  qed simp
  define n where "n = bt_insert b (insert k (case bt_get ?m b of Some s \<Rightarrow> s | None \<Rightarrow> {})) ?m"
  have n: "bt_ok n \<and> fst ` set n \<subseteq> T"
    unfolding n_def using m assms(3) by (simp add: bt_ok_insert fst_bt_insert)
  have "x \<in> T \<and> bt_ok l \<and> fst ` set l \<subseteq> T" if "(x, l) \<in> set (bt_insert a n es)" for x l
  proof (cases "x = a")
    case True
    then show ?thesis using that n assms(2) bt_in_insert [OF es] by simp
  next
    case False
    then have "(x, l) \<in> set es" using that bt_in_insert [OF es] by simp
    then show ?thesis using assms(1) unfolding edges_ok_def by blast
  qed
  then show ?thesis
    using bt_ok_insert [OF es] by (auto simp only: edges_ok_def add_edge_def Let_def n_def)
qed

lemma fold_add_edge:
  assumes "edges_ok T es" "\<forall>(a, b) \<in> set ps. a \<in> T \<and> b \<in> T"
  shows "edges_ok T (fold (\<lambda>(a, b). add_edge a b k) ps es) \<and>
    (\<forall>x y. has_edge (fold (\<lambda>(a, b). add_edge a b k) ps es) x y \<longleftrightarrow> (x, y) \<in> set ps \<or> has_edge es x y)"
  using assms
proof (induction ps arbitrary: es)
  case (Cons p ps)
  obtain a b where p: "p = (a, b)" by (cases p)
  have "edges_ok T (add_edge a b k es)" using Cons.prems p by (intro edges_ok_add) auto
  from Cons.IH [OF this] Cons.prems p show ?case by (auto simp: has_edge_add)
qed simp

lemma conflict_edges_correct:
  assumes "edges_ok T es" "\<forall>t \<in> set ts. task_id t \<in> T"
  shows "edges_ok T (conflict_edges ts es) \<and>
    (\<forall>x y. has_edge es x y \<longrightarrow> has_edge (conflict_edges ts es) x y) \<and>
    (\<forall>i j. i < j \<longrightarrow> j < length ts \<longrightarrow> accesses_conflict (accesses (ts ! i)) (accesses (ts ! j)) \<longrightarrow>
       has_edge (conflict_edges ts es) (task_id (ts ! i)) (task_id (ts ! j)))"
  using assms
proof (induction ts arbitrary: es)
  case (Cons l ts)
  let ?rs = "filter (\<lambda>r. accesses_conflict (accesses l) (accesses r)) ts"
  let ?es = "fold (\<lambda>right. add_edge (task_id l) (task_id right) DataConflict) ?rs es"
  have "?es = fold (\<lambda>(a, b). add_edge a b DataConflict) (map (\<lambda>r. (task_id l, task_id r)) ?rs) es"
    by (simp add: fold_map comp_def)
  with fold_add_edge [OF Cons.prems(1), of "map (\<lambda>r. (task_id l, task_id r)) ?rs" DataConflict] Cons.prems(2)
  have es: "edges_ok T ?es" "\<And>x y. has_edge ?es x y \<longleftrightarrow> (\<exists>r \<in> set ?rs. x = task_id l \<and> y = task_id r) \<or> has_edge es x y"
    by auto
  have ts: "\<forall>t \<in> set ts. task_id t \<in> T" using Cons.prems(2) by simp
  note IH = Cons.IH [OF es(1) ts]
  have "has_edge (conflict_edges (l # ts) es) (task_id ((l # ts) ! i)) (task_id ((l # ts) ! j))"
    if ij: "i < j" "j < length (l # ts)" "accesses_conflict (accesses ((l # ts) ! i)) (accesses ((l # ts) ! j))" for i j
  proof -
    obtain j' where j: "j = Suc j'" "j' < length ts" using ij(1,2) by (cases j) auto
    show ?thesis
    proof (cases i)
      case 0
      then have "has_edge ?es (task_id l) (task_id (ts ! j'))"
        unfolding es(2) using ij(3) j nth_mem [OF j(2)] by (intro disjI1 bexI [of _ "ts ! j'"]) auto
      then show ?thesis using IH 0 j by simp
    next
      case (Suc i')
      then show ?thesis using IH ij j by simp
    qed
  qed
  with IH es(2) show ?case by auto
qed simp

subsection \<open>Building\<close>

definition builder_ok :: "TaskGraphBuilder \<Rightarrow> bool" where
  "builder_ok b \<longleftrightarrow> bt_ok (builder_tasks b) \<and> (\<forall>(i, t) \<in> set (builder_tasks b). task_id t = i)"

lemma builder_new_ok: "builder_ok \<lparr>builder_tasks = []\<rparr>"
  by (simp add: builder_ok_def)

lemma add_task_ok: "builder_ok b \<Longrightarrow> add_task t b = Ok b' \<Longrightarrow> builder_ok b'"
proof -
  assume b: "builder_ok b" and "add_task t b = Ok b'"
  then have b': "builder_tasks b' = bt_insert (task_id t) t (builder_tasks b)"
    by (auto simp: add_task_def result_bind_eq_Ok split: if_splits)
  have ok: "bt_ok (builder_tasks b)" using b by (simp add: builder_ok_def)
  show "builder_ok b'" using b bt_ok_insert [OF ok] bt_in_insert [OF ok] unfolding builder_ok_def b'
    by (auto split: if_splits)
qed

text \<open>The graph that \<open>build\<close> checks for cycles.\<close>

definition candidate_graph :: "TaskGraphBuilder \<Rightarrow> DependencyGraph" where
  "candidate_graph b =
     \<lparr>graph_tasks = builder_tasks b,
      graph_edges = conflict_edges (map snd (builder_tasks b)) (explicit_edges (builder_tasks b))\<rparr>"

lemma has_edge_deps: "bt_ok (graph_edges g) \<Longrightarrow> has_edge (graph_edges g) a b \<longleftrightarrow> a \<in> deps g b"
  unfolding has_edge_def deps_iff using bt_get_in [of "graph_edges g" a] bt_get_None by metis

lemma candidate_graph_ok:
  assumes b: "builder_ok b" and known: "unknown_dependency (builder_tasks b) = None"
  shows "graph_ok (candidate_graph b)"
    and "t \<in> snd ` set (builder_tasks b) \<Longrightarrow> d \<in> set (depends_on t) \<Longrightarrow> d \<in> deps (candidate_graph b) (task_id t)"
    and "i < j \<Longrightarrow> j < length (builder_tasks b) \<Longrightarrow>
      accesses_conflict (accesses (snd (builder_tasks b ! i))) (accesses (snd (builder_tasks b ! j))) \<Longrightarrow>
      fst (builder_tasks b ! i) \<in> deps (candidate_graph b) (fst (builder_tasks b ! j))"
proof -
  let ?ts = "builder_tasks b" and ?T = "fst ` set (builder_tasks b)" and ?g = "candidate_graph b"
  let ?ps = "concat (map (\<lambda>(_, t). map (\<lambda>d. (d, task_id t)) (depends_on t)) ?ts)"
  have ids: "fst x = task_id (snd x)" if "x \<in> set ?ts" for x using b that by (auto simp: builder_ok_def)
  have kn: "d \<in> ?T" if "x \<in> set ?ts" "d \<in> set (depends_on (snd x))" for x d
  proof -
    have "(task_id (snd x), d) \<in> set (concat (map (\<lambda>(_, t). map (\<lambda>d. (task_id t, d)) (depends_on t)) ?ts))"
      using that by (auto simp: split_beta)
    with known have "\<not> (case (task_id (snd x), d) of (t, d) \<Rightarrow> bt_get ?ts d = None)"
      unfolding unknown_dependency_def find_None_iff by blast
    then have "bt_get ?ts d \<noteq> None" by simp
    then show ?thesis using bt_get_None by metis
  qed
  have "\<forall>(a, c) \<in> set ?ps. a \<in> ?T \<and> c \<in> ?T" using kn ids by (force simp: image_iff)
  from fold_add_edge [OF _ this, of "[]" Explicit] have ex: "edges_ok ?T (explicit_edges ?ts)"
    "\<And>x y. has_edge (explicit_edges ?ts) x y \<longleftrightarrow> (x, y) \<in> set ?ps"
    by (auto simp: explicit_edges_def edges_ok_def has_edge_def)
  have "\<forall>t \<in> set (map snd ?ts). task_id t \<in> ?T" using ids by force
  note ce = conflict_edges_correct [OF ex(1) this]
  then show g: "graph_ok ?g" using b by (auto simp: graph_ok_def candidate_graph_def edges_ok_def builder_ok_def)
  note he = has_edge_deps [of ?g]
  have bt: "bt_ok (graph_edges ?g)" using g by (simp add: graph_ok_def)
  show "d \<in> deps ?g (task_id t)" if "t \<in> snd ` set ?ts" "d \<in> set (depends_on t)"
  proof -
    have "(d, task_id t) \<in> set ?ps" using that by (auto simp: split_beta)
    then show ?thesis using ce ex(2) he [OF bt] by (simp add: candidate_graph_def)
  qed
  show "fst (?ts ! i) \<in> deps ?g (fst (?ts ! j))" if "i < j" "j < length ?ts"
    "accesses_conflict (accesses (snd (?ts ! i))) (accesses (snd (?ts ! j)))"
    using ce that he [OF bt] ids [of "?ts ! i"] ids [of "?ts ! j"] by (simp add: candidate_graph_def)
qed

lemma topological_order_returns:
  assumes g: "graph_ok g"
  shows "\<exists>m order. kahn_inv g m [] order \<and>
    topological_order g = Some (if length order \<noteq> length (graph_tasks g)
       then Err (Cycle (map fst (filter (\<lambda>(t, degree). degree \<noteq> 0) m))) else Ok order)"
  using kahn_returns [OF g kahn_inv_start [OF g]] by (fastforce simp: topological_order_def Let_def)

lemma order_length: "graph_ok g \<Longrightarrow> kahn_inv g m [] order \<Longrightarrow> length order = length (graph_tasks g) \<longleftrightarrow> set order = tasks_of g"
proof -
  assume g: "graph_ok g" and inv: "kahn_inv g m [] order"
  have "length (graph_tasks g) = card (tasks_of g)"
    using distinct_card [of "task_ids g"] task_ids_distinct [OF g] by (simp add: task_ids_def)
  moreover have "length order = card (set order)" "set order \<subseteq> tasks_of g"
    using inv by (simp_all add: kahn_inv_def distinct_card)
  ultimately show ?thesis using card_subset_eq [of "tasks_of g" "set order"] by auto
qed

text \<open>An order that respects the edges rules out cycles; tasks that all wait for each other are one.\<close>

lemma takeWhile_first: "b \<notin> set ys \<Longrightarrow> takeWhile (\<lambda>y. y \<noteq> b) (ys @ b # zs) = ys"
  by (induction ys) auto

lemma acyclic_order:
  assumes g: "graph_ok g" and "distinct order" "set order = tasks_of g"
    and pre: "\<And>i. i < length order \<Longrightarrow> deps g (order ! i) \<subseteq> set (take i order)"
  shows "acyclic (edges_rel g)"
proof -
  let ?pos = "\<lambda>x. length (takeWhile (\<lambda>y. y \<noteq> x) order)"
  have "?pos a < ?pos b" if "(a, b) \<in> edges_rel g" for a b
  proof -
    have "b \<in> set order" using that deps_tasks [OF g, of a b] assms(3) by (simp add: edges_rel_def)
    then obtain ys zs where "order = ys @ b # zs" "b \<notin> set ys" by (meson split_list_first)
    moreover from this have "takeWhile (\<lambda>y. y \<noteq> b) order = ys" by (simp add: takeWhile_first)
    ultimately have b: "?pos b < length order" "order ! ?pos b = b" by simp_all
    then have "a \<in> set (take (?pos b) order)" using pre [of "?pos b"] that by (auto simp: edges_rel_def)
    then obtain i where i: "i < ?pos b" "order ! i = a" using b(1) by (auto simp: in_set_conv_nth)
    have "?pos a \<le> i"
    proof (rule ccontr)
      assume "\<not> ?pos a \<le> i"
      then have "takeWhile (\<lambda>y. y \<noteq> a) order ! i \<in> set (takeWhile (\<lambda>y. y \<noteq> a) order)" by simp
      then have "takeWhile (\<lambda>y. y \<noteq> a) order ! i \<noteq> a" by (auto dest: set_takeWhileD)
      then have "order ! i \<noteq> a" using \<open>\<not> ?pos a \<le> i\<close> by (simp add: takeWhile_nth)
      then show False using i(2) by simp
    qed
    then show ?thesis using i(1) by simp
  qed
  then show ?thesis by (intro acyclicI_order [where f = "\<lambda>x. - int (?pos x)"]) simp
qed

lemma not_acyclic_waiting:
  assumes g: "graph_ok g" and "S \<noteq> {}" and wait: "\<And>t. t \<in> S \<Longrightarrow> \<exists>p \<in> S. p \<in> deps g t"
  shows "\<not> acyclic (edges_rel g)"
proof
  assume "acyclic (edges_rel g)"
  moreover have "edges_rel g \<subseteq> tasks_of g \<times> tasks_of g" using deps_tasks [OF g] by (auto simp: edges_rel_def)
  then have "finite (edges_rel g)" by (rule finite_subset) simp
  ultimately have "wf (edges_rel g)" by (simp add: finite_acyclic_wf)
  with assms(2) obtain z where z: "z \<in> S" "\<And>y. (y, z) \<in> edges_rel g \<Longrightarrow> y \<notin> S" by (metis ex_in_conv wfE_min)
  with wait [OF z(1)] show False by (auto simp: edges_rel_def)
qed

lemma waiting_tasks:
  assumes g: "graph_ok g" and inv: "kahn_inv g m [] order"
  shows "set (map fst (filter (\<lambda>(t, degree). degree \<noteq> 0) m)) = tasks_of g - set order"
proof (rule set_eqI)
  fix t
  have m: "bt_ok m" "map fst m = task_ids g" "\<And>t. t \<in> tasks_of g \<Longrightarrow> bt_get m t = Some (card (deps g t - set order))"
    using inv unfolding kahn_inv_def by blast+
  have keys: "fst ` set m = tasks_of g" using m(2) by (metis list.set_map task_ids_def)
  have early: "deps g t \<subseteq> set order" if "t \<in> set order"
  proof -
    obtain i where "i < length order" "order ! i = t" using \<open>t \<in> set order\<close> by (auto simp: in_set_conv_nth)
    then have "deps g t \<subseteq> set (take i order)" using inv unfolding kahn_inv_def by blast
    then show ?thesis using set_take_subset by fast
  qed
  have "t \<in> set (map fst (filter (\<lambda>(t, degree). degree \<noteq> 0) m)) \<longleftrightarrow> (\<exists>n. bt_get m t = Some n \<and> n \<noteq> 0)"
    using bt_get_in [OF m(1)] by force
  also have "\<dots> \<longleftrightarrow> t \<in> tasks_of g \<and> \<not> deps g t \<subseteq> set order"
  proof (cases "t \<in> tasks_of g")
    case True
    then show ?thesis using m(3) [OF True] by (simp add: card_gt_0_iff)
  next
    case False
    then show ?thesis using keys bt_get_None [of m t] by auto
  qed
  also have "\<dots> \<longleftrightarrow> t \<in> tasks_of g - set order"
    using early kahn_inv_end [OF g inv, of t] by blast
  finally show "t \<in> set (map fst (filter (\<lambda>(t, degree). degree \<noteq> 0) m)) \<longleftrightarrow> t \<in> tasks_of g - set order" .
qed

lemma topological_order_cases:
  assumes "graph_ok g"
  shows "\<exists>r. topological_order g = Some r \<and> ((\<exists>order. r = Ok order) \<longleftrightarrow> acyclic (edges_rel g)) \<and>
    (case r of
       Inr order \<Rightarrow> distinct order \<and> set order = tasks_of g \<and> (\<forall>i < length order. deps g (order ! i) \<subseteq> set (take i order))
     | Inl e \<Rightarrow> \<exists>ts. e = Cycle ts \<and> ts \<noteq> [] \<and> (\<forall>t \<in> set ts. \<exists>p \<in> set ts. p \<in> deps g t))"
proof -
  obtain m order where inv: "kahn_inv g m [] order" and r: "topological_order g = Some (if length order \<noteq> length (graph_tasks g)
       then Err (Cycle (map fst (filter (\<lambda>(t, degree). degree \<noteq> 0) m))) else Ok order)"
    using topological_order_returns [OF assms] by blast
  have ord: "distinct order" "set order \<subseteq> tasks_of g" "\<And>i. i < length order \<Longrightarrow> deps g (order ! i) \<subseteq> set (take i order)"
    using inv by (simp_all add: kahn_inv_def)
  show ?thesis
  proof (cases "set order = tasks_of g")
    case True
    then show ?thesis
      using r order_length [OF assms inv] acyclic_order [OF assms ord(1) True ord(3)] ord by simp
  next
    case False
    let ?ts = "map fst (filter (\<lambda>(t, degree). degree \<noteq> 0) m)"
    have ts: "set ?ts = tasks_of g - set order" by (rule waiting_tasks [OF assms inv])
    have ne: "set ?ts \<noteq> {}" unfolding ts using False ord(2) by blast
    then have "?ts \<noteq> []" by (metis list.set(1))
    have wait: "\<forall>t \<in> set ?ts. \<exists>p \<in> set ?ts. p \<in> deps g t" unfolding ts using kahn_inv_end [OF assms inv] by blast
    have "\<not> acyclic (edges_rel g)" using not_acyclic_waiting [OF assms ne] wait by blast
    then show ?thesis using r order_length [OF assms inv] False wait \<open>?ts \<noteq> []\<close> by simp
  qed
qed

lemma build_graph_result:
  assumes "builder_ok b"
  shows "\<exists>r. build_graph b = Some r \<and>
    (\<forall>g. r = Ok g \<longrightarrow> graph_ok g \<and> acyclic (edges_rel g) \<and> graph_tasks g = builder_tasks b \<and>
       (\<forall>(i, t) \<in> set (graph_tasks g). set (depends_on t) \<subseteq> deps g i) \<and>
       (\<forall>(i, s) \<in> set (graph_tasks g). \<forall>(j, t) \<in> set (graph_tasks g).
          i < j \<longrightarrow> accesses_conflict (accesses s) (accesses t) \<longrightarrow> i \<in> deps g j))"
proof (cases "unknown_dependency (builder_tasks b)")
  case (Some p)
  then show ?thesis by (cases p) (simp add: build_graph_def)
next
  case None
  let ?ts = "builder_tasks b"
  note c = candidate_graph_ok [OF assms None]
  from topological_order_cases [OF c(1)] obtain r where r: "topological_order (candidate_graph b) = Some r"
    "(\<exists>order. r = Ok order) \<longleftrightarrow> acyclic (edges_rel (candidate_graph b))" by blast
  have build: "build_graph b = Some (result_bind r (\<lambda>_. Ok (candidate_graph b)))"
    using r(1) None by (simp add: build_graph_def candidate_graph_def Let_def)
  have ok: "bt_ok ?ts" "\<And>x. x \<in> set ?ts \<Longrightarrow> task_id (snd x) = fst x" using assms by (auto simp: builder_ok_def)
  have ex: "set (depends_on t) \<subseteq> deps (candidate_graph b) i" if "(i, t) \<in> set ?ts" for i t
    using c(2) [of t] that ok(2) [OF that] by force
  have conf: "i \<in> deps (candidate_graph b) j"
    if ij: "(i, s) \<in> set ?ts" "(j, t) \<in> set ?ts" "i < j" "accesses_conflict (accesses s) (accesses t)" for i s j t
  proof -
    obtain m where m: "m < length ?ts" "?ts ! m = (i, s)" using ij(1) by (auto simp: in_set_conv_nth)
    obtain n where n: "n < length ?ts" "?ts ! n = (j, t)" using ij(2) by (auto simp: in_set_conv_nth)
    have "\<not> n \<le> m"
    proof
      assume "n \<le> m"
      then have "j \<le> i" using sorted_nth_mono [of "map fst ?ts" n m] ok(1) m n
        by (simp add: bt_ok_def strict_sorted_imp_sorted)
      with ij(3) show False by simp
    qed
    then show ?thesis using c(3) [of m n] m n ij(4) by simp
  qed
  have "graph_tasks (candidate_graph b) = ?ts" by (simp add: candidate_graph_def)
  then show ?thesis using build r(2) c(1) ex conf by (auto simp: result_bind_eq_Ok)
qed

subsection \<open>Properties\<close>

text \<open>
  C29. The topological order is always computed: it lists every task once, each after all its dependencies, and it
  exists exactly if the edges have no cycle; otherwise the error names a non-empty set of tasks each of which
  waits for another one of them.
\<close>

theorem topological_order_correct:
  assumes "graph_ok g"
  shows "\<exists>r. topological_order g = Some r \<and> ((\<exists>order. r = Ok order) \<longleftrightarrow> acyclic (edges_rel g)) \<and>
    (case r of
       Inr order \<Rightarrow> distinct order \<and> set order = tasks_of g \<and> (\<forall>i < length order. deps g (order ! i) \<subseteq> set (take i order))
     | Inl e \<Rightarrow> \<exists>ts. e = Cycle ts \<and> ts \<noteq> [] \<and> (\<forall>t \<in> set ts. \<exists>p \<in> set ts. p \<in> deps g t))"
  using topological_order_cases [OF assms] .

text \<open>
  C28. Building returns, and a built graph is safe to schedule: it is well formed and acyclic, explicit
  dependencies are edges, and of two tasks with conflicting accesses the one with the smaller identity
  precedes the other.
\<close>

theorem build_graph_safe:
  assumes "builder_ok b"
  shows "\<exists>r. build_graph b = Some r \<and>
    (\<forall>g. r = Ok g \<longrightarrow> graph_ok g \<and> acyclic (edges_rel g) \<and> graph_tasks g = builder_tasks b \<and>
       (\<forall>(i, t) \<in> set (graph_tasks g). set (depends_on t) \<subseteq> deps g i) \<and>
       (\<forall>(i, s) \<in> set (graph_tasks g). \<forall>(j, t) \<in> set (graph_tasks g).
          i < j \<longrightarrow> accesses_conflict (accesses s) (accesses t) \<longrightarrow> i \<in> deps g j))"
  using build_graph_result [OF assms] .

text \<open>Two tasks that write the same resource, added in the reverse order.\<close>

definition frame_builder :: TaskGraphBuilder where
  "frame_builder =
     (let t1 = task_access (lit ''world'') WriteAccess (task_new 1 (lit ''physics''));
          t2 = task_access (lit ''world'') ReadAccess (task_new 2 (lit ''render''))
      in case result_bind (add_task t2 \<lparr>builder_tasks = []\<rparr>) (add_task t1) of Inr b \<Rightarrow> b | Inl e \<Rightarrow> \<lparr>builder_tasks = []\<rparr>)"

lemma frame_builder_ok: "builder_ok frame_builder"
  unfolding frame_builder_def Let_def
  by (auto simp: result_bind_eq_Ok builder_new_ok split: sum.splits dest!: add_task_ok [rotated] intro: add_task_ok)

definition frame_graph :: DependencyGraph where
  "frame_graph =
     \<lparr>graph_tasks = builder_tasks frame_builder,
      graph_edges = [(1, [(2, {DataConflict})])]\<rparr>"

lemma frame_graph_order: "topological_order frame_graph = Some (Ok [1, 2])"
  by code_simp

lemma frame_graph_build: "build_graph frame_builder = Some (Ok frame_graph)"
  by code_simp

lemma frame_graph_ok: "graph_ok frame_graph"
  by code_simp

lemma topological_order_correct_witness:
  "graph_ok frame_graph \<and> topological_order frame_graph = Some (Ok [1, 2]) \<and> acyclic (edges_rel frame_graph)"
  using topological_order_correct [OF frame_graph_ok] frame_graph_ok frame_graph_order by auto

lemma build_graph_safe_witness:
  "builder_ok frame_builder \<and> build_graph frame_builder = Some (Ok frame_graph) \<and> acyclic (edges_rel frame_graph)"
  using build_graph_safe [OF frame_builder_ok] frame_builder_ok frame_graph_build by auto

end
