(* ===== verification/Dispatch.thy ===== *)
theory Dispatch
  imports Task_Graph "HOL-Library.Multiset"
begin

text \<open>
  The crate \<open>jadren-concurrency\<close>, second part: what the execution loops of both worker pools have in common. They
  keep the same local variables, dispatch ready tasks and settle completions in the same way; they differ in
  the queue and in how the workers are stopped. The deterministic scheduler is here too.
\<close>

subsection \<open>Results\<close>

datatype TaskFailure = Panicked

datatype PoolError =
    InvalidWorkerCount
  | JobSetMismatch "TaskId list" "TaskId list"
  | TaskFailed TaskId TaskFailure
  | WorkerChannelClosed
  | WorkerPanicked

record ExecutionReport =
  report_order :: "TaskId list"
  report_workers :: nat

type_synonym ExecutionResult = "(PoolError, ExecutionReport) result"
type_synonym Outcome = "(TaskFailure, unit) result"

definition check_job_set :: "DependencyGraph \<Rightarrow> (TaskId \<times> 'j) list \<Rightarrow> (PoolError, unit) result" where
  "check_job_set g js =
     (let expected = task_ids g; actual = map fst js in
      if expected \<noteq> actual
      then Err (JobSetMismatch (filter (\<lambda>t. t \<notin> set actual) expected) (filter (\<lambda>t. t \<notin> set expected) actual))
      else Ok ())"

definition pool_new :: "nat \<Rightarrow> (PoolError, nat) result" where
  "pool_new n = (if n = 0 then Err InvalidWorkerCount else Ok n)"

text \<open>A worker thread that ended by a panic would make the join fail.\<close>

definition join_workers :: "bool list \<Rightarrow> (PoolError, unit) result" where
  "join_workers panicked = (if list_ex id panicked then Err WorkerPanicked else Ok ())"

subsection \<open>The variables of the loop\<close>

record 'j Dispatch =
  jobs :: "(TaskId \<times> 'j) list"
  submitted :: "TaskId set"
  completed :: "TaskId set"
  running :: nat
  completed_order :: "TaskId list"

definition dispatch_new :: "(TaskId \<times> 'j) list \<Rightarrow> 'j Dispatch" where
  "dispatch_new js = \<lparr>jobs = js, submitted = {}, completed = {}, running = 0, completed_order = []\<rparr>"

text \<open>\<open>jobs.remove(&task)\<close> with its \<open>expect\<close>, and the two updates after the send.\<close>

definition remove_job :: "TaskId \<Rightarrow> 'j Dispatch \<Rightarrow> ('j \<times> 'j Dispatch) option" where
  "remove_job t d = map_option (\<lambda>j. (j, d\<lparr>jobs := filter (\<lambda>(k, _). k \<noteq> t) (jobs d)\<rparr>)) (bt_get (jobs d) t)"

definition submit :: "TaskId \<Rightarrow> 'j Dispatch \<Rightarrow> 'j Dispatch" where
  "submit t d = d\<lparr>submitted := insert t (submitted d), running := running d + 1\<rparr>"

text \<open>A received completion; a \<open>running\<close> of zero would be an underflow.\<close>

definition settle :: "TaskId \<Rightarrow> Outcome \<Rightarrow> 'j Dispatch \<Rightarrow> ((PoolError, unit) result \<times> 'j Dispatch) option" where
  "settle t r d =
     (if running d = 0 then None
      else Some (case r of
          Inl f \<Rightarrow> (Err (TaskFailed t f), d\<lparr>running := running d - 1\<rparr>)
        | Inr _ \<Rightarrow> (Ok (), d\<lparr>running := running d - 1, completed := insert t (completed d),
                         completed_order := completed_order d @ [t]\<rparr>)))"

text \<open>The three exits after the dispatch: everything completed, nothing running, or wait.\<close>

definition loop_exit :: "DependencyGraph \<Rightarrow> nat \<Rightarrow> 'j Dispatch \<Rightarrow> ExecutionResult option" where
  "loop_exit g n d =
     (if card (completed d) = task_count g
      then Some (Ok \<lparr>report_order = completed_order d, report_workers = n\<rparr>)
      else if running d = 0 then Some (Err WorkerChannelClosed)
      else None)"

subsection \<open>The deterministic scheduler\<close>

text \<open>A job runs on the caller's state and may panic. Running them in order stops at the first panic.\<close>

type_synonym 's job = "'s \<Rightarrow> 's \<times> Outcome"

fun run_in_order :: "TaskId list \<Rightarrow> (TaskId \<times> 's job) list \<Rightarrow> TaskId list \<Rightarrow> 's \<Rightarrow> ('s \<times> (PoolError, TaskId list) result) option" where
  "run_in_order [] js done s = Some (s, Ok done)"
| "run_in_order (t # ts) js done s =
     (case bt_get js t of
        None \<Rightarrow> None
      | Some j \<Rightarrow>
          (case j s of
             (s', Inl _) \<Rightarrow> Some (s', Err (TaskFailed t Panicked))
           | (s', Inr _) \<Rightarrow> run_in_order ts (filter (\<lambda>(k, _). k \<noteq> t) js) (done @ [t]) s'))"

text \<open>The outer option is a panic of the scheduler itself: an \<open>expect\<close> that fails.\<close>

definition run_deterministic :: "DependencyGraph \<Rightarrow> (TaskId \<times> 's job) list \<Rightarrow> 's \<Rightarrow> ('s \<times> ExecutionResult) option" where
  "run_deterministic g js s =
     (case check_job_set g js of
        Inl e \<Rightarrow> Some (s, Err e)
      | Inr _ \<Rightarrow>
          (case topological_order g of
             Some (Inr ts) \<Rightarrow>
               map_option (\<lambda>(s', r). (s', result_bind r (\<lambda>done. Ok \<lparr>report_order = done, report_workers = 1\<rparr>)))
                 (run_in_order ts js [] s)
           | _ \<Rightarrow> None))"

subsection \<open>What the loop maintains\<close>

text \<open>
  \<open>in_flight\<close> are the tasks handed out and not yet settled. They are different, are submitted, and all their
  dependencies are completed; the completions so far are in an order that respects the edges.
\<close>

definition respects_edges :: "DependencyGraph \<Rightarrow> TaskId list \<Rightarrow> bool" where
  "respects_edges g order \<longleftrightarrow> distinct order \<and> (\<forall>i < length order. deps g (order ! i) \<subseteq> set (take i order))"

definition dispatch_ok :: "DependencyGraph \<Rightarrow> TaskId multiset \<Rightarrow> 'j Dispatch \<Rightarrow> bool" where
  "dispatch_ok g in_flight d \<longleftrightarrow>
     (\<forall>t. count in_flight t \<le> 1) \<and> set_mset in_flight \<inter> completed d = {} \<and>
     set_mset in_flight \<union> completed d \<subseteq> submitted d \<and> submitted d \<subseteq> tasks_of g \<and>
     map fst (jobs d) = filter (\<lambda>t. t \<notin> submitted d) (task_ids g) \<and>
     (\<forall>t \<in># in_flight. deps g t \<subseteq> completed d) \<and>
     set (completed_order d) = completed d \<and> respects_edges g (completed_order d)"

text \<open>As long as no task has failed, the count is the number of tasks in flight.\<close>

definition dispatch_live :: "TaskId multiset \<Rightarrow> 'j Dispatch \<Rightarrow> bool" where
  "dispatch_live in_flight d \<longleftrightarrow> running d = size in_flight \<and> submitted d = set_mset in_flight \<union> completed d"

lemma ready_iff: "t \<in> set (ready_tasks g c) \<longleftrightarrow> t \<in> tasks_of g \<and> t \<notin> c \<and> deps g t \<subseteq> c"
  by (auto simp: ready_tasks_def task_ids_def list_all_iff)

lemma check_job_set_Ok: "check_job_set g js = Ok () \<longleftrightarrow> map fst js = task_ids g"
  by (auto simp: check_job_set_def Let_def)

lemma dispatch_new_ok:
  "map fst js = task_ids g \<Longrightarrow> dispatch_ok g {#} (dispatch_new js) \<and> dispatch_live {#} (dispatch_new js)"
  by (simp add: dispatch_ok_def dispatch_live_def dispatch_new_def respects_edges_def)

lemma remove_job_Some:
  assumes "dispatch_ok g F d" "t \<in> tasks_of g" "t \<notin> submitted d"
  shows "\<exists>j d'. remove_job t d = Some (j, d')"
proof -
  have "t \<in> fst ` set (jobs d)"
    using assms by (simp add: dispatch_ok_def task_ids_def flip: set_map)
  then show ?thesis using bt_get_None [of "jobs d" t] by (auto simp: remove_job_def)
qed

lemma submit_ok:
  assumes "dispatch_ok g F d" "dispatch_live F d" "remove_job t d = Some (j, d')"
    and "t \<in> set (ready_tasks g (completed d))" "t \<notin> submitted d"
  shows "dispatch_ok g (add_mset t F) (submit t d') \<and> dispatch_live (add_mset t F) (submit t d')"
proof -
  have d': "d' = d\<lparr>jobs := filter (\<lambda>(k, _). k \<noteq> t) (jobs d)\<rparr>" using assms(3) by (auto simp: remove_job_def)
  have "map fst (filter (\<lambda>(k, _). k \<noteq> t) (jobs d)) = filter (\<lambda>k. k \<noteq> t) (map fst (jobs d))"
    by (simp add: filter_map comp_def case_prod_unfold)
  also have "\<dots> = filter (\<lambda>k. k \<notin> insert t (submitted d)) (task_ids g)"
    using assms(1) by (simp add: dispatch_ok_def conj_commute)
  finally have js: "map fst (filter (\<lambda>(k, _). k \<noteq> t) (jobs d)) = filter (\<lambda>k. k \<notin> insert t (submitted d)) (task_ids g)" .
  have "t \<notin># F" "t \<notin> completed d" using assms(1,5) by (auto simp: dispatch_ok_def)
  then show ?thesis
    using assms(1,2,4) js unfolding d' submit_def dispatch_ok_def dispatch_live_def ready_iff
    by (auto simp: not_in_iff)
qed

lemma respects_edges_snoc:
  "respects_edges g order \<Longrightarrow> t \<notin> set order \<Longrightarrow> deps g t \<subseteq> set order \<Longrightarrow> respects_edges g (order @ [t])"
  by (auto simp: respects_edges_def nth_append less_Suc_eq)

lemma count_add_mset_single:
  "(\<forall>x. count (add_mset t F) x \<le> 1) \<longleftrightarrow> t \<notin># F \<and> (\<forall>x. count F x \<le> 1)"
proof
  assume *: "\<forall>x. count (add_mset t F) x \<le> 1"
  then have "count (add_mset t F) t \<le> 1" by blast
  then have "t \<notin># F" by (simp add: not_in_iff)
  moreover have "count F x \<le> 1" for x using *[rule_format, of x] by (simp split: if_splits)
  ultimately show "t \<notin># F \<and> (\<forall>x. count F x \<le> 1)" by blast
qed (simp add: not_in_iff)

lemma settle_ok:
  assumes "dispatch_ok g (add_mset t F) d" "dispatch_live (add_mset t F) d"
  shows "\<exists>d'. settle t r d = Some (map_sum (TaskFailed t) id r, d') \<and> dispatch_ok g F d' \<and>
    (r = Ok () \<longrightarrow> dispatch_live F d' \<and> completed d' = insert t (completed d))"
proof -
  have c: "\<forall>x. count F x \<le> 1" "t \<notin># F"
    using assms(1) unfolding dispatch_ok_def count_add_mset_single by blast+
  have "respects_edges g (completed_order d @ [t])"
    using assms(1) by (intro respects_edges_snoc) (auto simp: dispatch_ok_def)
  then show ?thesis
    using assms c by (cases r) (auto simp: dispatch_ok_def dispatch_live_def settle_def)
qed

text \<open>Only an acyclic graph guarantees that something is ready until everything is completed.\<close>

lemma all_completed:
  assumes "graph_ok g" "acyclic (edges_rel g)" "c \<subseteq> tasks_of g" "ready_tasks g c = []"
  shows "c = tasks_of g"
proof (rule ccontr)
  assume "c \<noteq> tasks_of g"
  then have ne: "tasks_of g - c \<noteq> {}" using assms(3) by blast
  have wait: "\<exists>p \<in> tasks_of g - c. p \<in> deps g t" if t: "t \<in> tasks_of g - c" for t
  proof -
    have "t \<notin> set (ready_tasks g c)" using assms(4) by simp
    then obtain p where "p \<in> deps g t" "p \<notin> c" using t unfolding ready_iff by blast
    then show ?thesis using deps_tasks [OF assms(1)] by blast
  qed
  show False using not_acyclic_waiting [OF assms(1) ne wait] assms(2) by blast
qed

lemma card_tasks: "graph_ok g \<Longrightarrow> card (tasks_of g) = task_count g"
  using distinct_card [of "task_ids g"] task_ids_distinct by (simp add: task_ids_def task_count_def)

text \<open>A successful completion pays for the next round of the loop, in either pool.\<close>

lemma settle_weight:
  assumes g: "graph_ok g" and ok: "dispatch_ok g (add_mset t F) d" and s: "settle t r d = Some (x, d')"
  shows "jobs d' = jobs d" and "r = Ok () \<Longrightarrow>
    (task_count g - card (completed d')) * (task_count g + 4) + (task_count g + 4) = (task_count g - card (completed d)) * (task_count g + 4)"
    and "r \<noteq> Ok () \<Longrightarrow> completed d' = completed d"
proof -
  have t: "t \<in> tasks_of g - completed d" "completed d \<subseteq> tasks_of g" using ok by (auto simp: dispatch_ok_def)
  then have fin: "finite (completed d)" by (meson finite_imageI finite_set finite_subset)
  have "card (completed d) < task_count g"
    using psubset_card_mono [of "tasks_of g" "completed d"] t card_tasks [OF g] by auto
  then have n: "(task_count g - Suc (card (completed d))) * (task_count g + 4) + (task_count g + 4) =
      (task_count g - card (completed d)) * (task_count g + 4)" by (metis Suc_diff_Suc add.commute mult_Suc)
  show "jobs d' = jobs d" "r \<noteq> Ok () \<Longrightarrow> completed d' = completed d"
    using s by (auto simp: settle_def split: sum.splits if_splits)
  show "(task_count g - card (completed d')) * (task_count g + 4) + (task_count g + 4) = (task_count g - card (completed d)) * (task_count g + 4)"
    if "r = Ok ()"
    using s that n t(1) fin by (auto simp: settle_def split: if_splits)
qed

subsection \<open>The deterministic order\<close>

abbreviation job_effect :: "(TaskId \<times> 's job) list \<Rightarrow> TaskId \<Rightarrow> 's \<Rightarrow> 's" where
  "job_effect js t s \<equiv> fst (the (bt_get js t) s)"

text \<open>A run that fails stops at the first task that panics, after the effects of the tasks before it.\<close>

definition stops_at :: "(TaskId \<times> 's job) list \<Rightarrow> 's \<Rightarrow> TaskId list \<Rightarrow> 's \<Rightarrow> PoolError \<Rightarrow> bool" where
  "stops_at js s ts s' e \<longleftrightarrow>
     (\<exists>us t vs. ts = us @ t # vs \<and> e = TaskFailed t Panicked \<and> s' = fold (job_effect js) (us @ [t]) s \<and>
        isl (snd (the (bt_get js t) (fold (job_effect js) us s))))"

lemma bt_get_filter: "k \<noteq> t \<Longrightarrow> bt_get (filter (\<lambda>(k, _). k \<noteq> t) m) k = bt_get m k"
  by (induction m) (auto simp: bt_get_def)

lemma run_in_order_result:
  assumes "distinct ts" "\<forall>t \<in> set ts. bt_get js t \<noteq> None"
  shows "\<exists>s' r. run_in_order ts js done s = Some (s', r) \<and>
    (case r of
       Inr order \<Rightarrow> order = done @ ts \<and> s' = fold (job_effect js) ts s
     | Inl e \<Rightarrow> stops_at js s ts s' e)"
  using assms
proof (induction ts arbitrary: js "done" s)
  case (Cons t ts)
  then obtain j where j: "bt_get js t = Some j" by auto
  let ?js = "filter (\<lambda>(k, _). k \<noteq> t) js"
  have get: "bt_get ?js k = bt_get js k" if "k \<in> set ts" for k
    using that Cons.prems(1) by (intro bt_get_filter) auto
  have eff: "fold (job_effect ?js) us s = fold (job_effect js) us s" if "set us \<subseteq> set ts" for us s
    using that get by (intro fold_cong) auto
  obtain s1 o1 where js: "j s = (s1, o1)" by (cases "j s")
  show ?case
  proof (cases o1)
    case (Inl f)
    have "run_in_order (t # ts) js done s = Some (s1, Err (TaskFailed t Panicked))" using j js Inl by simp
    moreover have "stops_at js s (t # ts) s1 (TaskFailed t Panicked)" unfolding stops_at_def
      by (rule exI [of _ "[]"], rule exI [of _ t], rule exI [of _ ts]) (use j js Inl in simp)
    ultimately show ?thesis by simp
  next
    case (Inr u)
    obtain s' r where IH: "run_in_order ts ?js (done @ [t]) s1 = Some (s', r)"
      "case r of Inr order \<Rightarrow> order = (done @ [t]) @ ts \<and> s' = fold (job_effect ?js) ts s1
       | Inl e \<Rightarrow> stops_at ?js s1 ts s' e"
      using Cons.IH [of ?js "done @ [t]" s1] Cons.prems get by auto
    have run: "run_in_order (t # ts) js done s = Some (s', r)" using j js Inr IH(1) by simp
    have s1: "job_effect js t s = s1" using j js by simp
    show ?thesis
    proof (cases r)
      case (Inr order)
      then show ?thesis using run IH(2) s1 eff [of ts] by simp
    next
      case (Inl e)
      with IH(2) have "stops_at ?js s1 ts s' e" by simp
      then obtain us u vs where u: "ts = us @ u # vs" "e = TaskFailed u Panicked" "s' = fold (job_effect ?js) (us @ [u]) s1"
        "isl (snd (the (bt_get ?js u) (fold (job_effect ?js) us s1)))"
        unfolding stops_at_def by (elim exE conjE) (rule that)
      have "s' = fold (job_effect js) ((t # us) @ [u]) s" unfolding u(3) using eff [of "us @ [u]" s1] u(1) s1 by (auto simp del: fold_append)
      moreover have "isl (snd (the (bt_get js u) (fold (job_effect js) (t # us) s)))"
      proof -
        have "set us \<subseteq> set ts" "u \<in> set ts" using u(1) by auto
        then show ?thesis using u(4) eff [of us s1] get [of u] s1 by simp
      qed
      ultimately have "stops_at js s (t # ts) s' e" unfolding stops_at_def
        by (intro exI [of _ "t # us"] exI [of _ u] exI [of _ vs]) (simp add: u(1,2))
      then show ?thesis using run Inl by simp
    qed
  qed
qed simp

lemma run_deterministic_result:
  assumes "graph_ok g" "acyclic (edges_rel g)" "map fst js = task_ids g"
  shows "\<exists>order s' r. topological_order g = Some (Ok order) \<and> run_deterministic g js s = Some (s', r) \<and>
    (case r of
       Inr rep \<Rightarrow> report_order rep = order \<and> report_workers rep = 1 \<and> s' = fold (job_effect js) order s
     | Inl e \<Rightarrow> stops_at js s order s' e)"
proof -
  obtain order where order: "topological_order g = Some (Ok order)" "distinct order" "set order = tasks_of g"
  proof -
    obtain r where r: "topological_order g = Some r" "(\<exists>order. r = Ok order) \<longleftrightarrow> acyclic (edges_rel g)"
      "case r of Inr order \<Rightarrow> distinct order \<and> set order = tasks_of g \<and>
         (\<forall>i < length order. deps g (order ! i) \<subseteq> set (take i order)) | Inl _ \<Rightarrow> True"
      using topological_order_cases [OF assms(1)] by (elim exE conjE) (rule that, auto split: sum.splits)
    then obtain order where "r = Ok order" using assms(2) by blast
    with r show ?thesis by (intro that [of order]) simp_all
  qed
  have "fst ` set js = tasks_of g" using arg_cong [OF assms(3), of set] by (simp add: task_ids_def)
  then have "\<forall>t \<in> set order. bt_get js t \<noteq> None" using order(3) by (simp add: bt_get_None)
  from run_in_order_result [OF order(2) this, of "[]" s] obtain s' r where run: "run_in_order order js [] s = Some (s', r)"
    "case r of Inr done \<Rightarrow> done = [] @ order \<and> s' = fold (job_effect js) order s | Inl e \<Rightarrow> stops_at js s order s' e"
    by auto
  have "check_job_set g js = Ok ()" using assms(3) by (simp add: check_job_set_Ok)
  then show ?thesis using order(1) run by (cases r) (simp_all add: run_deterministic_def)
qed

text \<open>
  The deterministic scheduler runs the jobs one after the other in the topological order, on the state the
  previous ones left, and stops at the first panic.
\<close>

theorem run_deterministic_sequential:
  assumes "graph_ok g" "acyclic (edges_rel g)" "map fst js = task_ids g"
  shows "\<exists>order s' r. topological_order g = Some (Ok order) \<and> run_deterministic g js s = Some (s', r) \<and>
    (case r of
       Inr rep \<Rightarrow> report_order rep = order \<and> report_workers rep = 1 \<and> s' = fold (job_effect js) order s
     | Inl e \<Rightarrow> stops_at js s order s' e)"
  by (rule run_deterministic_result [OF assms])

text \<open>Each task of the frame graph appends its number to a log.\<close>

definition log_jobs :: "(TaskId \<times> TaskId list job) list" where
  "log_jobs = [(1, \<lambda>l. (l @ [1], Ok ())), (2, \<lambda>l. (l @ [2], Ok ()))]"

lemma frame_graph_acyclic: "acyclic (edges_rel frame_graph)"
  using topological_order_cases [OF frame_graph_ok] frame_graph_order by auto

lemma run_deterministic_sequential_witness:
  "\<exists>s' r. run_deterministic frame_graph log_jobs [] = Some (s', r) \<and> (isl r \<or> s' = [1, 2])"
proof -
  have "map fst log_jobs = task_ids frame_graph" by code_simp
  from run_deterministic_sequential [OF frame_graph_ok frame_graph_acyclic this, of "[]"]
  obtain order s' r where "topological_order frame_graph = Some (Ok order)"
    and run: "run_deterministic frame_graph log_jobs [] = Some (s', r)"
    and res: "case r of Inr rep \<Rightarrow> report_order rep = order \<and> report_workers rep = 1 \<and> s' = fold (job_effect log_jobs) order []
      | Inl e \<Rightarrow> stops_at log_jobs [] order s' e"
    by (elim exE conjE) (rule that)
  then have "order = [1, 2]" using frame_graph_order by simp
  then have "isl r \<or> s' = [1, 2]" using res by (cases r) (simp_all add: log_jobs_def bt_get_def)
  with run show ?thesis by auto
qed

end
