(* ===== verification/Worker_Pool.thy ===== *)
theory Worker_Pool
  imports Dispatch
begin

text \<open>
  The crate \<open>jadren-concurrency\<close>, third part: the fixed worker pool as a state machine of the calling thread, the
  worker threads and the two channels between them. Any interleaving of the threads is a run, and a job may end
  normally or, for the tasks in a given set, by a panic.
\<close>

subsection \<open>State\<close>

datatype 'j WorkMessage = Run TaskId 'j | Shutdown

datatype 'j Worker = Idle | Busy TaskId 'j | Stopped

text \<open>Where the calling thread is in \<open>execute\<close>; \<open>Aborted\<close> is a failed \<open>expect\<close> or an underflow.\<close>

datatype MainPc =
    Query
  | Dispatching "TaskId list"
  | Checking
  | Receiving
  | SendShutdown nat ExecutionResult
  | Joining ExecutionResult
  | Returned ExecutionResult
  | Aborted

record 'j Pool =
  main_pc :: MainPc
  dispatch :: "'j Dispatch"
  work :: "'j WorkMessage list"
  sender_open :: bool
  completions :: "(TaskId \<times> Outcome) list"
  workers :: "'j Worker list"

definition pool_start :: "DependencyGraph \<Rightarrow> nat \<Rightarrow> (TaskId \<times> 'j) list \<Rightarrow> (PoolError, 'j Pool) result" where
  "pool_start g n js =
     result_bind (check_job_set g js) (\<lambda>_.
       Ok \<lparr>main_pc = Query, dispatch = dispatch_new js, work = [], sender_open = True, completions = [],
          workers = replicate n Idle\<rparr>)"

subsection \<open>Steps\<close>

text \<open>The receiver of the work channel, and the senders of the completion channel, are gone when every worker has stopped.\<close>

definition all_stopped :: "'j Pool \<Rightarrow> bool" where
  "all_stopped s = list_all (\<lambda>w. w = Stopped) (workers s)"

definition dispatch_step :: "nat \<Rightarrow> TaskId \<Rightarrow> TaskId list \<Rightarrow> 'j Pool \<Rightarrow> 'j Pool" where
  "dispatch_step n t ts s =
     (if n \<le> running (dispatch s) then s\<lparr>main_pc := Checking\<rparr>
      else if t \<in> submitted (dispatch s) then s\<lparr>main_pc := Dispatching ts\<rparr>
      else case remove_job t (dispatch s) of
          None \<Rightarrow> s\<lparr>main_pc := Aborted\<rparr>
        | Some (j, d) \<Rightarrow>
            if all_stopped s then s\<lparr>main_pc := SendShutdown n (Err WorkerChannelClosed), dispatch := d\<rparr>
            else s\<lparr>main_pc := Dispatching ts, dispatch := submit t d, work := work s @ [Run t j]\<rparr>)"

definition receive_step :: "nat \<Rightarrow> 'j Pool \<Rightarrow> 'j Pool option" where
  "receive_step n s =
     (case completions s of
        [] \<Rightarrow> if all_stopped s then Some (s\<lparr>main_pc := SendShutdown n (Err WorkerChannelClosed)\<rparr>) else None
      | (t, r) # cs \<Rightarrow> Some
          (case settle t r (dispatch s) of
             None \<Rightarrow> s\<lparr>main_pc := Aborted\<rparr>
           | Some (Inl e, d) \<Rightarrow> s\<lparr>main_pc := SendShutdown n (Err e), dispatch := d, completions := cs\<rparr>
           | Some (Inr _, d) \<Rightarrow> s\<lparr>main_pc := Query, dispatch := d, completions := cs\<rparr>))"

text \<open>A step of the calling thread; \<open>None\<close> if it is blocked or done.\<close>

definition main_step :: "DependencyGraph \<Rightarrow> nat \<Rightarrow> 'j Pool \<Rightarrow> 'j Pool option" where
  "main_step g n s =
     (case main_pc s of
        Query \<Rightarrow> Some (s\<lparr>main_pc := Dispatching (ready_tasks g (completed (dispatch s)))\<rparr>)
      | Dispatching [] \<Rightarrow> Some (s\<lparr>main_pc := Checking\<rparr>)
      | Dispatching (t # ts) \<Rightarrow> Some (dispatch_step n t ts s)
      | Checking \<Rightarrow> Some
          (case loop_exit g n (dispatch s) of
             Some r \<Rightarrow> s\<lparr>main_pc := SendShutdown n r\<rparr>
           | None \<Rightarrow> s\<lparr>main_pc := Receiving\<rparr>)
      | Receiving \<Rightarrow> receive_step n s
      | SendShutdown (Suc k) r \<Rightarrow>
          Some (s\<lparr>main_pc := SendShutdown k r, work := (if all_stopped s then work s else work s @ [Shutdown])\<rparr>)
      | SendShutdown 0 r \<Rightarrow> Some (s\<lparr>main_pc := Joining r, sender_open := False\<rparr>)
      | Joining r \<Rightarrow>
          if all_stopped s
          then Some (s\<lparr>main_pc := Returned (result_bind (join_workers (map (\<lambda>_. False) (workers s))) (\<lambda>_. r))\<rparr>)
          else None
      | Returned r \<Rightarrow> None
      | Aborted \<Rightarrow> None)"

text \<open>
  A step of worker \<open>i\<close>: take the next message, or finish the job it runs with the given outcome. The lock around
  the receiver makes taking a message atomic; jobs run without it, so it is never poisoned.
\<close>

definition worker_step :: "nat \<Rightarrow> Outcome \<Rightarrow> 'j Pool \<Rightarrow> 'j Pool option" where
  "worker_step i r s =
     (case workers s ! i of
        Idle \<Rightarrow>
          (case work s of
             [] \<Rightarrow> if sender_open s then None else Some (s\<lparr>workers := (workers s)[i := Stopped]\<rparr>)
           | Run t j # ms \<Rightarrow> Some (s\<lparr>workers := (workers s)[i := Busy t j], work := ms\<rparr>)
           | Shutdown # ms \<Rightarrow> Some (s\<lparr>workers := (workers s)[i := Stopped], work := ms\<rparr>))
      | Busy t j \<Rightarrow> Some (s\<lparr>workers := (workers s)[i := Idle], completions := completions s @ [(t, r)]\<rparr>)
      | Stopped \<Rightarrow> None)"

inductive pool_step :: "DependencyGraph \<Rightarrow> nat \<Rightarrow> TaskId set \<Rightarrow> 'j Pool \<Rightarrow> 'j Pool \<Rightarrow> bool" for g n may_panic where
  main: "main_step g n s = Some s' \<Longrightarrow> pool_step g n may_panic s s'"
| worker: "i < length (workers s) \<Longrightarrow> worker_step i (Ok ()) s = Some s' \<Longrightarrow> pool_step g n may_panic s s'"
| panic: "i < length (workers s) \<Longrightarrow> workers s ! i = Busy t j \<Longrightarrow> t \<in> may_panic \<Longrightarrow>
    worker_step i (Err Panicked) s = Some s' \<Longrightarrow> pool_step g n may_panic s s'"

abbreviation pool_run :: "DependencyGraph \<Rightarrow> nat \<Rightarrow> TaskId set \<Rightarrow> 'j Pool \<Rightarrow> 'j Pool \<Rightarrow> bool" where
  "pool_run g n may_panic \<equiv> (pool_step g n may_panic)\<^sup>*\<^sup>*"

subsection \<open>Tasks in flight\<close>

fun message_tasks :: "'j WorkMessage \<Rightarrow> TaskId multiset" where
  "message_tasks (Run t j) = {#t#}"
| "message_tasks Shutdown = {#}"

fun worker_tasks :: "'j Worker \<Rightarrow> TaskId multiset" where
  "worker_tasks (Busy t j) = {#t#}"
| "worker_tasks w = {#}"

text \<open>A task handed out is in the work channel, at a worker or in the completion channel.\<close>

definition in_flight :: "'j Pool \<Rightarrow> TaskId multiset" where
  "in_flight s =
     sum_list (map message_tasks (work s)) + sum_list (map worker_tasks (workers s)) + mset (map fst (completions s))"

definition result_ok :: "DependencyGraph \<Rightarrow> nat \<Rightarrow> TaskId set \<Rightarrow> ExecutionResult \<Rightarrow> bool" where
  "result_ok g n may_panic r \<longleftrightarrow>
     (case r of
        Inr rep \<Rightarrow> report_workers rep = n \<and> set (report_order rep) = tasks_of g \<and> respects_edges g (report_order rep)
      | Inl e \<Rightarrow> \<exists>t \<in> tasks_of g \<inter> may_panic. e = TaskFailed t Panicked)"

definition pool_live :: "'j Pool \<Rightarrow> bool" where
  "pool_live s \<longleftrightarrow>
     dispatch_live (in_flight s) (dispatch s) \<and> Shutdown \<notin> set (work s) \<and> Stopped \<notin> set (workers s) \<and> sender_open s"

abbreviation ready_now :: "DependencyGraph \<Rightarrow> 'j Pool \<Rightarrow> TaskId set" where
  "ready_now g s \<equiv> set (ready_tasks g (completed (dispatch s)))"

fun pc_ok :: "DependencyGraph \<Rightarrow> nat \<Rightarrow> TaskId set \<Rightarrow> MainPc \<Rightarrow> 'j Pool \<Rightarrow> bool" where
  "pc_ok g n P Query s = pool_live s"
| "pc_ok g n P (Dispatching ts) s =
     (pool_live s \<and> length ts \<le> task_count g \<and> set ts \<subseteq> ready_now g s \<and> ready_now g s \<subseteq> set ts \<union> submitted (dispatch s))"
| "pc_ok g n P Checking s = (pool_live s \<and> (n \<le> running (dispatch s) \<or> ready_now g s \<subseteq> submitted (dispatch s)))"
| "pc_ok g n P Receiving s = (pool_live s \<and> 0 < running (dispatch s))"
| "pc_ok g n P (SendShutdown k r) s = (k \<le> n \<and> result_ok g n P r)"
| "pc_ok g n P (Joining r) s = (\<not> sender_open s \<and> result_ok g n P r)"
| "pc_ok g n P (Returned r) s = (all_stopped s \<and> result_ok g n P r)"
| "pc_ok g n P Aborted s = False"

definition pool_ok :: "DependencyGraph \<Rightarrow> nat \<Rightarrow> TaskId set \<Rightarrow> 'j Pool \<Rightarrow> bool" where
  "pool_ok g n P s \<longleftrightarrow>
     dispatch_ok g (in_flight s) (dispatch s) \<and> size (in_flight s) \<le> n \<and> length (workers s) = n \<and>
     (\<forall>(t, r) \<in> set (completions s). r \<noteq> Ok () \<longrightarrow> t \<in> P) \<and> pc_ok g n P (main_pc s) s"

lemma sum_list_update:
  fixes f :: "'a \<Rightarrow> 'b::cancel_comm_monoid_add"
  shows "i < length xs \<Longrightarrow> sum_list (map f (xs[i := x])) + f (xs ! i) = sum_list (map f xs) + f x"
proof (induction xs arbitrary: i)
  case (Cons a xs)
  then show ?case by (cases i) (auto simp: ac_simps)
qed simp

lemma in_flight_step:
  assumes "i < length (workers s)" "worker_step i r s = Some s'"
  shows "in_flight s' = in_flight s"
  using assms sum_list_update [OF assms(1), of worker_tasks Stopped]
    sum_list_update [OF assms(1), of worker_tasks Idle]
    sum_list_update [OF assms(1), of worker_tasks "Busy t j" for t j]
  by (auto simp: worker_step_def in_flight_def split: Worker.splits WorkMessage.splits list.splits if_splits)

lemma worker_step_frame:
  assumes "i < length (workers s)" "worker_step i r s = Some s'"
  shows "dispatch s' = dispatch s \<and> main_pc s' = main_pc s \<and> sender_open s' = sender_open s \<and>
    length (workers s') = length (workers s) \<and> workers s ! i \<noteq> Stopped \<and>
    (completions s' = completions s \<or> (\<exists>t j. workers s ! i = Busy t j \<and> completions s' = completions s @ [(t, r)]))"
  using assms by (auto simp: worker_step_def split: Worker.splits WorkMessage.splits list.splits if_splits)

lemma worker_step_live:
  assumes "i < length (workers s)" "worker_step i r s = Some s'" "pool_live s"
  shows "pool_live s'"
proof -
  have "dispatch_live (in_flight s') (dispatch s')"
    using in_flight_step [OF assms(1,2)] worker_step_frame [OF assms(1,2)] assms(3) by (simp add: pool_live_def)
  moreover have "Shutdown \<notin> set (work s') \<and> Stopped \<notin> set (workers s') \<and> sender_open s'"
    using assms by (auto simp: pool_live_def worker_step_def split: Worker.splits WorkMessage.splits list.splits if_splits
        dest!: in_set_takeD set_update_subset_insert [THEN subsetD])
  ultimately show ?thesis by (simp add: pool_live_def)
qed

lemma worker_step_ok:
  assumes "pool_ok g n P s" "i < length (workers s)" "worker_step i r s = Some s'"
    and "\<And>t j. workers s ! i = Busy t j \<Longrightarrow> r \<noteq> Ok () \<Longrightarrow> t \<in> P"
  shows "pool_ok g n P s'"
proof -
  note fr = worker_step_frame [OF assms(2,3)] in_flight_step [OF assms(2,3)]
  have "\<not> all_stopped s" using fr assms(2) by (auto simp: all_stopped_def list_all_length)
  then have "pc_ok g n P (main_pc s') s'"
    using assms(1) worker_step_live [OF assms(2,3)] fr by (cases "main_pc s") (simp_all add: pool_ok_def)
  moreover have "\<forall>(t, r) \<in> set (completions s'). r \<noteq> Ok () \<longrightarrow> t \<in> P"
    using fr assms(1,4) by (fastforce simp: pool_ok_def)
  ultimately show ?thesis using assms(1) fr by (simp add: pool_ok_def)
qed

text \<open>What the calling thread relies on: a well-formed acyclic graph and at least one worker.\<close>

definition pool_input :: "DependencyGraph \<Rightarrow> nat \<Rightarrow> bool" where
  "pool_input g n \<longleftrightarrow> graph_ok g \<and> acyclic (edges_rel g) \<and> 0 < n"

lemma not_all_stopped: "length (workers s) = n \<Longrightarrow> 0 < n \<Longrightarrow> Stopped \<notin> set (workers s) \<Longrightarrow> \<not> all_stopped s"
  by (cases "workers s") (auto simp: all_stopped_def)

lemma remove_job_frame:
  "remove_job t d = Some (j, d') \<Longrightarrow> completed d' = completed d \<and> submitted d' = submitted d \<and> running d' = running d"
  by (auto simp: remove_job_def)

lemma submit_frame:
  "completed (submit t d) = completed d" "submitted (submit t d) = insert t (submitted d)"
  by (simp_all add: submit_def)

lemma dispatch_step_ok:
  assumes "pool_ok g n P s" "pool_input g n" "main_pc s = Dispatching (t # ts)"
  shows "pool_ok g n P (dispatch_step n t ts s)"
proof -
  have ok: "dispatch_ok g (in_flight s) (dispatch s)" "size (in_flight s) \<le> n" "length (workers s) = n"
    and live: "pool_live s" and ts: "length (t # ts) \<le> task_count g" "set (t # ts) \<subseteq> ready_now g s"
      "ready_now g s \<subseteq> set (t # ts) \<union> submitted (dispatch s)"
    using assms(1,3) by (simp_all add: pool_ok_def)
  note flight = in_flight_def dispatch_step_def pool_live_def
  consider "n \<le> running (dispatch s)" | "\<not> n \<le> running (dispatch s)" "t \<in> submitted (dispatch s)"
    | "\<not> n \<le> running (dispatch s)" "t \<notin> submitted (dispatch s)" by blast
  then show ?thesis
  proof cases
    case 1
    then show ?thesis using assms(1) live by (simp add: pool_ok_def flight)
  next
    case 2
    then show ?thesis using assms(1) live ts by (auto simp: pool_ok_def flight)
  next
    case 3
    have t: "t \<in> tasks_of g" using ts(2) by (simp add: ready_iff)
    obtain j d where jd: "remove_job t (dispatch s) = Some (j, d)" using remove_job_Some [OF ok(1) t 3(2)] by blast
    let ?s = "s\<lparr>main_pc := Dispatching ts, dispatch := submit t d, work := work s @ [Run t j]\<rparr>"
    have "dispatch_step n t ts s = ?s"
      using 3 jd live not_all_stopped [OF ok(3)] assms(2) by (simp add: dispatch_step_def pool_live_def pool_input_def)
    moreover have fl: "in_flight ?s = add_mset t (in_flight s)" by (simp add: in_flight_def)
    have dis: "dispatch_ok g (in_flight ?s) (submit t d) \<and> dispatch_live (in_flight ?s) (submit t d)"
      unfolding fl using submit_ok [OF ok(1) _ jd _ 3(2)] live ts(2) by (simp add: pool_live_def)
    moreover have "size (in_flight ?s) \<le> n" using 3(1) live unfolding fl by (simp add: pool_live_def dispatch_live_def)
    moreover have "pc_ok g n P (Dispatching ts) ?s"
      using dis live ts remove_job_frame [OF jd] by (auto simp: pool_live_def submit_frame)
    ultimately show ?thesis using assms(1) ok(3) by (simp add: pool_ok_def)
  qed
qed

lemma loop_exit_ok:
  assumes "pool_input g n" "dispatch_ok g F d" "dispatch_live F d"
    and "n \<le> running d \<or> set (ready_tasks g (completed d)) \<subseteq> submitted d" "loop_exit g n d = Some r"
  shows "result_ok g n P r"
proof -
  have sub: "completed d \<subseteq> tasks_of g" using assms(2) by (auto simp: dispatch_ok_def)
  have g: "graph_ok g" "acyclic (edges_rel g)" "0 < n" using assms(1) by (simp_all add: pool_input_def)
  show ?thesis
  proof (cases "card (completed d) = task_count g")
    case True
    then have "completed d = tasks_of g" using card_subset_eq [OF _ sub] card_tasks [OF g(1)] by simp
    then show ?thesis using True assms(2,5) by (auto simp: loop_exit_def result_ok_def dispatch_ok_def)
  next
    case False
    then have "running d = 0" using assms(5) by (simp add: loop_exit_def split: if_splits)
    then have "submitted d = completed d" "\<not> n \<le> running d" using assms(3) g(3) by (simp_all add: dispatch_live_def)
    then have "set (ready_tasks g (completed d)) \<subseteq> completed d" using assms(4) by blast
    then have "ready_tasks g (completed d) = []" using ready_iff [of _ g "completed d"] by (cases "ready_tasks g (completed d)") auto
    then have "completed d = tasks_of g" by (rule all_completed [OF g(1,2) sub])
    then show ?thesis using False card_tasks [OF g(1)] by simp
  qed
qed

lemma receive_step_ok:
  assumes "pool_ok g n P s" "pool_input g n" "main_pc s = Receiving" "receive_step n s = Some s'"
  shows "pool_ok g n P s'"
proof -
  have ok: "dispatch_ok g (in_flight s) (dispatch s)" "size (in_flight s) \<le> n" "length (workers s) = n"
    and cs: "\<forall>(t, r) \<in> set (completions s). r \<noteq> Ok () \<longrightarrow> t \<in> P" and live: "pool_live s"
    using assms(1,3) by (simp_all add: pool_ok_def)
  have "\<not> all_stopped s" using not_all_stopped [OF ok(3)] live assms(2) by (simp add: pool_live_def pool_input_def)
  then obtain t r rest where tr: "completions s = (t, r) # rest"
    using assms(4) by (auto simp: receive_step_def split: list.splits)
  let ?F = "in_flight (s\<lparr>completions := rest\<rparr>)"
  have fl: "in_flight s = add_mset t ?F" using tr by (simp add: in_flight_def)
  have F: "in_flight (s\<lparr>main_pc := m, dispatch := d, completions := rest\<rparr>) = ?F" for m d by (simp add: in_flight_def)
  obtain d where d: "settle t r (dispatch s) = Some (map_sum (TaskFailed t) id r, d)" "dispatch_ok g ?F d"
    "r = Ok () \<longrightarrow> dispatch_live ?F d" using settle_ok [of g t ?F "dispatch s" r] ok(1) live fl by (auto simp: pool_live_def)
  have size: "size ?F \<le> n" using ok(2) fl by simp
  have "t \<in> tasks_of g" using ok(1) fl by (auto simp: dispatch_ok_def)
  show ?thesis
  proof (cases r)
    case (Inl f)
    then have "t \<in> P" "f = Panicked" using cs tr by (auto intro: TaskFailure.exhaust)
    then have "result_ok g n P (Err (TaskFailed t f))"
      unfolding result_ok_def using \<open>t \<in> tasks_of g\<close> by (simp only: sum.case) blast
    then show ?thesis using assms(4) tr d size ok(3) cs Inl F by (auto simp: receive_step_def pool_ok_def)
  next
    case (Inr u)
    then show ?thesis
      using assms(4) tr d size ok(3) cs F live by (auto simp: receive_step_def pool_ok_def pool_live_def)
  qed
qed

lemma join_no_panic: "join_workers (map (\<lambda>_. False) ws) = Ok ()"
  by (induction ws) (auto simp: join_workers_def)

lemma main_step_ok:
  assumes "pool_ok g n P s" "pool_input g n" "main_step g n s = Some s'"
  shows "pool_ok g n P s'"
proof (cases "main_pc s")
  case Query
  have "length (ready_tasks g c) \<le> task_count g" for c
    unfolding ready_tasks_def task_count_def task_ids_def using length_filter_le [of _ "map fst (graph_tasks g)"] by simp
  with Query show ?thesis using assms(1,3) by (auto simp: main_step_def pool_ok_def pool_live_def in_flight_def)
next
  case (Dispatching ts)
  then show ?thesis
    using assms(1,3) dispatch_step_ok [OF assms(1,2)]
    by (cases ts) (auto simp: main_step_def pool_ok_def pool_live_def in_flight_def)
next
  case Checking
  then have c: "pool_live s" "n \<le> running (dispatch s) \<or> ready_now g s \<subseteq> submitted (dispatch s)"
    "dispatch_ok g (in_flight s) (dispatch s)" using assms(1) by (simp_all add: pool_ok_def)
  show ?thesis
  proof (cases "loop_exit g n (dispatch s)")
    case None
    then have "0 < running (dispatch s)" by (simp add: loop_exit_def split: if_splits)
    then show ?thesis using assms(1,3) Checking None by (auto simp: main_step_def pool_ok_def pool_live_def in_flight_def)
  next
    case (Some r)
    have "result_ok g n P r" using loop_exit_ok [OF assms(2) c(3) _ c(2) Some] c(1) by (simp add: pool_live_def)
    then show ?thesis using assms(1,3) Checking Some by (auto simp: main_step_def pool_ok_def in_flight_def)
  qed
next
  case Receiving
  then show ?thesis using receive_step_ok [OF assms(1,2)] assms(3) by (simp add: main_step_def)
next
  case (SendShutdown k r)
  then show ?thesis using assms(1,3) by (cases k) (auto simp: main_step_def pool_ok_def in_flight_def)
next
  case (Joining r)
  then show ?thesis using assms(1,3)
    by (auto simp: main_step_def pool_ok_def in_flight_def all_stopped_def join_no_panic split: if_splits)
qed (use assms in \<open>auto simp: main_step_def pool_ok_def\<close>)

lemma pool_step_ok: "pool_step g n P s s' \<Longrightarrow> pool_input g n \<Longrightarrow> pool_ok g n P s \<Longrightarrow> pool_ok g n P s'"
  by (induction rule: pool_step.induct) (auto intro: main_step_ok worker_step_ok)

lemma sum_list_replicate_0: "sum_list (replicate n (0 :: 'a::monoid_add)) = 0"
  by (induction n) simp_all

lemma pool_start_ok: "pool_start g n js = Ok s \<Longrightarrow> pool_ok g n P s"
  using dispatch_new_ok [of js g]
  by (auto simp: pool_start_def result_bind_eq_Ok check_job_set_Ok pool_ok_def in_flight_def pool_live_def
      sum_list_replicate_0)

lemma pool_run_ok: "pool_run g n P s s' \<Longrightarrow> pool_input g n \<Longrightarrow> pool_ok g n P s \<Longrightarrow> pool_ok g n P s'"
  by (induction rule: rtranclp_induct) (auto intro: pool_step_ok)

subsection \<open>Progress\<close>

text \<open>Steps left: every step takes something away, whichever thread makes it.\<close>

fun pc_weight :: "DependencyGraph \<Rightarrow> nat \<Rightarrow> MainPc \<Rightarrow> nat" where
  "pc_weight g n Query = 2 * n + task_count g + 6"
| "pc_weight g n (Dispatching ts) = 2 * n + length ts + 5"
| "pc_weight g n Checking = 2 * n + 4"
| "pc_weight g n Receiving = 2 * n + 3"
| "pc_weight g n (SendShutdown k r) = 2 * k + 2"
| "pc_weight g n (Joining r) = 1"
| "pc_weight g n _ = 0"

fun message_weight :: "'j WorkMessage \<Rightarrow> nat" where
  "message_weight (Run t j) = 3"
| "message_weight Shutdown = 1"

fun worker_weight :: "'j Worker \<Rightarrow> nat" where
  "worker_weight Idle = 1"
| "worker_weight (Busy t j) = 3"
| "worker_weight Stopped = 0"

definition pool_weight :: "DependencyGraph \<Rightarrow> nat \<Rightarrow> 'j Pool \<Rightarrow> nat" where
  "pool_weight g n s =
     (task_count g - card (completed (dispatch s))) * (task_count g + 4) + 4 * length (jobs (dispatch s)) +
     pc_weight g n (main_pc s) + sum_list (map message_weight (work s)) + sum_list (map worker_weight (workers s)) +
     length (completions s)"

lemma worker_step_weight:
  assumes "i < length (workers s)" "worker_step i r s = Some s'"
  shows "pool_weight g n s' < pool_weight g n s"
proof -
  have upd: "sum_list (map worker_weight ((workers s)[i := w])) =
      sum_list (map worker_weight (workers s)) + worker_weight w - worker_weight (workers s ! i)" for w
    using sum_list_update [OF assms(1), of worker_weight w] by simp
  have "worker_weight (workers s ! i) \<le> sum_list (map worker_weight (workers s))"
    using assms(1) by (intro member_le_sum_list) simp_all
  then show ?thesis
    using assms(2)
    by (auto simp: worker_step_def pool_weight_def upd split: Worker.splits WorkMessage.splits list.splits if_splits)
qed

lemma dispatch_step_weight:
  assumes "main_pc s = Dispatching (t # ts)"
  shows "pool_weight g n (dispatch_step n t ts s) < pool_weight g n s"
proof -
  have "length (jobs d) < length (jobs (dispatch s)) \<and> completed d = completed (dispatch s)"
    if "remove_job t (dispatch s) = Some (j, d)" for j d
  proof -
    have "t \<in> fst ` set (jobs (dispatch s))" "jobs d = filter (\<lambda>(k, _). k \<noteq> t) (jobs (dispatch s))"
      using that bt_get_None [of "jobs (dispatch s)" t] by (auto simp: remove_job_def)
    then show ?thesis using remove_job_frame [OF that]
      by (auto intro!: length_filter_less)
  qed
  then show ?thesis using assms
    by (auto simp: dispatch_step_def pool_weight_def submit_def split: option.splits)
qed

lemma receive_step_weight:
  assumes "pool_ok g n P s" "pool_input g n" "main_pc s = Receiving" "receive_step n s = Some s'"
  shows "pool_weight g n s' < pool_weight g n s"
proof (cases "completions s")
  case Nil
  then show ?thesis using assms(3,4) by (auto simp: receive_step_def pool_weight_def split: if_splits)
next
  case (Cons c rest)
  obtain t r where tr: "c = (t, r)" by (cases c)
  have fl: "in_flight s = add_mset t (in_flight (s\<lparr>completions := rest\<rparr>))" using Cons tr by (simp add: in_flight_def)
  have ok: "dispatch_ok g (add_mset t (in_flight (s\<lparr>completions := rest\<rparr>))) (dispatch s)" and g: "graph_ok g"
    using assms(1,2) fl by (simp_all add: pool_ok_def pool_input_def)
  show ?thesis
  proof (cases "settle t r (dispatch s)")
    case None
    then show ?thesis using assms(3,4) Cons tr by (auto simp: receive_step_def pool_weight_def)
  next
    case (Some xd)
    obtain x d where xd: "xd = (x, d)" by (cases xd)
    note w = settle_weight [OF g ok Some [unfolded xd]]
    have "x = map_sum (TaskFailed t) id r" using Some xd by (auto simp: settle_def split: sum.splits if_splits)
    then show ?thesis using assms(3,4) Cons tr Some xd w
      by (cases r) (auto simp: receive_step_def pool_weight_def)
  qed
qed

lemma main_step_weight:
  assumes "pool_ok g n P s" "pool_input g n" "main_step g n s = Some s'"
  shows "pool_weight g n s' < pool_weight g n s"
proof (cases "main_pc s")
  case Query
  have "length (ready_tasks g c) \<le> task_count g" for c
    unfolding ready_tasks_def task_count_def task_ids_def using length_filter_le [of _ "map fst (graph_tasks g)"] by simp
  then show ?thesis using Query assms(3) by (auto simp: main_step_def pool_weight_def less_Suc_eq_le)
next
  case (Dispatching ts)
  show ?thesis
  proof (cases ts)
    case Nil
    then show ?thesis using Dispatching assms(3) by (auto simp: main_step_def pool_weight_def)
  next
    case (Cons t ts')
    then have "s' = dispatch_step n t ts' s" using Dispatching assms(3) by (simp add: main_step_def)
    then show ?thesis using dispatch_step_weight Dispatching Cons by blast
  qed
next
  case Checking
  then show ?thesis using assms(3) by (auto simp: main_step_def pool_weight_def split: option.splits)
next
  case Receiving
  then show ?thesis using receive_step_weight [OF assms(1,2)] assms(3) by (simp add: main_step_def)
next
  case (SendShutdown k r)
  then show ?thesis using assms(3) by (cases k) (auto simp: main_step_def pool_weight_def)
next
  case (Joining r)
  then show ?thesis using assms(3) by (auto simp: main_step_def pool_weight_def split: if_splits)
qed (use assms in \<open>auto simp: main_step_def\<close>)

lemma pool_step_weight:
  "pool_step g n P s s' \<Longrightarrow> pool_input g n \<Longrightarrow> pool_ok g n P s \<Longrightarrow> pool_weight g n s' < pool_weight g n s"
  by (induction rule: pool_step.induct) (auto intro: main_step_weight worker_step_weight)

text \<open>No deadlock: unless the call has returned, some thread can make a step.\<close>

lemma busy_worker_step: "workers s ! i = Busy t j \<Longrightarrow> \<exists>s'. worker_step i r s = Some s'"
  by (simp add: worker_step_def)

lemma idle_worker_step:
  "workers s ! i = Idle \<Longrightarrow> work s \<noteq> [] \<or> \<not> sender_open s \<Longrightarrow> \<exists>s'. worker_step i r s = Some s'"
  by (cases "work s") (auto simp: worker_step_def split: WorkMessage.split)

lemma some_worker_step:
  assumes "i < length (workers s)" "(\<exists>t j. workers s ! i = Busy t j) \<or> (workers s ! i = Idle \<and> (work s \<noteq> [] \<or> \<not> sender_open s))"
  shows "\<exists>i s'. i < length (workers s) \<and> worker_step i (Ok ()) s = Some s'"
proof -
  have "\<exists>s'. worker_step i (Ok ()) s = Some s'"
    using assms(2) by (elim disjE exE conjE) (auto intro: busy_worker_step idle_worker_step)
  with assms(1) show ?thesis by auto
qed

lemma receiving_progress:
  assumes "pool_ok g n P s" "pool_input g n" "main_pc s = Receiving" "completions s = []"
  shows "\<exists>i s'. i < length (workers s) \<and> worker_step i (Ok ()) s = Some s'"
proof -
  have live: "pool_live s" "0 < running (dispatch s)" "length (workers s) = n" "0 < n"
    using assms by (simp_all add: pool_ok_def pool_input_def)
  show ?thesis
  proof (cases "\<exists>i < length (workers s). \<exists>t j. workers s ! i = Busy t j")
    case True
    then obtain i where "i < length (workers s)" "\<exists>t j. workers s ! i = Busy t j" by auto
    then show ?thesis by (intro some_worker_step) auto
  next
    case False
    then have idle: "workers s ! i = Idle" if "i < length (workers s)" for i
      using live(1) that by (cases "workers s ! i") (auto simp: pool_live_def in_set_conv_nth)
    then have "map worker_tasks (workers s) = replicate n {#}"
      using live(3) by (intro nth_equalityI) simp_all
    then have "sum_list (map worker_tasks (workers s)) = {#}" by (simp add: sum_list_replicate_0)
    moreover have "in_flight s \<noteq> {#}" using live(1,2) by (auto simp: pool_live_def dispatch_live_def)
    ultimately have "work s \<noteq> []" using assms(4) by (auto simp: in_flight_def)
    moreover have "0 < length (workers s)" using live(3,4) by simp
    ultimately show ?thesis using idle [of 0] by (intro some_worker_step [of 0]) simp_all
  qed
qed

lemma joining_progress:
  assumes "main_pc s = Joining r" "\<not> sender_open s" "\<not> all_stopped s"
  shows "\<exists>i s'. i < length (workers s) \<and> worker_step i (Ok ()) s = Some s'"
proof -
  obtain i where i: "i < length (workers s)" "workers s ! i \<noteq> Stopped"
    using assms(3) by (auto simp: all_stopped_def list_all_length)
  then show ?thesis using assms(2) by (intro some_worker_step [OF i(1)]) (cases "workers s ! i"; simp)
qed

lemma pool_progress:
  assumes "pool_ok g n P s" "pool_input g n" "\<And>r. main_pc s \<noteq> Returned r"
  shows "\<exists>s'. pool_step g n P s s'"
proof -
  have "(\<exists>s'. main_step g n s = Some s') \<or> (\<exists>i s'. i < length (workers s) \<and> worker_step i (Ok ()) s = Some s')"
  proof (cases "main_pc s")
    case (Dispatching ts)
    then show ?thesis by (cases ts) (simp_all add: main_step_def)
  next
    case Receiving
    then show ?thesis using receiving_progress [OF assms(1,2)] 
      by (cases "completions s") (auto simp: main_step_def receive_step_def)
  next
    case (SendShutdown k r)
    then show ?thesis by (cases k) (simp_all add: main_step_def)
  next
    case (Joining r)
    then show ?thesis using joining_progress [OF Joining] assms(1) by (auto simp: main_step_def pool_ok_def)
  qed (use assms in \<open>auto simp: main_step_def pool_ok_def\<close>)
  then show ?thesis using pool_step.main pool_step.worker by blast
qed

lemma pool_steps_bound:
  assumes "(pool_step g n P ^^ k) s s'" "pool_input g n" "pool_ok g n P s"
  shows "k + pool_weight g n s' \<le> pool_weight g n s \<and> pool_ok g n P s'"
  using assms(1)
proof (induction k arbitrary: s')
  case (Suc k)
  then obtain u where u: "(pool_step g n P ^^ k) s u" "pool_step g n P u s'" by auto
  from Suc.IH [OF u(1)] have IH: "k + pool_weight g n u \<le> pool_weight g n s" "pool_ok g n P u" by simp_all
  show ?case using pool_step_weight [OF u(2) assms(2) IH(2)] pool_step_ok [OF u(2) assms(2) IH(2)] IH(1) by simp
qed (use assms in simp)

subsection \<open>Runs by a schedule\<close>

text \<open>\<open>None\<close> lets the calling thread step, \<open>Some i\<close> worker \<open>i\<close>.\<close>

fun drive :: "DependencyGraph \<Rightarrow> nat \<Rightarrow> nat option list \<Rightarrow> 'j Pool \<Rightarrow> 'j Pool option" where
  "drive g n [] s = Some s"
| "drive g n (None # as) s = Option.bind (main_step g n s) (drive g n as)"
| "drive g n (Some i # as) s =
     (if i < length (workers s) then Option.bind (worker_step i (Ok ()) s) (drive g n as) else None)"

lemma drive_steps: "drive g n as s = Some s' \<Longrightarrow> (pool_step g n P ^^ length as) s s'"
proof (induction g n as s rule: drive.induct)
  case (2 g n as s)
  then obtain u where "main_step g n s = Some u" "(pool_step g n P ^^ length as) u s'" by (auto simp: bind_eq_Some_conv)
  then have "pool_step g n P s u" by (intro pool_step.main)
  then have "(pool_step g n P ^^ Suc (length as)) s s'" using \<open>(pool_step g n P ^^ length as) u s'\<close> by (rule relpowp_Suc_I2)
  then show ?case by simp
next
  case (3 g n i as s)
  then obtain u where "i < length (workers s)" "worker_step i (Ok ()) s = Some u" "(pool_step g n P ^^ length as) u s'"
    by (auto simp: bind_eq_Some_conv split: if_splits)
  then have "pool_step g n P s u" by (intro pool_step.worker)
  then have "(pool_step g n P ^^ Suc (length as)) s s'" using \<open>(pool_step g n P ^^ length as) u s'\<close> by (rule relpowp_Suc_I2)
  then show ?case by simp
qed simp

lemma drive_run: "drive g n as s = Some s' \<Longrightarrow> pool_run g n P s s'"
  by (rule relpowp_imp_rtranclp [OF drive_steps])

subsection \<open>Properties\<close>

lemma pool_start_run_ok:
  "pool_start g n js = Ok s0 \<Longrightarrow> pool_input g n \<Longrightarrow> pool_run g n P s0 s \<Longrightarrow> pool_ok g n P s"
  using pool_run_ok pool_start_ok by blast

lemma built_pool_input: "builder_ok b \<Longrightarrow> build_graph b = Some (Ok g) \<Longrightarrow> 0 < n \<Longrightarrow> pool_input g n"
  using build_graph_result [of b] by (auto simp: pool_input_def)

lemma sum_list_member: "x \<in> set xs \<Longrightarrow> f x \<subseteq># sum_list (map f xs)"
  by (induction xs) (auto intro: subset_mset.add_increasing subset_mset.add_increasing2)

lemma two_busy:
  assumes "i < length (workers s)" "k < length (workers s)" "i \<noteq> k" "workers s ! i = Busy t j" "workers s ! k = Busy u l"
  shows "{#t, u#} \<subseteq># in_flight s"
proof -
  let ?ws = "(workers s)[i := Stopped]"
  have "Busy u l \<in> set ?ws" using assms by (metis length_list_update nth_list_update_neq nth_mem)
  then have "{#u#} \<subseteq># sum_list (map worker_tasks ?ws)" using sum_list_member [of _ ?ws worker_tasks] by fastforce
  moreover have "sum_list (map worker_tasks (workers s)) = add_mset t (sum_list (map worker_tasks ?ws))"
    using sum_list_update [OF assms(1), of worker_tasks Stopped] assms(4) by simp
  ultimately have "{#t, u#} \<subseteq># sum_list (map worker_tasks (workers s))" by simp
  then show ?thesis unfolding in_flight_def
    by (intro subset_mset.add_increasing2 subset_mset.add_increasing) simp_all
qed

text \<open>
  C30. Two jobs that run at the same time belong to different tasks without a conflicting access, whatever the
  interleaving; the dependencies of a running task are completed.
\<close>

theorem pool_race_free:
  assumes "builder_ok b" "build_graph b = Some (Ok g)" "0 < n" "pool_start g n js = Ok s0" "pool_run g n P s0 s"
    and "i < length (workers s)" "k < length (workers s)" "i \<noteq> k" "workers s ! i = Busy t j" "workers s ! k = Busy u l"
  shows "t \<noteq> u \<and> deps g t \<subseteq> completed (dispatch s) \<and>
    (\<forall>x y. (t, x) \<in> set (graph_tasks g) \<longrightarrow> (u, y) \<in> set (graph_tasks g) \<longrightarrow> \<not> accesses_conflict (accesses x) (accesses y))"
proof -
  have ok: "dispatch_ok g (in_flight s) (dispatch s)"
    using pool_start_run_ok [OF assms(4) built_pool_input [OF assms(1-3)] assms(5)] by (simp add: pool_ok_def)
  have sub: "{#t, u#} \<subseteq># in_flight s" by (rule two_busy [OF assms(6-10)])
  have in_f: "t \<in># in_flight s" "u \<in># in_flight s" using mset_subset_eqD [OF sub] by simp_all
  have "count {#t, u#} t \<le> count (in_flight s) t" using sub by (rule mset_subset_eq_count)
  moreover have "count (in_flight s) t \<le> 1" using ok by (simp add: dispatch_ok_def)
  ultimately have ne: "t \<noteq> u" by auto
  have no_dep: "a \<notin> deps g c" if "a \<in># in_flight s" "c \<in># in_flight s" for a c
    using that ok unfolding dispatch_ok_def by blast
  have no_conflict: "\<not> accesses_conflict (accesses x) (accesses y)"
    if "a < c" "(a, x) \<in> set (graph_tasks g)" "(c, y) \<in> set (graph_tasks g)" "a \<in># in_flight s" "c \<in># in_flight s" for a c x y
    using build_graph_result [OF assms(1)] assms(2) that no_dep by fastforce
  have "\<not> accesses_conflict (accesses x) (accesses y)" if "(t, x) \<in> set (graph_tasks g)" "(u, y) \<in> set (graph_tasks g)" for x y
  proof (cases "t < u")
    case True
    then show ?thesis using no_conflict that in_f by blast
  next
    case False
    then have "u < t" using ne by simp
    then show ?thesis using no_conflict [OF _ that(2,1) in_f(2,1)] accesses_conflict_sym by blast
  qed
  then show ?thesis using ne in_f ok by (auto simp: dispatch_ok_def)
qed


text \<open>
  C32. What the pool returns: either a report whose completion order lists every task once and after its
  dependencies, or the failure of a task whose job panicked; the other errors cannot happen.
\<close>

theorem pool_result:
  assumes "graph_ok g" "acyclic (edges_rel g)" "0 < n" "pool_start g n js = Ok s0" "pool_run g n P s0 s" "main_pc s = Returned r"
  shows "case r of
      Inr rep \<Rightarrow> report_workers rep = n \<and> distinct (report_order rep) \<and> set (report_order rep) = tasks_of g \<and>
        (\<forall>i < length (report_order rep). deps g (report_order rep ! i) \<subseteq> set (take i (report_order rep)))
    | Inl e \<Rightarrow> \<exists>t \<in> tasks_of g \<inter> P. e = TaskFailed t Panicked"
proof -
  have "pool_input g n" using assms(1-3) by (simp add: pool_input_def)
  from pool_start_run_ok [OF assms(4) this assms(5)] have "result_ok g n P r" using assms(6) by (simp add: pool_ok_def)
  then show ?thesis by (simp add: result_ok_def respects_edges_def split: sum.splits)
qed

text \<open>
  C33. Although the channels are unbounded, never more than one task per worker is handed out and not yet settled.
\<close>

theorem pool_bounded:
  assumes "graph_ok g" "acyclic (edges_rel g)" "0 < n" "pool_start g n js = Ok s0" "pool_run g n P s0 s"
  shows "length (filter (\<lambda>m. m \<noteq> Shutdown) (work s)) + length (filter (\<lambda>w. w \<noteq> Idle \<and> w \<noteq> Stopped) (workers s)) +
    length (completions s) \<le> n"
proof -
  have "pool_input g n" using assms(1-3) by (simp add: pool_input_def)
  from pool_start_run_ok [OF assms(4) this assms(5)] have "size (in_flight s) \<le> n" by (simp add: pool_ok_def)
  moreover have "size (sum_list (map message_tasks ms)) = length (filter (\<lambda>m. m \<noteq> Shutdown) ms)" for ms :: "'a WorkMessage list"
  proof (induction ms)
    case (Cons m ms)
    then show ?case by (cases m) simp_all
  qed simp
  moreover have "size (sum_list (map worker_tasks ws)) = length (filter (\<lambda>w. w \<noteq> Idle \<and> w \<noteq> Stopped) ws)" for ws :: "'a Worker list"
  proof (induction ws)
    case (Cons w ws)
    then show ?case by (cases w) simp_all
  qed simp
  ultimately show ?thesis by (simp add: in_flight_def)
qed

subsection \<open>Witnesses\<close>

text \<open>A pool at the start; two readers that run together; a run of the frame graph to its end.\<close>

definition pool_before :: "DependencyGraph \<Rightarrow> unit Pool" where
  "pool_before g =
     \<lparr>main_pc = Query, dispatch = dispatch_new (map (\<lambda>t. (t, ())) (task_ids g)), work = [], sender_open = True,
      completions = [], workers = [Idle, Idle]\<rparr>"

lemma pool_before_start: "pool_start g 2 (map (\<lambda>t. (t, ())) (task_ids g)) = Ok (pool_before g)"
  by (simp add: pool_start_def pool_before_def check_job_set_def Let_def comp_def numeral_2_eq_2)

definition reading_builder :: TaskGraphBuilder where
  "reading_builder =
     (let t1 = task_access (lit ''world'') ReadAccess (task_new 1 (lit ''audio''));
          t2 = task_access (lit ''world'') ReadAccess (task_new 2 (lit ''render''))
      in case result_bind (add_task t2 \<lparr>builder_tasks = []\<rparr>) (add_task t1) of Inr b \<Rightarrow> b | Inl e \<Rightarrow> \<lparr>builder_tasks = []\<rparr>)"

definition reading_graph :: DependencyGraph where
  "reading_graph = \<lparr>graph_tasks = builder_tasks reading_builder, graph_edges = []\<rparr>"

lemma reading_builder_ok: "builder_ok reading_builder"
  unfolding reading_builder_def Let_def
  by (auto simp: result_bind_eq_Ok builder_new_ok split: sum.splits dest!: add_task_ok [rotated] intro: add_task_ok)

lemma reading_graph_build: "build_graph reading_builder = Some (Ok reading_graph)"
  by code_simp

definition busy_pool :: "unit Pool" where
  "busy_pool = the (drive reading_graph 2 [None, None, None, Some 0, Some 1] (pool_before reading_graph))"

lemma busy_pool_run: "pool_run reading_graph 2 {} (pool_before reading_graph) busy_pool"
  unfolding busy_pool_def by (rule drive_run [where as = "[None, None, None, Some 0, Some 1]"], rule option.collapse [symmetric], code_simp)

lemma busy_pool_workers: "workers busy_pool = [Busy 1 (), Busy 2 ()]"
  by code_simp

definition finishing_schedule :: "nat option list" where
  "finishing_schedule =
     [None, None, None, None, Some 0, Some 0, None, None, None, None, None, Some 1, Some 1,
      None, None, None, None, None, None, None, Some 0, Some 1, None]"

definition finished_pool :: "unit Pool" where
  "finished_pool = the (drive frame_graph 2 finishing_schedule (pool_before frame_graph))"

lemma finished_pool_steps: "(pool_step frame_graph 2 {} ^^ length finishing_schedule) (pool_before frame_graph) finished_pool"
  unfolding finished_pool_def by (rule drive_steps, rule option.collapse [symmetric], code_simp)

lemma finished_pool_returned:
  "main_pc finished_pool = Returned (Ok \<lparr>report_order = [1, 2], report_workers = 2\<rparr>)"
  by code_simp

lemma pool_race_free_witness:
  "workers busy_pool = [Busy 1 (), Busy 2 ()] \<and> deps reading_graph 1 \<subseteq> completed (dispatch busy_pool)"
  using pool_race_free [OF reading_builder_ok reading_graph_build _ pool_before_start busy_pool_run, of 0 1 1 "()" 2 "()"]
    busy_pool_workers by simp


lemma pool_result_witness:
  "main_pc finished_pool = Returned (Ok \<lparr>report_order = [1, 2], report_workers = 2\<rparr>) \<and> tasks_of frame_graph = {1, 2}"
  using pool_result [OF frame_graph_ok frame_graph_acyclic _ pool_before_start relpowp_imp_rtranclp [OF finished_pool_steps]
      finished_pool_returned] finished_pool_returned by auto

lemma pool_bounded_witness:
  "length (filter (\<lambda>w. w \<noteq> Idle \<and> w \<noteq> Stopped) (workers finished_pool)) \<le> 2"
  using pool_bounded [OF frame_graph_ok frame_graph_acyclic _ pool_before_start relpowp_imp_rtranclp [OF finished_pool_steps]] by simp

end
