(* ===== verification/Work_Stealing.thy ===== *)
theory Work_Stealing
  imports Worker_Pool
begin

text \<open>
  The crate \<open>jadren-concurrency\<close>, fourth part: the work-stealing pool. Every worker owns a queue; it takes its own
  newest job and steals the oldest one of another worker. The queues are locked one by one, so a scan over them
  is not atomic, and a worker that finds nothing waits on a condition variable.
\<close>

subsection \<open>The queues\<close>

type_synonym 'j Queues = "'j WorkMessage list list"

definition enqueue :: "nat \<Rightarrow> 'j WorkMessage \<Rightarrow> 'j Queues \<Rightarrow> 'j Queues" where
  "enqueue w m qs = qs[w := qs ! w @ [m]]"

text \<open>One look at the queue at distance \<open>offset\<close>: the own queue is popped at the back, another one at the front.\<close>

definition probe :: "nat \<Rightarrow> nat \<Rightarrow> 'j Queues \<Rightarrow> ('j WorkMessage \<times> 'j Queues) option" where
  "probe w offset qs =
     (let v = (w + offset) mod length qs; q = qs ! v in
      if q = [] then None
      else if offset = 0 then Some (last q, qs[v := butlast q])
      else Some (hd q, qs[v := tl q]))"

fun take_from :: "nat \<Rightarrow> nat list \<Rightarrow> 'j Queues \<Rightarrow> ('j WorkMessage \<times> 'j Queues) option" where
  "take_from w [] qs = None"
| "take_from w (offset # offsets) qs =
     (case probe w offset qs of Some r \<Rightarrow> Some r | None \<Rightarrow> take_from w offsets qs)"

definition take_work :: "nat \<Rightarrow> 'j Queues \<Rightarrow> ('j WorkMessage \<times> 'j Queues) option" where
  "take_work w qs = take_from w [0..<length qs] qs"

definition has_pending :: "'j Queues \<Rightarrow> bool" where
  "has_pending qs = list_ex (\<lambda>q. q \<noteq> []) qs"

subsection \<open>State\<close>

text \<open>
  A worker scans (at an offset), has found nothing, is about to evaluate the condition of \<open>wait_for_work\<close> under
  the lock, is blocked on the condition variable, executes a job, or has ended.
\<close>

datatype 'j StealWorker = Scanning nat | Missed | Waiting | Blocked | Executing TaskId 'j | Ended

datatype StealPc =
    Collect
  | Handing "TaskId list"
  | Deciding
  | Awaiting
  | Stopping ExecutionResult
  | Closing ExecutionResult
  | AwaitJoin ExecutionResult
  | Delivered ExecutionResult
  | Failed

record 'j StealPool =
  steal_pc :: StealPc
  book :: "'j Dispatch"
  next_worker :: nat
  queues :: "'j Queues"
  shutdown :: bool
  receiver_open :: bool
  outcomes :: "(TaskId \<times> Outcome) list"
  stealers :: "'j StealWorker list"

definition steal_start :: "DependencyGraph \<Rightarrow> nat \<Rightarrow> (TaskId \<times> 'j) list \<Rightarrow> (PoolError, 'j StealPool) result" where
  "steal_start g n js =
     result_bind (check_job_set g js) (\<lambda>_.
       Ok \<lparr>steal_pc = Collect, book = dispatch_new js, next_worker = 0, queues = replicate n [], shutdown = False,
          receiver_open = True, outcomes = [], stealers = replicate n (Scanning 0)\<rparr>)"

subsection \<open>Steps\<close>

definition wake :: "'j StealWorker \<Rightarrow> 'j StealWorker" where
  "wake w = (case w of Blocked \<Rightarrow> Waiting | _ \<Rightarrow> w)"

definition all_ended :: "'j StealPool \<Rightarrow> bool" where
  "all_ended s = list_all (\<lambda>w. w = Ended) (stealers s)"

definition hand_step :: "nat \<Rightarrow> TaskId \<Rightarrow> TaskId list \<Rightarrow> 'j StealPool \<Rightarrow> 'j StealPool" where
  "hand_step n t ts s =
     (if t \<in> submitted (book s) then s\<lparr>steal_pc := Handing ts\<rparr>
      else case remove_job t (book s) of
          None \<Rightarrow> s\<lparr>steal_pc := Failed\<rparr>
        | Some (j, d) \<Rightarrow>
            s\<lparr>steal_pc := Handing ts, book := submit t d, queues := enqueue (next_worker s) (Run t j) (queues s),
              next_worker := (next_worker s + 1) mod n, stealers := map wake (stealers s)\<rparr>)"

definition await_step :: "'j StealPool \<Rightarrow> 'j StealPool option" where
  "await_step s =
     (case outcomes s of
        [] \<Rightarrow> if all_ended s then Some (s\<lparr>steal_pc := Stopping (Err WorkerChannelClosed)\<rparr>) else None
      | (t, r) # rs \<Rightarrow> Some
          (case settle t r (book s) of
             None \<Rightarrow> s\<lparr>steal_pc := Failed\<rparr>
           | Some (Inl e, d) \<Rightarrow> s\<lparr>steal_pc := Stopping (Err e), book := d, outcomes := rs\<rparr>
           | Some (Inr _, d) \<Rightarrow> s\<lparr>steal_pc := Collect, book := d, outcomes := rs\<rparr>))"

definition caller_step :: "DependencyGraph \<Rightarrow> nat \<Rightarrow> 'j StealPool \<Rightarrow> 'j StealPool option" where
  "caller_step g n s =
     (case steal_pc s of
        Collect \<Rightarrow> Some (s\<lparr>steal_pc := Handing (ready_tasks g (completed (book s)))\<rparr>)
      | Handing [] \<Rightarrow> Some (s\<lparr>steal_pc := Deciding\<rparr>)
      | Handing (t # ts) \<Rightarrow> Some (hand_step n t ts s)
      | Deciding \<Rightarrow> Some
          (case loop_exit g n (book s) of
             Some r \<Rightarrow> s\<lparr>steal_pc := Stopping r\<rparr>
           | None \<Rightarrow> s\<lparr>steal_pc := Awaiting\<rparr>)
      | Awaiting \<Rightarrow> await_step s
      | Stopping r \<Rightarrow> Some (s\<lparr>steal_pc := Closing r, shutdown := True, stealers := map wake (stealers s)\<rparr>)
      | Closing r \<Rightarrow> Some (s\<lparr>steal_pc := AwaitJoin r, receiver_open := False\<rparr>)
      | AwaitJoin r \<Rightarrow>
          if all_ended s
          then Some (s\<lparr>steal_pc := Delivered (result_bind (join_workers (map (\<lambda>_. False) (stealers s))) (\<lambda>_. r))\<rparr>)
          else None
      | Delivered r \<Rightarrow> None
      | Failed \<Rightarrow> None)"

text \<open>A completion that nobody receives any more ends the worker.\<close>

definition stealer_step :: "nat \<Rightarrow> Outcome \<Rightarrow> 'j StealPool \<Rightarrow> 'j StealPool option" where
  "stealer_step i r s =
     (case stealers s ! i of
        Scanning offset \<Rightarrow> Some
          (case probe i offset (queues s) of
             Some (Run t j, qs) \<Rightarrow> s\<lparr>stealers := (stealers s)[i := Executing t j], queues := qs\<rparr>
           | Some (Shutdown, qs) \<Rightarrow> s\<lparr>stealers := (stealers s)[i := Ended], queues := qs\<rparr>
           | None \<Rightarrow>
               s\<lparr>stealers := (stealers s)[i := if offset + 1 < length (queues s) then Scanning (offset + 1) else Missed]\<rparr>)
      | Missed \<Rightarrow> Some (s\<lparr>stealers := (stealers s)[i := if shutdown s then Ended else Waiting]\<rparr>)
      | Waiting \<Rightarrow> Some
          (s\<lparr>stealers := (stealers s)[i := if \<not> shutdown s \<and> \<not> has_pending (queues s) then Blocked else Scanning 0]\<rparr>)
      | Blocked \<Rightarrow> None
      | Executing t j \<Rightarrow> Some
          (if receiver_open s then s\<lparr>stealers := (stealers s)[i := Scanning 0], outcomes := outcomes s @ [(t, r)]\<rparr>
           else s\<lparr>stealers := (stealers s)[i := Ended]\<rparr>)
      | Ended \<Rightarrow> None)"

inductive steal_step :: "DependencyGraph \<Rightarrow> nat \<Rightarrow> TaskId set \<Rightarrow> 'j StealPool \<Rightarrow> 'j StealPool \<Rightarrow> bool" for g n may_panic where
  caller: "caller_step g n s = Some s' \<Longrightarrow> steal_step g n may_panic s s'"
| stealer: "i < length (stealers s) \<Longrightarrow> stealer_step i (Ok ()) s = Some s' \<Longrightarrow> steal_step g n may_panic s s'"
| stealer_panic: "i < length (stealers s) \<Longrightarrow> stealers s ! i = Executing t j \<Longrightarrow> t \<in> may_panic \<Longrightarrow>
    stealer_step i (Err Panicked) s = Some s' \<Longrightarrow> steal_step g n may_panic s s'"

abbreviation steal_run :: "DependencyGraph \<Rightarrow> nat \<Rightarrow> TaskId set \<Rightarrow> 'j StealPool \<Rightarrow> 'j StealPool \<Rightarrow> bool" where
  "steal_run g n may_panic \<equiv> (steal_step g n may_panic)\<^sup>*\<^sup>*"

subsection \<open>What the queues promise\<close>

text \<open>All messages in the queues.\<close>

abbreviation queued :: "'j Queues \<Rightarrow> 'j WorkMessage multiset" where
  "queued qs \<equiv> sum_list (map mset qs)"

lemma queued_update: "v < length qs \<Longrightarrow> queued (qs[v := q]) + mset (qs ! v) = queued qs + mset q"
  by (rule sum_list_update)

lemma queued_enqueue: "w < length qs \<Longrightarrow> queued (enqueue w m qs) = add_mset m (queued qs)"
  using queued_update [of w qs "qs ! w @ [m]"] by (simp add: enqueue_def)

lemma mset_hd_tl: "q \<noteq> [] \<Longrightarrow> mset q = add_mset (hd q) (mset (tl q))"
  by (cases q) simp_all

lemma mset_last_butlast: "q \<noteq> [] \<Longrightarrow> mset q = add_mset (last q) (mset (butlast q))"
  by (cases q rule: rev_cases) simp_all

lemma probe_None: "probe w offset qs = None \<longleftrightarrow> qs ! ((w + offset) mod length qs) = []"
  by (simp add: probe_def Let_def)

lemma queued_probe:
  assumes "qs \<noteq> []" "probe w offset qs = Some (m, qs')"
  shows "queued qs = add_mset m (queued qs') \<and> length qs' = length qs"
proof -
  let ?v = "(w + offset) mod length qs"
  have v: "?v < length qs" and q: "qs ! ?v \<noteq> []" using assms by (simp_all add: probe_def Let_def split: if_splits)
  have *: "queued qs = add_mset m (queued (qs[?v := q']))" if "mset (qs ! ?v) = add_mset m (mset q')" for q'
    using queued_update [OF v, of q'] that by simp
  show ?thesis
    using assms(2) q * mset_hd_tl [OF q] mset_last_butlast [OF q] by (auto simp: probe_def Let_def split: if_splits)
qed

text \<open>On queues nobody else touches, a scan finds a message if there is one.\<close>

lemma has_pending_offset:
  assumes "w < length qs"
  shows "has_pending qs \<longleftrightarrow> (\<exists>k < length qs. qs ! ((w + k) mod length qs) \<noteq> [])"
proof
  assume "has_pending qs"
  then obtain v where v: "v < length qs" "qs ! v \<noteq> []" by (auto simp: has_pending_def list_ex_iff in_set_conv_nth)
  let ?k = "(v + length qs - w) mod length qs"
  have "(w + ?k) mod length qs = (w + (v + length qs - w)) mod length qs" by (simp add: mod_simps)
  also have "\<dots> = v" using assms v(1) by simp
  finally have "(w + ?k) mod length qs = v" .
  moreover have "?k < length qs" using v(1) by (intro mod_less_divisor) linarith
  ultimately show "\<exists>k < length qs. qs ! ((w + k) mod length qs) \<noteq> []" using v(2) by metis
next
  assume "\<exists>k < length qs. qs ! ((w + k) mod length qs) \<noteq> []"
  then obtain k where "k < length qs" "qs ! ((w + k) mod length qs) \<noteq> []" by blast
  moreover from this have "(w + k) mod length qs < length qs" by (intro mod_less_divisor) linarith
  ultimately show "has_pending qs" unfolding has_pending_def list_ex_iff by (metis nth_mem)
qed

lemma take_from_None: "take_from w offsets qs = None \<longleftrightarrow> (\<forall>k \<in> set offsets. probe w k qs = None)"
  by (induction offsets) (auto split: option.splits)

lemma take_from_Some: "take_from w offsets qs = Some r \<Longrightarrow> \<exists>k \<in> set offsets. probe w k qs = Some r"
  by (induction offsets) (auto split: option.splits)

lemma take_work_complete:
  assumes "w < length qs"
  shows "take_work w qs = None \<longleftrightarrow> \<not> has_pending qs"
  unfolding take_work_def take_from_None probe_None has_pending_offset [OF assms] by auto

lemma pending_queued: "has_pending qs \<longleftrightarrow> queued qs \<noteq> {#}"
  by (induction qs) (auto simp: has_pending_def)

subsection \<open>The invariant\<close>

fun stealer_tasks :: "'j StealWorker \<Rightarrow> TaskId multiset" where
  "stealer_tasks (Executing t j) = {#t#}"
| "stealer_tasks w = {#}"

definition steal_flight :: "'j StealPool \<Rightarrow> TaskId multiset" where
  "steal_flight s =
     sum_mset (image_mset message_tasks (queued (queues s))) +
     sum_list (map stealer_tasks (stealers s)) + mset (map fst (outcomes s))"

definition steal_live :: "'j StealPool \<Rightarrow> bool" where
  "steal_live s \<longleftrightarrow> dispatch_live (steal_flight s) (book s) \<and> Ended \<notin> set (stealers s) \<and> \<not> shutdown s \<and> receiver_open s"

abbreviation ready_book :: "DependencyGraph \<Rightarrow> 'j StealPool \<Rightarrow> TaskId set" where
  "ready_book g s \<equiv> set (ready_tasks g (completed (book s)))"

fun steal_pc_ok :: "DependencyGraph \<Rightarrow> nat \<Rightarrow> TaskId set \<Rightarrow> StealPc \<Rightarrow> 'j StealPool \<Rightarrow> bool" where
  "steal_pc_ok g n P Collect s = steal_live s"
| "steal_pc_ok g n P (Handing ts) s =
     (steal_live s \<and> length ts \<le> task_count g \<and> set ts \<subseteq> ready_book g s \<and> ready_book g s \<subseteq> set ts \<union> submitted (book s))"
| "steal_pc_ok g n P Deciding s = (steal_live s \<and> ready_book g s \<subseteq> submitted (book s))"
| "steal_pc_ok g n P Awaiting s = (steal_live s \<and> 0 < running (book s))"
| "steal_pc_ok g n P (Stopping r) s = result_ok g n P r"
| "steal_pc_ok g n P (Closing r) s = (shutdown s \<and> result_ok g n P r)"
| "steal_pc_ok g n P (AwaitJoin r) s = (shutdown s \<and> result_ok g n P r)"
| "steal_pc_ok g n P (Delivered r) s = (all_ended s \<and> result_ok g n P r)"
| "steal_pc_ok g n P Failed s = False"

text \<open>The part about the condition variable: a blocked worker has not missed a message or the shutdown.\<close>

definition steal_ok :: "DependencyGraph \<Rightarrow> nat \<Rightarrow> TaskId set \<Rightarrow> 'j StealPool \<Rightarrow> bool" where
  "steal_ok g n P s \<longleftrightarrow>
     dispatch_ok g (steal_flight s) (book s) \<and> length (queues s) = n \<and> length (stealers s) = n \<and> next_worker s < n \<and>
     Shutdown \<notin># queued (queues s) \<and> (\<forall>(t, r) \<in> set (outcomes s). r \<noteq> Ok () \<longrightarrow> t \<in> P) \<and>
     (\<forall>i k. i < n \<longrightarrow> stealers s ! i = Scanning k \<longrightarrow> k < n) \<and>
     (Blocked \<in> set (stealers s) \<longrightarrow> \<not> has_pending (queues s) \<and> \<not> shutdown s) \<and> steal_pc_ok g n P (steal_pc s) s"

lemma dispatch_ok_less:
  assumes "dispatch_ok g F d" "F' \<subseteq># F"
  shows "dispatch_ok g F' d"
proof -
  have "count F' t \<le> 1" for t
    using mset_subset_eq_count [OF assms(2), of t] assms(1) by (simp add: dispatch_ok_def) (meson le_trans)
  moreover have "set_mset F' \<subseteq> set_mset F" using assms(2) by (rule set_mset_mono)
  ultimately show ?thesis using assms(1) unfolding dispatch_ok_def by (intro conjI) blast+
qed

lemma probe_offset: "i < length qs \<Longrightarrow> probe i k qs = Some (m, qs') \<Longrightarrow> queued qs = add_mset m (queued qs') \<and> length qs' = length qs"
  by (rule queued_probe) auto

text \<open>What a step of a worker can change.\<close>

lemma stealer_step_frame:
  assumes "i < length (stealers s)" "stealer_step i r s = Some s'"
  shows "book s' = book s \<and> steal_pc s' = steal_pc s \<and> shutdown s' = shutdown s \<and> receiver_open s' = receiver_open s \<and>
    next_worker s' = next_worker s \<and> length (stealers s') = length (stealers s) \<and> stealers s ! i \<noteq> Ended \<and>
    (outcomes s' = outcomes s \<or> (\<exists>t j. stealers s ! i = Executing t j \<and> outcomes s' = outcomes s @ [(t, r)]))"
  using assms by (auto simp: stealer_step_def split: StealWorker.splits option.splits prod.splits WorkMessage.splits if_splits)

lemma stealer_step_queues:
  assumes "i < length (stealers s)" "length (queues s) = length (stealers s)" "stealer_step i r s = Some s'"
  shows "queued (queues s') \<subseteq># queued (queues s) \<and> length (queues s') = length (queues s)"
  using assms probe_offset [of i "queues s"]
  by (auto simp: stealer_step_def split: StealWorker.splits option.splits prod.splits WorkMessage.splits if_splits)

lemma stealer_step_flight:
  assumes "i < length (stealers s)" "length (queues s) = length (stealers s)" "stealer_step i r s = Some s'"
  shows "steal_flight s' \<subseteq># steal_flight s \<and> (receiver_open s \<longrightarrow> steal_flight s' = steal_flight s)"
proof -
  have upd: "sum_list (map stealer_tasks ((stealers s)[i := w])) = sum_list (map stealer_tasks (stealers s))"
    if "stealer_tasks (stealers s ! i) = {#}" "stealer_tasks w = {#}" for w
    using sum_list_update [OF assms(1), of stealer_tasks w] that by simp
  have finish: "sum_list (map stealer_tasks (stealers s)) = add_mset t (sum_list (map stealer_tasks ((stealers s)[i := w])))"
    if "stealers s ! i = Executing t j" "stealer_tasks w = {#}" for w t j
    using sum_list_update [OF assms(1), of stealer_tasks w] that by simp
  have run: "sum_list (map stealer_tasks ((stealers s)[i := Executing t j])) = add_mset t (sum_list (map stealer_tasks (stealers s)))"
    if "stealer_tasks (stealers s ! i) = {#}" for t j
    using sum_list_update [OF assms(1), of stealer_tasks "Executing t j"] that by simp
  show ?thesis
  proof (cases "stealers s ! i")
    case (Scanning k)
    show ?thesis
    proof (cases "probe i k (queues s)")
      case None
      then show ?thesis using assms(3) Scanning upd by (auto simp: stealer_step_def steal_flight_def split: if_splits)
    next
      case (Some mq)
      obtain m qs where m: "mq = (m, qs)" by (cases mq)
      note q = probe_offset [of i "queues s" k m qs]
      show ?thesis
      proof (cases m)
        case (Run t j)
        then show ?thesis using assms Scanning Some m q run by (auto simp: stealer_step_def steal_flight_def)
      next
        case Shutdown
        then show ?thesis using assms Scanning Some m q upd [of Ended] by (auto simp: stealer_step_def steal_flight_def)
      qed
    qed
  next
    case (Executing t j)
    then show ?thesis using assms(3) finish [OF Executing, of Ended] finish [OF Executing, of "Scanning 0"]
      by (auto simp: stealer_step_def steal_flight_def split: if_splits)
  qed (use assms(3) upd in \<open>auto simp: stealer_step_def steal_flight_def split: if_splits\<close>)
qed

lemma set_update_cases: "x \<in> set (xs[i := y]) \<Longrightarrow> x = y \<or> x \<in> set xs"
  using set_update_subset_insert by fastforce

lemma stealer_step_workers:
  assumes "i < length (stealers s)" "length (queues s) = length (stealers s)" "Shutdown \<notin># queued (queues s)" "stealer_step i r s = Some s'"
  shows "Blocked \<in> set (stealers s') \<Longrightarrow> Blocked \<in> set (stealers s) \<or> (\<not> shutdown s \<and> \<not> has_pending (queues s))"
    and "Ended \<in> set (stealers s') \<Longrightarrow> Ended \<in> set (stealers s) \<or> shutdown s \<or> \<not> receiver_open s"
    and "stealers s' ! v = Scanning k \<Longrightarrow> v < length (stealers s) \<Longrightarrow> k < length (queues s) \<or> stealers s ! v = Scanning k"
proof -
  have noshut: "probe i k (queues s) \<noteq> Some (Shutdown, qs)" for k qs
  proof
    assume "probe i k (queues s) = Some (Shutdown, qs)"
    then have "queued (queues s) = add_mset Shutdown (queued qs)" using probe_offset [of i "queues s"] assms(1,2) by simp
    then have "Shutdown \<in># queued (queues s)" by (simp only: union_single_eq_member)
    with assms(3) show False ..
  qed
  show "Blocked \<in> set (stealers s') \<Longrightarrow> Blocked \<in> set (stealers s) \<or> (\<not> shutdown s \<and> \<not> has_pending (queues s))"
    using assms(4) by (auto simp: stealer_step_def dest!: set_update_cases split: StealWorker.splits option.splits WorkMessage.splits if_splits)
  show "Ended \<in> set (stealers s') \<Longrightarrow> Ended \<in> set (stealers s) \<or> shutdown s \<or> \<not> receiver_open s"
    using assms(4) noshut by (auto simp: stealer_step_def dest!: set_update_cases split: StealWorker.splits option.splits WorkMessage.splits if_splits)
  have "0 < length (queues s)" using assms(1,2) by linarith
  then show "stealers s' ! v = Scanning k \<Longrightarrow> v < length (stealers s) \<Longrightarrow> k < length (queues s) \<or> stealers s ! v = Scanning k"
    using assms(1,4) by (auto simp: stealer_step_def nth_list_update split: StealWorker.splits option.splits WorkMessage.splits if_splits)
qed

lemma steal_okI:
  assumes "dispatch_ok g (steal_flight s) (book s)" "length (queues s) = n" "length (stealers s) = n" "next_worker s < n"
    and "Shutdown \<notin># queued (queues s)" "\<And>t r. (t, r) \<in> set (outcomes s) \<Longrightarrow> r \<noteq> Ok () \<Longrightarrow> t \<in> P"
    and "\<And>i k. i < n \<Longrightarrow> stealers s ! i = Scanning k \<Longrightarrow> k < n"
    and "Blocked \<in> set (stealers s) \<Longrightarrow> \<not> has_pending (queues s) \<and> \<not> shutdown s" "steal_pc_ok g n P (steal_pc s) s"
  shows "steal_ok g n P s"
  unfolding steal_ok_def using assms by blast

lemma subset_queued_pending:
  assumes "queued qs' \<subseteq># queued qs" "\<not> has_pending qs"
  shows "\<not> has_pending qs'"
proof -
  have "queued qs = {#}" using assms(2) unfolding pending_queued by blast
  with assms(1) have "queued qs' = {#}" by (simp only: subset_mset.le_zero_eq)
  then show ?thesis unfolding pending_queued by blast
qed

lemma stealer_step_ok:
  assumes ok: "steal_ok g n P s" and i: "i < length (stealers s)" and step: "stealer_step i r s = Some s'"
    and pan: "\<And>t j. stealers s ! i = Executing t j \<Longrightarrow> r \<noteq> Ok () \<Longrightarrow> t \<in> P"
  shows "steal_ok g n P s'"
proof -
  have inv: "dispatch_ok g (steal_flight s) (book s)" "length (queues s) = n" "length (stealers s) = n" "next_worker s < n"
    "Shutdown \<notin># queued (queues s)" "\<forall>i k. i < n \<longrightarrow> stealers s ! i = Scanning k \<longrightarrow> k < n"
    and blocked: "Blocked \<in> set (stealers s) \<longrightarrow> \<not> has_pending (queues s) \<and> \<not> shutdown s"
    and out: "\<forall>(t, r) \<in> set (outcomes s). r \<noteq> Ok () \<longrightarrow> t \<in> P" and pc: "steal_pc_ok g n P (steal_pc s) s"
    using ok by (simp_all add: steal_ok_def)
  have len: "length (queues s) = length (stealers s)" using inv(2,3) by simp
  note fr = stealer_step_frame [OF i step]
  note q = stealer_step_queues [OF i len step]
  note fl = stealer_step_flight [OF i len step]
  note wk = stealer_step_workers [OF i len inv(5) step]
  show ?thesis
  proof (rule steal_okI)
    show "dispatch_ok g (steal_flight s') (book s')" using dispatch_ok_less [OF inv(1)] fl fr by simp
    show "Shutdown \<notin># queued (queues s')" using mset_subset_eqD [OF conjunct1 [OF q]] inv(5) by blast
    show "k < n" if "v < n" "stealers s' ! v = Scanning k" for v k
      using wk(3) [OF that(2)] that(1) inv(2,3,6) by auto
    show "t \<in> P" if "(t, x) \<in> set (outcomes s')" "x \<noteq> Ok ()" for t x
      using that fr out pan by auto
    show "\<not> has_pending (queues s') \<and> \<not> shutdown s'" if "Blocked \<in> set (stealers s')"
      using wk(1) [OF that] blocked fr subset_queued_pending [OF conjunct1 [OF q]] by auto
    have "steal_live s \<longrightarrow> steal_live s'" using fl fr wk(2) by (auto simp: steal_live_def)
    moreover have "\<not> all_ended s" using fr i by (auto simp: all_ended_def list_all_length)
    ultimately show "steal_pc_ok g n P (steal_pc s') s'" using pc fr by (cases "steal_pc s") simp_all
  qed (use inv fr q in simp_all)
qed

lemma wake_simps [simp]:
  "stealer_tasks (wake w) = stealer_tasks w" "wake w \<noteq> Blocked" "wake w = Ended \<longleftrightarrow> w = Ended"
  "wake w = Scanning k \<longleftrightarrow> w = Scanning k"
  by (cases w; simp add: wake_def)+

lemma wake_map [simp]:
  "map stealer_tasks (map wake ws) = map stealer_tasks ws" "Blocked \<notin> set (map wake ws)" "Ended \<in> set (map wake ws) \<longleftrightarrow> Ended \<in> set ws"
proof -
  show "Ended \<in> set (map wake ws) \<longleftrightarrow> Ended \<in> set ws" by (induction ws) (auto simp: eq_commute [of Ended])
  show "Blocked \<notin> set (map wake ws)" by (auto simp: eq_commute [of Blocked])
qed (simp add: comp_def)

lemma not_all_ended: "length (stealers s) = n \<Longrightarrow> 0 < n \<Longrightarrow> Ended \<notin> set (stealers s) \<Longrightarrow> \<not> all_ended s"
  by (cases "stealers s") (auto simp: all_ended_def)

lemma hand_step_ok:
  assumes "steal_ok g n P s" "pool_input g n" "steal_pc s = Handing (t # ts)"
  shows "steal_ok g n P (hand_step n t ts s)"
proof -
  have ok: "dispatch_ok g (steal_flight s) (book s)" "length (queues s) = n" "length (stealers s) = n" "next_worker s < n"
    and live: "steal_live s" and ts: "length (t # ts) \<le> task_count g" "set (t # ts) \<subseteq> ready_book g s"
      "ready_book g s \<subseteq> set (t # ts) \<union> submitted (book s)"
    using assms(1,3) by (simp_all add: steal_ok_def)
  show ?thesis
  proof (cases "t \<in> submitted (book s)")
    case True
    then show ?thesis using assms(1) live ts by (auto simp: steal_ok_def hand_step_def steal_live_def steal_flight_def)
  next
    case False
    have t: "t \<in> tasks_of g" using ts(2) by (simp add: ready_iff)
    obtain j d where jd: "remove_job t (book s) = Some (j, d)" using remove_job_Some [OF ok(1) t False] by blast
    let ?s = "s\<lparr>steal_pc := Handing ts, book := submit t d, queues := enqueue (next_worker s) (Run t j) (queues s),
              next_worker := (next_worker s + 1) mod n, stealers := map wake (stealers s)\<rparr>"
    have s: "hand_step n t ts s = ?s" using False jd by (simp add: hand_step_def)
    have q: "queued (queues ?s) = add_mset (Run t j) (queued (queues s))"
      using queued_enqueue [of "next_worker s" "queues s"] ok(2,4) by simp
    have fl: "steal_flight ?s = add_mset t (steal_flight s)" unfolding steal_flight_def q by (simp del: map_map)
    have dis: "dispatch_ok g (steal_flight ?s) (submit t d) \<and> dispatch_live (steal_flight ?s) (submit t d)"
      unfolding fl using submit_ok [OF ok(1) _ jd _ False] live ts(2) by (simp add: steal_live_def)
    then have "steal_live ?s" using live by (simp add: steal_live_def del: set_map)
    then have "steal_pc_ok g n P (Handing ts) ?s"
      using ts remove_job_frame [OF jd] by (auto simp: submit_frame)
    moreover have "Shutdown \<notin># queued (queues ?s)" unfolding q using assms(1) unfolding steal_ok_def by simp
    moreover have "(next_worker s + 1) mod n < n" using ok(4) by (intro mod_less_divisor) linarith
    ultimately have "steal_ok g n P ?s"
    proof (intro steal_okI)
      show "t \<in> P" if "(t, x) \<in> set (outcomes ?s)" "x \<noteq> Ok ()" for t x
        using that assms(1) by (auto simp: steal_ok_def)
      show "k < n" if "v < n" "stealers ?s ! v = Scanning k" for v k
        using that assms(1) ok(3) by (simp add: steal_ok_def)
      show "\<not> has_pending (queues ?s) \<and> \<not> shutdown ?s" if "Blocked \<in> set (stealers ?s)"
        using that by (simp del: set_map)
    qed (use dis ok in \<open>simp_all add: enqueue_def\<close>)
    then show ?thesis using s by simp
  qed
qed

lemma steal_flight_frame [simp]:
  "steal_flight (s\<lparr>steal_pc := p\<rparr>) = steal_flight s" "steal_flight (s\<lparr>book := d\<rparr>) = steal_flight s"
  "steal_flight (s\<lparr>shutdown := b\<rparr>) = steal_flight s" "steal_flight (s\<lparr>receiver_open := b\<rparr>) = steal_flight s"
  "steal_flight (s\<lparr>stealers := map wake (stealers s)\<rparr>) = steal_flight s"
  by (simp_all add: steal_flight_def del: map_map)

text \<open>A step that only moves the calling thread on.\<close>

lemma steal_ok_move:
  assumes "steal_ok g n P s" "steal_pc_ok g n P p (s\<lparr>steal_pc := p\<rparr>)"
  shows "steal_ok g n P (s\<lparr>steal_pc := p\<rparr>)"
  using assms by (simp add: steal_ok_def)

lemma steal_live_move [simp]: "steal_live (s\<lparr>steal_pc := p\<rparr>) = steal_live s"
  by (simp add: steal_live_def)

lemma await_step_ok:
  assumes "steal_ok g n P s" "pool_input g n" "steal_pc s = Awaiting" "await_step s = Some s'"
  shows "steal_ok g n P s'"
proof -
  have ok: "dispatch_ok g (steal_flight s) (book s)" "length (stealers s) = n"
    and out: "\<And>t r. (t, r) \<in> set (outcomes s) \<Longrightarrow> r \<noteq> Ok () \<Longrightarrow> t \<in> P" and live: "steal_live s"
    using assms(1,3) by (auto simp: steal_ok_def)
  have "\<not> all_ended s" using not_all_ended [OF ok(2)] live assms(2) by (simp add: steal_live_def pool_input_def)
  then obtain t r rest where tr: "outcomes s = (t, r) # rest"
    using assms(4) by (auto simp: await_step_def split: list.splits)
  let ?F = "steal_flight (s\<lparr>outcomes := rest\<rparr>)"
  have fl: "steal_flight s = add_mset t ?F" using tr by (simp add: steal_flight_def)
  obtain d where d: "settle t r (book s) = Some (map_sum (TaskFailed t) id r, d)" "dispatch_ok g ?F d"
    "r = Ok () \<longrightarrow> dispatch_live ?F d" using settle_ok [of g t ?F "book s" r] ok(1) live fl by (auto simp: steal_live_def)
  let ?s = "\<lambda>p. s\<lparr>steal_pc := p, book := d, outcomes := rest\<rparr>"
  have F: "steal_flight (?s p) = ?F" for p by (simp add: steal_flight_def)
  have main: "steal_ok g n P (?s p)" if "steal_pc_ok g n P p (?s p)" for p
  proof (rule steal_okI)
    show "dispatch_ok g (steal_flight (?s p)) (book (?s p))" unfolding F using d(2) by simp
    show "t \<in> P" if "(t, x) \<in> set (outcomes (?s p))" "x \<noteq> Ok ()" for t x using that out [of t x] tr by simp
  qed (use assms(1) that in \<open>simp_all add: steal_ok_def\<close>)
  have "t \<in> tasks_of g" using ok(1) fl by (auto simp: dispatch_ok_def)
  show ?thesis
  proof (cases r)
    case (Inl f)
    then have "t \<in> P" "f = Panicked" using out [of t r] tr by (auto intro: TaskFailure.exhaust)
    then have "result_ok g n P (Err (TaskFailed t f))"
      unfolding result_ok_def using \<open>t \<in> tasks_of g\<close> by (simp only: sum.case) blast
    then show ?thesis using assms(4) tr d(1) Inl main by (auto simp: await_step_def)
  next
    case (Inr u)
    then have "steal_live (?s Collect)" using d(3) live unfolding steal_live_def F by simp
    then show ?thesis using assms(4) tr d(1) Inr main by (auto simp: await_step_def)
  qed
qed

lemma caller_step_ok:
  assumes ok: "steal_ok g n P s" and inp: "pool_input g n" and step: "caller_step g n s = Some s'"
  shows "steal_ok g n P s'"
proof (cases "steal_pc s")
  case Collect
  have "length (ready_tasks g c) \<le> task_count g" for c
    unfolding ready_tasks_def task_count_def task_ids_def using length_filter_le [of _ "map fst (graph_tasks g)"] by simp
  with Collect show ?thesis using ok step steal_ok_move [OF ok] by (auto simp: caller_step_def steal_ok_def)
next
  case (Handing ts)
  show ?thesis
  proof (cases ts)
    case Nil
    then have "steal_pc_ok g n P Deciding s" using ok Handing by (simp add: steal_ok_def)
    then show ?thesis using step Handing Nil steal_ok_move [OF ok] by (auto simp: caller_step_def)
  next
    case (Cons t ts')
    then have "s' = hand_step n t ts' s" using Handing step by (simp add: caller_step_def)
    then show ?thesis using hand_step_ok [OF ok inp] Handing Cons by simp
  qed
next
  case Deciding
  then have c: "steal_live s" "ready_book g s \<subseteq> submitted (book s)" "dispatch_ok g (steal_flight s) (book s)"
    using ok by (simp_all add: steal_ok_def)
  show ?thesis
  proof (cases "loop_exit g n (book s)")
    case None
    then have "0 < running (book s)" by (simp add: loop_exit_def split: if_splits)
    then show ?thesis using step Deciding None c steal_ok_move [OF ok] by (auto simp: caller_step_def)
  next
    case (Some r)
    have "result_ok g n P r" using loop_exit_ok [OF inp c(3) _ _ Some] c(1,2) by (simp add: steal_live_def)
    then show ?thesis using step Deciding Some steal_ok_move [OF ok] by (auto simp: caller_step_def)
  qed
next
  case Awaiting
  then show ?thesis using await_step_ok [OF ok inp] step by (simp add: caller_step_def)
next
  case (Stopping r)
  then have s': "s' = s\<lparr>steal_pc := Closing r, shutdown := True, stealers := map wake (stealers s)\<rparr>"
    using step by (simp add: caller_step_def)
  show ?thesis unfolding s'
  proof (rule steal_okI)
    show "k < n" if "v < n" "stealers (s\<lparr>steal_pc := Closing r, shutdown := True, stealers := map wake (stealers s)\<rparr>) ! v = Scanning k" for v k
      using that ok by (simp add: steal_ok_def)
    show "dispatch_ok g (steal_flight (s\<lparr>steal_pc := Closing r, shutdown := True, stealers := map wake (stealers s)\<rparr>))
        (book (s\<lparr>steal_pc := Closing r, shutdown := True, stealers := map wake (stealers s)\<rparr>))"
      using ok by (simp add: steal_ok_def steal_flight_def del: map_map)
  qed (use ok Stopping in \<open>auto simp: steal_ok_def simp del: set_map\<close>)
next
  case (Closing r)
  then show ?thesis using ok step by (auto simp: caller_step_def steal_ok_def)
next
  case (AwaitJoin r)
  then show ?thesis using ok step
    by (auto simp: caller_step_def steal_ok_def all_ended_def join_no_panic split: if_splits)
qed (use ok step in \<open>auto simp: caller_step_def steal_ok_def\<close>)

lemma steal_step_ok: "steal_step g n P s s' \<Longrightarrow> pool_input g n \<Longrightarrow> steal_ok g n P s \<Longrightarrow> steal_ok g n P s'"
  by (induction rule: steal_step.induct) (auto intro: caller_step_ok stealer_step_ok)

lemma steal_start_ok:
  assumes "steal_start g n js = Ok s" "0 < n"
  shows "steal_ok g n P s"
  using dispatch_new_ok [of js g] assms
  by (auto simp: steal_start_def result_bind_eq_Ok check_job_set_Ok steal_ok_def steal_flight_def steal_live_def
      sum_list_replicate_0 map_replicate_const has_pending_def)

lemma steal_run_ok: "steal_run g n P s s' \<Longrightarrow> pool_input g n \<Longrightarrow> steal_ok g n P s \<Longrightarrow> steal_ok g n P s'"
  by (induction rule: rtranclp_induct) (auto intro: steal_step_ok)

subsection \<open>Progress\<close>

text \<open>A worker is stuck only if it is blocked or has ended.\<close>

lemma stealer_moves:
  assumes "stealers s ! i \<noteq> Blocked" "stealers s ! i \<noteq> Ended"
  shows "\<exists>s'. stealer_step i r s = Some s'"
  using assms by (cases "stealers s ! i") (simp_all add: stealer_step_def)

lemma moving_stealer:
  assumes "w \<in> set (stealers s)" "w \<noteq> Blocked" "w \<noteq> Ended"
  shows "\<exists>i s'. i < length (stealers s) \<and> stealer_step i (Ok ()) s = Some s'"
proof -
  obtain i where i: "i < length (stealers s)" "stealers s ! i = w" using assms(1) by (auto simp: in_set_conv_nth)
  then obtain s' where "stealer_step i (Ok ()) s = Some s'" using stealer_moves [of s i] assms(2,3) by auto
  with i(1) show ?thesis by auto
qed

text \<open>While the calling thread waits for a completion, not every worker can be blocked: no wake-up is lost.\<close>

lemma awaiting_progress:
  assumes "steal_ok g n P s" "steal_pc s = Awaiting" "outcomes s = []"
  shows "\<exists>i s'. i < length (stealers s) \<and> stealer_step i (Ok ()) s = Some s'"
proof (rule ccontr)
  assume stuck: "\<not> ?thesis"
  have live: "steal_live s" "0 < running (book s)" and blocked: "Blocked \<in> set (stealers s) \<longrightarrow> \<not> has_pending (queues s)"
    and len: "length (queues s) = n" "length (stealers s) = n" "next_worker s < n"
    using assms(1,2) by (simp_all add: steal_ok_def)
  have all: "w = Blocked" if "w \<in> set (stealers s)" for w
  proof (rule ccontr)
    assume "w \<noteq> Blocked"
    moreover have "w \<noteq> Ended" using that live(1) by (auto simp: steal_live_def)
    ultimately show False using moving_stealer [OF that] stuck by blast
  qed
  have "stealers s ! 0 \<in> set (stealers s)" using len by (intro nth_mem) linarith
  with all have "Blocked \<in> set (stealers s)" by metis
  with blocked have "queued (queues s) = {#}" unfolding pending_queued by blast
  moreover have "sum_list (map stealer_tasks ws) = {#}" if "\<forall>w \<in> set ws. w = Blocked" for ws :: "'a StealWorker list"
    using that by (induction ws) simp_all
  with all have "sum_list (map stealer_tasks (stealers s)) = {#}" by blast
  ultimately have "steal_flight s = {#}" using assms(3) unfolding steal_flight_def by (simp only: image_mset_empty sum_mset.empty) simp
  with live show False by (simp add: steal_live_def dispatch_live_def)
qed

lemma join_progress:
  assumes "steal_ok g n P s" "shutdown s" "\<not> all_ended s"
  shows "\<exists>i s'. i < length (stealers s) \<and> stealer_step i (Ok ()) s = Some s'"
proof -
  obtain w where w: "w \<in> set (stealers s)" "w \<noteq> Ended" using assms(3) by (auto simp: all_ended_def list_all_iff)
  moreover have "w \<noteq> Blocked" using w(1) assms(1,2) by (auto simp: steal_ok_def)
  ultimately show ?thesis by (intro moving_stealer)
qed

lemma steal_progress:
  assumes "steal_ok g n P s" "\<And>r. steal_pc s \<noteq> Delivered r"
  shows "\<exists>s'. steal_step g n P s s'"
proof -
  have "(\<exists>s'. caller_step g n s = Some s') \<or> (\<exists>i s'. i < length (stealers s) \<and> stealer_step i (Ok ()) s = Some s')"
  proof (cases "steal_pc s")
    case (Handing ts)
    then show ?thesis by (cases ts) (simp_all add: caller_step_def)
  next
    case Awaiting
    then show ?thesis using awaiting_progress [OF assms(1)]
      by (cases "outcomes s") (auto simp: caller_step_def await_step_def)
  next
    case (AwaitJoin r)
    then have "shutdown s" using assms(1) by (simp add: steal_ok_def)
    then show ?thesis using join_progress [OF assms(1)] AwaitJoin by (cases "all_ended s") (auto simp: caller_step_def)
  qed (use assms in \<open>auto simp: caller_step_def steal_ok_def\<close>)
  then show ?thesis using steal_step.caller steal_step.stealer by blast
qed

subsection \<open>Termination\<close>

text \<open>
  Between two takes, completions or steps of the calling thread the queues do not change, and a worker can only
  finish its scan and, if it was too late for a message, scan once more. \<open>scan_rank\<close> counts these steps.
\<close>

definition ahead :: "'j Queues \<Rightarrow> nat \<Rightarrow> nat \<Rightarrow> bool" where
  "ahead qs i k \<longleftrightarrow> (\<exists>m. k \<le> m \<and> m < length qs \<and> qs ! ((i + m) mod length qs) \<noteq> [])"

definition missed_rank :: "'j Queues \<Rightarrow> bool \<Rightarrow> nat" where
  "missed_rank qs stop = (if stop then 1 else if has_pending qs then length qs + 3 else 2)"

fun scan_rank :: "'j Queues \<Rightarrow> bool \<Rightarrow> nat \<Rightarrow> 'j StealWorker \<Rightarrow> nat" where
  "scan_rank qs stop i (Scanning k) = (if ahead qs i k then length qs - k + 1 else length qs - k + missed_rank qs stop)"
| "scan_rank qs stop i Missed = missed_rank qs stop"
| "scan_rank qs stop i Waiting = (if stop \<or> has_pending qs then length qs + 2 else 1)"
| "scan_rank qs stop i w = 0"

definition scan_ranks :: "'j StealPool \<Rightarrow> nat" where
  "scan_ranks s = (\<Sum>i < length (stealers s). scan_rank (queues s) (shutdown s) i (stealers s ! i))"

fun steal_pc_weight :: "DependencyGraph \<Rightarrow> StealPc \<Rightarrow> nat" where
  "steal_pc_weight g Collect = task_count g + 7"
| "steal_pc_weight g (Handing ts) = length ts + 6"
| "steal_pc_weight g Deciding = 5"
| "steal_pc_weight g Awaiting = 4"
| "steal_pc_weight g (Stopping r) = 3"
| "steal_pc_weight g (Closing r) = 2"
| "steal_pc_weight g (AwaitJoin r) = 1"
| "steal_pc_weight g _ = 0"

definition event_weight :: "DependencyGraph \<Rightarrow> 'j StealPool \<Rightarrow> nat" where
  "event_weight g s =
     (task_count g - card (completed (book s))) * (task_count g + 4) + 4 * length (jobs (book s)) +
     steal_pc_weight g (steal_pc s) + 3 * size (queued (queues s)) + 2 * size (sum_list (map stealer_tasks (stealers s))) +
     length (outcomes s)"

definition steal_weight :: "DependencyGraph \<Rightarrow> nat \<Rightarrow> 'j StealPool \<Rightarrow> nat" where
  "steal_weight g n s = event_weight g s * (n * (2 * n + 3) + 1) + scan_ranks s"

lemma scan_rank_bound: "scan_rank qs stop i w \<le> 2 * length qs + 3"
  by (cases w) (auto simp: missed_rank_def)

lemma scan_ranks_bound: "length (queues s) = n \<Longrightarrow> length (stealers s) = n \<Longrightarrow> scan_ranks s \<le> n * (2 * n + 3)"
  using sum_bounded_above [of "{..<n}" "\<lambda>i. scan_rank (queues s) (shutdown s) i (stealers s ! i)" "2 * n + 3"]
    scan_rank_bound [of "queues s"] by (simp add: scan_ranks_def)

lemma weight_event:
  assumes "event_weight g s' < event_weight g s" "length (queues s') = n" "length (stealers s') = n"
  shows "steal_weight g n s' < steal_weight g n s"
proof -
  let ?K = "n * (2 * n + 3) + 1"
  have "steal_weight g n s' < (event_weight g s' + 1) * ?K"
    using scan_ranks_bound [OF assms(2,3)] by (simp add: steal_weight_def)
  also have "\<dots> \<le> event_weight g s * ?K" using assms(1) by (intro mult_le_mono1) simp
  finally show ?thesis by (simp add: steal_weight_def)
qed

lemma weight_scan: "event_weight g s' = event_weight g s \<Longrightarrow> scan_ranks s' < scan_ranks s \<Longrightarrow> steal_weight g n s' < steal_weight g n s"
  by (simp add: steal_weight_def)

lemma ahead_0: "i < length qs \<Longrightarrow> ahead qs i 0 \<longleftrightarrow> has_pending qs"
  by (simp add: ahead_def has_pending_offset)

lemma ahead_Suc: "k < length qs \<Longrightarrow> probe i k qs = None \<Longrightarrow> ahead qs i k \<longleftrightarrow> ahead qs i (Suc k)"
  unfolding ahead_def probe_None by (metis Suc_leD Suc_leI le_neq_implies_less)

lemma ahead_less: "ahead qs i k \<Longrightarrow> k < length qs"
  by (auto simp: ahead_def)

text \<open>The steps of a worker that touch no queue and no completion.\<close>

lemma scan_step_rank:
  assumes "i < length qs" "w = Scanning k \<longrightarrow> k < length qs \<and> probe i k qs = None"
    and "(w', w) \<in> {(if k + 1 < length qs then Scanning (k + 1) else Missed, Scanning k),
      (if stop then Ended else Waiting, Missed), (if \<not> stop \<and> \<not> has_pending qs then Blocked else Scanning 0, Waiting)}"
  shows "scan_rank qs stop i w' < scan_rank qs stop i w"
proof -
  consider "w = Scanning k" "w' = (if k + 1 < length qs then Scanning (k + 1) else Missed)"
    | "w = Missed" "w' = (if stop then Ended else Waiting)"
    | "w = Waiting" "w' = (if \<not> stop \<and> \<not> has_pending qs then Blocked else Scanning 0)"
    using assms(3) by auto
  then show ?thesis
  proof cases
    case 1
    then have k: "k < length qs" "ahead qs i k \<longleftrightarrow> ahead qs i (Suc k)" using assms(2) ahead_Suc by blast+
    then show ?thesis using 1 ahead_less [of qs i "Suc k"] by auto
  next
    case 2
    then show ?thesis by (auto simp: missed_rank_def)
  next
    case 3
    then show ?thesis using ahead_0 [OF assms(1)] assms(1) by (auto simp: missed_rank_def)
  qed
qed

lemma scan_ranks_update:
  assumes "i < length (stealers s)" "scan_rank (queues s) (shutdown s) i w < scan_rank (queues s) (shutdown s) i (stealers s ! i)"
  shows "scan_ranks (s\<lparr>stealers := (stealers s)[i := w]\<rparr>) < scan_ranks s"
  unfolding scan_ranks_def using assms
  by (simp, intro sum_strict_mono_ex1) (auto simp: nth_list_update)

lemma idle_tasks_update:
  "i < length ws \<Longrightarrow> stealer_tasks (ws ! i) = {#} \<Longrightarrow> stealer_tasks w = {#} \<Longrightarrow>
    sum_list (map stealer_tasks (ws[i := w])) = sum_list (map stealer_tasks ws)"
  using sum_list_update [of i ws stealer_tasks w] by simp

lemma scan_step_weight:
  assumes "i < length (stealers s)" "stealer_tasks (stealers s ! i) = {#}" "stealer_tasks w = {#}"
    and "scan_rank (queues s) (shutdown s) i w < scan_rank (queues s) (shutdown s) i (stealers s ! i)"
  shows "steal_weight g n (s\<lparr>stealers := (stealers s)[i := w]\<rparr>) < steal_weight g n s"
  by (rule weight_scan) (simp_all add: event_weight_def idle_tasks_update [OF assms(1-3)] scan_ranks_update [OF assms(1,4)])

lemma stealer_step_weight:
  assumes ok: "steal_ok g n P s" and i: "i < length (stealers s)" and step: "stealer_step i r s = Some s'"
  shows "steal_weight g n s' < steal_weight g n s"
proof -
  have len: "length (queues s) = n" "length (stealers s) = n" using ok by (simp_all add: steal_ok_def)
  have iq: "i < length (queues s)" using i len by simp
  have len': "length (queues s') = n" "length (stealers s') = n"
    using stealer_step_frame [OF i step] stealer_step_queues [OF i _ step] len by simp_all
  have scan: ?thesis if "s' = s\<lparr>stealers := (stealers s)[i := w]\<rparr>" "stealer_tasks (stealers s ! i) = {#}" "stealer_tasks w = {#}"
      "scan_rank (queues s) (shutdown s) i w < scan_rank (queues s) (shutdown s) i (stealers s ! i)" for w
    unfolding that(1) using scan_step_weight [OF i that(2-4)] .
  show ?thesis
  proof (cases "stealers s ! i")
    case (Scanning k)
    then have k: "k < length (queues s)" using ok i len by (simp add: steal_ok_def)
    show ?thesis
    proof (cases "probe i k (queues s)")
      case None
      let ?w = "if k + 1 < length (queues s) then Scanning (k + 1) else Missed"
      have "scan_rank (queues s) (shutdown s) i ?w < scan_rank (queues s) (shutdown s) i (stealers s ! i)"
        by (rule scan_step_rank [OF iq, of _ k]) (use Scanning None k in simp_all)
      then show ?thesis using step Scanning None by (intro scan [of ?w]) (simp_all add: stealer_step_def)
    next
      case (Some mq)
      obtain m qs where m: "mq = (m, qs)" by (cases mq)
      note q = probe_offset [OF iq Some [unfolded m]]
      have tasks: "size (sum_list (map stealer_tasks ((stealers s)[i := w]))) = size (sum_list (map stealer_tasks (stealers s))) + size (stealer_tasks w)" for w
        using sum_list_update [OF i, of stealer_tasks w] Scanning by simp
      have "event_weight g s' < event_weight g s"
        using step Scanning Some m q tasks by (cases m) (auto simp: stealer_step_def event_weight_def)
      then show ?thesis by (rule weight_event [OF _ len'])
    qed
  next
    case Missed
    let ?w = "if shutdown s then Ended else Waiting"
    have "scan_rank (queues s) (shutdown s) i ?w < scan_rank (queues s) (shutdown s) i (stealers s ! i)"
      by (rule scan_step_rank [OF iq]) (use Missed in simp_all)
    then show ?thesis using step Missed by (intro scan [of ?w]) (simp_all add: stealer_step_def)
  next
    case Waiting
    let ?w = "if \<not> shutdown s \<and> \<not> has_pending (queues s) then Blocked else Scanning 0"
    have "scan_rank (queues s) (shutdown s) i ?w < scan_rank (queues s) (shutdown s) i (stealers s ! i)"
      by (rule scan_step_rank [OF iq]) (use Waiting in simp_all)
    then show ?thesis using step Waiting by (intro scan [of ?w]) (simp_all add: stealer_step_def)
  next
    case (Executing t j)
    have tasks: "Suc (size (sum_list (map stealer_tasks ((stealers s)[i := w])))) = size (sum_list (map stealer_tasks (stealers s)))"
      if "stealer_tasks w = {#}" for w
      using arg_cong [OF sum_list_update [OF i, of stealer_tasks w], of size] Executing that by simp
    have "event_weight g s' < event_weight g s"
      using step Executing tasks [of Ended] tasks [of "Scanning 0"] by (auto simp: stealer_step_def event_weight_def split: if_splits)
    then show ?thesis by (rule weight_event [OF _ len'])
  qed (use step in \<open>simp_all add: stealer_step_def\<close>)
qed

lemma hand_step_weight:
  assumes "steal_pc s = Handing (t # ts)" "next_worker s < length (queues s)"
  shows "event_weight g (hand_step n t ts s) < event_weight g s"
proof (cases "remove_job t (book s)")
  case None
  then show ?thesis using assms by (simp add: hand_step_def event_weight_def)
next
  case (Some jd)
  obtain j d where jd: "jd = (j, d)" by (cases jd)
  have "t \<in> fst ` set (jobs (book s))" "jobs d = filter (\<lambda>(k, _). k \<noteq> t) (jobs (book s))"
    using Some jd bt_get_None [of "jobs (book s)" t] by (auto simp: remove_job_def)
  then have "length (jobs d) < length (jobs (book s))" by (auto intro!: length_filter_less)
  moreover have "completed d = completed (book s)" using remove_job_frame [OF Some [unfolded jd]] by simp
  moreover have "queued (enqueue (next_worker s) (Run t j) (queues s)) = add_mset (Run t j) (queued (queues s))"
    using queued_enqueue [OF assms(2)] .
  ultimately show ?thesis using assms(1) Some jd
    by (simp add: hand_step_def event_weight_def submit_def del: map_map)
qed

lemma await_step_weight:
  assumes "steal_ok g n P s" "pool_input g n" "steal_pc s = Awaiting" "await_step s = Some s'"
  shows "event_weight g s' < event_weight g s"
proof (cases "outcomes s")
  case Nil
  then show ?thesis using assms(3,4) by (auto simp: await_step_def event_weight_def split: if_splits)
next
  case (Cons c rest)
  obtain t r where tr: "c = (t, r)" by (cases c)
  have fl: "steal_flight s = add_mset t (steal_flight (s\<lparr>outcomes := rest\<rparr>))" using Cons tr by (simp add: steal_flight_def)
  have ok: "dispatch_ok g (add_mset t (steal_flight (s\<lparr>outcomes := rest\<rparr>))) (book s)" and g: "graph_ok g"
    using assms(1,2) fl by (simp_all add: steal_ok_def pool_input_def)
  show ?thesis
  proof (cases "settle t r (book s)")
    case None
    then show ?thesis using assms(3,4) Cons tr by (auto simp: await_step_def event_weight_def)
  next
    case (Some xd)
    obtain x d where xd: "xd = (x, d)" by (cases xd)
    note w = settle_weight [OF g ok Some [unfolded xd]]
    have "x = map_sum (TaskFailed t) id r" using Some xd by (auto simp: settle_def split: sum.splits if_splits)
    then show ?thesis using assms(3,4) Cons tr Some xd w
      by (cases r) (auto simp: await_step_def event_weight_def)
  qed
qed

lemma caller_step_weight:
  assumes "steal_ok g n P s" "pool_input g n" "caller_step g n s = Some s'"
  shows "event_weight g s' < event_weight g s"
proof (cases "steal_pc s")
  case Collect
  have "length (ready_tasks g c) \<le> task_count g" for c
    unfolding ready_tasks_def task_count_def task_ids_def using length_filter_le [of _ "map fst (graph_tasks g)"] by simp
  then show ?thesis using Collect assms(3) by (auto simp: caller_step_def event_weight_def less_Suc_eq_le)
next
  case (Handing ts)
  show ?thesis
  proof (cases ts)
    case Nil
    then show ?thesis using Handing assms(3) by (auto simp: caller_step_def event_weight_def)
  next
    case (Cons t ts')
    then have "s' = hand_step n t ts' s" using Handing assms(3) by (simp add: caller_step_def)
    moreover have "next_worker s < length (queues s)" using assms(1) by (simp add: steal_ok_def)
    ultimately show ?thesis using hand_step_weight Handing Cons by blast
  qed
next
  case Deciding
  then show ?thesis using assms(3) by (auto simp: caller_step_def event_weight_def split: option.splits)
next
  case Awaiting
  then show ?thesis using await_step_weight [OF assms(1,2)] assms(3) by (simp add: caller_step_def)
next
  case (AwaitJoin r)
  then show ?thesis using assms(3) by (auto simp: caller_step_def event_weight_def split: if_splits)
qed (use assms in \<open>auto simp: caller_step_def event_weight_def simp del: map_map\<close>)

lemma steal_step_weight:
  assumes "steal_step g n P s s'" "pool_input g n" "steal_ok g n P s"
  shows "steal_weight g n s' < steal_weight g n s"
proof -
  have len: "length (queues s') = n" "length (stealers s') = n"
    using steal_step_ok [OF assms] by (simp_all add: steal_ok_def)
  from assms(1) show ?thesis
  proof cases
    case caller
    then show ?thesis using caller_step_weight [OF assms(3,2)] weight_event [OF _ len] by blast
  qed (use stealer_step_weight [OF assms(3)] in blast)+
qed

lemma steal_steps_bound:
  assumes "(steal_step g n P ^^ k) s s'" "pool_input g n" "steal_ok g n P s"
  shows "k + steal_weight g n s' \<le> steal_weight g n s \<and> steal_ok g n P s'"
  using assms(1)
proof (induction k arbitrary: s')
  case (Suc k)
  then obtain u where u: "(steal_step g n P ^^ k) s u" "steal_step g n P u s'" by auto
  from Suc.IH [OF u(1)] have IH: "k + steal_weight g n u \<le> steal_weight g n s" "steal_ok g n P u" by simp_all
  show ?case using steal_step_weight [OF u(2) assms(2) IH(2)] steal_step_ok [OF u(2) assms(2) IH(2)] IH(1) by simp
qed (use assms in simp)

text \<open>Runs by a schedule, as for the fixed pool.\<close>

fun steal_drive :: "DependencyGraph \<Rightarrow> nat \<Rightarrow> nat option list \<Rightarrow> 'j StealPool \<Rightarrow> 'j StealPool option" where
  "steal_drive g n [] s = Some s"
| "steal_drive g n (None # as) s = Option.bind (caller_step g n s) (steal_drive g n as)"
| "steal_drive g n (Some i # as) s =
     (if i < length (stealers s) then Option.bind (stealer_step i (Ok ()) s) (steal_drive g n as) else None)"

lemma steal_drive_steps: "steal_drive g n as s = Some s' \<Longrightarrow> (steal_step g n P ^^ length as) s s'"
proof (induction g n as s rule: steal_drive.induct)
  case (2 g n as s)
  then obtain u where "caller_step g n s = Some u" "(steal_step g n P ^^ length as) u s'" by (auto simp: bind_eq_Some_conv)
  then have "steal_step g n P s u" by (intro steal_step.caller)
  then have "(steal_step g n P ^^ Suc (length as)) s s'" using \<open>(steal_step g n P ^^ length as) u s'\<close> by (rule relpowp_Suc_I2)
  then show ?case by simp
next
  case (3 g n i as s)
  then obtain u where "i < length (stealers s)" "stealer_step i (Ok ()) s = Some u" "(steal_step g n P ^^ length as) u s'"
    by (auto simp: bind_eq_Some_conv split: if_splits)
  then have "steal_step g n P s u" by (intro steal_step.stealer)
  then have "(steal_step g n P ^^ Suc (length as)) s s'" using \<open>(steal_step g n P ^^ length as) u s'\<close> by (rule relpowp_Suc_I2)
  then show ?case by simp
qed simp

subsection \<open>Properties of the pool\<close>

text \<open>
  C34. The work-stealing pool ends in every interleaving: the number of steps is bounded by the weight of the first
  state, and before the call has returned some thread can make a step, so no wake-up of a waiting worker is lost.
  The call returns a report that lists every task once after its dependencies, or the failure of a task that panicked.
\<close>

theorem steal_returns:
  assumes "graph_ok g" "acyclic (edges_rel g)" "0 < n" "steal_start g n js = Ok s0" "(steal_step g n P ^^ k) s0 s"
  shows "k \<le> steal_weight g n s0 \<and>
    ((\<exists>s'. steal_step g n P s s') \<or>
     (\<exists>r. steal_pc s = Delivered r \<and> all_ended s \<and>
       (case r of
          Inr rep \<Rightarrow> report_workers rep = n \<and> distinct (report_order rep) \<and> set (report_order rep) = tasks_of g \<and>
            (\<forall>i < length (report_order rep). deps g (report_order rep ! i) \<subseteq> set (take i (report_order rep)))
        | Inl e \<Rightarrow> \<exists>t \<in> tasks_of g \<inter> P. e = TaskFailed t Panicked)))"
proof -
  have inp: "pool_input g n" using assms(1-3) by (simp add: pool_input_def)
  have b: "k + steal_weight g n s \<le> steal_weight g n s0" "steal_ok g n P s"
    using steal_steps_bound [OF assms(5) inp steal_start_ok [OF assms(4,3)]] by simp_all
  show ?thesis
  proof (cases "\<exists>r. steal_pc s = Delivered r")
    case True
    then obtain r where r: "steal_pc s = Delivered r" by blast
    then have "all_ended s" "result_ok g n P r" using b(2) by (simp_all add: steal_ok_def)
    then show ?thesis using b(1) r by (simp add: result_ok_def respects_edges_def split: sum.splits)
  next
    case False
    then show ?thesis using b(1) steal_progress [OF b(2)] by simp
  qed
qed

definition frame_steal_pool :: "unit StealPool" where
  "frame_steal_pool =
     \<lparr>steal_pc = Collect, book = dispatch_new [(1, ()), (2, ())], next_worker = 0, queues = [[]], shutdown = False,
      receiver_open = True, outcomes = [], stealers = [Scanning 0]\<rparr>"

definition frame_steal_schedule :: "nat option list" where
  "frame_steal_schedule =
     replicate 4 None @ replicate 2 (Some 0) @ replicate 5 None @ replicate 2 (Some 0) @ replicate 6 None @ replicate 2 (Some 0) @ [None]"

definition frame_steal_end :: "unit StealPool" where
  "frame_steal_end = the (steal_drive frame_graph 1 frame_steal_schedule frame_steal_pool)"

lemma frame_steal_start: "steal_start frame_graph 1 [(1, ()), (2, ())] = Ok frame_steal_pool"
  by code_simp

lemma frame_steal_steps: "(steal_step frame_graph 1 {} ^^ length frame_steal_schedule) frame_steal_pool frame_steal_end"
  unfolding frame_steal_end_def by (rule steal_drive_steps, rule option.collapse [symmetric], code_simp)

lemma steal_returns_witness:
  "(steal_step frame_graph 1 {} ^^ length frame_steal_schedule) frame_steal_pool frame_steal_end \<and>
    length frame_steal_schedule \<le> steal_weight frame_graph 1 frame_steal_pool"
  using steal_returns [OF frame_graph_ok frame_graph_acyclic _ frame_steal_start frame_steal_steps] frame_steal_steps by simp

end
