(* ===== verification/Parallel_Loops.thy ===== *)
theory Parallel_Loops
  imports Work_Stealing
begin

text \<open>
  The crate \<open>jadren-concurrency\<close>, fifth part: the parallel loops on the work-stealing pool, which cut an index range
  into chunks, one task each, and the cancellation scope. A job of a loop is the list of the indices it runs.
\<close>

subsection \<open>Chunks\<close>

definition usize_max :: nat where
  "usize_max = 2 ^ 64 - 1"

definition u32_max :: nat where
  "u32_max = 2 ^ 32 - 1"

datatype ParallelForError = InvalidChunkSize | TooManyChunks | LoopPool PoolError

datatype ParallelReduceError = InvalidReduceChunkSize | TooManyReduceChunks | MissingChunk nat | ReducePool PoolError

record ParallelForConfig =
  chunk_size :: nat

definition parallel_for_config :: "nat \<Rightarrow> (ParallelForError, ParallelForConfig) result" where
  "parallel_for_config n = (if n = 0 then Err InvalidChunkSize else Ok \<lparr>chunk_size = n\<rparr>)"

definition chunk_count :: "nat \<Rightarrow> nat \<Rightarrow> nat" where
  "chunk_count iterations width = iterations div width + (if iterations mod width = 0 then 0 else 1)"

text \<open>
  The indices of a chunk. The addition of the chunk width may overflow: a build with overflow checks panics, one without
  wraps around. The start of a chunk is below the number of iterations.
\<close>

definition chunk_range :: "bool \<Rightarrow> nat \<Rightarrow> nat \<Rightarrow> nat \<Rightarrow> nat list option" where
  "chunk_range checked iterations width chunk =
     (let start = chunk * width; stop = start + width in
      if stop \<le> usize_max then Some [start..<min stop iterations]
      else if checked then None
      else Some [start..<min (stop mod 2 ^ 64) iterations])"

definition loop_task :: "ustring \<Rightarrow> nat \<Rightarrow> TaskSpec" where
  "loop_task name chunk = task_new (of_nat chunk) (name @ lit ''['' @ nat_to_string chunk @ lit '']'')"

fun add_chunks :: "bool \<Rightarrow> ustring \<Rightarrow> nat \<Rightarrow> nat \<Rightarrow> nat list \<Rightarrow> TaskGraphBuilder \<Rightarrow> (TaskId \<times> nat list) list \<Rightarrow>
    (TaskGraphBuilder \<times> (TaskId \<times> nat list) list) option" where
  "add_chunks checked name iterations width [] b js = Some (b, js)"
| "add_chunks checked name iterations width (chunk # chunks) b js =
     (case chunk_range checked iterations width chunk of
        None \<Rightarrow> None
      | Some indices \<Rightarrow>
          (case add_task (loop_task name chunk) b of
             Inl e \<Rightarrow> None
           | Inr b' \<Rightarrow> add_chunks checked name iterations width chunks b' (bt_insert (of_nat chunk) indices js)))"

text \<open>The graph and the jobs of a loop; \<open>None\<close> is a failed \<open>expect\<close> or an overflow.\<close>

definition loop_plan :: "bool \<Rightarrow> ustring \<Rightarrow> nat \<Rightarrow> nat \<Rightarrow> (DependencyGraph \<times> (TaskId \<times> nat list) list) option" where
  "loop_plan checked name iterations width =
     (case add_chunks checked name iterations width [0..<chunk_count iterations width] \<lparr>builder_tasks = []\<rparr> [] of
        None \<Rightarrow> None
      | Some (b, js) \<Rightarrow> (case build_graph b of Some (Inr g) \<Rightarrow> Some (g, js) | _ \<Rightarrow> None))"

subsection \<open>The loops\<close>

record ParallelForReport =
  for_iterations :: nat
  for_chunks :: nat
  completed_chunks :: "TaskId list"
  for_workers :: nat

text \<open>What the loops do before and after \<open>execute\<close>.\<close>

definition parallel_for_start :: "bool \<Rightarrow> nat \<Rightarrow> ParallelForConfig \<Rightarrow>
    (ParallelForError, DependencyGraph \<times> (TaskId \<times> nat list) list) result option" where
  "parallel_for_start checked iterations config =
     (if u32_max < chunk_count iterations (chunk_size config) then Some (Err TooManyChunks)
      else map_option Inr (loop_plan checked (lit ''parallel_for'') iterations (chunk_size config)))"

definition parallel_for_finish :: "nat \<Rightarrow> ParallelForConfig \<Rightarrow> ExecutionResult \<Rightarrow> (ParallelForError, ParallelForReport) result" where
  "parallel_for_finish iterations config r =
     (case r of
        Inl e \<Rightarrow> Err (LoopPool e)
      | Inr rep \<Rightarrow> Ok \<lparr>for_iterations = iterations, for_chunks = chunk_count iterations (chunk_size config),
          completed_chunks = report_order rep, for_workers = report_workers rep\<rparr>)"

definition parallel_reduce_start :: "bool \<Rightarrow> nat \<Rightarrow> ParallelForConfig \<Rightarrow>
    (ParallelReduceError, DependencyGraph \<times> (TaskId \<times> nat list) list) result option" where
  "parallel_reduce_start checked iterations config =
     (if u32_max < chunk_count iterations (chunk_size config) then Some (Err TooManyReduceChunks)
      else map_option Inr (loop_plan checked (lit ''parallel_reduce'') iterations (chunk_size config)))"

record 't ParallelReduceReport =
  reduced_value :: 't
  reduce_iterations :: nat
  reduce_chunks :: nat
  reduce_completed :: "TaskId list"
  reduce_workers :: nat

definition chunk_value :: "'t \<Rightarrow> (nat \<Rightarrow> 't) \<Rightarrow> ('t \<Rightarrow> 't \<Rightarrow> 't) \<Rightarrow> nat list \<Rightarrow> 't" where
  "chunk_value initial f reduce indices = foldl (\<lambda>value index. reduce value (f index)) initial indices"

text \<open>A job stores its value in the slot of its chunk, under the lock.\<close>

definition store_partial :: "'t \<Rightarrow> (nat \<Rightarrow> 't) \<Rightarrow> ('t \<Rightarrow> 't \<Rightarrow> 't) \<Rightarrow> (TaskId \<times> nat list) list \<Rightarrow> TaskId \<Rightarrow> 't option list \<Rightarrow> 't option list" where
  "store_partial initial f reduce js t partials =
     (case bt_get js t of
        None \<Rightarrow> partials
      | Some indices \<Rightarrow> partials[unat t := Some (chunk_value initial f reduce indices)])"

fun combine_partials :: "('t \<Rightarrow> 't \<Rightarrow> 't) \<Rightarrow> nat \<Rightarrow> 't option list \<Rightarrow> 't \<Rightarrow> (ParallelReduceError, 't) result" where
  "combine_partials reduce chunk [] value = Ok value"
| "combine_partials reduce chunk (p # partials) value =
     (case p of
        None \<Rightarrow> Err (MissingChunk chunk)
      | Some v \<Rightarrow> combine_partials reduce (chunk + 1) partials (reduce value v))"

definition parallel_reduce_finish :: "'t \<Rightarrow> (nat \<Rightarrow> 't) \<Rightarrow> ('t \<Rightarrow> 't \<Rightarrow> 't) \<Rightarrow> nat \<Rightarrow> ParallelForConfig \<Rightarrow>
    (TaskId \<times> nat list) list \<Rightarrow> ExecutionResult \<Rightarrow> (ParallelReduceError, 't ParallelReduceReport) result" where
  "parallel_reduce_finish initial f reduce iterations config js r =
     (case r of
        Inl e \<Rightarrow> Err (ReducePool e)
      | Inr rep \<Rightarrow>
          result_bind (combine_partials reduce 0
            (fold (store_partial initial f reduce js) (report_order rep)
              (replicate (chunk_count iterations (chunk_size config)) None)) initial)
          (\<lambda>v. Ok \<lparr>reduced_value = v, reduce_iterations = iterations,
            reduce_chunks = chunk_count iterations (chunk_size config),
            reduce_completed = report_order rep, reduce_workers = report_workers rep\<rparr>))"

subsection \<open>Cancellation scopes\<close>

datatype ScopeError = Cancelled | ScopePool PoolError

text \<open>A scoped job sees the token of its scope, the second component of the state; it may cancel the scope.\<close>

type_synonym 's scoped_state = "'s \<times> bool"

definition wrap_scoped_jobs :: "(TaskId \<times> 's scoped_state job) list \<Rightarrow> (TaskId \<times> 's scoped_state job) list" where
  "wrap_scoped_jobs js = map (\<lambda>(t, j). (t, \<lambda>s. if snd s then (s, Ok ()) else j s)) js"

definition scope_result :: "bool \<Rightarrow> ExecutionResult \<Rightarrow> (ScopeError, ExecutionReport) result" where
  "scope_result cancelled r =
     (case r of
        Inl e \<Rightarrow> Err (ScopePool e)
      | Inr rep \<Rightarrow> if cancelled then Err Cancelled else Ok rep)"

definition scope_run_deterministic :: "DependencyGraph \<Rightarrow> (TaskId \<times> 's scoped_state job) list \<Rightarrow> 's scoped_state \<Rightarrow>
    ('s scoped_state \<times> (ScopeError, ExecutionReport) result) option" where
  "scope_run_deterministic g js s =
     map_option (\<lambda>(s', r). (s', scope_result (snd s') r)) (run_deterministic g (wrap_scoped_jobs js) s)"

subsection \<open>The chunks cover the range\<close>

lemma chunk_count_bounds:
  assumes "0 < width"
  shows "(chunk_count iterations width - 1) * width \<le> iterations" "iterations \<le> chunk_count iterations width * width"
    and "chunk < chunk_count iterations width \<Longrightarrow> chunk * width < iterations"
proof -
  let ?q = "iterations div width" and ?r = "iterations mod width"
  have it: "iterations = ?q * width + ?r" "?r < width" using assms by simp_all
  show "iterations \<le> chunk_count iterations width * width"
  proof (cases "?r = 0")
    case True
    then have "chunk_count iterations width * width = ?q * width" by (simp add: chunk_count_def)
    then show ?thesis using it True by linarith
  next
    case False
    then have "chunk_count iterations width * width = ?q * width + width" by (simp add: chunk_count_def)
    then show ?thesis using it by linarith
  qed
  have less: "chunk * width < iterations" if "chunk < chunk_count iterations width" for chunk
  proof (cases "?r = 0")
    case True
    then have "chunk * width < ?q * width" using that assms by (simp add: chunk_count_def)
    then show ?thesis using it by linarith
  next
    case False
    then have "chunk * width \<le> ?q * width" using that by (simp add: chunk_count_def)
    then show ?thesis using it False by linarith
  qed
  then show "chunk < chunk_count iterations width \<Longrightarrow> chunk * width < iterations" .
  show "(chunk_count iterations width - 1) * width \<le> iterations"
    using less [of "chunk_count iterations width - 1"] by (cases "chunk_count iterations width") auto
qed

text \<open>
  What a loop covers. The chunks are cut to the range, except that the last one is empty when its end is beyond the
  largest \<open>usize\<close> and wraps around; the loop then covers only the chunks before it.
\<close>

definition fits :: "nat \<Rightarrow> nat \<Rightarrow> bool" where
  "fits iterations width \<longleftrightarrow> chunk_count iterations width * width \<le> usize_max"

definition covered :: "nat \<Rightarrow> nat \<Rightarrow> nat" where
  "covered iterations width = (if fits iterations width then iterations else (chunk_count iterations width - 1) * width)"

definition chunk_indices :: "nat \<Rightarrow> nat \<Rightarrow> nat \<Rightarrow> nat list" where
  "chunk_indices iterations width chunk =
     (if Suc chunk * width \<le> usize_max then [chunk * width..<min (Suc chunk * width) iterations] else [])"

text \<open>The arguments of a loop: the chunk width is positive by construction, and both numbers are machine words.\<close>

definition loop_args :: "nat \<Rightarrow> nat \<Rightarrow> bool" where
  "loop_args iterations width \<longleftrightarrow> 0 < width \<and> width \<le> usize_max \<and> iterations \<le> usize_max"

lemma loop_argsD: "loop_args iterations width \<Longrightarrow> 0 < width" "loop_args iterations width \<Longrightarrow> width \<le> usize_max"
    "loop_args iterations width \<Longrightarrow> iterations \<le> usize_max"
  by (simp_all add: loop_args_def)

lemma inner_chunk_fits:
  assumes "loop_args iterations width" "Suc chunk < chunk_count iterations width"
  shows "Suc chunk * width \<le> usize_max"
  using chunk_count_bounds(3) [OF loop_argsD(1) [OF assms(1)] assms(2)] loop_argsD(3) [OF assms(1)] by linarith

lemma fits_chunk:
  assumes "fits iterations width" "chunk < chunk_count iterations width"
  shows "Suc chunk * width \<le> usize_max"
proof -
  have "Suc chunk * width \<le> chunk_count iterations width * width" using assms(2) by (intro mult_le_mono1) simp
  then show ?thesis using assms(1) by (simp add: fits_def)
qed

lemma chunk_range_Some:
  assumes a: "loop_args iterations width" and c: "chunk < chunk_count iterations width" and f: "checked \<longrightarrow> fits iterations width"
  shows "chunk_range checked iterations width chunk = Some (chunk_indices iterations width chunk)"
proof (cases "Suc chunk * width \<le> usize_max")
  case True
  then show ?thesis by (simp add: chunk_range_def chunk_indices_def Let_def add.commute)
next
  case False
  then have "\<not> checked" using fits_chunk [OF _ c] f by blast
  have start: "chunk * width \<le> usize_max" using chunk_count_bounds(3) [OF loop_argsD(1) [OF a] c] loop_argsD(3) [OF a] by linarith
  let ?stop = "chunk * width + width"
  have stop: "usize_max < ?stop" "?stop < 2 * 2 ^ 64" using False start loop_argsD(2) [OF a] by (simp_all add: usize_max_def add.commute)
  then have "?stop mod 2 ^ 64 = ?stop - 2 ^ 64" by (subst le_mod_geq) (simp_all add: usize_max_def)
  then have "?stop mod 2 ^ 64 \<le> chunk * width" using loop_argsD(2) [OF a] by (simp add: usize_max_def)
  then show ?thesis using \<open>\<not> checked\<close> False stop(1) by (simp add: chunk_range_def chunk_indices_def Let_def add.commute)
qed

lemma chunk_range_None:
  assumes "loop_args iterations width" "\<not> fits iterations width"
  shows "0 < chunk_count iterations width \<and> chunk_range True iterations width (chunk_count iterations width - 1) = None"
proof -
  have "chunk_count iterations width \<noteq> 0" using assms(2) unfolding fits_def by (metis mult_zero_left zero_le)
  then obtain k where "chunk_count iterations width = Suc k" by (cases "chunk_count iterations width") simp_all
  then show ?thesis using assms(2) by (simp add: fits_def chunk_range_def Let_def add.commute)
qed

lemma concat_chunks:
  "concat (map (\<lambda>chunk. [chunk * width..<min (Suc chunk * width) iterations]) [0..<k]) = [0..<min (k * width) iterations]"
proof (induction k)
  case (Suc k)
  show ?case
  proof (cases "k * width \<le> iterations")
    case True
    then have "min (k * width) iterations = k * width" "k * width \<le> min (Suc k * width) iterations" by simp_all
    then show ?thesis using Suc upt_add_eq_append [of 0 "k * width" "min (Suc k * width) iterations - k * width"] by simp
  next
    case False
    then show ?thesis using Suc by (simp add: min_def)
  qed
qed simp

lemma concat_chunk_indices:
  assumes a: "loop_args iterations width"
  shows "concat (map (chunk_indices iterations width) [0..<chunk_count iterations width]) = [0..<covered iterations width]"
proof -
  let ?n = "chunk_count iterations width"
  have cut: "concat (map (chunk_indices iterations width) [0..<k]) = [0..<min (k * width) iterations]"
    if "\<forall>c < k. Suc c * width \<le> usize_max" for k
  proof -
    have "map (chunk_indices iterations width) [0..<k] = map (\<lambda>c. [c * width..<min (Suc c * width) iterations]) [0..<k]"
      using that by (simp add: chunk_indices_def)
    then show ?thesis using concat_chunks [of width iterations k] by (simp only:)
  qed
  show ?thesis
  proof (cases "fits iterations width")
    case True
    then show ?thesis using cut [of ?n] fits_chunk [OF True] chunk_count_bounds(2) [OF loop_argsD(1) [OF a], of iterations]
      by (simp add: covered_def)
  next
    case False
    then obtain k where k: "?n = Suc k" using chunk_range_None [OF a] by (cases ?n) auto
    have "concat (map (chunk_indices iterations width) [0..<k]) = [0..<k * width]"
      using cut [of k] inner_chunk_fits [OF a] chunk_count_bounds(1) [OF loop_argsD(1) [OF a], of iterations] k by simp
    moreover have "chunk_indices iterations width k = []" using False k by (simp add: chunk_indices_def fits_def)
    ultimately show ?thesis using False k by (simp add: covered_def)
  qed
qed

subsection \<open>The graph of a loop\<close>

lemma trim_first: "\<not> is_whitespace c \<Longrightarrow> trim (c # s) \<noteq> []"
  by (auto simp: trim_def trim_start_matches_def trim_end_matches_def)

lemma of_nat_task_less: "a < b \<Longrightarrow> b \<le> u32_max \<Longrightarrow> (of_nat a :: TaskId) < of_nat b"
  by (simp add: word_less_nat_alt unat_of_nat u32_max_def take_bit_nat_eq_self)

lemma add_task_plain:
  assumes "trim (task_label t) \<noteq> []" "accesses t = []" "\<forall>x \<in> set ts. fst x < task_id t"
  shows "add_task t \<lparr>builder_tasks = ts\<rparr> = Ok \<lparr>builder_tasks = ts @ [(task_id t, t)]\<rparr>"
proof -
  have "bt_get ts (task_id t) = None" unfolding bt_get_None using assms(3) by auto
  then show ?thesis using assms bt_insert_last [OF assms(3)] by (simp add: add_task_def)
qed

lemma add_chunks_plan:
  assumes w: "loop_args iterations width" "checked \<longrightarrow> fits iterations width" and n: "n \<le> chunk_count iterations width" "n \<le> u32_max + 1"
    and name: "name \<noteq> []" "\<not> is_whitespace (hd name)" and k: "k \<le> n"
  shows "add_chunks checked name iterations width [k..<n]
      \<lparr>builder_tasks = map (\<lambda>c. (of_nat c, loop_task name c)) [0..<k]\<rparr>
      (map (\<lambda>c. (of_nat c, chunk_indices iterations width c)) [0..<k]) =
    Some (\<lparr>builder_tasks = map (\<lambda>c. (of_nat c, loop_task name c)) [0..<n]\<rparr>,
      map (\<lambda>c. (of_nat c, chunk_indices iterations width c)) [0..<n])"
  using k
proof (induction "n - k" arbitrary: k)
  case (Suc m)
  then have kn: "k < n" by simp
  have range: "chunk_range checked iterations width k = Some (chunk_indices iterations width k)"
    using chunk_range_Some [OF w(1) _ w(2)] kn n(1) by simp
  have less: "(of_nat c :: TaskId) < of_nat k" if "c < k" for c
    using of_nat_task_less [OF that] kn n(2) by simp
  have label: "trim (task_label (loop_task name k)) \<noteq> []"
    using trim_first [OF name(2), of "tl name @ x" for x] name(1) by (cases name) (auto simp: loop_task_def task_new_def trim_first)
  have "add_task (loop_task name k) \<lparr>builder_tasks = map (\<lambda>c. (of_nat c, loop_task name c)) [0..<k]\<rparr> =
      Ok \<lparr>builder_tasks = map (\<lambda>c. (of_nat c, loop_task name c)) [0..<k] @ [(of_nat k, loop_task name k)]\<rparr>"
    using add_task_plain [OF label] less by (auto simp: loop_task_def task_new_def)
  moreover have "bt_insert (of_nat k) v (map (\<lambda>c. (of_nat c :: TaskId, h c)) [0..<k]) = map (\<lambda>c. (of_nat c, h c)) [0..<k] @ [(of_nat k, v)]"
    for v :: "nat list" and h
    using less by (intro bt_insert_last) auto
  moreover have "[k..<n] = k # [Suc k..<n]" using kn by (rule upt_conv_Cons)
  moreover have "m = n - Suc k" "Suc k \<le> n" using Suc.hyps(2) kn by simp_all
  ultimately show ?case using Suc.hyps(1) [of "Suc k"] range by simp
qed simp

lemma add_chunks_None:
  "chunk \<in> set chunks \<Longrightarrow> chunk_range checked iterations width chunk = None \<Longrightarrow>
    add_chunks checked name iterations width chunks b js = None"
  by (induction chunks arbitrary: b js) (auto split: option.split sum.split)

text \<open>Tasks without accesses and dependencies make a graph without edges.\<close>

lemma build_independent:
  assumes "builder_ok b" "\<forall>(_, t) \<in> set (builder_tasks b). accesses t = [] \<and> depends_on t = []"
  shows "build_graph b = Some (Ok \<lparr>graph_tasks = builder_tasks b, graph_edges = []\<rparr>)"
proof -
  let ?g = "\<lparr>graph_tasks = builder_tasks b, graph_edges = []\<rparr>"
  have "concat (map (\<lambda>(_, t). map (\<lambda>d. (task_id t, d)) (depends_on t)) (builder_tasks b)) = []"
    "concat (map (\<lambda>(_, t). map (\<lambda>d. (d, task_id t)) (depends_on t)) (builder_tasks b)) = []"
    using assms(2) by (auto simp: concat_eq_Nil_conv)
  then have none: "unknown_dependency (builder_tasks b) = None" "explicit_edges (builder_tasks b) = []"
    unfolding unknown_dependency_def explicit_edges_def by (simp_all only: find.simps fold_simps)
  have plain: "conflict_edges ts es = es" if "\<forall>t \<in> set ts. accesses t = []" for ts es
    using that by (induction ts es rule: conflict_edges.induct) (simp_all add: accesses_conflict_def)
  have "conflict_edges (map snd (builder_tasks b)) [] = []" by (rule plain) (use assms(2) in force)
  moreover have ok: "graph_ok ?g" using assms(1) by (simp add: builder_ok_def graph_ok_def)
  moreover have "acyclic (edges_rel ?g)" by (simp add: edges_rel_def dependencies_of_def acyclic_def trancl_empty)
  then obtain order where "topological_order ?g = Some (Ok order)" using topological_order_cases [OF ok] by blast
  ultimately show ?thesis using none by (simp add: build_graph_def Let_def)
qed

definition loop_jobs :: "nat \<Rightarrow> nat \<Rightarrow> (TaskId \<times> nat list) list" where
  "loop_jobs iterations width = map (\<lambda>c. (of_nat c, chunk_indices iterations width c)) [0..<chunk_count iterations width]"

definition loop_graph :: "ustring \<Rightarrow> nat \<Rightarrow> DependencyGraph" where
  "loop_graph name n = \<lparr>graph_tasks = map (\<lambda>c. (of_nat c, loop_task name c)) [0..<n], graph_edges = []\<rparr>"

lemma loop_builder_ok: "n \<le> u32_max + 1 \<Longrightarrow> builder_ok \<lparr>builder_tasks = map (\<lambda>c. (of_nat c, loop_task name c)) [0..<n]\<rparr>"
  using sorted_wrt_mono_rel [of "[0..<n]" "(<)" "\<lambda>a b. (of_nat a :: TaskId) < of_nat b"] of_nat_task_less
  by (auto simp: builder_ok_def bt_ok_def comp_def sorted_wrt_map loop_task_def task_new_def)

lemma loop_graph_ok: "n \<le> u32_max + 1 \<Longrightarrow> graph_ok (loop_graph name n) \<and> acyclic (edges_rel (loop_graph name n))"
  using loop_builder_ok [of n name]
  by (simp add: loop_graph_def graph_ok_def builder_ok_def edges_rel_def dependencies_of_def acyclic_def trancl_empty)

lemma loop_plan_eq:
  assumes "loop_args iterations width" "checked \<longrightarrow> fits iterations width" "chunk_count iterations width \<le> u32_max"
    and "name \<noteq> []" "\<not> is_whitespace (hd name)"
  shows "loop_plan checked name iterations width = Some (loop_graph name (chunk_count iterations width), loop_jobs iterations width)"
proof -
  let ?n = "chunk_count iterations width"
  have "build_graph \<lparr>builder_tasks = map (\<lambda>c. (of_nat c, loop_task name c)) [0..<?n]\<rparr> = Some (Ok (loop_graph name ?n))"
    using build_independent [OF loop_builder_ok [of ?n name]] assms(3)
    by (auto simp: loop_graph_def loop_task_def task_new_def)
  moreover have "add_chunks checked name iterations width [0..<?n] \<lparr>builder_tasks = []\<rparr> [] =
      Some (\<lparr>builder_tasks = map (\<lambda>c. (of_nat c, loop_task name c)) [0..<?n]\<rparr>, loop_jobs iterations width)"
    using add_chunks_plan [OF assms(1,2) order.refl _ assms(4,5), of 0] assms(3) by (simp add: loop_jobs_def)
  ultimately show ?thesis by (simp add: loop_plan_def)
qed

lemma loop_plan_None:
  assumes "loop_args iterations width" "\<not> fits iterations width"
  shows "loop_plan True name iterations width = None"
proof -
  have "chunk_count iterations width - 1 \<in> set [0..<chunk_count iterations width]" using chunk_range_None [OF assms] by auto
  note none = add_chunks_None [OF this chunk_range_None [OF assms, THEN conjunct2]]
  show ?thesis unfolding loop_plan_def none by simp
qed

lemma loop_jobs_cover: "loop_args iterations width \<Longrightarrow> concat (map snd (loop_jobs iterations width)) = [0..<covered iterations width]"
  using concat_chunk_indices by (simp add: loop_jobs_def comp_def)

lemma loop_jobs_ids: "map fst (loop_jobs iterations width) = task_ids (loop_graph name (chunk_count iterations width))"
  by (simp add: loop_jobs_def loop_graph_def task_ids_def comp_def)

subsection \<open>The values of a reduction\<close>

lemma length_store [simp]: "length (store_partial initial f reduce js t ps) = length ps"
  by (simp add: store_partial_def split: option.split)

lemma length_fold_store [simp]: "length (fold (store_partial initial f reduce js) order ps) = length ps"
  by (induction order arbitrary: ps) simp_all

lemma fold_store:
  assumes "\<forall>t \<in> set order. bt_get js t = Some (indices t)" "c < length ps" "unat (of_nat c :: TaskId) = c"
  shows "fold (store_partial initial f reduce js) order ps ! c =
      (if of_nat c \<in> set order then Some (chunk_value initial f reduce (indices (of_nat c))) else ps ! c)"
  using assms(1,2)
proof (induction order arbitrary: ps)
  case (Cons t order)
  let ?ps = "store_partial initial f reduce js t ps"
  have t: "?ps = ps[unat t := Some (chunk_value initial f reduce (indices t))]" using Cons.prems by (simp add: store_partial_def)
  have "unat t = c \<longleftrightarrow> t = of_nat c" using assms(3) by (metis word_unat_eq_iff)
  then have "?ps ! c = (if t = of_nat c then Some (chunk_value initial f reduce (indices (of_nat c))) else ps ! c)"
    unfolding t using Cons.prems(2) by (auto simp: nth_list_update)
  moreover have "fold (store_partial initial f reduce js) order ?ps ! c =
      (if of_nat c \<in> set order then Some (chunk_value initial f reduce (indices (of_nat c))) else ?ps ! c)"
    using Cons.IH [of ?ps] Cons.prems by simp
  ultimately show ?case by auto
qed simp

lemma combine_all:
  "combine_partials reduce chunk (map Some vs) v = Ok (foldl reduce v vs)"
  by (induction vs arbitrary: chunk v) simp_all

lemma chunk_value_map: "chunk_value initial f reduce indices = foldl reduce initial (map f indices)"
  by (simp add: chunk_value_def foldl_map)

text \<open>With an associative operation and a neutral start the chunks do not matter.\<close>

lemma foldl_chunks:
  assumes "\<And>x y z. reduce (reduce x y) z = reduce x (reduce y z)" "\<And>x. reduce initial x = x" "\<And>x. reduce x initial = x"
  shows "foldl reduce a (map (\<lambda>xs. foldl reduce initial xs) xss) = foldl reduce a (concat xss)"
proof (induction xss arbitrary: a)
  case (Cons xs xss)
  have "reduce a (foldl reduce b xs) = foldl reduce (reduce a b) xs" for b
    by (induction xs arbitrary: b) (simp_all add: assms(1))
  from this [of initial] Cons show ?case by (simp add: assms(3))
qed simp

text \<open>The tasks of a loop have all run when the pool delivers a report.\<close>

lemma loop_run_report:
  assumes "0 < n" "chunk_count iterations width \<le> u32_max"
    and "steal_start (loop_graph name (chunk_count iterations width)) n (loop_jobs iterations width) = Ok s0"
    and "steal_run (loop_graph name (chunk_count iterations width)) n P s0 s" "steal_pc s = Delivered (Ok rep)"
  shows "distinct (report_order rep) \<and> set (report_order rep) = of_nat ` {0..<chunk_count iterations width}"
proof -
  let ?g = "loop_graph name (chunk_count iterations width)"
  have inp: "pool_input ?g n" using loop_graph_ok [of "chunk_count iterations width" name] assms(1,2) by (simp add: pool_input_def)
  have "steal_ok ?g n P s" using steal_run_ok [OF assms(4) inp steal_start_ok [OF assms(3,1)]] .
  then have "result_ok ?g n P (Ok rep)" using assms(5) by (simp add: steal_ok_def)
  then show ?thesis by (simp add: result_ok_def respects_edges_def loop_graph_def image_image)
qed

lemma mset_concat_map: "mset (concat (map f xs)) = sum_mset (image_mset (\<lambda>x. mset (f x)) (mset xs))"
  by (induction xs) simp_all

lemma task_of_chunk: "c \<le> u32_max \<Longrightarrow> unat (of_nat c :: TaskId) = c"
  by (simp add: unat_of_nat u32_max_def take_bit_nat_eq_self)

lemma loop_jobs_get:
  assumes "c < chunk_count iterations width" "chunk_count iterations width \<le> u32_max + 1"
  shows "bt_get (loop_jobs iterations width) (of_nat c) = Some (chunk_indices iterations width c)"
proof -
  have "bt_ok (loop_jobs iterations width)"
    using loop_builder_ok [OF assms(2)] by (simp add: builder_ok_def bt_ok_def loop_jobs_def comp_def)
  then show ?thesis using assms(1) by (auto simp: bt_get_in loop_jobs_def)
qed

lemma loop_jobs_run:
  assumes a: "loop_args iterations width" and n: "chunk_count iterations width \<le> u32_max" "0 < n"
    and s0: "steal_start (loop_graph name (chunk_count iterations width)) n (loop_jobs iterations width) = Ok s0"
    and run: "steal_run (loop_graph name (chunk_count iterations width)) n P s0 s" "steal_pc s = Delivered (Ok rep)"
  shows "mset (concat (map (\<lambda>t. the (bt_get (loop_jobs iterations width) t)) (report_order rep))) = mset [0..<covered iterations width]"
proof -
  let ?n = "chunk_count iterations width" and ?js = "loop_jobs iterations width"
  have rep: "distinct (report_order rep)" "set (report_order rep) = of_nat ` {0..<?n}"
    using loop_run_report [OF n(2,1) s0 run] by simp_all
  have "inj_on (of_nat :: nat \<Rightarrow> TaskId) {0..<?n}"
    using task_of_chunk n(1) by (intro inj_on_inverseI [where g = unat]) simp
  then have "mset (report_order rep) = mset (map of_nat [0..<?n])"
    using rep by (intro set_eq_iff_mset_eq_distinct [THEN iffD1]) (simp_all add: distinct_map)
  then have "mset (concat (map (\<lambda>t. the (bt_get ?js t)) (report_order rep))) =
      mset (concat (map (\<lambda>t. the (bt_get ?js t)) (map of_nat [0..<?n])))"
    unfolding mset_concat_map by simp
  also have "map (\<lambda>t. the (bt_get ?js t)) (map of_nat [0..<?n]) = map snd ?js"
    using loop_jobs_get [of _ iterations width] n(1) by (auto simp: loop_jobs_def)
  finally show ?thesis using loop_jobs_cover [OF a] by simp
qed

text \<open>
  C36. A parallel loop over any range with any chunk size reports too many chunks, panics on the overflow of the end of the
  last chunk if overflows are checked, or starts. When the pool then delivers a report, in whatever interleaving, the jobs
  that have completed together ran every index of the range exactly once; only if that end overflows unchecked, the
  indices of the last chunk, and no others, are lost.
\<close>

theorem parallel_for_covers:
  assumes "0 < chunk_size config" "chunk_size config \<le> usize_max" "iterations \<le> usize_max" "0 < n"
  shows "if u32_max < chunk_count iterations (chunk_size config)
    then parallel_for_start checked iterations config = Some (Err TooManyChunks)
    else if checked \<and> \<not> fits iterations (chunk_size config) then parallel_for_start checked iterations config = None
    else \<exists>g js s0. parallel_for_start checked iterations config = Some (Ok (g, js)) \<and> steal_start g n js = Ok s0 \<and>
      (\<forall>P s rep. steal_run g n P s0 s \<and> steal_pc s = Delivered (Ok rep) \<longrightarrow>
         mset (concat (map (\<lambda>t. the (bt_get js t)) (report_order rep))) =
         mset [0..<if fits iterations (chunk_size config) then iterations
           else (chunk_count iterations (chunk_size config) - 1) * chunk_size config])"
proof -
  let ?w = "chunk_size config" and ?name = "lit ''parallel_for''"
  let ?n = "chunk_count iterations ?w"
  let ?g = "loop_graph ?name ?n" and ?js = "loop_jobs iterations ?w"
  have a: "loop_args iterations ?w" using assms by (simp add: loop_args_def)
  have "parallel_for_start checked iterations config = None" if "?n \<le> u32_max" "checked" "\<not> fits iterations ?w"
    using loop_plan_None [OF a that(3)] that(1,2) by (simp add: parallel_for_start_def)
  moreover have "\<exists>g js s0. parallel_for_start checked iterations config = Some (Ok (g, js)) \<and> steal_start g n js = Ok s0 \<and>
      (\<forall>P s rep. steal_run g n P s0 s \<and> steal_pc s = Delivered (Ok rep) \<longrightarrow>
         mset (concat (map (\<lambda>t. the (bt_get js t)) (report_order rep))) = mset [0..<covered iterations ?w])"
    if n: "?n \<le> u32_max" "checked \<longrightarrow> fits iterations ?w"
  proof -
    have start: "parallel_for_start checked iterations config = Some (Ok (?g, ?js))"
      using loop_plan_eq [OF a n(2,1), of ?name] n(1) by (simp add: parallel_for_start_def is_whitespace_def)
    obtain s0 where s0: "steal_start ?g n ?js = Ok s0"
      using loop_jobs_ids [of iterations ?w ?name] by (simp add: steal_start_def check_job_set_def Let_def)
    show ?thesis using start s0 loop_jobs_run [OF a n(1) assms(4) s0] by blast
  qed
  ultimately show ?thesis unfolding covered_def by (auto simp: parallel_for_start_def)
qed

text \<open>
  C35. When a parallel reduction over any range with any chunk size starts and the pool delivers a report, in whatever
  interleaving, the result is the fold over the values of the chunks in ascending order. With an associative operation
  whose neutral element is the start value it is the sequential fold over the range, without its last chunk if the
  end of that overflows, which a build with overflow checks does not start.
\<close>

theorem parallel_reduce_sequential:
  assumes "0 < chunk_size config" "chunk_size config \<le> usize_max" "iterations \<le> usize_max" "0 < n"
    and "parallel_reduce_start checked iterations config = Some (Ok (g, js))" "steal_start g n js = Ok s0"
    and "steal_run g n P s0 s" "steal_pc s = Delivered (Ok rep)"
  shows "\<exists>out. parallel_reduce_finish initial f reduce iterations config js (Ok rep) = Ok out \<and>
    (checked \<longrightarrow> fits iterations (chunk_size config)) \<and>
    reduced_value out = foldl reduce initial
      (map (\<lambda>c. foldl reduce initial (map f (chunk_indices iterations (chunk_size config) c)))
        [0..<chunk_count iterations (chunk_size config)]) \<and>
    ((\<forall>x y z. reduce (reduce x y) z = reduce x (reduce y z)) \<and> (\<forall>x. reduce initial x = x \<and> reduce x initial = x) \<longrightarrow>
      reduced_value out = foldl reduce initial (map f [0..<if fits iterations (chunk_size config) then iterations
        else (chunk_count iterations (chunk_size config) - 1) * chunk_size config]))"
proof -
  let ?w = "chunk_size config" and ?name = "lit ''parallel_reduce''"
  let ?n = "chunk_count iterations ?w"
  have a: "loop_args iterations ?w" using assms by (simp add: loop_args_def)
  have n: "?n \<le> u32_max" using assms(5) by (auto simp: parallel_reduce_start_def split: if_splits)
  have checked: "checked \<longrightarrow> fits iterations ?w"
    using assms(5) loop_plan_None [OF a, of ?name] n
    by (cases checked; cases "fits iterations ?w") (simp_all add: parallel_reduce_start_def del: lit_simps)
  have plan: "g = loop_graph ?name ?n" "js = loop_jobs iterations ?w"
    using loop_plan_eq [OF a checked n, of ?name] assms(5) n by (simp_all add: parallel_reduce_start_def is_whitespace_def)
  have rep: "set (report_order rep) = of_nat ` {0..<?n}"
    using loop_run_report [OF assms(4) n assms(6,7) [unfolded plan] assms(8)] by simp
  let ?v = "\<lambda>c. chunk_value initial f reduce (chunk_indices iterations ?w c)"
  have "fold (store_partial initial f reduce js) (report_order rep) (replicate ?n None) = map (\<lambda>c. Some (?v c)) [0..<?n]"
  proof (rule nth_equalityI)
    fix c assume "c < length (fold (store_partial initial f reduce js) (report_order rep) (replicate ?n None))"
    then have c: "c < ?n" "unat (of_nat c :: TaskId) = c" using task_of_chunk n by simp_all
    have "\<forall>t \<in> set (report_order rep). bt_get js t = Some (chunk_indices iterations ?w (unat t))"
      using rep plan(2) loop_jobs_get [of _ iterations ?w] n task_of_chunk by auto
    from fold_store [OF this, of c "replicate ?n None"] c rep
    show "fold (store_partial initial f reduce js) (report_order rep) (replicate ?n None) ! c = map (\<lambda>c. Some (?v c)) [0..<?n] ! c"
      by auto
  qed simp
  then have "combine_partials reduce 0 (fold (store_partial initial f reduce js) (report_order rep) (replicate ?n None)) initial =
      Ok (foldl reduce initial (map ?v [0..<?n]))"
    using combine_all [of reduce 0 "map ?v [0..<?n]" initial] by (simp add: comp_def)
  moreover have "foldl reduce initial (map ?v [0..<?n]) = foldl reduce initial (map f [0..<covered iterations ?w])"
    if "\<forall>x y z. reduce (reduce x y) z = reduce x (reduce y z)" "\<forall>x. reduce initial x = x \<and> reduce x initial = x"
  proof -
    have "concat (map (map f) (map snd js)) = map f [0..<covered iterations ?w]"
      using loop_jobs_cover [OF a] plan(2) by (metis map_concat)
    then show ?thesis using foldl_chunks [of reduce initial initial "map (map f) (map snd js)"] that plan(2)
      by (simp add: chunk_value_map loop_jobs_def comp_def)
  qed
  ultimately show ?thesis using checked unfolding covered_def by (simp add: parallel_reduce_finish_def chunk_value_map)
qed

text \<open>
  The end of a chunk is computed by an addition that overflows although the bound is then cut to the range: two chunks,
  of which the second has one index.
\<close>

lemma chunk_range_overflow:
  "chunk_range True (2 ^ 63 + 1) (2 ^ 63) 1 = None" "chunk_range False (2 ^ 63 + 1) (2 ^ 63) 1 = Some []"
  "covered (2 ^ 63 + 1) (2 ^ 63) = 2 ^ 63"
  by (simp_all add: chunk_range_def usize_max_def covered_def fits_def chunk_count_def)

text \<open>A scope that is cancelled before it runs changes nothing and reports the cancellation.\<close>

lemma cancelled_scope:
  assumes "graph_ok g" "acyclic (edges_rel g)" "map fst js = task_ids g"
  shows "scope_run_deterministic g js (s, True) = Some ((s, True), Err Cancelled)"
proof -
  let ?js = "wrap_scoped_jobs js"
  have ids: "map fst ?js = task_ids g" using assms(3) by (simp add: wrap_scoped_jobs_def comp_def case_prod_unfold)
  obtain order s' r where run: "topological_order g = Some (Ok order)" "run_deterministic g ?js (s, True) = Some (s', r)"
    "case r of Inr rep \<Rightarrow> report_order rep = order \<and> report_workers rep = 1 \<and> s' = fold (job_effect ?js) order (s, True)
     | Inl e \<Rightarrow> stops_at ?js (s, True) order s' e"
    using run_deterministic_result [OF assms(1,2) ids, of "(s, True)"] by blast
  have skip: "the (bt_get ?js t) (s, True) = ((s, True), Ok ())" if "t \<in> set order" for t
  proof -
    have "set order = tasks_of g" using topological_order_cases [OF assms(1)] run(1) by auto
    then have "t \<in> fst ` set ?js" using that ids by (metis list.set_map task_ids_def)
    then obtain j where j: "bt_get ?js t = Some j" using bt_get_None [of ?js t] by auto
    then have "(t, j) \<in> set ?js" unfolding bt_get_def by (rule map_of_SomeD)
    then show ?thesis using j by (auto simp: wrap_scoped_jobs_def)
  qed
  have same: "fold (job_effect ?js) ts (s, True) = (s, True)" if "set ts \<subseteq> set order" for ts
    using that by (induction ts) (simp_all add: skip)
  show ?thesis
  proof (cases r)
    case (Inl e)
    then obtain us t vs where "order = us @ t # vs" "isl (snd (the (bt_get ?js t) (fold (job_effect ?js) us (s, True))))"
      using run(3) by (auto simp: stops_at_def)
    moreover from this have "set us \<subseteq> set order" "t \<in> set order" by auto
    ultimately show ?thesis using skip [of t] same [of us] by simp
  next
    case (Inr rep)
    then show ?thesis using run same [of order] by (simp add: scope_run_deterministic_def scope_result_def)
  qed
qed

subsection \<open>Witnesses\<close>

text \<open>Three indices in chunks of two, on one worker.\<close>

definition small_config :: ParallelForConfig where
  "small_config = \<lparr>chunk_size = 2\<rparr>"

definition small_graph :: DependencyGraph where
  "small_graph = loop_graph (lit ''parallel_reduce'') 2"

definition small_pool :: "nat list StealPool" where
  "small_pool =
     \<lparr>steal_pc = Collect, book = dispatch_new [(0, [0, 1]), (1, [2])], next_worker = 0, queues = [[]], shutdown = False,
      receiver_open = True, outcomes = [], stealers = [Scanning 0]\<rparr>"

definition small_schedule :: "nat option list" where
  "small_schedule =
     replicate 5 None @ replicate 4 (Some 0) @ replicate 11 None @ replicate 2 (Some 0) @ [None]"

definition small_end :: "nat list StealPool" where
  "small_end = the (steal_drive small_graph 1 small_schedule small_pool)"

lemma small_start: "parallel_reduce_start checked 3 small_config = Some (Ok (small_graph, [(0, [0, 1]), (1, [2])]))"
  by (cases checked; code_simp)

lemma small_steal_start: "steal_start small_graph 1 [(0, [0, 1]), (1, [2])] = Ok small_pool"
  by code_simp

lemma small_end_value: "steal_pc small_end = Delivered (Ok \<lparr>report_order = [1, 0], report_workers = 1\<rparr>)"
  by code_simp

lemma small_end_steps: "(steal_step small_graph 1 {} ^^ length small_schedule) small_pool small_end"
  unfolding small_end_def by (rule steal_drive_steps, rule option.collapse [symmetric], code_simp)

lemma small_graph_acyclic: "graph_ok small_graph" "acyclic (edges_rel small_graph)"
  using loop_graph_ok [of 2 "lit ''parallel_reduce''"] by (simp_all add: small_graph_def u32_max_def)

definition for_graph :: DependencyGraph where
  "for_graph = loop_graph (lit ''parallel_for'') 2"

lemma for_start: "parallel_for_start False 3 small_config = Some (Ok (for_graph, [(0, [0, 1]), (1, [2])]))"
  by code_simp

lemma for_steal_start: "steal_start for_graph 1 [(0, [0, 1]), (1, [2])] = Ok small_pool"
  by code_simp

definition for_end :: "nat list StealPool" where
  "for_end = the (steal_drive for_graph 1 small_schedule small_pool)"

lemma for_end_value: "steal_pc for_end = Delivered (Ok \<lparr>report_order = [1, 0], report_workers = 1\<rparr>)"
  by code_simp

lemma for_end_steps: "(steal_step for_graph 1 {} ^^ length small_schedule) small_pool for_end"
  unfolding for_end_def by (rule steal_drive_steps, rule option.collapse [symmetric], code_simp)

lemma small_args: "0 < chunk_size small_config" "chunk_size small_config \<le> usize_max" "3 \<le> usize_max"
    "chunk_count 3 (chunk_size small_config) = 2" "fits 3 (chunk_size small_config)"
  by (simp_all add: small_config_def usize_max_def chunk_count_def fits_def)

lemma parallel_for_covers_witness:
  "\<exists>g js s0 s rep. parallel_for_start False 3 small_config = Some (Ok (g, js)) \<and> steal_start g 1 js = Ok s0 \<and>
    steal_run g 1 {} s0 s \<and> steal_pc s = Delivered (Ok rep) \<and> report_order rep = [1, 0] \<and>
    mset (concat (map (\<lambda>t. the (bt_get js t)) (report_order rep))) = {#0, 1, 2#}"
proof -
  have "mset [0..<3] = {#0, 1, 2 :: nat#}" by (simp add: upt_rec)
  moreover have "\<not> u32_max < 2" by (simp add: u32_max_def)
  ultimately have all: "\<forall>P s rep. steal_run for_graph 1 P small_pool s \<and> steal_pc s = Delivered (Ok rep) \<longrightarrow>
      mset (concat (map (\<lambda>t. the (bt_get [(0, [0, 1]), (1, [2])] t)) (report_order rep))) = {#0, 1, 2 :: nat#}"
    using parallel_for_covers [OF small_args(1-3), of 1 False] by (simp add: small_args for_start for_steal_start del: One_nat_def)
  obtain rep where rep: "steal_pc for_end = Delivered (Ok rep)" "report_order rep = [1, 0]" using for_end_value by simp
  have run: "steal_run for_graph 1 {} small_pool for_end" by (rule relpowp_imp_rtranclp [OF for_end_steps])
  show ?thesis using all run rep for_start for_steal_start by blast
qed

lemma parallel_reduce_sequential_witness:
  "\<exists>out. parallel_reduce_finish 0 id (+) 3 small_config [(0, [0, 1]), (1, [2])] (Ok \<lparr>report_order = [1, 0], report_workers = 1\<rparr>) = Ok out \<and>
    reduced_value out = (3 :: nat)"
proof -
  have "foldl (+) 0 (map id [0..<3]) = (3 :: nat)" by (simp add: upt_rec)
  then show ?thesis
    using parallel_reduce_sequential [OF small_args(1-3) _ small_start [of True] small_steal_start relpowp_imp_rtranclp [OF small_end_steps] small_end_value,
        of 0 id "(+)"] small_args(5) by auto
qed

subsection \<open>A failed loop starts another queued chunk\<close>

text \<open>
  The comment on the pool says that queued jobs are dropped after a failure. A worker looks at the shutdown flag only
  when it finds nothing to take: here chunk 1 panics, the pool is shutting down, and then chunk 0 is started.
\<close>

definition panicked_pool :: "nat list StealPool" where
  "panicked_pool = the (Option.bind (steal_drive small_graph 1 (replicate 5 None @ [Some 0]) small_pool) (stealer_step 0 (Err Panicked)))"

definition failing_pool :: "nat list StealPool" where
  "failing_pool = the (steal_drive small_graph 1 (replicate 3 None @ [Some 0]) panicked_pool)"

lemma failed_loop_starts_chunk:
  "steal_run small_graph 1 {1} small_pool failing_pool \<and>
   steal_pc failing_pool = AwaitJoin (Err (TaskFailed 1 Panicked)) \<and> stealers failing_pool = [Executing 0 [0, 1]]"
proof -
  obtain s where s: "steal_drive small_graph 1 (replicate 5 None @ [Some 0]) small_pool = Some s"
    "length (stealers s) = 1" "stealers s ! 0 = Executing 1 [2]" "stealer_step 0 (Err Panicked) s = Some panicked_pool"
  proof -
    have "case steal_drive small_graph 1 (replicate 5 None @ [Some 0]) small_pool of None \<Rightarrow> False
        | Some s \<Rightarrow> length (stealers s) = 1 \<and> stealers s ! 0 = Executing 1 [2] \<and> stealer_step 0 (Err Panicked) s \<noteq> None"
      by code_simp
    then show ?thesis using that by (auto simp: panicked_pool_def split: option.splits)
  qed
  have "steal_run small_graph 1 {1} small_pool s" by (rule relpowp_imp_rtranclp [OF steal_drive_steps [OF s(1)]])
  moreover have "steal_step small_graph 1 {1} s panicked_pool"
    using s by (intro steal_step.stealer_panic [of 0 s 1 "[2]"]) simp_all
  moreover have "steal_drive small_graph 1 (replicate 3 None @ [Some 0]) panicked_pool = Some failing_pool"
    unfolding failing_pool_def by (rule option.collapse [symmetric]) code_simp
  then have "steal_run small_graph 1 {1} panicked_pool failing_pool" by (rule relpowp_imp_rtranclp [OF steal_drive_steps])
  moreover have "steal_pc failing_pool = AwaitJoin (Err (TaskFailed 1 Panicked)) \<and> stealers failing_pool = [Executing 0 [0, 1]]"
    by code_simp
  ultimately show ?thesis by (meson rtranclp.rtrancl_into_rtrancl rtranclp_trans)
qed

end
