(* ===== verification/Jir.thy ===== *)
theory Jir
  imports Source BTree "HOL-Library.Word"
begin

text \<open>
  The crate \<open>jadren-jir\<close>, first part: the typed SSA intermediate representation, the operands of an instruction and
  of a terminator, and their renaming. Instructions and terminators are polymorphic in the type of their
  operands, so that the hand-written traversals of the source can be compared with the structure of the data.
\<close>

subsection \<open>Types\<close>

type_synonym JTypeId = nat
type_synonym FunctionId = nat
type_synonym BlockId = nat
type_synonym ValueId = nat

datatype AddressSpace = GenericSpace | Stack | Heap | Region | Global | Workgroup | Uniform | Storage

definition is_gpu :: "AddressSpace \<Rightarrow> bool" where
  "is_gpu a \<longleftrightarrow> a = Workgroup \<or> a = Uniform \<or> a = Storage"

definition is_host :: "AddressSpace \<Rightarrow> bool" where
  "is_host a \<longleftrightarrow> \<not> is_gpu a"

datatype JType =
    UnitType
  | RegionHandle
  | BoolType
  | IntegerType bool nat
  | FloatType nat
  | PointerType JTypeId AddressSpace
  | FunctionType "JTypeId list" JTypeId
  | ArrayType JTypeId "64 word"
  | StructType "JTypeId list"
  | NominalStruct "64 word" "JTypeId list"
  | EnumType "JTypeId list list"
  | NominalEnum "64 word" "JTypeId list list"
  | VectorType JTypeId nat

datatype Linkage = Internal | Export | Import

subsection \<open>Instructions\<close>

datatype BuiltinOp = GlobalInvocationIdX | GlobalInvocationIdY | GlobalInvocationIdZ

text \<open>An \<open>i128\<close> is kept as its 128 bits.\<close>

datatype Constant = BoolConst bool | IntegerConst "128 word" | FloatBits "64 word" | Zero | Null

datatype UnaryOp = Negate | Not | BitNot

datatype BinaryOp = Add | Subtract | Multiply | Divide | Remainder | BitAnd | BitOr | BitXor | ShiftLeft | ShiftRight

datatype F32ArithmeticOp = F32Add | F32Subtract | F32Multiply

fun as_binary_op :: "F32ArithmeticOp \<Rightarrow> BinaryOp" where
  "as_binary_op F32Add = Add"
| "as_binary_op F32Subtract = Subtract"
| "as_binary_op F32Multiply = Multiply"

datatype ComparePredicate = Equal | NotEqual | Less | LessEqual | Greater | GreaterEqual

datatype CastOp =
  IntegerExtend | IntegerTruncate | IntegerToFloat | FloatToInteger | FloatExtend | FloatTruncate | Bitcast | PointerCast

datatype CarrierDropBranch = CarrierDropBranch "32 word" "32 word" JTypeId
datatype CarrierDropField = CarrierDropField "64 word" "64 word" "32 word" JTypeId
datatype RecordDropField = RecordDropField "64 word" "64 word" "32 word" JTypeId

text \<open>
  The instructions that destroy the storage behind one value, that resize a buffer (descriptor and new length), and
  that remove an element from one (descriptor and index): the source has one constructor of \<open>InstructionKind\<close> for
  each, here they are grouped by their operands, and \<open>DropOf\<close>, \<open>Resize\<close> and \<open>RemoveDrop\<close> carry the operands.
\<close>

datatype DropKind =
    RegionDestroy
  | DropValue
  | OwnedStringDrop
  | BufferDrop JTypeId
  | OwnedStringBufferDrop JTypeId
  | NestedBufferDrop JTypeId JTypeId
  | RecursiveBufferDrop JTypeId JTypeId "32 word"
  | RecursiveOwnedStringBufferDrop JTypeId JTypeId "32 word"
  | RecursiveRecordBufferFieldsDrop JTypeId JTypeId "RecordDropField list" "32 word"
  | EnumCarrierBufferDrop JTypeId "64 word" "CarrierDropBranch list"
  | EnumOwningCarrierDrop JTypeId "64 word" "CarrierDropBranch list"
  | EnumCarrierFieldsDrop JTypeId "CarrierDropField list"
  | EnumOwningFieldsDrop JTypeId "CarrierDropField list"
  | RecordBufferFieldsDrop JTypeId "RecordDropField list"
  | RecordOwningFieldsDrop JTypeId "RecordDropField list"
  | CarrierBufferDrop JTypeId JTypeId "32 word" "64 word" "32 word" "JTypeId option" "32 word option" "32 word option"
  | OwningCarrierDrop JTypeId JTypeId "32 word" "64 word" "32 word" "JTypeId option" "32 word option" "32 word option"

datatype ResizeKind =
    BufferResizeMoveOwnedString JTypeId bool
  | BufferResizeMoveNestedOwnedString JTypeId JTypeId "32 word" bool
  | BufferResizeMoveRecordFields JTypeId JTypeId "RecordDropField list" "32 word" bool

datatype RemoveKind =
    BufferRemoveDropOwnedString JTypeId bool
  | BufferRemoveDropRecordFields JTypeId "RecordDropField list" bool
  | BufferRemoveDropNestedRecordFields JTypeId JTypeId "RecordDropField list" "32 word" bool
  | BufferRemoveDropNestedBuffer JTypeId JTypeId "32 word" bool
  | BufferRemoveDropNestedOwnedString JTypeId JTypeId "32 word" bool

datatype 'v InstructionKind =
    Constant Constant
  | Builtin BuiltinOp
  | StringLiteral "8 word list"
  | Aggregate "'v list"
  | ExtractValue 'v "32 word"
  | ExtractElement 'v 'v
  | EnumConstruct "32 word" "'v list"
  | EnumTag 'v
  | EnumExtract 'v "32 word" "32 word"
  | Unary UnaryOp 'v
  | Binary BinaryOp 'v 'v
  | Compare ComparePredicate 'v 'v
  | Cast CastOp 'v JTypeId
  | Select 'v 'v 'v
  | StackAlloc JTypeId "'v option"
  | RegionAlloc 'v JTypeId 'v
  | RegionCreate
  | DropOf DropKind 'v
  | Resize ResizeKind 'v 'v
  | RemoveDrop RemoveKind 'v 'v
  | Load 'v "32 word" bool
  | Store 'v 'v "32 word" bool
  | Offset 'v "'v list"
  | BoundsCheck 'v 'v
  | VectorBoundsCheck 'v 'v nat
  | AssumeNoAlias 'v 'v
  | Call FunctionId "'v list"
  | FunctionAddress FunctionId
  | IndirectCall 'v "'v list"
  | VectorSplat 'v nat
  | VectorBinary BinaryOp 'v 'v
  | VectorExtract 'v 'v
  | VectorInsert 'v 'v 'v

datatype 'v SwitchCase = SwitchCase (case_value: "128 word") (case_target: BlockId) (case_arguments: "'v list")

datatype 'v Terminator =
    Return "'v option"
  | Jump BlockId "'v list"
  | Branch 'v BlockId "'v list" BlockId "'v list"
  | Switch 'v "'v SwitchCase list" BlockId "'v list"
  | Unreachable

record TypedValue =
  tv_value :: ValueId
  tv_type :: JTypeId

record Instruction =
  inst_result :: "TypedValue option"
  inst_kind :: "ValueId InstructionKind"
  inst_span :: "Span option"

record Block =
  block_id :: BlockId
  block_parameters :: "TypedValue list"
  instructions :: "Instruction list"
  terminator :: "ValueId Terminator"
  block_span :: "Span option"

record Parameter =
  param_value :: ValueId
  param_type :: JTypeId
  param_name :: "ustring option"

record JFunction =
  fun_id :: FunctionId
  fun_name :: ustring
  linkage :: Linkage
  parameters :: "Parameter list"
  result_type :: JTypeId
  blocks :: "Block list"
  fun_span :: "Span option"

record Module =
  module_types :: "JType list"
  module_functions :: "JFunction list"

subsection \<open>Operands\<close>

fun instruction_operands :: "'v InstructionKind \<Rightarrow> 'v list" where
  "instruction_operands (Constant c) = []"
| "instruction_operands (Builtin b) = []"
| "instruction_operands (StringLiteral utf8) = []"
| "instruction_operands (Aggregate elements) = elements"
| "instruction_operands (ExtractValue aggregate i) = [aggregate]"
| "instruction_operands (ExtractElement aggregate i) = [aggregate, i]"
| "instruction_operands (EnumConstruct variant fs) = fs"
| "instruction_operands (EnumTag v) = [v]"
| "instruction_operands (EnumExtract v variant field) = [v]"
| "instruction_operands (Unary op v) = [v]"
| "instruction_operands (Binary op left right) = [left, right]"
| "instruction_operands (Compare p left right) = [left, right]"
| "instruction_operands (Cast op v target) = [v]"
| "instruction_operands (Select c when_true when_false) = [c, when_true, when_false]"
| "instruction_operands (StackAlloc ty count) = (case count of Some c \<Rightarrow> [c] | None \<Rightarrow> [])"
| "instruction_operands (RegionAlloc region ty count) = [region, count]"
| "instruction_operands RegionCreate = []"
| "instruction_operands (DropOf d v) = [v]"
| "instruction_operands (Resize r descriptor new_length) = [descriptor, new_length]"
| "instruction_operands (RemoveDrop r descriptor i) = [descriptor, i]"
| "instruction_operands (Load pointer alignment volatile) = [pointer]"
| "instruction_operands (Store pointer v alignment volatile) = [pointer, v]"
| "instruction_operands (Offset base indices) = base # indices"
| "instruction_operands (BoundsCheck i len) = [i, len]"
| "instruction_operands (VectorBoundsCheck i len lanes) = [i, len]"
| "instruction_operands (AssumeNoAlias left right) = [left, right]"
| "instruction_operands (Call f arguments) = arguments"
| "instruction_operands (FunctionAddress f) = []"
| "instruction_operands (IndirectCall callee arguments) = callee # arguments"
| "instruction_operands (VectorSplat v lanes) = [v]"
| "instruction_operands (VectorBinary op left right) = [left, right]"
| "instruction_operands (VectorExtract v lane) = [v, lane]"
| "instruction_operands (VectorInsert v lane x) = [v, lane, x]"

fun terminator_operands :: "'v Terminator \<Rightarrow> 'v list" where
  "terminator_operands (Return v) = (case v of Some x \<Rightarrow> [x] | None \<Rightarrow> [])"
| "terminator_operands (Jump target arguments) = arguments"
| "terminator_operands (Branch c t targs e eargs) = c # targs @ eargs"
| "terminator_operands (Switch d cases dflt dargs) = d # concat (map case_arguments cases) @ dargs"
| "terminator_operands Unreachable = []"

text \<open>A value without an entry stays.\<close>

definition remap :: "(ValueId \<times> ValueId) list \<Rightarrow> ValueId \<Rightarrow> ValueId" where
  "remap m v = (case bt_get m v of Some w \<Rightarrow> w | None \<Rightarrow> v)"

fun remap_instruction_operands :: "(ValueId \<Rightarrow> ValueId) \<Rightarrow> ValueId InstructionKind \<Rightarrow> ValueId InstructionKind" where
  "remap_instruction_operands f (Constant c) = Constant c"
| "remap_instruction_operands f (Builtin b) = Builtin b"
| "remap_instruction_operands f (StringLiteral utf8) = StringLiteral utf8"
| "remap_instruction_operands f (Aggregate elements) = Aggregate (map f elements)"
| "remap_instruction_operands f (ExtractValue aggregate i) = ExtractValue (f aggregate) i"
| "remap_instruction_operands f (ExtractElement aggregate i) = ExtractElement (f aggregate) (f i)"
| "remap_instruction_operands f (EnumConstruct variant fs) = EnumConstruct variant (map f fs)"
| "remap_instruction_operands f (EnumTag v) = EnumTag (f v)"
| "remap_instruction_operands f (EnumExtract v variant field) = EnumExtract (f v) variant field"
| "remap_instruction_operands f (Unary op v) = Unary op (f v)"
| "remap_instruction_operands f (Binary op left right) = Binary op (f left) (f right)"
| "remap_instruction_operands f (Compare p left right) = Compare p (f left) (f right)"
| "remap_instruction_operands f (Cast op v target) = Cast op (f v) target"
| "remap_instruction_operands f (Select c when_true when_false) = Select (f c) (f when_true) (f when_false)"
| "remap_instruction_operands f (StackAlloc ty count) = StackAlloc ty (map_option f count)"
| "remap_instruction_operands f (RegionAlloc region ty count) = RegionAlloc (f region) ty (f count)"
| "remap_instruction_operands f RegionCreate = RegionCreate"
| "remap_instruction_operands f (DropOf d v) = DropOf d (f v)"
| "remap_instruction_operands f (Resize r descriptor new_length) = Resize r (f descriptor) (f new_length)"
| "remap_instruction_operands f (RemoveDrop r descriptor i) = RemoveDrop r (f descriptor) (f i)"
| "remap_instruction_operands f (Load pointer alignment volatile) = Load (f pointer) alignment volatile"
| "remap_instruction_operands f (Store pointer v alignment volatile) = Store (f pointer) (f v) alignment volatile"
| "remap_instruction_operands f (Offset base indices) = Offset (f base) (map f indices)"
| "remap_instruction_operands f (BoundsCheck i len) = BoundsCheck (f i) (f len)"
| "remap_instruction_operands f (VectorBoundsCheck i len lanes) = VectorBoundsCheck (f i) (f len) lanes"
| "remap_instruction_operands f (AssumeNoAlias left right) = AssumeNoAlias (f left) (f right)"
| "remap_instruction_operands f (Call g arguments) = Call g (map f arguments)"
| "remap_instruction_operands f (FunctionAddress g) = FunctionAddress g"
| "remap_instruction_operands f (IndirectCall callee arguments) = IndirectCall (f callee) (map f arguments)"
| "remap_instruction_operands f (VectorSplat v lanes) = VectorSplat (f v) lanes"
| "remap_instruction_operands f (VectorBinary op left right) = VectorBinary op (f left) (f right)"
| "remap_instruction_operands f (VectorExtract v lane) = VectorExtract (f v) (f lane)"
| "remap_instruction_operands f (VectorInsert v lane x) = VectorInsert (f v) (f lane) (f x)"

fun remap_terminator_operands :: "(ValueId \<Rightarrow> ValueId) \<Rightarrow> ValueId Terminator \<Rightarrow> ValueId Terminator" where
  "remap_terminator_operands f (Return v) = Return (map_option f v)"
| "remap_terminator_operands f (Jump target arguments) = Jump target (map f arguments)"
| "remap_terminator_operands f (Branch c t targs e eargs) = Branch (f c) t (map f targs) e (map f eargs)"
| "remap_terminator_operands f (Switch d cases dflt dargs) =
     Switch (f d) (map (\<lambda>c. SwitchCase (case_value c) (case_target c) (map f (case_arguments c))) cases) dflt (map f dargs)"
| "remap_terminator_operands f Unreachable = Unreachable"

text \<open>
  The traversals written out by hand miss no operand and change nothing else: renaming is the map of the data type,
  and the listed operands are its values, in an order that renaming keeps.
\<close>

lemma remap_instruction_map: "remap_instruction_operands f k = map_InstructionKind f k"
  by (cases k) simp_all

lemma remap_terminator_map: "remap_terminator_operands f t = map_Terminator f t"
proof (cases t)
  case (Switch d cases dflt dargs)
  have "SwitchCase (case_value c) (case_target c) (map f (case_arguments c)) = map_SwitchCase f c" for c :: "ValueId SwitchCase"
    by (cases c) simp
  then show ?thesis using Switch by simp
qed simp_all

lemma operands_map: "instruction_operands (map_InstructionKind f k) = map f (instruction_operands k)"
  by (cases k) (simp_all split: option.split)

lemma set_operands: "set (instruction_operands k) = set_InstructionKind k"
  by (cases k) (auto split: option.splits)

lemma terminator_operands_map:
  fixes t :: "'a Terminator"
  shows "terminator_operands (map_Terminator f t) = map f (terminator_operands t)"
proof (cases t)
  case (Switch d cases dflt dargs)
  have "case_arguments (map_SwitchCase f c) = map f (case_arguments c)" for c
    by (cases c) simp
  then show ?thesis using Switch by (simp add: map_concat comp_def)
qed (simp_all split: option.split)

end
