(* ===== verification/Jir_Semantics.thy ===== *)
theory Jir_Semantics
  imports Jir
begin

text \<open>
  What the transformations of \<open>jadren-jir\<close> must preserve: an abstract semantics of functions in SSA form. The
  meaning of the single instructions is a parameter; the control flow, the binding of block parameters and the
  environment of values are fixed here. An instruction that the transformations treat as pure has a value that
  depends only on its operands and its type, any other instruction may read and change the machine state.
\<close>

subsection \<open>Pure instructions\<close>

text \<open>\<open>is_pure_scalar\<close> of the source, on the kind.\<close>

fun is_pure_kind :: "'v InstructionKind \<Rightarrow> bool" where
  "is_pure_kind (Constant c) = True"
| "is_pure_kind (FunctionAddress f) = True"
| "is_pure_kind (Unary op v) = True"
| "is_pure_kind (Binary op a b) = True"
| "is_pure_kind (Compare p a b) = True"
| "is_pure_kind (Cast op v t) = True"
| "is_pure_kind (Select c a b) = True"
| "is_pure_kind (VectorSplat v n) = True"
| "is_pure_kind (VectorBinary op a b) = True"
| "is_pure_kind (VectorExtract v l) = True"
| "is_pure_kind (VectorInsert v l x) = True"
| "is_pure_kind _ = False"

definition is_pure_scalar :: "Instruction \<Rightarrow> bool" where
  "is_pure_scalar i = is_pure_kind (inst_kind i)"

abbreviation shape :: "'v InstructionKind \<Rightarrow> unit InstructionKind" where
  "shape \<equiv> map_InstructionKind (\<lambda>_. ())"

lemma is_pure_kind_map [simp]: "is_pure_kind (map_InstructionKind f k) = is_pure_kind k"
  by (cases k) simp_all

subsection \<open>Interpretations\<close>

text \<open>
  \<open>pure_sem\<close> is the value of a pure instruction of the given type, \<open>None\<close> if it is undefined (a division by zero);
  \<open>effect_sem\<close> the effect of another one, \<open>None\<close> if it traps. \<open>truth\<close> and \<open>selects\<close> say which edge a branch and a
  switch take.
\<close>

record ('x, 's) Interp =
  pure_sem :: "JTypeId \<Rightarrow> unit InstructionKind \<Rightarrow> 'x list \<Rightarrow> 'x option"
  effect_sem :: "JTypeId option \<Rightarrow> unit InstructionKind \<Rightarrow> 'x list \<Rightarrow> 's \<Rightarrow> ('x option \<times> 's) option"
  truth :: "'x \<Rightarrow> bool option"
  selects :: "'x \<Rightarrow> 128 word \<Rightarrow> bool option"

type_synonym 'x env = "ValueId \<Rightarrow> 'x option"

definition values_of :: "'x env \<Rightarrow> ValueId list \<Rightarrow> 'x list option" where
  "values_of env vs = those (map env vs)"

definition exec_kind :: "('x, 's) Interp \<Rightarrow> JTypeId option \<Rightarrow> ValueId InstructionKind \<Rightarrow> 'x env \<Rightarrow> 's \<Rightarrow> ('x option \<times> 's) option" where
  "exec_kind I ty k env s =
     (case values_of env (instruction_operands k) of
        None \<Rightarrow> None
      | Some xs \<Rightarrow>
          if is_pure_kind k
          then (case ty of
                  None \<Rightarrow> Some (None, s)
                | Some t \<Rightarrow> map_option (\<lambda>x. (Some x, s)) (pure_sem I t (shape k) xs))
          else effect_sem I ty (shape k) xs s)"

definition exec_instruction :: "('x, 's) Interp \<Rightarrow> Instruction \<Rightarrow> 'x env \<times> 's \<Rightarrow> ('x env \<times> 's) option" where
  "exec_instruction I i es =
     (case exec_kind I (map_option tv_type (inst_result i)) (inst_kind i) (fst es) (snd es) of
        None \<Rightarrow> None
      | Some (x, s') \<Rightarrow>
          (case inst_result i of
             None \<Rightarrow> Some (fst es, s')
           | Some r \<Rightarrow> (case x of None \<Rightarrow> None | Some y \<Rightarrow> Some ((fst es)(tv_value r \<mapsto> y), s'))))"

fun exec_instructions :: "('x, 's) Interp \<Rightarrow> Instruction list \<Rightarrow> 'x env \<times> 's \<Rightarrow> ('x env \<times> 's) option" where
  "exec_instructions I [] es = Some es"
| "exec_instructions I (i # is) es = Option.bind (exec_instruction I i es) (exec_instructions I is)"

subsection \<open>Control flow\<close>

datatype 'x Transfer = Enter BlockId "'x list" | Leave "'x option"

fun select_case :: "('x, 's) Interp \<Rightarrow> 'x \<Rightarrow> 'v SwitchCase list \<Rightarrow> BlockId \<times> 'v list \<Rightarrow> (BlockId \<times> 'v list) option" where
  "select_case I x [] dflt = Some dflt"
| "select_case I x (c # cs) dflt =
     (case selects I x (case_value c) of
        None \<Rightarrow> None
      | Some True \<Rightarrow> Some (case_target c, case_arguments c)
      | Some False \<Rightarrow> select_case I x cs dflt)"

text \<open>The edge a terminator takes, with its arguments; leaving the function is the other case.\<close>

definition take_edge :: "('x, 's) Interp \<Rightarrow> 'x env \<Rightarrow> ValueId Terminator \<Rightarrow> (BlockId \<times> ValueId list) option" where
  "take_edge I env t =
     (case t of
        Jump b args \<Rightarrow> Some (b, args)
      | Branch c b args b' args' \<Rightarrow>
          Option.bind (env c) (\<lambda>x. map_option (\<lambda>v. if v then (b, args) else (b', args')) (truth I x))
      | Switch d cases b args \<Rightarrow> Option.bind (env d) (\<lambda>x. select_case I x cases (b, args))
      | _ \<Rightarrow> None)"

definition exec_terminator :: "('x, 's) Interp \<Rightarrow> 'x env \<Rightarrow> ValueId Terminator \<Rightarrow> 'x Transfer option" where
  "exec_terminator I env t =
     (case t of
        Return None \<Rightarrow> Some (Leave None)
      | Return (Some v) \<Rightarrow> map_option (\<lambda>x. Leave (Some x)) (env v)
      | _ \<Rightarrow> Option.bind (take_edge I env t) (\<lambda>(b, args). map_option (Enter b) (values_of env args)))"

definition bind_parameters :: "ValueId list \<Rightarrow> 'x list \<Rightarrow> 'x env \<Rightarrow> 'x env option" where
  "bind_parameters ps xs env = (if length ps = length xs then Some (env(ps [\<mapsto>] xs)) else None)"

text \<open>The fuel counts the blocks entered; \<open>None\<close> is a trap, an undefined value, or too little fuel.\<close>

fun run_blocks :: "('x, 's) Interp \<Rightarrow> Block list \<Rightarrow> nat \<Rightarrow> BlockId \<Rightarrow> 'x list \<Rightarrow> 'x env \<times> 's \<Rightarrow> ('x option \<times> 's) option" where
  "run_blocks I bs 0 b xs es = None"
| "run_blocks I bs (Suc n) b xs es =
     (if b < length bs
      then Option.bind (bind_parameters (map tv_value (block_parameters (bs ! b))) xs (fst es)) (\<lambda>env.
        Option.bind (exec_instructions I (instructions (bs ! b)) (env, snd es)) (\<lambda>es'.
          case exec_terminator I (fst es') (terminator (bs ! b)) of
            None \<Rightarrow> None
          | Some (Leave x) \<Rightarrow> Some (x, snd es')
          | Some (Enter b' xs') \<Rightarrow> run_blocks I bs n b' xs' es'))
      else None)"

definition run_function :: "('x, 's) Interp \<Rightarrow> JFunction \<Rightarrow> nat \<Rightarrow> 'x list \<Rightarrow> 's \<Rightarrow> ('x option \<times> 's) option" where
  "run_function I f n xs s =
     Option.bind (bind_parameters (map param_value (parameters f)) xs (\<lambda>_. None)) (\<lambda>env.
       run_blocks I (blocks f) n 0 [] (env, s))"

text \<open>
  A transformation is correct if every run of the source that returns is a run of its result, with the same
  number of blocks, the same value and the same final state.
\<close>

definition preserves :: "('x, 's) Interp \<Rightarrow> JFunction \<Rightarrow> JFunction \<Rightarrow> bool" where
  "preserves I f g \<longleftrightarrow> (\<forall>n xs s r. run_function I f n xs s = Some r \<longrightarrow> run_function I g n xs s = Some r)"

lemma preserves_refl: "preserves I f f"
  by (simp add: preserves_def)

lemma preserves_trans: "preserves I f g \<Longrightarrow> preserves I g h \<Longrightarrow> preserves I f h"
  by (simp add: preserves_def)

end
