(* ===== verification/Jir_Simulation.thy ===== *)
theory Jir_Simulation
  imports Jir_Semantics
begin

text \<open>
  The argument by which the transformations of \<open>jadren-jir\<close> are proved to preserve the meaning of a function: a
  forward simulation between the blocks before and after, block by block, stated as a locale. The second part
  holds the relation between environments that most steps use: the values still used carry over, under new names.
\<close>

subsection \<open>Simulation\<close>

definition rename_transfer :: "(BlockId \<Rightarrow> BlockId) \<Rightarrow> 'x Transfer \<Rightarrow> 'x Transfer" where
  "rename_transfer f t = (case t of Enter b xs \<Rightarrow> Enter (f b) xs | Leave x \<Rightarrow> Leave x)"

abbreviation parameter_values :: "Block list \<Rightarrow> BlockId \<Rightarrow> ValueId list" where
  "parameter_values bs b \<equiv> map tv_value (block_parameters (bs ! b))"

locale block_simulation =
  fixes I :: "('x, 's) Interp" and bs bs' :: "Block list" and rename :: "BlockId \<Rightarrow> BlockId"
    and ok :: "BlockId \<Rightarrow> bool" and rel :: "'x env \<Rightarrow> 'x env \<Rightarrow> bool"
  assumes block: "ok b \<Longrightarrow> b < length bs \<Longrightarrow> rename b < length bs'"
    and enter: "ok b \<Longrightarrow> b < length bs \<Longrightarrow> rel env env' \<Longrightarrow> bind_parameters (parameter_values bs b) xs env = Some e \<Longrightarrow>
      \<exists>e'. bind_parameters (parameter_values bs' (rename b)) xs env' = Some e' \<and> rel e e'"
    and body: "ok b \<Longrightarrow> b < length bs \<Longrightarrow> rel env env' \<Longrightarrow>
      exec_instructions I (instructions (bs ! b)) (env, s) = Some (e, t) \<Longrightarrow>
      \<exists>e'. exec_instructions I (instructions (bs' ! rename b)) (env', s) = Some (e', t) \<and> rel e e'"
    and exit: "ok b \<Longrightarrow> b < length bs \<Longrightarrow> rel env env' \<Longrightarrow> exec_terminator I env (terminator (bs ! b)) = Some tr \<Longrightarrow>
      exec_terminator I env' (terminator (bs' ! rename b)) = Some (rename_transfer rename tr) \<and>
      (\<forall>b' xs. tr = Enter b' xs \<longrightarrow> ok b')"
begin

lemma simulates:
  "ok b \<Longrightarrow> rel env env' \<Longrightarrow> run_blocks I bs n b xs (env, s) = Some r \<Longrightarrow> run_blocks I bs' n (rename b) xs (env', s) = Some r"
proof (induction n arbitrary: b xs env env' s)
  case (Suc n)
  obtain e es1 tr where b: "b < length bs"
    and e: "bind_parameters (parameter_values bs b) xs env = Some e"
    and es1: "exec_instructions I (instructions (bs ! b)) (e, s) = Some es1"
    and tr: "exec_terminator I (fst es1) (terminator (bs ! b)) = Some tr"
    and r: "(case tr of Leave x \<Rightarrow> Some (x, snd es1) | Enter b' xs' \<Rightarrow> run_blocks I bs n b' xs' es1) = Some r"
    using Suc.prems(3) by (auto simp: bind_eq_Some_conv split: if_splits option.splits)
  obtain e1 s1 where es: "es1 = (e1, s1)" by (cases es1)
  note e1 = es1 [unfolded es] and tr = tr [unfolded es fst_conv] and r = r [unfolded es snd_conv]
  obtain e' where e': "bind_parameters (parameter_values bs' (rename b)) xs env' = Some e'" "rel e e'"
    using enter [OF Suc.prems(1) b Suc.prems(2) e] by blast
  obtain e1' where e1': "exec_instructions I (instructions (bs' ! rename b)) (e', s) = Some (e1', s1)" "rel e1 e1'"
    using body [OF Suc.prems(1) b e'(2) e1] by blast
  note x = exit [OF Suc.prems(1) b e1'(2) tr]
  show ?case
  proof (cases tr)
    case (Enter b' xs')
    then have "run_blocks I bs' n (rename b') xs' (e1', s1) = Some r"
      using Suc.IH [OF _ e1'(2)] x r by simp
    then show ?thesis using block [OF Suc.prems(1) b] e'(1) e1'(1) x Enter by (simp add: rename_transfer_def)
  next
    case (Leave x')
    then show ?thesis using block [OF Suc.prems(1) b] e'(1) e1'(1) x r by (simp add: rename_transfer_def)
  qed
qed simp

end

subsection \<open>Environments that carry values under new names\<close>

text \<open>The values of \<open>U\<close> that are known are known under their new names, and only values of \<open>D\<close> are known.\<close>

definition carries :: "(ValueId \<Rightarrow> ValueId) \<Rightarrow> ValueId set \<Rightarrow> ValueId set \<Rightarrow> 'x env \<Rightarrow> 'x env \<Rightarrow> bool" where
  "carries f U D env env' \<longleftrightarrow> dom env \<subseteq> D \<and> (\<forall>v \<in> U. \<forall>x. env v = Some x \<longrightarrow> env' (f v) = Some x)"

lemma carriesD: "carries f U D env env' \<Longrightarrow> v \<in> U \<Longrightarrow> env v = Some x \<Longrightarrow> env' (f v) = Some x"
  by (simp add: carries_def)

lemma carries_refl: "carries (\<lambda>v. v) U UNIV env env"
  by (simp add: carries_def)

lemma carries_update:
  assumes "carries f U D env env'" "inj_on f D" "r \<in> D"
  shows "carries f U D (env(r \<mapsto> x)) (env'(f r \<mapsto> x))"
proof -
  have "f v \<noteq> f r" if "env v = Some y" "v \<noteq> r" for v y
    using assms that by (auto simp: carries_def inj_on_def dom_def)
  then show ?thesis using assms by (auto simp: carries_def)
qed

lemma values_of_carries:
  "carries f U D env env' \<Longrightarrow> set vs \<subseteq> U \<Longrightarrow> values_of env vs = Some xs \<Longrightarrow> values_of env' (map f vs) = Some xs"
proof (induction vs arbitrary: xs)
  case (Cons v vs)
  from Cons.prems(3) obtain y ys where y: "env v = Some y" "values_of env vs = Some ys" "xs = y # ys"
    by (auto simp: values_of_def split: option.splits)
  then have "values_of env' (map f vs) = Some ys" using Cons by simp
  then show ?case using y carriesD [OF Cons.prems(1)] Cons.prems(2) by (simp add: values_of_def)
qed (simp add: values_of_def)

lemma exec_kind_carries:
  assumes "carries f U D env env'" "set (instruction_operands k) \<subseteq> U" "exec_kind I ty k env s = Some r"
  shows "exec_kind I ty (map_InstructionKind f k) env' s = Some r"
proof -
  obtain xs where xs: "values_of env (instruction_operands k) = Some xs"
    using assms(3) by (auto simp: exec_kind_def split: option.splits)
  have "shape (map_InstructionKind f k) = shape k" by (simp add: InstructionKind.map_comp comp_def)
  then show ?thesis
    using assms(3) xs values_of_carries [OF assms(1,2) xs] by (auto simp: exec_kind_def operands_map split: option.splits if_splits)
qed

lemma select_case_map:
  "select_case I x (map (map_SwitchCase f) cs) (b, map f args) = map_option (\<lambda>(b, args). (b, map f args)) (select_case I x cs (b, args))"
proof (induction cs)
  case (Cons c cs)
  then show ?case by (cases c) (auto split: option.splits bool.splits)
qed simp

lemma select_case_operands:
  "select_case I x cs (b, args) = Some (b', args') \<Longrightarrow> set args' \<subseteq> set (concat (map case_arguments cs) @ args)"
  by (induction cs) (auto split: option.splits bool.splits)

lemma take_edge_operands:
  "take_edge I env t = Some (b, args) \<Longrightarrow> set args \<subseteq> set (terminator_operands t)"
  by (cases t) (auto simp: take_edge_def bind_eq_Some_conv split: if_splits dest!: select_case_operands)

lemma take_edge_carries:
  assumes "carries f U D env env'" "set (terminator_operands t) \<subseteq> U" "take_edge I env t = Some (b, args)"
  shows "take_edge I env' (map_Terminator f t) = Some (b, map f args)"
proof (cases t)
  case (Branch c b1 args1 b2 args2)
  then obtain x v where x: "env c = Some x" "truth I x = Some v" "(if v then (b1, args1) else (b2, args2)) = (b, args)"
    using assms(3) by (auto simp: take_edge_def bind_eq_Some_conv)
  have "env' (f c) = Some x" using assms(1,2) Branch x(1) by (simp add: carries_def)
  then show ?thesis using x(2,3) Branch by (cases v) (simp_all add: take_edge_def)
next
  case (Switch d cases dflt dargs)
  then obtain x where x: "env d = Some x" "select_case I x cases (dflt, dargs) = Some (b, args)"
    using assms(3) by (auto simp: take_edge_def bind_eq_Some_conv)
  have "env' (f d) = Some x" using assms(1,2) Switch x(1) by (simp add: carries_def)
  then show ?thesis using x(2) Switch by (simp add: take_edge_def select_case_map)
qed (use assms(3) in \<open>auto simp: take_edge_def\<close>)

lemma exec_terminator_carries:
  assumes "carries f U D env env'" "set (terminator_operands t) \<subseteq> U" "exec_terminator I env t = Some tr"
  shows "exec_terminator I env' (map_Terminator f t) = Some tr"
proof (cases "\<exists>v. t = Return v")
  case True
  then show ?thesis using assms by (auto simp: exec_terminator_def carries_def split: option.splits)
next
  case False
  have "exec_terminator I e u = Option.bind (take_edge I e u) (\<lambda>(b, args). map_option (Enter b) (values_of e args))"
    if "\<nexists>v. u = Return v" for e and u :: "ValueId Terminator"
    using that by (cases u) (auto simp: exec_terminator_def)
  note edge = this
  have "\<nexists>v. map_Terminator f t = Return v" using False by (cases t) auto
  note edge' = edge [OF this]
  obtain b args xs where b: "take_edge I env t = Some (b, args)" "values_of env args = Some xs" "tr = Enter b xs"
    using assms(3) edge [OF False] by (auto simp: bind_eq_Some_conv)
  have "set args \<subseteq> U" using take_edge_operands [OF b(1)] assms(2) by blast
  then show ?thesis
    using edge' take_edge_carries [OF assms(1,2) b(1)] values_of_carries [OF assms(1) _ b(2)] b(3) by simp
qed

definition rename_typed :: "(ValueId \<Rightarrow> ValueId) \<Rightarrow> TypedValue \<Rightarrow> TypedValue" where
  "rename_typed f t = t\<lparr>tv_value := f (tv_value t)\<rparr>"

definition rename_instruction :: "(ValueId \<Rightarrow> ValueId) \<Rightarrow> Instruction \<Rightarrow> Instruction" where
  "rename_instruction f i =
     i\<lparr>inst_result := map_option (rename_typed f) (inst_result i), inst_kind := map_InstructionKind f (inst_kind i)\<rparr>"

definition result_values :: "Instruction \<Rightarrow> ValueId list" where
  "result_values i = (case inst_result i of None \<Rightarrow> [] | Some r \<Rightarrow> [tv_value r])"

lemma rename_typed_simps [simp]:
  "rename_typed (\<lambda>v. v) = (\<lambda>t. t)" "tv_value (rename_typed f t) = f (tv_value t)" "tv_type (rename_typed f t) = tv_type t"
  by (simp_all add: rename_typed_def fun_eq_iff)

lemma rename_instruction_id: "rename_instruction (\<lambda>v. v) i = i"
  by (simp add: rename_instruction_def InstructionKind.map_ident option.map_ident)

lemma exec_instruction_carries:
  assumes "carries f U D env env'" "set (instruction_operands (inst_kind i)) \<subseteq> U" "exec_instruction I i (env, s) = Some (e, t)"
    and "inj_on f D" "set (result_values i) \<subseteq> D"
  shows "\<exists>e'. exec_instruction I (rename_instruction f i) (env', s) = Some (e', t) \<and> carries f U D e e'"
proof -
  obtain x where x: "exec_kind I (map_option tv_type (inst_result i)) (inst_kind i) env s = Some (x, t)"
    using assms(3) by (auto simp: exec_instruction_def split: option.splits)
  have x': "exec_kind I (map_option tv_type (inst_result i)) (map_InstructionKind f (inst_kind i)) env' s = Some (x, t)"
    by (rule exec_kind_carries [OF assms(1,2) x])
  show ?thesis
  proof (cases "inst_result i")
    case None
    then show ?thesis using assms(1,3) x x' by (auto simp: exec_instruction_def rename_instruction_def)
  next
    case (Some r)
    then obtain y where y: "x = Some y" "e = env(tv_value r \<mapsto> y)" using assms(3) x by (auto simp: exec_instruction_def split: option.splits)
    have "tv_value r \<in> D" using assms(5) Some by (simp add: result_values_def)
    note u = carries_update [OF assms(1,4) this, of y]
    show ?thesis using Some x' y u by (simp add: exec_instruction_def rename_instruction_def)
  qed
qed

lemma exec_instructions_carries:
  assumes "carries f U D env env'" "\<forall>i \<in> set is. set (instruction_operands (inst_kind i)) \<subseteq> U"
    and "exec_instructions I is (env, s) = Some (e, t)" "inj_on f D" "\<forall>i \<in> set is. set (result_values i) \<subseteq> D"
  shows "\<exists>e'. exec_instructions I (map (rename_instruction f) is) (env', s) = Some (e', t) \<and> carries f U D e e'"
  using assms
proof (induction "is" arbitrary: env env' s)
  case (Cons i "is")
  obtain e1 s1 where es: "exec_instruction I i (env, s) = Some (e1, s1)" "exec_instructions I is (e1, s1) = Some (e, t)"
    using Cons.prems(3) by (auto simp: bind_eq_Some_conv)
  obtain e1' where e1': "exec_instruction I (rename_instruction f i) (env', s) = Some (e1', s1)" "carries f U D e1 e1'"
    using exec_instruction_carries [OF Cons.prems(1) _ es(1) Cons.prems(4)] Cons.prems(2,5) by auto
  show ?case using Cons.IH [OF e1'(2) _ es(2) Cons.prems(4)] Cons.prems(2,5) e1'(1) by simp
qed simp

lemma bind_parameters_carries:
  assumes "carries f U D env env'" "bind_parameters ps xs env = Some e" "inj_on f D" "set ps \<subseteq> D"
  shows "\<exists>e'. bind_parameters (map f ps) xs env' = Some e' \<and> carries f U D e e'"
proof -
  have len: "length ps = length xs" and e: "e = env(ps [\<mapsto>] xs)" using assms(2) by (auto simp: bind_parameters_def split: if_splits)
  have "carries f U D (env(ps [\<mapsto>] xs)) (env'(map f ps [\<mapsto>] xs))"
    using len assms(1,4)
  proof (induction ps xs arbitrary: env env' rule: list_induct2)
    case (Cons p ps x xs)
    then have "carries f U D (env(p \<mapsto> x)) (env'(f p \<mapsto> x))" using assms(3) by (intro carries_update) simp_all
    then show ?case using Cons.IH Cons.prems(2) by simp
  qed simp
  then show ?thesis using len e by (simp add: bind_parameters_def)
qed

end
