(* ===== verification/Jir_Simplify.thy ===== *)
theory Jir_Simplify
  imports Jir_Simulation "HOL-Library.Sublist"
begin

text \<open>
  The pass \<open>simplify_cfg_and_dce\<close> of \<open>optimize.rs\<close>: it rewrites branches on constants, prunes unreachable blocks,
  removes dead pure instructions and renumbers the values. Every step is an instance of the simulation, so that
  the pass preserves the meaning of every function in SSA form.
\<close>

record OptimizationStats =
  folded_instructions :: nat
  simplified_terminators :: nat
  removed_instructions :: nat
  inlined_calls :: nat
  promoted_stack_slots :: nat
  eliminated_bounds_checks :: nat
  canonicalized_loops :: nat
  hoisted_loop_instructions :: nat

definition no_stats :: OptimizationStats where
  "no_stats = \<lparr>folded_instructions = 0, simplified_terminators = 0, removed_instructions = 0, inlined_calls = 0,
     promoted_stack_slots = 0, eliminated_bounds_checks = 0, canonicalized_loops = 0, hoisted_loop_instructions = 0\<rparr>"

subsection \<open>The values a function defines\<close>

definition block_results :: "Block \<Rightarrow> ValueId list" where
  "block_results b = concat (map result_values (instructions b))"

definition block_definitions :: "Block list \<Rightarrow> ValueId list" where
  "block_definitions bs = concat (map (\<lambda>b. map tv_value (block_parameters b)) bs) @ concat (map block_results bs)"

definition definitions :: "JFunction \<Rightarrow> ValueId list" where
  "definitions f = map param_value (parameters f) @ block_definitions (blocks f)"

text \<open>Single assignment: no value is defined twice.\<close>

definition ssa :: "JFunction \<Rightarrow> bool" where
  "ssa f \<longleftrightarrow> distinct (definitions f)"

lemma distinct_concat_same:
  "distinct (concat (map g xs)) \<Longrightarrow> x \<in> set xs \<Longrightarrow> y \<in> set xs \<Longrightarrow> v \<in> set (g x) \<Longrightarrow> v \<in> set (g y) \<Longrightarrow> x = y"
  by (induction xs) auto

lemma subseq_distinct: "subseq xs ys \<Longrightarrow> distinct ys \<Longrightarrow> distinct xs"
  by (induction rule: list_emb.induct) (auto dest: list_emb_set)

lemma distinct_results:
  assumes "distinct (block_definitions bs)"
  shows "distinct (concat (map result_values (concat (map instructions bs))))"
proof -
  have "concat (map result_values (concat (map instructions bs))) = concat (map block_results bs)"
    by (induction bs) (simp_all add: block_results_def)
  then show ?thesis using assms by (simp add: block_definitions_def)
qed

lemma definitions_of_block:
  assumes "b < length bs"
  shows "set (map tv_value (block_parameters (bs ! b))) \<subseteq> set (block_definitions bs)"
    and "i \<in> set (instructions (bs ! b)) \<Longrightarrow> set (result_values i) \<subseteq> set (block_definitions bs)"
  using nth_mem [OF assms] by (auto simp: block_definitions_def block_results_def)

subsection \<open>Constant branches\<close>

definition constant_results :: "Instruction \<Rightarrow> (ValueId \<times> Constant) list" where
  "constant_results i =
     (case inst_result i of
        None \<Rightarrow> []
      | Some r \<Rightarrow> (case inst_kind i of Constant c \<Rightarrow> [(tv_value r, c)] | _ \<Rightarrow> []))"

definition constants_of :: "Block list \<Rightarrow> (ValueId \<times> Constant) list" where
  "constants_of bs = foldl (\<lambda>m (v, c). bt_insert v c m) [] (concat (map constant_results (concat (map instructions bs))))"

definition simplified_terminator :: "(ValueId \<times> Constant) list \<Rightarrow> ValueId Terminator \<Rightarrow> ValueId Terminator option" where
  "simplified_terminator constants t =
     (case t of
        Branch c then_target then_arguments else_target else_arguments \<Rightarrow>
          (case bt_get constants c of
             Some (BoolConst True) \<Rightarrow> Some (Jump then_target then_arguments)
           | Some (BoolConst False) \<Rightarrow> Some (Jump else_target else_arguments)
           | _ \<Rightarrow> None)
      | Switch d cases dflt default_arguments \<Rightarrow>
          (case bt_get constants d of
             Some (IntegerConst v) \<Rightarrow>
               (case find (\<lambda>c. case_value c = v) cases of
                  Some c \<Rightarrow> Some (Jump (case_target c) (case_arguments c))
                | None \<Rightarrow> Some (Jump dflt default_arguments))
           | _ \<Rightarrow> None)
      | _ \<Rightarrow> None)"

fun simplify_blocks :: "(ValueId \<times> Constant) list \<Rightarrow> Block list \<Rightarrow> OptimizationStats \<Rightarrow> Block list \<times> OptimizationStats" where
  "simplify_blocks constants [] stats = ([], stats)"
| "simplify_blocks constants (b # bs) stats =
     (let (b', stats) =
        (case simplified_terminator constants (terminator b) of
           None \<Rightarrow> (b, stats)
         | Some t \<Rightarrow> (b\<lparr>terminator := t\<rparr>, stats\<lparr>simplified_terminators := simplified_terminators stats + 1\<rparr>));
        (bs', stats) = simplify_blocks constants bs stats
      in (b' # bs', stats))"

definition simplify_constant_terminators :: "JFunction \<Rightarrow> OptimizationStats \<Rightarrow> JFunction \<times> OptimizationStats" where
  "simplify_constant_terminators f stats =
     (let (bs, stats) = simplify_blocks (constants_of (blocks f)) (blocks f) stats in (f\<lparr>blocks := bs\<rparr>, stats))"

text \<open>What the rewriting relies on: a branch on a Boolean constant and a switch on an integer constant go where they say.\<close>

definition constants_ok :: "('x, 's) Interp \<Rightarrow> bool" where
  "constants_ok I \<longleftrightarrow>
     (\<forall>t b x. pure_sem I t (Constant (BoolConst b)) [] = Some x \<longrightarrow> truth I x = Some b) \<and>
     (\<forall>t w v x. pure_sem I t (Constant (IntegerConst w)) [] = Some x \<longrightarrow> selects I x v = Some (w = v))"

definition simplify_block :: "(ValueId \<times> Constant) list \<Rightarrow> Block \<Rightarrow> Block" where
  "simplify_block constants b =
     (case simplified_terminator constants (terminator b) of None \<Rightarrow> b | Some t \<Rightarrow> b\<lparr>terminator := t\<rparr>)"

lemma simplify_block_fields [simp]:
  "block_parameters (simplify_block m b) = block_parameters b" "instructions (simplify_block m b) = instructions b"
  by (simp_all add: simplify_block_def split: option.split)

lemma simplify_blocks_map: "fst (simplify_blocks m bs stats) = map (simplify_block m) bs"
  by (induction m bs stats rule: simplify_blocks.induct)
    (auto simp: simplify_block_def Let_def split: option.splits prod.splits)

lemma constants_of_defined:
  assumes "bt_get (constants_of bs) v = Some c"
  obtains i r where "i \<in> set (concat (map instructions bs))" "inst_result i = Some r" "tv_value r = v" "inst_kind i = Constant c"
proof -
  have "(v, c) \<in> set (constants_of bs)" using assms by (simp add: bt_get_def map_of_SomeD)
  then have "(v, c) \<in> set (concat (map constant_results (concat (map instructions bs))))"
    using subsetD [OF set_foldl_bt_insert [of "[]"], of "(v, c)"] unfolding constants_of_def by (simp del: set_concat)
  then obtain i where i: "i \<in> set (concat (map instructions bs))" "(v, c) \<in> set (constant_results i)" by auto
  then obtain r where "inst_result i = Some r" "tv_value r = v" "inst_kind i = Constant c"
    by (cases "inst_result i"; cases "inst_kind i") (simp_all add: constant_results_def)
  then show thesis by (rule that [OF i(1)])
qed

definition constants_hold :: "('x, 's) Interp \<Rightarrow> Block list \<Rightarrow> 'x env \<Rightarrow> bool" where
  "constants_hold I bs env \<longleftrightarrow>
     (\<forall>v c x. bt_get (constants_of bs) v = Some c \<longrightarrow> env v = Some x \<longrightarrow> (\<exists>t. pure_sem I t (Constant c) [] = Some x))"

lemma constants_hold_empty: "constants_hold I bs (\<lambda>_. None)"
  by (simp add: constants_hold_def)

lemma constants_hold_update:
  "constants_hold I bs env \<Longrightarrow> (\<And>c. bt_get (constants_of bs) v = Some c \<Longrightarrow> \<exists>t. pure_sem I t (Constant c) [] = Some x) \<Longrightarrow>
     constants_hold I bs (env(v \<mapsto> x))"
  by (auto simp: constants_hold_def)

lemma constants_hold_instruction:
  assumes "distinct (block_definitions bs)" "i \<in> set (concat (map instructions bs))"
    and "constants_hold I bs env" "exec_instruction I i (env, s) = Some (e, t)"
  shows "constants_hold I bs e"
proof (cases "inst_result i")
  case None
  then show ?thesis using assms(3,4) by (auto simp: exec_instruction_def split: option.splits)
next
  case (Some r)
  obtain x where x: "exec_kind I (Some (tv_type r)) (inst_kind i) env s = Some (Some x, t)" "e = env(tv_value r \<mapsto> x)"
    using assms(4) Some by (auto simp: exec_instruction_def split: option.splits)
  have "\<exists>t. pure_sem I t (Constant c) [] = Some x" if c: "bt_get (constants_of bs) (tv_value r) = Some c" for c
  proof -
    obtain j q where j: "j \<in> set (concat (map instructions bs))" "inst_result j = Some q" "tv_value q = tv_value r" "inst_kind j = Constant c"
      by (rule constants_of_defined [OF c])
    have "tv_value r \<in> set (result_values i)" "tv_value r \<in> set (result_values j)"
      using Some j(2,3) by (simp_all add: result_values_def)
    then have "i = j" by (rule distinct_concat_same [OF distinct_results [OF assms(1)] assms(2) j(1)])
    then show ?thesis using j(4) x(1) by (auto simp: exec_kind_def values_of_def)
  qed
  then show ?thesis using constants_hold_update [OF assms(3)] x(2) by blast
qed

lemma constants_hold_instructions:
  assumes "distinct (block_definitions bs)" "set is \<subseteq> set (concat (map instructions bs))"
    and "constants_hold I bs env" "exec_instructions I is (env, s) = Some (e, t)"
  shows "constants_hold I bs e"
  using assms(2-)
proof (induction "is" arbitrary: env s)
  case (Cons i "is")
  obtain e1 s1 where es: "exec_instruction I i (env, s) = Some (e1, s1)" "exec_instructions I is (e1, s1) = Some (e, t)"
    using Cons.prems(3) by (auto simp: bind_eq_Some_conv)
  have "constants_hold I bs e1" by (rule constants_hold_instruction [OF assms(1) _ Cons.prems(2) es(1)]) (use Cons.prems(1) in simp)
  then show ?case using Cons.IH [OF _ _ es(2)] Cons.prems(1) by simp
qed simp

lemma constants_hold_parameters:
  assumes "set vs \<inter> set (concat (map block_results bs)) = {}" "constants_hold I bs env" "bind_parameters vs xs env = Some e"
  shows "constants_hold I bs e"
proof -
  have none: "bt_get (constants_of bs) v = None" if "v \<in> set vs" for v
  proof (rule ccontr)
    assume "bt_get (constants_of bs) v \<noteq> None"
    then obtain c where c: "bt_get (constants_of bs) v = Some c" by blast
    obtain i r where i: "i \<in> set (concat (map instructions bs))" "inst_result i = Some r" "tv_value r = v"
      by (rule constants_of_defined [OF c])
    then have "v \<in> set (concat (map block_results bs))" by (force simp: block_results_def result_values_def)
    then show False using assms(1) that by auto
  qed
  have len: "length vs = length xs" and e: "e = env(vs [\<mapsto>] xs)" using assms(3) by (auto simp: bind_parameters_def split: if_splits)
  show ?thesis unfolding e
    using len none assms(2)
  proof (induction vs xs arbitrary: env rule: list_induct2)
    case (Cons p ps x xs)
    have "constants_hold I bs (env(p \<mapsto> x))" by (rule constants_hold_update [OF Cons.prems(2)]) (simp add: Cons.prems(1))
    then show ?case using Cons.IH Cons.prems(1) by simp
  qed simp
qed

lemma select_case_found:
  assumes "\<And>v. selects I x v = Some (w = v)"
  shows "select_case I x cs d = (case find (\<lambda>c. case_value c = w) cs of Some c \<Rightarrow> Some (case_target c, case_arguments c) | None \<Rightarrow> Some d)"
  by (induction cs) (auto simp: assms split: option.splits bool.splits)

lemma simplified_terminator_runs:
  assumes ok: "constants_ok I" and hold: "constants_hold I bs env" and run: "exec_terminator I env t = Some tr"
    and t': "simplified_terminator (constants_of bs) t = Some t'"
  shows "exec_terminator I env t' = Some tr"
proof (cases t)
  case (Branch c b1 args1 b2 args2)
  obtain v where v: "bt_get (constants_of bs) c = Some (BoolConst v)" "t' = (if v then Jump b1 args1 else Jump b2 args2)"
    using t' Branch by (auto simp: simplified_terminator_def split: option.splits Constant.splits bool.splits)
  obtain x v' where x: "env c = Some x" "truth I x = Some v'"
    "Option.bind (Some (if v' then (b1, args1) else (b2, args2))) (\<lambda>(b, args). map_option (Enter b) (values_of env args)) = Some tr"
    using run Branch by (auto simp: exec_terminator_def take_edge_def bind_eq_Some_conv)
  obtain u where "pure_sem I u (Constant (BoolConst v)) [] = Some x"
    using hold v(1) x(1) unfolding constants_hold_def by blast
  then have "v' = v" using ok x(2) unfolding constants_ok_def by force
  then show ?thesis using x(3) v(2) by (cases v) (simp_all add: exec_terminator_def take_edge_def)
next
  case (Switch d cs b args)
  obtain w where w: "bt_get (constants_of bs) d = Some (IntegerConst w)"
    "t' = (case find (\<lambda>c. case_value c = w) cs of Some c \<Rightarrow> Jump (case_target c) (case_arguments c) | None \<Rightarrow> Jump b args)"
    using t' Switch by (auto simp: simplified_terminator_def split: option.splits Constant.splits)
  obtain x where x: "env d = Some x"
    "Option.bind (select_case I x cs (b, args)) (\<lambda>(b, args). map_option (Enter b) (values_of env args)) = Some tr"
    using run Switch by (auto simp: exec_terminator_def take_edge_def bind_eq_Some_conv)
  obtain u where "pure_sem I u (Constant (IntegerConst w)) [] = Some x"
    using hold w(1) x(1) unfolding constants_hold_def by blast
  then have "selects I x v = Some (w = v)" for v using ok unfolding constants_ok_def by blast
  then show ?thesis using x(2) w(2) select_case_found [of I x w cs "(b, args)"]
    by (auto simp: exec_terminator_def take_edge_def split: option.splits)
qed (use t' in \<open>simp_all add: simplified_terminator_def\<close>)

interpretation constant_branches: block_simulation I bs "map (simplify_block (constants_of bs)) bs" "\<lambda>b. b"
  "\<lambda>_. distinct (block_definitions bs) \<and> constants_ok I" "\<lambda>env env'. env' = env \<and> constants_hold I bs env"
  for I :: "('x, 's) Interp" and bs
proof unfold_locales
  let ?bs = "map (simplify_block (constants_of bs)) bs"
  fix b xs s t tr and env env' e :: "'x env"
  assume ok: "distinct (block_definitions bs) \<and> constants_ok I" and b: "b < length bs"
  show "b < length ?bs" using b by simp
  have i: "set (instructions (bs ! b)) \<subseteq> set (concat (map instructions bs))" using b nth_mem by fastforce
  have "set (parameter_values bs b) \<subseteq> set (concat (map (\<lambda>b. map tv_value (block_parameters b)) bs))" using b nth_mem by fastforce
  then have p: "set (parameter_values bs b) \<inter> set (concat (map block_results bs)) = {}"
    using ok unfolding block_definitions_def distinct_append by blast
  assume rel: "env' = env \<and> constants_hold I bs env"
  show "\<exists>e'. bind_parameters (parameter_values ?bs b) xs env' = Some e' \<and> (e' = e \<and> constants_hold I bs e)"
    if "bind_parameters (parameter_values bs b) xs env = Some e"
    using constants_hold_parameters [OF p conjunct2 [OF rel] that] rel b that by simp
  show "\<exists>e'. exec_instructions I (instructions (?bs ! b)) (env', s) = Some (e', t) \<and> (e' = e \<and> constants_hold I bs e)"
    if "exec_instructions I (instructions (bs ! b)) (env, s) = Some (e, t)"
    using constants_hold_instructions [OF _ i _ that] ok rel b that by simp
  show "exec_terminator I env' (terminator (?bs ! b)) = Some (rename_transfer (\<lambda>b. b) tr) \<and>
      (\<forall>b' xs. tr = Enter b' xs \<longrightarrow> distinct (block_definitions bs) \<and> constants_ok I)"
    if "exec_terminator I env (terminator (bs ! b)) = Some tr"
    using simplified_terminator_runs [OF conjunct2 [OF ok] conjunct2 [OF rel] that] ok rel b that
    by (simp add: simplify_block_def rename_transfer_def split: option.split Transfer.split)
qed

subsection \<open>Dead instructions\<close>

text \<open>The operands of all instructions and terminators, as often as they are used.\<close>

definition all_operands :: "Block list \<Rightarrow> ValueId list" where
  "all_operands bs =
     concat (map (\<lambda>b. concat (map (\<lambda>i. instruction_operands (inst_kind i)) (instructions b)) @ terminator_operands (terminator b)) bs)"

definition is_dead :: "Block list \<Rightarrow> Instruction \<Rightarrow> bool" where
  "is_dead bs i = (case inst_result i of None \<Rightarrow> False | Some r \<Rightarrow> count_list (all_operands bs) (tv_value r) = 0)"

text \<open>One round of the loop, with the number of instructions it removes.\<close>

definition drop_dead :: "Block list \<Rightarrow> Block list" where
  "drop_dead bs = map (\<lambda>b. b\<lparr>instructions := filter (\<lambda>i. \<not> (is_dead bs i \<and> is_pure_scalar i)) (instructions b)\<rparr>) bs"

definition instruction_count :: "Block list \<Rightarrow> nat" where
  "instruction_count bs = sum_list (map (\<lambda>b. length (instructions b)) bs)"

function eliminate_dead :: "Block list \<Rightarrow> nat \<Rightarrow> Block list \<times> nat" where
  "eliminate_dead bs removed =
     (let bs' = drop_dead bs; k = instruction_count bs - instruction_count bs' in
      if k = 0 then (bs', removed) else eliminate_dead bs' (removed + k))"
  by auto
termination
  by (relation "measure (\<lambda>(bs, _). instruction_count bs)") auto

declare eliminate_dead.simps [simp del]

lemma dead_not_used: "is_dead bs i \<Longrightarrow> inst_result i = Some r \<Longrightarrow> tv_value r \<notin> set (all_operands bs)"
  by (simp add: is_dead_def count_list_0_iff)

lemma block_operands:
  assumes "b < length bs"
  shows "i \<in> set (instructions (bs ! b)) \<Longrightarrow> set (instruction_operands (inst_kind i)) \<subseteq> set (all_operands bs)"
    and "set (terminator_operands (terminator (bs ! b))) \<subseteq> set (all_operands bs)"
  using nth_mem [OF assms] by (auto simp: all_operands_def)

lemma drop_dead_instructions:
  fixes bs :: "Block list"
  defines "U \<equiv> set (all_operands bs)"
  assumes "carries (\<lambda>v. v) U UNIV env env'" "\<forall>i \<in> set is. set (instruction_operands (inst_kind i)) \<subseteq> U"
    and "exec_instructions I is (env, s) = Some (e, t)"
  shows "\<exists>e'. exec_instructions I (filter (\<lambda>i. \<not> (is_dead bs i \<and> is_pure_scalar i)) is) (env', s) = Some (e', t) \<and>
    carries (\<lambda>v. v) U UNIV e e'"
  using assms(2-)
proof (induction "is" arbitrary: env env' s)
  case (Cons i "is")
  obtain e1 s1 where es: "exec_instruction I i (env, s) = Some (e1, s1)" "exec_instructions I is (e1, s1) = Some (e, t)"
    using Cons.prems(3) by (auto simp: bind_eq_Some_conv)
  show ?case
  proof (cases "is_dead bs i \<and> is_pure_scalar i")
    case True
    then obtain r where r: "inst_result i = Some r" by (auto simp: is_dead_def split: option.splits)
    obtain y where y: "s1 = s" "e1 = env(tv_value r \<mapsto> y)"
      using es(1) True r by (auto simp: exec_instruction_def exec_kind_def is_pure_scalar_def split: option.splits)
    have "tv_value r \<notin> U" using dead_not_used True r unfolding U_def by blast
    then have "carries (\<lambda>v. v) U UNIV e1 env'" using Cons.prems(1) y by (auto simp: carries_def)
    then show ?thesis using Cons.IH [of e1 env' s] Cons.prems(2) es(2) y(1) True by simp
  next
    case False
    obtain e1' where e1': "exec_instruction I i (env', s) = Some (e1', s1)" "carries (\<lambda>v. v) U UNIV e1 e1'"
      using exec_instruction_carries [OF Cons.prems(1) _ es(1)] Cons.prems(2) by (auto simp: rename_instruction_id)
    then show ?thesis using Cons.IH [OF e1'(2) _ es(2)] Cons.prems(2) False by auto
  qed
qed simp

interpretation dead: block_simulation I bs "drop_dead bs" "\<lambda>b. b" "\<lambda>_. True" "carries (\<lambda>v. v) (set (all_operands bs)) UNIV"
  for I :: "('x, 's) Interp" and bs
proof unfold_locales
  let ?rel = "carries (\<lambda>v. v) (set (all_operands bs)) UNIV"
  fix b xs s t tr and env env' e :: "'x env"
  show "b < length (drop_dead bs)" if "b < length bs"
    using that by (simp add: drop_dead_def)
  show "\<exists>e'. bind_parameters (parameter_values (drop_dead bs) b) xs env' = Some e' \<and> ?rel e e'"
    if "b < length bs" "?rel env env'" "bind_parameters (parameter_values bs b) xs env = Some e"
    using bind_parameters_carries [OF that(2,3)] that(1) by (simp add: drop_dead_def)
  show "\<exists>e'. exec_instructions I (instructions (drop_dead bs ! b)) (env', s) = Some (e', t) \<and> ?rel e e'"
    if "b < length bs" "?rel env env'" "exec_instructions I (instructions (bs ! b)) (env, s) = Some (e, t)"
    using drop_dead_instructions [OF that(2) _ that(3)] block_operands(1) [OF that(1)] that(1) by (simp add: drop_dead_def)
  show "exec_terminator I env' (terminator (drop_dead bs ! b)) = Some (rename_transfer (\<lambda>b. b) tr) \<and> (\<forall>b' xs. tr = Enter b' xs \<longrightarrow> True)"
    if "b < length bs" "?rel env env'" "exec_terminator I env (terminator (bs ! b)) = Some tr"
    using exec_terminator_carries [OF that(2) block_operands(2) [OF that(1)] that(3)] that(1)
    by (simp add: drop_dead_def Terminator.map_ident rename_transfer_def split: Transfer.split)
qed

lemma eliminate_dead_runs:
  "run_blocks I bs n b xs (env, s) = Some r \<Longrightarrow> run_blocks I (fst (eliminate_dead bs k)) n b xs (env, s) = Some r"
proof (induction bs k rule: eliminate_dead.induct)
  case (1 bs k)
  have "run_blocks I (drop_dead bs) n b xs (env, s) = Some r"
    using dead.simulates [OF _ carries_refl "1.prems"] by simp
  then show ?case using "1.IH" by (subst eliminate_dead.simps) (auto simp: Let_def)
qed

subsection \<open>Unreachable blocks\<close>

fun terminator_targets :: "'v Terminator \<Rightarrow> BlockId list" where
  "terminator_targets (Return v) = []"
| "terminator_targets Unreachable = []"
| "terminator_targets (Jump target arguments) = [target]"
| "terminator_targets (Branch c then_target targs else_target eargs) = [then_target, else_target]"
| "terminator_targets (Switch d cases dflt dargs) = map case_target cases @ [dflt]"

fun remap_terminator_targets :: "(BlockId \<times> BlockId) list \<Rightarrow> 'v Terminator \<Rightarrow> 'v Terminator" where
  "remap_terminator_targets m (Return v) = Return v"
| "remap_terminator_targets m Unreachable = Unreachable"
| "remap_terminator_targets m (Jump target arguments) = Jump (remap m target) arguments"
| "remap_terminator_targets m (Branch c then_target targs else_target eargs) =
     Branch c (remap m then_target) targs (remap m else_target) eargs"
| "remap_terminator_targets m (Switch d cases dflt dargs) =
     Switch d (map (\<lambda>c. SwitchCase (case_value c) (remap m (case_target c)) (case_arguments c)) cases) (remap m dflt) dargs"

definition all_targets :: "Block list \<Rightarrow> BlockId set" where
  "all_targets bs = (\<Union>b \<in> set bs. set (terminator_targets (terminator b)))"

text \<open>The stack of pending blocks has its top at the head; the last target pushed is visited first.\<close>

function reach :: "Block list \<Rightarrow> BlockId list \<Rightarrow> (BlockId \<times> bool) list \<Rightarrow> (BlockId \<times> bool) list" where
  "reach bs [] reachable = reachable"
| "reach bs (i # pending) reachable =
     (if bt_get reachable i \<noteq> None then reach bs pending (bt_insert i True reachable)
      else if i < length bs
      then reach bs (rev (terminator_targets (terminator (bs ! i))) @ pending) (bt_insert i True reachable)
      else reach bs pending (bt_insert i True reachable))"
  by pat_completeness auto
termination
proof (relation "measures [\<lambda>(bs, pending, reachable). card ((set pending \<union> all_targets bs) - fst ` set reachable), \<lambda>(bs, pending, reachable). length pending]", goal_cases)
  case 1
  show ?case by simp
next
  case (2 bs i pending reachable)
  then have "fst ` set (bt_insert i True reachable) = fst ` set reachable" "i \<in> fst ` set reachable"
    by (auto simp: fst_bt_insert bt_get_None)
  then show ?case by (auto simp: insert_Diff_if intro!: arg_cong [where f = card])
next
  case (3 bs i pending reachable)
  have fin: "finite (set (i # pending) \<union> all_targets bs)" by (simp add: all_targets_def)
  have "set (terminator_targets (terminator (bs ! i))) \<subseteq> all_targets bs" using 3(2) nth_mem by (force simp: all_targets_def)
  then have "(set (rev (terminator_targets (terminator (bs ! i))) @ pending) \<union> all_targets bs) - fst ` set (bt_insert i True reachable) \<subset>
      (set (i # pending) \<union> all_targets bs) - fst ` set reachable"
    using 3(1) by (auto simp: fst_bt_insert bt_get_None)
  then show ?case using fin by (simp add: psubset_card_mono)
next
  case (4 bs i pending reachable)
  have fin: "finite (set (i # pending) \<union> all_targets bs)" by (simp add: all_targets_def)
  have "(set pending \<union> all_targets bs) - fst ` set (bt_insert i True reachable) \<subset> (set (i # pending) \<union> all_targets bs) - fst ` set reachable"
    using 4(1) by (auto simp: fst_bt_insert bt_get_None)
  then show ?case using fin by (simp add: psubset_card_mono)
qed

fun number_blocks :: "(BlockId \<times> bool) list \<Rightarrow> BlockId list \<Rightarrow> BlockId \<Rightarrow> (BlockId \<times> BlockId) list \<Rightarrow> (BlockId \<times> BlockId) list" where
  "number_blocks reachable [] next_id m = m"
| "number_blocks reachable (i # is) next_id m =
     (if bt_get reachable i \<noteq> None then number_blocks reachable is (Suc next_id) (bt_insert i next_id m)
      else number_blocks reachable is next_id m)"

definition renumber_block :: "(BlockId \<times> BlockId) list \<Rightarrow> BlockId \<Rightarrow> Block \<Rightarrow> Block" where
  "renumber_block m new_id b = b\<lparr>block_id := new_id, terminator := remap_terminator_targets m (terminator b)\<rparr>"

fun keep_blocks :: "(BlockId \<times> BlockId) list \<Rightarrow> BlockId \<Rightarrow> Block list \<Rightarrow> Block list" where
  "keep_blocks m i [] = []"
| "keep_blocks m i (b # bs) =
     (case bt_get m i of
        None \<Rightarrow> keep_blocks m (Suc i) bs
      | Some new_id \<Rightarrow> renumber_block m new_id b # keep_blocks m (Suc i) bs)"

definition prune_blocks :: "Block list \<Rightarrow> Block list" where
  "prune_blocks bs =
     (if bs = [] then bs
      else let reachable = reach bs [0] [] in
        if length reachable = length bs then bs
        else keep_blocks (number_blocks reachable [0..<length bs] 0 []) 0 bs)"

definition prune_unreachable_blocks :: "JFunction \<Rightarrow> JFunction" where
  "prune_unreachable_blocks f = f\<lparr>blocks := prune_blocks (blocks f)\<rparr>"

lemma reach_includes:
  "fst ` set reachable \<union> set pending \<subseteq> fst ` set (reach bs pending reachable)"
proof (induction bs pending reachable rule: reach.induct)
  case (2 bs i pending reachable)
  then show ?case by (auto simp: fst_bt_insert)
qed simp

text \<open>What the search returns is closed under the edges of the graph.\<close>

lemma reach_closed:
  assumes "\<And>i. i \<in> fst ` set reachable \<Longrightarrow> i < length bs \<Longrightarrow>
      set (terminator_targets (terminator (bs ! i))) \<subseteq> fst ` set reachable \<union> set pending"
    and "i \<in> fst ` set (reach bs pending reachable)" "i < length bs"
  shows "set (terminator_targets (terminator (bs ! i))) \<subseteq> fst ` set (reach bs pending reachable)"
  using assms
proof (induction bs pending reachable rule: reach.induct)
  case (2 bs j pending reachable)
  show ?case
  proof (cases "bt_get reachable j \<noteq> None")
    case True
    then have j: "fst ` set (bt_insert j True reachable) = fst ` set reachable" "j \<in> fst ` set reachable"
      by (auto simp: fst_bt_insert bt_get_None)
    have "set (terminator_targets (terminator (bs ! i))) \<subseteq> fst ` set (bt_insert j True reachable) \<union> set pending"
      if "i \<in> fst ` set (bt_insert j True reachable)" "i < length bs" for i
      using "2.prems"(1) [of i] that j by auto
    from "2.IH"(1) [OF True this] show ?thesis using "2.prems"(2,3) True by simp
  next
    case False
    show ?thesis
    proof (cases "j < length bs")
      case True
      show ?thesis
        using "2.IH"(2) [OF False True] "2.prems" False True by (auto simp: fst_bt_insert)
    next
      case notin: False
      show ?thesis
        using "2.IH"(3) [OF False notin] "2.prems" False notin by (auto simp: fst_bt_insert)
    qed
  qed
qed simp

lemma prune_closed:
  "i \<in> fst ` set (reach bs [0] []) \<Longrightarrow> i < length bs \<Longrightarrow> set (terminator_targets (terminator (bs ! i))) \<subseteq> fst ` set (reach bs [0] [])"
  by (rule reach_closed) simp_all

lemma number_blocks_get:
  "bt_get (number_blocks reachable [k..<k + d] n m) i =
     (if k \<le> i \<and> i < k + d \<and> bt_get reachable i \<noteq> None
      then Some (n + length (filter (\<lambda>j. bt_get reachable j \<noteq> None) [k..<i])) else bt_get m i)"
proof (induction d arbitrary: k n m)
  case (Suc d)
  have u: "bt_get (number_blocks reachable [k..<k + Suc d] n m) i =
      (if bt_get reachable k \<noteq> None then bt_get (number_blocks reachable [Suc k..<Suc k + d] (Suc n) (bt_insert k n m)) i
       else bt_get (number_blocks reachable [Suc k..<Suc k + d] n m) i)"
    by (simp add: upt_conv_Cons del: upt_Suc)
  consider "i < k" | "i = k" | "k < i" by linarith
  then show ?case
  proof cases
    case 3
    have "[k..<i] = k # [Suc k..<i]" using 3 by (simp add: upt_conv_Cons)
    then show ?thesis unfolding u Suc.IH using 3 by (auto simp: bt_get_insert)
  qed (unfold u Suc.IH, auto simp: bt_get_insert)
qed auto

lemma keep_blocks_nth:
  assumes "i < length bs" "bt_get m (k + i) = Some n"
  shows "length (filter (\<lambda>j. bt_get m j \<noteq> None) [k..<k + i]) < length (keep_blocks m k bs) \<and>
    keep_blocks m k bs ! length (filter (\<lambda>j. bt_get m j \<noteq> None) [k..<k + i]) = renumber_block m n (bs ! i)"
  using assms
proof (induction bs arbitrary: k i)
  case (Cons b bs)
  show ?case
  proof (cases i)
    case 0
    then show ?thesis using Cons.prems by simp
  next
    case (Suc i')
    have "[k..<k + i] = k # [Suc k..<Suc k + i']" using Suc by (simp add: upt_conv_Cons)
    then show ?thesis using Cons.IH [of i' "Suc k"] Cons.prems Suc by (auto split: option.split)
  qed
qed simp

lemma select_case_targets:
  "select_case I x (map (\<lambda>c. SwitchCase (case_value c) (f (case_target c)) (case_arguments c)) cs) (f b, args) =
     map_option (\<lambda>(b, args). (f b, args)) (select_case I x cs (b, args))"
  by (induction cs) (auto split: option.splits bool.splits)

lemma select_case_target:
  "select_case I x cs (b, args) = Some (b', args') \<Longrightarrow> b' \<in> set (map case_target cs @ [b])"
  by (induction cs) (auto split: option.splits bool.splits)

lemma take_edge_targets:
  "take_edge I env (remap_terminator_targets m t) = map_option (\<lambda>(b, args). (remap m b, args)) (take_edge I env t)"
proof (cases t)
  case (Branch c b args b' args')
  then show ?thesis
    by (cases "env c") (auto simp: take_edge_def option.map_comp comp_def if_distrib intro!: option.map_cong)
next
  case (Switch d cs b args)
  then show ?thesis by (cases "env d") (simp_all add: take_edge_def select_case_targets)
qed (simp_all add: take_edge_def)

lemma exec_terminator_targets:
  assumes "exec_terminator I env t = Some tr"
  shows "exec_terminator I env (remap_terminator_targets m t) = Some (rename_transfer (remap m) tr) \<and>
    (\<forall>b xs. tr = Enter b xs \<longrightarrow> b \<in> set (terminator_targets t))"
proof (cases "\<exists>v. t = Return v")
  case True
  then show ?thesis using assms by (auto simp: exec_terminator_def rename_transfer_def split: option.splits)
next
  case False
  have edge: "exec_terminator I env u = Option.bind (take_edge I env u) (\<lambda>(b, args). map_option (Enter b) (values_of env args))"
    if "\<nexists>v. u = Return v" for u
    using that by (cases u) (auto simp: exec_terminator_def)
  have "\<nexists>v. remap_terminator_targets m t = Return v" using False by (cases t) auto
  note edge' = edge [OF this]
  obtain b args xs where b: "take_edge I env t = Some (b, args)" "values_of env args = Some xs" "tr = Enter b xs"
    using assms edge [OF False] by (auto simp: bind_eq_Some_conv)
  have "b \<in> set (terminator_targets t)"
    using b(1) by (cases t) (auto simp: take_edge_def bind_eq_Some_conv split: if_splits dest!: select_case_target)
  then show ?thesis using edge' b by (simp add: take_edge_targets rename_transfer_def)
qed

lemma prune_numbering:
  fixes bs :: "Block list"
  defines "m \<equiv> number_blocks (reach bs [0] []) [0..<length bs] 0 []"
  assumes "i \<in> fst ` set (reach bs [0] [])" "i < length bs"
  shows "remap m i < length (keep_blocks m 0 bs) \<and> (\<exists>n. keep_blocks m 0 bs ! remap m i = renumber_block m n (bs ! i))"
proof -
  let ?R = "\<lambda>j. bt_get (reach bs [0] []) j \<noteq> None"
  have get: "bt_get m j = (if j < length bs \<and> ?R j then Some (length (filter ?R [0..<j])) else None)" for j
    using number_blocks_get [of "reach bs [0] []" 0 "length bs" 0 "[]" j] by (simp add: m_def bt_get_def)
  have "?R i" using assms(2) by (simp add: bt_get_None)
  then have r: "bt_get m i = Some (length (filter ?R [0..<i]))" using get assms(3) by simp
  have "filter (\<lambda>j. bt_get m j \<noteq> None) [0..<i] = filter ?R [0..<i]"
    using assms(3) by (intro filter_cong) (auto simp: get)
  then show ?thesis using keep_blocks_nth [OF assms(3), of m 0] r by (auto simp: remap_def)
qed

definition prune_map :: "Block list \<Rightarrow> BlockId \<Rightarrow> BlockId" where
  "prune_map bs =
     (if bs = [] \<or> length (reach bs [0] []) = length bs then (\<lambda>b. b)
      else remap (number_blocks (reach bs [0] []) [0..<length bs] 0 []))"

lemma remap_unchanged: "remap_terminator_targets [] t = t"
proof (cases t)
  case (Switch d cs b args)
  have "SwitchCase (case_value c) (case_target c) (case_arguments c) = c" for c :: "'a SwitchCase" by simp
  then show ?thesis using Switch by (simp add: remap_def bt_get_def)
qed (simp_all add: remap_def bt_get_def)

lemma prune_blocks_nth:
  assumes "i \<in> fst ` set (reach bs [0] [])" "i < length bs"
  shows "\<exists>m. prune_map bs = remap m \<and> prune_map bs i < length (prune_blocks bs) \<and>
    instructions (prune_blocks bs ! prune_map bs i) = instructions (bs ! i) \<and>
    block_parameters (prune_blocks bs ! prune_map bs i) = block_parameters (bs ! i) \<and>
    terminator (prune_blocks bs ! prune_map bs i) = remap_terminator_targets m (terminator (bs ! i))"
proof (cases "bs = [] \<or> length (reach bs [0] []) = length bs")
  case True
  have "remap [] = (\<lambda>b. b)" by (simp add: fun_eq_iff remap_def bt_get_def)
  then show ?thesis using True assms(2) by (intro exI [of _ "[]"]) (auto simp: prune_map_def prune_blocks_def remap_unchanged)
next
  case False
  then show ?thesis using prune_numbering [OF assms]
    by (intro exI [of _ "number_blocks (reach bs [0] []) [0..<length bs] 0 []"])
      (auto simp: prune_map_def prune_blocks_def renumber_block_def)
qed

interpretation pruned: block_simulation I bs "prune_blocks bs" "prune_map bs" "\<lambda>b. b \<in> fst ` set (reach bs [0] [])" "(=)"
  for I :: "('x, 's) Interp" and bs
proof unfold_locales
  fix b xs s t tr and env env' e :: "'x env"
  assume ok: "b \<in> fst ` set (reach bs [0] [])" and b: "b < length bs"
  obtain m where m: "prune_map bs = remap m" and p: "prune_map bs b < length (prune_blocks bs)"
    "instructions (prune_blocks bs ! prune_map bs b) = instructions (bs ! b)"
    "block_parameters (prune_blocks bs ! prune_map bs b) = block_parameters (bs ! b)"
    "terminator (prune_blocks bs ! prune_map bs b) = remap_terminator_targets m (terminator (bs ! b))"
    using prune_blocks_nth [OF ok b] by (elim exE conjE)
  show "prune_map bs b < length (prune_blocks bs)" by (rule p)
  assume eq: "env = env'"
  show "\<exists>e'. bind_parameters (parameter_values (prune_blocks bs) (prune_map bs b)) xs env' = Some e' \<and> e = e'"
    if "bind_parameters (parameter_values bs b) xs env = Some e"
    using that eq p by simp
  show "\<exists>e'. exec_instructions I (instructions (prune_blocks bs ! prune_map bs b)) (env', s) = Some (e', t) \<and> e = e'"
    if "exec_instructions I (instructions (bs ! b)) (env, s) = Some (e, t)"
    using that eq p by simp
  show "exec_terminator I env' (terminator (prune_blocks bs ! prune_map bs b)) = Some (rename_transfer (prune_map bs) tr) \<and>
      (\<forall>b' xs. tr = Enter b' xs \<longrightarrow> b' \<in> fst ` set (reach bs [0] []))"
    if "exec_terminator I env (terminator (bs ! b)) = Some tr"
    using exec_terminator_targets [OF that, of m] prune_closed [OF ok b] eq p(4) m by auto
qed

lemma prune_map_entry: "prune_map bs 0 = 0"
proof (cases "bs = []")
  case False
  have "0 \<in> fst ` set (reach bs [0] [])" using reach_includes [of "[]" "[0]" bs] by auto
  then show ?thesis
    using False number_blocks_get [of "reach bs [0] []" 0 "length bs" 0 "[]" 0] by (simp add: prune_map_def remap_def bt_get_None)
qed (simp add: prune_map_def)

lemma prune_runs: "run_blocks I bs n 0 xs (env, s) = Some r \<Longrightarrow> run_blocks I (prune_blocks bs) n 0 xs (env, s) = Some r"
  using pruned.simulates [of 0 bs env env I n xs s r] reach_includes [of "[]" "[0]" bs] by (auto simp: prune_map_entry)

subsection \<open>Renumbering\<close>

fun thread :: "('a \<Rightarrow> 's \<Rightarrow> 'b \<times> 's) \<Rightarrow> 'a list \<Rightarrow> 's \<Rightarrow> 'b list \<times> 's" where
  "thread g [] s = ([], s)"
| "thread g (x # xs) s = (let (y, s) = g x s; (ys, s) = thread g xs s in (y # ys, s))"

text \<open>The state is the next identity and the mapping of old values to new ones.\<close>

type_synonym numbering = "nat \<times> (ValueId \<times> ValueId) list"

definition fresh :: "ValueId \<Rightarrow> numbering \<Rightarrow> ValueId \<times> numbering" where
  "fresh old st = (fst st, fst st + 1, bt_insert old (fst st) (snd st))"

definition renumber_parameter :: "Parameter \<Rightarrow> numbering \<Rightarrow> Parameter \<times> numbering" where
  "renumber_parameter p st = (let (v, st) = fresh (param_value p) st in (p\<lparr>param_value := v\<rparr>, st))"

definition renumber_typed :: "TypedValue \<Rightarrow> numbering \<Rightarrow> TypedValue \<times> numbering" where
  "renumber_typed t st = (let (v, st) = fresh (tv_value t) st in (t\<lparr>tv_value := v\<rparr>, st))"

definition renumber_block_parameters :: "Block \<Rightarrow> numbering \<Rightarrow> Block \<times> numbering" where
  "renumber_block_parameters b st =
     (let (ps, st) = thread renumber_typed (block_parameters b) st in (b\<lparr>block_parameters := ps\<rparr>, st))"

definition renumber_result :: "Instruction \<Rightarrow> numbering \<Rightarrow> Instruction \<times> numbering" where
  "renumber_result i st =
     (case inst_result i of
        None \<Rightarrow> (i, st)
      | Some r \<Rightarrow> (let (r, st) = renumber_typed r st in (i\<lparr>inst_result := Some r\<rparr>, st)))"

definition renumber_results :: "Block \<Rightarrow> numbering \<Rightarrow> Block \<times> numbering" where
  "renumber_results b st = (let (is, st) = thread renumber_result (instructions b) st in (b\<lparr>instructions := is\<rparr>, st))"

definition remap_block :: "(ValueId \<times> ValueId) list \<Rightarrow> Block \<Rightarrow> Block" where
  "remap_block m b =
     b\<lparr>instructions := map (\<lambda>i. i\<lparr>inst_kind := remap_instruction_operands (remap m) (inst_kind i)\<rparr>) (instructions b),
       terminator := remap_terminator_operands (remap m) (terminator b)\<rparr>"

definition renumber_values :: "JFunction \<Rightarrow> JFunction" where
  "renumber_values f =
     (let (ps, st) = thread renumber_parameter (parameters f) (0, []);
          (bs, st) = thread renumber_block_parameters (blocks f) st;
          (bs, st) = thread renumber_results bs st
      in f\<lparr>parameters := ps, blocks := map (remap_block (snd st)) bs\<rparr>)"

fun number_all :: "ValueId list \<Rightarrow> numbering \<Rightarrow> numbering" where
  "number_all [] st = st"
| "number_all (v # vs) st = number_all vs (snd (fresh v st))"

lemma number_all_append: "number_all (vs @ ws) st = number_all ws (number_all vs st)"
  by (induction vs arbitrary: st) simp_all

lemma number_all_next: "fst (number_all vs st) = fst st + length vs"
  by (induction vs arbitrary: st) (simp_all add: fresh_def)

lemma number_all_other: "v \<notin> set vs \<Longrightarrow> bt_get (snd (number_all vs st)) v = bt_get (snd st) v"
  by (induction vs arbitrary: st) (simp_all add: fresh_def bt_get_insert)

lemma number_all_remap: "distinct vs \<Longrightarrow> map (remap (snd (number_all vs st))) vs = [fst st..<fst st + length vs]"
proof (induction vs arbitrary: st)
  case (Cons v vs)
  then have "map (remap (snd (number_all (v # vs) st))) vs = [Suc (fst st)..<Suc (fst st) + length vs]"
    by (simp add: fresh_def)
  moreover have "remap (snd (number_all (v # vs) st)) v = fst st"
    using Cons.prems number_all_other [of v vs "snd (fresh v st)"] by (simp add: remap_def fresh_def bt_get_insert)
  ultimately show ?case by (simp add: upt_conv_Cons del: upt_Suc)
qed simp

text \<open>
  A traversal that numbers the definitions \<open>ds x\<close> in order: if \<open>\<rho>\<close> sends them to the identities it hands out, its
  result is \<open>x\<close> renamed by \<open>\<rho>\<close>. Such traversals compose.
\<close>

definition numbers :: "('a \<Rightarrow> numbering \<Rightarrow> 'a \<times> numbering) \<Rightarrow> ('a \<Rightarrow> ValueId list) \<Rightarrow> ((ValueId \<Rightarrow> ValueId) \<Rightarrow> 'a \<Rightarrow> 'a) \<Rightarrow> bool" where
  "numbers g ds ren \<longleftrightarrow>
     (\<forall>x st \<rho>. map \<rho> (ds x) = [fst st..<fst st + length (ds x)] \<longrightarrow> g x st = (ren \<rho> x, number_all (ds x) st))"

lemma numbersD:
  "numbers g ds ren \<Longrightarrow> map \<rho> (ds x) = [fst st..<fst st + length (ds x)] \<Longrightarrow> g x st = (ren \<rho> x, number_all (ds x) st)"
  unfolding numbers_def by blast

lemma map_upt_append:
  assumes "map \<rho> (vs @ ws) = [n..<n + length (vs @ ws)]"
  shows "map \<rho> vs = [n..<n + length vs]" "map \<rho> ws = [n + length vs..<n + length vs + length ws]"
proof -
  have "map \<rho> vs @ map \<rho> ws = [n..<n + length vs] @ [n + length vs..<n + length vs + length ws]"
    using assms upt_add_eq_append [of n "n + length vs" "length ws"] by (simp add: add.assoc)
  then have "map \<rho> vs = [n..<n + length vs] \<and> map \<rho> ws = [n + length vs..<n + length vs + length ws]"
    by (subst (asm) append_eq_append_conv) simp_all
  then show "map \<rho> vs = [n..<n + length vs]" "map \<rho> ws = [n + length vs..<n + length vs + length ws]" by simp_all
qed

lemma numbers_thread:
  assumes "numbers g ds ren"
  shows "numbers (thread g) (\<lambda>xs. concat (map ds xs)) (\<lambda>\<rho>. map (ren \<rho>))"
proof -
  have "thread g xs st = (map (ren \<rho>) xs, number_all (concat (map ds xs)) st)"
    if "map \<rho> (concat (map ds xs)) = [fst st..<fst st + length (concat (map ds xs))]" for xs st \<rho>
    using that
  proof (induction xs arbitrary: st)
    case (Cons x xs)
    have split: "map \<rho> (ds x @ concat (map ds xs)) = [fst st..<fst st + length (ds x @ concat (map ds xs))]"
      using Cons.prems by simp
    note parts = map_upt_append [OF split]
    have "thread g xs (number_all (ds x) st) = (map (ren \<rho>) xs, number_all (concat (map ds xs)) (number_all (ds x) st))"
      by (rule Cons.IH) (use parts(2) in \<open>simp only: number_all_next\<close>)
    then show ?case using numbersD [OF assms parts(1)] by (simp add: number_all_append)
  qed simp
  then show ?thesis unfolding numbers_def by blast
qed

definition rename_parameter :: "(ValueId \<Rightarrow> ValueId) \<Rightarrow> Parameter \<Rightarrow> Parameter" where
  "rename_parameter \<rho> p = p\<lparr>param_value := \<rho> (param_value p)\<rparr>"

definition rename_block :: "(ValueId \<Rightarrow> ValueId) \<Rightarrow> Block \<Rightarrow> Block" where
  "rename_block \<rho> b =
     b\<lparr>block_parameters := map (rename_typed \<rho>) (block_parameters b), instructions := map (rename_instruction \<rho>) (instructions b),
       terminator := map_Terminator \<rho> (terminator b)\<rparr>"

lemma numbers_parameter: "numbers renumber_parameter (\<lambda>p. [param_value p]) rename_parameter"
  by (simp add: numbers_def renumber_parameter_def fresh_def rename_parameter_def)

lemma numbers_typed: "numbers renumber_typed (\<lambda>t. [tv_value t]) rename_typed"
  by (simp add: numbers_def renumber_typed_def fresh_def rename_typed_def)

lemma concat_singletons: "concat (map (\<lambda>x. [g x]) xs) = map g xs"
  by (induction xs) simp_all

lemma numbers_block_parameters:
  "numbers renumber_block_parameters (\<lambda>b. map tv_value (block_parameters b))
     (\<lambda>\<rho> b. b\<lparr>block_parameters := map (rename_typed \<rho>) (block_parameters b)\<rparr>)"
  using numbers_thread [OF numbers_typed] by (simp add: numbers_def renumber_block_parameters_def concat_singletons)

lemma numbers_result:
  "numbers renumber_result result_values (\<lambda>\<rho> i. i\<lparr>inst_result := map_option (rename_typed \<rho>) (inst_result i)\<rparr>)"
  by (simp add: numbers_def renumber_result_def result_values_def renumber_typed_def fresh_def rename_typed_def split: option.split)

lemma numbers_results:
  "numbers renumber_results block_results
     (\<lambda>\<rho> b. b\<lparr>instructions := map (\<lambda>i. i\<lparr>inst_result := map_option (rename_typed \<rho>) (inst_result i)\<rparr>) (instructions b)\<rparr>)"
  using numbers_thread [OF numbers_result] by (simp add: numbers_def renumber_results_def block_results_def)

definition rename_function :: "(ValueId \<Rightarrow> ValueId) \<Rightarrow> JFunction \<Rightarrow> JFunction" where
  "rename_function \<rho> f = f\<lparr>parameters := map (rename_parameter \<rho>) (parameters f), blocks := map (rename_block \<rho>) (blocks f)\<rparr>"

lemma renumber_rename:
  assumes "ssa f"
  shows "renumber_values f = rename_function (remap (snd (number_all (definitions f) (0, [])))) f"
proof -
  define \<rho> where "\<rho> = remap (snd (number_all (definitions f) (0, [])))"
  let ?P = "map param_value (parameters f)" and ?B = "concat (map (\<lambda>b. map tv_value (block_parameters b)) (blocks f))"
    and ?R = "concat (map block_results (blocks f))" and ?st = "(0, []) :: numbering"
  let ?bs = "map (\<lambda>b. b\<lparr>block_parameters := map (rename_typed \<rho>) (block_parameters b)\<rparr>) (blocks f)"
  have defs: "definitions f = ?P @ ?B @ ?R" by (simp add: definitions_def block_definitions_def)
  have all: "map \<rho> (?P @ ?B @ ?R) = [0..<0 + length (?P @ ?B @ ?R)]"
    using number_all_remap [of "definitions f" ?st] assms unfolding ssa_def \<rho>_def defs by simp
  note p = map_upt_append(1) [OF all] and rest = map_upt_append(2) [OF all] map_upt_append [OF map_upt_append(2) [OF all]]
  have 1: "thread renumber_parameter (parameters f) ?st = (map (rename_parameter \<rho>) (parameters f), number_all ?P ?st)"
    using numbersD [OF numbers_thread [OF numbers_parameter], of \<rho> "parameters f" ?st] p by (simp add: concat_singletons)
  have 2: "thread renumber_block_parameters (blocks f) (number_all ?P ?st) = (?bs, number_all (?P @ ?B) ?st)"
    using numbersD [OF numbers_thread [OF numbers_block_parameters], of \<rho> "blocks f" "number_all ?P ?st"] rest(2)
    by (simp only: number_all_next number_all_append fst_conv)
  have 3: "thread renumber_results ?bs (number_all (?P @ ?B) ?st) =
      (map (\<lambda>b. b\<lparr>instructions := map (\<lambda>i. i\<lparr>inst_result := map_option (rename_typed \<rho>) (inst_result i)\<rparr>) (instructions b)\<rparr>) ?bs,
       number_all (definitions f) ?st)"
  proof -
    have "concat (map block_results ?bs) = ?R" by (simp add: block_results_def [abs_def] comp_def)
    then show ?thesis
      using numbersD [OF numbers_thread [OF numbers_results], of \<rho> ?bs "number_all (?P @ ?B) ?st"] rest(3)
      unfolding defs by (simp only: number_all_next number_all_append fst_conv length_append add.assoc)
  qed
  show ?thesis
    unfolding renumber_values_def \<rho>_def [symmetric]
    by (simp add: 1 2 3 rename_function_def rename_block_def remap_block_def \<rho>_def [symmetric] rename_instruction_def
        remap_instruction_map remap_terminator_map)
qed

interpretation renamed: block_simulation I bs "map (rename_block \<rho>) bs" "\<lambda>b. b"
  "\<lambda>_. inj_on \<rho> D \<and> set (block_definitions bs) \<subseteq> D" "carries \<rho> UNIV D"
  for I :: "('x, 's) Interp" and bs \<rho> D
proof unfold_locales
  fix b xs s t tr and env env' e :: "'x env"
  assume ok: "inj_on \<rho> D \<and> set (block_definitions bs) \<subseteq> D" and b: "b < length bs"
  show "b < length (map (rename_block \<rho>) bs)" using b by simp
  have p: "set (parameter_values bs b) \<subseteq> D" using definitions_of_block(1) [OF b] ok by blast
  have r: "\<forall>i \<in> set (instructions (bs ! b)). set (result_values i) \<subseteq> D" using definitions_of_block(2) [OF b] ok by blast
  assume rel: "carries \<rho> UNIV D env env'"
  show "\<exists>e'. bind_parameters (parameter_values (map (rename_block \<rho>) bs) b) xs env' = Some e' \<and> carries \<rho> UNIV D e e'"
    if "bind_parameters (parameter_values bs b) xs env = Some e"
    using bind_parameters_carries [OF rel that conjunct1 [OF ok] p] b by (simp add: rename_block_def comp_def)
  show "\<exists>e'. exec_instructions I (instructions (map (rename_block \<rho>) bs ! b)) (env', s) = Some (e', t) \<and> carries \<rho> UNIV D e e'"
    if "exec_instructions I (instructions (bs ! b)) (env, s) = Some (e, t)"
    using exec_instructions_carries [OF rel _ that conjunct1 [OF ok] r] b by (simp add: rename_block_def)
  show "exec_terminator I env' (terminator (map (rename_block \<rho>) bs ! b)) = Some (rename_transfer (\<lambda>b. b) tr) \<and>
      (\<forall>b' xs. tr = Enter b' xs \<longrightarrow> inj_on \<rho> D \<and> set (block_definitions bs) \<subseteq> D)"
    if "exec_terminator I env (terminator (bs ! b)) = Some tr"
    using exec_terminator_carries [OF rel _ that] ok b by (simp add: rename_block_def rename_transfer_def split: Transfer.split)
qed

lemma renumber_injective: "ssa f \<Longrightarrow> inj_on (remap (snd (number_all (definitions f) (0, [])))) (set (definitions f))"
  using number_all_remap [of "definitions f" "(0, [])"] unfolding ssa_def
  by (metis distinct_map distinct_upt)

lemma renumber_preserves:
  assumes "ssa f"
  shows "preserves I f (renumber_values f)"
  unfolding preserves_def
proof (intro allI impI)
  fix n xs s r
  let ?\<rho> = "remap (snd (number_all (definitions f) (0, [])))" and ?D = "set (definitions f)"
  assume "run_function I f n xs s = Some r"
  then obtain e where e: "bind_parameters (map param_value (parameters f)) xs (\<lambda>_. None) = Some e"
    and run: "run_blocks I (blocks f) n 0 [] (e, s) = Some r"
    by (auto simp: run_function_def bind_eq_Some_conv)
  note inj = renumber_injective [OF assms]
  have "carries ?\<rho> UNIV ?D (\<lambda>_. None) (\<lambda>_. None)" by (simp add: carries_def)
  from bind_parameters_carries [OF this e inj]
  obtain e' where e': "bind_parameters (map ?\<rho> (map param_value (parameters f))) xs (\<lambda>_. None) = Some e'" "carries ?\<rho> UNIV ?D e e'"
    by (auto simp: definitions_def)
  have "run_blocks I (map (rename_block ?\<rho>) (blocks f)) n 0 [] (e', s) = Some r"
    by (rule renamed.simulates [OF _ e'(2) run]) (use inj in \<open>auto simp: definitions_def\<close>)
  then show "run_function I (renumber_values f) n xs s = Some r"
    using e'(1) by (simp add: run_function_def renumber_rename [OF assms] rename_function_def comp_def rename_parameter_def)
qed

lemma renumber_definitions:
  assumes "ssa f"
  shows "definitions (renumber_values f) = [0..<length (definitions f)]"
proof -
  have "definitions (rename_function \<rho> f) = map \<rho> (definitions f)" for \<rho>
  proof -
    have "block_results (rename_block \<rho> b) = map \<rho> (block_results b)" for b
      by (simp add: block_results_def rename_block_def map_concat comp_def)
        (intro arg_cong [where f = concat] map_cong refl, simp add: result_values_def rename_instruction_def split: option.split)
    moreover have "block_parameters (rename_block \<rho> b) = map (rename_typed \<rho>) (block_parameters b)" for b
      by (simp add: rename_block_def)
    ultimately show ?thesis
      by (simp add: definitions_def block_definitions_def rename_function_def rename_parameter_def comp_def map_concat)
  qed
  then show ?thesis using number_all_remap [of "definitions f" "(0, [])"] assms by (simp add: renumber_rename ssa_def)
qed

subsection \<open>The pass\<close>

definition eliminate_dead_instructions :: "JFunction \<Rightarrow> OptimizationStats \<Rightarrow> JFunction \<times> OptimizationStats" where
  "eliminate_dead_instructions f stats =
     (let (bs, removed) = eliminate_dead (blocks f) (removed_instructions stats); f = f\<lparr>blocks := bs\<rparr> in
      (if removed \<noteq> 0 then renumber_values f else f, stats\<lparr>removed_instructions := removed\<rparr>))"

definition simplify_function :: "JFunction \<Rightarrow> OptimizationStats \<Rightarrow> JFunction \<times> OptimizationStats" where
  "simplify_function f stats =
     (let (f, stats) = simplify_constant_terminators f stats; f = prune_unreachable_blocks f in eliminate_dead_instructions f stats)"

definition simplify_cfg_and_dce :: "Module \<Rightarrow> Module \<times> OptimizationStats" where
  "simplify_cfg_and_dce m =
     (let (fs, stats) = thread simplify_function (module_functions m) no_stats in (m\<lparr>module_functions := fs\<rparr>, stats))"

lemma subseq_concat_filter: "subseq (concat (map g (filter P xs))) (concat (map g xs))"
  by (induction xs) (auto intro: list_emb_append_mono)

lemma subseq_concat: "list_all2 subseq xs ys \<Longrightarrow> subseq (concat xs) (concat ys)"
  by (induction rule: list_all2_induct) (auto intro: list_emb_append_mono)

lemma block_definitions_same:
  assumes "map block_parameters bs = map block_parameters bs'" "map instructions bs = map instructions bs'"
  shows "block_definitions bs = block_definitions bs'"
proof -
  have "map block_results bs = map block_results bs'"
    using arg_cong [OF assms(2), of "map (\<lambda>is. concat (map result_values is))"] by (simp add: block_results_def [abs_def] comp_def)
  moreover have "map (\<lambda>b. map tv_value (block_parameters b)) bs = map (\<lambda>b. map tv_value (block_parameters b)) bs'"
    using arg_cong [OF assms(1), of "map (map tv_value)"] by (simp add: comp_def)
  ultimately show ?thesis by (simp add: block_definitions_def)
qed

lemma drop_dead_definitions: "subseq (block_definitions (drop_dead bs)) (block_definitions bs)"
proof -
  have "list_all2 subseq (map block_results (drop_dead bs)) (map block_results bs)"
    by (simp add: drop_dead_def list_all2_conv_all_nth block_results_def subseq_concat_filter)
  then show ?thesis
    by (auto simp: block_definitions_def drop_dead_def comp_def intro!: list_emb_append_mono subseq_concat)
qed

lemma eliminate_dead_definitions: "subseq (block_definitions (fst (eliminate_dead bs k))) (block_definitions bs)"
proof (induction bs k rule: eliminate_dead.induct)
  case (1 bs k)
  then show ?case
    using subseq_order.trans [OF _ drop_dead_definitions [of bs]] drop_dead_definitions [of bs]
    by (subst eliminate_dead.simps) (simp add: Let_def)
qed

lemma keep_blocks_definitions: "subseq (block_definitions (keep_blocks m k bs)) (block_definitions bs)"
proof -
  have "subseq (concat (map g (keep_blocks m k bs))) (concat (map g bs))" if "\<And>m n b. g (renumber_block m n b) = g b" for g :: "Block \<Rightarrow> ValueId list"
    by (induction m k bs rule: keep_blocks.induct) (auto simp: that split: option.split intro: list_emb_append_mono)
  then show ?thesis unfolding block_definitions_def
    by (intro list_emb_append_mono) (simp_all add: renumber_block_def block_results_def)
qed

lemma prune_definitions: "subseq (block_definitions (prune_blocks bs)) (block_definitions bs)"
  by (simp add: prune_blocks_def Let_def keep_blocks_definitions)

lemma ssa_blocks:
  assumes "ssa f" "subseq (block_definitions bs) (block_definitions (blocks f))"
  shows "ssa (f\<lparr>blocks := bs\<rparr>)"
proof -
  have "subseq (definitions (f\<lparr>blocks := bs\<rparr>)) (definitions f)"
    using assms(2) by (auto simp: definitions_def intro: list_emb_append_mono)
  then show ?thesis using assms(1) subseq_distinct unfolding ssa_def by blast
qed

lemma preserves_blocks:
  assumes "\<And>n env s r. run_blocks I (blocks f) n 0 [] (env, s) = Some r \<Longrightarrow> run_blocks I bs n 0 [] (env, s) = Some r"
  shows "preserves I f (f\<lparr>blocks := bs\<rparr>)"
  using assms by (fastforce simp: preserves_def run_function_def bind_eq_Some_conv)

lemma constant_terminators_blocks:
  "fst (simplify_constant_terminators f stats) = f\<lparr>blocks := map (simplify_block (constants_of (blocks f))) (blocks f)\<rparr>"
  using simplify_blocks_map [of "constants_of (blocks f)" "blocks f" stats]
  by (auto simp: simplify_constant_terminators_def split: prod.split)

lemma constant_terminators_definitions: "definitions (fst (simplify_constant_terminators f stats)) = definitions f"
proof -
  have "block_definitions (map (simplify_block (constants_of (blocks f))) (blocks f)) = block_definitions (blocks f)"
    by (rule block_definitions_same) (simp_all add: comp_def)
  then show ?thesis by (simp add: constant_terminators_blocks definitions_def)
qed

lemma constant_terminators_preserves:
  assumes "ssa f" "constants_ok I"
  shows "preserves I f (fst (simplify_constant_terminators f stats))"
proof -
  let ?bs = "map (simplify_block (constants_of (blocks f))) (blocks f)"
  have dist: "distinct (block_definitions (blocks f))" using assms(1) by (simp add: ssa_def definitions_def)
  have disj: "set (map param_value (parameters f)) \<inter> set (concat (map block_results (blocks f))) = {}"
    using assms(1) unfolding ssa_def definitions_def block_definitions_def by (simp only: distinct_append set_append) blast
  have "run_function I (f\<lparr>blocks := ?bs\<rparr>) n xs s = Some r" if runs: "run_function I f n xs s = Some r" for n xs s r
  proof -
    obtain e where e: "bind_parameters (map param_value (parameters f)) xs (\<lambda>_. None) = Some e"
      and run: "run_blocks I (blocks f) n 0 [] (e, s) = Some r"
      using runs by (auto simp: run_function_def bind_eq_Some_conv)
    have "constants_hold I (blocks f) e" by (rule constants_hold_parameters [OF disj constants_hold_empty e])
    then have "run_blocks I ?bs n 0 [] (e, s) = Some r"
      using constant_branches.simulates [OF _ _ run] dist assms(2) by blast
    then show ?thesis using e by (simp add: run_function_def)
  qed
  then show ?thesis by (simp add: constant_terminators_blocks preserves_def)
qed

lemma prune_preserves:
  assumes "ssa f"
  shows "preserves I f (prune_unreachable_blocks f) \<and> ssa (prune_unreachable_blocks f)"
  unfolding prune_unreachable_blocks_def
  using preserves_blocks [OF prune_runs] ssa_blocks [OF assms prune_definitions] by blast

lemma dead_preserves:
  assumes "ssa f"
  shows "preserves I f (fst (eliminate_dead_instructions f stats)) \<and> ssa (fst (eliminate_dead_instructions f stats))"
proof -
  let ?bs = "fst (eliminate_dead (blocks f) (removed_instructions stats))"
  have p: "preserves I f (f\<lparr>blocks := ?bs\<rparr>)" by (rule preserves_blocks [OF eliminate_dead_runs])
  have ssa: "ssa (f\<lparr>blocks := ?bs\<rparr>)" by (rule ssa_blocks [OF assms eliminate_dead_definitions])
  have "fst (eliminate_dead_instructions f stats) = f\<lparr>blocks := ?bs\<rparr> \<or>
      fst (eliminate_dead_instructions f stats) = renumber_values (f\<lparr>blocks := ?bs\<rparr>)"
    by (simp add: eliminate_dead_instructions_def Let_def split: prod.split)
  moreover have "ssa (renumber_values (f\<lparr>blocks := ?bs\<rparr>))" using renumber_definitions [OF ssa] by (simp add: ssa_def)
  ultimately show ?thesis using p ssa preserves_trans [OF p renumber_preserves [OF ssa]] by auto
qed

lemma simplify_function_preserves:
  assumes "ssa f" "constants_ok I"
  shows "preserves I f (fst (simplify_function f stats)) \<and> ssa (fst (simplify_function f stats))"
proof -
  obtain f1 stats1 where 1: "simplify_constant_terminators f stats = (f1, stats1)" by (cases "simplify_constant_terminators f stats")
  have p1: "preserves I f f1" "ssa f1"
    using constant_terminators_preserves [OF assms, of stats] constant_terminators_definitions [of f stats] assms(1) 1
    by (simp_all add: ssa_def)
  have p2: "preserves I f1 (prune_unreachable_blocks f1)" "ssa (prune_unreachable_blocks f1)"
    using prune_preserves [OF p1(2)] by blast+
  have p3: "preserves I (prune_unreachable_blocks f1) (fst (simplify_function f stats))" "ssa (fst (simplify_function f stats))"
    using dead_preserves [OF p2(2), of I] 1 by (simp_all add: simplify_function_def)
  show ?thesis using preserves_trans [OF preserves_trans [OF p1(1) p2(1)] p3(1)] p3(2) by simp
qed

lemma thread_nth:
  "length (fst (thread g xs s)) = length xs \<and> (\<forall>i < length xs. \<exists>s'. fst (thread g xs s) ! i = fst (g (xs ! i) s'))"
proof (induction xs arbitrary: s)
  case (Cons x xs)
  obtain y s1 ys s2 where yx: "g x s = (y, s1)" "thread g xs s1 = (ys, s2)" by fastforce
  have IH: "length ys = length xs" "\<forall>i < length xs. \<exists>s'. ys ! i = fst (g (xs ! i) s')" using Cons.IH [of s1] yx by simp_all
  have "\<exists>s'. (y # ys) ! i = fst (g ((x # xs) ! i) s')" if "i < length (x # xs)" for i
  proof (cases i)
    case 0
    then show ?thesis using yx(1) by (intro exI [of _ s]) simp
  next
    case (Suc j)
    then show ?thesis using IH(2) that by simp
  qed
  then show ?case using yx IH(1) by simp
qed simp

subsection \<open>Reachability and dense numbering\<close>

definition edges :: "Block list \<Rightarrow> (BlockId \<times> BlockId) set" where
  "edges bs = {(i, j). i < length bs \<and> j \<in> set (terminator_targets (terminator (bs ! i)))}"

lemma reach_sound:
  assumes "\<forall>j \<in> fst ` set reachable \<union> set pending. (a, j) \<in> (edges bs)\<^sup>*"
  shows "\<forall>j \<in> fst ` set (reach bs pending reachable). (a, j) \<in> (edges bs)\<^sup>*"
  using assms
proof (induction bs pending reachable rule: reach.induct)
  case (2 bs i pending reachable)
  have step: "\<forall>j \<in> fst ` set (bt_insert i True reachable) \<union> set pending. (a, j) \<in> (edges bs)\<^sup>*"
    using "2.prems" by (auto simp: fst_bt_insert)
  show ?case
  proof (cases "bt_get reachable i = None \<and> i < length bs")
    case True
    have "\<forall>j \<in> set (terminator_targets (terminator (bs ! i))). (a, j) \<in> (edges bs)\<^sup>*"
      using "2.prems" True by (auto simp: edges_def intro: rtrancl_into_rtrancl)
    then show ?thesis using "2.IH"(2) True step by auto
  next
    case False
    then show ?thesis using "2.IH"(1,3) step by auto
  qed
qed simp

text \<open>
  The search for reachable blocks returns exactly the blocks to which a path leads from the entry block: the
  reflexive and transitive closure of the edges of the control-flow graph.
\<close>

theorem reach_reachable: "fst ` set (reach bs [0] []) = {i. (0, i) \<in> (edges bs)\<^sup>*}"
proof
  show "fst ` set (reach bs [0] []) \<subseteq> {i. (0, i) \<in> (edges bs)\<^sup>*}" using reach_sound [of "[]" "[0]" 0 bs] by auto
  have "i \<in> fst ` set (reach bs [0] [])" if "(0, i) \<in> (edges bs)\<^sup>*" for i
    using that
  proof (induction rule: rtrancl_induct)
    case base
    then show ?case using reach_includes [of "[]" "[0]" bs] by auto
  next
    case (step i j)
    then show ?case using prune_closed [of i bs] by (auto simp: edges_def)
  qed
  then show "{i. (0, i) \<in> (edges bs)\<^sup>*} \<subseteq> fst ` set (reach bs [0] [])" by blast
qed

text \<open>If the pass has removed an instruction, of this function or of an earlier one, the values are dense.\<close>

lemma simplify_function_dense:
  assumes "ssa f" "removed_instructions (snd (simplify_function f stats)) \<noteq> 0"
  shows "definitions (fst (simplify_function f stats)) = [0..<length (definitions (fst (simplify_function f stats)))]"
proof -
  obtain f1 stats1 where 1: "simplify_constant_terminators f stats = (f1, stats1)" by (cases "simplify_constant_terminators f stats")
  define f2 where "f2 = prune_unreachable_blocks f1"
  have "ssa f1" using constant_terminators_definitions [of f stats] assms(1) 1 by (simp add: ssa_def)
  then have f2: "ssa f2" unfolding f2_def using prune_preserves by blast
  obtain bs removed where bs: "eliminate_dead (blocks f2) (removed_instructions stats1) = (bs, removed)"
    by (cases "eliminate_dead (blocks f2) (removed_instructions stats1)")
  have "subseq (block_definitions bs) (block_definitions (blocks f2))" using eliminate_dead_definitions [of "blocks f2" "removed_instructions stats1"] bs by simp
  then have ssa: "ssa (f2\<lparr>blocks := bs\<rparr>)" by (rule ssa_blocks [OF f2])
  have "fst (simplify_function f stats) = renumber_values (f2\<lparr>blocks := bs\<rparr>)"
    using assms(2) 1 bs by (simp add: simplify_function_def eliminate_dead_instructions_def Let_def f2_def split: if_splits prod.splits)
  then show ?thesis using renumber_definitions [OF ssa] by simp
qed

end
