(* ===== verification/Jir_Integer.thy ===== *)
theory Jir_Integer
  imports Jir "HOL-Library.Signed_Division"
begin

text \<open>
  The integer arithmetic of the constant folding in \<open>optimize.rs\<close>. Integers of every width up to 128 bits are kept
  as the 128 bits of an \<open>i128\<close>, masked and sign extended by hand; the reference is arithmetic on the integers.
\<close>

unbundle bit_operations_syntax

subsection \<open>Integers of a given width\<close>

definition integer_mask :: "nat \<Rightarrow> 128 word" where
  "integer_mask bits = (if bits = 128 then - 1 else push_bit bits 1 - 1)"

definition integer_raw :: "128 word \<Rightarrow> nat \<Rightarrow> 128 word" where
  "integer_raw v bits = v AND integer_mask bits"

definition normalize_integer :: "128 word \<Rightarrow> nat \<Rightarrow> bool \<Rightarrow> 128 word" where
  "normalize_integer raw bits sg =
     (let mask = integer_mask bits; raw = raw AND mask in
      if sg \<and> bits < 128 \<and> raw AND push_bit (bits - 1) 1 \<noteq> 0 then raw OR NOT mask else raw)"

definition i128_min :: "128 word" where
  "i128_min = push_bit 127 1"

definition fold_raw :: "BinaryOp \<Rightarrow> bool \<Rightarrow> nat \<Rightarrow> 128 word \<Rightarrow> 128 word \<Rightarrow> 128 word option" where
  "fold_raw op sg bits left_raw right_raw =
     (case op of
        Add \<Rightarrow> Some (left_raw + right_raw)
      | Subtract \<Rightarrow> Some (left_raw - right_raw)
      | Multiply \<Rightarrow> Some (left_raw * right_raw)
      | Divide \<Rightarrow>
          if right_raw = 0 then None
          else if sg
          then let left = normalize_integer left_raw bits True; right = normalize_integer right_raw bits True in
            if left = i128_min \<and> right = - 1 then None else Some (word_of_int (sint left sdiv sint right))
          else Some (left_raw div right_raw)
      | Remainder \<Rightarrow>
          if right_raw = 0 then None
          else if sg
          then let left = normalize_integer left_raw bits True; right = normalize_integer right_raw bits True in
            if left = i128_min \<and> right = - 1 then None else Some (word_of_int (sint left smod sint right))
          else Some (left_raw mod right_raw)
      | BitAnd \<Rightarrow> Some (left_raw AND right_raw)
      | BitOr \<Rightarrow> Some (left_raw OR right_raw)
      | BitXor \<Rightarrow> Some (left_raw XOR right_raw)
      | ShiftLeft \<Rightarrow>
          if 2 ^ 32 \<le> unat right_raw \<or> bits \<le> unat right_raw then None
          else Some (push_bit (unat right_raw) left_raw)
      | ShiftRight \<Rightarrow>
          if 2 ^ 32 \<le> unat right_raw \<or> bits \<le> unat right_raw then None
          else if sg then Some (signed_drop_bit (unat right_raw) (normalize_integer left_raw bits True))
          else Some (drop_bit (unat right_raw) left_raw))"

definition fold_integer :: "BinaryOp \<Rightarrow> bool \<Rightarrow> nat \<Rightarrow> 128 word \<Rightarrow> 128 word \<Rightarrow> 128 word option" where
  "fold_integer op sg bits left right =
     map_option (\<lambda>raw. normalize_integer raw bits sg) (fold_raw op sg bits (integer_raw left bits) (integer_raw right bits))"

text \<open>The reference: the operation on mathematical integers, and the wrap-around of a type of the given width.\<close>

definition wrap :: "bool \<Rightarrow> nat \<Rightarrow> int \<Rightarrow> int" where
  "wrap sg bits z = (if sg then signed_take_bit (bits - 1) z else take_bit bits z)"

definition integer_op :: "BinaryOp \<Rightarrow> bool \<Rightarrow> nat \<Rightarrow> int \<Rightarrow> int \<Rightarrow> int option" where
  "integer_op op sg bits a b =
     (case op of
        Add \<Rightarrow> Some (a + b)
      | Subtract \<Rightarrow> Some (a - b)
      | Multiply \<Rightarrow> Some (a * b)
      | Divide \<Rightarrow> if b = 0 \<or> (sg \<and> a = - (2 ^ 127) \<and> b = - 1) then None else Some (a sdiv b)
      | Remainder \<Rightarrow> if b = 0 \<or> (sg \<and> a = - (2 ^ 127) \<and> b = - 1) then None else Some (a smod b)
      | BitAnd \<Rightarrow> Some (a AND b)
      | BitOr \<Rightarrow> Some (a OR b)
      | BitXor \<Rightarrow> Some (a XOR b)
      | ShiftLeft \<Rightarrow> if 0 \<le> b \<and> b < int bits then Some (a * 2 ^ nat b) else None
      | ShiftRight \<Rightarrow> if 0 \<le> b \<and> b < int bits then Some (a div 2 ^ nat b) else None)"

lemma integer_mask: "bits \<le> 128 \<Longrightarrow> integer_mask bits = mask bits"
  by (cases "bits = 128") (simp_all add: integer_mask_def mask_eq_exp_minus_1)

lemma integer_raw: "bits \<le> 128 \<Longrightarrow> integer_raw v bits = take_bit bits v"
  by (simp add: integer_raw_def integer_mask take_bit_eq_mask)

lemma normalize_integer:
  assumes "0 < bits" "bits \<le> 128"
  shows "normalize_integer raw bits sg = (if sg then signed_take_bit (bits - 1) raw else take_bit bits raw)"
proof (rule bit_word_eqI)
  fix n assume n: "n < LENGTH(128)"
  have "(raw AND mask bits) AND push_bit (bits - 1) 1 \<noteq> 0 \<longleftrightarrow> bit (raw AND mask bits) (bits - 1)"
    by (simp only: bit_iff_and_push_bit_not_eq_0)
  also have "\<dots> \<longleftrightarrow> bit raw (bits - 1)" using assms by (auto simp: bit_simps)
  finally have test: "(raw AND mask bits) AND push_bit (bits - 1) 1 \<noteq> 0 \<longleftrightarrow> bit raw (bits - 1)" .
  have "bit (signed_take_bit (bits - 1) raw) n \<longleftrightarrow> (if n < bits then bit raw n else bit raw (bits - 1))"
    using assms n by (cases "n < bits - 1"; cases "n = bits - 1") (auto simp: bit_simps min_def)
  then show "bit (normalize_integer raw bits sg) n \<longleftrightarrow> bit (if sg then signed_take_bit (bits - 1) raw else take_bit bits raw) n"
    using assms n test by (auto simp: normalize_integer_def integer_mask Let_def bit_simps)
qed

lemma sint_normalize:
  assumes "0 < bits" "bits \<le> 128"
  shows "sint (normalize_integer raw bits True) = wrap True bits (sint raw)"
proof (rule bit_eqI)
  fix n
  show "bit (sint (normalize_integer raw bits True)) n \<longleftrightarrow> bit (wrap True bits (sint raw)) n"
    using assms unfolding normalize_integer [OF assms] wrap_def by (auto simp: bit_simps min_def)
qed

lemma uint_raw: "bits \<le> 128 \<Longrightarrow> uint (integer_raw w bits) = take_bit bits (sint w)"
  by (simp add: integer_raw unsigned_take_bit_eq) (simp add: bit_eq_iff bit_simps, auto simp: bit_simps)

lemma wrap_cong: "0 < bits \<Longrightarrow> take_bit bits z = take_bit bits z' \<Longrightarrow> wrap sg bits z = wrap sg bits z'"
  using signed_take_bit_eq_iff_take_bit_eq [of "bits - 1" z z'] by (simp add: wrap_def)

lemma take_bit_wrap: "0 < bits \<Longrightarrow> take_bit bits (wrap sg bits z) = take_bit bits z"
  using signed_take_bit_eq_iff_take_bit_eq [of "bits - 1" "signed_take_bit (bits - 1) z" z] by (simp add: wrap_def)

lemma normalize_of_int:
  assumes "0 < bits" "bits \<le> 128"
  shows "normalize_integer (word_of_int z) bits sg = word_of_int (wrap sg bits z)"
proof (rule bit_word_eqI)
  fix n assume "n < LENGTH(128)"
  then show "bit (normalize_integer (word_of_int z) bits sg) n \<longleftrightarrow> bit (word_of_int (wrap sg bits z) :: 128 word) n"
    using assms unfolding normalize_integer [OF assms] wrap_def by (auto simp: bit_simps min_def)
qed

lemma normalize_cong:
  assumes "0 < bits" "bits \<le> 128" "take_bit bits z = take_bit bits z'"
  shows "normalize_integer (word_of_int z) bits sg = word_of_int (wrap sg bits z')"
  using normalize_of_int [OF assms(1,2)] wrap_cong [OF assms(1,3)] by simp

lemma raw_of_int: "bits \<le> 128 \<Longrightarrow> integer_raw w bits = word_of_int (take_bit bits (sint w))"
  using uint_raw [of bits w] by (metis word_of_int_uint)

lemma shift_amount:
  assumes "0 < bits" "bits \<le> 128"
  shows "(2 ^ 32 \<le> unat (integer_raw w bits) \<or> bits \<le> unat (integer_raw w bits)) \<longleftrightarrow>
      \<not> (0 \<le> wrap sg bits (sint w) \<and> wrap sg bits (sint w) < int bits)" (is "?large \<longleftrightarrow> \<not> ?small")
    and "\<not> (2 ^ 32 \<le> unat (integer_raw w bits) \<or> bits \<le> unat (integer_raw w bits)) \<Longrightarrow>
      unat (integer_raw w bits) = nat (wrap sg bits (sint w))"
proof -
  define r where "r = take_bit bits (sint w)"
  have r: "int (unat (integer_raw w bits)) = r" using uint_raw [OF assms(2)] by (simp add: r_def unat_eq_nat_uint)
  have nn: "0 \<le> r" by (simp add: r_def)
  have small: "int bits \<le> 2 ^ (bits - 1)"
  proof -
    have "bits - 1 < 2 ^ (bits - 1)" by (rule less_exp)
    then have "bits \<le> 2 ^ (bits - 1)" using assms(1) by linarith
    then show ?thesis by (metis of_nat_le_iff of_nat_numeral of_nat_power)
  qed
  have "wrap sg bits (sint w) = r \<or> (wrap sg bits (sint w) < 0 \<and> int bits \<le> r)"
  proof (cases "sg \<and> bit (sint w) (bits - 1)")
    case True
    obtain n where n: "bits = Suc n" using assms(1) by (cases bits) auto
    have "signed_take_bit n (sint w) = r - 2 ^ bits"
      using signed_take_bit_eq_take_bit_minus [of n "sint w"] True n by (simp add: r_def)
    moreover have "- (2 ^ n) \<le> signed_take_bit n (sint w)" "signed_take_bit n (sint w) < 0" using True n by simp_all
    ultimately show ?thesis using small True n by (simp add: wrap_def)
  next
    case False
    then have "wrap sg bits (sint w) = r"
      using signed_take_bit_eq_take_bit_minus [of "bits - 1" "sint w"] assms(1) by (simp add: wrap_def r_def)
    then show ?thesis ..
  qed
  note W = this
  have "bits \<le> (2 :: nat) ^ 32" by (rule order.trans [OF assms(2)]) simp
  then have large: "?large \<longleftrightarrow> int bits \<le> r" using r by linarith
  show "?large \<longleftrightarrow> \<not> ?small" using W large nn assms(1) by linarith
  show "unat (integer_raw w bits) = nat (wrap sg bits (sint w))" if "\<not> ?large"
    using that W large r by linarith
qed

lemma sdiv_nonneg: "0 \<le> (a :: int) \<Longrightarrow> 0 \<le> b \<Longrightarrow> a sdiv b = a div b"
  by (auto simp: signed_divide_int_def sgn_if)

lemma smod_nonneg: "0 \<le> (a :: int) \<Longrightarrow> 0 \<le> b \<Longrightarrow> a smod b = a mod b"
  by (auto simp: signed_modulo_int_def sgn_if)

lemma sint_i128_min: "sint i128_min = - (2 ^ 127)"
  by (simp add: i128_min_def)

lemma normalize_raw:
  assumes "0 < bits" "bits \<le> 128"
  shows "normalize_integer (integer_raw w bits) bits sg = normalize_integer w bits sg"
  using normalize_cong [OF assms, of "take_bit bits (sint w)" "sint w" sg] normalize_of_int [OF assms, of "sint w" sg]
  by (simp add: raw_of_int [OF assms(2)])

lemma raw_zero:
  assumes "0 < bits" "bits \<le> 128"
  shows "integer_raw w bits = 0 \<longleftrightarrow> wrap sg bits (sint w) = 0"
proof
  assume "integer_raw w bits = 0"
  then have "take_bit bits (sint w) = take_bit bits 0" using uint_raw [OF assms(2), of w] by simp
  then show "wrap sg bits (sint w) = 0" using wrap_cong [OF assms(1), of "sint w" 0 sg] by (simp add: wrap_def)
next
  assume "wrap sg bits (sint w) = 0"
  then have "take_bit bits (sint w) = 0" using take_bit_wrap [OF assms(1), of sg "sint w"] by simp
  then show "integer_raw w bits = 0" by (simp add: raw_of_int [OF assms(2)])
qed

lemma signed_value:
  assumes "0 < bits" "bits \<le> 128"
  shows "sint (normalize_integer (integer_raw w bits) bits True) = wrap True bits (sint w)"
    and "normalize_integer (integer_raw w bits) bits True = x \<longleftrightarrow> wrap True bits (sint w) = sint x"
  using sint_normalize [OF assms, of w] unfolding normalize_raw [OF assms] by (auto intro: signed_word_eqI)

lemma unsigned_value: "bits \<le> 128 \<Longrightarrow> uint (integer_raw w bits) = wrap False bits (sint w)"
  by (simp add: uint_raw wrap_def)

lemma normalize_raw_op:
  assumes "0 < bits" "bits \<le> 128"
    and "\<And>x y. word_of_int (f x y) = g (word_of_int x :: 128 word) (word_of_int y)"
    and "\<And>x y. take_bit bits (f (take_bit bits x) (take_bit bits y)) = take_bit bits (f x y)"
  shows "normalize_integer (g (integer_raw l bits) (integer_raw r bits)) bits sg =
    word_of_int (wrap sg bits (f (wrap sg bits (sint l)) (wrap sg bits (sint r))))"
proof -
  have "g (integer_raw l bits) (integer_raw r bits) = word_of_int (f (take_bit bits (sint l)) (take_bit bits (sint r)))"
    by (simp add: raw_of_int [OF assms(2)] assms(3))
  moreover have "take_bit bits (f (take_bit bits (sint l)) (take_bit bits (sint r))) =
      take_bit bits (f (wrap sg bits (sint l)) (wrap sg bits (sint r)))"
    using assms(4) [of "wrap sg bits (sint l)" "wrap sg bits (sint r)"] assms(4) by (simp add: take_bit_wrap [OF assms(1)])
  ultimately show ?thesis using normalize_cong [OF assms(1,2)] by simp
qed

lemma division_reference:
  assumes "0 < bits" "bits \<le> 128"
    and "\<And>x y. uint (g x y) = f (uint x) (uint (y :: 128 word))"
  shows "map_option (\<lambda>raw. normalize_integer raw bits sg)
      (if integer_raw r bits = 0 then None
       else if sg
       then let left = normalize_integer (integer_raw l bits) bits True; right = normalize_integer (integer_raw r bits) bits True in
         if left = i128_min \<and> right = - 1 then None else Some (word_of_int (f (sint left) (sint right)))
       else Some (g (integer_raw l bits) (integer_raw r bits))) =
    map_option (\<lambda>z. word_of_int (wrap sg bits z))
      (if wrap sg bits (sint r) = 0 \<or> (sg \<and> wrap sg bits (sint l) = - (2 ^ 127) \<and> wrap sg bits (sint r) = - 1) then None
       else Some (f (wrap sg bits (sint l)) (wrap sg bits (sint r))))"
proof (cases sg)
  case True
  then show ?thesis
    unfolding raw_zero [OF assms(1,2), of r True]
    by (simp add: Let_def signed_value [OF assms(1,2)] sint_i128_min normalize_of_int [OF assms(1,2)])
next
  case False
  have "g (integer_raw l bits) (integer_raw r bits) = word_of_int (f (wrap False bits (sint l)) (wrap False bits (sint r)))"
    unfolding unsigned_value [OF assms(2), symmetric] assms(3) [symmetric] by (rule word_of_int_uint [symmetric])
  then have eq: "normalize_integer (g (integer_raw l bits) (integer_raw r bits)) bits False =
      word_of_int (wrap False bits (f (wrap False bits (sint l)) (wrap False bits (sint r))))"
    by (simp only: normalize_of_int [OF assms(1,2)])
  show ?thesis
    using False unfolding raw_zero [OF assms(1,2), of r False] by (simp add: eq)
qed

lemma word_of_sint: "word_of_int (sint w) = (w :: 128 word)"
  by simp

lemma word_of_int_bits:
  "word_of_int (x AND y) = (word_of_int x AND word_of_int y :: 128 word)"
  "word_of_int (x OR y) = (word_of_int x OR word_of_int y :: 128 word)"
  "word_of_int (x XOR y) = (word_of_int x XOR word_of_int y :: 128 word)"
  by (rule bit_word_eqI, simp add: bit_simps)+

lemma uint_sdiv: "uint (x div y) = uint x sdiv uint (y :: 128 word)" and uint_smod: "uint (x mod y) = uint x smod uint y"
  by (simp_all add: sdiv_nonneg smod_nonneg uint_div uint_mod)

lemma shift_left_reference:
  assumes "0 < bits" "bits \<le> 128"
  shows "normalize_integer (push_bit n (integer_raw l bits)) bits sg = word_of_int (wrap sg bits (wrap sg bits (sint l) * 2 ^ n))"
proof -
  have "push_bit n (integer_raw l bits) = word_of_int (take_bit bits (sint l) * 2 ^ n)"
    by (simp add: raw_of_int [OF assms(2)] push_bit_eq_mult)
  moreover have "take_bit bits (take_bit bits (sint l) * 2 ^ n) = take_bit bits (wrap sg bits (sint l) * 2 ^ n)"
    using mod_mult_cong [OF take_bit_wrap [OF assms(1), of sg "sint l", unfolded take_bit_eq_mod] refl]
    unfolding take_bit_eq_mod mod_mult_left_eq by (rule sym)
  ultimately show ?thesis by (simp only: normalize_cong [OF assms])
qed

lemma shift_right_reference:
  assumes "0 < bits" "bits \<le> 128"
  shows "normalize_integer (if sg then signed_drop_bit n (normalize_integer (integer_raw l bits) bits True) else drop_bit n (integer_raw l bits)) bits sg =
    word_of_int (wrap sg bits (wrap sg bits (sint l) div 2 ^ n))"
proof (cases sg)
  case True
  have "signed_drop_bit n (normalize_integer (integer_raw l bits) bits True) = word_of_int (wrap True bits (sint l) div 2 ^ n)"
    using word_of_sint [of "signed_drop_bit n (normalize_integer (integer_raw l bits) bits True)"]
    by (simp only: sint_signed_drop_bit_eq signed_value(1) [OF assms] drop_bit_eq_div)
  then show ?thesis using True normalize_of_int [OF assms] by simp
next
  case False
  have "drop_bit n (integer_raw l bits) = word_of_int (wrap False bits (sint l) div 2 ^ n)"
    unfolding unsigned_value [OF assms(2), symmetric] drop_bit_eq_div [symmetric]
    by (rule bit_word_eqI) (auto simp: bit_simps)
  then show ?thesis using False normalize_of_int [OF assms] by simp
qed

lemma fold_integer_reference:
  assumes bits: "0 < bits" "bits \<le> 128"
  shows "fold_integer op sg bits l r =
    map_option (\<lambda>z. word_of_int (wrap sg bits z)) (integer_op op sg bits (wrap sg bits (sint l)) (wrap sg bits (sint r)))"
proof (cases "op \<in> {ShiftLeft, ShiftRight}")
  case True
  note sh = shift_amount [OF bits, of r sg]
  show ?thesis
  proof (cases "0 \<le> wrap sg bits (sint r) \<and> wrap sg bits (sint r) < int bits")
    case small: True
    then have amount: "\<not> (2 ^ 32 \<le> unat (integer_raw r bits) \<or> bits \<le> unat (integer_raw r bits))" using sh(1) by blast
    show ?thesis
    proof (cases "op = ShiftLeft")
      case True
      show ?thesis
        unfolding fold_integer_def fold_raw_def integer_op_def True BinaryOp.case if_not_P [OF amount] if_P [OF small]
        by (simp only: option.map sh(2) [OF amount] shift_left_reference [OF bits])
    next
      case False
      with True have right: "op = ShiftRight" by simp
      show ?thesis
        unfolding fold_integer_def fold_raw_def integer_op_def right BinaryOp.case if_not_P [OF amount] if_P [OF small]
          if_distrib [of Some, symmetric]
        by (simp only: option.map sh(2) [OF amount] shift_right_reference [OF bits])
    qed
  next
    case False
    then have "2 ^ 32 \<le> unat (integer_raw r bits) \<or> bits \<le> unat (integer_raw r bits)" using sh(1) by blast
    then show ?thesis using True False by (auto simp: fold_integer_def fold_raw_def integer_op_def)
  qed
next
  case False
  note ring = normalize_raw_op [OF bits, where l = l and r = r and sg = sg]
  show ?thesis
  proof (cases op)
    case Add
    show ?thesis using ring [of "(+)" "(+)"] Add by (simp add: fold_integer_def fold_raw_def integer_op_def take_bit_add)
  next
    case Subtract
    show ?thesis using ring [of "(-)" "(-)"] Subtract by (simp add: fold_integer_def fold_raw_def integer_op_def take_bit_diff)
  next
    case Multiply
    show ?thesis using ring [of "(*)" "(*)"] Multiply by (simp add: fold_integer_def fold_raw_def integer_op_def take_bit_mult)
  next
    case Divide
    show ?thesis using division_reference [OF bits, of "(div)" "(sdiv)" sg r l, OF uint_sdiv] Divide
      by (simp add: fold_integer_def fold_raw_def integer_op_def)
  next
    case Remainder
    show ?thesis using division_reference [OF bits, of "(mod)" "(smod)" sg r l, OF uint_smod] Remainder
      by (simp add: fold_integer_def fold_raw_def integer_op_def)
  next
    case BitAnd
    show ?thesis using ring [of "(AND)" "(AND)", OF word_of_int_bits(1)] BitAnd by (simp add: fold_integer_def fold_raw_def integer_op_def)
  next
    case BitOr
    show ?thesis using ring [of "(OR)" "(OR)", OF word_of_int_bits(2)] BitOr by (simp add: fold_integer_def fold_raw_def integer_op_def)
  next
    case BitXor
    show ?thesis using ring [of "(XOR)" "(XOR)", OF word_of_int_bits(3)] BitXor by (simp add: fold_integer_def fold_raw_def integer_op_def)
  qed (use False in simp_all)
qed

end
