(* ===== verification/Jir_Fold.thy ===== *)
theory Jir_Fold
  imports Jir_Simplify Jir_Integer
begin

text \<open>
  The constant folding of \<open>optimize.rs\<close>: every fold agrees with the specification of its instruction, and folding a
  module preserves the meaning of its functions. The arithmetic on floating-point numbers is a parameter.
\<close>

unbundle bit_operations_syntax

subsection \<open>Folding an instruction\<close>

text \<open>The floating-point arithmetic of the host, on the bits of a number.\<close>

record FloatOps =
  f32_arithmetic :: "BinaryOp \<Rightarrow> 32 word \<Rightarrow> 32 word \<Rightarrow> 32 word"
  f64_arithmetic :: "BinaryOp \<Rightarrow> 64 word \<Rightarrow> 64 word \<Rightarrow> 64 word"
  f64_negate :: "64 word \<Rightarrow> 64 word"
  f64_of_f32 :: "32 word \<Rightarrow> 64 word"
  f32_of_f64 :: "64 word \<Rightarrow> 32 word"
  f64_is_nan :: "64 word \<Rightarrow> bool"
  f64_equal :: "64 word \<Rightarrow> 64 word \<Rightarrow> bool"
  f64_less :: "64 word \<Rightarrow> 64 word \<Rightarrow> bool"
  f64_less_equal :: "64 word \<Rightarrow> 64 word \<Rightarrow> bool"

datatype KnownConstant = KnownConstant (known_value: Constant) (known_type: JTypeId)

type_synonym known = "(ValueId \<times> KnownConstant) list"

definition integer_shape :: "JType list \<Rightarrow> JTypeId \<Rightarrow> (bool \<times> nat) option" where
  "integer_shape types ty =
     (if ty < length types
      then (case types ! ty of IntegerType sg bits \<Rightarrow> if 1 \<le> bits \<and> bits \<le> 128 then Some (sg, bits) else None | _ \<Rightarrow> None)
      else None)"

definition float_width :: "JType list \<Rightarrow> JTypeId \<Rightarrow> nat option" where
  "float_width types ty =
     (if ty < length types
      then (case types ! ty of FloatType bits \<Rightarrow> if bits \<in> {16, 32, 64} then Some bits else None | _ \<Rightarrow> None)
      else None)"

definition fold_float_unary :: "FloatOps \<Rightarrow> 64 word \<Rightarrow> JTypeId \<Rightarrow> JType list \<Rightarrow> Constant option" where
  "fold_float_unary F bits result_ty types =
     (case float_width types result_ty of
        None \<Rightarrow> None
      | Some w \<Rightarrow>
          if w = 32 then Some (FloatBits (ucast (f32_of_f64 F (f64_negate F (f64_of_f32 F (ucast bits))))))
          else if w = 64 then Some (FloatBits (f64_negate F bits))
          else None)"

definition is_arithmetic :: "BinaryOp \<Rightarrow> bool" where
  "is_arithmetic op \<longleftrightarrow> op = Add \<or> op = Subtract \<or> op = Multiply \<or> op = Divide \<or> op = Remainder"

definition fold_float_binary :: "FloatOps \<Rightarrow> BinaryOp \<Rightarrow> 64 word \<Rightarrow> 64 word \<Rightarrow> JTypeId \<Rightarrow> JType list \<Rightarrow> Constant option" where
  "fold_float_binary F op left right result_ty types =
     (case float_width types result_ty of
        None \<Rightarrow> None
      | Some w \<Rightarrow>
          if w = 32
          then (if is_arithmetic op then Some (FloatBits (ucast (f32_arithmetic F op (ucast left) (ucast right)))) else None)
          else if w = 64
          then (if is_arithmetic op then Some (FloatBits (f64_arithmetic F op left right)) else None)
          else None)"

definition fold_float_compare :: "FloatOps \<Rightarrow> ComparePredicate \<Rightarrow> 64 word \<Rightarrow> 64 word \<Rightarrow> nat \<Rightarrow> Constant option" where
  "fold_float_compare F predicate left right width =
     (let compare = (\<lambda>left right.
        let ordered = \<not> f64_is_nan F left \<and> \<not> f64_is_nan F right in
        BoolConst (case predicate of
            Equal \<Rightarrow> ordered \<and> f64_equal F left right
          | NotEqual \<Rightarrow> \<not> ordered \<or> \<not> f64_equal F left right
          | Less \<Rightarrow> ordered \<and> f64_less F left right
          | LessEqual \<Rightarrow> ordered \<and> f64_less_equal F left right
          | Greater \<Rightarrow> ordered \<and> f64_less F right left
          | GreaterEqual \<Rightarrow> ordered \<and> f64_less_equal F right left))
      in if width = 32 then Some (compare (f64_of_f32 F (ucast left)) (f64_of_f32 F (ucast right)))
         else if width = 64 then Some (compare left right)
         else None)"

definition fold_unary :: "FloatOps \<Rightarrow> JType list \<Rightarrow> UnaryOp \<Rightarrow> KnownConstant option \<Rightarrow> JTypeId \<Rightarrow> Constant option" where
  "fold_unary F types op operand result_ty =
     Option.bind operand (\<lambda>operand.
       case (op, known_value operand) of
         (Negate, IntegerConst v) \<Rightarrow>
           map_option (\<lambda>(sg, bits). IntegerConst (normalize_integer (- integer_raw v bits) bits sg)) (integer_shape types result_ty)
       | (Negate, FloatBits bits) \<Rightarrow> fold_float_unary F bits result_ty types
       | (Negate, _) \<Rightarrow> None
       | (Not, BoolConst v) \<Rightarrow> Some (BoolConst (\<not> v))
       | (_, IntegerConst v) \<Rightarrow>
           map_option (\<lambda>(sg, bits). IntegerConst (normalize_integer (NOT (integer_raw v bits)) bits sg)) (integer_shape types result_ty)
       | _ \<Rightarrow> None)"

definition fold_binary ::
    "FloatOps \<Rightarrow> JType list \<Rightarrow> BinaryOp \<Rightarrow> KnownConstant option \<Rightarrow> KnownConstant option \<Rightarrow> JTypeId \<Rightarrow> Constant option" where
  "fold_binary F types op left right result_ty =
     Option.bind left (\<lambda>left. Option.bind right (\<lambda>right.
       case (known_value left, known_value right) of
         (BoolConst left, BoolConst right) \<Rightarrow>
           (case op of
              BitAnd \<Rightarrow> Some (BoolConst (left \<and> right))
            | BitOr \<Rightarrow> Some (BoolConst (left \<or> right))
            | BitXor \<Rightarrow> Some (BoolConst (left \<noteq> right))
            | _ \<Rightarrow> None)
       | (IntegerConst left, IntegerConst right) \<Rightarrow>
           Option.bind (integer_shape types result_ty) (\<lambda>(sg, bits). map_option IntegerConst (fold_integer op sg bits left right))
       | (FloatBits left, FloatBits right) \<Rightarrow> fold_float_binary F op left right result_ty types
       | _ \<Rightarrow> None))"

text \<open>The last two predicates are unreachable in the source and not passed by the caller.\<close>

definition compare_integer :: "128 word \<Rightarrow> 128 word \<Rightarrow> nat \<Rightarrow> bool \<Rightarrow> ComparePredicate \<Rightarrow> bool" where
  "compare_integer left right bits sg predicate =
     (if sg
      then let left = normalize_integer left bits True; right = normalize_integer right bits True in
        (case predicate of
           Less \<Rightarrow> left <s right | LessEqual \<Rightarrow> left \<le>s right
         | Greater \<Rightarrow> right <s left | GreaterEqual \<Rightarrow> right \<le>s left
         | _ \<Rightarrow> undefined)
      else
        (case predicate of
           Less \<Rightarrow> left < right | LessEqual \<Rightarrow> left \<le> right
         | Greater \<Rightarrow> right < left | GreaterEqual \<Rightarrow> right \<le> left
         | _ \<Rightarrow> undefined))"

definition fold_compare :: "FloatOps \<Rightarrow> JType list \<Rightarrow> ComparePredicate \<Rightarrow> KnownConstant option \<Rightarrow> KnownConstant option \<Rightarrow> Constant option" where
  "fold_compare F types predicate left right =
     Option.bind left (\<lambda>left. Option.bind right (\<lambda>right.
       if known_type left \<noteq> known_type right then None
       else case (known_value left, known_value right) of
         (BoolConst l, BoolConst r) \<Rightarrow>
           (case predicate of Equal \<Rightarrow> Some (BoolConst (l = r)) | NotEqual \<Rightarrow> Some (BoolConst (l \<noteq> r)) | _ \<Rightarrow> None)
       | (IntegerConst l, IntegerConst r) \<Rightarrow>
           map_option (\<lambda>(sg, bits).
             let l = integer_raw l bits; r = integer_raw r bits in
             BoolConst (case predicate of
                 Equal \<Rightarrow> l = r
               | NotEqual \<Rightarrow> l \<noteq> r
               | _ \<Rightarrow> compare_integer l r bits sg predicate)) (integer_shape types (known_type left))
       | (FloatBits l, FloatBits r) \<Rightarrow>
           Option.bind (float_width types (known_type left)) (fold_float_compare F predicate l r)
       | _ \<Rightarrow> None))"

definition fold_cast :: "FloatOps \<Rightarrow> JType list \<Rightarrow> CastOp \<Rightarrow> KnownConstant option \<Rightarrow> JTypeId \<Rightarrow> Constant option" where
  "fold_cast F types op v target =
     Option.bind v (\<lambda>v.
       case known_value v of
         IntegerConst w \<Rightarrow>
           if op = IntegerExtend \<or> op = IntegerTruncate
           then Option.bind (integer_shape types target) (\<lambda>(target_sg, target_bits).
             map_option (\<lambda>(source_sg, source_bits).
               let source = integer_raw w source_bits;
                   source = (if op = IntegerExtend \<and> source_sg then normalize_integer source source_bits True else source)
               in IntegerConst (normalize_integer source target_bits target_sg)) (integer_shape types (known_type v)))
           else None
       | FloatBits bits \<Rightarrow>
           if op = FloatExtend \<or> op = FloatTruncate
           then Option.bind (float_width types (known_type v)) (\<lambda>source_bits.
             Option.bind (float_width types target) (\<lambda>target_bits.
               if source_bits = 32 \<and> target_bits = 32 then Some (FloatBits (bits AND mask 32))
               else if source_bits = 32 \<and> target_bits = 64 then Some (FloatBits (f64_of_f32 F (ucast bits)))
               else if source_bits = 64 \<and> target_bits = 32 then Some (FloatBits (ucast (f32_of_f64 F bits)))
               else if source_bits = 64 \<and> target_bits = 64 then Some (FloatBits bits)
               else None))
           else None
       | _ \<Rightarrow> None)"

definition fold_instruction :: "FloatOps \<Rightarrow> ValueId InstructionKind \<Rightarrow> TypedValue \<Rightarrow> JType list \<Rightarrow> known \<Rightarrow> Constant option" where
  "fold_instruction F kind result types known =
     (case kind of
        Unary op operand \<Rightarrow> fold_unary F types op (bt_get known operand) (tv_type result)
      | Binary op left right \<Rightarrow> fold_binary F types op (bt_get known left) (bt_get known right) (tv_type result)
      | Compare predicate left right \<Rightarrow> fold_compare F types predicate (bt_get known left) (bt_get known right)
      | Cast op v target \<Rightarrow> fold_cast F types op (bt_get known v) target
      | Select condition when_true when_false \<Rightarrow>
          (case map_option known_value (bt_get known condition) of
             Some (BoolConst True) \<Rightarrow> map_option known_value (bt_get known when_true)
           | Some (BoolConst False) \<Rightarrow> map_option known_value (bt_get known when_false)
           | _ \<Rightarrow> None)
      | _ \<Rightarrow> None)"

subsection \<open>Folding a module\<close>

definition fold_step :: "FloatOps \<Rightarrow> JType list \<Rightarrow> Instruction \<Rightarrow> known \<times> OptimizationStats \<Rightarrow> Instruction \<times> known \<times> OptimizationStats" where
  "fold_step F types i st =
     (let (known, stats) = st in
      case inst_result i of
        None \<Rightarrow> (i, known, stats)
      | Some result \<Rightarrow>
          (case inst_kind i of
             Constant c \<Rightarrow> (i, bt_insert (tv_value result) (KnownConstant c (tv_type result)) known, stats)
           | kind \<Rightarrow>
               (case fold_instruction F kind result types known of
                  None \<Rightarrow> (i, known, stats)
                | Some c \<Rightarrow>
                    (i\<lparr>inst_kind := Constant c\<rparr>, bt_insert (tv_value result) (KnownConstant c (tv_type result)) known,
                     stats\<lparr>folded_instructions := folded_instructions stats + 1\<rparr>))))"

definition fold_block :: "FloatOps \<Rightarrow> JType list \<Rightarrow> Block \<Rightarrow> known \<times> OptimizationStats \<Rightarrow> Block \<times> known \<times> OptimizationStats" where
  "fold_block F types b st = (let (is, st) = thread (fold_step F types) (instructions b) st in (b\<lparr>instructions := is\<rparr>, st))"

definition fold_function :: "FloatOps \<Rightarrow> JType list \<Rightarrow> JFunction \<Rightarrow> OptimizationStats \<Rightarrow> JFunction \<times> OptimizationStats" where
  "fold_function F types f stats =
     (let (bs, _, stats) = thread (fold_block F types) (blocks f) ([], stats) in (f\<lparr>blocks := bs\<rparr>, stats))"

definition fold_constants :: "FloatOps \<Rightarrow> Module \<Rightarrow> Module \<times> OptimizationStats" where
  "fold_constants F m =
     (let (fs, stats) = thread (fold_function F (module_types m)) (module_functions m) no_stats in
      (m\<lparr>module_functions := fs\<rparr>, stats))"

subsection \<open>What the instructions mean\<close>

definition int_of :: "bool \<times> nat \<Rightarrow> 128 word \<Rightarrow> int" where
  "int_of sh v = wrap (fst sh) (snd sh) (sint v)"

definition of_shape :: "bool \<times> nat \<Rightarrow> int \<Rightarrow> Constant" where
  "of_shape sh z = IntegerConst (word_of_int (wrap (fst sh) (snd sh) z))"

definition reference_unary :: "FloatOps \<Rightarrow> JType list \<Rightarrow> UnaryOp \<Rightarrow> JTypeId \<Rightarrow> Constant \<Rightarrow> Constant option" where
  "reference_unary F types op t c =
     (case c of
        IntegerConst v \<Rightarrow>
          map_option (\<lambda>sh. of_shape sh (if op = Negate then - int_of sh v else - int_of sh v - 1)) (integer_shape types t)
      | FloatBits bits \<Rightarrow> if op = Negate then fold_float_unary F bits t types else None
      | BoolConst v \<Rightarrow> if op = Not then Some (BoolConst (\<not> v)) else None
      | _ \<Rightarrow> None)"

definition reference_binary :: "FloatOps \<Rightarrow> JType list \<Rightarrow> BinaryOp \<Rightarrow> JTypeId \<Rightarrow> Constant \<Rightarrow> Constant \<Rightarrow> Constant option" where
  "reference_binary F types op t c d =
     (case (c, d) of
        (BoolConst x, BoolConst y) \<Rightarrow>
          (case op of
             BitAnd \<Rightarrow> Some (BoolConst (x \<and> y))
           | BitOr \<Rightarrow> Some (BoolConst (x \<or> y))
           | BitXor \<Rightarrow> Some (BoolConst (x \<noteq> y))
           | _ \<Rightarrow> None)
      | (IntegerConst v, IntegerConst w) \<Rightarrow>
          Option.bind (integer_shape types t)
            (\<lambda>sh. map_option (of_shape sh) (integer_op op (fst sh) (snd sh) (int_of sh v) (int_of sh w)))
      | (FloatBits v, FloatBits w) \<Rightarrow> fold_float_binary F op v w t types
      | _ \<Rightarrow> None)"

fun compare_by :: "ComparePredicate \<Rightarrow> int \<Rightarrow> int \<Rightarrow> bool" where
  "compare_by Equal a b = (a = b)"
| "compare_by NotEqual a b = (a \<noteq> b)"
| "compare_by Less a b = (a < b)"
| "compare_by LessEqual a b = (a \<le> b)"
| "compare_by Greater a b = (a > b)"
| "compare_by GreaterEqual a b = (a \<ge> b)"

definition reference_compare :: "FloatOps \<Rightarrow> JType list \<Rightarrow> ComparePredicate \<Rightarrow> JTypeId \<Rightarrow> Constant \<Rightarrow> Constant \<Rightarrow> Constant option" where
  "reference_compare F types p t c d =
     (case (c, d) of
        (BoolConst x, BoolConst y) \<Rightarrow>
          (case p of Equal \<Rightarrow> Some (BoolConst (x = y)) | NotEqual \<Rightarrow> Some (BoolConst (x \<noteq> y)) | _ \<Rightarrow> None)
      | (IntegerConst v, IntegerConst w) \<Rightarrow>
          map_option (\<lambda>sh. BoolConst (compare_by p (int_of sh v) (int_of sh w))) (integer_shape types t)
      | (FloatBits v, FloatBits w) \<Rightarrow> Option.bind (float_width types t) (fold_float_compare F p v w)
      | _ \<Rightarrow> None)"

definition reference_extend :: "JType list \<Rightarrow> JTypeId \<Rightarrow> 128 word \<Rightarrow> JTypeId \<Rightarrow> Constant option" where
  "reference_extend types source v target =
     Option.bind (integer_shape types target) (\<lambda>tsh. map_option (\<lambda>ssh. of_shape tsh (int_of ssh v)) (integer_shape types source))"

lemma integer_shape_bits: "integer_shape types t = Some (sg, bits) \<Longrightarrow> 0 < bits \<and> bits \<le> 128"
  by (auto simp: integer_shape_def split: if_splits JType.splits)

lemma negate_reference:
  assumes "0 < bits" "bits \<le> 128"
  shows "normalize_integer (- integer_raw v bits) bits sg = word_of_int (wrap sg bits (- wrap sg bits (sint v)))"
proof -
  have "- integer_raw v bits = word_of_int (- take_bit bits (sint v))" by (simp add: raw_of_int [OF assms(2)])
  moreover have "take_bit bits (- take_bit bits (sint v)) = take_bit bits (- wrap sg bits (sint v))"
    using take_bit_minus [of bits "wrap sg bits (sint v)"] unfolding take_bit_wrap [OF assms(1)] .
  ultimately show ?thesis by (simp only: normalize_cong [OF assms])
qed

lemma not_reference:
  assumes "0 < bits" "bits \<le> 128"
  shows "normalize_integer (NOT (integer_raw v bits)) bits sg = word_of_int (wrap sg bits (- wrap sg bits (sint v) - 1))"
proof -
  have "NOT (integer_raw v bits) = word_of_int (- take_bit bits (sint v) - 1)"
    by (simp add: raw_of_int [OF assms(2)] not_eq_complement)
  moreover have "take_bit bits (- take_bit bits (sint v) - 1) = take_bit bits (- wrap sg bits (sint v) - 1)"
    using take_bit_wrap [OF assms(1), of sg "sint v"] by (metis not_eq_complement take_bit_not_take_bit)
  ultimately show ?thesis by (simp only: normalize_cong [OF assms])
qed

lemma fold_unary_reference: "fold_unary F types op (Some (KnownConstant c ty)) t = reference_unary F types op t c"
  using integer_shape_bits [of types t] negate_reference not_reference
  by (cases op; cases c; cases "integer_shape types t")
    (auto simp: fold_unary_def reference_unary_def of_shape_def int_of_def)

lemma fold_binary_reference:
  "fold_binary F types op (Some (KnownConstant c ty)) (Some (KnownConstant d ty')) t = reference_binary F types op t c d"
proof (cases "integer_shape types t")
  case None
  then show ?thesis by (cases c; cases d) (simp_all add: fold_binary_def reference_binary_def)
next
  case (Some sh)
  obtain sg bits where sh: "sh = (sg, bits)" by (cases sh)
  have "map_option IntegerConst (fold_integer op sg bits v w) = map_option (of_shape sh) (integer_op op sg bits (int_of sh v) (int_of sh w))" for v w
    using fold_integer_reference integer_shape_bits [OF Some [unfolded sh]] 
    by (simp add: option.map_comp comp_def of_shape_def [abs_def] int_of_def sh)
  then show ?thesis using Some sh by (cases c; cases d) (simp_all add: fold_binary_def reference_binary_def)
qed

lemma compare_reference:
  assumes "0 < bits" "bits \<le> 128"
  shows "(case p of Equal \<Rightarrow> integer_raw v bits = integer_raw w bits | NotEqual \<Rightarrow> integer_raw v bits \<noteq> integer_raw w bits
      | _ \<Rightarrow> compare_integer (integer_raw v bits) (integer_raw w bits) bits sg p) =
    compare_by p (wrap sg bits (sint v)) (wrap sg bits (sint w))"
proof -
  have eq: "integer_raw v bits = integer_raw w bits \<longleftrightarrow> wrap sg bits (sint v) = wrap sg bits (sint w)"
    using raw_of_int [OF assms(2)] uint_raw [OF assms(2)] wrap_cong [OF assms(1)] take_bit_wrap [OF assms(1)] by metis
  show ?thesis
    using assms eq by (cases p; cases sg)
      (simp_all add: compare_integer_def Let_def signed_value(1) word_sless_alt word_sle_eq word_less_def word_le_def unsigned_value)
qed

lemma fold_compare_reference:
  "fold_compare F types p (Some (KnownConstant c ty)) (Some (KnownConstant d ty)) = reference_compare F types p ty c d"
proof (cases "integer_shape types ty")
  case None
  then show ?thesis by (cases c; cases d) (simp_all add: fold_compare_def reference_compare_def)
next
  case (Some sh)
  obtain sg bits where sh: "sh = (sg, bits)" by (cases sh)
  show ?thesis using compare_reference [where p = p] integer_shape_bits [OF Some [unfolded sh]] Some sh
    by (cases c; cases d) (simp_all add: fold_compare_def reference_compare_def Let_def int_of_def)
qed

definition truncates :: "JType list \<Rightarrow> JTypeId \<Rightarrow> JTypeId \<Rightarrow> bool" where
  "truncates types source target =
     (case (integer_shape types source, integer_shape types target) of (Some s, Some t) \<Rightarrow> snd t \<le> snd s | _ \<Rightarrow> True)"

lemma fold_cast_reference:
  assumes "op = IntegerExtend \<or> (op = IntegerTruncate \<and> truncates types ty target)"
  shows "fold_cast F types op (Some (KnownConstant (IntegerConst v) ty)) target = reference_extend types ty v target"
proof (cases "integer_shape types ty = None \<or> integer_shape types target = None")
  case True
  then show ?thesis using assms by (cases "integer_shape types target") (auto simp: fold_cast_def reference_extend_def)
next
  case False
  then obtain ssg sb tsg tb where sh: "integer_shape types ty = Some (ssg, sb)" "integer_shape types target = Some (tsg, tb)" by auto
  note s = integer_shape_bits [OF sh(1), THEN conjunct1] integer_shape_bits [OF sh(1), THEN conjunct2]
  note t = integer_shape_bits [OF sh(2), THEN conjunct1] integer_shape_bits [OF sh(2), THEN conjunct2]
  have signed: "normalize_integer (normalize_integer (integer_raw v sb) sb True) tb tsg = word_of_int (wrap tsg tb (wrap True sb (sint v)))"
    using normalize_of_int [OF s, of "sint v" True] normalize_of_int [OF t] by (simp add: normalize_raw [OF s])
  have unsigned: "normalize_integer (integer_raw v sb) tb tsg = word_of_int (wrap tsg tb (wrap False sb (sint v)))"
    using normalize_of_int [OF t] by (simp add: raw_of_int [OF s(2)] wrap_def)
  have "normalize_integer (integer_raw v sb) tb tsg = word_of_int (wrap tsg tb (wrap ssg sb (sint v)))" if "tb \<le> sb"
  proof -
    have "take_bit tb (take_bit sb z) = take_bit tb z" for z :: int using that by simp
    then have "take_bit tb (take_bit sb (sint v)) = take_bit tb (wrap ssg sb (sint v))" by (metis take_bit_wrap [OF s(1)])
    then show ?thesis using normalize_cong [OF t] by (simp add: raw_of_int [OF s(2)])
  qed
  then show ?thesis
    using assms signed unsigned sh by (auto simp: fold_cast_def reference_extend_def truncates_def of_shape_def int_of_def Let_def)
qed

text \<open>The verifier's typing of the instructions that are folded, by the types of the operands.\<close>

definition well_typed :: "JType list \<Rightarrow> JTypeId \<Rightarrow> unit InstructionKind \<Rightarrow> JTypeId list \<Rightarrow> bool" where
  "well_typed types t k tys =
     (case k of
        Unary op v \<Rightarrow> tys = [t]
      | Binary op v w \<Rightarrow> tys = [t, t]
      | Cast op v target \<Rightarrow> target = t \<and> (op = IntegerTruncate \<longrightarrow> truncates types (hd tys) t)
      | _ \<Rightarrow> True)"

definition reference_constant :: "FloatOps \<Rightarrow> JType list \<Rightarrow> JTypeId \<Rightarrow> unit InstructionKind \<Rightarrow> KnownConstant list \<Rightarrow> Constant option" where
  "reference_constant F types t k cs =
     (case (k, cs) of
        (Unary op _, [c]) \<Rightarrow> reference_unary F types op t (known_value c)
      | (Binary op _ _, [c, d]) \<Rightarrow> reference_binary F types op t (known_value c) (known_value d)
      | (Compare p _ _, [c, d]) \<Rightarrow>
          if known_type c = known_type d then reference_compare F types p (known_type c) (known_value c) (known_value d) else None
      | (Cast op _ target, [c]) \<Rightarrow>
          (case known_value c of
             IntegerConst v \<Rightarrow>
               if op = IntegerExtend \<or> op = IntegerTruncate then reference_extend types (known_type c) v target else None
           | _ \<Rightarrow> fold_cast F types op (Some c) target)
      | _ \<Rightarrow> None)"

fun is_arithmetic_kind :: "'v InstructionKind \<Rightarrow> bool" where
  "is_arithmetic_kind (Unary op v) = True"
| "is_arithmetic_kind (Binary op v w) = True"
| "is_arithmetic_kind (Compare p v w) = True"
| "is_arithmetic_kind (Cast op v t) = True"
| "is_arithmetic_kind _ = False"

text \<open>
  An interpretation that computes as the instructions are specified: on operands that are constants, an instruction
  that has a value is well typed and its value is the reference one. Whether it has a value, for example on overflow,
  is left open.
\<close>

definition semantics_ok :: "FloatOps \<Rightarrow> JType list \<Rightarrow> ('x, 's) Interp \<Rightarrow> (KnownConstant \<Rightarrow> 'x) \<Rightarrow> bool" where
  "semantics_ok F types I den \<longleftrightarrow>
     (\<forall>t c. pure_sem I t (Constant c) [] = Some (den (KnownConstant c t))) \<and>
     (\<forall>t k cs x. is_arithmetic_kind k \<longrightarrow> pure_sem I t k (map den cs) = Some x \<longrightarrow>
        well_typed types t k (map known_type cs) \<and>
        (\<forall>c. reference_constant F types t k cs = Some c \<longrightarrow> x = den (KnownConstant c t))) \<and>
     (\<forall>t b ty y z x. pure_sem I t (Select () () ()) [den (KnownConstant (BoolConst b) ty), y, z] = Some x \<longrightarrow>
        x = (if b then y else z) \<and> (\<forall>c ty'. x = den (KnownConstant c ty') \<longrightarrow> ty' = t))"

definition knows :: "(KnownConstant \<Rightarrow> 'x) \<Rightarrow> known \<Rightarrow> 'x env \<Rightarrow> bool" where
  "knows den known env \<longleftrightarrow> (\<forall>v k x. bt_get known v = Some k \<longrightarrow> env v = Some x \<longrightarrow> x = den k)"

lemma values_of_Cons: "values_of env (v # vs) = (case env v of None \<Rightarrow> None | Some x \<Rightarrow> map_option ((#) x) (values_of env vs))"
  by (simp add: values_of_def split: option.split)

lemma values_of_Nil: "values_of env [] = Some []"
  by (simp add: values_of_def)

lemma arithmetic_sound:
  assumes "semantics_ok F types I den" "pure_sem I t k (map den cs) = Some x" "is_arithmetic_kind k"
    and "well_typed types t k (map known_type cs) \<Longrightarrow> reference_constant F types t k cs = Some c"
  shows "x = den (KnownConstant c t)"
proof -
  have "well_typed types t k (map known_type cs) \<and>
      (\<forall>c. reference_constant F types t k cs = Some c \<longrightarrow> x = den (KnownConstant c t))"
    using assms(1-3) unfolding semantics_ok_def by blast
  then show ?thesis using assms(4) by blast
qed

lemma fold_instruction_pure: "fold_instruction F k r types kn = Some c \<Longrightarrow> is_pure_kind k"
  by (cases k) (simp_all add: fold_instruction_def)

lemma fold_instruction_sound:
  assumes ok: "semantics_ok F types I den" and kn: "knows den kn env"
    and c: "fold_instruction F k r types kn = Some c"
    and xs: "values_of env (instruction_operands k) = Some xs" and x: "pure_sem I (tv_type r) (shape k) xs = Some x"
  shows "x = den (KnownConstant c (tv_type r))"
proof -
  have operand: "y = den q" if "bt_get kn v = Some q" "env v = Some y" for v q y using kn that unfolding knows_def by blast
  note sound = arithmetic_sound [OF ok]
  show ?thesis
  proof (cases k)
    case (Unary op v)
    obtain q where q: "bt_get kn v = Some q" using c Unary by (cases "bt_get kn v") (simp_all add: fold_instruction_def fold_unary_def)
    have "xs = map den [q]" using xs Unary operand [OF q] by (auto simp: values_of_Cons values_of_Nil split: option.splits)
    then show ?thesis using sound [of _ _ "[q]"] x Unary c q fold_unary_reference [of F types op "known_value q" "known_type q"]
      by (auto simp: fold_instruction_def reference_constant_def)
  next
    case (Binary op v w)
    obtain p q where q: "bt_get kn v = Some p" "bt_get kn w = Some q"
      using c Binary by (cases "bt_get kn v"; cases "bt_get kn w") (simp_all add: fold_instruction_def fold_binary_def)
    have "xs = map den [p, q]"
      using xs Binary operand [OF q(1)] operand [OF q(2)] by (auto simp: values_of_Cons values_of_Nil split: option.splits)
    then show ?thesis
      using sound [of _ _ "[p, q]"] x Binary c q fold_binary_reference [of F types op "known_value p" "known_type p" "known_value q" "known_type q"]
      by (auto simp: fold_instruction_def reference_constant_def)
  next
    case (Compare op v w)
    obtain p q where q: "bt_get kn v = Some p" "bt_get kn w = Some q"
      using c Compare by (cases "bt_get kn v"; cases "bt_get kn w") (simp_all add: fold_instruction_def fold_compare_def)
    have same: "known_type p = known_type q" using c Compare q by (auto simp: fold_instruction_def fold_compare_def split: if_splits)
    have "xs = map den [p, q]"
      using xs Compare operand [OF q(1)] operand [OF q(2)] by (auto simp: values_of_Cons values_of_Nil split: option.splits)
    moreover have "reference_constant F types (tv_type r) (shape k) [p, q] = Some c"
      using c Compare q same by (cases p; cases q) (simp add: fold_instruction_def reference_constant_def fold_compare_reference)
    ultimately show ?thesis using sound [of _ _ "[p, q]"] x Compare by simp
  next
    case (Cast op v target)
    obtain q where q: "bt_get kn v = Some q" using c Cast by (cases "bt_get kn v") (simp_all add: fold_instruction_def fold_cast_def)
    have xs': "xs = map den [q]" using xs Cast operand [OF q] by (auto simp: values_of_Cons values_of_Nil split: option.splits)
    have "reference_constant F types (tv_type r) (shape k) [q] = Some c" if "well_typed types (tv_type r) (shape k) (map known_type [q])"
    proof (cases "known_value q")
      case (IntegerConst w)
      have op: "op = IntegerExtend \<or> op = IntegerTruncate"
        using c Cast q IntegerConst by (auto simp: fold_instruction_def fold_cast_def split: if_splits)
      have "fold_cast F types op (Some (KnownConstant (IntegerConst w) (known_type q))) target = reference_extend types (known_type q) w target"
        by (rule fold_cast_reference) (use op that Cast in \<open>auto simp: well_typed_def\<close>)
      then show ?thesis using c Cast q IntegerConst op by (cases q) (auto simp: fold_instruction_def reference_constant_def)
    qed (use c Cast q in \<open>simp_all add: fold_instruction_def reference_constant_def\<close>)
    then show ?thesis using sound [of _ _ "[q]"] x xs' Cast by simp
  next
    case (Select b v w)
    obtain q p where q: "bt_get kn b = Some q" "known_value q = BoolConst p" "map_option known_value (bt_get kn (if p then v else w)) = Some c"
      using c Select by (auto simp: fold_instruction_def split: option.splits Constant.splits bool.splits)
    obtain e where e: "bt_get kn (if p then v else w) = Some e" "known_value e = c" using q(3) by auto
    obtain y z where y: "xs = [den q, y, z]" "env v = Some y" "env w = Some z"
      using xs Select operand [OF q(1)] by (auto simp: values_of_Cons values_of_Nil split: option.splits)
    have sel: "\<forall>t b ty y z x. pure_sem I t (Select () () ()) [den (KnownConstant (BoolConst b) ty), y, z] = Some x \<longrightarrow>
        x = (if b then y else z) \<and> (\<forall>c ty'. x = den (KnownConstant c ty') \<longrightarrow> ty' = t)"
      using ok unfolding semantics_ok_def by blast
    have "q = KnownConstant (BoolConst p) (known_type q)" using q(2) by (cases q) simp
    then have "pure_sem I (tv_type r) (Select () () ()) [den (KnownConstant (BoolConst p) (known_type q)), y, z] = Some x"
      using x Select y(1) by simp
    then have x': "x = (if p then y else z)" "\<forall>c ty'. x = den (KnownConstant c ty') \<longrightarrow> ty' = tv_type r" using sel by blast+
    have "x = den e" using x'(1) operand [OF e(1)] y(2,3) by (cases p) simp_all
    moreover have "e = KnownConstant c (known_type e)" using e(2) by (cases e) simp
    ultimately show ?thesis using x'(2) by metis
  qed (use c in \<open>simp_all add: fold_instruction_def\<close>)
qed

subsection \<open>Folding preserves the meaning of functions\<close>

text \<open>The constants that the instructions of a list define.\<close>

definition constant_entries :: "Instruction list \<Rightarrow> (ValueId \<times> KnownConstant) set" where
  "constant_entries is =
     {(tv_value r, KnownConstant c (tv_type r)) | i r c. i \<in> set is \<and> inst_result i = Some r \<and> inst_kind i = Constant c}"

lemma constant_entries_append: "constant_entries (is @ js) = constant_entries is \<union> constant_entries js"
  by (auto simp: constant_entries_def)

lemma constant_entries_Cons: "constant_entries (i # is) = constant_entries [i] \<union> constant_entries is"
  using constant_entries_append [of "[i]" "is"] by simp

definition folds :: "FloatOps \<Rightarrow> JType list \<Rightarrow> (ValueId \<times> KnownConstant) set \<Rightarrow> Instruction \<Rightarrow> Instruction \<Rightarrow> bool" where
  "folds F types E i i' \<longleftrightarrow>
     i' = i \<or>
     (\<exists>kn r c. set kn \<subseteq> E \<and> inst_result i = Some r \<and> fold_instruction F (inst_kind i) r types kn = Some c \<and>
        i' = i\<lparr>inst_kind := Constant c\<rparr>)"

lemma folds_mono: "folds F types E i i' \<Longrightarrow> E \<subseteq> E' \<Longrightarrow> folds F types E' i i'"
  unfolding folds_def by blast

lemma folds_result: "folds F types E i i' \<Longrightarrow> inst_result i' = inst_result i"
  unfolding folds_def by auto

lemma fold_step_folds:
  assumes "fold_step F types i (kn, stats) = (i', kn', stats')"
  shows "set kn' \<subseteq> set kn \<union> constant_entries [i'] \<and> folds F types (set kn) i i'"
proof (cases "inst_result i")
  case None
  then show ?thesis using assms by (auto simp: fold_step_def folds_def)
next
  case (Some r)
  show ?thesis
  proof (cases "\<exists>c. inst_kind i = Constant c")
    case True
    then show ?thesis using assms Some set_bt_insert by (fastforce simp: fold_step_def folds_def constant_entries_def)
  next
    case False
    then have "fold_step F types i (kn, stats) =
        (case fold_instruction F (inst_kind i) r types kn of
           None \<Rightarrow> (i, kn, stats)
         | Some c \<Rightarrow> (i\<lparr>inst_kind := Constant c\<rparr>, bt_insert (tv_value r) (KnownConstant c (tv_type r)) kn,
             stats\<lparr>folded_instructions := folded_instructions stats + 1\<rparr>))"
      using Some by (simp add: fold_step_def split: InstructionKind.split)
    note step = this [unfolded assms]
    show ?thesis
    proof (cases "fold_instruction F (inst_kind i) r types kn")
      case None
      then show ?thesis using step by (simp add: folds_def)
    next
      case (Some c)
      then have i': "i' = i\<lparr>inst_kind := Constant c\<rparr>" "kn' = bt_insert (tv_value r) (KnownConstant c (tv_type r)) kn" using step by simp_all
      have "(tv_value r, KnownConstant c (tv_type r)) \<in> constant_entries [i']"
        using i'(1) \<open>inst_result i = Some r\<close> by (auto simp: constant_entries_def)
      then have "set kn' \<subseteq> set kn \<union> constant_entries [i']" using set_bt_insert [of "tv_value r" "KnownConstant c (tv_type r)" kn] i'(2) by blast
      moreover have "folds F types (set kn) i i'" using Some \<open>inst_result i = Some r\<close> i'(1) unfolding folds_def by blast
      ultimately show ?thesis ..
    qed
  qed
qed

lemma thread_fold_step:
  "thread (fold_step F types) is (kn, stats) = (is', kn', stats') \<Longrightarrow>
     set kn' \<subseteq> set kn \<union> constant_entries is' \<and> list_all2 (folds F types (set kn \<union> constant_entries is')) is is'"
proof (induction "is" arbitrary: kn stats is')
  case (Cons i "is")
  obtain i1 kn1 stats1 is1 where 1: "fold_step F types i (kn, stats) = (i1, kn1, stats1)"
    "thread (fold_step F types) is (kn1, stats1) = (is1, kn', stats')" "is' = i1 # is1"
    using Cons.prems by (auto split: prod.splits)
  note step = fold_step_folds [OF 1(1)] and rest = Cons.IH [OF 1(2)]
  have E: "constant_entries is' = constant_entries [i1] \<union> constant_entries is1" unfolding 1(3) by (rule constant_entries_Cons)
  have sub: "set kn1 \<union> constant_entries is1 \<subseteq> set kn \<union> constant_entries is'" "set kn \<subseteq> set kn \<union> constant_entries is'"
    using step unfolding E by blast+
  have "list_all2 (folds F types (set kn \<union> constant_entries is')) is is1"
    using rest by (auto intro: list_all2_mono folds_mono [OF _ sub(1)])
  then have "list_all2 (folds F types (set kn \<union> constant_entries is')) (i # is) is'"
    using step folds_mono [OF _ sub(2)] by (simp add: 1(3))
  moreover have "set kn' \<subseteq> set kn \<union> constant_entries is'" using rest sub(1) by blast
  ultimately show ?case by blast
qed (simp add: constant_entries_def)

definition all_instructions :: "Block list \<Rightarrow> Instruction list" where
  "all_instructions bs = concat (map instructions bs)"

definition folds_block :: "FloatOps \<Rightarrow> JType list \<Rightarrow> (ValueId \<times> KnownConstant) set \<Rightarrow> Block \<Rightarrow> Block \<Rightarrow> bool" where
  "folds_block F types E b b' \<longleftrightarrow>
     block_parameters b' = block_parameters b \<and> terminator b' = terminator b \<and> list_all2 (folds F types E) (instructions b) (instructions b')"

lemma thread_fold_block:
  "thread (fold_block F types) bs (kn, stats) = (bs', kn', stats') \<Longrightarrow>
     set kn' \<subseteq> set kn \<union> constant_entries (all_instructions bs') \<and>
     list_all2 (folds_block F types (set kn \<union> constant_entries (all_instructions bs'))) bs bs'"
proof (induction bs arbitrary: kn stats bs')
  case (Cons b bs)
  obtain is1 kn1 stats1 bs1 where 1: "thread (fold_step F types) (instructions b) (kn, stats) = (is1, kn1, stats1)"
    "thread (fold_block F types) bs (kn1, stats1) = (bs1, kn', stats')" "bs' = b\<lparr>instructions := is1\<rparr> # bs1"
    using Cons.prems by (auto simp: fold_block_def [of F types b] split: prod.splits)
  note step = thread_fold_step [OF 1(1)] and rest = Cons.IH [OF 1(2)]
  have E: "constant_entries (all_instructions bs') = constant_entries is1 \<union> constant_entries (all_instructions bs1)"
    by (simp add: 1(3) all_instructions_def constant_entries_append)
  have sub: "set kn1 \<union> constant_entries (all_instructions bs1) \<subseteq> set kn \<union> constant_entries (all_instructions bs')"
    "set kn \<union> constant_entries is1 \<subseteq> set kn \<union> constant_entries (all_instructions bs')"
    using step unfolding E by blast+
  have "list_all2 (folds_block F types (set kn \<union> constant_entries (all_instructions bs'))) bs bs1"
    using rest by (auto simp: folds_block_def elim!: list_all2_mono intro: folds_mono [OF _ sub(1)])
  moreover have "folds_block F types (set kn \<union> constant_entries (all_instructions bs')) b (b\<lparr>instructions := is1\<rparr>)"
    using step by (auto simp: folds_block_def elim!: list_all2_mono intro: folds_mono [OF _ sub(2)])
  ultimately show ?case using rest sub(1) unfolding 1(3) by auto
qed (simp add: constant_entries_def all_instructions_def)

definition entries_hold :: "(KnownConstant \<Rightarrow> 'x) \<Rightarrow> (ValueId \<times> KnownConstant) set \<Rightarrow> 'x env \<Rightarrow> bool" where
  "entries_hold den E env \<longleftrightarrow> (\<forall>v k x. (v, k) \<in> E \<longrightarrow> env v = Some x \<longrightarrow> x = den k)"

lemma entries_hold_update:
  "entries_hold den E env \<Longrightarrow> (\<And>k. (v, k) \<in> E \<Longrightarrow> x = den k) \<Longrightarrow> entries_hold den E (env(v \<mapsto> x))"
  by (auto simp: entries_hold_def)

lemma exec_folds:
  assumes ok: "semantics_ok F types I den" and i': "folds F types E i i'" and hold: "entries_hold den E env"
    and run: "exec_instruction I i (env, s) = Some (e, t)"
  shows "exec_instruction I i' (env, s) = Some (e, t)"
proof (cases "i' = i")
  case False
  then obtain kn r c where kn: "set kn \<subseteq> E" "inst_result i = Some r" "fold_instruction F (inst_kind i) r types kn = Some c"
    "i' = i\<lparr>inst_kind := Constant c\<rparr>"
    using i' unfolding folds_def by blast
  obtain x where x: "exec_kind I (Some (tv_type r)) (inst_kind i) env s = Some (Some x, t)" "e = env(tv_value r \<mapsto> x)"
    using run kn(2) by (auto simp: exec_instruction_def split: option.splits)
  obtain xs where xs: "values_of env (instruction_operands (inst_kind i)) = Some xs" "pure_sem I (tv_type r) (shape (inst_kind i)) xs = Some x" "t = s"
    using x(1) fold_instruction_pure [OF kn(3)] by (auto simp: exec_kind_def split: option.splits)
  have "knows den kn env"
    using hold kn(1) map_of_SomeD unfolding knows_def entries_hold_def bt_get_def by fast
  then have "x = den (KnownConstant c (tv_type r))" by (rule fold_instruction_sound [OF ok _ kn(3) xs(1,2)])
  moreover have "pure_sem I (tv_type r) (Constant c) [] = Some (den (KnownConstant c (tv_type r)))"
    using ok unfolding semantics_ok_def by blast
  ultimately show ?thesis using kn(2,4) x(2) xs(3) by (simp add: exec_instruction_def exec_kind_def values_of_Nil)
qed (use run in simp)

text \<open>A constant has a value, which depends on its type.\<close>

definition denotes :: "('x, 's) Interp \<Rightarrow> (KnownConstant \<Rightarrow> 'x) \<Rightarrow> bool" where
  "denotes I den \<longleftrightarrow> (\<forall>t c. pure_sem I t (Constant c) [] = Some (den (KnownConstant c t)))"

lemma semantics_denotes: "semantics_ok F types I den \<Longrightarrow> denotes I den"
  unfolding semantics_ok_def denotes_def by blast

lemma entries_hold_instruction:
  assumes ok: "denotes I den" and dist: "distinct (concat (map result_values is))" and i: "i \<in> set is"
    and hold: "entries_hold den (constant_entries is) env" and run: "exec_instruction I i (env, s) = Some (e, t)"
  shows "entries_hold den (constant_entries is) e"
proof (cases "inst_result i")
  case None
  then show ?thesis using hold run by (auto simp: exec_instruction_def split: option.splits)
next
  case (Some r)
  obtain x where x: "exec_kind I (Some (tv_type r)) (inst_kind i) env s = Some (Some x, t)" "e = env(tv_value r \<mapsto> x)"
    using run Some by (auto simp: exec_instruction_def split: option.splits)
  have "x = den k" if k: "(tv_value r, k) \<in> constant_entries is" for k
  proof -
    obtain j q c where j: "j \<in> set is" "inst_result j = Some q" "inst_kind j = Constant c" "tv_value q = tv_value r" "k = KnownConstant c (tv_type q)"
      using k by (auto simp: constant_entries_def)
    have "tv_value r \<in> set (result_values i)" "tv_value r \<in> set (result_values j)" using Some j by (simp_all add: result_values_def)
    then have "i = j" by (rule distinct_concat_same [OF dist i j(1)])
    moreover have "pure_sem I (tv_type q) (Constant c) [] = Some (den (KnownConstant c (tv_type q)))"
      using ok unfolding denotes_def by blast
    ultimately show ?thesis using j Some x(1) by (simp add: exec_kind_def values_of_Nil)
  qed
  then show ?thesis using entries_hold_update [OF hold] x(2) by blast
qed

lemma exec_folds_all:
  assumes ok: "semantics_ok F types I den" and dist: "distinct (concat (map result_values all))"
  shows "list_all2 (folds F types (constant_entries all)) is is' \<Longrightarrow> set is' \<subseteq> set all \<Longrightarrow> entries_hold den (constant_entries all) env \<Longrightarrow>
    exec_instructions I is (env, s) = Some (e, t) \<Longrightarrow>
    exec_instructions I is' (env, s) = Some (e, t) \<and> entries_hold den (constant_entries all) e"
proof (induction "is" is' arbitrary: env s rule: list_all2_induct)
  case (Cons i "is" i' is')
  obtain e1 s1 where es: "exec_instruction I i (env, s) = Some (e1, s1)" "exec_instructions I is (e1, s1) = Some (e, t)"
    using Cons.prems(3) by (auto simp: bind_eq_Some_conv)
  have i': "exec_instruction I i' (env, s) = Some (e1, s1)" by (rule exec_folds [OF ok Cons.hyps(1) Cons.prems(2) es(1)])
  have "entries_hold den (constant_entries all) e1"
    by (rule entries_hold_instruction [OF semantics_denotes [OF ok] dist _ Cons.prems(2) i']) (use Cons.prems(1) in simp)
  then show ?case using Cons.IH [OF _ _ es(2)] Cons.prems(1) i' by simp
qed simp

lemma entries_hold_parameters:
  assumes disj: "set vs \<inter> set (concat (map result_values all)) = {}" and hold: "entries_hold den (constant_entries all) env"
    and e: "bind_parameters vs xs env = Some e"
  shows "entries_hold den (constant_entries all) e"
proof -
  have none: "(v, k) \<notin> constant_entries all" if "v \<in> set vs" for v k
    using disj that by (fastforce simp: constant_entries_def result_values_def)
  have len: "length vs = length xs" and e: "e = env(vs [\<mapsto>] xs)" using e by (auto simp: bind_parameters_def split: if_splits)
  show ?thesis unfolding e
    using len none hold
  proof (induction vs xs arbitrary: env rule: list_induct2)
    case (Cons p ps x xs)
    have "entries_hold den (constant_entries all) (env(p \<mapsto> x))" by (rule entries_hold_update [OF Cons.prems(2)]) (simp add: Cons.prems(1))
    then show ?case using Cons.IH Cons.prems(1) by simp
  qed simp
qed

lemma all_results: "concat (map result_values (all_instructions bs)) = concat (map block_results bs)"
  by (induction bs) (simp_all add: all_instructions_def block_results_def)

definition folds_blocks :: "FloatOps \<Rightarrow> JType list \<Rightarrow> Block list \<Rightarrow> Block list \<Rightarrow> bool" where
  "folds_blocks F types bs bs' \<longleftrightarrow>
     distinct (block_definitions bs') \<and> list_all2 (folds_block F types (constant_entries (all_instructions bs'))) bs bs'"

interpretation folded: block_simulation I bs bs' "\<lambda>b. b" "\<lambda>_. semantics_ok F types I den \<and> folds_blocks F types bs bs'"
  "\<lambda>env env'. env' = env \<and> entries_hold den (constant_entries (all_instructions bs')) env"
  for I :: "('x, 's) Interp" and bs bs' F types den
proof unfold_locales
  let ?all = "all_instructions bs'"
  fix b xs s t tr and env env' e :: "'x env"
  assume ok: "semantics_ok F types I den \<and> folds_blocks F types bs bs'" and b: "b < length bs"
  have block: "folds_block F types (constant_entries ?all) (bs ! b) (bs' ! b)" and b': "b < length bs'"
    using ok b by (auto simp: folds_blocks_def list_all2_conv_all_nth)
  have dist: "distinct (concat (map result_values ?all))" and disj: "set (parameter_values bs' b) \<inter> set (concat (map result_values ?all)) = {}"
    using ok nth_mem [OF b'] unfolding all_results folds_blocks_def block_definitions_def by (auto simp: disjoint_iff)
  have sub: "set (instructions (bs' ! b)) \<subseteq> set ?all" using nth_mem [OF b'] by (auto simp: all_instructions_def)
  show "b < length bs'" by (rule b')
  assume rel: "env' = env \<and> entries_hold den (constant_entries ?all) env"
  show "\<exists>e'. bind_parameters (parameter_values bs' b) xs env' = Some e' \<and> e' = e \<and> entries_hold den (constant_entries ?all) e"
    if bind: "bind_parameters (parameter_values bs b) xs env = Some e"
  proof -
    have "bind_parameters (parameter_values bs' b) xs env = Some e" using bind block by (simp add: folds_block_def)
    then show ?thesis using entries_hold_parameters [OF disj conjunct2 [OF rel]] rel by simp
  qed
  show "\<exists>e'. exec_instructions I (instructions (bs' ! b)) (env', s) = Some (e', t) \<and> e' = e \<and> entries_hold den (constant_entries ?all) e"
    if "exec_instructions I (instructions (bs ! b)) (env, s) = Some (e, t)"
    using exec_folds_all [OF conjunct1 [OF ok] dist _ sub conjunct2 [OF rel] that] block rel by (simp add: folds_block_def)
  show "exec_terminator I env' (terminator (bs' ! b)) = Some (rename_transfer (\<lambda>b. b) tr) \<and>
      (\<forall>b' xs. tr = Enter b' xs \<longrightarrow> semantics_ok F types I den \<and> folds_blocks F types bs bs')"
    if "exec_terminator I env (terminator (bs ! b)) = Some tr"
    using that block rel ok by (simp add: folds_block_def rename_transfer_def split: Transfer.split)
qed

lemma folds_block_definitions:
  assumes "list_all2 (folds_block F types E) bs bs'"
  shows "block_definitions bs' = block_definitions bs"
proof -
  have results: "map result_values (instructions b') = map result_values (instructions b)" if "folds_block F types E b b'" for b b'
    using that folds_result by (auto simp: folds_block_def list_all2_conv_all_nth result_values_def intro!: nth_equalityI)
  have "map block_results bs' = map block_results bs"
    using assms by (induction rule: list_all2_induct) (simp_all add: block_results_def results)
  moreover have "map (\<lambda>b. map tv_value (block_parameters b)) bs' = map (\<lambda>b. map tv_value (block_parameters b)) bs"
    using assms by (induction rule: list_all2_induct) (simp_all add: folds_block_def)
  ultimately show ?thesis by (simp add: block_definitions_def)
qed

lemma fold_function_preserves:
  assumes "semantics_ok F types I den" "ssa f"
  shows "preserves I f (fst (fold_function F types f stats)) \<and> definitions (fst (fold_function F types f stats)) = definitions f"
proof -
  obtain bs kn stats' where t: "thread (fold_block F types) (blocks f) ([], stats) = (bs, kn, stats')" by (cases "thread (fold_block F types) (blocks f) ([], stats)") auto
  have f: "fst (fold_function F types f stats) = f\<lparr>blocks := bs\<rparr>" by (simp add: fold_function_def t)
  have all2: "list_all2 (folds_block F types (constant_entries (all_instructions bs))) (blocks f) bs"
    using thread_fold_block [OF t] by simp
  note defs = folds_block_definitions [OF all2]
  have dist: "distinct (block_definitions bs)" and disj: "set (map param_value (parameters f)) \<inter> set (concat (map result_values (all_instructions bs))) = {}"
    using assms(2) unfolding ssa_def definitions_def defs [symmetric] all_results distinct_append
    by (simp, unfold block_definitions_def set_append) blast
  have folds: "semantics_ok F types I den \<and> folds_blocks F types (blocks f) bs" using assms(1) all2 dist by (simp add: folds_blocks_def)
  have "run_function I (f\<lparr>blocks := bs\<rparr>) n xs s = Some r" if runs: "run_function I f n xs s = Some r" for n xs s r
  proof -
    obtain e where e: "bind_parameters (map param_value (parameters f)) xs (\<lambda>_. None) = Some e" and run: "run_blocks I (blocks f) n 0 [] (e, s) = Some r"
      using runs by (auto simp: run_function_def bind_eq_Some_conv)
    have "entries_hold den (constant_entries (all_instructions bs)) e"
      by (rule entries_hold_parameters [OF disj _ e]) (simp add: entries_hold_def)
    then have "run_blocks I bs n 0 [] (e, s) = Some r" using folded.simulates [OF folds _ run] by blast
    then show ?thesis using e by (simp add: run_function_def)
  qed
  then show ?thesis by (simp add: f preserves_def definitions_def defs)
qed

text \<open>
  C24. Constant folding is exact: on known operands a unary or binary operation, a comparison and the extension of an
  integer give the constant that the operation yields on mathematical integers, wrapped to the width and signedness
  of the result type, and they are not folded where the operation is undefined (a division by zero, the overflow of a
  quotient of 128 bits, a shift by at least the width).
\<close>

theorem folding_exact:
  "fold_unary F types uop (Some (KnownConstant c ty)) t = reference_unary F types uop t c \<and>
   fold_binary F types op (Some (KnownConstant c ty)) (Some (KnownConstant d ty')) t = reference_binary F types op t c d \<and>
   fold_compare F types p (Some (KnownConstant c ty)) (Some (KnownConstant d ty)) = reference_compare F types p ty c d \<and>
   fold_cast F types IntegerExtend (Some (KnownConstant (IntegerConst v) ty)) t = reference_extend types ty v t"
  by (simp add: fold_unary_reference fold_binary_reference fold_compare_reference fold_cast_reference)

subsection \<open>A machine that computes as specified\<close>

definition reference_pure :: "FloatOps \<Rightarrow> JType list \<Rightarrow> JTypeId \<Rightarrow> unit InstructionKind \<Rightarrow> KnownConstant list \<Rightarrow> KnownConstant option" where
  "reference_pure F types t k cs =
     (case k of
        Constant c \<Rightarrow> Some (KnownConstant c t)
      | Select _ _ _ \<Rightarrow>
          (case cs of
             [KnownConstant (BoolConst b) _, y, z] \<Rightarrow>
               let x = (if b then y else z) in if known_type x = t then Some x else None
           | _ \<Rightarrow> None)
      | _ \<Rightarrow>
          if is_arithmetic_kind k \<and> well_typed types t k (map known_type cs)
          then map_option (\<lambda>c. KnownConstant c t) (reference_constant F types t k cs)
          else None)"

definition reference_machine :: "FloatOps \<Rightarrow> JType list \<Rightarrow> (KnownConstant, unit) Interp" where
  "reference_machine F types =
     \<lparr>pure_sem = reference_pure F types, effect_sem = (\<lambda>_ _ _ _. None),
      truth = (\<lambda>x. case known_value x of BoolConst b \<Rightarrow> Some b | _ \<Rightarrow> None),
      selects = (\<lambda>x v. case known_value x of IntegerConst w \<Rightarrow> Some (w = v) | _ \<Rightarrow> None)\<rparr>"

lemma reference_machine_constants: "constants_ok (reference_machine F types)"
  by (simp add: constants_ok_def reference_machine_def reference_pure_def)

lemma reference_machine_ok: "semantics_ok F types (reference_machine F types) (\<lambda>k. k)"
proof -
  have "well_typed types t k (map known_type cs) \<and> (\<forall>c. reference_constant F types t k cs = Some c \<longrightarrow> x = KnownConstant c t)"
    if "is_arithmetic_kind k" "reference_pure F types t k cs = Some x" for t k cs x
    using that by (cases k) (auto simp: reference_pure_def split: if_splits)
  then show ?thesis
    by (auto simp: semantics_ok_def reference_machine_def) (auto simp: reference_pure_def split: if_splits)
qed

text \<open>For the examples: a machine without floating-point arithmetic.\<close>

definition no_floats :: FloatOps where
  "no_floats = \<lparr>f32_arithmetic = (\<lambda>_ _ _. 0), f64_arithmetic = (\<lambda>_ _ _. 0), f64_negate = (\<lambda>x. x), f64_of_f32 = ucast,
     f32_of_f64 = ucast, f64_is_nan = (\<lambda>_. False), f64_equal = (=), f64_less = (<), f64_less_equal = (\<le>)\<rparr>"

definition example_instruction :: "ValueId \<Rightarrow> JTypeId \<Rightarrow> ValueId InstructionKind \<Rightarrow> Instruction" where
  "example_instruction v ty kind = \<lparr>inst_result = Some \<lparr>tv_value = v, tv_type = ty\<rparr>, inst_kind = kind, inst_span = None\<rparr>"

lemmas run_simps = run_function_def bind_parameters_def exec_terminator_def take_edge_def exec_instruction_def exec_kind_def values_of_def

lemmas reference_simps = reference_machine_def reference_pure_def well_typed_def reference_constant_def reference_binary_def
  reference_compare_def integer_shape_def of_shape_def int_of_def wrap_def integer_op_def

end
