(* ===== verification/Jir_Bounds.thy ===== *)
theory Jir_Bounds
  imports Jir_Fold
begin

text \<open>
  The pass \<open>eliminate_proven_bounds_checks\<close> of \<open>optimize.rs\<close>, which removes the bounds checks whose index and
  length are constants that satisfy them, with the proof that it preserves the meaning of functions.
\<close>

definition integer_results :: "Instruction \<Rightarrow> (ValueId \<times> 128 word) list" where
  "integer_results i =
     (case inst_result i of
        None \<Rightarrow> []
      | Some r \<Rightarrow> (case inst_kind i of Constant (IntegerConst v) \<Rightarrow> [(tv_value r, v)] | _ \<Rightarrow> []))"

definition integer_constants :: "Block list \<Rightarrow> (ValueId \<times> 128 word) list" where
  "integer_constants bs = foldl (\<lambda>m (v, c). bt_insert v c m) [] (concat (map integer_results (all_instructions bs)))"

definition proven_check :: "(ValueId \<times> 128 word) list \<Rightarrow> Instruction \<Rightarrow> bool" where
  "proven_check constants i =
     (case inst_kind i of
        BoundsCheck index len \<Rightarrow>
          (case (bt_get constants index, bt_get constants len) of
             (Some a, Some b) \<Rightarrow> 0 \<le> sint a \<and> 0 < sint b \<and> sint a < sint b
           | _ \<Rightarrow> False)
      | _ \<Rightarrow> False)"

fun retain_unproven :: "(ValueId \<times> 128 word) list \<Rightarrow> Instruction list \<Rightarrow> OptimizationStats \<Rightarrow> Instruction list \<times> OptimizationStats" where
  "retain_unproven constants [] stats = ([], stats)"
| "retain_unproven constants (i # is) stats =
     (if proven_check constants i
      then retain_unproven constants is (stats\<lparr>eliminated_bounds_checks := eliminated_bounds_checks stats + 1\<rparr>)
      else let (is, stats) = retain_unproven constants is stats in (i # is, stats))"

definition eliminate_in_block :: "(ValueId \<times> 128 word) list \<Rightarrow> Block \<Rightarrow> OptimizationStats \<Rightarrow> Block \<times> OptimizationStats" where
  "eliminate_in_block constants b stats =
     (let (is, stats) = retain_unproven constants (instructions b) stats in (b\<lparr>instructions := is\<rparr>, stats))"

definition eliminate_in_function :: "JFunction \<Rightarrow> OptimizationStats \<Rightarrow> JFunction \<times> OptimizationStats" where
  "eliminate_in_function f stats =
     (let (bs, stats) = thread (eliminate_in_block (integer_constants (blocks f))) (blocks f) stats in (f\<lparr>blocks := bs\<rparr>, stats))"

definition eliminate_proven_bounds_checks :: "Module \<Rightarrow> Module \<times> OptimizationStats" where
  "eliminate_proven_bounds_checks m =
     (let (fs, stats) = thread eliminate_in_function (module_functions m) no_stats in (m\<lparr>module_functions := fs\<rparr>, stats))"

text \<open>A check of constants that are in range has no effect, if it has an outcome at all.\<close>

definition checks_ok :: "('x, 's) Interp \<Rightarrow> (KnownConstant \<Rightarrow> 'x) \<Rightarrow> bool" where
  "checks_ok I den \<longleftrightarrow>
     (\<forall>ty a t b u s r. 0 \<le> sint a \<longrightarrow> sint a < sint b \<longrightarrow>
        effect_sem I ty (BoundsCheck () ()) [den (KnownConstant (IntegerConst a) t), den (KnownConstant (IntegerConst b) u)] s = Some r \<longrightarrow>
        r = (None, s))"

lemma retain_filter: "fst (retain_unproven m is stats) = filter (\<lambda>i. \<not> proven_check m i) is"
proof (induction "is" arbitrary: stats)
  case (Cons i "is")
  show ?case
  proof (cases "proven_check m i")
    case True
    then show ?thesis using Cons.IH by simp
  next
    case False
    then show ?thesis using Cons.IH [of stats] by (cases "retain_unproven m is stats") simp
  qed
qed simp

lemma integer_constant_entry:
  assumes "bt_get (integer_constants bs) v = Some w"
  shows "\<exists>t. (v, KnownConstant (IntegerConst w) t) \<in> constant_entries (all_instructions bs)"
proof -
  have "(v, w) \<in> set (integer_constants bs)" using assms by (simp add: bt_get_def map_of_SomeD)
  then have "(v, w) \<in> set (concat (map integer_results (all_instructions bs)))"
    using subsetD [OF set_foldl_bt_insert [of "[]"], of "(v, w)"] unfolding integer_constants_def by (simp del: set_concat)
  then obtain i where i: "i \<in> set (all_instructions bs)" "(v, w) \<in> set (integer_results i)" by auto
  obtain r where "inst_result i = Some r" "inst_kind i = Constant (IntegerConst w)" "tv_value r = v"
  proof (cases "inst_result i")
    case (Some r)
    then show ?thesis using i(2) that
      by (cases "inst_kind i") (auto simp: integer_results_def split: Constant.splits)
  qed (use i(2) in \<open>simp add: integer_results_def\<close>)
  then show ?thesis using i(1) by (auto simp: constant_entries_def)
qed

lemma proven_check_skips:
  assumes "checks_ok I den" "entries_hold den (constant_entries (all_instructions bs)) env" "proven_check (integer_constants bs) i"
    and run: "exec_instruction I i (env, s) = Some (e, t)"
  shows "e = env \<and> t = s"
proof -
  obtain v w a b where i: "inst_kind i = BoundsCheck v w" "bt_get (integer_constants bs) v = Some a" "bt_get (integer_constants bs) w = Some b"
    "0 \<le> sint a" "sint a < sint b"
    using assms(3) by (auto simp: proven_check_def split: InstructionKind.splits option.splits)
  obtain t1 t2 where entries: "(v, KnownConstant (IntegerConst a) t1) \<in> constant_entries (all_instructions bs)"
    "(w, KnownConstant (IntegerConst b) t2) \<in> constant_entries (all_instructions bs)"
    using integer_constant_entry [OF i(2)] integer_constant_entry [OF i(3)] by blast
  let ?ty = "map_option tv_type (inst_result i)"
  obtain r where r: "exec_kind I ?ty (inst_kind i) env s = Some r" using run by (cases "exec_kind I ?ty (inst_kind i) env s") (simp_all add: exec_instruction_def)
  then obtain x y where xy: "env v = Some x" "env w = Some y" "effect_sem I ?ty (BoundsCheck () ()) [x, y] s = Some r"
    using i(1) by (auto simp: exec_kind_def values_of_Cons values_of_Nil split: option.splits)
  have "x = den (KnownConstant (IntegerConst a) t1)" "y = den (KnownConstant (IntegerConst b) t2)"
    using assms(2) entries xy(1,2) unfolding entries_hold_def by blast+
  then have "r = (None, s)" using assms(1) i(4,5) xy(3) unfolding checks_ok_def by blast
  then show ?thesis using run r by (auto simp: exec_instruction_def split: option.splits)
qed

lemma exec_unproven:
  fixes bs :: "Block list"
  defines "all \<equiv> all_instructions bs"
  assumes den: "denotes I den" and ok: "checks_ok I den" and dist: "distinct (concat (map result_values all))"
  shows "set is \<subseteq> set all \<Longrightarrow> entries_hold den (constant_entries all) env \<Longrightarrow> exec_instructions I is (env, s) = Some (e, t) \<Longrightarrow>
    exec_instructions I (filter (\<lambda>i. \<not> proven_check (integer_constants bs) i) is) (env, s) = Some (e, t) \<and> entries_hold den (constant_entries all) e"
proof (induction "is" arbitrary: env s)
  case (Cons i "is")
  obtain e1 s1 where es: "exec_instruction I i (env, s) = Some (e1, s1)" "exec_instructions I is (e1, s1) = Some (e, t)"
    using Cons.prems(3) by (auto simp: bind_eq_Some_conv)
  have hold: "entries_hold den (constant_entries all) e1"
    by (rule entries_hold_instruction [OF den dist _ Cons.prems(2) es(1)]) (use Cons.prems(1) in simp)
  show ?case
  proof (cases "proven_check (integer_constants bs) i")
    case True
    then have "e1 = env \<and> s1 = s" using proven_check_skips [OF ok _ True es(1)] Cons.prems(2) unfolding all_def by blast
    then show ?thesis using Cons.IH [OF _ hold es(2)] Cons.prems(1) True by simp
  next
    case False
    then show ?thesis using Cons.IH [OF _ hold es(2)] Cons.prems(1) es(1) by simp
  qed
qed simp

definition without_proven :: "Block list \<Rightarrow> Block list" where
  "without_proven bs = map (\<lambda>b. b\<lparr>instructions := filter (\<lambda>i. \<not> proven_check (integer_constants bs) i) (instructions b)\<rparr>) bs"

lemma block_parameters_disjoint:
  assumes "distinct (block_definitions bs)" "b < length bs"
  shows "set (parameter_values bs b) \<inter> set (concat (map result_values (all_instructions bs))) = {}"
  using assms(1) nth_mem [OF assms(2)] unfolding all_results block_definitions_def by (auto simp: disjoint_iff)

interpretation bounds: block_simulation I bs "without_proven bs" "\<lambda>b. b"
  "\<lambda>_. denotes I den \<and> checks_ok I den \<and> distinct (block_definitions bs)"
  "\<lambda>env env'. env' = env \<and> entries_hold den (constant_entries (all_instructions bs)) env"
  for I :: "('x, 's) Interp" and bs den
proof unfold_locales
  let ?all = "all_instructions bs"
  fix b xs s t tr and env env' e :: "'x env"
  assume ok: "denotes I den \<and> checks_ok I den \<and> distinct (block_definitions bs)" and b: "b < length bs"
  have dist: "distinct (concat (map result_values ?all))" using ok by (simp add: all_results block_definitions_def)
  have sub: "set (instructions (bs ! b)) \<subseteq> set ?all" using nth_mem [OF b] by (auto simp: all_instructions_def)
  show "b < length (without_proven bs)" using b by (simp add: without_proven_def)
  assume rel: "env' = env \<and> entries_hold den (constant_entries ?all) env"
  show "\<exists>e'. bind_parameters (parameter_values (without_proven bs) b) xs env' = Some e' \<and> e' = e \<and> entries_hold den (constant_entries ?all) e"
    if "bind_parameters (parameter_values bs b) xs env = Some e"
    using entries_hold_parameters [OF block_parameters_disjoint [OF _ b] conjunct2 [OF rel] that] that ok rel b by (simp add: without_proven_def)
  show "\<exists>e'. exec_instructions I (instructions (without_proven bs ! b)) (env', s) = Some (e', t) \<and> e' = e \<and> entries_hold den (constant_entries ?all) e"
    if "exec_instructions I (instructions (bs ! b)) (env, s) = Some (e, t)"
    using exec_unproven [OF _ _ dist sub conjunct2 [OF rel] that] ok rel b by (simp add: without_proven_def)
  show "exec_terminator I env' (terminator (without_proven bs ! b)) = Some (rename_transfer (\<lambda>b. b) tr) \<and>
      (\<forall>b' xs. tr = Enter b' xs \<longrightarrow> denotes I den \<and> checks_ok I den \<and> distinct (block_definitions bs))"
    if "exec_terminator I env (terminator (bs ! b)) = Some tr"
    using that rel ok b by (simp add: without_proven_def rename_transfer_def split: Transfer.split)
qed

lemma eliminate_in_function_blocks: "fst (eliminate_in_function f stats) = f\<lparr>blocks := without_proven (blocks f)\<rparr>"
proof -
  have "fst (thread (eliminate_in_block m) bs st) = map (\<lambda>b. b\<lparr>instructions := filter (\<lambda>i. \<not> proven_check m i) (instructions b)\<rparr>) bs" for m bs st
  proof (induction bs arbitrary: st)
    case (Cons b bs)
    have "fst (eliminate_in_block m b st) = b\<lparr>instructions := filter (\<lambda>i. \<not> proven_check m i) (instructions b)\<rparr>"
      using retain_filter [of m "instructions b" st] by (auto simp: eliminate_in_block_def split: prod.split)
    then show ?case using Cons.IH [of "snd (eliminate_in_block m b st)"] by (auto split: prod.splits)
  qed simp
  from this [of "integer_constants (blocks f)" "blocks f" stats] show ?thesis
    by (auto simp: eliminate_in_function_def without_proven_def split: prod.split)
qed

text \<open>
  C27. The pass \<open>eliminate_proven_bounds_checks\<close> is correct: for every function of the module in SSA form, every run of
  it that returns is a run of the function without the proven checks, with the same value, effects and blocks. The
  meaning of the instructions is any in which a constant denotes a value and a bounds check of an index within the
  length changes nothing.
\<close>

theorem bounds_checks_preserves:
  assumes "denotes I den" "checks_ok I den" "i < length (module_functions m)" "ssa (module_functions m ! i)"
  shows "preserves I (module_functions m ! i) (module_functions (fst (eliminate_proven_bounds_checks m)) ! i)"
proof -
  let ?f = "module_functions m ! i"
  have "module_functions (fst (eliminate_proven_bounds_checks m)) = fst (thread eliminate_in_function (module_functions m) no_stats)"
    by (simp add: eliminate_proven_bounds_checks_def split: prod.split)
  then obtain stats where "module_functions (fst (eliminate_proven_bounds_checks m)) ! i = fst (eliminate_in_function ?f stats)"
    using thread_nth [of eliminate_in_function "module_functions m" no_stats] assms(3) by auto
  note g = this [unfolded eliminate_in_function_blocks]
  have ok: "denotes I den \<and> checks_ok I den \<and> distinct (block_definitions (blocks ?f))"
    using assms by (simp add: ssa_def definitions_def)
  have disj: "set (map param_value (parameters ?f)) \<inter> set (concat (map result_values (all_instructions (blocks ?f)))) = {}"
    using assms(4) unfolding ssa_def definitions_def block_definitions_def all_results distinct_append set_append by blast
  have "run_function I (?f\<lparr>blocks := without_proven (blocks ?f)\<rparr>) n xs s = Some r" if runs: "run_function I ?f n xs s = Some r" for n xs s r
  proof -
    obtain e where e: "bind_parameters (map param_value (parameters ?f)) xs (\<lambda>_. None) = Some e" and run: "run_blocks I (blocks ?f) n 0 [] (e, s) = Some r"
      using runs by (auto simp: run_function_def bind_eq_Some_conv)
    have "entries_hold den (constant_entries (all_instructions (blocks ?f))) e"
      by (rule entries_hold_parameters [OF disj _ e]) (simp add: entries_hold_def)
    then have "run_blocks I (without_proven (blocks ?f)) n 0 [] (e, s) = Some r" using bounds.simulates [OF ok _ run] by blast
    then show ?thesis using e by (simp add: run_function_def)
  qed
  then show ?thesis unfolding g preserves_def by blast
qed

subsection \<open>An example\<close>

definition check_machine :: "JType list \<Rightarrow> (KnownConstant, unit) Interp" where
  "check_machine types = (reference_machine no_floats types)
     \<lparr>effect_sem := (\<lambda>_ k xs s.
        case (k, map known_value xs) of
          (BoundsCheck _ _, [IntegerConst a, IntegerConst b]) \<Rightarrow> if 0 \<le> sint a \<and> sint a < sint b then Some (None, s) else None
        | _ \<Rightarrow> None)\<rparr>"

definition check_function :: "Instruction list \<Rightarrow> JFunction" where
  "check_function checks = \<lparr>fun_id = 0, fun_name = [], linkage = Export, parameters = [], result_type = 0,
     blocks =
       [\<lparr>block_id = 0, block_parameters = [],
         instructions = [example_instruction 0 0 (Constant (IntegerConst 3)), example_instruction 1 0 (Constant (IntegerConst 4))] @ checks,
         terminator = Return (Some 0), block_span = None\<rparr>],
     fun_span = None\<rparr>"

definition check_instruction :: Instruction where
  "check_instruction = \<lparr>inst_result = None, inst_kind = BoundsCheck 0 1, inst_span = None\<rparr>"

lemma check_removed:
  "module_functions (fst (eliminate_proven_bounds_checks \<lparr>module_types = [], module_functions = [check_function [check_instruction]]\<rparr>)) =
     [check_function []]"
  by (simp add: eliminate_proven_bounds_checks_def eliminate_in_function_def eliminate_in_block_def integer_constants_def all_instructions_def
      integer_results_def proven_check_def check_function_def check_instruction_def example_instruction_def bt_get_def)

lemma bounds_checks_preserves_witness:
  "run_function (check_machine []) (check_function []) 1 [] () = Some (Some (KnownConstant (IntegerConst 3) 0), ())"
proof -
  let ?m = "\<lparr>module_types = [], module_functions = [check_function [check_instruction]]\<rparr>"
  have "denotes (check_machine []) (\<lambda>k. k)"
    by (simp add: denotes_def check_machine_def reference_machine_def reference_pure_def)
  moreover have "checks_ok (check_machine []) (\<lambda>k. k)"
    by (auto simp: checks_ok_def check_machine_def)
  moreover have "ssa (check_function [check_instruction])"
    by (simp add: ssa_def definitions_def block_definitions_def block_results_def result_values_def check_function_def check_instruction_def
        example_instruction_def)
  ultimately have "preserves (check_machine []) (module_functions ?m ! 0) (module_functions (fst (eliminate_proven_bounds_checks ?m)) ! 0)"
    by (intro bounds_checks_preserves) simp_all
  moreover have "run_function (check_machine []) (check_function [check_instruction]) 1 [] () = Some (Some (KnownConstant (IntegerConst 3) 0), ())"
    by (simp add: check_function_def check_instruction_def example_instruction_def run_simps reference_simps check_machine_def)
  ultimately show ?thesis unfolding check_removed by (simp add: preserves_def)
qed

end
