(* ===== verification/Jir_Passes.thy ===== *)
theory Jir_Passes
  imports Jir_Bounds
begin

text \<open>
  The passes of \<open>jadren-jir\<close> on a whole module: constant folding and the simplification of the control-flow graph
  preserve the meaning of every function, alone and one after the other as the driver runs them, shown on an example.
\<close>

subsection \<open>An example\<close>

text \<open>
  A function on 8-bit integers: it adds 100 and 100, which wraps around to -56, and returns the sum if it is less
  than 100, and otherwise calls another function.
\<close>

definition example_function :: JFunction where
  "example_function = \<lparr>fun_id = 0, fun_name = [], linkage = Export, parameters = [], result_type = 1,
     blocks =
       [\<lparr>block_id = 0, block_parameters = [],
         instructions =
           [example_instruction 0 1 (Constant (IntegerConst 100)),
            example_instruction 1 1 (Binary Add 0 0),
            example_instruction 2 0 (Compare Less 1 0)],
         terminator = Branch 2 2 [1] 1 [], block_span = None\<rparr>,
        \<lparr>block_id = 1, block_parameters = [], instructions = [example_instruction 3 1 (Call 0 [0])],
         terminator = Return (Some 3), block_span = None\<rparr>,
        \<lparr>block_id = 2, block_parameters = [\<lparr>tv_value = 4, tv_type = 1\<rparr>], instructions = [],
         terminator = Return (Some 4), block_span = None\<rparr>],
     fun_span = None\<rparr>"

definition example_module :: Module where
  "example_module = \<lparr>module_types = [BoolType, IntegerType True 8], module_functions = [example_function]\<rparr>"

lemmas fold_simps = fold_constants_def fold_function_def fold_block_def fold_step_def fold_instruction_def fold_binary_reference
  fold_compare_reference

text \<open>The function after folding, and after the simplification that follows.\<close>

definition example_folded :: JFunction where
  "example_folded = \<lparr>fun_id = 0, fun_name = [], linkage = Export, parameters = [], result_type = 1,
     blocks =
       [\<lparr>block_id = 0, block_parameters = [],
         instructions =
           [example_instruction 0 1 (Constant (IntegerConst 100)),
            example_instruction 1 1 (Constant (IntegerConst (- 56))),
            example_instruction 2 0 (Constant (BoolConst True))],
         terminator = Branch 2 2 [1] 1 [], block_span = None\<rparr>,
        \<lparr>block_id = 1, block_parameters = [], instructions = [example_instruction 3 1 (Call 0 [0])],
         terminator = Return (Some 3), block_span = None\<rparr>,
        \<lparr>block_id = 2, block_parameters = [\<lparr>tv_value = 4, tv_type = 1\<rparr>], instructions = [],
         terminator = Return (Some 4), block_span = None\<rparr>],
     fun_span = None\<rparr>"

definition example_simplified :: JFunction where
  "example_simplified = \<lparr>fun_id = 0, fun_name = [], linkage = Export, parameters = [], result_type = 1,
     blocks =
       [\<lparr>block_id = 0, block_parameters = [], instructions = [example_instruction 1 1 (Constant (IntegerConst (- 56)))],
         terminator = Jump 1 [1], block_span = None\<rparr>,
        \<lparr>block_id = 1, block_parameters = [\<lparr>tv_value = 0, tv_type = 1\<rparr>], instructions = [],
         terminator = Return (Some 0), block_span = None\<rparr>],
     fun_span = None\<rparr>"

lemmas simplify_simps = simplify_cfg_and_dce_def simplify_function_def simplify_constant_terminators_def constants_of_def constant_results_def
  simplified_terminator_def bt_get_def remap_def prune_unreachable_blocks_def prune_blocks_def renumber_block_def

lemmas dead_simps = drop_dead_def is_dead_def all_operands_def instruction_count_def is_pure_scalar_def eliminate_dead_instructions_def renumber_values_def
  renumber_parameter_def renumber_typed_def renumber_block_parameters_def renumber_result_def renumber_results_def remap_block_def fresh_def

lemma example_ssa: "ssa example_function"
  by (simp add: ssa_def definitions_def block_definitions_def block_results_def result_values_def example_function_def example_instruction_def)

lemma example_runs:
  "run_function (reference_machine no_floats [BoolType, IntegerType True 8]) example_function 2 [] () =
     Some (Some (KnownConstant (IntegerConst (- 56)) 1), ())"
  by (simp add: example_function_def example_instruction_def run_simps numeral_2_eq_2 reference_simps)

lemma example_fold: "fst (fold_constants no_floats example_module) = example_module\<lparr>module_functions := [example_folded]\<rparr>"
  by (simp add: example_module_def example_function_def example_instruction_def example_folded_def fold_simps bt_get_def all_instructions_def reference_simps)

lemma example_simplify: "module_functions (fst (simplify_cfg_and_dce (example_module\<lparr>module_functions := [example_folded]\<rparr>))) = [example_simplified]"
  by (simp add: example_folded_def example_simplified_def example_instruction_def simplify_simps dead_simps eliminate_dead.simps no_stats_def)

lemma folded_ssa: "ssa example_folded"
  by (simp add: ssa_def definitions_def block_definitions_def block_results_def result_values_def example_folded_def example_instruction_def)

lemma folded_runs:
  "run_function (reference_machine no_floats [BoolType, IntegerType True 8]) example_folded 2 [] () =
     Some (Some (KnownConstant (IntegerConst (- 56)) 1), ())"
  by (simp add: example_folded_def example_instruction_def run_simps numeral_2_eq_2 reference_simps)

subsection \<open>The passes\<close>

lemma fold_module_nth:
  assumes "i < length (module_functions m)"
  shows "\<exists>stats. module_functions (fst (fold_constants F m)) ! i = fst (fold_function F (module_types m) (module_functions m ! i) stats)"
proof -
  have "module_functions (fst (fold_constants F m)) = fst (thread (fold_function F (module_types m)) (module_functions m) no_stats)"
    by (simp add: fold_constants_def split: prod.split)
  then show ?thesis using thread_nth [of "fold_function F (module_types m)" "module_functions m" no_stats] assms by auto
qed

lemma simplify_module_nth:
  assumes "i < length (module_functions m)"
  shows "\<exists>stats. module_functions (fst (simplify_cfg_and_dce m)) ! i = fst (simplify_function (module_functions m ! i) stats)"
proof -
  have "module_functions (fst (simplify_cfg_and_dce m)) = fst (thread simplify_function (module_functions m) no_stats)"
    by (simp add: simplify_cfg_and_dce_def split: prod.split)
  then show ?thesis using thread_nth [of simplify_function "module_functions m" no_stats] assms by auto
qed

text \<open>
  C23. The pass \<open>fold_constants\<close> is correct: for every function of the module in SSA form, every run of it that
  returns is a run of its folded version, with the same value, the same effects and the same blocks, and the values
  it defines are the same. The meaning of the instructions is any that computes as they are specified.
\<close>

theorem fold_constants_preserves:
  assumes "semantics_ok F (module_types m) I den" "i < length (module_functions m)" "ssa (module_functions m ! i)"
  shows "preserves I (module_functions m ! i) (module_functions (fst (fold_constants F m)) ! i) \<and>
    definitions (module_functions (fst (fold_constants F m)) ! i) = definitions (module_functions m ! i)"
proof -
  obtain stats where "module_functions (fst (fold_constants F m)) ! i = fst (fold_function F (module_types m) (module_functions m ! i) stats)"
    using fold_module_nth [OF assms(2)] by blast
  then show ?thesis using fold_function_preserves [OF assms(1,3)] by simp
qed

lemma fold_constants_preserves_witness:
  "run_function (reference_machine no_floats [BoolType, IntegerType True 8]) example_folded 2 [] () =
     Some (Some (KnownConstant (IntegerConst (- 56)) 1), ())"
proof -
  have "preserves (reference_machine no_floats (module_types example_module)) (module_functions example_module ! 0)
      (module_functions (fst (fold_constants no_floats example_module)) ! 0)"
    by (rule fold_constants_preserves [OF reference_machine_ok, THEN conjunct1]) (simp_all add: example_module_def example_ssa)
  then show ?thesis
    unfolding example_fold using example_runs by (simp add: preserves_def example_module_def)
qed

text \<open>
  C22. The pass \<open>simplify_cfg_and_dce\<close> is correct: for every function of the module in SSA form, every run of it that
  returns is a run of its simplified version, with the same value, the same effects and no more blocks entered, and the
  simplified version is again in SSA form. The meaning of the instructions is arbitrary, but that branches on Boolean
  and switches on integer constants go where the constants say.
\<close>

theorem simplify_preserves:
  assumes "constants_ok I" "i < length (module_functions m)" "ssa (module_functions m ! i)"
  shows "preserves I (module_functions m ! i) (module_functions (fst (simplify_cfg_and_dce m)) ! i) \<and>
    ssa (module_functions (fst (simplify_cfg_and_dce m)) ! i)"
proof -
  obtain stats where "module_functions (fst (simplify_cfg_and_dce m)) ! i = fst (simplify_function (module_functions m ! i) stats)"
    using simplify_module_nth [OF assms(2)] by blast
  then show ?thesis using simplify_function_preserves [OF assms(3,1)] by simp
qed

lemma simplify_preserves_witness:
  "run_function (reference_machine no_floats [BoolType, IntegerType True 8]) example_simplified 2 [] () =
     Some (Some (KnownConstant (IntegerConst (- 56)) 1), ())"
proof -
  let ?m = "example_module\<lparr>module_functions := [example_folded]\<rparr>"
  have "preserves (reference_machine no_floats [BoolType, IntegerType True 8]) (module_functions ?m ! 0)
      (module_functions (fst (simplify_cfg_and_dce ?m)) ! 0)"
    by (rule simplify_preserves [OF reference_machine_constants, THEN conjunct1]) (simp_all add: folded_ssa)
  then show ?thesis using folded_runs unfolding example_simplify by (simp add: preserves_def)
qed

text \<open>The two passes one after the other, which is how the driver starts the optimisation of a release build.\<close>

lemma fold_simplify_preserves:
  assumes "semantics_ok F (module_types m) I den" "constants_ok I" "i < length (module_functions m)" "ssa (module_functions m ! i)"
  shows "preserves I (module_functions m ! i) (module_functions (fst (simplify_cfg_and_dce (fst (fold_constants F m)))) ! i)"
proof -
  let ?m = "fst (fold_constants F m)"
  note f = fold_function_preserves [OF assms(1)]
  have len: "length (module_functions ?m) = length (module_functions m)"
    using thread_nth [of "fold_function F (module_types m)" "module_functions m" no_stats] by (auto simp: fold_constants_def split: prod.split)
  obtain stats where "module_functions ?m ! i = fst (fold_function F (module_types m) (module_functions m ! i) stats)"
    using fold_module_nth [OF assms(3)] by blast
  then have p: "preserves I (module_functions m ! i) (module_functions ?m ! i)" "ssa (module_functions ?m ! i)"
    using f [OF assms(4), of stats] assms(4) by (simp_all add: ssa_def)
  obtain stats' where "module_functions (fst (simplify_cfg_and_dce ?m)) ! i = fst (simplify_function (module_functions ?m ! i) stats')"
    using simplify_module_nth len assms(3) by metis
  then have "preserves I (module_functions ?m ! i) (module_functions (fst (simplify_cfg_and_dce ?m)) ! i)"
    using simplify_function_preserves [OF p(2) assms(2), of stats'] by simp
  then show ?thesis by (rule preserves_trans [OF p(1)])
qed

subsection \<open>Dense values\<close>

text \<open>
  After the pass \<open>simplify_cfg_and_dce\<close> the values of a function in SSA form are numbered densely in the order
  parameters, block parameters, results, whenever an instruction has been removed from this function or from an
  earlier one of the module.
\<close>

theorem simplify_dense:
  assumes "ssa f" "removed_instructions (snd (simplify_function f stats)) \<noteq> 0"
  shows "definitions (fst (simplify_function f stats)) = [0..<length (definitions (fst (simplify_function f stats)))]"
  by (rule simplify_function_dense [OF assms])

lemma simplify_dense_witness:
  "definitions (fst (simplify_function example_folded no_stats)) = [0, 1]"
proof -
  have "module_functions (fst (simplify_cfg_and_dce (example_module\<lparr>module_functions := [example_folded]\<rparr>))) = [fst (simplify_function example_folded no_stats)]"
    by (simp add: simplify_cfg_and_dce_def split: prod.split)
  then have s: "fst (simplify_function example_folded no_stats) = example_simplified" unfolding example_simplify by simp
  have "removed_instructions (snd (simplify_function example_folded no_stats)) = 2"
    by (simp add: example_folded_def example_instruction_def simplify_simps dead_simps eliminate_dead.simps no_stats_def)
  then have "definitions (fst (simplify_function example_folded no_stats)) = [0..<length (definitions (fst (simplify_function example_folded no_stats)))]"
    by (intro simplify_dense folded_ssa) simp
  moreover have "length (definitions example_simplified) = 2"
    by (simp add: definitions_def block_definitions_def block_results_def result_values_def example_simplified_def example_instruction_def)
  ultimately show ?thesis unfolding s by (simp add: upt_rec numeral_2_eq_2)
qed

text \<open>
  Without a removed instruction the values are not renumbered, also when blocks have been pruned: a function whose
  constant condition is used elsewhere keeps a gap in its values, which the verifier of the source rejects.
\<close>

definition gap_function :: JFunction where
  "gap_function = \<lparr>fun_id = 0, fun_name = [], linkage = Export, parameters = [], result_type = 0,
     blocks =
       [\<lparr>block_id = 0, block_parameters = [], instructions = [example_instruction 0 0 (Constant (BoolConst False))],
         terminator = Branch 0 1 [] 2 [], block_span = None\<rparr>,
        \<lparr>block_id = 1, block_parameters = [], instructions = [example_instruction 1 0 (Call 0 [])],
         terminator = Return (Some 1), block_span = None\<rparr>,
        \<lparr>block_id = 2, block_parameters = [], instructions = [example_instruction 2 0 (Call 0 [])],
         terminator = Branch 2 3 [] 3 [], block_span = None\<rparr>,
        \<lparr>block_id = 3, block_parameters = [], instructions = [], terminator = Return (Some 0), block_span = None\<rparr>],
     fun_span = None\<rparr>"

lemma simplify_leaves_gap:
  "definitions gap_function = [0, 1, 2] \<and> definitions (fst (simplify_function gap_function no_stats)) = [0, 2]"
  by (simp add: gap_function_def example_instruction_def simplify_simps dead_simps eliminate_dead.simps no_stats_def
      definitions_def block_definitions_def block_results_def result_values_def)

end
