(* ===== verification/Jir_Dominators.thy ===== *)
theory Jir_Dominators
  imports Jir_Simplify
begin

text \<open>
  Dominators, computed twice in \<open>jadren-jir\<close>: for the verifier and for the discovery of loops in \<open>optimize.rs\<close>. Both
  iterate until nothing changes; both return the blocks that lie on every path.
\<close>

subsection \<open>Predecessors\<close>

fun add_predecessors :: "nat list list \<Rightarrow> BlockId \<Rightarrow> BlockId list \<Rightarrow> nat list list" where
  "add_predecessors preds source [] = preds"
| "add_predecessors preds source (t # ts) =
     add_predecessors (if t < length preds then preds[t := preds ! t @ [source]] else preds) source ts"

fun predecessors_from :: "nat list list \<Rightarrow> nat \<Rightarrow> Block list \<Rightarrow> nat list list" where
  "predecessors_from preds source [] = preds"
| "predecessors_from preds source (b # bs) =
     predecessors_from (add_predecessors preds source (terminator_targets (terminator b))) (Suc source) bs"

definition predecessors :: "Block list \<Rightarrow> nat list list" where
  "predecessors bs = predecessors_from (replicate (length bs) []) 0 bs"

subsection \<open>The iteration\<close>

definition next_dominators :: "nat list list \<Rightarrow> nat set list \<Rightarrow> nat \<Rightarrow> nat set" where
  "next_dominators preds doms block =
     insert block
       (if preds ! block = [] then {}
        else foldl (\<lambda>next p. next \<inter> doms ! p) {0..<length preds} (preds ! block))"

definition sweep_block :: "nat list list \<Rightarrow> nat \<Rightarrow> nat set list \<times> bool \<Rightarrow> nat set list \<times> bool" where
  "sweep_block preds block st =
     (let (doms, changed) = st; next_doms = next_dominators preds doms block in
      if next_doms \<noteq> doms ! block then (doms[block := next_doms], True) else (doms, changed))"

definition sweep :: "nat list list \<Rightarrow> nat set list \<Rightarrow> nat set list \<times> bool" where
  "sweep preds doms = foldl (\<lambda>st block. sweep_block preds block st) (doms, False) [1..<length preds]"

partial_function (option) iterate :: "nat list list \<Rightarrow> nat set list \<Rightarrow> nat set list option" where
  "iterate preds doms =
     (let (doms, changed) = sweep preds doms in if changed then iterate preds doms else Some doms)"

definition compute_dominators :: "nat list list \<Rightarrow> nat set list option" where
  "compute_dominators preds =
     (let doms = replicate (length preds) {0..<length preds} in
      iterate preds (if doms = [] then doms else doms[0 := {0}]))"

text \<open>The verifier starts the intersection with the first predecessor.\<close>

definition verifier_next_dominators :: "nat list list \<Rightarrow> nat set list \<Rightarrow> nat \<Rightarrow> nat set" where
  "verifier_next_dominators preds doms block =
     insert block (case preds ! block of [] \<Rightarrow> {} | first # rest \<Rightarrow> foldl (\<lambda>current p. current \<inter> doms ! p) (doms ! first) rest)"

definition verifier_sweep_block :: "nat list list \<Rightarrow> nat \<Rightarrow> nat set list \<times> bool \<Rightarrow> nat set list \<times> bool" where
  "verifier_sweep_block preds block st =
     (let (doms, changed) = st; next_doms = verifier_next_dominators preds doms block in
      if next_doms \<noteq> doms ! block then (doms[block := next_doms], True) else (doms, changed))"

partial_function (option) verifier_iterate :: "nat list list \<Rightarrow> nat set list \<Rightarrow> nat set list option" where
  "verifier_iterate preds doms =
     (let (doms, changed) = foldl (\<lambda>st block. verifier_sweep_block preds block st) (doms, False) [1..<length preds] in
      if changed then verifier_iterate preds doms else Some doms)"

definition dominators :: "nat \<Rightarrow> nat list list \<Rightarrow> nat set list option" where
  "dominators block_count preds =
     (if block_count = 0 then Some []
      else verifier_iterate preds ((replicate block_count {0..<block_count})[0 := {0}]))"

subsection \<open>Paths\<close>

text \<open>
  A root is a block that the iteration does not derive from others: the entry, and any block without predecessors.
  A rooted path starts in a root and follows edges.
\<close>

definition is_root :: "nat list list \<Rightarrow> nat \<Rightarrow> bool" where
  "is_root preds b \<longleftrightarrow> b < length preds \<and> (b = 0 \<or> preds ! b = [])"

inductive path_to :: "nat list list \<Rightarrow> nat list \<Rightarrow> nat \<Rightarrow> bool" for preds where
  root: "is_root preds r \<Longrightarrow> path_to preds [r] r"
| step: "path_to preds p a \<Longrightarrow> b < length preds \<Longrightarrow> a \<in> set (preds ! b) \<Longrightarrow> path_to preds (p @ [b]) b"

inductive_cases path_toE: "path_to preds p b"

definition path_dominators :: "nat list list \<Rightarrow> nat \<Rightarrow> nat set" where
  "path_dominators preds b = {d. d < length preds \<and> (\<forall>p. path_to preds p b \<longrightarrow> d \<in> set p)}"

definition preds_ok :: "nat list list \<Rightarrow> bool" where
  "preds_ok preds \<longleftrightarrow> (\<forall>ps \<in> set preds. \<forall>p \<in> set ps. p < length preds)"

text \<open>The transfer function, and what every state of the iteration satisfies.\<close>

definition transfer :: "nat list list \<Rightarrow> nat set list \<Rightarrow> nat \<Rightarrow> nat set" where
  "transfer preds doms b = insert b (if preds ! b = [] then {} else (\<Inter>p \<in> set (preds ! b). doms ! p))"

definition dom_state :: "nat list list \<Rightarrow> nat set list \<Rightarrow> bool" where
  "dom_state preds doms \<longleftrightarrow>
     length doms = length preds \<and> (preds \<noteq> [] \<longrightarrow> doms ! 0 = {0}) \<and>
     (\<forall>b < length preds. doms ! b \<subseteq> {0..<length preds} \<and> path_dominators preds b \<subseteq> doms ! b) \<and>
     (\<forall>b < length preds. 0 < b \<longrightarrow> transfer preds doms b \<subseteq> doms ! b)"

lemma foldl_inter: "foldl (\<lambda>A p. A \<inter> f p) S ps = S \<inter> (\<Inter>p \<in> set ps. f p)"
  by (induction ps arbitrary: S) auto

lemma next_transfer:
  assumes "preds_ok preds" "dom_state preds doms" "b < length preds"
  shows "next_dominators preds doms b = transfer preds doms b" "verifier_next_dominators preds doms b = transfer preds doms b"
proof -
  have "doms ! p \<subseteq> {0..<length preds}" if "p \<in> set (preds ! b)" for p
    using assms that nth_mem [OF assms(3)] unfolding preds_ok_def dom_state_def by blast
  then show "next_dominators preds doms b = transfer preds doms b"
    by (cases "preds ! b") (auto simp: next_dominators_def transfer_def foldl_inter)
  show "verifier_next_dominators preds doms b = transfer preds doms b"
    by (cases "preds ! b") (auto simp: verifier_next_dominators_def transfer_def foldl_inter)
qed

lemma sweep_block_same:
  "preds_ok preds \<Longrightarrow> dom_state preds (fst st) \<Longrightarrow> b < length preds \<Longrightarrow> verifier_sweep_block preds b st = sweep_block preds b st"
  by (cases st) (simp add: sweep_block_def verifier_sweep_block_def next_transfer)

lemma path_dominators_step:
  assumes "b < length preds"
  shows "path_dominators preds b \<subseteq> insert b (if preds ! b = [] then {} else (\<Inter>p \<in> set (preds ! b). path_dominators preds p))"
proof (cases "preds ! b = []")
  case True
  then have "path_to preds [b] b" using assms by (intro path_to.root) (simp add: is_root_def)
  then show ?thesis using True by (auto simp: path_dominators_def)
next
  case False
  have "d \<in> path_dominators preds a" if "d \<in> path_dominators preds b" "d \<noteq> b" "a \<in> set (preds ! b)" for d a
    using that path_to.step [OF _ assms that(3)] by (fastforce simp: path_dominators_def)
  then show ?thesis using False by auto
qed

lemma dom_state_update:
  assumes ok: "preds_ok preds" and st: "dom_state preds doms" and b: "0 < b" "b < length preds"
  shows "dom_state preds (doms[b := transfer preds doms b])"
proof -
  let ?doms = "doms[b := transfer preds doms b]"
  have len: "length doms = length preds" and zero: "doms ! 0 = {0}"
    and range: "\<And>c. c < length preds \<Longrightarrow> doms ! c \<subseteq> {0..<length preds}"
    and above: "\<And>c. c < length preds \<Longrightarrow> path_dominators preds c \<subseteq> doms ! c"
    and decr: "\<And>c. c < length preds \<Longrightarrow> 0 < c \<Longrightarrow> transfer preds doms c \<subseteq> doms ! c"
    using st b unfolding dom_state_def by auto
  have below: "?doms ! c \<subseteq> doms ! c" if "c < length preds" for c
    using that decr b len by (cases "c = b") auto
  have mono: "transfer preds ?doms c \<subseteq> transfer preds doms c" if "c < length preds" for c
  proof -
    have "p < length preds" if "p \<in> set (preds ! c)" for p using ok that nth_mem [OF \<open>c < length preds\<close>] unfolding preds_ok_def by blast
    then have "(\<Inter>p \<in> set (preds ! c). ?doms ! p) \<subseteq> (\<Inter>p \<in> set (preds ! c). doms ! p)" using below by (intro INT_anti_mono order.refl) blast
    then show ?thesis unfolding transfer_def by (auto split: if_splits)
  qed
  have "path_dominators preds b \<subseteq> transfer preds doms b"
  proof -
    have "path_dominators preds p \<subseteq> doms ! p" if "p \<in> set (preds ! b)" for p
      using ok that above nth_mem [OF b(2)] unfolding preds_ok_def by blast
    then show ?thesis using path_dominators_step [OF b(2)] unfolding transfer_def by (auto split: if_splits)
  qed
  then have "path_dominators preds c \<subseteq> ?doms ! c" if "c < length preds" for c
    using that above len by (cases "c = b") auto
  moreover have "transfer preds ?doms c \<subseteq> ?doms ! c" if "c < length preds" "0 < c" for c
    using mono [OF that(1)] decr [OF that] that len by (cases "c = b") auto
  moreover have "?doms ! c \<subseteq> {0..<length preds}" if "c < length preds" for c using below range that by blast
  ultimately show ?thesis using len zero b unfolding dom_state_def by simp
qed

subsection \<open>The iteration returns the dominators\<close>

definition weight :: "nat set list \<Rightarrow> nat" where
  "weight doms = (\<Sum>b < length doms. card (doms ! b))"

lemma weight_decreases:
  assumes "dom_state preds doms" "b < length preds" "A \<subset> doms ! b"
  shows "weight (doms[b := A]) < weight doms"
proof -
  have len: "b < length doms" and fin: "finite (doms ! b)"
    using assms(1,2) finite_subset [of "doms ! b" "{0..<length preds}"] unfolding dom_state_def by auto
  have less: "card A < card (doms ! b)" by (rule psubset_card_mono [OF fin assms(3)])
  show ?thesis unfolding weight_def length_list_update
  proof (rule sum_strict_mono_ex1)
    show "\<forall>c \<in> {..<length doms}. card (doms[b := A] ! c) \<le> card (doms ! c)" using less len by (auto simp: nth_list_update)
    show "\<exists>c \<in> {..<length doms}. card (doms[b := A] ! c) < card (doms ! c)" using less len by (intro bexI [of _ b]) simp_all
  qed simp
qed

lemma sweep_blocks:
  assumes "preds_ok preds"
  shows "set bs \<subseteq> {1..<length preds} \<Longrightarrow> dom_state preds doms \<Longrightarrow>
    foldl (\<lambda>st b. sweep_block preds b st) (doms, chg) bs = (doms', chg') \<Longrightarrow>
    dom_state preds doms' \<and> foldl (\<lambda>st b. verifier_sweep_block preds b st) (doms, chg) bs = (doms', chg') \<and>
    weight doms' \<le> weight doms \<and> (chg' \<longrightarrow> chg \<or> weight doms' < weight doms) \<and>
    (\<not> chg' \<longrightarrow> \<not> chg \<and> doms' = doms \<and> (\<forall>b \<in> set bs. doms ! b = transfer preds doms b))"
proof (induction bs arbitrary: doms chg)
  case (Cons b bs)
  have b: "0 < b" "b < length preds" and bs: "set bs \<subseteq> {1..<length preds}" using Cons.prems(1) by auto
  define A where "A = transfer preds doms b"
  have A: "next_dominators preds doms b = A" using next_transfer(1) [OF assms Cons.prems(2) b(2)] by (simp add: A_def)
  have same: "verifier_sweep_block preds b (doms, chg) = sweep_block preds b (doms, chg)"
    using sweep_block_same [OF assms _ b(2)] Cons.prems(2) by simp
  show ?case
  proof (cases "A = doms ! b")
    case True
    then have step: "sweep_block preds b (doms, chg) = (doms, chg)" by (simp add: sweep_block_def A)
    have "foldl (\<lambda>st b. sweep_block preds b st) (doms, chg) bs = (doms', chg')" using Cons.prems(3) step by simp
    from Cons.IH [OF bs Cons.prems(2) this] show ?thesis using True same step by (cases chg') (auto simp: A_def)
  next
    case False
    have "A \<subseteq> doms ! b" using Cons.prems(2) b unfolding dom_state_def A_def by blast
    then have w: "weight (doms[b := A]) < weight doms" using weight_decreases [OF Cons.prems(2) b(2)] False by blast
    have st: "dom_state preds (doms[b := A])" unfolding A_def by (rule dom_state_update [OF assms Cons.prems(2) b])
    have step: "sweep_block preds b (doms, chg) = (doms[b := A], True)" using False by (simp add: sweep_block_def A)
    have "foldl (\<lambda>st b. sweep_block preds b st) (doms[b := A], True) bs = (doms', chg')" using Cons.prems(3) step by simp
    from Cons.IH [OF bs st this] show ?thesis using w same step by (cases chg') simp_all
  qed
qed simp

lemma iterate_returns:
  assumes ok: "preds_ok preds"
  shows "dom_state preds doms \<Longrightarrow> \<exists>doms'. iterate preds doms = Some doms' \<and> verifier_iterate preds doms = Some doms' \<and> dom_state preds doms' \<and>
    (\<forall>b < length preds. 0 < b \<longrightarrow> doms' ! b = transfer preds doms' b)"
proof (induction "weight doms" arbitrary: doms rule: less_induct)
  case less
  obtain doms1 chg where s: "foldl (\<lambda>st b. sweep_block preds b st) (doms, False) [1..<length preds] = (doms1, chg)"
    by (cases "foldl (\<lambda>st b. sweep_block preds b st) (doms, False) [1..<length preds]")
  have "set [1..<length preds] \<subseteq> {1..<length preds}" by simp
  note r = sweep_blocks [OF ok this less.prems s]
  have e: "iterate preds doms = (if chg then iterate preds doms1 else Some doms1)"
    by (subst iterate.simps) (unfold sweep_def s, simp)
  have e': "verifier_iterate preds doms = (if chg then verifier_iterate preds doms1 else Some doms1)"
    by (subst verifier_iterate.simps) (unfold r [THEN conjunct2, THEN conjunct1], simp)
  show ?case
  proof (cases chg)
    case True
    then have "weight doms1 < weight doms" "dom_state preds doms1" using r by simp_all
    from less.hyps [OF this] show ?thesis using True by (simp add: e e')
  next
    case False
    then have "doms1 = doms" "\<forall>b \<in> set [1..<length preds]. doms ! b = transfer preds doms b" using r by blast+
    then show ?thesis using False less.prems by (simp add: e e')
  qed
qed

lemma fixpoint_dominators:
  assumes st: "dom_state preds doms" and stable: "\<forall>b < length preds. 0 < b \<longrightarrow> doms ! b = transfer preds doms b"
    and b: "b < length preds"
  shows "doms ! b = path_dominators preds b"
proof -
  have "d \<in> set p" if "path_to preds p c" "d \<in> doms ! c" for d p c
    using that
  proof (induction rule: path_to.induct)
    case (root r)
    show ?case
    proof (cases "r = 0")
      case True
      then show ?thesis using root st by (auto simp: is_root_def dom_state_def)
    next
      case False
      then have "doms ! r = transfer preds doms r" using root(1) stable by (simp add: is_root_def)
      then show ?thesis using root False by (simp add: is_root_def transfer_def)
    qed
  next
    case (step p a c)
    show ?case
    proof (cases "c = 0")
      case True
      then show ?thesis using step.prems step.hyps(2) st by (auto simp: dom_state_def)
    next
      case False
      then have "doms ! c = transfer preds doms c" using step.hyps(2) stable by simp
      then have "d = c \<or> d \<in> doms ! a" using step.prems step.hyps(3) by (auto simp: transfer_def split: if_splits)
      then show ?thesis using step.IH by auto
    qed
  qed
  then have "doms ! b \<subseteq> {d. d < length preds \<and> (\<forall>p. path_to preds p b \<longrightarrow> d \<in> set p)}"
    using st b unfolding dom_state_def by fastforce
  then have "doms ! b \<subseteq> path_dominators preds b" by (simp only: path_dominators_def)
  moreover have "path_dominators preds b \<subseteq> doms ! b" using st b unfolding dom_state_def by blast
  ultimately show ?thesis by blast
qed

lemma dominators_of_preds:
  assumes "preds_ok preds"
  shows "\<exists>doms. compute_dominators preds = Some doms \<and> dominators (length preds) preds = Some doms \<and> length doms = length preds \<and>
    (\<forall>b < length preds. doms ! b = path_dominators preds b)"
proof (cases "preds = []")
  case True
  then show ?thesis by (simp add: compute_dominators_def dominators_def iterate.simps sweep_def)
next
  case False
  let ?doms = "(replicate (length preds) {0..<length preds})[0 := {0}]"
  have zero: "path_dominators preds 0 \<subseteq> {0}"
    using path_to.root [of preds 0] False by (auto simp: path_dominators_def is_root_def)
  have "transfer preds ?doms b \<subseteq> {0..<length preds}" if "b < length preds" for b
  proof -
    have "?doms ! p \<subseteq> {0..<length preds}" if "p \<in> set (preds ! b)" for p
      using assms that nth_mem [OF \<open>b < length preds\<close>] False unfolding preds_ok_def by (auto simp: nth_list_update split: if_splits)
    then have "preds ! b \<noteq> [] \<Longrightarrow> (\<Inter>p \<in> set (preds ! b). ?doms ! p) \<subseteq> {0..<length preds}" by (meson INF_lower2 hd_in_set)
    then show ?thesis using that by (simp add: transfer_def)
  qed
  then have "dom_state preds ?doms"
    using zero False unfolding dom_state_def by (auto simp: nth_list_update path_dominators_def)
  then obtain doms where d: "iterate preds ?doms = Some doms" "verifier_iterate preds ?doms = Some doms" "dom_state preds doms"
    "\<forall>b < length preds. 0 < b \<longrightarrow> doms ! b = transfer preds doms b"
    using iterate_returns [OF assms] by blast
  then show ?thesis using False fixpoint_dominators [OF d(3,4)] by (auto simp: compute_dominators_def dominators_def dom_state_def)
qed

lemma length_add_predecessors [simp]: "length (add_predecessors preds a ts) = length preds"
  by (induction preds a ts rule: add_predecessors.induct) auto

lemma add_predecessors_set:
  "b < length preds \<Longrightarrow> set (add_predecessors preds a ts ! b) = set (preds ! b) \<union> (if b \<in> set ts then {a} else {})"
  by (induction preds a ts rule: add_predecessors.induct) (auto simp: nth_list_update)

lemma length_predecessors_from [simp]: "length (predecessors_from preds a bs) = length preds"
  by (induction preds a bs rule: predecessors_from.induct) auto

lemma predecessors_from_set:
  "b < length preds \<Longrightarrow> set (predecessors_from preds a bs ! b) =
     set (preds ! b) \<union> {a + k | k. k < length bs \<and> b \<in> set (terminator_targets (terminator (bs ! k)))}"
proof (induction preds a bs rule: predecessors_from.induct)
  case (2 preds a c bs)
  have "{a + k | k. k < length (c # bs) \<and> b \<in> set (terminator_targets (terminator ((c # bs) ! k)))} =
      (if b \<in> set (terminator_targets (terminator c)) then {a} else {}) \<union>
      {Suc a + k | k. k < length bs \<and> b \<in> set (terminator_targets (terminator (bs ! k)))}" (is "?L = ?R")
  proof
    show "?L \<subseteq> ?R"
    proof
      fix x assume "x \<in> ?L"
      then obtain k where k: "x = a + k" "k < length (c # bs)" "b \<in> set (terminator_targets (terminator ((c # bs) ! k)))" by blast
      then show "x \<in> ?R" by (cases k) auto
    qed
    show "?R \<subseteq> ?L" by (force split: if_splits)
  qed
  then show ?case using 2 by (auto simp: add_predecessors_set)
qed simp

lemma length_predecessors [simp]: "length (predecessors bs) = length bs"
  by (simp add: predecessors_def)

lemma predecessors_edges: "b < length bs \<Longrightarrow> a \<in> set (predecessors bs ! b) \<longleftrightarrow> (a, b) \<in> edges bs"
  by (auto simp: predecessors_def predecessors_from_set edges_def)

lemma predecessors_ok: "preds_ok (predecessors bs)"
proof -
  have "a < length bs" if "b < length bs" "a \<in> set (predecessors bs ! b)" for a b
    using that by (simp add: predecessors_edges) (simp add: edges_def)
  then show ?thesis by (auto simp: preds_ok_def in_set_conv_nth) (metis in_set_conv_nth length_predecessors)
qed

text \<open>
  C25. Both computations of dominators return, with the same result: block \<open>d\<close> is in the set of block \<open>b\<close> exactly if it
  lies on every path to \<open>b\<close> that starts in a root, that is in the entry or in a block without predecessors.
\<close>

theorem dominators_correct:
  "compute_dominators (predecessors bs) = Some (map (path_dominators (predecessors bs)) [0..<length bs]) \<and>
   dominators (length bs) (predecessors bs) = Some (map (path_dominators (predecessors bs)) [0..<length bs])"
proof -
  obtain doms where d: "compute_dominators (predecessors bs) = Some doms" "dominators (length (predecessors bs)) (predecessors bs) = Some doms"
    "length doms = length (predecessors bs)" "\<forall>b < length (predecessors bs). doms ! b = path_dominators (predecessors bs) b"
    using dominators_of_preds [OF predecessors_ok] by blast
  have "doms = map (path_dominators (predecessors bs)) [0..<length bs]"
    by (rule nth_equalityI) (use d(3,4) in simp_all)
  then show ?thesis using d(1,2) by simp
qed

end
