(* ===== verification/Jir_Loops.thy ===== *)
theory Jir_Loops
  imports Jir_Dominators "HOL-Library.Product_Lexorder"
begin

text \<open>
  The discovery of natural loops in \<open>optimize.rs\<close>: for a back edge, an edge to a block that dominates its source, the
  blocks from which the source is reached without passing the header; a loop is used if it has a unique preheader.
\<close>

definition add_loop_node :: "BlockId \<Rightarrow> nat set \<times> BlockId list \<Rightarrow> BlockId \<Rightarrow> nat set \<times> BlockId list" where
  "add_loop_node header st p =
     (let (nodes, pending) = st in
      if p \<in> nodes then st else (insert p nodes, if p = header then pending else p # pending))"

lemma add_loop_node_step:
  "add_loop_node header (nodes, pending) p =
     (if p \<in> nodes then (nodes, pending) else (insert p nodes, if p = header then pending else p # pending))"
  by (simp add: add_loop_node_def)

lemma add_loop_nodes_measure:
  assumes "finite U" "set ps \<subseteq> U" "foldl (add_loop_node header) (nodes, pending) ps = (nodes', pending')"
  shows "2 * card (U - nodes') + length pending' \<le> 2 * card (U - nodes) + length pending"
  using assms(2,3)
proof (induction ps arbitrary: nodes pending)
  case (Cons p ps)
  show ?case
  proof (cases "p \<in> nodes")
    case True
    then show ?thesis using Cons by (simp add: add_loop_node_step)
  next
    case False
    have "U - insert p nodes = (U - nodes) - {p}" by blast
    then have "Suc (card (U - insert p nodes)) = card (U - nodes)"
      using False Cons.prems(1) assms(1) card_Suc_Diff1 [of "U - nodes" p] by simp
    moreover have f: "foldl (add_loop_node header) (insert p nodes, if p = header then pending else p # pending) ps = (nodes', pending')"
      using Cons.prems(2) False by (simp add: add_loop_node_step)
    have "2 * card (U - nodes') + length pending' \<le> 2 * card (U - insert p nodes) + length (if p = header then pending else p # pending)"
      by (rule Cons.IH [OF _ f]) (use Cons.prems(1) in simp)
    moreover have "length (if p = header then pending else p # pending) \<le> Suc (length pending)" by simp
    ultimately show ?thesis by linarith
  qed
qed simp

text \<open>
  The stack of pending nodes has its top at the head. A node out of range has no predecessors here; the source would
  panic, but only predecessors of blocks are ever pushed.
\<close>

function loop_nodes :: "nat list list \<Rightarrow> BlockId \<Rightarrow> BlockId list \<Rightarrow> nat set \<Rightarrow> nat set" where
  "loop_nodes preds header [] nodes = nodes"
| "loop_nodes preds header (node # pending) nodes =
     (let (nodes, pending) = foldl (add_loop_node header) (nodes, pending) (if node < length preds then preds ! node else []) in
      loop_nodes preds header pending nodes)"
  by pat_completeness auto
termination
proof (relation "measure (\<lambda>(preds, header, pending, nodes). 2 * card (\<Union> (set ` set preds) - nodes) + length pending)", goal_cases)
  case 1
  show ?case by simp
next
  case (2 preds header node pending nodes st nodes' pending')
  have "set (if node < length preds then preds ! node else []) \<subseteq> \<Union> (set ` set preds)" using UN_upper [OF nth_mem, of node preds set] by (cases "node < length preds") simp_all
  moreover have "foldl (add_loop_node header) (nodes, pending) (if node < length preds then preds ! node else []) = (nodes', pending')"
    using 2 by simp
  moreover have "finite (\<Union> (set ` set preds))" by simp
  ultimately have "2 * card (\<Union> (set ` set preds) - nodes') + length pending' \<le> 2 * card (\<Union> (set ` set preds) - nodes) + length pending"
    by (intro add_loop_nodes_measure)
  then show ?case by (simp only: in_measure prod.case list.size)
qed

definition find_loop :: "nat list list \<Rightarrow> BlockId \<Rightarrow> BlockId \<Rightarrow> (BlockId \<times> BlockId \<times> BlockId list) option" where
  "find_loop preds source header =
     (let nodes = loop_nodes preds header [source] {header, source};
          outside = filter (\<lambda>p. p \<notin> nodes) (preds ! header)
      in if length outside \<noteq> 1 then None else Some (header, outside ! 0, sorted_list_of_set nodes))"

definition scan_target ::
    "nat list list \<Rightarrow> nat set list \<Rightarrow> BlockId \<Rightarrow> BlockId set \<times> (BlockId \<times> BlockId \<times> BlockId list) list \<Rightarrow> BlockId \<Rightarrow>
     BlockId set \<times> (BlockId \<times> BlockId \<times> BlockId list) list" where
  "scan_target preds doms source st header =
     (let (seen_headers, loops) = st in
      if header \<notin> doms ! source \<or> header \<in> seen_headers then st
      else (insert header seen_headers, case find_loop preds source header of None \<Rightarrow> loops | Some l \<Rightarrow> loops @ [l]))"

definition scan_block ::
    "nat list list \<Rightarrow> nat set list \<Rightarrow> Block list \<Rightarrow> BlockId set \<times> (BlockId \<times> BlockId \<times> BlockId list) list \<Rightarrow> BlockId \<Rightarrow>
     BlockId set \<times> (BlockId \<times> BlockId \<times> BlockId list) list" where
  "scan_block preds doms bs st source = foldl (scan_target preds doms source) st (terminator_targets (terminator (bs ! source)))"

definition discover_loops :: "Block list \<Rightarrow> (BlockId \<times> BlockId \<times> BlockId list) list option" where
  "discover_loops bs =
     (if length bs < 2 then Some []
      else let preds = predecessors bs in
        map_option (\<lambda>doms.
          sort_key (\<lambda>(header, preheader, _). (header, preheader)) (snd (foldl (scan_block preds doms bs) ({}, []) [0..<length bs])))
          (compute_dominators preds))"

subsection \<open>The nodes of a loop\<close>

lemma add_loop_nodes:
  assumes "foldl (add_loop_node header) (nodes, pending) ps = (nodes', pending')"
  shows "nodes' = nodes \<union> set ps" "set pending \<subseteq> set pending'" "set pending' = set pending \<union> (set ps - nodes - {header})"
proof -
  have "nodes' = nodes \<union> set ps \<and> set pending' = set pending \<union> (set ps - nodes - {header})"
    using assms
  proof (induction ps arbitrary: nodes pending)
    case (Cons p ps)
    show ?case
    proof (cases "p \<in> nodes")
      case True
      then show ?thesis using Cons.IH [of nodes pending] Cons.prems by (auto simp: add_loop_node_step)
    next
      case False
      then show ?thesis using Cons.IH [of "insert p nodes" "if p = header then pending else p # pending"] Cons.prems
        by (auto simp: add_loop_node_step split: if_splits)
    qed
  qed simp
  then show "nodes' = nodes \<union> set ps" "set pending \<subseteq> set pending'" "set pending' = set pending \<union> (set ps - nodes - {header})" by auto
qed

text \<open>The search keeps its nodes and ends with all predecessors of the nodes but the header.\<close>

lemma loop_nodes_closed:
  assumes "\<forall>n \<in> nodes - set pending. n \<noteq> header \<longrightarrow> n < length preds \<longrightarrow> set (preds ! n) \<subseteq> nodes"
  shows "nodes \<subseteq> loop_nodes preds header pending nodes \<and>
    (\<forall>n \<in> loop_nodes preds header pending nodes. n \<noteq> header \<longrightarrow> n < length preds \<longrightarrow> set (preds ! n) \<subseteq> loop_nodes preds header pending nodes)"
  using assms
proof (induction preds header pending nodes rule: loop_nodes.induct)
  case (2 preds header node pending nodes)
  let ?ps = "if node < length preds then preds ! node else []"
  obtain nodes' pending' where s: "foldl (add_loop_node header) (nodes, pending) ?ps = (nodes', pending')"
    by (cases "foldl (add_loop_node header) (nodes, pending) ?ps")
  note a = add_loop_nodes [OF s]
  have "\<forall>n \<in> nodes' - set pending'. n \<noteq> header \<longrightarrow> n < length preds \<longrightarrow> set (preds ! n) \<subseteq> nodes'"
    using "2.prems" unfolding a by (auto split: if_splits)
  then show ?case using "2.IH" [OF s [symmetric] refl] s a(1) by simp
qed simp

text \<open>From every node other than the header the source is reached by edges that do not enter the header.\<close>

lemma loop_nodes_reach:
  assumes "\<forall>n \<in> nodes. n = header \<or> (n, source) \<in> {(a, b). b < length preds \<and> a \<in> set (preds ! b) \<and> b \<noteq> header}\<^sup>*"
    and "set pending \<subseteq> nodes - {header}"
  shows "\<forall>n \<in> loop_nodes preds header pending nodes. n = header \<or> (n, source) \<in> {(a, b). b < length preds \<and> a \<in> set (preds ! b) \<and> b \<noteq> header}\<^sup>*"
  using assms
proof (induction preds header pending nodes rule: loop_nodes.induct)
  case (2 preds header node pending nodes)
  let ?E = "{(a, b). b < length preds \<and> a \<in> set (preds ! b) \<and> b \<noteq> header}"
  let ?ps = "if node < length preds then preds ! node else []"
  obtain nodes' pending' where s: "foldl (add_loop_node header) (nodes, pending) ?ps = (nodes', pending')"
    by (cases "foldl (add_loop_node header) (nodes, pending) ?ps")
  note a = add_loop_nodes [OF s]
  have node: "(node, source) \<in> ?E\<^sup>*" "node \<noteq> header" using "2.prems" by auto
  have "(p, source) \<in> ?E\<^sup>*" if "p \<in> set ?ps" for p
    using that node converse_rtrancl_into_rtrancl [of p node ?E source] by (auto split: if_splits)
  then have "\<forall>n \<in> nodes'. n = header \<or> (n, source) \<in> ?E\<^sup>*" using "2.prems"(1) unfolding a(1) by blast
  moreover have "set pending' \<subseteq> nodes' - {header}" using "2.prems"(2) unfolding a(1,3) by auto
  ultimately show ?case using "2.IH" [OF s [symmetric] refl] s by simp
qed simp

text \<open>A path to a node of the loop goes on to the source.\<close>

lemma path_extends:
  assumes "(n, source) \<in> {(a, b). b < length preds \<and> a \<in> set (preds ! b) \<and> b \<noteq> header}\<^sup>*" "path_to preds p n"
  shows "\<exists>q. path_to preds (p @ q) source \<and> header \<notin> set q"
  using assms(1)
proof (induction rule: rtrancl_induct)
  case base
  then show ?case using assms(2) by (intro exI [of _ "[]"]) simp
next
  case (step a b)
  then obtain q where "path_to preds (p @ q) a" "header \<notin> set q" by blast
  then have "path_to preds (p @ q @ [b]) b" using path_to.step [of preds "p @ q" a b] step.hyps(2) by simp
  then show ?case using step.hyps(2) \<open>header \<notin> set q\<close> by (intro exI [of _ "q @ [b]"]) simp
qed

definition is_loop :: "Block list \<Rightarrow> BlockId \<Rightarrow> BlockId \<Rightarrow> BlockId list \<Rightarrow> bool" where
  "is_loop bs header preheader nodes \<longleftrightarrow>
     header \<in> set nodes \<and> preheader \<notin> set nodes \<and> (preheader, header) \<in> edges bs \<and>
     (\<exists>source. source \<in> set nodes \<and> (source, header) \<in> edges bs) \<and>
     (\<forall>a b. (a, b) \<in> edges bs \<longrightarrow> b \<in> set nodes \<longrightarrow> a \<notin> set nodes \<longrightarrow> b = header \<and> a = preheader) \<and>
     (\<forall>n \<in> set nodes. \<forall>p. path_to (predecessors bs) p n \<longrightarrow> header \<in> set p)"

text \<open>A block that jumps to itself is never found to be a loop: the search runs on through the predecessors of the header.\<close>

lemma find_loop_self:
  assumes "header < length preds"
  shows "find_loop preds header header = None"
proof -
  obtain nodes' pending' where s: "foldl (add_loop_node header) ({header}, []) (preds ! header) = (nodes', pending')"
    by (cases "foldl (add_loop_node header) ({header}, []) (preds ! header)")
  note a = add_loop_nodes [OF s]
  have "loop_nodes preds header [header] {header} = loop_nodes preds header pending' nodes'" using s assms by simp
  moreover have "nodes' \<subseteq> loop_nodes preds header pending' nodes'"
    by (rule loop_nodes_closed [THEN conjunct1]) (auto simp: a)
  ultimately have "set (preds ! header) \<subseteq> loop_nodes preds header [header] {header}" using a(1) by simp
  then have "filter (\<lambda>p. p \<notin> loop_nodes preds header [header] {header}) (preds ! header) = []" by (auto simp: filter_empty_conv)
  then show ?thesis by (simp only: find_loop_def Let_def insert_absorb2 list.size) simp
qed

lemma find_loop_sound:
  assumes dom: "\<forall>p. path_to (predecessors bs) p source \<longrightarrow> header \<in> set p" and backedge: "(source, header) \<in> edges bs"
    and h: "header < length bs" and found: "find_loop (predecessors bs) source header = Some (h, pre, ns)"
  shows "h = header \<and> is_loop bs header pre ns"
proof -
  let ?preds = "predecessors bs"
  define nodes where "nodes = loop_nodes ?preds header [source] {header, source}"
  let ?E = "{(a, b). b < length ?preds \<and> a \<in> set (?preds ! b) \<and> b \<noteq> header}"
  have src: "source < length bs" using backedge by (simp add: edges_def)
  have closed: "{header, source} \<subseteq> nodes" "\<And>n. n \<in> nodes \<Longrightarrow> n \<noteq> header \<Longrightarrow> n < length bs \<Longrightarrow> set (?preds ! n) \<subseteq> nodes"
    using loop_nodes_closed [of "{header, source}" "[source]" header ?preds, folded nodes_def] by auto
  define os where "os = filter (\<lambda>p. p \<notin> nodes) (?preds ! header)"
  have "length os = 1 \<and> h = header \<and> pre = os ! 0 \<and> ns = sorted_list_of_set nodes"
    using found unfolding find_loop_def Let_def nodes_def [symmetric] os_def [symmetric] by (simp split: if_splits)
  then obtain outside where "os = [outside]" and r: "h = header" "pre = outside" "ns = sorted_list_of_set nodes"
    by (cases os) simp_all
  then have o: "filter (\<lambda>p. p \<notin> nodes) (?preds ! header) = [outside]" by (simp only: os_def)
  have pre: "outside \<in> set (?preds ! header)" "outside \<notin> nodes" and uniq: "\<And>p. p \<in> set (?preds ! header) \<Longrightarrow> p \<notin> nodes \<Longrightarrow> p = outside"
    using arg_cong [OF o, of set] by auto
  have ne: "source \<noteq> header" using found find_loop_self [of header ?preds] h by auto
  have reach: "n = header \<or> (n, source) \<in> ?E\<^sup>*" if "n \<in> nodes" for n
    using loop_nodes_reach [of "{header, source}" header source ?preds "[source]"] that ne unfolding nodes_def [symmetric] by auto
  have range: "nodes \<subseteq> {..<length bs}"
  proof
    fix n assume n: "n \<in> nodes"
    show "n \<in> {..<length bs}"
    proof (cases "n = header \<or> n = source")
      case False
      then have "(n, source) \<in> ?E\<^sup>*" "n \<noteq> source" using reach [OF n] by simp_all
      then obtain b where "(n, b) \<in> ?E" by (meson converse_rtranclE)
      then have "(n, b) \<in> edges bs" using predecessors_edges [of b bs n] by simp
      then show ?thesis by (simp add: edges_def)
    qed (use h src in auto)
  qed
  then have "finite nodes" by (rule finite_subset) simp
  then have ns: "set ns = nodes" using r(3) by simp
  have dominated: "header \<in> set p" if "n \<in> nodes" "path_to ?preds p n" for n p
  proof (cases "n = header")
    case True
    show ?thesis using that(2) True by (cases rule: path_to.cases) auto
  next
    case False
    then have "(n, source) \<in> ?E\<^sup>*" using reach [OF that(1)] by simp
    note path_extends [OF this that(2)]
    then obtain q where q: "path_to ?preds (p @ q) source" "header \<notin> set q" by blast
    then have "header \<in> set (p @ q)" using dom by blast
    then show ?thesis using q(2) by simp
  qed
  have single: "b = header \<and> a = outside" if "(a, b) \<in> edges bs" "b \<in> nodes" "a \<notin> nodes" for a b
  proof -
    have b: "b < length bs" using that(2) range by blast
    have a: "a \<in> set (?preds ! b)" using that(1) predecessors_edges [OF b] by blast
    then have "b = header" using closed(2) [OF that(2) _ b] that(3) by blast
    then show ?thesis using uniq a that(3) by blast
  qed
  have "(outside, header) \<in> edges bs" using pre(1) predecessors_edges [OF h] by blast
  then show ?thesis
    using closed(1) pre(2) backedge single dominated unfolding is_loop_def ns r(1,2) by blast
qed

lemma scan_targets_sound:
  assumes doms: "\<And>h. h \<in> doms ! source \<Longrightarrow> h < length bs \<and> (\<forall>p. path_to (predecessors bs) p source \<longrightarrow> h \<in> set p)"
    and ts: "\<forall>h \<in> set ts. (source, h) \<in> edges bs"
    and st: "\<forall>(h, pre, ns) \<in> set (snd st). is_loop bs h pre ns"
  shows "\<forall>(h, pre, ns) \<in> set (snd (foldl (scan_target (predecessors bs) doms source) st ts)). is_loop bs h pre ns"
  using ts st
proof (induction ts arbitrary: st)
  case (Cons t ts)
  obtain seen ls where seen: "st = (seen, ls)" by (cases st)
  have "\<forall>(h, pre, ns) \<in> set (snd (scan_target (predecessors bs) doms source st t)). is_loop bs h pre ns"
  proof (cases "t \<notin> doms ! source \<or> t \<in> seen")
    case True
    then show ?thesis using Cons.prems(2) seen by (simp add: scan_target_def)
  next
    case False
    then have d: "t < length bs" "\<forall>p. path_to (predecessors bs) p source \<longrightarrow> t \<in> set p" using doms by blast+
    show ?thesis
    proof (cases "find_loop (predecessors bs) source t")
      case None
      then show ?thesis using Cons.prems(2) seen False by (simp add: scan_target_def)
    next
      case (Some l)
      obtain h pre ns where l: "l = (h, pre, ns)" by (cases l)
      have "is_loop bs h pre ns" using find_loop_sound [OF d(2) _ d(1) Some [unfolded l]] Cons.prems(1) by simp
      then show ?thesis using Cons.prems(2) seen False Some l by (simp add: scan_target_def)
    qed
  qed
  then show ?case using Cons.IH Cons.prems(1) by simp
qed simp

text \<open>
  C26. The discovery of loops returns, and what it returns are loops that can be entered in one way only: the header
  dominates every block of the loop, some block of the loop jumps back to it, and the only edge into the loop from
  outside leads from the preheader to the header.
\<close>

theorem discover_loops_sound:
  "\<exists>loops. discover_loops bs = Some loops \<and> list_all (\<lambda>(header, preheader, nodes). is_loop bs header preheader nodes) loops"
proof (cases "length bs < 2")
  case True
  then show ?thesis by (simp add: discover_loops_def)
next
  case False
  define doms where "doms = map (path_dominators (predecessors bs)) [0..<length bs]"
  have d: "compute_dominators (predecessors bs) = Some doms" using dominators_of_preds [OF predecessors_ok, of bs]
    by (elim exE conjE) (simp add: doms_def nth_equalityI)
  have "\<forall>(h, pre, ns) \<in> set (snd (foldl (scan_block (predecessors bs) doms bs) st ss)). is_loop bs h pre ns"
    if "\<forall>(h, pre, ns) \<in> set (snd st). is_loop bs h pre ns" "\<forall>s \<in> set ss. s < length bs" for ss st
    using that
  proof (induction ss arbitrary: st)
    case (Cons s ss)
    have s: "s < length bs" using Cons.prems(2) by simp
    have "\<forall>(h, pre, ns) \<in> set (snd (scan_block (predecessors bs) doms bs st s)). is_loop bs h pre ns"
      unfolding scan_block_def
    proof (rule scan_targets_sound [OF _ _ Cons.prems(1)])
      show "h < length bs \<and> (\<forall>p. path_to (predecessors bs) p s \<longrightarrow> h \<in> set p)" if "h \<in> doms ! s" for h
        using that s by (simp add: doms_def path_dominators_def)
      show "\<forall>h \<in> set (terminator_targets (terminator (bs ! s))). (s, h) \<in> edges bs" using s by (simp add: edges_def)
    qed
    then show ?case using Cons.IH Cons.prems(2) by simp
  qed simp
  from this [of "({}, [])" "[0..<length bs]"] show ?thesis using False d
    by (auto simp: discover_loops_def Let_def list_all_iff)
qed

subsection \<open>An example\<close>

definition loop_block :: "BlockId \<Rightarrow> ValueId Terminator \<Rightarrow> Block" where
  "loop_block b t = \<lparr>block_id = b, block_parameters = [], instructions = [], terminator = t, block_span = None\<rparr>"

declare iterate.simps [code]

lemma discover_example:
  "discover_loops [loop_block 0 (Jump 1 []), loop_block 1 (Branch 0 2 [] 3 []), loop_block 2 (Jump 1 []), loop_block 3 Unreachable] =
     Some [(1, 0, [1, 2])]"
  by code_simp

end
