(* ===== verification/Hir.thy ===== *)
theory Hir
  imports Types Tokens Source
begin

text \<open>
  The crate \<open>jadren-hir\<close>, its data and its traversal: the typed tree of a function that effect inference and the
  lowering to places work on. The traversal keeps an explicit stack of references; it is shown to list every expression
  once, in preorder.
\<close>

subsection \<open>The typed tree\<close>

type_synonym SymbolId = nat
type_synonym TypedExpressionId = nat

datatype LiteralKind = LitInteger | LitFloat | LitString | LitChar | LitBool

record HirLiteral =
  literal_kind :: LiteralKind
  literal_text :: ustring

datatype PropagationKind = OptionNone | ResultError

record PropagationSite =
  site_span :: Span
  site_kind :: PropagationKind
  success_type :: TypeId
  residual_type :: TypeId
  return_type :: TypeId

record HirLocal =
  hir_symbol :: SymbolId
  hir_local_name :: ustring
  hir_local_ty :: TypeId
  hir_mutable :: bool
  hir_local_span :: Span

record HirExport =
  export_name :: ustring
  export_abi :: ustring
  export_span :: Span

record HirAnnotation =
  annotation_name :: ustring
  annotation_span :: Span

datatype HirPattern = HirPattern (pattern_kind: HirPatternKind) (pattern_span: Span)
and HirPatternKind =
    PatWildcard
  | PatPath ustring "SymbolId option" "TypeId option" "SymbolId option"
  | PatConstructor ustring "SymbolId option" "HirPattern list"
  | PatLiteral HirLiteral
  | PatError

datatype HirExpression =
    HirExpression (typed_id: "TypedExpressionId option") (expression_ty: TypeId) (expression_span: Span)
      (expression_kind: HirExpressionKind)
and HirExpressionKind =
    HName ustring "SymbolId option"
  | HLiteral HirLiteral
  | HUnary Operator HirExpression
  | HCast HirExpression
  | HBinary HirExpression Operator HirExpression
  | HCall HirExpression "HirExpression list"
  | HRegionAllocate SymbolId "HirExpression list"
  | HField HirExpression ustring
  | HIndex HirExpression HirExpression
  | HTry HirExpression PropagationSite
  | HArray "HirExpression list"
  | HStruct ustring "(ustring \<times> HirExpression) list"
  | HGroup HirExpression
  | HBlock HirBlock
  | HIf HirExpression HirBlock "HirExpression option"
  | HMatch HirExpression "HirMatchArm list"
  | HError
and HirMatchArm = HirMatchArm HirPattern "HirExpression option" HirExpression Span
and HirBlock = HirBlock (hir_statements: "HirStatement list") (hir_block_span: Span)
and HirStatement =
    HBinding HirLocal "HirExpression option" Span
  | HReturn "HirExpression option" Span
  | HRegion HirLocal HirBlock Span
  | HWhile HirExpression HirBlock Span
  | HFor HirLocal HirExpression HirBlock Span
  | HBreak Span
  | HContinue Span
  | HExpression HirExpression bool

record HirFunction =
  function_symbol :: SymbolId
  function_name :: ustring
  function_annotations :: "HirAnnotation list"
  function_disjoint :: bool
  function_export :: "HirExport option"
  function_signature :: TypeId
  function_parameters :: "HirLocal list"
  function_result :: TypeId
  function_body :: HirBlock
  function_span :: Span

text \<open>Of \<open>HirModule\<close> the functions; the layouts and the index of typed expressions are only passed on.\<close>

record HirModule =
  hir_functions :: "HirFunction list"
  symbol_count :: nat

subsection \<open>The walker\<close>

text \<open>
  The stack of the source is a vector whose end is its top; here the top is the head of a list, so that \<open>push\<close> is
  \<open>#\<close> and extending with a reversed iterator pushes its items one by one.
\<close>

definition extend_reversed :: "'a list \<Rightarrow> 'a list \<Rightarrow> 'a list" where
  "extend_reversed xs stack = foldl (\<lambda>st x. x # st) stack (rev xs)"

text \<open>The statements of a block are taken from the last to the first.\<close>

fun push_block_expressions :: "HirBlock \<Rightarrow> HirExpression list \<Rightarrow> HirExpression list"
  and push_statements :: "HirStatement list \<Rightarrow> HirExpression list \<Rightarrow> HirExpression list"
  and push_statement_expressions :: "HirStatement \<Rightarrow> HirExpression list \<Rightarrow> HirExpression list" where
  "push_block_expressions (HirBlock ss _) stack = push_statements ss stack"
| "push_statements [] stack = stack"
| "push_statements (s # ss) stack = push_statement_expressions s (push_statements ss stack)"
| "push_statement_expressions (HBinding _ v _) stack = (case v of None \<Rightarrow> stack | Some e \<Rightarrow> e # stack)"
| "push_statement_expressions (HReturn v _) stack = (case v of None \<Rightarrow> stack | Some e \<Rightarrow> e # stack)"
| "push_statement_expressions (HRegion _ body _) stack = push_block_expressions body stack"
| "push_statement_expressions (HWhile c body _) stack = c # push_block_expressions body stack"
| "push_statement_expressions (HFor _ e body _) stack = e # push_block_expressions body stack"
| "push_statement_expressions (HExpression e _) stack = e # stack"
| "push_statement_expressions (HBreak _) stack = stack"
| "push_statement_expressions (HContinue _) stack = stack"

fun push_arm :: "HirMatchArm \<Rightarrow> HirExpression list \<Rightarrow> HirExpression list" where
  "push_arm (HirMatchArm _ guard v _) stack = (case guard of None \<Rightarrow> v # stack | Some g \<Rightarrow> g # v # stack)"

definition push_expression_children :: "HirExpression \<Rightarrow> HirExpression list \<Rightarrow> HirExpression list" where
  "push_expression_children e stack = (case expression_kind e of
      HName _ _ \<Rightarrow> stack
    | HLiteral _ \<Rightarrow> stack
    | HError \<Rightarrow> stack
    | HUnary _ operand \<Rightarrow> operand # stack
    | HCast operand \<Rightarrow> operand # stack
    | HField operand _ \<Rightarrow> operand # stack
    | HTry operand _ \<Rightarrow> operand # stack
    | HGroup operand \<Rightarrow> operand # stack
    | HBinary left _ right \<Rightarrow> left # right # stack
    | HCall callee arguments \<Rightarrow> callee # extend_reversed arguments stack
    | HRegionAllocate _ arguments \<Rightarrow> extend_reversed arguments stack
    | HIndex base index \<Rightarrow> base # index # stack
    | HArray elements \<Rightarrow> extend_reversed elements stack
    | HStruct _ members \<Rightarrow> extend_reversed (map snd members) stack
    | HBlock block \<Rightarrow> push_block_expressions block stack
    | HIf condition then_block else_branch \<Rightarrow>
        condition # push_block_expressions then_block (case else_branch of None \<Rightarrow> stack | Some e' \<Rightarrow> e' # stack)
    | HMatch v arms \<Rightarrow> v # foldl (\<lambda>st arm. push_arm arm st) stack (rev arms))"

text \<open>\<open>next\<close> pops an expression and pushes its children; collecting the iterator repeats it until the stack is empty.\<close>

definition walker_next :: "HirExpression list \<Rightarrow> (HirExpression \<times> HirExpression list) option" where
  "walker_next stack = (case stack of [] \<Rightarrow> None | e # st \<Rightarrow> Some (e, push_expression_children e st))"

partial_function (option) walk_from :: "HirExpression list \<Rightarrow> HirExpression list option" where
  "walk_from stack =
     (case walker_next stack of
        None \<Rightarrow> Some []
      | Some (e, st) \<Rightarrow> Option.bind (walk_from st) (\<lambda>es. Some (e # es)))"

definition walk :: "HirExpression \<Rightarrow> HirExpression list option" where
  "walk e = walk_from [e]"

definition walk_typed_expressions :: "HirModule \<Rightarrow> HirExpression list option" where
  "walk_typed_expressions m =
     walk_from (foldl (\<lambda>stack f. push_block_expressions (function_body f) stack) [] (rev (hir_functions m)))"

subsection \<open>The walker lists the tree in preorder\<close>

text \<open>The reference: an expression, then its operands from left to right, each with everything below it.\<close>

fun expression_preorder :: "HirExpression \<Rightarrow> HirExpression list"
  and preorder_kind :: "HirExpressionKind \<Rightarrow> HirExpression list"
  and preorder_arm :: "HirMatchArm \<Rightarrow> HirExpression list"
  and preorder_block :: "HirBlock \<Rightarrow> HirExpression list"
  and preorder_statement :: "HirStatement \<Rightarrow> HirExpression list" where
  "expression_preorder (HirExpression i t s k) = HirExpression i t s k # preorder_kind k"
| "preorder_kind (HName _ _) = []"
| "preorder_kind (HLiteral _) = []"
| "preorder_kind (HUnary _ e) = expression_preorder e"
| "preorder_kind (HCast e) = expression_preorder e"
| "preorder_kind (HBinary l _ r) = expression_preorder l @ expression_preorder r"
| "preorder_kind (HCall c es) = expression_preorder c @ concat (map expression_preorder es)"
| "preorder_kind (HRegionAllocate _ es) = concat (map expression_preorder es)"
| "preorder_kind (HField e _) = expression_preorder e"
| "preorder_kind (HIndex b i) = expression_preorder b @ expression_preorder i"
| "preorder_kind (HTry e _) = expression_preorder e"
| "preorder_kind (HArray es) = concat (map expression_preorder es)"
| "preorder_kind (HStruct _ fs) = concat (map (\<lambda>(_, e). expression_preorder e) fs)"
| "preorder_kind (HGroup e) = expression_preorder e"
| "preorder_kind (HBlock b) = preorder_block b"
| "preorder_kind (HIf c b e) = expression_preorder c @ preorder_block b @ (case e of None \<Rightarrow> [] | Some e' \<Rightarrow> expression_preorder e')"
| "preorder_kind (HMatch v arms) = expression_preorder v @ concat (map preorder_arm arms)"
| "preorder_kind HError = []"
| "preorder_arm (HirMatchArm _ g v _) = (case g of None \<Rightarrow> [] | Some e \<Rightarrow> expression_preorder e) @ expression_preorder v"
| "preorder_block (HirBlock ss _) = concat (map preorder_statement ss)"
| "preorder_statement (HBinding _ v _) = (case v of None \<Rightarrow> [] | Some e \<Rightarrow> expression_preorder e)"
| "preorder_statement (HReturn v _) = (case v of None \<Rightarrow> [] | Some e \<Rightarrow> expression_preorder e)"
| "preorder_statement (HRegion _ b _) = preorder_block b"
| "preorder_statement (HWhile c b _) = expression_preorder c @ preorder_block b"
| "preorder_statement (HFor _ e b _) = expression_preorder e @ preorder_block b"
| "preorder_statement (HBreak _) = []"
| "preorder_statement (HContinue _) = []"
| "preorder_statement (HExpression e _) = expression_preorder e"

abbreviation preorders :: "HirExpression list \<Rightarrow> HirExpression list" where
  "preorders es \<equiv> concat (map expression_preorder es)"

lemma extend_reversed_append [simp]: "extend_reversed xs stack = xs @ stack"
  by (induction xs) (simp_all add: extend_reversed_def)

lemma foldl_push_arm: "foldl (\<lambda>st arm. push_arm arm st) stack (rev arms) = foldr push_arm arms stack"
  by (simp add: foldl_conv_foldr)

lemma preorders_push:
  "preorders (push_block_expressions b stack) = preorder_block b @ preorders stack"
  "preorders (push_statements ss stack) = concat (map preorder_statement ss) @ preorders stack"
  "preorders (push_statement_expressions s stack) = preorder_statement s @ preorders stack"
  by (induction b stack and ss stack and s stack
      rule: push_block_expressions_push_statements_push_statement_expressions.induct)
    (auto split: option.split)

lemma preorders_push_arms: "preorders (foldr push_arm arms stack) = concat (map preorder_arm arms) @ preorders stack"
proof (induction arms)
  case (Cons a arms)
  then show ?case by (cases a) (simp split: option.split)
qed simp

lemma preorder_members: "(\<lambda>(_, e). expression_preorder e) = (\<lambda>x. expression_preorder (snd x))"
  by (simp add: fun_eq_iff case_prod_beta)

lemma preorders_push_children: "preorders (e # stack) = e # preorders (push_expression_children e stack)"
  by (cases e; cases "expression_kind e")
    (auto simp: push_expression_children_def preorders_push preorders_push_arms foldl_push_arm preorder_members comp_def split: option.split)

lemma walk_from_preorders: "walk_from stack = Some (preorders stack)"
proof (induction "length (preorders stack)" arbitrary: stack rule: less_induct)
  case less
  show ?case
  proof (cases stack)
    case Nil
    then show ?thesis by (subst walk_from.simps) (simp add: walker_next_def)
  next
    case (Cons e st)
    have eq: "preorders stack = e # preorders (push_expression_children e st)"
      unfolding Cons by (rule preorders_push_children)
    then have "walk_from (push_expression_children e st) = Some (preorders (push_expression_children e st))"
      by (intro less.hyps) simp
    then show ?thesis unfolding eq by (subst walk_from.simps) (simp add: walker_next_def Cons)
  qed
qed

text \<open>
  C21. Walking a module returns, and yields the expressions of its functions in order, each with everything below it in
  preorder.
\<close>

theorem walk_preorder:
  "walk_typed_expressions m = Some (concat (map (\<lambda>f. preorder_block (function_body f)) (hir_functions m))) \<and>
   walk e = Some (expression_preorder e)"
proof -
  have "preorders (foldr (\<lambda>f. push_block_expressions (function_body f)) fs []) =
      concat (map (\<lambda>f. preorder_block (function_body f)) fs)" for fs
    by (induction fs) (simp_all add: preorders_push)
  then show ?thesis
    by (simp add: walk_typed_expressions_def walk_def walk_from_preorders foldl_conv_foldr)
qed

end
