(* ===== verification/Mir.thy ===== *)
theory Mir
  imports Hir
begin

text \<open>
  The crate \<open>jadren-mir\<close>, its data: places, accesses, operands, statements, terminators and functions as a graph of
  basic blocks, with the queries that every analysis asks (the successors of a block, the accesses of a statement or a
  terminator, uses and definitions). Places and loans carry the derived order of the source, because the analyses keep
  them in ordered sets and take the first that fits.
\<close>

subsection \<open>Places and accesses\<close>

type_synonym LocalId = nat
type_synonym BasicBlockId = nat

record MirLocal =
  local_id :: LocalId
  local_symbol :: "SymbolId option"
  local_name :: ustring
  local_ty :: TypeId
  local_mutable :: bool
  is_parameter :: bool
  is_return :: bool
  scope_region :: "LocalId option"
  owned_region :: "LocalId option"
  local_span :: Span

datatype Projection = ProjField ustring | ProjIndex | ProjDereference

datatype Place = Place (place_local: LocalId) (projection: "Projection list")

definition whole :: "LocalId \<Rightarrow> Place" where
  "whole l = Place l []"

definition begins_with :: "'a list \<Rightarrow> 'a list \<Rightarrow> bool" where
  "begins_with xs ys \<longleftrightarrow> take (length ys) xs = ys"

definition overlaps :: "Place \<Rightarrow> Place \<Rightarrow> bool" where
  "overlaps p q \<longleftrightarrow> place_local p = place_local q \<and>
     (begins_with (projection p) (projection q) \<or> begins_with (projection q) (projection p))"

datatype AccessKind = AccRead | AccMove | AccMoveOrDrop | AccWrite | AccBorrowRead | AccBorrowWrite

datatype BorrowKind = BorrowRead | BorrowWrite

record PlaceAccess =
  access_place :: Place
  access_kind :: AccessKind
  access_span :: Span

subsection \<open>Operands, statements and terminators\<close>

datatype CarrierPart = CarrierSuccess | CarrierResidual

datatype MirOperand = MirOperand (operand_ty: TypeId) (operand_kind: MirOperandKind) (operand_span: Span)
and MirOperandKind =
    MUnit
  | MPlace Place
  | MLiteral HirLiteral
  | MFunction ustring "SymbolId option"
  | MUnary Operator MirOperand
  | MCast MirOperand
  | MBinary MirOperand Operator MirOperand
  | MCall MirOperand "MirOperand list"
  | MRegionAllocate "LocalId option" "MirOperand list"
  | MIndex MirOperand MirOperand
  | MLength MirOperand
  | MField MirOperand ustring
  | MArray "MirOperand list"
  | MStruct ustring "(ustring \<times> MirOperand) list"
  | MPatternExtract Place "MirOperand list" "ustring list" bool
  | MCarrierExtract Place "MirOperand list" CarrierPart
  | MPropagateResidual Place PropagationKind TypeId
  | MHighLevel HirExpression

datatype MirStatement =
    StorageLive LocalId Span
  | StorageDead LocalId Span
  | RegionEnter LocalId Span
  | RegionExit LocalId Span
  | Assign Place "MirOperand list" "MirOperand option" "PlaceAccess list" Span
  | Borrow LocalId Place BorrowKind bool Span
  | DropPlace Place Span
  | Evaluate "MirOperand option" "PlaceAccess list" Span

datatype MirPattern =
    MirWildcard
  | MirBinding
  | MirPath ustring "SymbolId option"
  | MirConstructor ustring "SymbolId option" "MirPattern list"
  | MirLiteral HirLiteral

datatype Terminator =
    Goto BasicBlockId Span
  | Switch "MirOperand option" "PlaceAccess list" "BasicBlockId list" BasicBlockId Span
  | Match MirOperand "PlaceAccess list" MirPattern BasicBlockId BasicBlockId Span
  | Propagate MirOperand "PlaceAccess list" PropagationKind BasicBlockId BasicBlockId Span
  | Return "MirOperand option" "PlaceAccess list" Span
  | Unreachable Span

record BasicBlock =
  block_id :: BasicBlockId
  block_statements :: "MirStatement list"
  block_terminator :: Terminator

record MirFunction =
  mir_symbol :: SymbolId
  mir_name :: ustring
  mir_export :: "HirExport option"
  mir_disjoint :: bool
  mir_signature :: TypeId
  mir_locals :: "MirLocal list"
  mir_blocks :: "BasicBlock list"
  mir_span :: Span

text \<open>Of \<open>MirModule\<close> the functions; the layouts and the index of typed expressions are only passed on.\<close>

type_synonym MirModule = "MirFunction list"

record MirError =
  error_code :: ustring
  error_span :: Span
  error_message :: ustring

definition mir_error :: "ustring \<Rightarrow> Span \<Rightarrow> ustring \<Rightarrow> MirError" where
  "mir_error c s m = \<lparr>error_code = c, error_span = s, error_message = m\<rparr>"

subsection \<open>Queries\<close>

definition statement_span :: "MirStatement \<Rightarrow> Span" where
  "statement_span st = (case st of
      StorageLive _ s \<Rightarrow> s | StorageDead _ s \<Rightarrow> s | RegionEnter _ s \<Rightarrow> s | RegionExit _ s \<Rightarrow> s
    | Assign _ _ _ _ s \<Rightarrow> s | Borrow _ _ _ _ s \<Rightarrow> s | DropPlace _ s \<Rightarrow> s | Evaluate _ _ s \<Rightarrow> s)"

definition terminator_span :: "Terminator \<Rightarrow> Span" where
  "terminator_span t = (case t of
      Goto _ s \<Rightarrow> s | Switch _ _ _ _ s \<Rightarrow> s | Match _ _ _ _ _ s \<Rightarrow> s | Propagate _ _ _ _ _ s \<Rightarrow> s
    | Return _ _ s \<Rightarrow> s | Unreachable s \<Rightarrow> s)"

definition terminator_accesses :: "Terminator \<Rightarrow> PlaceAccess list" where
  "terminator_accesses t = (case t of
      Switch _ accs _ _ _ \<Rightarrow> accs | Match _ accs _ _ _ _ \<Rightarrow> accs | Propagate _ accs _ _ _ _ \<Rightarrow> accs
    | Return _ accs _ \<Rightarrow> accs | Goto _ _ \<Rightarrow> [] | Unreachable _ \<Rightarrow> [])"

definition successors :: "Terminator \<Rightarrow> BasicBlockId list" where
  "successors t = (case t of
      Goto target _ \<Rightarrow> [target]
    | Switch _ _ targets otherwise _ \<Rightarrow> remdups_adj (sort (targets @ [otherwise]))
    | Match _ _ _ matched otherwise _ \<Rightarrow> [matched, otherwise]
    | Propagate _ _ _ success residual _ \<Rightarrow> [success, residual]
    | Return _ _ _ \<Rightarrow> []
    | Unreachable _ \<Rightarrow> [])"

definition statement_uses :: "MirStatement \<Rightarrow> LocalId set" where
  "statement_uses st = (case st of
      Assign destination _ _ accs _ \<Rightarrow>
        (let uses = (\<lambda>a. place_local (access_place a)) ` set accs in
         if projection destination \<noteq> [] then insert (place_local destination) uses else uses)
    | Borrow _ source _ _ _ \<Rightarrow> {place_local source}
    | DropPlace p _ \<Rightarrow> {place_local p}
    | Evaluate _ accs _ \<Rightarrow> (\<lambda>a. place_local (access_place a)) ` set accs
    | RegionExit region _ \<Rightarrow> {region}
    | StorageLive _ _ \<Rightarrow> {}
    | StorageDead _ _ \<Rightarrow> {}
    | RegionEnter _ _ \<Rightarrow> {})"

definition statement_definitions :: "MirStatement \<Rightarrow> LocalId set" where
  "statement_definitions st = (case st of
      StorageLive l _ \<Rightarrow> {l}
    | StorageDead l _ \<Rightarrow> {l}
    | RegionEnter l _ \<Rightarrow> {l}
    | RegionExit l _ \<Rightarrow> {l}
    | Borrow l _ _ _ _ \<Rightarrow> {l}
    | DropPlace p _ \<Rightarrow> if projection p = [] then {place_local p} else {}
    | Assign destination _ _ _ _ \<Rightarrow> if projection destination = [] then {place_local destination} else {}
    | Evaluate _ _ _ \<Rightarrow> {})"

partial_function (option) is_move_only :: "TypeStore \<Rightarrow> TypeId \<Rightarrow> bool option" where
  "is_move_only types ty =
     (case kind_of types ty of
        Some TString \<Rightarrow> Some True
      | Some TOwnedString \<Rightarrow> Some True
      | Some (TBuffer _) \<Rightarrow> Some True
      | Some (TNominal _ _) \<Rightarrow> Some True
      | Some (TArray element _) \<Rightarrow> is_move_only types element
      | Some (TOption element) \<Rightarrow> is_move_only types element
      | Some (TResult a b) \<Rightarrow>
          Option.bind (is_move_only types a) (\<lambda>m. if m then Some True else is_move_only types b)
      | Some (TCapability c _) \<Rightarrow> Some (c = Owned)
      | _ \<Rightarrow> Some False)"

declare is_move_only.simps [code]

text \<open>The query returns: the parts of an interned type have smaller identities.\<close>

lemma is_move_only_returns:
  assumes "interner_ok types"
  shows "\<exists>m. is_move_only types ty = Some m"
proof (induction ty rule: less_induct)
  case (less ty)
  show ?case
  proof (cases "kind_of types ty")
    case None
    then show ?thesis by (subst is_move_only.simps) auto
  next
    case (Some k)
    then have "ty < length (kinds types)" "kinds types ! ty = k" by (auto simp: kind_of_def get_eq_Some)
    then have "c < ty" if "c \<in> set_type_kind k" for c
      using assms that kinds_okD [of "kinds types" ty c] by (simp add: interner_ok_def)
    then have r: "\<exists>m. is_move_only types c = Some m" if "c \<in> set_type_kind k" for c using less.IH that by blast
    note u = is_move_only.simps [of types ty, unfolded Some option.case]
    show ?thesis
    proof (cases k)
      case (TResult a b)
      obtain m m' where "is_move_only types a = Some m" "is_move_only types b = Some m'"
        using r [of a] r [of b] TResult by auto
      then show ?thesis by (auto simp: u TResult)
    qed (use r in \<open>auto simp: u\<close>)
  qed
qed

subsection \<open>Overlap\<close>

lemma begins_with_append: "begins_with xs ys \<longleftrightarrow> (\<exists>zs. xs = ys @ zs)"
  unfolding begins_with_def by (metis append_take_drop_id append_eq_conv_conj)

lemma overlaps_refl [simp]: "overlaps p p"
  by (simp add: overlaps_def begins_with_def)

lemma overlaps_sym: "overlaps p q \<longleftrightarrow> overlaps q p"
  by (auto simp: overlaps_def)

lemma overlaps_whole [simp]: "overlaps p (whole l) \<longleftrightarrow> place_local p = l" "overlaps (whole l) p \<longleftrightarrow> place_local p = l"
  by (auto simp: overlaps_def whole_def begins_with_def)

lemma whole_simps [simp]: "place_local (whole l) = l" "projection (whole l) = []"
  by (simp_all add: whole_def)

lemma set_successors_switch: "set (successors (Switch v accs targets otherwise s)) = insert otherwise (set targets)"
  by (simp add: successors_def)

end
