(* ===== verification/Mir_Dataflow.thy ===== *)
theory Mir_Dataflow
  imports Mir
begin

text \<open>
  The loop that every forward analysis of \<open>jadren-mir\<close> is written as: one optional input per block, a queue of blocks,
  a transfer of the block at the front, and a merge of its result into the inputs of the successors, which are queued
  again when they change. \<open>solve\<close> is that loop over the parts in which the analyses differ; an index out of range, where
  Rust panics, and a run without end are both \<open>None\<close>. The locale states what makes such an analysis a dataflow problem,
  and shows for all of them that the loop ends, that the result is stable, that every input comes from joins along
  edges, and that every block was last reported on with its final input.
\<close>

subsection \<open>The loop\<close>

fun merge_all ::
  "('s \<Rightarrow> 's \<Rightarrow> 's \<times> bool) \<Rightarrow> 's \<Rightarrow> BasicBlockId list \<Rightarrow> 's option list \<Rightarrow> BasicBlockId list \<Rightarrow>
   ('s option list \<times> BasicBlockId list) option" where
  "merge_all merge s [] inputs queue = Some (inputs, queue)"
| "merge_all merge s (t # ts) inputs queue =
     (case get inputs t of
        None \<Rightarrow> None
      | Some None \<Rightarrow> merge_all merge s ts (inputs[t := Some s]) (queue @ [t])
      | Some (Some existing) \<Rightarrow>
          (case merge existing s of (joined, changed) \<Rightarrow>
             if changed then merge_all merge s ts (inputs[t := Some joined]) (queue @ [t])
             else merge_all merge s ts inputs queue))"

partial_function (option) drain ::
  "('s \<Rightarrow> 's \<Rightarrow> 's \<times> bool) \<Rightarrow> (BasicBlockId \<Rightarrow> 's \<Rightarrow> 'x \<Rightarrow> ('s \<times> 'x) option) \<Rightarrow> (BasicBlockId \<Rightarrow> BasicBlockId list) \<Rightarrow>
   's option list \<Rightarrow> BasicBlockId list \<Rightarrow> 'x \<Rightarrow> ('s option list \<times> 'x) option" where
  "drain merge run succs inputs queue side =
     (case queue of
        [] \<Rightarrow> Some (inputs, side)
      | b # rest \<Rightarrow>
          (case get inputs b of
             None \<Rightarrow> None
           | Some None \<Rightarrow> drain merge run succs inputs rest side
           | Some (Some s) \<Rightarrow>
               (case run b s side of
                  None \<Rightarrow> None
                | Some (s', side') \<Rightarrow>
                    (case merge_all merge s' (succs b) inputs rest of
                       None \<Rightarrow> None
                     | Some (inputs', queue') \<Rightarrow> drain merge run succs inputs' queue' side'))))"

declare drain.simps [code]

definition solve ::
  "('s \<Rightarrow> 's \<Rightarrow> 's \<times> bool) \<Rightarrow> (BasicBlockId \<Rightarrow> 's \<Rightarrow> 'x \<Rightarrow> ('s \<times> 'x) option) \<Rightarrow> (BasicBlockId \<Rightarrow> BasicBlockId list) \<Rightarrow>
   nat \<Rightarrow> 's \<Rightarrow> 'x \<Rightarrow> ('s option list \<times> 'x) option" where
  "solve merge run succs n entry side = drain merge run succs ((replicate n None)[0 := Some entry]) [0] side"

text \<open>The two joins of the source: an intersection compared with the old input, and an extension compared by length.\<close>

definition merge_inter :: "'a set \<Rightarrow> 'a set \<Rightarrow> 'a set \<times> bool" where
  "merge_inter existing s = (let joined = existing \<inter> s in (joined, existing \<noteq> joined))"

definition merge_union :: "'a set \<Rightarrow> 'a set \<Rightarrow> 'a set \<times> bool" where
  "merge_union existing s = (let joined = existing \<union> s in (joined, card joined \<noteq> card existing))"

subsection \<open>Blocks of a function\<close>

definition succs_of :: "MirFunction \<Rightarrow> BasicBlockId \<Rightarrow> BasicBlockId list" where
  "succs_of f b = successors (block_terminator (mir_blocks f ! b))"

definition cfg_ok :: "MirFunction \<Rightarrow> bool" where
  "cfg_ok f \<longleftrightarrow> mir_blocks f \<noteq> [] \<and>
     list_all (\<lambda>b. list_all (\<lambda>t. t < length (mir_blocks f)) (successors (block_terminator b))) (mir_blocks f)"

lemma cfg_ok_succs: "cfg_ok f \<Longrightarrow> b < length (mir_blocks f) \<Longrightarrow> t \<in> set (succs_of f b) \<Longrightarrow> t < length (mir_blocks f)"
  by (auto simp: cfg_ok_def succs_of_def list_all_iff)

text \<open>
  What a block does, in order: its statements, then its terminator. The paths of a function are the events they
  consist of: \<open>trace_to f b tr\<close> says that control can reach the start of block \<open>b\<close> after the events \<open>tr\<close>, and
  \<open>at_event f tr ev\<close> that \<open>ev\<close> can be what comes next. The analyses are specified over these traces.
\<close>

datatype MirEvent = Ran MirStatement | Ended Terminator

definition block_events :: "BasicBlock \<Rightarrow> MirEvent list" where
  "block_events b = map Ran (block_statements b) @ [Ended (block_terminator b)]"

definition events_of :: "MirFunction \<Rightarrow> BasicBlockId \<Rightarrow> MirEvent list" where
  "events_of f b = block_events (mir_blocks f ! b)"

definition all_events :: "MirFunction \<Rightarrow> MirEvent set" where
  "all_events f = (\<Union>b \<in> set (mir_blocks f). set (block_events b))"

inductive trace_to :: "MirFunction \<Rightarrow> BasicBlockId \<Rightarrow> MirEvent list \<Rightarrow> bool" for f where
  entry: "trace_to f 0 []"
| step: "trace_to f b tr \<Longrightarrow> t \<in> set (succs_of f b) \<Longrightarrow> trace_to f t (tr @ events_of f b)"

inductive_cases trace_toE: "trace_to f b tr"

definition at_event :: "MirFunction \<Rightarrow> MirEvent list \<Rightarrow> MirEvent \<Rightarrow> bool" where
  "at_event f tr ev \<longleftrightarrow> (\<exists>b start pre post. trace_to f b start \<and> events_of f b = pre @ ev # post \<and> tr = start @ pre)"

text \<open>The same by position: \<open>tr\<close> is a path to the \<open>i\<close>th event of block \<open>b\<close>.\<close>

definition at_point :: "MirFunction \<Rightarrow> BasicBlockId \<Rightarrow> nat \<Rightarrow> MirEvent list \<Rightarrow> bool" where
  "at_point f b i tr \<longleftrightarrow> (\<exists>start. trace_to f b start \<and> i < length (events_of f b) \<and> tr = start @ take i (events_of f b))"

lemma at_event_point: "at_event f tr ev \<longleftrightarrow> (\<exists>b i. at_point f b i tr \<and> events_of f b ! i = ev)"
proof
  assume "at_event f tr ev"
  then obtain b t0 pre post where t: "trace_to f b t0" "events_of f b = pre @ ev # post" "tr = t0 @ pre"
    unfolding at_event_def by blast
  then have "at_point f b (length pre) tr \<and> events_of f b ! length pre = ev" by (auto simp: at_point_def)
  then show "\<exists>b i. at_point f b i tr \<and> events_of f b ! i = ev" by blast
next
  assume "\<exists>b i. at_point f b i tr \<and> events_of f b ! i = ev"
  then obtain b i t0 where "trace_to f b t0" "i < length (events_of f b)" "tr = t0 @ take i (events_of f b)" "events_of f b ! i = ev"
    unfolding at_point_def by blast
  then show "at_event f tr ev" unfolding at_event_def using id_take_nth_drop by blast
qed

lemma trace_to_bound:
  assumes "cfg_ok f"
  shows "trace_to f b tr \<Longrightarrow> b < length (mir_blocks f)"
proof (induction rule: trace_to.induct)
  case entry
  then show ?case using assms by (simp add: cfg_ok_def)
next
  case (step b tr t)
  then show ?case using cfg_ok_succs [OF assms] by blast
qed

lemma block_events_ended:
  assumes "block_events b = pre @ Ended t # post"
  shows "pre = map Ran (block_statements b)" "t = block_terminator b"
proof -
  have "post = []"
  proof (rule ccontr)
    assume "post \<noteq> []"
    then obtain ys y where "post = ys @ [y]" by (cases post rule: rev_cases) auto
    then have "Ended t \<in> set (map Ran (block_statements b))" using assms by (simp add: block_events_def)
    then show False by auto
  qed
  then show "pre = map Ran (block_statements b)" "t = block_terminator b" using assms by (simp_all add: block_events_def)
qed

lemma events_of_all: "b < length (mir_blocks f) \<Longrightarrow> set (events_of f b) \<subseteq> all_events f"
  unfolding events_of_def all_events_def using nth_mem by blast

subsection \<open>Dataflow problems\<close>

locale dataflow =
  fixes wf :: "'f \<Rightarrow> bool"
    and n :: "'f \<Rightarrow> nat"
    and succs :: "'f \<Rightarrow> nat \<Rightarrow> nat list"
    and entry :: "'f \<Rightarrow> 's"
    and merge :: "'s \<Rightarrow> 's \<Rightarrow> 's \<times> bool"
    and join :: "'s \<Rightarrow> 's \<Rightarrow> 's"
    and run :: "'f \<Rightarrow> nat \<Rightarrow> 's \<Rightarrow> 'x \<Rightarrow> ('s \<times> 'x) option"
    and tr :: "'f \<Rightarrow> nat \<Rightarrow> 's \<Rightarrow> 's"
    and eff :: "'f \<Rightarrow> nat \<Rightarrow> 's \<Rightarrow> 'x \<Rightarrow> 'x"
    and ok :: "'f \<Rightarrow> 's \<Rightarrow> bool"
    and rank :: "'f \<Rightarrow> 's \<Rightarrow> nat"
    and ext :: "'x \<Rightarrow> 'x \<Rightarrow> bool"
  assumes nonempty: "wf f \<Longrightarrow> 0 < n f"
    and targets: "wf f \<Longrightarrow> b < n f \<Longrightarrow> t \<in> set (succs f b) \<Longrightarrow> t < n f"
    and run_eq: "wf f \<Longrightarrow> b < n f \<Longrightarrow> ok f s \<Longrightarrow> run f b s x = Some (tr f b s, eff f b s x)"
    and ok_entry: "wf f \<Longrightarrow> ok f (entry f)"
    and ok_tr: "wf f \<Longrightarrow> b < n f \<Longrightarrow> ok f s \<Longrightarrow> ok f (tr f b s)"
    and ok_join: "ok f e \<Longrightarrow> ok f s \<Longrightarrow> ok f (join e s)"
    and merge_eq: "ok f e \<Longrightarrow> ok f s \<Longrightarrow> merge e s = (join e s, join e s \<noteq> e)"
    and join_idem: "join s s = s"
    and join_absorb: "join (join e s) s = join e s"
    and join_keep: "join e s = e \<Longrightarrow> join (join e u) s = join e u"
    and rank_less: "ok f e \<Longrightarrow> ok f s \<Longrightarrow> join e s \<noteq> e \<Longrightarrow> rank f (join e s) < rank f e"
    and ext_refl: "ext x x"
    and ext_trans: "ext x y \<Longrightarrow> ext y z \<Longrightarrow> ext x z"
    and eff_ext: "ext x (eff f b s x)"
begin

definition covers :: "'s \<Rightarrow> 's \<Rightarrow> bool" where
  "covers e s \<longleftrightarrow> join e s = e"

definition grown :: "'s option \<Rightarrow> 's option \<Rightarrow> bool" where
  "grown a b \<longleftrightarrow> (\<forall>e. a = Some e \<longrightarrow> (\<exists>e'. b = Some e' \<and> (\<forall>s. covers e s \<longrightarrow> covers e' s)))"

lemma grown_refl: "grown a a"
  by (simp add: grown_def)

lemma grown_trans: "grown a b \<Longrightarrow> grown b c \<Longrightarrow> grown a c"
  by (fastforce simp: grown_def)

lemma grown_join: "grown (Some e) (Some (join e u))"
  by (simp add: grown_def covers_def join_keep)

definition holes :: "'s option list \<Rightarrow> nat" where
  "holes inputs = length (filter (\<lambda>i. i = None) inputs)"

definition ranks :: "'f \<Rightarrow> 's option list \<Rightarrow> nat" where
  "ranks f inputs = (\<Sum>i\<leftarrow>inputs. case i of None \<Rightarrow> 0 | Some s \<Rightarrow> rank f s)"

definition lighter :: "'f \<Rightarrow> 's option list \<Rightarrow> 's option list \<Rightarrow> bool" where
  "lighter f inputs' inputs \<longleftrightarrow> holes inputs' < holes inputs \<or> holes inputs' = holes inputs \<and> ranks f inputs' < ranks f inputs"

lemma holes_fill:
  assumes "t < length inputs" "inputs ! t = None"
  shows "lighter f (inputs[t := Some s]) inputs"
proof -
  have "holes (inputs[t := Some s]) < holes inputs"
    using assms unfolding holes_def
  proof (induction inputs arbitrary: t)
    case (Cons i inputs)
    then show ?case by (cases t) auto
  qed simp
  then show ?thesis by (simp add: lighter_def)
qed

lemma ranks_update:
  assumes "t < length inputs" "inputs ! t = Some e" "rank f e' < rank f e"
  shows "lighter f (inputs[t := Some e']) inputs"
proof -
  have h: "holes (inputs[t := Some e']) = holes inputs"
    using assms(1,2) unfolding holes_def
  proof (induction inputs arbitrary: t)
    case (Cons i inputs)
    then show ?case by (cases t) auto
  qed simp
  have "ranks f (inputs[t := Some e']) < ranks f inputs"
    using assms unfolding ranks_def
  proof (induction inputs arbitrary: t)
    case (Cons i inputs)
    then show ?case by (cases t) auto
  qed simp
  with h show ?thesis by (simp add: lighter_def)
qed

lemma lighter_trans: "lighter f a b \<Longrightarrow> lighter f b c \<Longrightarrow> lighter f a c"
  by (auto simp: lighter_def)

text \<open>What one pass over the successors does.\<close>

definition merged :: "'f \<Rightarrow> 's \<Rightarrow> nat list \<Rightarrow> 's option list \<Rightarrow> nat list \<Rightarrow> 's option list \<Rightarrow> nat list \<Rightarrow> bool" where
  "merged f s ts inputs queue inputs' queue' \<longleftrightarrow>
     length inputs' = length inputs \<and>
     (\<forall>t \<in> set ts. \<exists>u. inputs' ! t = Some u \<and> covers u s) \<and>
     (\<forall>b < length inputs. grown (inputs ! b) (inputs' ! b)) \<and>
     (\<forall>b < length inputs. inputs' ! b \<noteq> inputs ! b \<longrightarrow> b \<in> set queue') \<and>
     set queue \<subseteq> set queue' \<and> set queue' \<subseteq> set queue \<union> set ts \<and>
     (inputs' = inputs \<and> queue' = queue \<or> lighter f inputs' inputs)"

lemma merged_step:
  assumes m: "merged f s ts (inputs[t := Some u]) (queue @ [t]) inputs' queue'"
    and t: "t < length inputs" and g: "grown (inputs ! t) (Some u)" and c: "covers u s" and w: "lighter f (inputs[t := Some u]) inputs"
  shows "merged f s (t # ts) inputs queue inputs' queue'"
proof -
  note m = m [unfolded merged_def length_list_update]
  have "grown (Some u) (inputs' ! t)" using m t by fastforce
  then have "\<exists>v. inputs' ! t = Some v \<and> covers v s" using c by (auto simp: grown_def)
  moreover have "grown (inputs ! b) (inputs' ! b)" if "b < length inputs" for b
    using m that g grown_trans [OF g] t by (cases "b = t") (auto simp: nth_list_update)
  moreover have "b \<in> set queue'" if "b < length inputs" "inputs' ! b \<noteq> inputs ! b" for b
    using m that t by (cases "b = t") (auto simp: nth_list_update)
  moreover have "lighter f inputs' inputs" using m w lighter_trans by blast
  ultimately show ?thesis using m unfolding merged_def by auto
qed

lemma merge_all_merged:
  assumes "ok f s" "set ts \<subseteq> {..<length inputs}" "\<forall>e. Some e \<in> set inputs \<longrightarrow> ok f e"
  shows "\<exists>inputs' queue'. merge_all merge s ts inputs queue = Some (inputs', queue') \<and> merged f s ts inputs queue inputs' queue'"
  using assms
proof (induction ts arbitrary: inputs queue)
  case Nil
  then show ?case by (simp add: merged_def grown_refl)
next
  case (Cons t ts)
  have t: "t < length inputs" and ts: "set ts \<subseteq> {..<length inputs}" using Cons.prems by auto
  have get: "get inputs t = Some (inputs ! t)" using t by (simp add: get_eq_Some)
  have upd: "\<forall>e. Some e \<in> set (inputs[t := Some u]) \<longrightarrow> ok f e" if "ok f u" for u
    using Cons.prems(3) that set_update_subset_insert [of inputs t "Some u"] by blast
  show ?case
  proof (cases "inputs ! t")
    case None
    obtain inputs' queue' where r: "merge_all merge s ts (inputs[t := Some s]) (queue @ [t]) = Some (inputs', queue')"
      and m: "merged f s ts (inputs[t := Some s]) (queue @ [t]) inputs' queue'"
      using Cons.IH [of "inputs[t := Some s]" "queue @ [t]"] Cons.prems(1) ts upd by auto
    have "merged f s (t # ts) inputs queue inputs' queue'"
      by (rule merged_step [OF m t]) (simp_all add: None grown_def covers_def join_idem holes_fill t)
    then show ?thesis using r get None by simp
  next
    case (Some e)
    have e: "ok f e" using Cons.prems(3) Some t nth_mem by metis
    note me = merge_eq [OF e Cons.prems(1)]
    show ?thesis
    proof (cases "join e s = e")
      case True
      obtain inputs' queue' where r: "merge_all merge s ts inputs queue = Some (inputs', queue')"
        and m: "merged f s ts inputs queue inputs' queue'"
        using Cons.IH [of inputs queue] Cons.prems ts by auto
      have "grown (Some e) (inputs' ! t)" using m t Some unfolding merged_def by metis
      then have "\<exists>v. inputs' ! t = Some v \<and> covers v s" using True by (auto simp: grown_def covers_def)
      then have "merged f s (t # ts) inputs queue inputs' queue'" using m unfolding merged_def by auto
      then show ?thesis using r get Some me True by simp
    next
      case False
      obtain inputs' queue' where r: "merge_all merge s ts (inputs[t := Some (join e s)]) (queue @ [t]) = Some (inputs', queue')"
        and m: "merged f s ts (inputs[t := Some (join e s)]) (queue @ [t]) inputs' queue'"
        using Cons.IH [of "inputs[t := Some (join e s)]" "queue @ [t]"] Cons.prems(1) ts upd [OF ok_join [OF e Cons.prems(1)]] by auto
      have "merged f s (t # ts) inputs queue inputs' queue'"
        by (rule merged_step [OF m t])
          (simp_all add: Some grown_join, simp add: covers_def join_absorb, rule ranks_update [OF t Some rank_less [OF e Cons.prems(1) False]])
      then show ?thesis using r get Some me False by simp
    qed
  qed
qed

text \<open>
  The invariant of the loop, for a property \<open>Q\<close> of inputs that is closed under edges and joins and a property \<open>J\<close> of
  the side result: every input is good, the entry is covered, and a block that is not queued has passed its result to
  its successors and has been reported on.
\<close>

definition stable :: "'f \<Rightarrow> 's option list \<Rightarrow> 'x \<Rightarrow> nat \<Rightarrow> 's \<Rightarrow> bool" where
  "stable f inputs x b s \<longleftrightarrow>
     (\<forall>t \<in> set (succs f b). \<exists>u. inputs ! t = Some u \<and> covers u (tr f b s)) \<and> (\<exists>y. ext (eff f b s y) x)"

definition invariant :: "(nat \<Rightarrow> 's \<Rightarrow> bool) \<Rightarrow> ('x \<Rightarrow> bool) \<Rightarrow> 'f \<Rightarrow> 's option list \<Rightarrow> nat list \<Rightarrow> 'x \<Rightarrow> bool" where
  "invariant Q J f inputs queue x \<longleftrightarrow>
     length inputs = n f \<and> set queue \<subseteq> {..<n f} \<and> (\<exists>s. inputs ! 0 = Some s \<and> covers s (entry f)) \<and>
     (\<forall>b s. b < n f \<longrightarrow> inputs ! b = Some s \<longrightarrow> ok f s \<and> Q b s \<and> (b \<in> set queue \<or> stable f inputs x b s)) \<and> J x"

definition closed :: "(nat \<Rightarrow> 's \<Rightarrow> bool) \<Rightarrow> ('x \<Rightarrow> bool) \<Rightarrow> 'f \<Rightarrow> bool" where
  "closed Q J f \<longleftrightarrow>
     (\<forall>b s. b < n f \<longrightarrow> ok f s \<longrightarrow> Q b s \<longrightarrow> (\<forall>t \<in> set (succs f b). Q t (tr f b s)) \<and> (\<forall>x. J x \<longrightarrow> J (eff f b s x))) \<and>
     (\<forall>b e s. ok f e \<longrightarrow> ok f s \<longrightarrow> Q b e \<longrightarrow> Q b s \<longrightarrow> Q b (join e s))"

lemma closedD:
  assumes "closed Q J f"
  shows "b < n f \<Longrightarrow> ok f s \<Longrightarrow> Q b s \<Longrightarrow> t \<in> set (succs f b) \<Longrightarrow> Q t (tr f b s)"
    and "b < n f \<Longrightarrow> ok f s \<Longrightarrow> Q b s \<Longrightarrow> J x \<Longrightarrow> J (eff f b s x)"
    and "ok f e \<Longrightarrow> ok f s \<Longrightarrow> Q b e \<Longrightarrow> Q b s \<Longrightarrow> Q b (join e s)"
  using assms unfolding closed_def by blast+

text \<open>Whatever holds of the inputs and of the result that is merged, and is kept by joins, holds of the merged inputs.\<close>

lemma merge_all_keeps:
  assumes "ok f s" "\<And>e s b. ok f e \<Longrightarrow> ok f s \<Longrightarrow> Q b e \<Longrightarrow> Q b s \<Longrightarrow> Q b (join e s)"
  shows "merge_all merge s ts inputs queue = Some (inputs', queue') \<Longrightarrow> \<forall>t \<in> set ts. Q t s \<Longrightarrow>
    \<forall>b < length inputs. \<forall>e. inputs ! b = Some e \<longrightarrow> ok f e \<and> Q b e \<Longrightarrow>
    \<forall>b < length inputs'. \<forall>e. inputs' ! b = Some e \<longrightarrow> ok f e \<and> Q b e"
proof (induction ts arbitrary: inputs queue)
  case Nil
  from Nil.prems(1) have "inputs' = inputs" by simp
  then show ?case using Nil.prems(3) by (rule ssubst)
next
  case (Cons t ts)
  from Cons.prems(1) have t: "t < length inputs" by (auto simp: get_def split: if_splits)
  have upd: "\<forall>b < length (inputs[t := Some u]). \<forall>e. inputs[t := Some u] ! b = Some e \<longrightarrow> ok f e \<and> Q b e"
    if "ok f u" "Q t u" for u
    using Cons.prems(3) that t by (simp add: nth_list_update)
  show ?case
  proof (cases "inputs ! t")
    case None
    then have "merge_all merge s ts (inputs[t := Some s]) (queue @ [t]) = Some (inputs', queue')"
      using Cons.prems(1) t by (simp add: get_def)
    from Cons.IH [OF this _ upd [OF assms(1)]] Cons.prems(2) show ?thesis by simp
  next
    case (Some e)
    then have e: "ok f e" "Q t e" using Cons.prems(3) t by auto
    show ?thesis
    proof (cases "join e s = e")
      case True
      then have "merge_all merge s ts inputs queue = Some (inputs', queue')"
        using Cons.prems(1) t Some merge_eq [OF e(1) assms(1)] by (simp add: get_def)
      from Cons.IH [OF this _ Cons.prems(3)] Cons.prems(2) show ?thesis by simp
    next
      case False
      then have r: "merge_all merge s ts (inputs[t := Some (join e s)]) (queue @ [t]) = Some (inputs', queue')"
        using Cons.prems(1) t Some merge_eq [OF e(1) assms(1)] by (simp add: get_def)
      have "Q t (join e s)" using assms(2) [OF e(1) assms(1) e(2)] Cons.prems(2) by simp
      from Cons.IH [OF r _ upd [OF ok_join [OF e(1) assms(1)] this]] Cons.prems(2) show ?thesis by (meson list.set_intros(2))
    qed
  qed
qed

lemma stable_grown:
  assumes "stable f inputs x b s" "\<forall>t < length inputs. grown (inputs ! t) (inputs' ! t)" "ext x x'"
    and "\<forall>t \<in> set (succs f b). t < length inputs"
  shows "stable f inputs' x' b s"
proof -
  have "\<exists>u. inputs' ! t = Some u \<and> covers u (tr f b s)" if t: "t \<in> set (succs f b)" for t
  proof -
    obtain u where "inputs ! t = Some u" "covers u (tr f b s)" using assms(1) t by (auto simp: stable_def)
    then show ?thesis using assms(2,4) t unfolding grown_def by blast
  qed
  then show ?thesis using assms(1,3) ext_trans unfolding stable_def by blast
qed

lemma drain_step:
  assumes w: "wf f" and c: "closed Q J f" and inv: "invariant Q J f inputs (b # rest) x" and s: "inputs ! b = Some s"
    and r: "merge_all merge (tr f b s) (succs f b) inputs rest = Some (inputs', queue')"
    and m: "merged f (tr f b s) (succs f b) inputs rest inputs' queue'"
  shows "invariant Q J f inputs' queue' (eff f b s x)"
proof -
  note i = inv [unfolded invariant_def]
  note m = m [unfolded merged_def]
  have b: "b < n f" and len: "length inputs = n f" "length inputs' = n f" using i m by auto
  have ok: "ok f s" "Q b s" using i b s by auto
  have tb: "\<forall>t \<in> set (succs f c). t < length inputs" if "c < n f" for c using targets [OF w that] len by simp
  have keeps: "\<forall>c < length inputs'. \<forall>e. inputs' ! c = Some e \<longrightarrow> ok f e \<and> Q c e"
    by (rule merge_all_keeps [OF ok_tr [OF w b ok(1)] _ r]) (use closedD [OF c] b ok i len in auto)
  have grow: "\<forall>t < length inputs. grown (inputs ! t) (inputs' ! t)" using m by blast
  have "c \<in> set queue' \<or> stable f inputs' (eff f b s x) c e" if "c < n f" "inputs' ! c = Some e" for c e
  proof (cases "c \<in> set queue'")
    case False
    then have same: "inputs' ! c = inputs ! c" "c \<notin> set rest" using m that len by auto
    show ?thesis
    proof (cases "c = b")
      case True
      then have "e = s" using same that s by simp
      then have "stable f inputs' (eff f b s x) c e" using m True ext_refl by (auto simp: stable_def)
      then show ?thesis ..
    next
      case False
      then have "stable f inputs x c e" using i that same by auto
      then show ?thesis using stable_grown [OF _ grow eff_ext tb] that by blast
    qed
  qed simp
  moreover obtain s0 where "inputs ! 0 = Some s0" "covers s0 (entry f)" using i by blast
  then have "\<exists>s. inputs' ! 0 = Some s \<and> covers s (entry f)" using grow len nonempty [OF w] unfolding grown_def by metis
  moreover have "set queue' \<subseteq> {..<n f}" using m i tb [OF b] len by auto
  moreover have "J (eff f b s x)" using closedD(2) [OF c b ok] i by blast
  ultimately show ?thesis using keeps len unfolding invariant_def by auto
qed

lemma drain_invariant:
  assumes w: "wf f" and c: "closed Q J f"
  shows "invariant Q J f inputs queue x \<Longrightarrow>
    \<exists>inputs' x'. drain merge (run f) (succs f) inputs queue x = Some (inputs', x') \<and> invariant Q J f inputs' [] x'"
proof (induction "(inputs, queue)" arbitrary: inputs queue x
    rule: wf_induct_rule [OF wf_measures [of "[\<lambda>(i, q). holes i, \<lambda>(i, q). ranks f i, \<lambda>(i, q). length q]"]])
  case (1 inputs queue)
  note inv = 1(2)
  note IH = 1(1)
  show ?case
  proof (cases queue)
    case Nil
    then show ?thesis using inv by (subst drain.simps) simp
  next
    case (Cons b rest)
    have b: "b < length inputs" and len: "length inputs = n f" using inv Cons by (auto simp: invariant_def)
    have get: "get inputs b = Some (inputs ! b)" using b by (simp add: get_eq_Some)
    show ?thesis
    proof (cases "inputs ! b")
      case None
      have "c \<in> set rest \<or> stable f inputs x c s" if "c < n f" "inputs ! c = Some s" for c s
        using inv None that by (cases "c = b") (auto simp: invariant_def Cons)
      then have "invariant Q J f inputs rest x" using inv unfolding invariant_def Cons by auto
      from IH [OF _ this] have "\<exists>inputs' x'. drain merge (run f) (succs f) inputs rest x = Some (inputs', x') \<and> invariant Q J f inputs' [] x'"
        by (simp add: Cons)
      then show ?thesis using get None by (subst drain.simps) (simp add: Cons)
    next
      case (Some s)
      have s: "ok f s" using inv b len Some by (auto simp: invariant_def)
      have bn: "b < n f" using b len by simp
      have "\<forall>e. Some e \<in> set inputs \<longrightarrow> ok f e" using inv by (auto simp: invariant_def in_set_conv_nth)
      then obtain inputs' queue' where r: "merge_all merge (tr f b s) (succs f b) inputs rest = Some (inputs', queue')"
        and m: "merged f (tr f b s) (succs f b) inputs rest inputs' queue'"
        using merge_all_merged [OF ok_tr [OF w bn s], of "succs f b" inputs rest] targets [OF w bn] len by auto
      have inv': "invariant Q J f inputs' queue' (eff f b s x)"
        using drain_step [OF w c inv [unfolded Cons] Some r m] .
      have "((inputs', queue'), inputs, queue) \<in> measures [\<lambda>(i, q). holes i, \<lambda>(i, q). ranks f i, \<lambda>(i, q). length q]"
        using m by (auto simp: merged_def lighter_def Cons)
      from IH [OF this inv'] have "\<exists>i x'. drain merge (run f) (succs f) inputs' queue' (eff f b s x) = Some (i, x') \<and> invariant Q J f i [] x'" .
      then show ?thesis using get Some r run_eq [OF w bn s] by (subst drain.simps) (simp add: Cons)
    qed
  qed
qed

theorem solve_invariant:
  assumes w: "wf f" and c: "closed Q J f" and "Q 0 (entry f)" "J x"
  shows "\<exists>inputs x'. solve merge (run f) (succs f) (n f) (entry f) x = Some (inputs, x') \<and> invariant Q J f inputs [] x'"
proof -
  have "invariant Q J f ((replicate (n f) None)[0 := Some (entry f)]) [0] x"
    using nonempty [OF w] ok_entry [OF w] assms(3,4)
    by (auto simp: invariant_def nth_list_update covers_def join_idem split: if_splits)
  then show ?thesis using drain_invariant [OF w c] by (simp add: solve_def)
qed

end

end
