(* ===== verification/Mir_Analysis.thy ===== *)
theory Mir_Analysis
  imports Mir_Dataflow
begin

text \<open>
  What the analyses of \<open>jadren-mir\<close> share beyond the loop: the list of errors with its set of reported keys, and three
  locales over the events of a function. An analysis that steps through the events of a block and checks each against
  its state is sound: if it reports nothing, every event of every path finds a state that the checks accept. If its
  states come from paths, each thing in the state at a point is the work of some path to the point. An exact
  analysis reports something only if some path really violates the rule.
\<close>

subsection \<open>Reports\<close>

declare split_paired_Ex [simp del] split_paired_All [simp del]

type_synonym Report = "(32 word \<times> nat \<times> LocalId) set \<times> MirError list"

definition no_report :: Report where
  "no_report = ({}, [])"

definition report :: "ustring \<Rightarrow> ustring \<Rightarrow> Span \<Rightarrow> LocalId \<Rightarrow> Report \<Rightarrow> Report" where
  "report c message span l x =
     (let key = (source_index (span_source span), span_start span, l) in
      if key \<in> fst x then x else (insert key (fst x), snd x @ [mir_error c span message]))"

definition blank :: "Report \<Rightarrow> bool" where
  "blank x \<longleftrightarrow> x = no_report"

definition coherent :: "Report \<Rightarrow> bool" where
  "coherent x \<longleftrightarrow> (snd x = [] \<longrightarrow> fst x = {})"

lemma blank_report [simp]: "\<not> blank (report c m s l x)"
  by (auto simp: blank_def no_report_def report_def Let_def split: if_splits)

lemma coherent_report [simp]: "coherent x \<Longrightarrow> coherent (report c m s l x)"
  by (auto simp: coherent_def report_def Let_def)

lemma blank_no_report [simp]: "blank no_report" "coherent no_report"
  by (simp_all add: blank_def coherent_def no_report_def)

lemma coherent_silent: "coherent x \<Longrightarrow> snd x = [] \<longleftrightarrow> blank x"
  by (cases x) (auto simp: coherent_def blank_def no_report_def)

text \<open>A loop of checks over a list reports nothing if no check does.\<close>

lemma blank_foldl:
  assumes "\<And>a x. blank (check a x) \<longleftrightarrow> blank x \<and> P a"
  shows "blank (foldl (\<lambda>x a. check a x) x as) \<longleftrightarrow> blank x \<and> (\<forall>a \<in> set as. P a)"
  by (induction as arbitrary: x) (auto simp: assms)

lemma coherent_foldl:
  assumes "\<And>a x. coherent x \<Longrightarrow> coherent (check a x)"
  shows "coherent x \<Longrightarrow> coherent (foldl (\<lambda>x a. check a x) x as)"
  by (induction as arbitrary: x) (auto simp: assms)

subsection \<open>Stepping through a block\<close>

fun run_events :: "(MirEvent \<Rightarrow> 's \<times> 'x \<Rightarrow> ('s \<times> 'x) option) \<Rightarrow> MirEvent list \<Rightarrow> 's \<times> 'x \<Rightarrow> ('s \<times> 'x) option" where
  "run_events event [] sx = Some sx"
| "run_events event (ev # evs) sx = Option.bind (event ev sx) (run_events event evs)"

definition run_block :: "(MirEvent \<Rightarrow> 's \<times> 'x \<Rightarrow> ('s \<times> 'x) option) \<Rightarrow> MirFunction \<Rightarrow> BasicBlockId \<Rightarrow> 's \<Rightarrow> 'x \<Rightarrow> ('s \<times> 'x) option" where
  "run_block event f b s x = run_events event (events_of f b) (s, x)"

definition analyse ::
  "('s \<Rightarrow> 's \<Rightarrow> 's \<times> bool) \<Rightarrow> (MirEvent \<Rightarrow> 's \<times> 'x \<Rightarrow> ('s \<times> 'x) option) \<Rightarrow> MirFunction \<Rightarrow> 's \<Rightarrow> 'x \<Rightarrow> ('s option list \<times> 'x) option" where
  "analyse merge event f entry x = solve merge (run_block event f) (succs_of f) (length (mir_blocks f)) entry x"

subsection \<open>What is in force after a path\<close>

text \<open>
  A fact that some events establish and others end is in force after a path if an event established it and none ended
  it since, or if it was in force at the start and none has ended it. An event that does both establishes it.
\<close>

definition in_force :: "('e \<Rightarrow> 'a set) \<Rightarrow> ('e \<Rightarrow> 'a set) \<Rightarrow> 'a set \<Rightarrow> 'e list \<Rightarrow> 'a \<Rightarrow> bool" where
  "in_force gains loses S tr a \<longleftrightarrow>
     (\<exists>xs ev ys. tr = xs @ ev # ys \<and> a \<in> gains ev \<and> (\<forall>e \<in> set ys. a \<notin> loses e)) \<or> (a \<in> S \<and> (\<forall>e \<in> set tr. a \<notin> loses e))"

lemma in_force_snoc:
  "in_force gains loses S (tr @ [ev]) a \<longleftrightarrow> a \<in> gains ev \<or> (in_force gains loses S tr a \<and> a \<notin> loses ev)"
proof
  assume "in_force gains loses S (tr @ [ev]) a"
  then consider xs e ys where "tr @ [ev] = xs @ e # ys" "a \<in> gains e" "\<forall>e \<in> set ys. a \<notin> loses e"
    | "a \<in> S" "\<forall>e \<in> set (tr @ [ev]). a \<notin> loses e" unfolding in_force_def by blast
  then show "a \<in> gains ev \<or> (in_force gains loses S tr a \<and> a \<notin> loses ev)"
  proof cases
    case 1
    then show ?thesis by (cases ys rule: rev_cases) (auto simp: in_force_def)
  next
    case 2
    then show ?thesis by (auto simp: in_force_def)
  qed
next
  assume "a \<in> gains ev \<or> (in_force gains loses S tr a \<and> a \<notin> loses ev)"
  then consider "a \<in> gains ev" | xs e ys where "tr = xs @ e # ys" "a \<in> gains e" "\<forall>e \<in> set ys. a \<notin> loses e" "a \<notin> loses ev"
    | "a \<in> S" "\<forall>e \<in> set tr. a \<notin> loses e" "a \<notin> loses ev" unfolding in_force_def by blast
  then show "in_force gains loses S (tr @ [ev]) a"
  proof cases
    case 1
    then have "tr @ [ev] = tr @ ev # [] \<and> a \<in> gains ev \<and> (\<forall>e \<in> set []. a \<notin> loses e)" by simp
    then show ?thesis unfolding in_force_def by blast
  next
    case 2
    then have "tr @ [ev] = xs @ e # (ys @ [ev]) \<and> a \<in> gains e \<and> (\<forall>e \<in> set (ys @ [ev]). a \<notin> loses e)" by auto
    then show ?thesis unfolding in_force_def by blast
  qed (auto simp: in_force_def)
qed

lemma in_force_foldl: "foldl (\<lambda>S e. (S - loses e) \<union> gains e) S tr = {a. in_force gains loses S tr a}"
proof (induction tr rule: rev_induct)
  case (snoc ev tr)
  then show ?case by (auto simp: in_force_snoc)
qed (simp add: in_force_def)

subsection \<open>Joins of finite sets\<close>

lemma merge_inter_eq: "merge_inter e s = (e \<inter> s, e \<inter> s \<noteq> e)"
  by (auto simp: merge_inter_def Let_def)

lemma merge_union_eq:
  assumes "finite e" "finite s"
  shows "merge_union e s = (e \<union> s, e \<union> s \<noteq> e)"
proof -
  have "card (e \<union> s) = card e \<longleftrightarrow> e \<union> s = e"
    using assms card_subset_eq [of "e \<union> s" e] by auto
  then show ?thesis by (simp add: merge_union_def Let_def)
qed

lemma card_inter_less: "finite e \<Longrightarrow> e \<inter> s \<noteq> e \<Longrightarrow> card (e \<inter> s) < card e"
  by (intro psubset_card_mono) auto

lemma card_union_less: "finite U \<Longrightarrow> s \<subseteq> U \<Longrightarrow> e \<union> s \<noteq> e \<Longrightarrow> card (U - (e \<union> s)) < card (U - e)"
  by (intro psubset_card_mono) auto

lemma finite_all_events: "finite (all_events f)"
  by (simp add: all_events_def)

subsection \<open>Forward analyses\<close>

locale forward_analysis =
  fixes wf :: "MirFunction \<Rightarrow> bool"
    and entry :: "MirFunction \<Rightarrow> 's"
    and merge :: "'s \<Rightarrow> 's \<Rightarrow> 's \<times> bool"
    and join :: "'s \<Rightarrow> 's \<Rightarrow> 's"
    and event :: "MirFunction \<Rightarrow> MirEvent \<Rightarrow> 's \<times> 'x \<Rightarrow> ('s \<times> 'x) option"
    and step :: "MirFunction \<Rightarrow> MirEvent \<Rightarrow> 's \<Rightarrow> 's"
    and fine :: "MirFunction \<Rightarrow> MirEvent \<Rightarrow> 's \<Rightarrow> bool"
    and ok :: "MirFunction \<Rightarrow> 's \<Rightarrow> bool"
    and rank :: "MirFunction \<Rightarrow> 's \<Rightarrow> nat"
    and start :: "MirFunction \<Rightarrow> 'p"
    and exec :: "MirFunction \<Rightarrow> MirEvent \<Rightarrow> 'p \<Rightarrow> 'p"
    and approx :: "MirFunction \<Rightarrow> 'p \<Rightarrow> 's \<Rightarrow> bool"
    and quiet :: "'x \<Rightarrow> bool"
    and sane :: "'x \<Rightarrow> bool"
    and unreported :: 'x
  assumes graph: "wf f \<Longrightarrow> cfg_ok f"
    and event_step: "wf f \<Longrightarrow> ev \<in> all_events f \<Longrightarrow> ok f s \<Longrightarrow>
      \<exists>x'. event f ev (s, x) = Some (step f ev s, x') \<and> (quiet x' \<longleftrightarrow> quiet x \<and> fine f ev s) \<and> (sane x \<longrightarrow> sane x')"
    and ok_entry: "wf f \<Longrightarrow> ok f (entry f)"
    and ok_step: "wf f \<Longrightarrow> ev \<in> all_events f \<Longrightarrow> ok f s \<Longrightarrow> ok f (step f ev s)"
    and ok_join: "ok f e \<Longrightarrow> ok f s \<Longrightarrow> ok f (join e s)"
    and merge_eq: "ok f e \<Longrightarrow> ok f s \<Longrightarrow> merge e s = (join e s, join e s \<noteq> e)"
    and join_idem: "join s s = s"
    and join_absorb: "join (join e s) s = join e s"
    and join_keep: "join e s = e \<Longrightarrow> join (join e u) s = join e u"
    and rank_less: "ok f e \<Longrightarrow> ok f s \<Longrightarrow> join e s \<noteq> e \<Longrightarrow> rank f (join e s) < rank f e"
    and approx_start: "wf f \<Longrightarrow> approx f (start f) (entry f)"
    and approx_exec: "wf f \<Longrightarrow> ev \<in> all_events f \<Longrightarrow> approx f p s \<Longrightarrow> fine f ev s \<Longrightarrow> approx f (exec f ev p) (step f ev s)"
    and approx_join: "join u s = u \<Longrightarrow> ok f u \<Longrightarrow> approx f p s \<Longrightarrow> approx f p u"
    and quiet_unreported: "quiet unreported" and sane_unreported: "sane unreported"
begin

definition path :: "MirFunction \<Rightarrow> MirEvent list \<Rightarrow> 'p" where
  "path f tr = foldl (\<lambda>p ev. exec f ev p) (start f) tr"

definition steps :: "MirFunction \<Rightarrow> MirEvent list \<Rightarrow> 's \<Rightarrow> 's" where
  "steps f evs s = foldl (\<lambda>s ev. step f ev s) s evs"

fun all_fine :: "MirFunction \<Rightarrow> MirEvent list \<Rightarrow> 's \<Rightarrow> bool" where
  "all_fine f [] s \<longleftrightarrow> True"
| "all_fine f (ev # evs) s \<longleftrightarrow> fine f ev s \<and> all_fine f evs (step f ev s)"

definition report_of :: "('s \<times> 'x) option \<Rightarrow> 'x" where
  "report_of r = snd (the r)"

definition effect :: "MirFunction \<Rightarrow> nat \<Rightarrow> 's \<Rightarrow> 'x \<Rightarrow> 'x" where
  "effect f b s x =
     (if wf f \<and> b < length (mir_blocks f) \<and> ok f s then report_of (run_block (event f) f b s x) else x)"

lemma steps_simps [simp]: "steps f [] s = s" "steps f (ev # evs) s = steps f evs (step f ev s)"
  by (simp_all add: steps_def)

lemma steps_append: "steps f (xs @ ys) s = steps f ys (steps f xs s)"
  by (simp add: steps_def)

lemma path_append [simp]: "path f (tr @ [ev]) = exec f ev (path f tr)" "path f [] = start f"
  by (simp_all add: path_def)

lemma run_events_steps:
  assumes "wf f"
  shows "set evs \<subseteq> all_events f \<Longrightarrow> ok f s \<Longrightarrow>
    \<exists>x'. run_events (event f) evs (s, x) = Some (steps f evs s, x') \<and>
      (quiet x' \<longleftrightarrow> quiet x \<and> all_fine f evs s) \<and> (sane x \<longrightarrow> sane x') \<and> ok f (steps f evs s)"
proof (induction evs arbitrary: s x)
  case (Cons ev evs)
  have ev: "ev \<in> all_events f" using Cons.prems(1) by simp
  obtain x1 where x1: "event f ev (s, x) = Some (step f ev s, x1)" "quiet x1 \<longleftrightarrow> quiet x \<and> fine f ev s"
    "sane x \<longrightarrow> sane x1" using event_step [OF assms ev Cons.prems(2)] by blast
  obtain x2 where "run_events (event f) evs (step f ev s, x1) = Some (steps f evs (step f ev s), x2)"
    "quiet x2 \<longleftrightarrow> quiet x1 \<and> all_fine f evs (step f ev s)" "sane x1 \<longrightarrow> sane x2" "ok f (steps f evs (step f ev s))"
    using Cons.IH [OF _ ok_step [OF assms ev Cons.prems(2)], of x1] Cons.prems(1) by (meson set_subset_Cons subset_trans)
  then show ?case using x1 by auto
qed simp

lemma run_block_steps:
  assumes "wf f" "b < length (mir_blocks f)" "ok f s"
  shows "run_block (event f) f b s x = Some (steps f (events_of f b) s, effect f b s x)"
    and "quiet (effect f b s x) \<longleftrightarrow> quiet x \<and> all_fine f (events_of f b) s"
    and "sane x \<Longrightarrow> sane (effect f b s x)"
    and "ok f (steps f (events_of f b) s)"
  using run_events_steps [OF assms(1) events_of_all [OF assms(2)] assms(3), of x] assms
  unfolding run_block_def effect_def report_of_def by auto

sublocale flow: dataflow wf "\<lambda>f. length (mir_blocks f)" succs_of entry merge join "\<lambda>f. run_block (event f) f"
  "\<lambda>f b s. steps f (events_of f b) s" effect ok rank "\<lambda>x y. quiet y \<longrightarrow> quiet x"
proof
  fix f :: MirFunction and b t s x
  show "wf f \<Longrightarrow> 0 < length (mir_blocks f)" using graph by (auto simp: cfg_ok_def)
  show "wf f \<Longrightarrow> b < length (mir_blocks f) \<Longrightarrow> t \<in> set (succs_of f b) \<Longrightarrow> t < length (mir_blocks f)"
    using graph cfg_ok_succs by blast
  show "wf f \<Longrightarrow> b < length (mir_blocks f) \<Longrightarrow> ok f s \<Longrightarrow>
      run_block (event f) f b s x = Some (steps f (events_of f b) s, effect f b s x)" by (rule run_block_steps)
  show "wf f \<Longrightarrow> b < length (mir_blocks f) \<Longrightarrow> ok f s \<Longrightarrow> ok f (steps f (events_of f b) s)" by (rule run_block_steps)
  show "quiet (effect f b s x) \<longrightarrow> quiet x" using run_block_steps(2) by (auto simp: effect_def)
qed (auto intro: ok_entry ok_join merge_eq join_idem join_absorb join_keep rank_less)

lemma all_fine_append: "all_fine f (xs @ ys) s \<longleftrightarrow> all_fine f xs s \<and> all_fine f ys (steps f xs s)"
  by (induction xs arbitrary: s) auto

text \<open>The result of the loop when nothing is reported: every block that a path reaches has an input that approximates it.\<close>

definition solved :: "MirFunction \<Rightarrow> 's option list \<Rightarrow> 'x \<Rightarrow> bool" where
  "solved f inputs x \<longleftrightarrow> flow.invariant (\<lambda>b s. True) sane f inputs [] x"

lemma analyse_solved:
  assumes "wf f"
  shows "\<exists>inputs x. analyse merge (event f) f (entry f) unreported = Some (inputs, x) \<and> solved f inputs x"
proof -
  have "flow.closed (\<lambda>b s. True) sane f" unfolding flow.closed_def using run_block_steps(3) [OF assms] by auto
  from flow.solve_invariant [OF assms this _ sane_unreported] show ?thesis unfolding solved_def analyse_def by simp
qed

lemma solved_simps:
  assumes "solved f inputs x"
  shows "sane x" "length inputs = length (mir_blocks f)"
    and "\<exists>s. inputs ! 0 = Some s \<and> join s (entry f) = s"
    and "b < length (mir_blocks f) \<Longrightarrow> inputs ! b = Some s \<Longrightarrow> ok f s"
    and "b < length (mir_blocks f) \<Longrightarrow> inputs ! b = Some s \<Longrightarrow> t \<in> set (succs_of f b) \<Longrightarrow>
      \<exists>u. inputs ! t = Some u \<and> join u (steps f (events_of f b) s) = u"
    and "wf f \<Longrightarrow> quiet x \<Longrightarrow> b < length (mir_blocks f) \<Longrightarrow> inputs ! b = Some s \<Longrightarrow> all_fine f (events_of f b) s"
proof -
  note i = assms [unfolded solved_def flow.invariant_def flow.covers_def flow.stable_def]
  show "sane x" "length inputs = length (mir_blocks f)" "\<exists>s. inputs ! 0 = Some s \<and> join s (entry f) = s" using i by auto
  show "b < length (mir_blocks f) \<Longrightarrow> inputs ! b = Some s \<Longrightarrow> ok f s" using i by blast
  show "b < length (mir_blocks f) \<Longrightarrow> inputs ! b = Some s \<Longrightarrow> t \<in> set (succs_of f b) \<Longrightarrow>
      \<exists>u. inputs ! t = Some u \<and> join u (steps f (events_of f b) s) = u" using i by auto
  assume "wf f" "quiet x" "b < length (mir_blocks f)" "inputs ! b = Some s"
  moreover from this i obtain y where "quiet (effect f b s y)" by fastforce
  moreover have "ok f s" using i calculation by blast
  ultimately show "all_fine f (events_of f b) s" using run_block_steps(2) by blast
qed

lemma all_fine_nth: "all_fine f evs s \<Longrightarrow> i < length evs \<Longrightarrow> fine f (evs ! i) (steps f (take i evs) s)"
  using all_fine_append [of f "take i evs" "evs ! i # drop (Suc i) evs" s] by (simp add: id_take_nth_drop [symmetric])

text \<open>What holds at the entry and is kept by joins and by every event that is accepted, holds along every path.\<close>

lemma solved_flow:
  assumes w: "wf f" and s: "solved f inputs x" and x: "quiet x" and start: "A [] (entry f)"
    and joined: "\<And>tr s u. join u s = u \<Longrightarrow> ok f u \<Longrightarrow> A tr s \<Longrightarrow> A tr u"
    and kept: "\<And>b i tr s. at_point f b i tr \<Longrightarrow> inputs ! b = Some s \<Longrightarrow> A tr (steps f (take i (events_of f b)) s) \<Longrightarrow>
      fine f (events_of f b ! i) (steps f (take i (events_of f b)) s) \<Longrightarrow>
      A (tr @ [events_of f b ! i]) (step f (events_of f b ! i) (steps f (take i (events_of f b)) s))"
  shows "trace_to f b tr \<Longrightarrow> \<exists>s. inputs ! b = Some s \<and> A tr s"
    and "at_point f b i tr \<Longrightarrow> \<exists>s. inputs ! b = Some s \<and> A tr (steps f (take i (events_of f b)) s) \<and>
      fine f (events_of f b ! i) (steps f (take i (events_of f b)) s)"
proof -
  have fine: "fine f (events_of f b ! i) (steps f (take i (events_of f b)) s)"
    if "b < length (mir_blocks f)" "inputs ! b = Some s" "i < length (events_of f b)" for b s i
    using all_fine_nth [OF solved_simps(6) [OF s w x that(1,2)] that(3)] .
  have block: "A (tr @ take i (events_of f b)) (steps f (take i (events_of f b)) s)"
    if "trace_to f b tr" "inputs ! b = Some s" "A tr s" "i \<le> length (events_of f b)" for b tr s i
    using that(4)
  proof (induction i)
    case (Suc i)
    have b: "b < length (mir_blocks f)" using trace_to_bound [OF graph [OF w] that(1)] .
    have i: "i < length (events_of f b)" using Suc.prems by simp
    have "at_point f b i (tr @ take i (events_of f b))" using that(1) i unfolding at_point_def by blast
    from kept [OF this that(2) _ fine [OF b that(2) i]] Suc.IH Suc.prems show ?case
      by (simp add: take_Suc_conv_app_nth steps_append)
  qed (simp add: that(3))
  show trace: "\<exists>s. inputs ! b = Some s \<and> A tr s" if "trace_to f b tr" for b tr
    using that
  proof (induction rule: trace_to.induct)
    case entry
    obtain u where u: "inputs ! 0 = Some u" "join u (entry f) = u" using solved_simps(3) [OF s] by blast
    have "0 < length (mir_blocks f)" using graph [OF w] by (simp add: cfg_ok_def)
    then have "ok f u" using solved_simps(4) [OF s _ u(1)] by blast
    then show ?case using joined [OF u(2) _ start] u(1) by simp
  next
    case (step b tr t)
    then obtain s1 where s1: "inputs ! b = Some s1" "A tr s1" by blast
    have b: "b < length (mir_blocks f)" using trace_to_bound [OF graph [OF w] step.hyps(1)] .
    obtain u where u: "inputs ! t = Some u" "join u (steps f (events_of f b) s1) = u"
      using solved_simps(5) [OF s b s1(1) step.hyps(2)] by blast
    have "A (tr @ events_of f b) (steps f (events_of f b) s1)" using block [OF step.hyps(1) s1 order.refl] by simp
    moreover have "ok f u" using solved_simps(4) [OF s _ u(1)] flow.targets [OF w b step.hyps(2)] by blast
    ultimately show ?case using u joined by blast
  qed
  show "\<exists>s. inputs ! b = Some s \<and> A tr (steps f (take i (events_of f b)) s) \<and>
      fine f (events_of f b ! i) (steps f (take i (events_of f b)) s)" if at: "at_point f b i tr"
  proof -
    obtain t0 where t0: "trace_to f b t0" "i < length (events_of f b)" "tr = t0 @ take i (events_of f b)"
      using at unfolding at_point_def by blast
    obtain s1 where s1: "inputs ! b = Some s1" "A t0 s1" using trace [OF t0(1)] by blast
    show ?thesis using block [OF t0(1) s1] fine [OF trace_to_bound [OF graph [OF w] t0(1)] s1(1) t0(2)] s1(1) t0(2,3) by auto
  qed
qed

lemma point_event: "wf f \<Longrightarrow> at_point f b i tr \<Longrightarrow> events_of f b ! i \<in> all_events f"
  using events_of_all trace_to_bound [OF graph] nth_mem unfolding at_point_def by blast

lemma solved_approx:
  assumes w: "wf f" and s: "solved f inputs x" and x: "quiet x"
  shows "trace_to f b tr \<Longrightarrow> \<exists>s. inputs ! b = Some s \<and> approx f (path f tr) s"
    and "at_point f b i tr \<Longrightarrow> \<exists>s. inputs ! b = Some s \<and> approx f (path f tr) (steps f (take i (events_of f b)) s) \<and>
      fine f (events_of f b ! i) (steps f (take i (events_of f b)) s)"
proof -
  have kept: "approx f (path f (tr @ [events_of f b ! i])) (step f (events_of f b ! i) (steps f (take i (events_of f b)) s))"
    if "at_point f b i tr" "inputs ! b = Some s" "approx f (path f tr) (steps f (take i (events_of f b)) s)"
      "fine f (events_of f b ! i) (steps f (take i (events_of f b)) s)" for b i tr s
    using approx_exec [OF w point_event [OF w that(1)] that(3,4)] by simp
  note flow = solved_flow [OF w s x, where A = "\<lambda>tr s. approx f (path f tr) s", OF _ approx_join kept]
  show "trace_to f b tr \<Longrightarrow> \<exists>s. inputs ! b = Some s \<and> approx f (path f tr) s"
    by (rule flow(1)) (use approx_start [OF w] in auto)
  show "at_point f b i tr \<Longrightarrow> \<exists>s. inputs ! b = Some s \<and> approx f (path f tr) (steps f (take i (events_of f b)) s) \<and>
      fine f (events_of f b ! i) (steps f (take i (events_of f b)) s)"
    by (rule flow(2)) (use approx_start [OF w] in auto)
qed

lemmas solved_trace = solved_approx(1)

theorem silent_approx:
  assumes w: "wf f" and s: "solved f inputs x" and x: "quiet x" and ev: "at_event f tr ev"
  shows "ev \<in> all_events f \<and> (\<exists>s. approx f (path f tr) s \<and> fine f ev s)"
proof -
  obtain b i where "at_point f b i tr" "events_of f b ! i = ev" using ev unfolding at_event_point by blast
  then show ?thesis using solved_approx(2) [OF w s x] point_event [OF w] by blast
qed

end

subsection \<open>Analyses whose states come from paths\<close>

text \<open>
  Evidence \<open>a\<close> is something that a state of the analysis may have, \<open>shows_ev a s\<close>, and that a path may have, \<open>holds a p\<close>.
  In such an analysis evidence is never invented: it comes from one of the joined states, from the step itself, or from
  evidence before the step that the same path has.
\<close>

locale traced_analysis = forward_analysis wf entry merge join event step fine ok rank start exec approx quiet sane unreported
  for wf :: "MirFunction \<Rightarrow> bool" and entry :: "MirFunction \<Rightarrow> 's" and merge join and event step fine ok rank
    and start :: "MirFunction \<Rightarrow> 'p" and exec approx and quiet sane :: "'x \<Rightarrow> bool" and unreported +
  fixes shows_ev :: "'a \<Rightarrow> 's \<Rightarrow> bool"
    and holds :: "'a \<Rightarrow> 'p \<Rightarrow> bool"
  assumes shows_entry: "wf f \<Longrightarrow> shows_ev a (entry f) \<Longrightarrow> holds a (start f)"
    and shows_join: "shows_ev a (join e s) \<Longrightarrow> shows_ev a e \<or> shows_ev a s"
    and shows_step: "shows_ev a (step f ev s) \<Longrightarrow>
      (\<forall>p. holds a (exec f ev p)) \<or> (\<exists>a'. shows_ev a' s \<and> (\<forall>p. holds a' p \<longrightarrow> holds a (exec f ev p)))"
begin

definition evidenced :: "MirFunction \<Rightarrow> nat \<Rightarrow> 's \<Rightarrow> bool" where
  "evidenced f b s \<longleftrightarrow> (\<exists>tr. trace_to f b tr) \<and> (\<forall>a. shows_ev a s \<longrightarrow> (\<exists>tr. trace_to f b tr \<and> holds a (path f tr)))"

lemma steps_evidence:
  "shows_ev a (steps f evs s) \<Longrightarrow>
    (\<forall>tr. holds a (path f (tr @ evs))) \<or>
    (\<exists>a'. shows_ev a' s \<and> (\<forall>tr. holds a' (path f tr) \<longrightarrow> holds a (path f (tr @ evs))))"
proof (induction evs arbitrary: a rule: rev_induct)
  case (snoc ev evs)
  from snoc.prems have "shows_ev a (step f ev (steps f evs s))" by (simp add: steps_append)
  from shows_step [OF this] show ?case
  proof
    assume "\<exists>a'. shows_ev a' (steps f evs s) \<and> (\<forall>p. holds a' p \<longrightarrow> holds a (exec f ev p))"
    then obtain a' where a': "shows_ev a' (steps f evs s)" "\<forall>p. holds a' p \<longrightarrow> holds a (exec f ev p)" by blast
    from snoc.IH [OF a'(1)] a'(2) show ?thesis by (metis path_append(1) append_assoc)
  next
    assume "\<forall>p. holds a (exec f ev p)"
    then show ?thesis by (metis path_append(1) append_assoc)
  qed
qed auto

lemma evidenced_steps:
  assumes e: "evidenced f b s" and t: "t \<in> set (succs_of f b)"
  shows "evidenced f t (steps f (events_of f b) s)"
  unfolding evidenced_def
proof (intro conjI allI impI)
  obtain tr0 where tr0: "trace_to f b tr0" using e by (auto simp: evidenced_def)
  then show "\<exists>tr. trace_to f t tr" using trace_to.step [OF _ t] by blast
  fix a
  assume "shows_ev a (steps f (events_of f b) s)"
  from steps_evidence [OF this] show "\<exists>tr. trace_to f t tr \<and> holds a (path f tr)"
  proof
    assume "\<forall>tr. holds a (path f (tr @ events_of f b))"
    then show ?thesis using trace_to.step [OF tr0 t] by blast
  next
    assume "\<exists>a'. shows_ev a' s \<and> (\<forall>tr. holds a' (path f tr) \<longrightarrow> holds a (path f (tr @ events_of f b)))"
    then show ?thesis using e trace_to.step [OF _ t] unfolding evidenced_def by blast
  qed
qed

lemma evidenced_closed:
  assumes "\<And>b s x. b < length (mir_blocks f) \<Longrightarrow> ok f s \<Longrightarrow> evidenced f b s \<Longrightarrow> J x \<Longrightarrow> J (effect f b s x)"
  shows "flow.closed (evidenced f) J f" "wf f \<Longrightarrow> evidenced f 0 (entry f)"
proof -
  show "flow.closed (evidenced f) J f"
    unfolding flow.closed_def
  proof (intro conjI allI impI ballI)
    fix b s t
    assume "evidenced f b s" "t \<in> set (succs_of f b)"
    then show "evidenced f t (steps f (events_of f b) s)" by (rule evidenced_steps)
  next
    fix b e s
    assume "evidenced f b e" "evidenced f b s"
    then show "evidenced f b (join e s)" unfolding evidenced_def using shows_join by blast
  qed (rule assms)
  show "wf f \<Longrightarrow> evidenced f 0 (entry f)"
    using shows_entry [of f] trace_to.entry [of f] path_append(2) unfolding evidenced_def by metis
qed

theorem analyse_traced:
  assumes w: "wf f"
  shows "\<exists>inputs x. analyse merge (event f) f (entry f) unreported = Some (inputs, x) \<and> solved f inputs x \<and>
    (\<forall>b < length (mir_blocks f). \<forall>s. inputs ! b = Some s \<longrightarrow> evidenced f b s)"
proof -
  obtain inputs x where r: "analyse merge (event f) f (entry f) unreported = Some (inputs, x)" and s: "solved f inputs x"
    using analyse_solved [OF w] by blast
  have "flow.invariant (evidenced f) (\<lambda>x. True) f inputs [] x"
    using flow.solve_invariant [OF w evidenced_closed(1) evidenced_closed(2) [OF _ w], of "\<lambda>x. True" "\<lambda>x. True" unreported] r
    unfolding analyse_def by simp
  then show ?thesis using r s unfolding flow.invariant_def by blast
qed

text \<open>What the state of a point shows, some path to that point has.\<close>

lemma point_evidence:
  assumes e: "evidenced f b s" and i: "i < length (events_of f b)" and a: "shows_ev a (steps f (take i (events_of f b)) s)"
  shows "\<exists>tr. at_point f b i tr \<and> holds a (path f tr)"
proof -
  have at: "at_point f b i (tr @ take i (events_of f b))" if "trace_to f b tr" for tr using that i unfolding at_point_def by blast
  from steps_evidence [OF a] show ?thesis
  proof
    assume "\<forall>tr. holds a (path f (tr @ take i (events_of f b)))"
    then show ?thesis using e at unfolding evidenced_def by blast
  next
    assume "\<exists>a'. shows_ev a' s \<and> (\<forall>tr. holds a' (path f tr) \<longrightarrow> holds a (path f (tr @ take i (events_of f b))))"
    then show ?thesis using e at unfolding evidenced_def by blast
  qed
qed

end

subsection \<open>Exact analyses\<close>

text \<open>In an exact analysis a report has a reason: the path that has the evidence violates the rule.\<close>

locale exact_analysis = traced_analysis wf entry merge join event step fine ok rank start exec approx quiet sane unreported
    shows_ev holds
  for wf :: "MirFunction \<Rightarrow> bool" and entry :: "MirFunction \<Rightarrow> 's" and merge join and event step fine ok rank
    and start :: "MirFunction \<Rightarrow> 'p" and exec approx and quiet sane :: "'x \<Rightarrow> bool" and unreported
    and shows_ev :: "'a \<Rightarrow> 's \<Rightarrow> bool" and holds +
  fixes safe :: "MirFunction \<Rightarrow> MirEvent \<Rightarrow> 'p \<Rightarrow> bool"
  assumes safe_fine: "wf f \<Longrightarrow> ev \<in> all_events f \<Longrightarrow> approx f p s \<Longrightarrow> fine f ev s \<Longrightarrow> safe f ev p"
    and shows_unsafe: "wf f \<Longrightarrow> ev \<in> all_events f \<Longrightarrow> ok f s \<Longrightarrow> \<not> fine f ev s \<Longrightarrow>
      (\<forall>p. \<not> safe f ev p) \<or> (\<exists>a. shows_ev a s \<and> (\<forall>p. holds a p \<longrightarrow> \<not> safe f ev p))"
begin

definition unsafe :: "MirFunction \<Rightarrow> bool" where
  "unsafe f \<longleftrightarrow> (\<exists>tr ev. at_event f tr ev \<and> \<not> safe f ev (path f tr))"

lemma all_fine_split:
  "\<not> all_fine f evs s \<Longrightarrow> \<exists>pre ev post. evs = pre @ ev # post \<and> \<not> fine f ev (steps f pre s)"
proof (induction evs arbitrary: s)
  case (Cons ev evs)
  show ?case
  proof (cases "fine f ev s")
    case True
    then have "\<not> all_fine f evs (step f ev s)" using Cons.prems by simp
    from Cons.IH [OF this] obtain pre ev' post where "evs = pre @ ev' # post" "\<not> fine f ev' (steps f pre (step f ev s))" by blast
    then show ?thesis by (intro exI [of _ "ev # pre"] exI [of _ ev'] exI [of _ post]) simp
  next
    case False
    then show ?thesis by (intro exI [of _ "[]"] exI [of _ ev] exI [of _ evs]) simp
  qed
qed simp

lemma evidenced_unsafe:
  assumes w: "wf f" and b: "b < length (mir_blocks f)" and ok: "ok f s" and e: "evidenced f b s" and n: "\<not> all_fine f (events_of f b) s"
  shows "unsafe f"
proof -
  obtain pre ev post where split: "events_of f b = pre @ ev # post" and bad: "\<not> fine f ev (steps f pre s)"
    using all_fine_split [OF n] by blast
  have at: "at_event f (tr @ pre) ev" if "trace_to f b tr" for tr unfolding at_event_def using that split by blast
  have ev: "ev \<in> all_events f" "set pre \<subseteq> all_events f" using events_of_all [OF b] split by auto
  have ok': "ok f (steps f pre s)" using run_events_steps [OF w ev(2) ok] by blast
  obtain tr0 where tr0: "trace_to f b tr0" using e by (auto simp: evidenced_def)
  from shows_unsafe [OF w ev(1) ok' bad] show ?thesis
  proof
    assume "\<forall>p. \<not> safe f ev p"
    then show ?thesis using at [OF tr0] unfolding unsafe_def by blast
  next
    assume "\<exists>a. shows_ev a (steps f pre s) \<and> (\<forall>p. holds a p \<longrightarrow> \<not> safe f ev p)"
    then obtain a where a: "shows_ev a (steps f pre s)" "\<forall>p. holds a p \<longrightarrow> \<not> safe f ev p" by blast
    from steps_evidence [OF a(1)] show ?thesis
    proof
      assume "\<forall>tr. holds a (path f (tr @ pre))"
      then show ?thesis using at [OF tr0] a(2) unfolding unsafe_def by blast
    next
      assume "\<exists>a'. shows_ev a' s \<and> (\<forall>tr. holds a' (path f tr) \<longrightarrow> holds a (path f (tr @ pre)))"
      then obtain tr where "trace_to f b tr" "holds a (path f (tr @ pre))" using e unfolding evidenced_def by blast
      then show ?thesis using at a(2) unfolding unsafe_def by blast
    qed
  qed
qed

theorem analyse_exact:
  assumes w: "wf f"
  shows "\<exists>inputs x. analyse merge (event f) f (entry f) unreported = Some (inputs, x) \<and>
    sane x \<and> (quiet x \<longleftrightarrow> (\<forall>tr ev. at_event f tr ev \<longrightarrow> safe f ev (path f tr))) \<and>
    (\<forall>b < length (mir_blocks f). \<forall>s. inputs ! b = Some s \<longrightarrow> evidenced f b s)"
proof -
  obtain inputs x where r: "analyse merge (event f) f (entry f) unreported = Some (inputs, x)" and s: "solved f inputs x"
    using analyse_solved [OF w] by blast
  have report: "\<not> quiet (effect f b s x) \<longrightarrow> unsafe f"
    if "b < length (mir_blocks f)" "ok f s" "evidenced f b s" "\<not> quiet x \<longrightarrow> unsafe f" for b s x
    using that run_block_steps(2) [OF w] evidenced_unsafe [OF w] by blast
  note closed = evidenced_closed [of f "\<lambda>x. \<not> quiet x \<longrightarrow> unsafe f", OF report]
  have inv: "flow.invariant (evidenced f) (\<lambda>x. \<not> quiet x \<longrightarrow> unsafe f) f inputs [] x"
    using flow.solve_invariant [OF w closed(1) closed(2) [OF _ _ _ _ w], of unreported] r
      quiet_unreported unfolding analyse_def by simp
  have "quiet x \<longleftrightarrow> \<not> unsafe f"
    using inv silent_approx [OF w s] safe_fine [OF w] unfolding unsafe_def flow.invariant_def by blast
  then have "quiet x \<longleftrightarrow> (\<forall>tr ev. at_event f tr ev \<longrightarrow> safe f ev (path f tr))" by (auto simp: unsafe_def)
  then show ?thesis using r inv solved_simps(1) [OF s] unfolding flow.invariant_def by blast
qed

end

subsection \<open>A small function\<close>

text \<open>
  The function the results are instantiated with: parameter 0 is borrowed on one side of a branch, a value of region 2
  is read on the other, and where the sides meet local 1 takes the parameter over and its storage ends.
\<close>

definition sample_span :: Span where
  "sample_span = \<lparr>span_source = SourceId 0, span_start = 0, span_end = 0\<rparr>"

definition sample_local :: "nat \<Rightarrow> TypeId \<Rightarrow> bool \<Rightarrow> LocalId option \<Rightarrow> MirLocal" where
  "sample_local i ty parameter region =
     \<lparr>local_id = i, local_symbol = None, local_name = [], local_ty = ty, local_mutable = True, is_parameter = parameter,
      is_return = False, scope_region = region, owned_region = region, local_span = sample_span\<rparr>"

definition sample_access :: "LocalId \<Rightarrow> AccessKind \<Rightarrow> PlaceAccess" where
  "sample_access l k = \<lparr>access_place = whole l, access_kind = k, access_span = sample_span\<rparr>"

definition sample_blocks :: "BasicBlock list" where
  "sample_blocks = [
     \<lparr>block_id = 0,
      block_statements = [RegionEnter 2 sample_span, Assign (whole 3) [] None [] sample_span],
      block_terminator = Switch None [] [1] 2 sample_span\<rparr>,
     \<lparr>block_id = 1,
      block_statements = [Borrow 4 (whole 0) BorrowRead True sample_span, Evaluate None [sample_access 4 AccRead] sample_span,
        StorageDead 4 sample_span],
      block_terminator = Goto 3 sample_span\<rparr>,
     \<lparr>block_id = 2,
      block_statements = [Evaluate None [sample_access 3 AccRead] sample_span],
      block_terminator = Goto 3 sample_span\<rparr>,
     \<lparr>block_id = 3,
      block_statements = [Assign (whole 1) [] None [sample_access 0 AccMove] sample_span, StorageDead 1 sample_span],
      block_terminator = Return None [] sample_span\<rparr>]"

definition sample_function :: MirFunction where
  "sample_function =
     \<lparr>mir_symbol = 0, mir_name = [], mir_export = None, mir_disjoint = False, mir_signature = 0,
      mir_locals = [sample_local 0 23 True None, sample_local 1 23 False None, sample_local 2 4 False None,
        sample_local 3 8 False (Some 2), sample_local 4 8 False None],
      mir_blocks = sample_blocks, mir_span = sample_span\<rparr>"

lemma sample_graph: "cfg_ok sample_function"
  by code_simp

lemmas sample_defs = sample_function_def sample_blocks_def sample_access_def sample_local_def

end
