(* ===== verification/Mir_Init.thy ===== *)
theory Mir_Init
  imports Mir_Analysis
begin

text \<open>
  Definite initialisation (J0500): \<open>analyze_initialization\<close> keeps the locals that are initialised on every path and
  reports each use of another one. It is exact: it reports nothing if and only if every path initialises a local
  before it reads it.
\<close>

definition check_initialized :: "PlaceAccess list \<Rightarrow> LocalId set \<Rightarrow> Report \<Rightarrow> Report" where
  "check_initialized accs initialized x =
     foldl (\<lambda>x a. if access_kind a \<noteq> AccWrite \<and> place_local (access_place a) \<notin> initialized
       then report (lit ''J0500'') (lit ''use of a place that is not definitely initialized'') (access_span a)
         (place_local (access_place a)) x
       else x) x accs"

definition access_to :: "Place \<Rightarrow> AccessKind \<Rightarrow> Span \<Rightarrow> PlaceAccess" where
  "access_to p k s = \<lparr>access_place = p, access_kind = k, access_span = s\<rparr>"

definition init_statement :: "MirStatement \<Rightarrow> LocalId set \<times> Report \<Rightarrow> LocalId set \<times> Report" where
  "init_statement st sx = (case sx of (state, x) \<Rightarrow> (case st of
      StorageLive l _ \<Rightarrow> (state - {l}, x)
    | StorageDead l _ \<Rightarrow> (state - {l}, x)
    | RegionEnter r _ \<Rightarrow> (insert r state, x)
    | RegionExit r _ \<Rightarrow> (state - {r}, x)
    | Assign destination _ _ accs _ \<Rightarrow>
        (if projection destination = [] then insert (place_local destination) state else state, check_initialized accs state x)
    | Borrow destination source _ _ s \<Rightarrow>
        (insert destination state, check_initialized [access_to source AccBorrowRead s] state x)
    | DropPlace p s \<Rightarrow>
        (if projection p = [] then state - {place_local p} else state, check_initialized [access_to p AccMove s] state x)
    | Evaluate _ accs _ \<Rightarrow> (state, check_initialized accs state x)))"

definition init_event :: "MirEvent \<Rightarrow> LocalId set \<times> Report \<Rightarrow> (LocalId set \<times> Report) option" where
  "init_event ev sx = (case ev of
      Ran st \<Rightarrow> Some (init_statement st sx)
    | Ended t \<Rightarrow> Some (fst sx, check_initialized (terminator_accesses t) (fst sx) (snd sx)))"

definition parameters_of :: "MirFunction \<Rightarrow> LocalId set" where
  "parameters_of f = local_id ` set (filter is_parameter (mir_locals f))"

definition analyze_initialization :: "MirFunction \<Rightarrow> MirError list option" where
  "analyze_initialization f =
     (if mir_blocks f = [] then Some [mir_error (lit ''J0502'') (mir_span f) (lit ''MIR function has no entry block'')]
      else map_option (\<lambda>r. snd (snd r)) (analyse merge_inter init_event f (parameters_of f) no_report))"

subsection \<open>The rule\<close>

definition init_gains :: "MirEvent \<Rightarrow> LocalId set" where
  "init_gains ev = (case ev of
      Ran (RegionEnter r _) \<Rightarrow> {r}
    | Ran (Assign destination _ _ _ _) \<Rightarrow> if projection destination = [] then {place_local destination} else {}
    | Ran (Borrow destination _ _ _ _) \<Rightarrow> {destination}
    | _ \<Rightarrow> {})"

definition init_loses :: "MirEvent \<Rightarrow> LocalId set" where
  "init_loses ev = (case ev of
      Ran (StorageLive l _) \<Rightarrow> {l}
    | Ran (StorageDead l _) \<Rightarrow> {l}
    | Ran (RegionExit r _) \<Rightarrow> {r}
    | Ran (DropPlace p _) \<Rightarrow> if projection p = [] then {place_local p} else {}
    | _ \<Rightarrow> {})"

definition read_locals :: "PlaceAccess list \<Rightarrow> LocalId set" where
  "read_locals accs = (\<lambda>a. place_local (access_place a)) ` {a \<in> set accs. access_kind a \<noteq> AccWrite}"

definition event_reads :: "MirEvent \<Rightarrow> LocalId set" where
  "event_reads ev = (case ev of
      Ran (Assign _ _ _ accs _) \<Rightarrow> read_locals accs
    | Ran (Borrow _ source _ _ _) \<Rightarrow> {place_local source}
    | Ran (DropPlace p _) \<Rightarrow> {place_local p}
    | Ran (Evaluate _ accs _) \<Rightarrow> read_locals accs
    | Ended t \<Rightarrow> read_locals (terminator_accesses t)
    | _ \<Rightarrow> {})"

definition initialised :: "MirFunction \<Rightarrow> MirEvent list \<Rightarrow> LocalId \<Rightarrow> bool" where
  "initialised f tr l \<longleftrightarrow> in_force init_gains init_loses (parameters_of f) tr l"

lemma blank_check_initialized: "blank (check_initialized accs S x) \<longleftrightarrow> blank x \<and> read_locals accs \<subseteq> S"
proof -
  have "blank (check_initialized accs S x) \<longleftrightarrow>
    blank x \<and> (\<forall>a \<in> set accs. access_kind a = AccWrite \<or> place_local (access_place a) \<in> S)"
    unfolding check_initialized_def by (rule blank_foldl) auto
  then show ?thesis by (auto simp: read_locals_def)
qed

lemma coherent_check_initialized: "coherent x \<Longrightarrow> coherent (check_initialized accs S x)"
  unfolding check_initialized_def by (rule coherent_foldl) auto

lemma read_locals_access [simp]: "read_locals [access_to p AccMove s] = {place_local p}"
    "read_locals [access_to p AccBorrowRead s] = {place_local p}"
  by (auto simp: read_locals_def access_to_def)

lemma init_event_step:
  "\<exists>x'. init_event ev (s, x) = Some ((s - init_loses ev) \<union> init_gains ev, x') \<and>
     (blank x' \<longleftrightarrow> blank x \<and> event_reads ev \<subseteq> s) \<and> (coherent x \<longrightarrow> coherent x')"
proof (cases ev)
  case (Ran st)
  then show ?thesis
    by (cases st) (simp_all add: init_event_def init_statement_def init_gains_def init_loses_def event_reads_def
      blank_check_initialized coherent_check_initialized)
next
  case (Ended t)
  then show ?thesis
    by (simp add: init_event_def init_gains_def init_loses_def event_reads_def blank_check_initialized coherent_check_initialized)
qed

lemma finite_init_gains: "finite (init_gains ev)"
  by (simp add: init_gains_def split: MirEvent.split MirStatement.split)

interpretation init: exact_analysis cfg_ok parameters_of merge_inter "(\<inter>)" "\<lambda>f. init_event"
  "\<lambda>f ev s. (s - init_loses ev) \<union> init_gains ev" "\<lambda>f ev s. event_reads ev \<subseteq> s" "\<lambda>f s. finite s" "\<lambda>f s. card s"
  parameters_of "\<lambda>f ev p. (p - init_loses ev) \<union> init_gains ev" "\<lambda>f p s. s \<subseteq> p"
  blank coherent no_report "\<lambda>l s. l \<notin> s" "\<lambda>l p. l \<notin> p" "\<lambda>f ev p. event_reads ev \<subseteq> p"
proof
  show "finite (parameters_of f)" for f by (simp add: parameters_of_def)
qed (use init_event_step in \<open>auto simp: merge_inter_eq finite_init_gains card_inter_less\<close>)

lemma init_path: "init.path f tr = {l. initialised f tr l}"
  unfolding init.path_def initialised_def by (rule in_force_foldl)

lemma initialization_exact:
  assumes "cfg_ok f"
  shows "\<exists>errors. analyze_initialization f = Some errors \<and>
    (errors = [] \<longleftrightarrow> (\<forall>tr ev l. at_event f tr ev \<longrightarrow> l \<in> event_reads ev \<longrightarrow> initialised f tr l))"
proof -
  have "mir_blocks f \<noteq> []" using assms by (simp add: cfg_ok_def)
  moreover obtain inputs x where "analyse merge_inter init_event f (parameters_of f) no_report = Some (inputs, x)"
    "coherent x" "blank x \<longleftrightarrow> (\<forall>tr ev. at_event f tr ev \<longrightarrow> event_reads ev \<subseteq> init.path f tr)"
    using init.analyse_exact [OF assms] by blast
  ultimately show ?thesis unfolding analyze_initialization_def init_path by (auto simp: coherent_silent)
qed

text \<open>
  C11. On a function whose jumps stay inside it the analysis returns, and reports nothing exactly if on every path
  every local is initialised before it is read: some statement since the entry initialised it, or it is a parameter,
  and none since then has ended its storage, its region or its value.
\<close>

theorem analyze_initialization_exact:
  assumes "cfg_ok f"
  shows "\<exists>errors. analyze_initialization f = Some errors \<and>
    (errors = [] \<longleftrightarrow> (\<forall>tr ev l. at_event f tr ev \<longrightarrow> l \<in> event_reads ev \<longrightarrow> initialised f tr l))"
  by (rule initialization_exact [OF assms])

theorem analyze_initialization_exact_witness:
  "cfg_ok sample_function \<and>
   \<not> (\<exists>tr ev l. at_event sample_function tr ev \<and> l \<in> event_reads ev \<and> \<not> initialised sample_function tr l)"
proof -
  have "analyze_initialization sample_function = Some []" by code_simp
  then show ?thesis using analyze_initialization_exact [OF sample_graph] sample_graph by simp
qed

end
