(* ===== verification/Mir_Regions.thy ===== *)
theory Mir_Regions
  imports Mir_Init
begin

text \<open>
  Lexical regions: \<open>analyze_function_regions\<close> (J0507, J0509) keeps the regions that are active on every path, and
  \<open>elaborate_function_region_cleanup\<close> closes on every return edge the regions that are active on some path. The check is
  exact, and after the elaboration no path returns with a region open.
\<close>

subsection \<open>The check\<close>

definition is_move :: "AccessKind \<Rightarrow> bool" where
  "is_move k \<longleftrightarrow> k = AccMove \<or> k = AccMoveOrDrop"

definition check_region_access ::
  "LocalId option \<Rightarrow> LocalId set \<Rightarrow> MirFunction \<Rightarrow> Report \<Rightarrow> PlaceAccess \<Rightarrow> Report option" where
  "check_region_access destination active f x a =
     Option.bind (get (mir_locals f) (place_local (access_place a))) (\<lambda>l.
       case owned_region l of
         None \<Rightarrow> Some x
       | Some own \<Rightarrow>
           if own \<notin> active then
             Some (if is_move (access_kind a)
               then report (lit ''J0507'') (lit ''region-owned value cannot escape its owning region'') (access_span a)
                 (place_local (access_place a)) x
               else report (lit ''J0509'') (lit ''region-owned value used after its region exited'') (access_span a)
                 (place_local (access_place a)) x)
           else if is_move (access_kind a) then
             Option.bind (case destination of
                None \<Rightarrow> Some False
              | Some d \<Rightarrow> map_option (\<lambda>dl. scope_region dl = Some own) (get (mir_locals f) d)) (\<lambda>remains.
             Some (if \<not> remains
               then report (lit ''J0507'') (lit ''region-owned value cannot escape its owning region'') (access_span a)
                 (place_local (access_place a)) x
               else x))
           else Some x)"

fun check_region_accesses ::
  "PlaceAccess list \<Rightarrow> LocalId option \<Rightarrow> LocalId set \<Rightarrow> MirFunction \<Rightarrow> Report \<Rightarrow> Report option" where
  "check_region_accesses [] destination active f x = Some x"
| "check_region_accesses (a # as) destination active f x =
     Option.bind (check_region_access destination active f x a) (check_region_accesses as destination active f)"

definition region_statement ::
  "MirFunction \<Rightarrow> MirStatement \<Rightarrow> LocalId set \<times> Report \<Rightarrow> (LocalId set \<times> Report) option" where
  "region_statement f st sx = (case sx of (active, x) \<Rightarrow> (case st of
      RegionEnter r _ \<Rightarrow> Some (insert r active, x)
    | RegionExit r _ \<Rightarrow> Some (active - {r}, x)
    | Assign destination _ _ accs _ \<Rightarrow>
        map_option (Pair active) (check_region_accesses accs (Some (place_local destination)) active f x)
    | Borrow destination source _ _ s \<Rightarrow>
        map_option (Pair active) (check_region_accesses [access_to source AccBorrowRead s] (Some destination) active f x)
    | Evaluate _ accs _ \<Rightarrow> map_option (Pair active) (check_region_accesses accs None active f x)
    | DropPlace p s \<Rightarrow>
        Option.bind (get (mir_locals f) (place_local p)) (\<lambda>l.
          Some (active,
            if owned_region l \<noteq> None
            then report (lit ''J0509'') (lit ''region-owned value must be released by RegionExit, not Drop'') s (place_local p) x
            else x))
    | StorageLive _ _ \<Rightarrow> Some (active, x)
    | StorageDead _ _ \<Rightarrow> Some (active, x)))"

definition region_event :: "MirFunction \<Rightarrow> MirEvent \<Rightarrow> LocalId set \<times> Report \<Rightarrow> (LocalId set \<times> Report) option" where
  "region_event f ev sx = (case ev of
      Ran st \<Rightarrow> region_statement f st sx
    | Ended t \<Rightarrow> map_option (Pair (fst sx)) (check_region_accesses (terminator_accesses t) None (fst sx) f (snd sx)))"

definition analyze_function_regions :: "MirFunction \<Rightarrow> MirError list option" where
  "analyze_function_regions f =
     (if mir_blocks f = [] then Some []
      else map_option (\<lambda>r. snd (snd r)) (analyse merge_inter (region_event f) f {} no_report))"

subsection \<open>The rule\<close>

definition region_gains :: "MirEvent \<Rightarrow> LocalId set" where
  "region_gains ev = (case ev of Ran (RegionEnter r _) \<Rightarrow> {r} | _ \<Rightarrow> {})"

definition region_loses :: "MirEvent \<Rightarrow> LocalId set" where
  "region_loses ev = (case ev of Ran (RegionExit r _) \<Rightarrow> {r} | _ \<Rightarrow> {})"

text \<open>A region is open after a path that has entered it and not left it since.\<close>

definition region_open :: "MirEvent list \<Rightarrow> LocalId \<Rightarrow> bool" where
  "region_open tr r \<longleftrightarrow> in_force region_gains region_loses {} tr r"

definition event_accesses :: "MirEvent \<Rightarrow> PlaceAccess list \<times> LocalId option" where
  "event_accesses ev = (case ev of
      Ran (Assign destination _ _ accs _) \<Rightarrow> (accs, Some (place_local destination))
    | Ran (Borrow destination source _ _ s) \<Rightarrow> ([access_to source AccBorrowRead s], Some destination)
    | Ran (Evaluate _ accs _) \<Rightarrow> (accs, None)
    | Ended t \<Rightarrow> (terminator_accesses t, None)
    | _ \<Rightarrow> ([], None))"

definition owner_of :: "MirFunction \<Rightarrow> LocalId \<Rightarrow> LocalId option" where
  "owner_of f l = owned_region (mir_locals f ! l)"

text \<open>
  A value owned by a region may be accessed only while the region is open; it may be moved only into a local that is
  declared in the region; and it may not be dropped.
\<close>

definition region_access_ok :: "MirFunction \<Rightarrow> LocalId option \<Rightarrow> LocalId set \<Rightarrow> PlaceAccess \<Rightarrow> bool" where
  "region_access_ok f destination active a \<longleftrightarrow> (case owner_of f (place_local (access_place a)) of
      None \<Rightarrow> True
    | Some own \<Rightarrow> own \<in> active \<and>
        (is_move (access_kind a) \<longrightarrow> (\<exists>d. destination = Some d \<and> scope_region (mir_locals f ! d) = Some own)))"

definition region_safe :: "MirFunction \<Rightarrow> MirEvent \<Rightarrow> LocalId set \<Rightarrow> bool" where
  "region_safe f ev active \<longleftrightarrow>
     (\<forall>a \<in> set (fst (event_accesses ev)). region_access_ok f (snd (event_accesses ev)) active a) \<and>
     (\<forall>p s. ev = Ran (DropPlace p s) \<longrightarrow> owner_of f (place_local p) = None)"

text \<open>What the accesses of a function need to be looked up: locals of the function.\<close>

definition event_locals :: "MirEvent \<Rightarrow> LocalId set" where
  "event_locals ev = (\<lambda>a. place_local (access_place a)) ` set (fst (event_accesses ev)) \<union> set_option (snd (event_accesses ev)) \<union>
     (case ev of Ran (DropPlace p _) \<Rightarrow> {place_local p} | _ \<Rightarrow> {})"

definition locals_ok :: "MirFunction \<Rightarrow> bool" where
  "locals_ok f \<longleftrightarrow> (\<forall>b \<in> set (mir_blocks f). \<forall>ev \<in> set (block_events b). \<forall>l \<in> event_locals ev. l < length (mir_locals f))"

lemma locals_okD: "locals_ok f \<Longrightarrow> ev \<in> all_events f \<Longrightarrow> event_locals ev \<subseteq> {..<length (mir_locals f)}"
  by (auto simp: locals_ok_def all_events_def)

lemma check_region_access_ok:
  assumes "place_local (access_place a) < length (mir_locals f)" "set_option destination \<subseteq> {..<length (mir_locals f)}"
  shows "\<exists>x'. check_region_access destination active f x a = Some x' \<and>
    (blank x' \<longleftrightarrow> blank x \<and> region_access_ok f destination active a) \<and> (coherent x \<longrightarrow> coherent x')"
  using assms by (cases destination)
    (auto simp: check_region_access_def get_def region_access_ok_def owner_of_def split: option.split)

lemma check_region_accesses_ok:
  assumes "set_option destination \<subseteq> {..<length (mir_locals f)}"
  shows "(\<lambda>a. place_local (access_place a)) ` set as \<subseteq> {..<length (mir_locals f)} \<Longrightarrow>
    \<exists>x'. check_region_accesses as destination active f x = Some x' \<and>
      (blank x' \<longleftrightarrow> blank x \<and> (\<forall>a \<in> set as. region_access_ok f destination active a)) \<and> (coherent x \<longrightarrow> coherent x')"
proof (induction as arbitrary: x)
  case (Cons a as)
  obtain x1 where x1: "check_region_access destination active f x a = Some x1"
    "blank x1 \<longleftrightarrow> blank x \<and> region_access_ok f destination active a" "coherent x \<longrightarrow> coherent x1"
    using check_region_access_ok [OF _ assms, of a active x] Cons.prems by auto
  obtain x2 where "check_region_accesses as destination active f x1 = Some x2"
    "blank x2 \<longleftrightarrow> blank x1 \<and> (\<forall>a \<in> set as. region_access_ok f destination active a)" "coherent x1 \<longrightarrow> coherent x2"
    using Cons.IH [of x1] Cons.prems by auto
  then show ?case using x1 by auto
qed simp

lemma region_event_accesses:
  assumes "\<And>p s. ev \<noteq> Ran (DropPlace p s)"
  shows "region_event f ev (s, x) = map_option (Pair ((s - region_loses ev) \<union> region_gains ev))
      (check_region_accesses (fst (event_accesses ev)) (snd (event_accesses ev)) s f x)"
proof (cases ev)
  case (Ran st)
  then show ?thesis using assms
    by (cases st) (simp_all add: region_event_def region_statement_def region_gains_def region_loses_def event_accesses_def)
next
  case (Ended t)
  then show ?thesis by (simp add: region_event_def region_gains_def region_loses_def event_accesses_def)
qed

lemma region_event_step:
  assumes "event_locals ev \<subseteq> {..<length (mir_locals f)}"
  shows "\<exists>x'. region_event f ev (s, x) = Some ((s - region_loses ev) \<union> region_gains ev, x') \<and>
     (blank x' \<longleftrightarrow> blank x \<and> region_safe f ev s) \<and> (coherent x \<longrightarrow> coherent x')"
proof (cases "\<exists>p sp. ev = Ran (DropPlace p sp)")
  case True
  then obtain p sp where ev: "ev = Ran (DropPlace p sp)" by blast
  then have "place_local p < length (mir_locals f)" using assms by (simp add: event_locals_def)
  then show ?thesis
    by (simp add: ev region_event_def region_statement_def region_gains_def region_loses_def region_safe_def
      event_accesses_def get_def owner_of_def)
next
  case False
  then have e: "region_event f ev (s, x) = map_option (Pair ((s - region_loses ev) \<union> region_gains ev))
      (check_region_accesses (fst (event_accesses ev)) (snd (event_accesses ev)) s f x)"
    by (intro region_event_accesses) blast
  obtain x' where "check_region_accesses (fst (event_accesses ev)) (snd (event_accesses ev)) s f x = Some x'"
    "blank x' \<longleftrightarrow> blank x \<and> (\<forall>a \<in> set (fst (event_accesses ev)). region_access_ok f (snd (event_accesses ev)) s a)"
    "coherent x \<longrightarrow> coherent x'"
    using check_region_accesses_ok [of "snd (event_accesses ev)" f "fst (event_accesses ev)" s x] assms
    by (auto simp: event_locals_def)
  then show ?thesis using e False by (auto simp: region_safe_def)
qed

lemma region_access_mono: "region_access_ok f d A a \<Longrightarrow> A \<subseteq> B \<Longrightarrow> region_access_ok f d B a"
  by (auto simp: region_access_ok_def split: option.splits)

lemma region_safe_mono: "region_safe f ev A \<Longrightarrow> A \<subseteq> B \<Longrightarrow> region_safe f ev B"
  unfolding region_safe_def using region_access_mono by blast

lemma region_unsafe_reason:
  assumes "\<not> region_safe f ev S"
  shows "(\<forall>P. \<not> region_safe f ev P) \<or> (\<exists>r. r \<notin> S \<and> (\<forall>P. r \<notin> P \<longrightarrow> \<not> region_safe f ev P))"
proof (cases "\<exists>a \<in> set (fst (event_accesses ev)). \<not> region_access_ok f (snd (event_accesses ev)) S a")
  case True
  then obtain a where a: "a \<in> set (fst (event_accesses ev))" "\<not> region_access_ok f (snd (event_accesses ev)) S a" by blast
  then obtain own where o: "owner_of f (place_local (access_place a)) = Some own"
    by (auto simp: region_access_ok_def split: option.splits)
  have "\<not> region_access_ok f (snd (event_accesses ev)) P a" if "own \<in> S \<or> own \<notin> P" for P
    using a(2) o that by (auto simp: region_access_ok_def)
  then show ?thesis using a(1) unfolding region_safe_def by blast
next
  case False
  then show ?thesis using assms unfolding region_safe_def by blast
qed

lemma finite_region_gains: "finite (region_gains ev)"
  by (simp add: region_gains_def split: MirEvent.split MirStatement.split)

interpretation regions: exact_analysis "\<lambda>f. cfg_ok f \<and> locals_ok f" "\<lambda>f. {}" merge_inter "(\<inter>)" region_event
  "\<lambda>f ev s. (s - region_loses ev) \<union> region_gains ev" region_safe "\<lambda>f s. finite s" "\<lambda>f s. card s"
  "\<lambda>f. {}" "\<lambda>f ev p. (p - region_loses ev) \<union> region_gains ev" "\<lambda>f p s. s \<subseteq> p"
  blank coherent no_report "\<lambda>l s. l \<notin> s" "\<lambda>l p. l \<notin> p" region_safe
proof
  fix f ev and s :: "LocalId set" and x
  assume "cfg_ok f \<and> locals_ok f" "ev \<in> all_events f"
  then show "\<exists>x'. region_event f ev (s, x) = Some ((s - region_loses ev) \<union> region_gains ev, x') \<and>
      (blank x' \<longleftrightarrow> blank x \<and> region_safe f ev s) \<and> (coherent x \<longrightarrow> coherent x')"
    using region_event_step locals_okD by blast
next
  fix f ev and s :: "LocalId set"
  assume "\<not> region_safe f ev s"
  then show "(\<forall>p. \<not> region_safe f ev p) \<or> (\<exists>a. a \<notin> s \<and> (\<forall>p. a \<notin> p \<longrightarrow> \<not> region_safe f ev p))"
    by (rule region_unsafe_reason)
next
  fix f ev p and s :: "LocalId set"
  assume "s \<subseteq> p" "region_safe f ev s"
  then show "region_safe f ev p" using region_safe_mono by blast
qed (auto simp: merge_inter_eq finite_region_gains card_inter_less)

lemma regions_path: "regions.path f tr = {r. region_open tr r}"
  unfolding regions.path_def region_open_def by (rule in_force_foldl)

lemma region_accesses_exact:
  assumes "cfg_ok f" "locals_ok f"
  shows "\<exists>errors. analyze_function_regions f = Some errors \<and>
    (errors = [] \<longleftrightarrow> (\<forall>tr ev. at_event f tr ev \<longrightarrow> region_safe f ev {r. region_open tr r}))"
proof -
  have w: "cfg_ok f \<and> locals_ok f" using assms by simp
  have "mir_blocks f \<noteq> []" using assms by (simp add: cfg_ok_def)
  moreover obtain inputs x where "analyse merge_inter (region_event f) f {} no_report = Some (inputs, x)"
    "coherent x" "blank x \<longleftrightarrow> (\<forall>tr ev. at_event f tr ev \<longrightarrow> region_safe f ev {r. region_open tr r})"
    using regions.analyse_exact [OF w] unfolding regions_path by blast
  ultimately show ?thesis unfolding analyze_function_regions_def by (auto simp: coherent_silent)
qed

text \<open>
  C15. On a function whose jumps and accesses stay inside it the analysis returns, and reports nothing exactly if on
  every path each value owned by a region is accessed only while the region is open, is moved only into a local
  declared in that region, and is never dropped.
\<close>

theorem analyze_regions_exact:
  assumes "cfg_ok f" "locals_ok f"
  shows "\<exists>errors. analyze_function_regions f = Some errors \<and>
    (errors = [] \<longleftrightarrow> (\<forall>tr ev. at_event f tr ev \<longrightarrow> region_safe f ev {r. region_open tr r}))"
  by (rule region_accesses_exact [OF assms])

lemma sample_locals: "locals_ok sample_function"
  by code_simp

theorem analyze_regions_exact_witness:
  "cfg_ok sample_function \<and> locals_ok sample_function \<and>
   \<not> (\<exists>tr ev. at_event sample_function tr ev \<and> \<not> region_safe sample_function ev {r. region_open tr r})"
proof -
  have "analyze_function_regions sample_function = Some []" by code_simp
  then show ?thesis using analyze_regions_exact [OF sample_graph sample_locals] sample_graph sample_locals by simp
qed

subsection \<open>The cleanup on return edges\<close>

definition region_activity :: "MirStatement \<Rightarrow> LocalId set \<Rightarrow> LocalId set" where
  "region_activity st active = (case st of
      RegionEnter r _ \<Rightarrow> insert r active
    | RegionExit r _ \<Rightarrow> active - {r}
    | _ \<Rightarrow> active)"

definition transfer_region_activity :: "MirStatement list \<Rightarrow> LocalId set \<Rightarrow> LocalId set" where
  "transfer_region_activity sts active = foldl (\<lambda>a st. region_activity st a) active sts"

definition cleanup_event :: "MirEvent \<Rightarrow> LocalId set \<times> unit \<Rightarrow> (LocalId set \<times> unit) option" where
  "cleanup_event ev sx = (case ev of
      Ran st \<Rightarrow> Some (region_activity st (fst sx), snd sx)
    | Ended _ \<Rightarrow> Some sx)"

text \<open>\<open>active.iter().rev()\<close>: the regions from the highest local to the lowest.\<close>

definition region_exits :: "Span \<Rightarrow> LocalId set \<Rightarrow> MirStatement list" where
  "region_exits span active = concat (map (\<lambda>r. [RegionExit r span, StorageDead r span]) (rev (sorted_list_of_set active)))"

definition cleanup_block :: "LocalId set option list \<Rightarrow> BasicBlock \<Rightarrow> BasicBlock option" where
  "cleanup_block inputs b = (case block_terminator b of
      Return _ _ span \<Rightarrow>
        (case get inputs (block_id b) of
           None \<Rightarrow> None
         | Some None \<Rightarrow> Some b
         | Some (Some active) \<Rightarrow>
             Some (b\<lparr>block_statements := block_statements b @
               region_exits span (transfer_region_activity (block_statements b) active)\<rparr>))
    | _ \<Rightarrow> Some b)"

fun map_blocks :: "('a \<Rightarrow> 'b option) \<Rightarrow> 'a list \<Rightarrow> 'b list option" where
  "map_blocks g [] = Some []"
| "map_blocks g (b # bs) = Option.bind (g b) (\<lambda>b'. Option.bind (map_blocks g bs) (\<lambda>bs'. Some (b' # bs')))"

definition elaborate_function_region_cleanup :: "MirFunction \<Rightarrow> MirFunction option" where
  "elaborate_function_region_cleanup f =
     (if mir_blocks f = [] then Some f
      else Option.bind (analyse merge_union cleanup_event f {} ()) (\<lambda>(inputs, _).
        Option.bind (map_blocks (cleanup_block inputs) (mir_blocks f)) (\<lambda>bs. Some (f\<lparr>mir_blocks := bs\<rparr>))))"

definition ids_ok :: "MirFunction \<Rightarrow> bool" where
  "ids_ok f \<longleftrightarrow> map block_id (mir_blocks f) = [0..<length (mir_blocks f)]"

lemma ids_okD: "ids_ok f \<Longrightarrow> b < length (mir_blocks f) \<Longrightarrow> block_id (mir_blocks f ! b) = b"
  unfolding ids_ok_def by (metis add_0 nth_map nth_upt)

lemma map_blocks_total:
  assumes "\<And>b. b \<in> set bs \<Longrightarrow> g b = Some (h b)"
  shows "map_blocks g bs = Some (map h bs)"
  using assms by (induction bs) auto

lemma region_activity_step: "region_activity st s = (s - region_loses (Ran st)) \<union> region_gains (Ran st)"
  by (cases st) (auto simp: region_activity_def region_loses_def region_gains_def)

lemma region_ended [simp]: "region_gains (Ended t) = {}" "region_loses (Ended t) = {}"
  by (simp_all add: region_gains_def region_loses_def)

definition all_regions :: "MirFunction \<Rightarrow> LocalId set" where
  "all_regions f = (\<Union>ev \<in> all_events f. region_gains ev)"

lemma finite_all_regions: "finite (all_regions f)"
  by (simp add: all_regions_def finite_all_events finite_region_gains)

lemma finite_regions: "s \<subseteq> all_regions f \<Longrightarrow> finite s"
  using finite_all_regions finite_subset by blast

interpretation cleanup: exact_analysis cfg_ok "\<lambda>f. {}" merge_union "(\<union>)" "\<lambda>f. cleanup_event"
  "\<lambda>f ev s. (s - region_loses ev) \<union> region_gains ev" "\<lambda>f ev s. True"
  "\<lambda>f s. s \<subseteq> all_regions f" "\<lambda>f s. card (all_regions f - s)"
  "\<lambda>f. {}" "\<lambda>f ev p. (p - region_loses ev) \<union> region_gains ev" "\<lambda>f p s. p \<subseteq> s"
  "\<lambda>_. True" "\<lambda>_. True" "()" "\<lambda>l s. l \<in> s" "\<lambda>l p. l \<in> p" "\<lambda>f ev p. True"
proof
  fix f ev and s :: "LocalId set" and x :: unit
  show "\<exists>x'. cleanup_event ev (s, x) = Some ((s - region_loses ev) \<union> region_gains ev, x') \<and>
      (True \<longleftrightarrow> True \<and> True) \<and> (True \<longrightarrow> True)"
    by (cases ev) (simp_all add: cleanup_event_def region_activity_step)
next
  fix f :: MirFunction and e s
  assume "e \<subseteq> all_regions f" "s \<subseteq> all_regions f"
  then show "merge_union e s = (e \<union> s, e \<union> s \<noteq> e)" by (intro merge_union_eq) (auto intro: finite_regions)
next
  fix f ev and s :: "LocalId set"
  assume "ev \<in> all_events f" "s \<subseteq> all_regions f"
  then show "s - region_loses ev \<union> region_gains ev \<subseteq> all_regions f" by (auto simp: all_regions_def)
qed (auto simp: card_union_less finite_all_regions)

lemma cleanup_path: "cleanup.path f tr = {r. region_open tr r}"
  unfolding cleanup.path_def region_open_def by (rule in_force_foldl)

lemma transfer_region_steps:
  "transfer_region_activity sts s = foldl (\<lambda>s ev. (s - region_loses ev) \<union> region_gains ev) s (map Ran sts)"
  unfolding transfer_region_activity_def by (induction sts arbitrary: s) (simp_all add: region_activity_step)

lemma transfer_region_mono: "A \<subseteq> B \<Longrightarrow> transfer_region_activity sts A \<subseteq> transfer_region_activity sts B"
proof (induction sts arbitrary: A B)
  case (Cons st sts)
  have "region_activity st A \<subseteq> region_activity st B"
    unfolding region_activity_step by (intro Un_mono Diff_mono Cons.prems order.refl)
  from Cons.IH [OF this] show ?case by (simp add: transfer_region_activity_def)
qed (simp add: transfer_region_activity_def)

lemma finite_transfer_region: "finite A \<Longrightarrow> finite (transfer_region_activity sts A)"
proof (induction sts arbitrary: A)
  case (Cons st sts)
  have "finite (region_activity st A)" unfolding region_activity_step using Cons.prems finite_region_gains by blast
  from Cons.IH [OF this] show ?case by (simp add: transfer_region_activity_def)
qed (simp add: transfer_region_activity_def)

lemma region_exits_closes:
  assumes "finite A"
  shows "foldl (\<lambda>s ev. (s - region_loses ev) \<union> region_gains ev) S (map Ran (region_exits span A)) = S - A"
proof -
  have "foldl (\<lambda>s ev. (s - region_loses ev) \<union> region_gains ev) S
      (map Ran (concat (map (\<lambda>r. [RegionExit r span, StorageDead r span]) rs))) = S - set rs" for rs
    by (induction rs arbitrary: S) (auto simp: region_loses_def region_gains_def)
  then show ?thesis using assms by (simp add: region_exits_def)
qed

text \<open>The elaboration changes blocks that have no successors only, so the paths to the start of a block stay.\<close>

lemma trace_to_cong:
  assumes len: "length (mir_blocks g) = length (mir_blocks f)" and f: "cfg_ok f"
    and same: "\<And>b. b < length (mir_blocks f) \<Longrightarrow> succs_of g b = succs_of f b"
    and events: "\<And>b. b < length (mir_blocks f) \<Longrightarrow> succs_of f b \<noteq> [] \<Longrightarrow> events_of g b = events_of f b"
  shows "trace_to g b tr \<Longrightarrow> trace_to f b tr"
proof (induction rule: trace_to.induct)
  case entry
  then show ?case by (rule trace_to.entry)
next
  case (step b tr t)
  have b: "b < length (mir_blocks f)" using trace_to_bound [OF f step.IH] .
  with step.hyps(2) same have t: "t \<in> set (succs_of f b)" by simp
  then have "events_of g b = events_of f b" using events [OF b] by (cases "succs_of f b") auto
  then show ?case using trace_to.step [OF step.IH t] by simp
qed

definition cleaned :: "LocalId set option list \<Rightarrow> MirFunction \<Rightarrow> BasicBlockId \<Rightarrow> BasicBlock" where
  "cleaned inputs f b = (let blk = mir_blocks f ! b in
     case (block_terminator blk, inputs ! b) of
       (Return _ _ span, Some active) \<Rightarrow>
         blk\<lparr>block_statements := block_statements blk @ region_exits span (transfer_region_activity (block_statements blk) active)\<rparr>
     | _ \<Rightarrow> blk)"

lemma cleanup_blocks:
  assumes "ids_ok f" "length inputs = length (mir_blocks f)"
  shows "map_blocks (cleanup_block inputs) (mir_blocks f) = Some (map (cleaned inputs f) [0..<length (mir_blocks f)])"
proof -
  have one: "cleanup_block inputs (mir_blocks f ! b) = Some (cleaned inputs f b)" if "b < length (mir_blocks f)" for b
    using ids_okD [OF assms(1) that] that assms(2)
    by (simp add: cleanup_block_def cleaned_def get_def Let_def split: Terminator.split option.split)
  have "map_blocks (cleanup_block inputs) (mir_blocks f) = Some (map (\<lambda>blk. the (cleanup_block inputs blk)) (mir_blocks f))"
    by (rule map_blocks_total) (auto simp: in_set_conv_nth one)
  moreover have "map (\<lambda>blk. the (cleanup_block inputs blk)) (mir_blocks f) = map (cleaned inputs f) [0..<length (mir_blocks f)]"
    by (rule nth_equalityI) (simp_all add: one)
  ultimately show ?thesis by simp
qed

lemma cleaned_simps:
  "block_terminator (cleaned inputs f b) = block_terminator (mir_blocks f ! b)"
  "successors (block_terminator (mir_blocks f ! b)) \<noteq> [] \<Longrightarrow> cleaned inputs f b = mir_blocks f ! b"
  by (cases "block_terminator (mir_blocks f ! b)"; cases "inputs ! b"; simp add: cleaned_def Let_def successors_def)+

lemma cleanup_closes:
  assumes g: "cfg_ok f" and i: "ids_ok f"
  shows "\<exists>f'. elaborate_function_region_cleanup f = Some f' \<and> length (mir_blocks f') = length (mir_blocks f) \<and>
    (\<forall>b < length (mir_blocks f). block_terminator (mir_blocks f' ! b) = block_terminator (mir_blocks f ! b)) \<and>
    (\<forall>tr v accs s r. at_event f' tr (Ended (Return v accs s)) \<longrightarrow> \<not> region_open tr r)"
proof -
  obtain inputs x where r: "analyse merge_union cleanup_event f {} () = Some (inputs, x)" and s: "cleanup.solved f inputs x"
    using cleanup.analyse_solved [OF g] by blast
  note len = cleanup.solved_simps(2) [OF s]
  define f' where "f' = f\<lparr>mir_blocks := map (cleaned inputs f) [0..<length (mir_blocks f)]\<rparr>"
  have e: "elaborate_function_region_cleanup f = Some f'"
    using g r cleanup_blocks [OF i len] by (simp add: elaborate_function_region_cleanup_def cfg_ok_def f'_def)
  have blk: "mir_blocks f' ! b = cleaned inputs f b" if "b < length (mir_blocks f)" for b using that by (simp add: f'_def)
  have same: "succs_of f' b = succs_of f b" if "b < length (mir_blocks f)" for b
    using blk [OF that] by (simp add: succs_of_def cleaned_simps(1))
  have events: "events_of f' b = events_of f b" if "b < length (mir_blocks f)" "succs_of f b \<noteq> []" for b
    using blk [OF that(1)] that(2) cleaned_simps(2) by (simp add: events_of_def succs_of_def)
  have "\<not> region_open tr q" if at: "at_event f' tr (Ended (Return v accs sp))" for tr v accs sp q
  proof -
    obtain b t0 pre post where t: "trace_to f' b t0" "events_of f' b = pre @ Ended (Return v accs sp) # post" "tr = t0 @ pre"
      using at unfolding at_event_def by blast
    have t0: "trace_to f b t0" by (rule trace_to_cong [OF _ g same events t(1)]) (simp_all add: f'_def)
    have b: "b < length (mir_blocks f)" using trace_to_bound [OF g t0] .
    obtain active where a: "inputs ! b = Some active" "cleanup.path f t0 \<subseteq> active" using cleanup.solved_trace [OF g s _ t0] by blast
    have fin: "finite active" using cleanup.solved_simps(4) [OF s b a(1)] finite_regions by blast
    define sts where "sts = block_statements (mir_blocks f ! b)"
    define exits where "exits = region_exits sp (transfer_region_activity sts active)"
    note ended = block_events_ended [OF t(2) [unfolded events_of_def blk [OF b]], unfolded cleaned_simps(1)]
    have "block_statements (cleaned inputs f b) = sts @ exits"
      by (simp add: cleaned_def Let_def a(1) ended(2) [symmetric] sts_def exits_def)
    then have pre: "pre = map Ran sts @ map Ran exits" using ended(1) by simp
    have fin': "finite (transfer_region_activity sts active)" by (rule finite_transfer_region [OF fin])
    have "cleanup.path f (t0 @ pre) = transfer_region_activity sts (cleanup.path f t0) - transfer_region_activity sts active"
      unfolding cleanup.path_def pre exits_def foldl_append region_exits_closes [OF fin']
      unfolding transfer_region_steps ..
    then show ?thesis using transfer_region_mono [OF a(2), of sts] unfolding cleanup_path t(3) by blast
  qed
  then have "\<forall>tr v accs s r. at_event f' tr (Ended (Return v accs s)) \<longrightarrow> \<not> region_open tr r" by blast
  moreover have "length (mir_blocks f') = length (mir_blocks f)" by (simp add: f'_def)
  moreover have "\<forall>b < length (mir_blocks f). block_terminator (mir_blocks f' ! b) = block_terminator (mir_blocks f ! b)"
    using blk by (simp add: cleaned_simps(1))
  ultimately show ?thesis using e by (intro exI [of _ f'] conjI)
qed

text \<open>
  C16. The elaboration returns a function with the same jumps, and on no path of it is a region open when a \<open>Return\<close> is
  reached.
\<close>

theorem region_cleanup_closes:
  assumes g: "cfg_ok f" and i: "ids_ok f"
  shows "\<exists>f'. elaborate_function_region_cleanup f = Some f' \<and> length (mir_blocks f') = length (mir_blocks f) \<and>
    (\<forall>b < length (mir_blocks f). block_terminator (mir_blocks f' ! b) = block_terminator (mir_blocks f ! b)) \<and>
    (\<forall>tr v accs s r. at_event f' tr (Ended (Return v accs s)) \<longrightarrow> \<not> region_open tr r)"
  by (rule cleanup_closes [OF assms])

lemma sample_ids: "ids_ok sample_function"
  by code_simp

theorem region_cleanup_closes_witness:
  "cfg_ok sample_function \<and> ids_ok sample_function \<and> (\<exists>f'. elaborate_function_region_cleanup sample_function = Some f' \<and>
    RegionExit 2 sample_span \<in> set (block_statements (mir_blocks f' ! 3)) \<and>
    (\<forall>tr v accs s r. at_event f' tr (Ended (Return v accs s)) \<longrightarrow> \<not> region_open tr r))"
proof -
  have "case elaborate_function_region_cleanup sample_function of None \<Rightarrow> False
    | Some f' \<Rightarrow> RegionExit 2 sample_span \<in> set (block_statements (mir_blocks f' ! 3))" by code_simp
  then show ?thesis using region_cleanup_closes [OF sample_graph sample_ids] sample_graph sample_ids by auto
qed

end
