(* ===== verification/Mir_Verify.thy ===== *)
theory Mir_Verify
  imports Mir_Regions
begin

text \<open>
  The structural verifier \<open>verify_mir\<close> (J0502): identities of locals and blocks, jump targets, places, the operands of
  statements and terminators with everything nested in them, and the types that they need. It accepts exactly the
  functions that satisfy a condition on each local, statement, operand and terminator, and what it accepts meets the
  conditions under which the analyses run.
\<close>

subsection \<open>The verifier\<close>

text \<open>The source appends to a vector of errors; here each part returns the errors it appends.\<close>

definition require :: "bool \<Rightarrow> Span \<Rightarrow> ustring \<Rightarrow> MirError list" where
  "require c s m = (if c then [] else [mir_error (lit ''J0502'') s m])"

definition verify_local :: "LocalId \<Rightarrow> Span \<Rightarrow> MirFunction \<Rightarrow> MirError list" where
  "verify_local l s f = require (l < length (mir_locals f)) s (lit ''MIR place references an unknown local'')"

definition verify_place :: "Place \<Rightarrow> Span \<Rightarrow> MirFunction \<Rightarrow> MirError list" where
  "verify_place p s f = verify_local (place_local p) s f"

definition verify_block :: "BasicBlockId \<Rightarrow> Span \<Rightarrow> MirFunction \<Rightarrow> MirError list" where
  "verify_block b s f = require (b < length (mir_blocks f)) s (lit ''MIR terminator references an unknown block'')"

definition verify_accesses :: "PlaceAccess list \<Rightarrow> MirFunction \<Rightarrow> MirError list" where
  "verify_accesses accs f = concat (map (\<lambda>a. verify_place (access_place a) (access_span a) f) accs)"

fun verify_mir_pattern :: "MirPattern \<Rightarrow> Span \<Rightarrow> MirError list" where
  "verify_mir_pattern MirWildcard s = []"
| "verify_mir_pattern MirBinding s = []"
| "verify_mir_pattern (MirLiteral _) s = []"
| "verify_mir_pattern (MirPath p c) s = require (\<not> (c = None \<and> p = [])) s (lit ''MIR pattern path has no identity'')"
| "verify_mir_pattern (MirConstructor p c arguments) s =
     require (\<not> (c = None \<and> p = [])) s (lit ''MIR pattern constructor has no identity'') @
     concat (map (\<lambda>a. verify_mir_pattern a s) arguments)"

definition mir_value_compatible :: "TypeStore \<Rightarrow> TypeId \<Rightarrow> TypeId \<Rightarrow> bool" where
  "mir_value_compatible types expected actual \<longleftrightarrow>
     expected = actual \<or> (case kind_of types expected of Some (TCapability _ inner) \<Rightarrow> inner = actual | _ \<Rightarrow> False)"

definition has_integer_type :: "TypeStore \<Rightarrow> TypeId \<Rightarrow> bool" where
  "has_integer_type types ty \<longleftrightarrow> (case kind_of types ty of Some k \<Rightarrow> is_integer k | None \<Rightarrow> False)"

definition index_count :: "Place \<Rightarrow> nat" where
  "index_count p = length (filter (\<lambda>q. q = ProjIndex) (projection p))"

definition verify_extract_source_indices :: "Place \<Rightarrow> MirOperand list \<Rightarrow> Span \<Rightarrow> TypeStore \<Rightarrow> MirError list" where
  "verify_extract_source_indices source indices s types =
     require (index_count source = length indices) s
       (lit ''MIR extract source index operand count differs from source projections'') @
     concat (map (\<lambda>i. require (has_integer_type types (operand_ty i)) (operand_span i)
       (lit ''MIR extract source index operand is not an integer'')) indices)"

definition is_sequence :: "TypeStore \<Rightarrow> TypeId \<Rightarrow> bool" where
  "is_sequence types ty \<longleftrightarrow>
     (let base = (case kind_of types ty of Some (TCapability _ inner) \<Rightarrow> inner | _ \<Rightarrow> ty) in
      case kind_of types base of Some (TArray _ _) \<Rightarrow> True | Some (TBuffer _) \<Rightarrow> True | Some (TSlice _) \<Rightarrow> True | _ \<Rightarrow> False)"

fun verify_operand :: "MirOperand \<Rightarrow> MirFunction \<Rightarrow> TypeStore \<Rightarrow> MirError list" where
  "verify_operand (MirOperand ty k s) f types =
     require (kind_of types ty \<noteq> None) s (lit ''invalid MIR operand TypeId'') @
     (case k of
        MPlace p \<Rightarrow> verify_place p s f
      | MUnit \<Rightarrow> []
      | MLiteral _ \<Rightarrow> []
      | MFunction _ _ \<Rightarrow> []
      | MUnary _ operand \<Rightarrow> verify_operand operand f types
      | MCast operand \<Rightarrow> verify_operand operand f types
      | MBinary left _ right \<Rightarrow> verify_operand left f types @ verify_operand right f types
      | MCall callee arguments \<Rightarrow>
          verify_operand callee f types @ concat (map (\<lambda>a. verify_operand a f types) arguments)
      | MRegionAllocate region arguments \<Rightarrow>
          (case region of
             Some r \<Rightarrow> verify_local r s f
           | None \<Rightarrow> require False s (lit ''region allocation has no MIR region local'')) @
          concat (map (\<lambda>a. verify_operand a f types) arguments)
      | MIndex base index \<Rightarrow> verify_operand base f types @ verify_operand index f types
      | MLength base \<Rightarrow>
          verify_operand base f types @
          require (is_sequence types (operand_ty base)) s (lit ''MIR length operand requires an array, Buffer, or Slice'') @
          require (has_integer_type types ty) s (lit ''MIR length operand result is not an integer'')
      | MField base _ \<Rightarrow> verify_operand base f types
      | MArray elements \<Rightarrow> concat (map (\<lambda>a. verify_operand a f types) elements)
      | MStruct _ members \<Rightarrow> concat (map (\<lambda>(_, v). verify_operand v f types) members)
      | MPatternExtract source indices _ _ \<Rightarrow>
          verify_place source s f @ verify_extract_source_indices source indices s types @
          concat (map (\<lambda>a. verify_operand a f types) indices)
      | MCarrierExtract source indices _ \<Rightarrow>
          verify_place source s f @ verify_extract_source_indices source indices s types @
          concat (map (\<lambda>a. verify_operand a f types) indices)
      | MPropagateResidual source _ residual \<Rightarrow>
          verify_place source s f @
          require (kind_of types residual \<noteq> None) s (lit ''invalid propagation residual TypeId'')
      | MHighLevel _ \<Rightarrow> require False s (lit ''high-level expression reached verified MIR''))"

definition verify_statement :: "MirStatement \<Rightarrow> MirFunction \<Rightarrow> TypeStore \<Rightarrow> MirError list" where
  "verify_statement st f types = (case st of
      StorageLive l s \<Rightarrow> verify_local l s f
    | StorageDead l s \<Rightarrow> verify_local l s f
    | RegionEnter r s \<Rightarrow> verify_local r s f
    | RegionExit r s \<Rightarrow> verify_local r s f
    | Assign destination indices v accs s \<Rightarrow>
        verify_place destination s f @
        require (length indices = index_count destination) s
          (lit ''MIR assignment index operand count differs from destination place'') @
        concat (map (\<lambda>i. verify_operand i f types @
          require (has_integer_type types (operand_ty i)) (operand_span i)
            (lit ''MIR assignment index operand is not an integer'')) indices) @
        (case v of
           Some x \<Rightarrow> verify_operand x f types @
             (if projection destination = [] then
                (case get (mir_locals f) (place_local destination) of
                   Some l \<Rightarrow> require (mir_value_compatible types (local_ty l) (operand_ty x)) s
                     (lit ''MIR assignment operand type differs from destination type'')
                 | None \<Rightarrow> [])
              else [])
         | None \<Rightarrow> require False s (lit ''MIR assignment has no rvalue'')) @
        verify_accesses accs f
    | Borrow destination source _ _ s \<Rightarrow> verify_local destination s f @ verify_place source s f
    | DropPlace p s \<Rightarrow> verify_place p s f
    | Evaluate v accs s \<Rightarrow>
        (case v of
           Some x \<Rightarrow> verify_operand x f types
         | None \<Rightarrow> require (accs = []) s (lit ''MIR evaluation has accesses but no value'')) @
        verify_accesses accs f)"

definition valid_carrier :: "PropagationKind \<Rightarrow> TypeKind option \<Rightarrow> bool" where
  "valid_carrier k ty = (case (k, ty) of
      (OptionNone, Some (TOption _)) \<Rightarrow> True | (ResultError, Some (TResult _ _)) \<Rightarrow> True | _ \<Rightarrow> False)"

definition verify_return :: "MirOperand option \<Rightarrow> Span \<Rightarrow> MirFunction \<Rightarrow> TypeStore \<Rightarrow> MirError list" where
  "verify_return v s f types = (case kind_of types (mir_signature f) of
      Some (TFunction _ result) \<Rightarrow>
        (case v of
           Some x \<Rightarrow> require (mir_value_compatible types result (operand_ty x)) s
             (lit ''MIR return value type differs from function result'')
         | None \<Rightarrow> require (kind_of types result = Some TUnit) s (lit ''non-Unit MIR function returns without a value''))
    | _ \<Rightarrow> [])"

definition verify_terminator :: "Terminator \<Rightarrow> MirFunction \<Rightarrow> TypeStore \<Rightarrow> MirError list" where
  "verify_terminator t f types = (case t of
      Goto target s \<Rightarrow> verify_block target s f
    | Switch v accs targets otherwise s \<Rightarrow>
        (case v of
           Some x \<Rightarrow> verify_operand x f types @
             require (kind_of types (operand_ty x) = Some TBool) s (lit ''MIR switch condition is not Bool'')
         | None \<Rightarrow> require False s (lit ''MIR switch has no typed condition'')) @
        verify_accesses accs f @ concat (map (\<lambda>b. verify_block b s f) targets) @ verify_block otherwise s f
    | Match v accs pat matched otherwise s \<Rightarrow>
        verify_operand v f types @ verify_mir_pattern pat s @ verify_accesses accs f @
        verify_block matched s f @ verify_block otherwise s f
    | Propagate v accs k success residual s \<Rightarrow>
        verify_operand v f types @
        require (valid_carrier k (kind_of types (operand_ty v))) s
          (lit ''MIR propagation kind does not match its carrier type'') @
        verify_accesses accs f @ verify_block success s f @ verify_block residual s f
    | Return v accs s \<Rightarrow>
        (case v of Some x \<Rightarrow> verify_operand x f types | None \<Rightarrow> []) @ verify_return v s f types @ verify_accesses accs f
    | Unreachable _ \<Rightarrow> [])"

definition verify_mir_local :: "TypeStore \<Rightarrow> nat \<times> MirLocal \<Rightarrow> MirError list" where
  "verify_mir_local types il = (case il of (i, l) \<Rightarrow>
     require (local_id l = i \<and> kind_of types (local_ty l) \<noteq> None) (local_span l)
       (lit ''invalid MIR local identity or type''))"

definition verify_mir_block :: "MirFunction \<Rightarrow> TypeStore \<Rightarrow> nat \<times> BasicBlock \<Rightarrow> MirError list" where
  "verify_mir_block f types ib = (case ib of (i, b) \<Rightarrow>
     require (block_id b = i) (mir_span f) (lit ''invalid MIR basic block identity'') @
     concat (map (\<lambda>st. verify_statement st f types) (block_statements b)) @
     verify_terminator (block_terminator b) f types)"

definition verify_mir_function :: "TypeStore \<Rightarrow> MirFunction \<Rightarrow> MirError list" where
  "verify_mir_function types f =
     require (kind_of types (mir_signature f) \<noteq> None) (mir_span f) (lit ''invalid MIR function TypeId'') @
     concat (map (verify_mir_local types) (List.enumerate 0 (mir_locals f))) @
     concat (map (verify_mir_block f types) (List.enumerate 0 (mir_blocks f)))"

definition verify_mir :: "MirModule \<Rightarrow> TypeStore \<Rightarrow> MirError list" where
  "verify_mir m types = concat (map (verify_mir_function types) m)"

subsection \<open>What it accepts\<close>

text \<open>An operand with everything nested in it, and what each of these has to satisfy by itself.\<close>

fun nested_operands :: "MirOperand \<Rightarrow> MirOperand list" where
  "nested_operands (MirOperand ty k s) = MirOperand ty k s # (case k of
      MUnary _ x \<Rightarrow> nested_operands x
    | MCast x \<Rightarrow> nested_operands x
    | MBinary l _ r \<Rightarrow> nested_operands l @ nested_operands r
    | MCall c xs \<Rightarrow> nested_operands c @ concat (map nested_operands xs)
    | MRegionAllocate _ xs \<Rightarrow> concat (map nested_operands xs)
    | MIndex b i \<Rightarrow> nested_operands b @ nested_operands i
    | MLength b \<Rightarrow> nested_operands b
    | MField b _ \<Rightarrow> nested_operands b
    | MArray xs \<Rightarrow> concat (map nested_operands xs)
    | MStruct _ ms \<Rightarrow> concat (map (\<lambda>(_, v). nested_operands v) ms)
    | MPatternExtract _ xs _ _ \<Rightarrow> concat (map nested_operands xs)
    | MCarrierExtract _ xs _ \<Rightarrow> concat (map nested_operands xs)
    | _ \<Rightarrow> [])"

definition place_ok :: "MirFunction \<Rightarrow> Place \<Rightarrow> bool" where
  "place_ok f p \<longleftrightarrow> place_local p < length (mir_locals f)"

definition extract_ok :: "MirFunction \<Rightarrow> TypeStore \<Rightarrow> Place \<Rightarrow> MirOperand list \<Rightarrow> bool" where
  "extract_ok f types source indices \<longleftrightarrow>
     place_ok f source \<and> index_count source = length indices \<and> list_all (\<lambda>i. has_integer_type types (operand_ty i)) indices"

definition operand_ok :: "MirFunction \<Rightarrow> TypeStore \<Rightarrow> MirOperand \<Rightarrow> bool" where
  "operand_ok f types x \<longleftrightarrow> kind_of types (operand_ty x) \<noteq> None \<and> (case operand_kind x of
      MPlace p \<Rightarrow> place_ok f p
    | MRegionAllocate r _ \<Rightarrow> (case r of Some l \<Rightarrow> l < length (mir_locals f) | None \<Rightarrow> False)
    | MLength b \<Rightarrow> is_sequence types (operand_ty b) \<and> has_integer_type types (operand_ty x)
    | MPatternExtract source indices _ _ \<Rightarrow> extract_ok f types source indices
    | MCarrierExtract source indices _ \<Rightarrow> extract_ok f types source indices
    | MPropagateResidual source _ residual \<Rightarrow> place_ok f source \<and> kind_of types residual \<noteq> None
    | MHighLevel _ \<Rightarrow> False
    | _ \<Rightarrow> True)"

definition operands_ok :: "MirFunction \<Rightarrow> TypeStore \<Rightarrow> MirOperand \<Rightarrow> bool" where
  "operands_ok f types x \<longleftrightarrow> list_all (operand_ok f types) (nested_operands x)"

fun patterns :: "MirPattern \<Rightarrow> MirPattern list" where
  "patterns (MirConstructor p c ps) = MirConstructor p c ps # concat (map patterns ps)"
| "patterns pat = [pat]"

definition pattern_named :: "MirPattern \<Rightarrow> bool" where
  "pattern_named pat = (case pat of
      MirPath p c \<Rightarrow> \<not> (c = None \<and> p = []) | MirConstructor p c _ \<Rightarrow> \<not> (c = None \<and> p = []) | _ \<Rightarrow> True)"

definition accesses_ok :: "MirFunction \<Rightarrow> PlaceAccess list \<Rightarrow> bool" where
  "accesses_ok f accs \<longleftrightarrow> list_all (\<lambda>a. place_ok f (access_place a)) accs"

definition assigned_ok :: "MirFunction \<Rightarrow> TypeStore \<Rightarrow> Place \<Rightarrow> MirOperand \<Rightarrow> bool" where
  "assigned_ok f types p x \<longleftrightarrow>
     projection p = [] \<longrightarrow> mir_value_compatible types (local_ty (mir_locals f ! place_local p)) (operand_ty x)"

definition statement_ok :: "MirFunction \<Rightarrow> TypeStore \<Rightarrow> MirStatement \<Rightarrow> bool" where
  "statement_ok f types st = (case st of
      StorageLive l _ \<Rightarrow> l < length (mir_locals f)
    | StorageDead l _ \<Rightarrow> l < length (mir_locals f)
    | RegionEnter l _ \<Rightarrow> l < length (mir_locals f)
    | RegionExit l _ \<Rightarrow> l < length (mir_locals f)
    | Assign p indices v accs _ \<Rightarrow>
        place_ok f p \<and> length indices = index_count p \<and>
        list_all (\<lambda>i. operands_ok f types i \<and> has_integer_type types (operand_ty i)) indices \<and>
        (\<exists>x. v = Some x \<and> operands_ok f types x \<and> assigned_ok f types p x) \<and> accesses_ok f accs
    | Borrow l p _ _ _ \<Rightarrow> l < length (mir_locals f) \<and> place_ok f p
    | DropPlace p _ \<Rightarrow> place_ok f p
    | Evaluate v accs _ \<Rightarrow> (case v of Some x \<Rightarrow> operands_ok f types x | None \<Rightarrow> accs = []) \<and> accesses_ok f accs)"

definition returned_ok :: "MirFunction \<Rightarrow> TypeStore \<Rightarrow> MirOperand option \<Rightarrow> bool" where
  "returned_ok f types v = (case kind_of types (mir_signature f) of
      Some (TFunction _ result) \<Rightarrow>
        (case v of Some x \<Rightarrow> mir_value_compatible types result (operand_ty x) | None \<Rightarrow> kind_of types result = Some TUnit)
    | _ \<Rightarrow> True)"

definition terminator_ok :: "MirFunction \<Rightarrow> TypeStore \<Rightarrow> Terminator \<Rightarrow> bool" where
  "terminator_ok f types t \<longleftrightarrow>
     list_all (\<lambda>b. b < length (mir_blocks f)) (successors t) \<and> accesses_ok f (terminator_accesses t) \<and>
     (case t of
        Switch v _ _ _ _ \<Rightarrow> (\<exists>x. v = Some x \<and> operands_ok f types x \<and> kind_of types (operand_ty x) = Some TBool)
      | Match v _ pat _ _ _ \<Rightarrow> operands_ok f types v \<and> list_all pattern_named (patterns pat)
      | Propagate v _ k _ _ _ \<Rightarrow> operands_ok f types v \<and> valid_carrier k (kind_of types (operand_ty v))
      | Return v _ _ \<Rightarrow> (case v of Some x \<Rightarrow> operands_ok f types x | None \<Rightarrow> True) \<and> returned_ok f types v
      | _ \<Rightarrow> True)"

definition block_ok :: "MirFunction \<Rightarrow> TypeStore \<Rightarrow> BasicBlock \<Rightarrow> bool" where
  "block_ok f types b \<longleftrightarrow> list_all (statement_ok f types) (block_statements b) \<and> terminator_ok f types (block_terminator b)"

definition function_ok :: "TypeStore \<Rightarrow> MirFunction \<Rightarrow> bool" where
  "function_ok types f \<longleftrightarrow>
     kind_of types (mir_signature f) \<noteq> None \<and>
     map local_id (mir_locals f) = [0..<length (mir_locals f)] \<and>
     list_all (\<lambda>l. kind_of types (local_ty l) \<noteq> None) (mir_locals f) \<and>
     ids_ok f \<and> list_all (block_ok f types) (mir_blocks f)"

lemma require_nil [simp]: "require c s m = [] \<longleftrightarrow> c"
  by (simp add: require_def)

lemma concat_map_nil: "concat (map g xs) = [] \<longleftrightarrow> list_all (\<lambda>x. g x = []) xs"
  by (auto simp: list_all_iff)

lemma verify_simple_nil [simp]:
  "verify_local l s f = [] \<longleftrightarrow> l < length (mir_locals f)"
  "verify_place p s f = [] \<longleftrightarrow> place_ok f p"
  "verify_block b s f = [] \<longleftrightarrow> b < length (mir_blocks f)"
  "verify_accesses accs f = [] \<longleftrightarrow> accesses_ok f accs"
  by (auto simp: verify_local_def verify_place_def verify_block_def verify_accesses_def place_ok_def accesses_ok_def list_all_iff)

lemma verify_extract_nil: "place_ok f p \<Longrightarrow> verify_extract_source_indices p is s types = [] \<longleftrightarrow> extract_ok f types p is"
  by (auto simp: verify_extract_source_indices_def extract_ok_def list_all_iff)

lemma verify_pattern_nil: "verify_mir_pattern pat s = [] \<longleftrightarrow> list_all pattern_named (patterns pat)"
  by (induction pat s rule: verify_mir_pattern.induct) (auto simp: pattern_named_def list_all_iff)

lemma nested_all: "list_all P (concat (map g xs)) \<longleftrightarrow> (\<forall>x \<in> set xs. list_all P (g x))"
  by (auto simp: list_all_iff)

lemma verify_operand_nil: "verify_operand x f types = [] \<longleftrightarrow> operands_ok f types x"
proof (induction x f types rule: verify_operand.induct)
  case (1 ty k s f types)
  have pair: "(\<lambda>(_, v). nested_operands v) = (\<lambda>m. nested_operands (snd m))" "(\<lambda>(_, v). verify_operand v f types) = (\<lambda>m. verify_operand (snd m) f types)"
    by (auto simp: fun_eq_iff)
  show ?case
    by (cases k) (use 1 in \<open>auto simp: operands_ok_def operand_ok_def nested_all pair verify_extract_nil extract_ok_def split: option.split\<close>)
qed

lemma verify_statement_nil: "verify_statement st f types = [] \<longleftrightarrow> statement_ok f types st"
proof (cases st)
  case (Assign p indices v accs s)
  show ?thesis
  proof (cases "place_ok f p")
    case True
    then have "get (mir_locals f) (place_local p) = Some (mir_locals f ! place_local p)" by (simp add: place_ok_def get_eq_Some)
    then show ?thesis
      by (cases v) (auto simp: Assign verify_statement_def statement_ok_def verify_operand_nil assigned_ok_def list_all_iff)
  qed (simp add: Assign verify_statement_def statement_ok_def)
qed (auto simp: verify_statement_def statement_ok_def verify_operand_nil split: option.split)

lemma verify_return_nil: "verify_return v s f types = [] \<longleftrightarrow> returned_ok f types v"
  by (simp add: verify_return_def returned_ok_def split: option.split type_kind.split)

lemma verify_terminator_nil: "verify_terminator t f types = [] \<longleftrightarrow> terminator_ok f types t"
proof (cases t)
  case (Switch v accs targets otherwise s)
  have "list_all (\<lambda>b. b < length (mir_blocks f)) (successors t) \<longleftrightarrow>
      list_all (\<lambda>b. b < length (mir_blocks f)) targets \<and> otherwise < length (mir_blocks f)"
    by (auto simp: list_all_iff Switch set_successors_switch)
  then show ?thesis
    by (cases v) (auto simp: Switch verify_terminator_def terminator_ok_def verify_operand_nil list_all_iff terminator_accesses_def set_successors_switch)
qed (auto simp: verify_terminator_def terminator_ok_def verify_operand_nil verify_pattern_nil verify_return_nil successors_def
    terminator_accesses_def accesses_ok_def split: option.split)

lemma list_all_enumerate: "list_all P (List.enumerate n xs) \<longleftrightarrow> (\<forall>i < length xs. P (n + i, xs ! i))"
  by (auto simp: list_all_length nth_enumerate_eq)

lemma numbered: "map g xs = [0..<length xs] \<longleftrightarrow> (\<forall>i < length xs. g (xs ! i) = i)"
  unfolding list_eq_iff_nth_eq by simp

lemma verify_function_nil: "verify_mir_function types f = [] \<longleftrightarrow> function_ok types f"
proof -
  have "concat (map (verify_mir_local types) (List.enumerate 0 (mir_locals f))) = [] \<longleftrightarrow>
      map local_id (mir_locals f) = [0..<length (mir_locals f)] \<and> list_all (\<lambda>l. kind_of types (local_ty l) \<noteq> None) (mir_locals f)"
    unfolding concat_map_nil list_all_enumerate numbered
    by (auto simp: verify_mir_local_def list_all_length)
  moreover have "concat (map (verify_mir_block f types) (List.enumerate 0 (mir_blocks f))) = [] \<longleftrightarrow>
      ids_ok f \<and> list_all (block_ok f types) (mir_blocks f)"
  proof -
    have "verify_mir_block f types (i, b) = [] \<longleftrightarrow> block_id b = i \<and> block_ok f types b" for i b
      by (auto simp: verify_mir_block_def block_ok_def list_all_iff verify_statement_nil verify_terminator_nil)
    then show ?thesis unfolding concat_map_nil list_all_enumerate ids_ok_def numbered by (auto simp: list_all_length)
  qed
  ultimately show ?thesis by (auto simp: verify_mir_function_def function_ok_def)
qed

text \<open>
  C18. The verifier reports nothing exactly if in every function the locals and blocks are numbered in order and typed,
  every jump and every place stays inside the function, every operand, with everything nested in it, is typed and of a
  kind that is lowered further, and assignments, conditions, propagations and returns have the types they need.
\<close>

theorem verify_mir_exact: "verify_mir m types = [] \<longleftrightarrow> list_all (function_ok types) m"
  by (auto simp: verify_mir_def list_all_iff verify_function_nil)

text \<open>What the analyses need of a function.\<close>

lemma statement_ok_locals: "statement_ok f types st \<Longrightarrow> event_locals (Ran st) \<subseteq> {..<length (mir_locals f)}"
  by (cases st) (auto simp: statement_ok_def event_locals_def event_accesses_def accesses_ok_def place_ok_def list_all_iff access_to_def)

lemma function_ok_analyses:
  assumes "function_ok types f"
  shows "ids_ok f" "locals_ok f" "mir_blocks f \<noteq> [] \<Longrightarrow> cfg_ok f"
proof -
  have b: "list_all (statement_ok f types) (block_statements b)" "terminator_ok f types (block_terminator b)"
    if "b \<in> set (mir_blocks f)" for b
    using assms that by (auto simp: function_ok_def block_ok_def list_all_iff)
  show "ids_ok f" using assms by (simp add: function_ok_def)
  show "mir_blocks f \<noteq> [] \<Longrightarrow> cfg_ok f" using b(2) by (auto simp: cfg_ok_def terminator_ok_def list_all_iff)
  show "locals_ok f" unfolding locals_ok_def
  proof (intro ballI)
    fix blk ev l
    assume blk: "blk \<in> set (mir_blocks f)" and ev: "ev \<in> set (block_events blk)" and l: "l \<in> event_locals ev"
    show "l < length (mir_locals f)"
    proof (cases ev)
      case (Ran st)
      then have "statement_ok f types st" using b(1) [OF blk] ev by (auto simp: block_events_def list_all_iff)
      then show ?thesis using statement_ok_locals l Ran by blast
    next
      case (Ended t)
      then have "accesses_ok f (terminator_accesses t)" using b(2) [OF blk] ev by (auto simp: block_events_def terminator_ok_def)
      then show ?thesis using l by (auto simp: Ended event_locals_def event_accesses_def accesses_ok_def place_ok_def list_all_iff)
    qed
  qed
qed

lemma operands_ok_self: "operands_ok f types x \<Longrightarrow> operand_ok f types x"
  by (cases x) (simp add: operands_ok_def)

end
