(* ===== verification/Mir_Loans.thy ===== *)
theory Mir_Loans
  imports Mir_Regions
begin

text \<open>
  Loans: \<open>analyze_function_lifetimes\<close> (J0505, J0506) and \<open>analyze_function_borrows\<close> (J0503, J0504). Both keep the loans that are
  live on some path, a holder with the place it borrows. On one path a holder has at most one loan, the one it took
  last. The analysis of lifetimes is exact with respect to the loans of each path; that of borrows compares the accesses
  at a point with the loans of all paths to the point.
\<close>

subsection \<open>Loans and their order\<close>

datatype Loan = Loan (holder: LocalId) (loan_source: Place) (loan_kind: BorrowKind)

text \<open>
  The derived order of \<open>Loan\<close>: by holder, local, projection and kind. It is the order of these keys: a projection that
  ends comes before one that goes on.
\<close>

fun projection_key :: "Projection \<Rightarrow> nat list" where
  "projection_key (ProjField name) = 1 # name"
| "projection_key ProjIndex = [2]"
| "projection_key ProjDereference = [3]"

fun borrow_kind_key :: "BorrowKind \<Rightarrow> nat list" where
  "borrow_kind_key BorrowRead = [0, 0]"
| "borrow_kind_key BorrowWrite = [0, 1]"

fun loan_key :: "Loan \<Rightarrow> nat list list" where
  "loan_key (Loan h p k) = [h] # [place_local p] # map projection_key (projection p) @ [borrow_kind_key k]"

lemma projection_key_eq: "projection_key p = projection_key q \<longleftrightarrow> p = q"
  by (cases p; cases q) auto

lemma borrow_kind_key_eq: "borrow_kind_key p = borrow_kind_key q \<longleftrightarrow> p = q"
  by (cases p; cases q) auto

lemma loan_key_eq: "loan_key a = loan_key b \<longleftrightarrow> a = b"
proof
  assume e: "loan_key a = loan_key b"
  obtain h p k h' p' k' where ab: "a = Loan h p k" "b = Loan h' p' k'" by (cases a, cases b)
  have "inj projection_key" by (rule injI) (simp add: projection_key_eq)
  then have "projection p = projection p'" using e ab by (simp add: inj_map_eq_map)
  then show "a = b" using e ab by (cases p; cases p') (auto simp: borrow_kind_key_eq)
qed simp

instantiation Loan :: linorder
begin

definition less_eq_Loan :: "Loan \<Rightarrow> Loan \<Rightarrow> bool" where
  "less_eq_Loan a b \<longleftrightarrow> loan_key a \<le> loan_key b"

definition less_Loan :: "Loan \<Rightarrow> Loan \<Rightarrow> bool" where
  "less_Loan a b \<longleftrightarrow> loan_key a < loan_key b"

instance
  by standard (auto simp: less_eq_Loan_def less_Loan_def loan_key_eq less_le)

end

text \<open>\<open>loans.iter().find(|loan| loan.holder == local)\<close>: the first loan of a holder in this order.\<close>

definition first_loan :: "LocalId \<Rightarrow> Loan set \<Rightarrow> Loan option" where
  "first_loan l loans = find (\<lambda>x. holder x = l) (sorted_list_of_set loans)"

definition without_holder :: "LocalId \<Rightarrow> Loan set \<Rightarrow> Loan set" where
  "without_holder l loans = {x \<in> loans. holder x \<noteq> l}"

lemma first_loan_Some: "finite loans \<Longrightarrow> first_loan l loans = Some x \<Longrightarrow> x \<in> loans \<and> holder x = l"
  unfolding first_loan_def find_Some_iff by (metis nth_mem set_sorted_list_of_set)

lemma first_loan_None: "finite loans \<Longrightarrow> first_loan l loans = None \<longleftrightarrow> (\<forall>x \<in> loans. holder x \<noteq> l)"
  by (auto simp: first_loan_def find_None_iff)

subsection \<open>Lifetimes\<close>

definition borrowed_parameter :: "TypeStore \<Rightarrow> MirLocal \<Rightarrow> bool" where
  "borrowed_parameter types source \<longleftrightarrow> is_parameter source \<and>
     (case kind_of types (local_ty source) of Some (TCapability c _) \<Rightarrow> c = Read \<or> c = Write | _ \<Rightarrow> False)"

definition lifetime_statement :: "MirStatement \<Rightarrow> Loan set \<times> Report \<Rightarrow> Loan set \<times> Report" where
  "lifetime_statement st sx = (case sx of (loans, x) \<Rightarrow> (case st of
      Borrow destination source k _ _ \<Rightarrow> (insert (Loan destination source k) (without_holder destination loans), x)
    | StorageDead l s \<Rightarrow>
        (without_holder l loans,
         if \<exists>loan \<in> loans. place_local (loan_source loan) = l
         then report (lit ''J0506'') (lit ''borrowed value does not live long enough'') s l x else x)
    | Assign destination _ _ _ _ \<Rightarrow>
        (if projection destination = [] then without_holder (place_local destination) loans else loans, x)
    | StorageLive l _ \<Rightarrow> (without_holder l loans, x)
    | _ \<Rightarrow> (loans, x)))"

definition return_access :: "MirFunction \<Rightarrow> TypeStore \<Rightarrow> Loan set \<Rightarrow> Span \<Rightarrow> Report \<Rightarrow> PlaceAccess \<Rightarrow> Report option" where
  "return_access f types loans s x a =
     (case first_loan (place_local (access_place a)) loans of
        None \<Rightarrow> Some x
      | Some loan \<Rightarrow>
          map_option (\<lambda>source. if \<not> borrowed_parameter types source
              then report (lit ''J0505'') (lit ''returned borrow would outlive its source owner'') s (place_local (access_place a)) x
              else x)
            (get (mir_locals f) (place_local (loan_source loan))))"

fun return_accesses :: "MirFunction \<Rightarrow> TypeStore \<Rightarrow> Loan set \<Rightarrow> Span \<Rightarrow> PlaceAccess list \<Rightarrow> Report \<Rightarrow> Report option" where
  "return_accesses f types loans s [] x = Some x"
| "return_accesses f types loans s (a # as) x =
     Option.bind (return_access f types loans s x a) (return_accesses f types loans s as)"

definition lifetime_event ::
  "TypeStore \<Rightarrow> MirFunction \<Rightarrow> MirEvent \<Rightarrow> Loan set \<times> Report \<Rightarrow> (Loan set \<times> Report) option" where
  "lifetime_event types f ev sx = (case ev of
      Ran st \<Rightarrow> Some (lifetime_statement st sx)
    | Ended (Return _ accs s) \<Rightarrow> map_option (Pair (fst sx)) (return_accesses f types (fst sx) s accs (snd sx))
    | Ended _ \<Rightarrow> Some sx)"

definition analyze_function_lifetimes :: "MirFunction \<Rightarrow> TypeStore \<Rightarrow> MirError list option" where
  "analyze_function_lifetimes f types =
     (if mir_blocks f = [] then Some []
      else map_option (\<lambda>r. snd (snd r)) (analyse merge_union (lifetime_event types f) f {} no_report))"

subsection \<open>The loans of a path\<close>

type_synonym Held = "LocalId \<Rightarrow> (Place \<times> BorrowKind) option"

definition held_after :: "MirEvent \<Rightarrow> Held \<Rightarrow> Held" where
  "held_after ev held = (case ev of
      Ran (Borrow destination source k _ _) \<Rightarrow> held(destination \<mapsto> (source, k))
    | Ran (StorageLive l _) \<Rightarrow> held(l := None)
    | Ran (StorageDead l _) \<Rightarrow> held(l := None)
    | Ran (Assign destination _ _ _ _) \<Rightarrow> if projection destination = [] then held(place_local destination := None) else held
    | _ \<Rightarrow> held)"

definition held :: "MirEvent list \<Rightarrow> Held" where
  "held tr = foldl (\<lambda>h ev. held_after ev h) Map.empty tr"

text \<open>
  A value may not end its storage while a loan of it is held, and a returned loan must be of a parameter that the
  caller lent.
\<close>

definition lifetime_safe :: "TypeStore \<Rightarrow> MirFunction \<Rightarrow> MirEvent \<Rightarrow> Held \<Rightarrow> bool" where
  "lifetime_safe types f ev h \<longleftrightarrow>
     (\<forall>l s. ev = Ran (StorageDead l s) \<longrightarrow> (\<forall>d p k. h d = Some (p, k) \<longrightarrow> place_local p \<noteq> l)) \<and>
     (\<forall>v accs s. ev = Ended (Return v accs s) \<longrightarrow> (\<forall>a \<in> set accs. \<forall>p k. h (place_local (access_place a)) = Some (p, k) \<longrightarrow>
        borrowed_parameter types (mir_locals f ! place_local p)))"

definition loans_of :: "MirFunction \<Rightarrow> Loan set" where
  "loans_of f = {x. \<exists>preserve s. Ran (Borrow (holder x) (loan_source x) (loan_kind x) preserve s) \<in> all_events f}"

text \<open>Lowering makes one borrow for each local that holds one.\<close>

definition one_loan_each :: "MirFunction \<Rightarrow> bool" where
  "one_loan_each f \<longleftrightarrow> (\<forall>x \<in> loans_of f. \<forall>y \<in> loans_of f. holder x = holder y \<longrightarrow> x = y)"

definition loan_gains :: "MirEvent \<Rightarrow> Loan set" where
  "loan_gains ev = (case ev of Ran (Borrow destination source k _ _) \<Rightarrow> {Loan destination source k} | _ \<Rightarrow> {})"

definition loan_ends :: "MirEvent \<Rightarrow> LocalId set" where
  "loan_ends ev = (case ev of
      Ran (Borrow destination _ _ _ _) \<Rightarrow> {destination}
    | Ran (StorageLive l _) \<Rightarrow> {l}
    | Ran (StorageDead l _) \<Rightarrow> {l}
    | Ran (Assign destination _ _ _ _) \<Rightarrow> if projection destination = [] then {place_local destination} else {}
    | _ \<Rightarrow> {})"

definition loan_step :: "MirEvent \<Rightarrow> Loan set \<Rightarrow> Loan set" where
  "loan_step ev loans = {x \<in> loans. holder x \<notin> loan_ends ev} \<union> loan_gains ev"

definition loans_held :: "Held \<Rightarrow> Loan set" where
  "loans_held h = {x. h (holder x) = Some (loan_source x, loan_kind x)}"

lemma held_after_loans: "loans_held (held_after ev h) = loan_step ev (loans_held h)"
proof (cases ev)
  case (Ran st)
  then show ?thesis
    by (cases st) (auto simp: held_after_def loans_held_def loan_step_def loan_ends_def loan_gains_def split: if_splits)
next
  case (Ended t)
  then show ?thesis by (simp add: held_after_def loans_held_def loan_step_def loan_ends_def loan_gains_def)
qed

lemma loan_step_mono: "A \<subseteq> B \<Longrightarrow> loan_step ev A \<subseteq> loan_step ev B"
  by (auto simp: loan_step_def)

lemma loan_step_of: "ev \<in> all_events f \<Longrightarrow> s \<subseteq> loans_of f \<Longrightarrow> loan_step ev s \<subseteq> loans_of f"
  by (auto simp: loan_step_def loan_gains_def loans_of_def split: MirEvent.splits MirStatement.splits)

lemma finite_loans_of: "finite (loans_of f)"
proof -
  have "loans_of f \<subseteq> (\<Union>ev \<in> all_events f. loan_gains ev)" by (force simp: loans_of_def loan_gains_def)
  moreover have "finite (loan_gains ev)" for ev by (simp add: loan_gains_def split: MirEvent.split MirStatement.split)
  ultimately show ?thesis using finite_all_events finite_subset by (metis finite_UN)
qed

lemma finite_loans: "s \<subseteq> loans_of f \<Longrightarrow> finite s"
  using finite_loans_of finite_subset by blast

lemma lifetime_statement_step: "fst (lifetime_statement st (s, x)) = loan_step (Ran st) s"
  by (cases st) (auto simp: lifetime_statement_def loan_step_def loan_ends_def loan_gains_def without_holder_def)

definition lifetime_fine :: "TypeStore \<Rightarrow> MirFunction \<Rightarrow> MirEvent \<Rightarrow> Loan set \<Rightarrow> bool" where
  "lifetime_fine types f ev loans \<longleftrightarrow>
     (\<forall>l s. ev = Ran (StorageDead l s) \<longrightarrow> (\<forall>x \<in> loans. place_local (loan_source x) \<noteq> l)) \<and>
     (\<forall>v accs s. ev = Ended (Return v accs s) \<longrightarrow> (\<forall>a \<in> set accs. \<forall>x. first_loan (place_local (access_place a)) loans = Some x \<longrightarrow>
        borrowed_parameter types (mir_locals f ! place_local (loan_source x))))"

definition sources_ok :: "MirFunction \<Rightarrow> Loan set \<Rightarrow> bool" where
  "sources_ok f loans \<longleftrightarrow> (\<forall>x \<in> loans. place_local (loan_source x) < length (mir_locals f))"

lemma sources_ok_of:
  assumes "locals_ok f" "loans \<subseteq> loans_of f"
  shows "sources_ok f loans"
  unfolding sources_ok_def
proof
  fix x
  assume "x \<in> loans"
  then obtain preserve s where ev: "Ran (Borrow (holder x) (loan_source x) (loan_kind x) preserve s) \<in> all_events f"
    using assms(2) by (auto simp: loans_of_def)
  have "place_local (loan_source x) \<in> event_locals (Ran (Borrow (holder x) (loan_source x) (loan_kind x) preserve s))"
    by (simp add: event_locals_def event_accesses_def access_to_def)
  then show "place_local (loan_source x) < length (mir_locals f)" using locals_okD [OF assms(1) ev] by blast
qed

lemma return_accesses_ok:
  assumes "finite loans" "sources_ok f loans"
  shows "\<exists>x'. return_accesses f types loans s as x = Some x' \<and>
    (blank x' \<longleftrightarrow> blank x \<and> (\<forall>a \<in> set as. \<forall>y. first_loan (place_local (access_place a)) loans = Some y \<longrightarrow>
      borrowed_parameter types (mir_locals f ! place_local (loan_source y)))) \<and> (coherent x \<longrightarrow> coherent x')"
proof (induction as arbitrary: x)
  case (Cons a as)
  have "\<exists>x1. return_access f types loans s x a = Some x1 \<and>
    (blank x1 \<longleftrightarrow> blank x \<and> (\<forall>y. first_loan (place_local (access_place a)) loans = Some y \<longrightarrow>
      borrowed_parameter types (mir_locals f ! place_local (loan_source y)))) \<and> (coherent x \<longrightarrow> coherent x1)"
  proof (cases "first_loan (place_local (access_place a)) loans")
    case (Some y)
    then have "place_local (loan_source y) < length (mir_locals f)"
      using first_loan_Some [OF assms(1)] assms(2) by (auto simp: sources_ok_def)
    then show ?thesis by (simp add: return_access_def Some get_def)
  qed (simp add: return_access_def)
  then obtain x1 where x1: "return_access f types loans s x a = Some x1"
    "blank x1 \<longleftrightarrow> blank x \<and> (\<forall>y. first_loan (place_local (access_place a)) loans = Some y \<longrightarrow>
      borrowed_parameter types (mir_locals f ! place_local (loan_source y)))" "coherent x \<longrightarrow> coherent x1" by blast
  show ?case using Cons.IH [of x1] x1 by auto
qed simp

lemma lifetime_statement_report:
  "(blank (snd (lifetime_statement st (s, x))) \<longleftrightarrow> blank x \<and> lifetime_fine types f (Ran st) s) \<and>
   (coherent x \<longrightarrow> coherent (snd (lifetime_statement st (s, x))))"
  by (cases st) (auto simp: lifetime_statement_def lifetime_fine_def)

lemma lifetime_event_step:
  assumes "finite s" "sources_ok f s"
  shows "\<exists>x'. lifetime_event types f ev (s, x) = Some (loan_step ev s, x') \<and>
    (blank x' \<longleftrightarrow> blank x \<and> lifetime_fine types f ev s) \<and> (coherent x \<longrightarrow> coherent x')"
proof (cases ev)
  case (Ran st)
  show ?thesis
    using lifetime_statement_step [of st s x] lifetime_statement_report [of st s x types f] unfolding Ran
    by (intro exI [of _ "snd (lifetime_statement st (s, x))"])
      (cases "lifetime_statement st (s, x)", simp add: lifetime_event_def)
next
  case (Ended t)
  then have step: "loan_step ev s = s" by (simp add: loan_step_def loan_ends_def loan_gains_def)
  show ?thesis unfolding step using return_accesses_ok [OF assms]
    by (cases t) (auto simp: Ended lifetime_event_def lifetime_fine_def)
qed

text \<open>When each local holds at most one loan, the first loan of a holder is its loan.\<close>

lemma first_loan_one:
  assumes "one_loan_each f" "s \<subseteq> loans_of f" "x \<in> s"
  shows "first_loan (holder x) s = Some x"
proof (cases "first_loan (holder x) s")
  case None
  then show ?thesis using assms(3) first_loan_None [OF finite_loans [OF assms(2)]] by fastforce
next
  case (Some y)
  then have "y \<in> s" "holder y = holder x" using first_loan_Some [OF finite_loans [OF assms(2)]] by auto
  moreover have "x \<in> loans_of f" "y \<in> loans_of f" using assms(2,3) \<open>y \<in> s\<close> by blast+
  ultimately have "y = x" using assms(1) unfolding one_loan_each_def by blast
  then show ?thesis using Some by simp
qed

lemma lifetime_safe_fine:
  assumes "one_loan_each f" "loans_held h \<subseteq> s" "s \<subseteq> loans_of f" "lifetime_fine types f ev s"
  shows "lifetime_safe types f ev h"
proof -
  have inn: "Loan d p k \<in> s" if "h d = Some (p, k)" for d p k using assms(2) that by (auto simp: loans_held_def)
  have first: "first_loan d s = Some (Loan d p k)" if "h d = Some (p, k)" for d p k
    using first_loan_one [OF assms(1,3) inn [OF that]] by simp
  show ?thesis unfolding lifetime_safe_def
  proof (intro conjI allI impI ballI)
    fix l sp d p k
    assume "ev = Ran (StorageDead l sp)" "h d = Some (p, k)"
    then show "place_local p \<noteq> l" using assms(4) inn unfolding lifetime_fine_def by fastforce
  next
    fix v accs sp a p k
    assume "ev = Ended (Return v accs sp)" "a \<in> set accs" "h (place_local (access_place a)) = Some (p, k)"
    then show "borrowed_parameter types (mir_locals f ! place_local p)"
      using assms(4) first unfolding lifetime_fine_def by fastforce
  qed
qed

lemma lifetime_unsafe_reason:
  assumes "finite s" "\<not> lifetime_fine types f ev s"
  shows "\<exists>x. x \<in> s \<and> (\<forall>h. x \<in> loans_held h \<longrightarrow> \<not> lifetime_safe types f ev h)"
proof -
  consider l sp x where "ev = Ran (StorageDead l sp)" "x \<in> s" "place_local (loan_source x) = l"
    | v accs sp a x where "ev = Ended (Return v accs sp)" "a \<in> set accs" "first_loan (place_local (access_place a)) s = Some x"
      "\<not> borrowed_parameter types (mir_locals f ! place_local (loan_source x))"
    using assms(2) unfolding lifetime_fine_def by blast
  then show ?thesis
  proof cases
    case 1
    then show ?thesis by (intro exI [of _ x]) (auto simp: lifetime_safe_def loans_held_def)
  next
    case 2
    then have "x \<in> s" "holder x = place_local (access_place a)" using first_loan_Some [OF assms(1)] by auto
    then show ?thesis using 2 by (intro exI [of _ x]) (auto simp: lifetime_safe_def loans_held_def)
  qed
qed

text \<open>A step of the analyses keeps loans or makes the new one.\<close>

lemma loan_evidence:
  assumes "a \<in> loan_step ev s"
  shows "(\<forall>p. a \<in> loans_held (held_after ev p)) \<or> (\<exists>a'. a' \<in> s \<and> (\<forall>p. a' \<in> loans_held p \<longrightarrow> a \<in> loans_held (held_after ev p)))"
  using assms unfolding held_after_loans by (auto simp: loan_step_def)

interpretation lifetimes: exact_analysis "\<lambda>f. cfg_ok f \<and> locals_ok f \<and> one_loan_each f" "\<lambda>f. {}" merge_union "(\<union>)"
  "lifetime_event types" "\<lambda>f. loan_step" "lifetime_fine types" "\<lambda>f s. s \<subseteq> loans_of f" "\<lambda>f s. card (loans_of f - s)"
  "\<lambda>f. Map.empty" "\<lambda>f. held_after" "\<lambda>f h s. loans_held h \<subseteq> s \<and> s \<subseteq> loans_of f"
  blank coherent no_report "\<lambda>x s. x \<in> s" "\<lambda>x h. x \<in> loans_held h" "lifetime_safe types" for types
proof
  fix f ev and s :: "Loan set" and x
  assume "cfg_ok f \<and> locals_ok f \<and> one_loan_each f" "s \<subseteq> loans_of f"
  then show "\<exists>x'. lifetime_event types f ev (s, x) = Some (loan_step ev s, x') \<and>
      (blank x' \<longleftrightarrow> blank x \<and> lifetime_fine types f ev s) \<and> (coherent x \<longrightarrow> coherent x')"
    by (intro lifetime_event_step) (auto intro: finite_loans sources_ok_of)
next
  fix f :: MirFunction and e s
  assume "e \<subseteq> loans_of f" "s \<subseteq> loans_of f"
  then show "merge_union e s = (e \<union> s, e \<union> s \<noteq> e)" by (intro merge_union_eq) (auto intro: finite_loans)
next
  fix f ev h and s :: "Loan set"
  assume "ev \<in> all_events f" "loans_held h \<subseteq> s \<and> s \<subseteq> loans_of f"
  then show "loans_held (held_after ev h) \<subseteq> loan_step ev s \<and> loan_step ev s \<subseteq> loans_of f"
    unfolding held_after_loans by (intro conjI loan_step_mono loan_step_of) simp_all
next
  fix f ev and s :: "Loan set"
  assume "s \<subseteq> loans_of f" "\<not> lifetime_fine types f ev s"
  then show "(\<forall>p. \<not> lifetime_safe types f ev p) \<or> (\<exists>a. a \<in> s \<and> (\<forall>p. a \<in> loans_held p \<longrightarrow> \<not> lifetime_safe types f ev p))"
    using lifetime_unsafe_reason finite_loans by blast
next
  fix f :: MirFunction and ev and s :: "Loan set" and a
  assume "a \<in> loan_step ev s"
  then show "(\<forall>p. a \<in> loans_held (held_after ev p)) \<or> (\<exists>a'. a' \<in> s \<and> (\<forall>p. a' \<in> loans_held p \<longrightarrow> a \<in> loans_held (held_after ev p)))"
    by (rule loan_evidence)
next
  fix f :: MirFunction and ev h and s :: "Loan set"
  assume "cfg_ok f \<and> locals_ok f \<and> one_loan_each f" "loans_held h \<subseteq> s \<and> s \<subseteq> loans_of f" "lifetime_fine types f ev s"
  then show "lifetime_safe types f ev h" using lifetime_safe_fine by blast
next
  fix f :: MirFunction and ev and s :: "Loan set"
  assume "ev \<in> all_events f" "s \<subseteq> loans_of f"
  then show "loan_step ev s \<subseteq> loans_of f" by (rule loan_step_of)
next
  fix f :: MirFunction and e s :: "Loan set"
  assume "s \<subseteq> loans_of f" "e \<union> s \<noteq> e"
  then show "card (loans_of f - (e \<union> s)) < card (loans_of f - e)" by (intro card_union_less finite_loans_of)
qed (auto simp: loans_held_def)

lemma lifetimes_path: "lifetimes.path f tr = held tr"
  unfolding lifetimes.path_def held_def ..

lemma loans_exact:
  assumes "cfg_ok f" "locals_ok f" "one_loan_each f"
  shows "\<exists>errors. analyze_function_lifetimes f types = Some errors \<and>
    (errors = [] \<longleftrightarrow> (\<forall>tr ev. at_event f tr ev \<longrightarrow> lifetime_safe types f ev (held tr)))"
proof -
  have w: "cfg_ok f \<and> locals_ok f \<and> one_loan_each f" using assms by simp
  have "mir_blocks f \<noteq> []" using assms by (simp add: cfg_ok_def)
  moreover obtain inputs x where "analyse merge_union (lifetime_event types f) f {} no_report = Some (inputs, x)"
    "coherent x" "blank x \<longleftrightarrow> (\<forall>tr ev. at_event f tr ev \<longrightarrow> lifetime_safe types f ev (held tr))"
    using lifetimes.analyse_exact [OF w, of types] unfolding lifetimes_path by blast
  ultimately show ?thesis unfolding analyze_function_lifetimes_def by (auto simp: coherent_silent)
qed

text \<open>
  C14. On a function whose jumps and accesses stay inside it, and in which each local holds at most one loan, the analysis
  returns, and reports nothing exactly if on every path no storage ends while a loan of it is held, and every loan that
  is returned is of a parameter lent by the caller.
\<close>

theorem analyze_lifetimes_exact:
  assumes "cfg_ok f" "locals_ok f" "one_loan_each f"
  shows "\<exists>errors. analyze_function_lifetimes f types = Some errors \<and>
    (errors = [] \<longleftrightarrow> (\<forall>tr ev. at_event f tr ev \<longrightarrow> lifetime_safe types f ev (held tr)))"
  by (rule loans_exact [OF assms])

lemma sample_one_loan: "one_loan_each sample_function"
proof -
  have "loans_of sample_function \<subseteq> {Loan 4 (whole 0) BorrowRead}"
    by (auto simp: loans_of_def all_events_def sample_defs block_events_def intro: Loan.expand)
  then show ?thesis unfolding one_loan_each_def by blast
qed

theorem analyze_lifetimes_exact_witness:
  "cfg_ok sample_function \<and> locals_ok sample_function \<and> one_loan_each sample_function \<and>
   \<not> (\<exists>tr ev. at_event sample_function tr ev \<and> \<not> lifetime_safe type_store_new sample_function ev (held tr))"
proof -
  have "analyze_function_lifetimes sample_function type_store_new = Some []" by code_simp
  then show ?thesis
    using analyze_lifetimes_exact [OF sample_graph sample_locals sample_one_loan, of type_store_new] sample_graph sample_locals sample_one_loan by simp
qed

subsection \<open>Borrows\<close>

definition access_conflicts_with_loan :: "AccessKind \<Rightarrow> BorrowKind \<Rightarrow> bool" where
  "access_conflicts_with_loan a k \<longleftrightarrow> \<not> ((a = AccRead \<or> a = AccBorrowRead) \<and> k = BorrowRead)"

definition through :: "Place \<Rightarrow> Place \<Rightarrow> Place" where
  "through source p = Place (place_local source) (projection source @ projection p)"

definition resolve_loan_place :: "Place \<Rightarrow> Loan set \<Rightarrow> Place" where
  "resolve_loan_place p active = (case first_loan (place_local p) active of
      None \<Rightarrow> p
    | Some loan \<Rightarrow> through (loan_source loan) p)"

definition ephemeral_borrow :: "PlaceAccess \<Rightarrow> BorrowKind option" where
  "ephemeral_borrow a = (case access_kind a of AccBorrowRead \<Rightarrow> Some BorrowRead | AccBorrowWrite \<Rightarrow> Some BorrowWrite | _ \<Rightarrow> None)"

definition check_borrow_access ::
  "Loan set \<Rightarrow> (Place \<times> BorrowKind) list \<times> Report \<Rightarrow> PlaceAccess \<Rightarrow> (Place \<times> BorrowKind) list \<times> Report" where
  "check_borrow_access active ex a =
     (let place = resolve_loan_place (access_place a) active;
          l = place_local (access_place a);
          x1 = foldl (\<lambda>x loan. if overlaps place (loan_source loan) \<and> access_conflicts_with_loan (access_kind a) (loan_kind loan)
                 then report (lit ''J0503'') (lit ''overlapping access conflicts with an active borrow'') (access_span a) l x
                 else x) (snd ex) (sorted_list_of_set active);
          x2 = foldl (\<lambda>x bk. if overlaps place (fst bk) \<and> access_conflicts_with_loan (access_kind a) (snd bk)
                 then report (lit ''J0503'') (lit ''overlapping call arguments require incompatible borrows'') (access_span a) l x
                 else x) x1 (fst ex)
      in (case ephemeral_borrow a of None \<Rightarrow> fst ex | Some k \<Rightarrow> fst ex @ [(place, k)], x2))"

definition check_borrow_accesses :: "PlaceAccess list \<Rightarrow> Loan set \<Rightarrow> Report \<Rightarrow> Report" where
  "check_borrow_accesses accs active x = snd (foldl (\<lambda>ex a. check_borrow_access active ex a) ([], x) accs)"

definition check_read_only_write :: "Place \<Rightarrow> Span \<Rightarrow> MirFunction \<Rightarrow> TypeStore \<Rightarrow> Report \<Rightarrow> Report" where
  "check_read_only_write destination s f types x =
     (if projection destination = [] then x
      else case get (mir_locals f) (place_local destination) of
          None \<Rightarrow> x
        | Some l \<Rightarrow>
            (case kind_of types (local_ty l) of
               Some (TCapability Read _) \<Rightarrow>
                 report (lit ''J0504'') (lit ''cannot write through a read-only capability'') s (place_local destination) x
             | _ \<Rightarrow> x))"

definition borrow_access :: "BorrowKind \<Rightarrow> AccessKind" where
  "borrow_access k = (case k of BorrowRead \<Rightarrow> AccBorrowRead | BorrowWrite \<Rightarrow> AccBorrowWrite)"

definition borrow_statement :: "TypeStore \<Rightarrow> MirFunction \<Rightarrow> MirStatement \<Rightarrow> Loan set \<times> Report \<Rightarrow> Loan set \<times> Report" where
  "borrow_statement types f st sx = (case sx of (loans, x) \<Rightarrow> (case st of
      StorageLive l _ \<Rightarrow> (without_holder l loans, x)
    | StorageDead l _ \<Rightarrow> (without_holder l loans, x)
    | RegionEnter _ _ \<Rightarrow> (loans, x)
    | RegionExit _ _ \<Rightarrow> (loans, x)
    | Assign destination _ _ accs s \<Rightarrow>
        (if projection destination = [] then without_holder (place_local destination) loans else loans,
         check_borrow_accesses accs loans (check_read_only_write destination s f types x))
    | Borrow destination source k _ s \<Rightarrow>
        (let rest = without_holder destination loans in
         (insert (Loan destination source k) rest, check_borrow_accesses [access_to source (borrow_access k) s] rest x))
    | DropPlace p s \<Rightarrow> (loans, check_borrow_accesses [access_to p AccMove s] loans x)
    | Evaluate _ accs _ \<Rightarrow> (loans, check_borrow_accesses accs loans x)))"

definition borrow_event :: "TypeStore \<Rightarrow> MirFunction \<Rightarrow> MirEvent \<Rightarrow> Loan set \<times> Report \<Rightarrow> (Loan set \<times> Report) option" where
  "borrow_event types f ev sx = (case ev of
      Ran st \<Rightarrow> Some (borrow_statement types f st sx)
    | Ended t \<Rightarrow> Some (fst sx, check_borrow_accesses (terminator_accesses t) (fst sx) (snd sx)))"

definition analyze_function_borrows :: "MirFunction \<Rightarrow> TypeStore \<Rightarrow> MirError list option" where
  "analyze_function_borrows f types =
     (if mir_blocks f = [] then Some []
      else map_option (\<lambda>r. snd (snd r)) (analyse merge_union (borrow_event types f) f {} no_report))"

subsection \<open>What an accepted function does not do\<close>

text \<open>The accesses of an event, and the loans they are checked against: a new borrow ends the old loan of its holder first.\<close>

definition borrow_accesses :: "MirEvent \<Rightarrow> PlaceAccess list" where
  "borrow_accesses ev = (case ev of
      Ran (Assign _ _ _ accs _) \<Rightarrow> accs
    | Ran (Borrow _ source k _ s) \<Rightarrow> [access_to source (borrow_access k) s]
    | Ran (DropPlace p s) \<Rightarrow> [access_to p AccMove s]
    | Ran (Evaluate _ accs _) \<Rightarrow> accs
    | Ended t \<Rightarrow> terminator_accesses t
    | _ \<Rightarrow> [])"

definition ended_first :: "MirEvent \<Rightarrow> LocalId set" where
  "ended_first ev = (case ev of Ran (Borrow destination _ _ _ _) \<Rightarrow> {destination} | _ \<Rightarrow> {})"

definition during :: "MirEvent \<Rightarrow> Loan set \<Rightarrow> Loan set" where
  "during ev loans = {x \<in> loans. holder x \<notin> ended_first ev}"

text \<open>The loans that some path to a point holds there.\<close>

definition held_at :: "MirFunction \<Rightarrow> BasicBlockId \<Rightarrow> nat \<Rightarrow> Loan set" where
  "held_at f b i = (\<Union>tr \<in> {tr. at_point f b i tr}. loans_held (held tr))"

text \<open>
  The place that an access means: a local that holds one of the loans stands for the place that is borrowed, any other
  local for itself.
\<close>

definition refers :: "Loan set \<Rightarrow> Place \<Rightarrow> Place \<Rightarrow> bool" where
  "refers loans p r \<longleftrightarrow>
     (\<exists>x \<in> loans. holder x = place_local p \<and> r = through (loan_source x) p) \<or> ((\<forall>x \<in> loans. holder x \<noteq> place_local p) \<and> r = p)"

definition read_only_write :: "TypeStore \<Rightarrow> MirFunction \<Rightarrow> Place \<Rightarrow> bool" where
  "read_only_write types f p \<longleftrightarrow> projection p \<noteq> [] \<and> place_local p < length (mir_locals f) \<and>
     (\<exists>t. kind_of types (local_ty (mir_locals f ! place_local p)) = Some (TCapability Read t))"

text \<open>
  No access conflicts with a loan, no two accesses of one event with each other, and nothing is written through a
  read-only capability. The destination of an assignment is not among the accesses of the source.
\<close>

definition borrow_safe :: "TypeStore \<Rightarrow> MirFunction \<Rightarrow> MirEvent \<Rightarrow> Loan set \<Rightarrow> bool" where
  "borrow_safe types f ev loans \<longleftrightarrow>
     (\<forall>a \<in> set (borrow_accesses ev). \<forall>r. refers (during ev loans) (access_place a) r \<longrightarrow>
        (\<forall>x \<in> during ev loans. overlaps r (loan_source x) \<longrightarrow> \<not> access_conflicts_with_loan (access_kind a) (loan_kind x))) \<and>
     (\<forall>i j k q r. i < j \<longrightarrow> j < length (borrow_accesses ev) \<longrightarrow> ephemeral_borrow (borrow_accesses ev ! i) = Some k \<longrightarrow>
        refers (during ev loans) (access_place (borrow_accesses ev ! i)) q \<longrightarrow>
        refers (during ev loans) (access_place (borrow_accesses ev ! j)) r \<longrightarrow> overlaps r q \<longrightarrow>
        \<not> access_conflicts_with_loan (access_kind (borrow_accesses ev ! j)) k) \<and>
     (\<forall>p is v accs s. ev = Ran (Assign p is v accs s) \<longrightarrow> \<not> read_only_write types f p)"

text \<open>What the check of a list of accesses accepts.\<close>

definition ephemerals :: "Loan set \<Rightarrow> PlaceAccess list \<Rightarrow> (Place \<times> BorrowKind) list" where
  "ephemerals active accs =
     concat (map (\<lambda>a. case ephemeral_borrow a of None \<Rightarrow> [] | Some k \<Rightarrow> [(resolve_loan_place (access_place a) active, k)]) accs)"

definition accepts :: "Loan set \<Rightarrow> (Place \<times> BorrowKind) list \<Rightarrow> PlaceAccess \<Rightarrow> bool" where
  "accepts active eph a \<longleftrightarrow>
     (\<forall>x \<in> active. overlaps (resolve_loan_place (access_place a) active) (loan_source x) \<longrightarrow>
        \<not> access_conflicts_with_loan (access_kind a) (loan_kind x)) \<and>
     (\<forall>(p, k) \<in> set eph. overlaps (resolve_loan_place (access_place a) active) p \<longrightarrow> \<not> access_conflicts_with_loan (access_kind a) k)"

lemma check_borrow_access_blank:
  assumes "finite active"
  shows "fst (check_borrow_access active (eph, x) a) = eph @ ephemerals active [a]"
    and "blank (snd (check_borrow_access active (eph, x) a)) \<longleftrightarrow> blank x \<and> accepts active eph a"
    and "coherent x \<Longrightarrow> coherent (snd (check_borrow_access active (eph, x) a))"
proof -
  let ?place = "resolve_loan_place (access_place a) active" and ?l = "place_local (access_place a)"
  show "fst (check_borrow_access active (eph, x) a) = eph @ ephemerals active [a]"
    by (simp add: check_borrow_access_def ephemerals_def Let_def split: option.split)
  have 1: "blank (foldl (\<lambda>x loan. if overlaps ?place (loan_source loan) \<and> access_conflicts_with_loan (access_kind a) (loan_kind loan)
        then report c m s ?l x else x) x ls) \<longleftrightarrow>
      blank x \<and> (\<forall>y \<in> set ls. \<not> (overlaps ?place (loan_source y) \<and> access_conflicts_with_loan (access_kind a) (loan_kind y)))"
    for c m s x ls by (rule blank_foldl) auto
  have 2: "blank (foldl (\<lambda>x bk. if overlaps ?place (fst bk) \<and> access_conflicts_with_loan (access_kind a) (snd bk)
        then report c m s ?l x else x) x es) \<longleftrightarrow>
      blank x \<and> (\<forall>y \<in> set es. \<not> (overlaps ?place (fst y) \<and> access_conflicts_with_loan (access_kind a) (snd y)))"
    for c m s x es by (rule blank_foldl) auto
  show "blank (snd (check_borrow_access active (eph, x) a)) \<longleftrightarrow> blank x \<and> accepts active eph a"
    using assms by (auto simp: check_borrow_access_def Let_def 1 2 accepts_def)
  show "coherent x \<Longrightarrow> coherent (snd (check_borrow_access active (eph, x) a))"
    by (auto simp: check_borrow_access_def Let_def intro!: coherent_foldl)
qed

fun all_accepted :: "Loan set \<Rightarrow> (Place \<times> BorrowKind) list \<Rightarrow> PlaceAccess list \<Rightarrow> bool" where
  "all_accepted active eph [] \<longleftrightarrow> True"
| "all_accepted active eph (a # as) \<longleftrightarrow> accepts active eph a \<and> all_accepted active (eph @ ephemerals active [a]) as"

lemma check_borrow_accesses_from:
  assumes "finite active"
  shows "(blank (snd (foldl (\<lambda>ex a. check_borrow_access active ex a) (eph, x) accs)) \<longleftrightarrow> blank x \<and> all_accepted active eph accs) \<and>
    (coherent x \<longrightarrow> coherent (snd (foldl (\<lambda>ex a. check_borrow_access active ex a) (eph, x) accs)))"
proof (induction accs arbitrary: eph x)
  case (Cons a accs)
  obtain eph1 x1 where e: "check_borrow_access active (eph, x) a = (eph1, x1)" by (cases "check_borrow_access active (eph, x) a")
  then show ?case
    using Cons.IH [of eph1 x1] check_borrow_access_blank [OF assms, where eph = eph and x = x and a = a] by auto
qed simp

lemma check_borrow_accesses_blank:
  assumes "finite active"
  shows "blank (check_borrow_accesses accs active x) \<longleftrightarrow> blank x \<and> all_accepted active [] accs"
    and "coherent x \<Longrightarrow> coherent (check_borrow_accesses accs active x)"
  using check_borrow_accesses_from [OF assms, of "[]" x accs] unfolding check_borrow_accesses_def by auto

lemma ephemerals_simps [simp]: "ephemerals active [] = []" "ephemerals active (xs @ ys) = ephemerals active xs @ ephemerals active ys"
  by (simp_all add: ephemerals_def)

lemma ephemerals_Cons: "ephemerals active (a # as) = ephemerals active [a] @ ephemerals active as"
  by (simp add: ephemerals_def)

lemma all_accepted_nth:
  "all_accepted active eph accs \<Longrightarrow> j < length accs \<Longrightarrow> accepts active (eph @ ephemerals active (take j accs)) (accs ! j)"
proof (induction accs arbitrary: eph j)
  case (Cons a accs)
  show ?case
  proof (cases j)
    case (Suc i)
    then have "accepts active ((eph @ ephemerals active [a]) @ ephemerals active (take i accs)) (accs ! i)"
      using Cons.IH [of "eph @ ephemerals active [a]" i] Cons.prems by simp
    then show ?thesis by (simp add: Suc ephemerals_Cons [of active a "take i accs"])
  qed (use Cons in simp)
qed simp

definition borrow_fine :: "TypeStore \<Rightarrow> MirFunction \<Rightarrow> MirEvent \<Rightarrow> Loan set \<Rightarrow> bool" where
  "borrow_fine types f ev loans \<longleftrightarrow> all_accepted (during ev loans) [] (borrow_accesses ev) \<and>
     (\<forall>p is v accs s. ev = Ran (Assign p is v accs s) \<longrightarrow> \<not> read_only_write types f p)"

lemma during_simps [simp]:
  "during (Ran (StorageLive l s)) A = A" "during (Ran (StorageDead l s)) A = A"
  "during (Ran (RegionEnter l s)) A = A" "during (Ran (RegionExit l s)) A = A"
  "during (Ran (Assign p is v accs s)) A = A" "during (Ran (Borrow d p k preserve s)) A = without_holder d A"
  "during (Ran (DropPlace p s)) A = A" "during (Ran (Evaluate v accs s)) A = A" "during (Ended t) A = A"
  by (simp_all add: during_def ended_first_def without_holder_def)

lemma check_read_only_blank:
  "blank (check_read_only_write p s f types x) \<longleftrightarrow> blank x \<and> \<not> read_only_write types f p"
  "coherent x \<Longrightarrow> coherent (check_read_only_write p s f types x)"
  by (auto simp: check_read_only_write_def read_only_write_def get_def
      split: option.split type_kind.split Capability.split)

lemma borrow_statement_step: "fst (borrow_statement types f st (s, x)) = loan_step (Ran st) s"
  by (cases st) (auto simp: borrow_statement_def loan_step_def loan_ends_def loan_gains_def without_holder_def Let_def)

lemma borrow_statement_report:
  assumes "finite s"
  shows "(blank (snd (borrow_statement types f st (s, x))) \<longleftrightarrow> blank x \<and> borrow_fine types f (Ran st) s) \<and>
    (coherent x \<longrightarrow> coherent (snd (borrow_statement types f st (s, x))))"
proof -
  have "finite (without_holder l s)" for l using assms by (simp add: without_holder_def)
  note c = check_borrow_accesses_blank [OF this] check_borrow_accesses_blank [OF assms] check_read_only_blank
  show ?thesis
    by (cases st) (auto simp: borrow_statement_def borrow_fine_def borrow_accesses_def Let_def c)
qed

lemma borrow_event_step:
  assumes "finite s"
  shows "\<exists>x'. borrow_event types f ev (s, x) = Some (loan_step ev s, x') \<and>
    (blank x' \<longleftrightarrow> blank x \<and> borrow_fine types f ev s) \<and> (coherent x \<longrightarrow> coherent x')"
proof (cases ev)
  case (Ran st)
  show ?thesis
    using borrow_statement_step [of types f st s x] borrow_statement_report [OF assms, of types f st x] unfolding Ran
    by (intro exI [of _ "snd (borrow_statement types f st (s, x))"])
      (cases "borrow_statement types f st (s, x)", simp add: borrow_event_def)
next
  case (Ended t)
  then have "loan_step ev s = s" "during ev s = s"
    by (simp_all add: loan_step_def loan_ends_def loan_gains_def during_def ended_first_def)
  then show ?thesis using check_borrow_accesses_blank [OF assms]
    by (simp add: Ended borrow_event_def borrow_fine_def borrow_accesses_def)
qed

interpretation borrows: traced_analysis cfg_ok "\<lambda>f. {}" merge_union "(\<union>)"
  "borrow_event types" "\<lambda>f. loan_step" "borrow_fine types" "\<lambda>f s. s \<subseteq> loans_of f" "\<lambda>f s. card (loans_of f - s)"
  "\<lambda>f. Map.empty" "\<lambda>f. held_after" "\<lambda>f h s. loans_held h \<subseteq> s \<and> s \<subseteq> loans_of f"
  blank coherent no_report "\<lambda>x s. x \<in> s" "\<lambda>x h. x \<in> loans_held h" for types
proof
  fix f ev and s :: "Loan set" and x
  assume "s \<subseteq> loans_of f"
  then show "\<exists>x'. borrow_event types f ev (s, x) = Some (loan_step ev s, x') \<and>
      (blank x' \<longleftrightarrow> blank x \<and> borrow_fine types f ev s) \<and> (coherent x \<longrightarrow> coherent x')"
    by (intro borrow_event_step) (auto intro: finite_loans)
next
  fix f :: MirFunction and e s
  assume "e \<subseteq> loans_of f" "s \<subseteq> loans_of f"
  then show "merge_union e s = (e \<union> s, e \<union> s \<noteq> e)" by (intro merge_union_eq) (auto intro: finite_loans)
next
  fix f ev h and s :: "Loan set"
  assume "ev \<in> all_events f" "loans_held h \<subseteq> s \<and> s \<subseteq> loans_of f"
  then show "loans_held (held_after ev h) \<subseteq> loan_step ev s \<and> loan_step ev s \<subseteq> loans_of f"
    unfolding held_after_loans by (intro conjI loan_step_mono loan_step_of) simp_all
next
  fix f :: MirFunction and ev and s :: "Loan set"
  assume "ev \<in> all_events f" "s \<subseteq> loans_of f"
  then show "loan_step ev s \<subseteq> loans_of f" by (rule loan_step_of)
next
  fix f :: MirFunction and ev and s :: "Loan set" and a
  assume "a \<in> loan_step ev s"
  then show "(\<forall>p. a \<in> loans_held (held_after ev p)) \<or> (\<exists>a'. a' \<in> s \<and> (\<forall>p. a' \<in> loans_held p \<longrightarrow> a \<in> loans_held (held_after ev p)))"
    by (rule loan_evidence)
next
  fix f :: MirFunction and e s :: "Loan set"
  assume "s \<subseteq> loans_of f" "e \<union> s \<noteq> e"
  then show "card (loans_of f - (e \<union> s)) < card (loans_of f - e)" by (intro card_union_less finite_loans_of)
qed (auto simp: loans_held_def)

text \<open>What an access refers to is what the analysis finds.\<close>

lemma resolve_refers:
  assumes "one_loan_each f" "s \<subseteq> loans_of f" "refers s p r"
  shows "resolve_loan_place p s = r"
proof -
  consider x where "x \<in> s" "holder x = place_local p" "r = through (loan_source x) p" | "\<forall>x \<in> s. holder x \<noteq> place_local p" "r = p"
    using assms(3) unfolding refers_def by blast
  then show ?thesis
  proof cases
    case 1
    then show ?thesis using first_loan_one [OF assms(1,2) 1(1)] by (simp add: resolve_loan_place_def)
  next
    case 2
    then have "first_loan (place_local p) s = None" using first_loan_None [OF finite_loans [OF assms(2)]] by blast
    then show ?thesis by (simp add: resolve_loan_place_def 2)
  qed
qed

lemma borrow_safe_fine:
  assumes one: "one_loan_each f" and s: "s \<subseteq> loans_of f" and fine: "borrow_fine types f ev s"
  shows "borrow_safe types f ev s"
proof -
  let ?s = "during ev s" and ?as = "borrow_accesses ev"
  have s': "?s \<subseteq> loans_of f" using s by (auto simp: during_def)
  note res = resolve_refers [OF one s']
  have acc: "accepts ?s (ephemerals ?s (take j ?as)) (?as ! j)" if "j < length ?as" for j
    using all_accepted_nth [of ?s "[]" ?as j] fine that by (simp add: borrow_fine_def)
  show ?thesis unfolding borrow_safe_def
  proof (intro conjI ballI allI impI)
    fix a r x
    assume a: "a \<in> set ?as" "refers ?s (access_place a) r" and x: "x \<in> ?s" "overlaps r (loan_source x)"
    obtain j where "j < length ?as" "?as ! j = a" using a(1) by (auto simp: in_set_conv_nth)
    then show "\<not> access_conflicts_with_loan (access_kind a) (loan_kind x)"
      using acc x res [OF a(2)] unfolding accepts_def by fastforce
  next
    fix i j k q r
    assume ij: "i < j" "j < length ?as" and k: "ephemeral_borrow (?as ! i) = Some k"
      and q: "refers ?s (access_place (?as ! i)) q" and r: "refers ?s (access_place (?as ! j)) r" and o: "overlaps r q"
    have "?as ! i \<in> set (take j ?as)" using ij by (metis length_take less_imp_le min.absorb2 nth_mem nth_take order.strict_trans)
    then have "(q, k) \<in> set (ephemerals ?s (take j ?as))"
      using k res [OF q] by (force simp: ephemerals_def)
    then show "\<not> access_conflicts_with_loan (access_kind (?as ! j)) k"
      using acc [OF ij(2)] o res [OF r] unfolding accepts_def by fastforce
  next
    fix p "is" v accs sp
    assume "ev = Ran (Assign p is v accs sp)"
    then show "\<not> read_only_write types f p" using fine by (simp add: borrow_fine_def)
  qed
qed

lemma borrows_sound:
  assumes "cfg_ok f" "one_loan_each f"
  shows "\<exists>errors. analyze_function_borrows f types = Some errors \<and>
    (errors = [] \<longrightarrow> (\<forall>b i tr. at_point f b i tr \<longrightarrow> borrow_safe types f (events_of f b ! i) (held_at f b i)))"
proof -
  have w: "cfg_ok f" and "mir_blocks f \<noteq> []" using assms by (simp_all add: cfg_ok_def)
  moreover obtain inputs x where r: "analyse merge_union (borrow_event types f) f {} no_report = Some (inputs, x)"
    and s: "borrows.solved types f inputs x"
    and e: "\<forall>b < length (mir_blocks f). \<forall>s. inputs ! b = Some s \<longrightarrow> borrows.evidenced f b s"
    using borrows.analyse_traced [OF w, of types] by blast
  moreover have "borrow_safe types f (events_of f b ! i) (held_at f b i)" if x: "snd x = []" and at: "at_point f b i tr" for b i tr
  proof -
    have q: "blank x" using x coherent_silent borrows.solved_simps(1) [OF s] by blast
    have path: "borrows.path f tr = held tr" for tr by (simp add: borrows.path_def held_def)
    note point = borrows.solved_approx(2) [OF w s q, unfolded path]
    obtain u where u: "inputs ! b = Some u" using point [OF at] by blast
    let ?u = "borrows.steps f (take i (events_of f b)) u"
    have "borrow_fine types f (events_of f b ! i) ?u" "?u \<subseteq> loans_of f" using point [OF at] u by auto
    moreover have "held_at f b i \<subseteq> ?u" using point u unfolding held_at_def by fastforce
    moreover have "?u \<subseteq> held_at f b i"
    proof
      fix y
      assume y: "y \<in> ?u"
      have b: "b < length (mir_blocks f)" "i < length (events_of f b)" using at trace_to_bound [OF w] unfolding at_point_def by blast+
      then have "borrows.evidenced f b u" using e u by blast
      from borrows.point_evidence [OF this b(2) y] show "y \<in> held_at f b i" unfolding held_at_def path by blast
    qed
    ultimately show ?thesis using borrow_safe_fine [OF assms(2)] by (metis subset_antisym)
  qed
  ultimately show ?thesis unfolding analyze_function_borrows_def by auto
qed



end
