(* ===== verification/Mir_Moves.thy ===== *)
theory Mir_Moves
  imports Mir_Init
begin

text \<open>
  Use after move (J0501): \<open>analyze_function_moves\<close> keeps the places moved on some path, and beside them those that a
  native call took with \<open>MoveOrDrop\<close> and that stay managed until they are dropped. It is sound: if it reports nothing,
  no path accesses a place that overlaps one it has moved or dropped and not assigned since, and no path drops such a
  place unless some path to the drop has left it managed.
\<close>

subsection \<open>The analysis\<close>

definition is_moving :: "PlaceAccess \<Rightarrow> bool" where
  "is_moving a \<longleftrightarrow> access_kind a = AccMove \<or> access_kind a = AccMoveOrDrop"

definition apply_move_access ::
  "(Place set \<times> Place set) \<times> Report \<Rightarrow> PlaceAccess \<Rightarrow> (Place set \<times> Place set) \<times> Report" where
  "apply_move_access sx a = (case sx of ((moved, managed), x) \<Rightarrow>
     if \<exists>p \<in> moved. overlaps p (access_place a)
     then ((moved, managed),
       report (lit ''J0501'') (lit ''use of a place after its value was moved'') (access_span a) (place_local (access_place a)) x)
     else if is_moving a
     then ((insert (access_place a) moved, if access_kind a = AccMoveOrDrop then insert (access_place a) managed else managed), x)
     else ((moved, managed), x))"

definition apply_move_accesses ::
  "PlaceAccess list \<Rightarrow> (Place set \<times> Place set) \<times> Report \<Rightarrow> (Place set \<times> Place set) \<times> Report" where
  "apply_move_accesses accs sx = foldl (\<lambda>sx a. apply_move_access sx a) sx accs"

definition not_local :: "LocalId \<Rightarrow> Place set \<Rightarrow> Place set" where
  "not_local l ps = {p \<in> ps. place_local p \<noteq> l}"

definition not_overlapping :: "Place \<Rightarrow> Place set \<Rightarrow> Place set" where
  "not_overlapping d ps = {p \<in> ps. \<not> overlaps p d}"

definition moves_statement ::
  "MirStatement \<Rightarrow> (Place set \<times> Place set) \<times> Report \<Rightarrow> (Place set \<times> Place set) \<times> Report" where
  "moves_statement st sx = (case st of
      StorageLive l _ \<Rightarrow> ((not_local l (fst (fst sx)), not_local l (snd (fst sx))), snd sx)
    | StorageDead l _ \<Rightarrow> ((not_local l (fst (fst sx)), not_local l (snd (fst sx))), snd sx)
    | RegionEnter r _ \<Rightarrow> ((not_local r (fst (fst sx)), not_local r (snd (fst sx))), snd sx)
    | RegionExit r _ \<Rightarrow> ((not_local r (fst (fst sx)), not_local r (snd (fst sx))), snd sx)
    | Assign destination _ _ accs _ \<Rightarrow>
        (case apply_move_accesses accs sx of ((moved, managed), x) \<Rightarrow>
           ((not_overlapping destination moved, not_overlapping destination managed), x))
    | Borrow destination source _ _ s \<Rightarrow>
        (case apply_move_accesses [access_to source AccBorrowRead s] sx of ((moved, managed), x) \<Rightarrow>
           ((not_local destination moved, managed), x))
    | DropPlace p s \<Rightarrow>
        (if \<exists>q \<in> snd (fst sx). overlaps q p
         then ((fst (fst sx), not_overlapping p (snd (fst sx))), snd sx)
         else apply_move_accesses [access_to p AccMove s] sx)
    | Evaluate _ accs _ \<Rightarrow> apply_move_accesses accs sx)"

definition moves_event ::
  "MirEvent \<Rightarrow> (Place set \<times> Place set) \<times> Report \<Rightarrow> ((Place set \<times> Place set) \<times> Report) option" where
  "moves_event ev sx = (case ev of
      Ran st \<Rightarrow> Some (moves_statement st sx)
    | Ended t \<Rightarrow> Some (apply_move_accesses (terminator_accesses t) sx))"

definition merge_moves :: "Place set \<times> Place set \<Rightarrow> Place set \<times> Place set \<Rightarrow> (Place set \<times> Place set) \<times> bool" where
  "merge_moves existing s =
     (let moved = fst existing \<union> fst s; managed = snd existing \<union> snd s in
      ((moved, managed), card moved \<noteq> card (fst existing) \<or> card managed \<noteq> card (snd existing)))"

definition analyze_function_moves :: "MirFunction \<Rightarrow> MirError list option" where
  "analyze_function_moves f =
     (if mir_blocks f = [] then Some []
      else map_option (\<lambda>r. snd (snd r)) (analyse merge_moves moves_event f ({}, {}) no_report))"

subsection \<open>The places moved on a path\<close>

definition moves_of :: "PlaceAccess list \<Rightarrow> Place set" where
  "moves_of accs = access_place ` {a \<in> set accs. is_moving a}"

definition managed_of :: "PlaceAccess list \<Rightarrow> Place set" where
  "managed_of accs = access_place ` {a \<in> set accs. access_kind a = AccMoveOrDrop}"

definition move_accesses :: "MirEvent \<Rightarrow> PlaceAccess list" where
  "move_accesses ev = (case ev of
      Ran (Assign _ _ _ accs _) \<Rightarrow> accs
    | Ran (Borrow _ source _ _ s) \<Rightarrow> [access_to source AccBorrowRead s]
    | Ran (Evaluate _ accs _) \<Rightarrow> accs
    | Ended t \<Rightarrow> terminator_accesses t
    | _ \<Rightarrow> [])"

text \<open>What an event ends: it gives places new values, or ends their storage.\<close>

definition renewed :: "MirEvent \<Rightarrow> Place set \<Rightarrow> Place set" where
  "renewed ev ps = (case ev of
      Ran (StorageLive l _) \<Rightarrow> not_local l ps
    | Ran (StorageDead l _) \<Rightarrow> not_local l ps
    | Ran (RegionEnter r _) \<Rightarrow> not_local r ps
    | Ran (RegionExit r _) \<Rightarrow> not_local r ps
    | Ran (Assign d _ _ _ _) \<Rightarrow> not_overlapping d ps
    | _ \<Rightarrow> ps)"

text \<open>The places that a path leaves managed, until it drops them; and those that some path to an event leaves managed.\<close>

definition managed_after :: "MirEvent \<Rightarrow> Place set \<Rightarrow> Place set" where
  "managed_after ev ps =
     (let rest = renewed ev (ps \<union> managed_of (move_accesses ev)) in
      case ev of Ran (DropPlace p _) \<Rightarrow> not_overlapping p rest | _ \<Rightarrow> rest)"

definition managed_by :: "MirEvent list \<Rightarrow> Place set" where
  "managed_by tr = foldl (\<lambda>ps ev. managed_after ev ps) {} tr"

definition may_manage :: "MirFunction \<Rightarrow> MirEvent \<Rightarrow> Place set" where
  "may_manage f ev = (\<Union>tr \<in> {tr. at_event f tr ev}. managed_by tr)"

definition managed_drop :: "MirFunction \<Rightarrow> MirEvent \<Rightarrow> Place \<Rightarrow> bool" where
  "managed_drop f ev p \<longleftrightarrow> (\<exists>q \<in> may_manage f ev. overlaps q p)"

text \<open>The places that a path has moved. A drop moves its place, unless the place may be managed there.\<close>

definition moved_after :: "MirFunction \<Rightarrow> MirEvent \<Rightarrow> Place set \<Rightarrow> Place set" where
  "moved_after f ev ps =
     (let rest = renewed ev (ps \<union> moves_of (move_accesses ev)) in
      case ev of
        Ran (Borrow d _ _ _ _) \<Rightarrow> not_local d rest
      | Ran (DropPlace p _) \<Rightarrow> if managed_drop f ev p then rest else insert p rest
      | _ \<Rightarrow> rest)"

definition moved_by :: "MirFunction \<Rightarrow> MirEvent list \<Rightarrow> Place set" where
  "moved_by f tr = foldl (\<lambda>ps ev. moved_after f ev ps) {} tr"

text \<open>
  No access overlaps a place moved before, by an earlier event or by an earlier access of this one, and no drop does,
  unless its place may be managed.
\<close>

definition moves_safe :: "MirFunction \<Rightarrow> MirEvent \<Rightarrow> Place set \<Rightarrow> bool" where
  "moves_safe f ev m \<longleftrightarrow>
     (\<forall>j < length (move_accesses ev). \<forall>p \<in> m \<union> moves_of (take j (move_accesses ev)).
        \<not> overlaps p (access_place (move_accesses ev ! j))) \<and>
     (\<forall>p s. ev = Ran (DropPlace p s) \<longrightarrow> managed_drop f ev p \<or> (\<forall>q \<in> m. \<not> overlaps q p))"

subsection \<open>Soundness\<close>

type_synonym Moved = "Place set \<times> Place set"

fun move_states :: "PlaceAccess list \<Rightarrow> Moved \<Rightarrow> Moved" where
  "move_states [] m = m"
| "move_states (a # as) m = move_states as
     (if \<exists>p \<in> fst m. overlaps p (access_place a) then m
      else if is_moving a then (insert (access_place a) (fst m),
        if access_kind a = AccMoveOrDrop then insert (access_place a) (snd m) else snd m)
      else m)"

fun accesses_fine :: "PlaceAccess list \<Rightarrow> Place set \<Rightarrow> bool" where
  "accesses_fine [] M \<longleftrightarrow> True"
| "accesses_fine (a # as) M \<longleftrightarrow> (\<forall>p \<in> M. \<not> overlaps p (access_place a)) \<and>
     accesses_fine as (if is_moving a then insert (access_place a) M else M)"

lemma moves_of_simps [simp]: "moves_of [] = {}" "moves_of (a # as) = (if is_moving a then insert (access_place a) (moves_of as) else moves_of as)"
  by (auto simp: moves_of_def)

lemma managed_of_simps [simp]: "managed_of [] = {}"
    "managed_of (a # as) = (if access_kind a = AccMoveOrDrop then insert (access_place a) (managed_of as) else managed_of as)"
  by (auto simp: managed_of_def)

lemma managed_moves: "managed_of accs \<subseteq> moves_of accs"
  by (auto simp: managed_of_def moves_of_def is_moving_def)

lemma accesses_fine_nth:
  "accesses_fine accs M \<longleftrightarrow> (\<forall>j < length accs. \<forall>p \<in> M \<union> moves_of (take j accs). \<not> overlaps p (access_place (accs ! j)))"
proof (induction accs arbitrary: M)
  case (Cons a as)
  have "(\<forall>j < length (a # as). P j) \<longleftrightarrow> P 0 \<and> (\<forall>j < length as. P (Suc j))" for P
    by (auto simp: less_Suc_eq_0_disj)
  then show ?case using Cons.IH [of "if is_moving a then insert (access_place a) M else M"] by auto
qed simp

lemma moves_safe_fine:
  "moves_safe f ev m \<longleftrightarrow> accesses_fine (move_accesses ev) m \<and>
     (\<forall>p s. ev = Ran (DropPlace p s) \<longrightarrow> managed_drop f ev p \<or> (\<forall>q \<in> m. \<not> overlaps q p))"
  by (simp add: moves_safe_def accesses_fine_nth)

lemma accesses_fine_mono: "accesses_fine accs M \<Longrightarrow> m \<subseteq> M \<Longrightarrow> accesses_fine accs m"
  unfolding accesses_fine_nth by blast

lemma apply_move_accesses_states:
  "\<exists>x'. apply_move_accesses accs (s, x) = (move_states accs s, x') \<and>
     (blank x' \<longleftrightarrow> blank x \<and> accesses_fine accs (fst s)) \<and> (coherent x \<longrightarrow> coherent x')"
proof (induction accs arbitrary: s x)
  case (Cons a as)
  obtain M D where s: "s = (M, D)" by (cases s)
  show ?case
  proof (cases "\<exists>p \<in> M. overlaps p (access_place a)")
    case True
    then show ?thesis
      using Cons.IH [of s "report (lit ''J0501'') (lit ''use of a place after its value was moved'') (access_span a) (place_local (access_place a)) x"]
      by (auto simp: apply_move_accesses_def apply_move_access_def s simp del: lit_simps)
  next
    case False
    then show ?thesis
      using Cons.IH [of "if is_moving a then (insert (access_place a) M, if access_kind a = AccMoveOrDrop then insert (access_place a) D else D) else (M, D)" x]
      by (auto simp: apply_move_accesses_def apply_move_access_def s)
  qed
qed (simp add: apply_move_accesses_def)

lemma move_states_fine: "accesses_fine accs M \<Longrightarrow> move_states accs (M, D) = (M \<union> moves_of accs, D \<union> managed_of accs)"
  by (induction accs arbitrary: M D) (auto simp: is_moving_def)

text \<open>The state after an event, reported on or not.\<close>

definition moves_step :: "MirEvent \<Rightarrow> Moved \<Rightarrow> Moved" where
  "moves_step ev s =
     (let s' = move_states (move_accesses ev) s in
      case ev of
        Ran (StorageLive l _) \<Rightarrow> (not_local l (fst s'), not_local l (snd s'))
      | Ran (StorageDead l _) \<Rightarrow> (not_local l (fst s'), not_local l (snd s'))
      | Ran (RegionEnter r _) \<Rightarrow> (not_local r (fst s'), not_local r (snd s'))
      | Ran (RegionExit r _) \<Rightarrow> (not_local r (fst s'), not_local r (snd s'))
      | Ran (Assign d _ _ _ _) \<Rightarrow> (not_overlapping d (fst s'), not_overlapping d (snd s'))
      | Ran (Borrow d _ _ _ _) \<Rightarrow> (not_local d (fst s'), snd s')
      | Ran (DropPlace p sp) \<Rightarrow>
          if \<exists>q \<in> snd s'. overlaps q p then (fst s', not_overlapping p (snd s')) else move_states [access_to p AccMove sp] s'
      | _ \<Rightarrow> s')"

definition moves_fine :: "MirEvent \<Rightarrow> Moved \<Rightarrow> bool" where
  "moves_fine ev s \<longleftrightarrow> accesses_fine (move_accesses ev) (fst s) \<and>
     (\<forall>p sp. ev = Ran (DropPlace p sp) \<longrightarrow> (\<exists>q \<in> snd s. overlaps q p) \<or> accesses_fine [access_to p AccMove sp] (fst s))"

lemma moves_event_step:
  "\<exists>x'. moves_event ev (s, x) = Some (moves_step ev s, x') \<and> (blank x' \<longleftrightarrow> blank x \<and> moves_fine ev s) \<and>
     (coherent x \<longrightarrow> coherent x')"
proof (cases ev)
  case (Ran st)
  show ?thesis
  proof (cases st)
    case (Assign d i v accs sp)
    show ?thesis using apply_move_accesses_states [of accs s x]
      by (auto simp: Ran Assign moves_event_def moves_statement_def moves_step_def moves_fine_def move_accesses_def Let_def case_prod_beta)
  next
    case (Borrow d p k preserve sp)
    show ?thesis using apply_move_accesses_states [of "[access_to p AccBorrowRead sp]" s x]
      by (auto simp: Ran Borrow moves_event_def moves_statement_def moves_step_def moves_fine_def move_accesses_def Let_def case_prod_beta
        simp del: move_states.simps accesses_fine.simps)
  next
    case (DropPlace p sp)
    show ?thesis using apply_move_accesses_states [of "[access_to p AccMove sp]" s x]
      by (auto simp: Ran DropPlace moves_event_def moves_statement_def moves_step_def moves_fine_def move_accesses_def Let_def)
  next
    case (Evaluate v accs sp)
    show ?thesis using apply_move_accesses_states [of accs s x]
      by (auto simp: Ran Evaluate moves_event_def moves_statement_def moves_step_def moves_fine_def move_accesses_def Let_def)
  qed (simp_all add: Ran moves_event_def moves_statement_def moves_step_def moves_fine_def move_accesses_def Let_def)
next
  case (Ended t)
  show ?thesis using apply_move_accesses_states [of "terminator_accesses t" s x]
    by (auto simp: Ended moves_event_def moves_step_def moves_fine_def move_accesses_def Let_def)
qed

lemma move_states_bounds:
  "fst (move_states accs s) \<subseteq> fst s \<union> moves_of accs" "snd (move_states accs s) \<subseteq> snd s \<union> moves_of accs"
  by (induction accs s rule: move_states.induct) (auto simp: is_moving_def split: if_splits)

definition places_moved :: "MirEvent \<Rightarrow> Place set" where
  "places_moved ev = moves_of (move_accesses ev) \<union> (case ev of Ran (DropPlace p _) \<Rightarrow> {p} | _ \<Rightarrow> {})"

definition all_moves :: "MirFunction \<Rightarrow> Place set" where
  "all_moves f = (\<Union>ev \<in> all_events f. places_moved ev)"

definition within :: "MirFunction \<Rightarrow> Moved \<Rightarrow> bool" where
  "within f s \<longleftrightarrow> fst s \<subseteq> all_moves f \<and> snd s \<subseteq> all_moves f"

lemma finite_all_moves: "finite (all_moves f)"
proof -
  have "finite (places_moved ev)" for ev
    by (simp add: places_moved_def moves_of_def split: MirEvent.split MirStatement.split)
  then show ?thesis by (simp add: all_moves_def finite_all_events)
qed

lemma not_local_sub: "not_local l A \<subseteq> A" and not_overlapping_sub: "not_overlapping d A \<subseteq> A"
  by (auto simp: not_local_def not_overlapping_def)

lemma moves_step_bounds:
  "fst (moves_step ev s) \<subseteq> fst s \<union> places_moved ev" "snd (moves_step ev s) \<subseteq> snd s \<union> places_moved ev"
proof -
  let ?t = "move_states (move_accesses ev) s"
  have t: "fst ?t \<subseteq> fst s \<union> places_moved ev" "snd ?t \<subseteq> snd s \<union> places_moved ev"
    using move_states_bounds [of "move_accesses ev" s] by (auto simp: places_moved_def)
  have drop: "fst (move_states [access_to p AccMove sp] u) \<subseteq> insert p (fst u)" "snd (move_states [access_to p AccMove sp] u) = snd u" for p sp u
    by (auto simp: access_to_def)
  have "fst (moves_step ev s) \<subseteq> fst ?t \<union> places_moved ev \<and> snd (moves_step ev s) \<subseteq> snd ?t"
  proof (cases ev)
    case (Ran st)
    show ?thesis
    proof (cases st)
      case (DropPlace p sp)
      then show ?thesis using drop [of p sp ?t] not_overlapping_sub [of p "snd ?t"]
        by (auto simp: Ran moves_step_def Let_def places_moved_def simp del: move_states.simps)
    qed (auto simp: Ran moves_step_def Let_def not_local_def not_overlapping_def simp del: move_states.simps)
  qed (simp add: moves_step_def Let_def)
  then show "fst (moves_step ev s) \<subseteq> fst s \<union> places_moved ev" "snd (moves_step ev s) \<subseteq> snd s \<union> places_moved ev" using t by blast+
qed

lemma within_step: "ev \<in> all_events f \<Longrightarrow> within f s \<Longrightarrow> within f (moves_step ev s)"
proof -
  assume "ev \<in> all_events f" "within f s"
  moreover from this have "places_moved ev \<subseteq> all_moves f" by (auto simp: all_moves_def)
  ultimately show ?thesis using moves_step_bounds [of ev s] unfolding within_def by blast
qed

text \<open>What the analysis takes for managed, some path has left managed.\<close>

lemma managed_states: "q \<in> snd (move_states accs s) \<Longrightarrow> q \<in> snd s \<or> q \<in> managed_of accs"
  by (induction accs s rule: move_states.induct) (auto split: if_splits)

lemma managed_evidence:
  assumes "q \<in> snd (moves_step ev s)"
  shows "(\<forall>ps. q \<in> managed_after ev ps) \<or> (\<exists>q'. q' \<in> snd s \<and> (\<forall>ps. q' \<in> ps \<longrightarrow> q \<in> managed_after ev ps))"
proof -
  let ?t = "move_states (move_accesses ev) s"
  have "q \<in> snd ?t \<and> (\<forall>ps. q \<in> ps \<union> managed_of (move_accesses ev) \<longrightarrow> q \<in> managed_after ev ps)"
  proof (cases ev)
    case (Ran st)
    show ?thesis
    proof (cases st)
      case (DropPlace p sp)
      have "q \<in> snd ?t \<and> \<not> overlaps q p"
        using assms by (auto simp: Ran DropPlace moves_step_def Let_def not_overlapping_def access_to_def is_moving_def split: if_splits)
      then show ?thesis by (auto simp: Ran DropPlace managed_after_def renewed_def not_overlapping_def Let_def)
    qed (use assms in \<open>auto simp: Ran moves_step_def managed_after_def renewed_def Let_def not_local_def not_overlapping_def
        simp del: move_states.simps\<close>)
  qed (use assms in \<open>simp add: moves_step_def managed_after_def renewed_def Let_def\<close>)
  then show ?thesis using managed_states [of q "move_accesses ev" s] by blast
qed

text \<open>An event that the analysis accepts keeps its moved places above those of the path.\<close>

lemma moved_step:
  assumes m: "m \<subseteq> fst s" and d: "snd s \<subseteq> may_manage f ev" and fine: "moves_fine ev s"
  shows "moved_after f ev m \<subseteq> fst (moves_step ev s)"
proof -
  have t: "move_states (move_accesses ev) s = (fst s \<union> moves_of (move_accesses ev), snd s \<union> managed_of (move_accesses ev))"
    using move_states_fine [of "move_accesses ev" "fst s" "snd s"] fine by (simp add: moves_fine_def)
  show ?thesis
  proof (cases ev)
    case (Ran st)
    show ?thesis
    proof (cases st)
      case (DropPlace p sp)
      have none: "move_accesses ev = []" by (simp add: Ran DropPlace move_accesses_def)
      show ?thesis
      proof (cases "\<exists>q \<in> snd s. overlaps q p")
        case True
        then have "managed_drop f ev p" using d unfolding managed_drop_def by blast
        then show ?thesis using True m none
          by (auto simp: moved_after_def renewed_def moves_step_def Let_def Ran DropPlace)
      next
        case False
        moreover from this have "\<forall>q \<in> fst s. \<not> overlaps q p" using fine by (auto simp: moves_fine_def Ran DropPlace access_to_def)
        ultimately show ?thesis using m none
          by (auto simp: moved_after_def renewed_def moves_step_def Let_def Ran DropPlace access_to_def is_moving_def)
      qed
    qed (use t m in \<open>auto simp: Ran moved_after_def renewed_def moves_step_def Let_def not_local_def not_overlapping_def\<close>)
  qed (use t m in \<open>auto simp: moved_after_def renewed_def moves_step_def Let_def\<close>)
qed

lemma moves_safe_step:
  assumes "m \<subseteq> fst s" "snd s \<subseteq> may_manage f ev" "moves_fine ev s"
  shows "moves_safe f ev m"
  unfolding moves_safe_fine
proof (intro conjI allI impI)
  show "accesses_fine (move_accesses ev) m" using assms(3) by (intro accesses_fine_mono [OF _ assms(1)]) (simp add: moves_fine_def)
  fix p sp
  assume "ev = Ran (DropPlace p sp)"
  then have "(\<exists>q \<in> snd s. overlaps q p) \<or> (\<forall>q \<in> fst s. \<not> overlaps q p)"
    using assms(3) by (auto simp: moves_fine_def access_to_def)
  then show "managed_drop f ev p \<or> (\<forall>q \<in> m. \<not> overlaps q p)" using assms(1,2) unfolding managed_drop_def by blast
qed

lemma merge_moves_eq:
  assumes "finite (fst e)" "finite (snd e)" "finite (fst s)" "finite (snd s)"
  shows "merge_moves e s = ((fst e \<union> fst s, snd e \<union> snd s), (fst e \<union> fst s, snd e \<union> snd s) \<noteq> e)"
  using merge_union_eq [OF assms(1,3)] merge_union_eq [OF assms(2,4)]
  by (cases e) (auto simp: merge_moves_def merge_union_def Let_def)

lemma within_finite: "within f s \<Longrightarrow> finite (fst s)" "within f s \<Longrightarrow> finite (snd s)"
  using finite_all_moves finite_subset by (auto simp: within_def)

interpretation moves: traced_analysis cfg_ok "\<lambda>f. ({}, {})" merge_moves
  "\<lambda>e s. (fst e \<union> fst s, snd e \<union> snd s)" "\<lambda>f. moves_event" "\<lambda>f. moves_step" "\<lambda>f. moves_fine" within
  "\<lambda>f s. card (all_moves f - fst s) + card (all_moves f - snd s)"
  "\<lambda>f. {}" "\<lambda>f. managed_after" "\<lambda>f p s. True" blank coherent no_report "\<lambda>q s. q \<in> snd s" "\<lambda>q p. q \<in> p"
proof
  fix f ev and s :: Moved and x
  show "\<exists>x'. moves_event ev (s, x) = Some (moves_step ev s, x') \<and>
      (blank x' \<longleftrightarrow> blank x \<and> moves_fine ev s) \<and> (coherent x \<longrightarrow> coherent x')" by (rule moves_event_step)
next
  fix q ev and s :: Moved
  assume "q \<in> snd (moves_step ev s)"
  then show "(\<forall>ps. q \<in> managed_after ev ps) \<or> (\<exists>q'. q' \<in> snd s \<and> (\<forall>ps. q' \<in> ps \<longrightarrow> q \<in> managed_after ev ps))"
    by (rule managed_evidence)
next
  fix f and e s :: Moved
  assume "within f e" "within f s"
  then show "merge_moves e s = ((fst e \<union> fst s, snd e \<union> snd s), (fst e \<union> fst s, snd e \<union> snd s) \<noteq> e)"
    by (intro merge_moves_eq) (auto intro: within_finite)
next
  fix f and e s :: Moved
  assume w: "within f e" "within f s" and n: "(fst e \<union> fst s, snd e \<union> snd s) \<noteq> e"
  have le: "card (all_moves f - (A \<union> B)) \<le> card (all_moves f - A)" for A B
    by (rule card_mono) (auto simp: finite_all_moves)
  from n consider "fst e \<union> fst s \<noteq> fst e" | "snd e \<union> snd s \<noteq> snd e" by (cases e) auto
  then show "card (all_moves f - fst (fst e \<union> fst s, snd e \<union> snd s)) + card (all_moves f - snd (fst e \<union> fst s, snd e \<union> snd s))
      < card (all_moves f - fst e) + card (all_moves f - snd e)"
  proof cases
    case 1
    then have "card (all_moves f - (fst e \<union> fst s)) < card (all_moves f - fst e)"
      using w by (intro card_union_less finite_all_moves) (simp_all add: within_def)
    then show ?thesis using le [of "snd e" "snd s"] by simp
  next
    case 2
    then have "card (all_moves f - (snd e \<union> snd s)) < card (all_moves f - snd e)"
      using w by (intro card_union_less finite_all_moves) (simp_all add: within_def)
    then show ?thesis using le [of "fst e" "fst s"] by simp
  qed
next
  fix f ev and s :: Moved
  assume "ev \<in> all_events f" "within f s"
  then show "within f (moves_step ev s)" by (rule within_step)
qed (auto simp: within_def)

lemma moves_sound:
  assumes w: "cfg_ok f"
  shows "\<exists>errors. analyze_function_moves f = Some errors \<and>
    (errors = [] \<longrightarrow> (\<forall>tr ev. at_event f tr ev \<longrightarrow> moves_safe f ev (moved_by f tr)))"
proof -
  have "mir_blocks f \<noteq> []" using assms by (simp add: cfg_ok_def)
  moreover obtain inputs x where r: "analyse merge_moves moves_event f ({}, {}) no_report = Some (inputs, x)"
    and s: "moves.solved f inputs x"
    and e: "\<forall>b < length (mir_blocks f). \<forall>s. inputs ! b = Some s \<longrightarrow> moves.evidenced f b s"
    using moves.analyse_traced [OF w] by blast
  moreover have "moves_safe f ev (moved_by f tr)" if x: "snd x = []" and ev: "at_event f tr ev" for tr ev
  proof -
    have q: "blank x" using x coherent_silent moves.solved_simps(1) [OF s] by blast
    have may: "snd (moves.steps f (take i (events_of f b)) u) \<subseteq> may_manage f (events_of f b ! i)"
      if at: "at_point f b i tr" and u: "inputs ! b = Some u" for b i tr u
    proof
      fix p
      assume p: "p \<in> snd (moves.steps f (take i (events_of f b)) u)"
      have b: "b < length (mir_blocks f)" "i < length (events_of f b)" using at trace_to_bound [OF w] unfolding at_point_def by blast+
      then have "moves.evidenced f b u" using e u by blast
      from moves.point_evidence [OF this b(2) p] show "p \<in> may_manage f (events_of f b ! i)"
        unfolding may_manage_def at_event_point managed_by_def moves.path_def by blast
    qed
    have kept: "moved_by f (tr @ [events_of f b ! i]) \<subseteq>
        fst (moves_step (events_of f b ! i) (moves.steps f (take i (events_of f b)) u))"
      if "at_point f b i tr" "inputs ! b = Some u" "moved_by f tr \<subseteq> fst (moves.steps f (take i (events_of f b)) u)"
        "moves_fine (events_of f b ! i) (moves.steps f (take i (events_of f b)) u)" for b i tr u
      using moved_step [OF that(3) may [OF that(1,2)] that(4)] by (simp add: moved_by_def)
    have joined: "moved_by f tr \<subseteq> fst u" if "(fst u \<union> fst s, snd u \<union> snd s) = u" "moved_by f tr \<subseteq> fst s" for tr and s u :: Moved
      using that by (cases u) auto
    obtain b i where at: "at_point f b i tr" "events_of f b ! i = ev" using ev unfolding at_event_point by blast
    have "\<exists>u. inputs ! b = Some u \<and> moved_by f tr \<subseteq> fst (moves.steps f (take i (events_of f b)) u) \<and>
        moves_fine (events_of f b ! i) (moves.steps f (take i (events_of f b)) u)"
    proof (rule moves.solved_flow(2) [OF w s q _ _ _ at(1), where A = "\<lambda>tr s. moved_by f tr \<subseteq> fst s"])
      show "moved_by f [] \<subseteq> fst ({}, {})" by (simp add: moved_by_def)
    qed (use joined kept in blast)+
    then obtain u where u: "inputs ! b = Some u" "moved_by f tr \<subseteq> fst (moves.steps f (take i (events_of f b)) u)"
      "moves_fine ev (moves.steps f (take i (events_of f b)) u)" using at(2) by blast
    then show ?thesis using moves_safe_step may [OF at(1) u(1)] at(2) by blast
  qed
  ultimately show ?thesis unfolding analyze_function_moves_def by auto
qed



end
