(* ===== verification/Mir_Drops.thy ===== *)
theory Mir_Drops
  imports Mir_Regions
begin

text \<open>
  Drop elaboration: \<open>elaborate_function_drops\<close> computes, for each block, the locals that are initialised on every path and
  the places that are moved on some path, and inserts a drop of each owning local before its storage ends and at each
  return. No path of the elaborated function drops a value it does not have: what is dropped is initialised there, and
  nothing that overlaps it has been moved or dropped before.
\<close>

subsection \<open>The analysis\<close>

type_synonym DropState = "LocalId set \<times> Place set"

definition apply_drop_accesses :: "PlaceAccess list \<Rightarrow> DropState \<Rightarrow> DropState" where
  "apply_drop_accesses accs s =
     foldl (\<lambda>s a. if access_kind a = AccMove then (fst s, insert (access_place a) (snd s)) else s) s accs"

definition places_not_of :: "LocalId \<Rightarrow> Place set \<Rightarrow> Place set" where
  "places_not_of l ps = {p \<in> ps. place_local p \<noteq> l}"

definition transfer_drop_statement :: "MirStatement \<Rightarrow> DropState \<Rightarrow> DropState" where
  "transfer_drop_statement st s = (case st of
      StorageLive l _ \<Rightarrow> (fst s - {l}, places_not_of l (snd s))
    | StorageDead l _ \<Rightarrow> (fst s - {l}, places_not_of l (snd s))
    | RegionEnter r _ \<Rightarrow> (insert r (fst s), places_not_of r (snd s))
    | RegionExit r _ \<Rightarrow> (fst s - {r}, places_not_of r (snd s))
    | Assign destination _ _ accs _ \<Rightarrow>
        (let t = apply_drop_accesses accs s in
         (if projection destination = [] then insert (place_local destination) (fst t) else fst t,
          {p \<in> snd t. \<not> overlaps p destination}))
    | Borrow destination source _ _ sp \<Rightarrow>
        (let t = apply_drop_accesses [access_to source AccBorrowRead sp] s in
         (insert destination (fst t), places_not_of destination (snd t)))
    | DropPlace p _ \<Rightarrow> (fst s - {place_local p}, insert p (snd s))
    | Evaluate _ accs _ \<Rightarrow> apply_drop_accesses accs s)"

definition drop_event :: "MirEvent \<Rightarrow> DropState \<times> unit \<Rightarrow> (DropState \<times> unit) option" where
  "drop_event ev sx = (case ev of
      Ran st \<Rightarrow> Some (transfer_drop_statement st (fst sx), snd sx)
    | Ended t \<Rightarrow> Some (apply_drop_accesses (terminator_accesses t) (fst sx), snd sx))"

definition merge_drops :: "DropState \<Rightarrow> DropState \<Rightarrow> DropState \<times> bool" where
  "merge_drops existing s =
     (let joined = (fst existing \<inter> fst s, snd existing \<union> snd s) in (joined, existing \<noteq> joined))"

subsection \<open>The elaboration\<close>

definition droppable :: "TypeStore \<Rightarrow> MirLocal \<Rightarrow> bool option" where
  "droppable types i = map_option (\<lambda>m. m \<and> \<not> is_return i \<and> owned_region i = None) (is_move_only types (local_ty i))"

definition available :: "LocalId \<Rightarrow> DropState \<Rightarrow> bool" where
  "available l s \<longleftrightarrow> l \<in> fst s \<and> \<not> (\<exists>p \<in> snd s. overlaps p (whole l))"

definition drops_before :: "MirFunction \<Rightarrow> TypeStore \<Rightarrow> MirStatement \<Rightarrow> DropState \<Rightarrow> MirStatement list option" where
  "drops_before f types st s = (case st of
      StorageDead l sp \<Rightarrow>
        (case get (mir_locals f) l of
           None \<Rightarrow> Some []
         | Some i \<Rightarrow> map_option (\<lambda>d. if d \<and> available l s then [DropPlace (whole l) sp] else []) (droppable types i))
    | _ \<Rightarrow> Some [])"

fun elaborate_statements ::
  "MirFunction \<Rightarrow> TypeStore \<Rightarrow> MirStatement list \<Rightarrow> DropState \<Rightarrow> (MirStatement list \<times> DropState) option" where
  "elaborate_statements f types [] s = Some ([], s)"
| "elaborate_statements f types (st # sts) s =
     Option.bind (drops_before f types st s) (\<lambda>ds.
     Option.bind (elaborate_statements f types sts
         (transfer_drop_statement st (foldl (\<lambda>s d. transfer_drop_statement d s) s ds))) (\<lambda>(out, s').
     Some (ds @ st # out, s')))"

text \<open>The drops at a return, for the locals in reverse order.\<close>

fun return_drops :: "TypeStore \<Rightarrow> Span \<Rightarrow> MirLocal list \<Rightarrow> DropState \<Rightarrow> MirStatement list option" where
  "return_drops types sp [] s = Some []"
| "return_drops types sp (i # is) s =
     Option.bind (if local_id i \<in> fst s then droppable types i else Some False) (\<lambda>d.
       if d \<and> available (local_id i) s
       then map_option ((#) (DropPlace (whole (local_id i)) sp))
         (return_drops types sp is (fst s - {local_id i}, insert (whole (local_id i)) (snd s)))
       else return_drops types sp is s)"

definition elaborate_block :: "MirFunction \<Rightarrow> TypeStore \<Rightarrow> DropState option list \<Rightarrow> BasicBlock \<Rightarrow> BasicBlock option" where
  "elaborate_block f types inputs b =
     (case get inputs (block_id b) of
        None \<Rightarrow> None
      | Some None \<Rightarrow> Some b
      | Some (Some s) \<Rightarrow>
          Option.bind (elaborate_statements f types (block_statements b) s) (\<lambda>(out, s').
            case block_terminator b of
              Return _ _ sp \<Rightarrow>
                map_option (\<lambda>ds. b\<lparr>block_statements := out @ ds\<rparr>) (return_drops types sp (rev (mir_locals f)) s')
            | _ \<Rightarrow> Some (b\<lparr>block_statements := out\<rparr>)))"

definition is_drop :: "MirStatement \<Rightarrow> bool" where
  "is_drop st = (case st of DropPlace _ _ \<Rightarrow> True | _ \<Rightarrow> False)"

definition has_drops :: "MirFunction \<Rightarrow> bool" where
  "has_drops f \<longleftrightarrow> list_ex (\<lambda>b. list_ex is_drop (block_statements b)) (mir_blocks f)"

definition elaborate_function_drops :: "MirFunction \<Rightarrow> TypeStore \<Rightarrow> MirFunction option" where
  "elaborate_function_drops f types =
     (if has_drops f \<or> mir_blocks f = [] then Some f
      else Option.bind (analyse merge_drops drop_event f (parameters_of f, {}) ()) (\<lambda>(inputs, _).
        Option.bind (map_blocks (elaborate_block f types inputs) (mir_blocks f)) (\<lambda>bs. Some (f\<lparr>mir_blocks := bs\<rparr>))))"

subsection \<open>What a path owns\<close>

text \<open>
  A place is consumed after a path that moved or dropped it and has not since given it, or a place that overlaps it, a
  new value, nor ended or begun the storage of its local.
\<close>

definition moved_out :: "PlaceAccess list \<Rightarrow> Place set" where
  "moved_out accs = access_place ` {a \<in> set accs. access_kind a = AccMove}"

definition gives_up :: "MirEvent \<Rightarrow> Place set" where
  "gives_up ev = (case ev of
      Ran (Assign d _ _ accs _) \<Rightarrow> {p \<in> moved_out accs. \<not> overlaps p d}
    | Ran (Evaluate _ accs _) \<Rightarrow> moved_out accs
    | Ran (DropPlace p _) \<Rightarrow> {p}
    | Ended t \<Rightarrow> moved_out (terminator_accesses t)
    | _ \<Rightarrow> {})"

definition restores :: "MirEvent \<Rightarrow> Place set" where
  "restores ev = (case ev of
      Ran (StorageLive l _) \<Rightarrow> {p. place_local p = l}
    | Ran (StorageDead l _) \<Rightarrow> {p. place_local p = l}
    | Ran (RegionEnter l _) \<Rightarrow> {p. place_local p = l}
    | Ran (RegionExit l _) \<Rightarrow> {p. place_local p = l}
    | Ran (Borrow l _ _ _ _) \<Rightarrow> {p. place_local p = l}
    | Ran (Assign d _ _ _ _) \<Rightarrow> {p. overlaps p d}
    | _ \<Rightarrow> {})"

definition consumed :: "MirEvent list \<Rightarrow> Place \<Rightarrow> bool" where
  "consumed tr p \<longleftrightarrow> in_force gives_up restores {} tr p"

definition own_step :: "MirEvent \<Rightarrow> DropState \<Rightarrow> DropState" where
  "own_step ev s = ((fst s - init_loses ev) \<union> init_gains ev, (snd s - restores ev) \<union> gives_up ev)"

definition owned :: "MirFunction \<Rightarrow> MirEvent list \<Rightarrow> DropState" where
  "owned f tr = foldl (\<lambda>s ev. own_step ev s) (parameters_of f, {}) tr"

lemma owned_sets: "owned f tr = ({l. initialised f tr l}, {p. consumed tr p})"
proof -
  have "foldl (\<lambda>s ev. own_step ev s) (A, B) tr =
    (foldl (\<lambda>S e. (S - init_loses e) \<union> init_gains e) A tr, foldl (\<lambda>S e. (S - restores e) \<union> gives_up e) B tr)" for A B
    by (induction tr arbitrary: A B) (simp_all add: own_step_def)
  then show ?thesis by (simp add: owned_def in_force_foldl initialised_def consumed_def)
qed

definition no_drop_event :: "MirEvent \<Rightarrow> bool" where
  "no_drop_event ev \<longleftrightarrow> (\<forall>p s. ev \<noteq> Ran (DropPlace p s))"

lemma apply_drop_accesses_eq: "apply_drop_accesses accs s = (fst s, snd s \<union> moved_out accs)"
  unfolding apply_drop_accesses_def
  by (induction accs arbitrary: s) (auto simp: moved_out_def)

lemma transfer_own_step: "\<not> is_drop st \<Longrightarrow> transfer_drop_statement st s = own_step (Ran st) s"
  by (cases st) (auto simp: is_drop_def transfer_drop_statement_def own_step_def init_loses_def init_gains_def restores_def
    gives_up_def places_not_of_def apply_drop_accesses_eq Let_def access_to_def moved_out_def)

lemma transfer_own_drop: "transfer_drop_statement (DropPlace (whole l) sp) s = own_step (Ran (DropPlace (whole l) sp)) s"
  by (auto simp: transfer_drop_statement_def own_step_def init_loses_def init_gains_def restores_def gives_up_def)

lemma drop_event_step:
  assumes "no_drop_event ev"
  shows "drop_event ev (s, x) = Some (own_step ev s, x)"
proof (cases ev)
  case (Ran st)
  then have "\<not> is_drop st" using assms by (auto simp: no_drop_event_def is_drop_def split: MirStatement.splits)
  then show ?thesis by (simp add: Ran drop_event_def transfer_own_step)
next
  case (Ended t)
  then show ?thesis
    by (simp add: drop_event_def own_step_def apply_drop_accesses_eq init_loses_def init_gains_def restores_def gives_up_def)
qed

lemma has_drops_event:
  assumes "\<not> has_drops f" "ev \<in> all_events f"
  shows "no_drop_event ev"
proof -
  obtain b where b: "b \<in> set (mir_blocks f)" "ev \<in> set (block_events b)" using assms(2) by (auto simp: all_events_def)
  show ?thesis unfolding no_drop_event_def
  proof (intro allI notI)
    fix p s
    assume "ev = Ran (DropPlace p s)"
    then have "DropPlace p s \<in> set (block_statements b)" using b(2) by (auto simp: block_events_def)
    moreover have "is_drop (DropPlace p s)" by (simp add: is_drop_def)
    ultimately show False using assms(1) b(1) unfolding has_drops_def list_ex_iff by blast
  qed
qed

definition all_consumed :: "MirFunction \<Rightarrow> Place set" where
  "all_consumed f = (\<Union>ev \<in> all_events f. gives_up ev)"

lemma finite_all_consumed: "finite (all_consumed f)"
proof -
  have "finite (gives_up ev)" for ev
    by (simp add: gives_up_def moved_out_def split: MirEvent.split MirStatement.split)
  then show ?thesis by (simp add: all_consumed_def finite_all_events)
qed

definition drop_state_ok :: "MirFunction \<Rightarrow> DropState \<Rightarrow> bool" where
  "drop_state_ok f s \<longleftrightarrow> finite (fst s) \<and> snd s \<subseteq> all_consumed f"

text \<open>The analysis knows less to be initialised than a path, and more to be moved.\<close>

definition own_approx :: "DropState \<Rightarrow> DropState \<Rightarrow> bool" where
  "own_approx p s \<longleftrightarrow> fst s \<subseteq> fst p \<and> snd p \<subseteq> snd s"

lemma own_approx_step: "own_approx p s \<Longrightarrow> own_approx (own_step ev p) (own_step ev s)"
  by (auto simp: own_approx_def own_step_def)

interpretation drops: forward_analysis "\<lambda>f. cfg_ok f \<and> \<not> has_drops f" "\<lambda>f. (parameters_of f, {})" merge_drops
  "\<lambda>e s. (fst e \<inter> fst s, snd e \<union> snd s)" "\<lambda>f. drop_event" "\<lambda>f. own_step" "\<lambda>f ev s. True" drop_state_ok
  "\<lambda>f s. card (fst s) + card (all_consumed f - snd s)"
  "\<lambda>f. (parameters_of f, {})" "\<lambda>f. own_step" "\<lambda>f. own_approx" "\<lambda>_. True" "\<lambda>_. True" "()"
proof
  fix f ev and s :: DropState and x :: unit
  assume "cfg_ok f \<and> \<not> has_drops f" "ev \<in> all_events f"
  then have "drop_event ev (s, x) = Some (own_step ev s, x)" by (intro drop_event_step has_drops_event) auto
  then show "\<exists>x'. drop_event ev (s, x) = Some (own_step ev s, x') \<and> (True \<longleftrightarrow> True \<and> True) \<and> (True \<longrightarrow> True)" by blast
next
  fix f :: MirFunction and e s :: DropState
  show "merge_drops e s = ((fst e \<inter> fst s, snd e \<union> snd s), (fst e \<inter> fst s, snd e \<union> snd s) \<noteq> e)"
    by (auto simp: merge_drops_def Let_def)
next
  fix f and e s :: DropState
  assume w: "drop_state_ok f e" "drop_state_ok f s" and n: "(fst e \<inter> fst s, snd e \<union> snd s) \<noteq> e"
  have i: "card (fst e \<inter> fst s) \<le> card (fst e)" using w by (intro card_mono) (auto simp: drop_state_ok_def)
  have u: "card (all_consumed f - (snd e \<union> snd s)) \<le> card (all_consumed f - snd e)"
    by (intro card_mono) (auto simp: finite_all_consumed)
  from n consider "fst e \<inter> fst s \<noteq> fst e" | "snd e \<union> snd s \<noteq> snd e" by (cases e) auto
  then show "card (fst (fst e \<inter> fst s, snd e \<union> snd s)) + card (all_consumed f - snd (fst e \<inter> fst s, snd e \<union> snd s))
      < card (fst e) + card (all_consumed f - snd e)"
  proof cases
    case 1
    then have "card (fst e \<inter> fst s) < card (fst e)" using w by (intro card_inter_less) (simp_all add: drop_state_ok_def)
    then show ?thesis using u by simp
  next
    case 2
    then have "card (all_consumed f - (snd e \<union> snd s)) < card (all_consumed f - snd e)"
      using w by (intro card_union_less finite_all_consumed) (simp_all add: drop_state_ok_def)
    then show ?thesis using i by simp
  qed
next
  fix f ev and p s :: DropState
  assume "own_approx p s"
  then show "own_approx (own_step ev p) (own_step ev s)" by (rule own_approx_step)
next
  fix f ev and s :: DropState
  assume "ev \<in> all_events f" "drop_state_ok f s"
  then show "drop_state_ok f (own_step ev s)"
    by (auto simp: drop_state_ok_def own_step_def all_consumed_def finite_init_gains)
next
  show "drop_state_ok f (parameters_of f, {})" for f by (simp add: drop_state_ok_def parameters_of_def)
next
  fix u s :: DropState and f and p :: DropState
  assume "(fst u \<inter> fst s, snd u \<union> snd s) = u" "own_approx p s"
  then show "own_approx p u" by (cases u) (auto simp: own_approx_def)
qed (auto simp: drop_state_ok_def own_approx_def)

subsection \<open>The elaborated function drops only what a path has\<close>

definition run_own :: "MirStatement list \<Rightarrow> DropState \<Rightarrow> DropState" where
  "run_own sts s = foldl (\<lambda>s st. own_step (Ran st) s) s sts"

definition has_place :: "Place \<Rightarrow> DropState \<Rightarrow> bool" where
  "has_place q p \<longleftrightarrow> place_local q \<in> fst p \<and> (\<forall>r \<in> snd p. \<not> overlaps r q)"

text \<open>Every drop in a list of statements finds its place, when the list is run from \<open>p\<close>.\<close>

definition drops_fine :: "MirStatement list \<Rightarrow> DropState \<Rightarrow> bool" where
  "drops_fine sts p \<longleftrightarrow> (\<forall>pre q sp post. sts = pre @ DropPlace q sp # post \<longrightarrow> has_place q (run_own pre p))"

lemma run_own_simps [simp]: "run_own [] p = p" "run_own (st # sts) p = run_own sts (own_step (Ran st) p)"
    "run_own (xs @ ys) p = run_own ys (run_own xs p)"
  by (simp_all add: run_own_def)

lemma drops_fine_Nil [simp]: "drops_fine [] p"
  by (simp add: drops_fine_def)

lemma drops_fine_Cons:
  "drops_fine (st # sts) p \<longleftrightarrow> (\<forall>q sp. st = DropPlace q sp \<longrightarrow> has_place q p) \<and> drops_fine sts (own_step (Ran st) p)"
proof
  assume d: "drops_fine (st # sts) p"
  have "has_place q p" if "st = DropPlace q sp" for q sp
    using d that unfolding drops_fine_def by (metis append_Nil run_own_simps(1))
  moreover have "has_place q (run_own pre (own_step (Ran st) p))" if "sts = pre @ DropPlace q sp # post" for pre q sp post
    using d that unfolding drops_fine_def by (metis append_Cons run_own_simps(2))
  ultimately show "(\<forall>q sp. st = DropPlace q sp \<longrightarrow> has_place q p) \<and> drops_fine sts (own_step (Ran st) p)"
    unfolding drops_fine_def by blast
next
  assume d: "(\<forall>q sp. st = DropPlace q sp \<longrightarrow> has_place q p) \<and> drops_fine sts (own_step (Ran st) p)"
  show "drops_fine (st # sts) p" unfolding drops_fine_def
  proof (intro allI impI)
    fix pre q sp post
    assume e: "st # sts = pre @ DropPlace q sp # post"
    show "has_place q (run_own pre p)"
    proof (cases pre)
      case Nil
      then show ?thesis using d e by simp
    next
      case (Cons a pre')
      then show ?thesis using d e unfolding drops_fine_def by auto
    qed
  qed
qed

lemma drops_fine_append: "drops_fine (xs @ ys) p \<longleftrightarrow> drops_fine xs p \<and> drops_fine ys (run_own xs p)"
  by (induction xs arbitrary: p) (auto simp: drops_fine_Cons)

lemma drops_fine_none: "\<not> list_ex is_drop sts \<Longrightarrow> drops_fine sts p"
  by (induction sts arbitrary: p) (auto simp: drops_fine_Cons is_drop_def)

lemma available_has: "own_approx p s \<Longrightarrow> available l s \<Longrightarrow> has_place (whole l) p"
  by (auto simp: own_approx_def available_def has_place_def)

text \<open>A drop right before the end of the storage leaves no trace behind it.\<close>

lemma drop_then_dead: "own_step (Ran (StorageDead l sp)) (own_step (Ran (DropPlace (whole l) sp')) p) = own_step (Ran (StorageDead l sp)) p"
  by (auto simp: own_step_def init_loses_def init_gains_def restores_def gives_up_def)

lemma drops_before_cases:
  assumes "drops_before f types st s = Some ds"
  obtains "ds = []" | l sp where "st = StorageDead l sp" "ds = [DropPlace (whole l) sp]" "available l s"
  using assms by (auto simp: drops_before_def split: MirStatement.splits option.splits if_splits)

lemma elaborate_statements_fine:
  "elaborate_statements f types sts s = Some (out, s') \<Longrightarrow> \<not> list_ex is_drop sts \<Longrightarrow> own_approx p s \<Longrightarrow>
    run_own out p = run_own sts p \<and> drops_fine out p \<and> own_approx (run_own sts p) s' \<and> filter (\<lambda>st. \<not> is_drop st) out = sts"
proof (induction sts arbitrary: s p out)
  case (Cons st sts)
  from Cons.prems(1) obtain ds out' where ds: "drops_before f types st s = Some ds"
    and r: "elaborate_statements f types sts (transfer_drop_statement st (foldl (\<lambda>s d. transfer_drop_statement d s) s ds)) = Some (out', s')"
    and out: "out = ds @ st # out'" by (auto split: bind_splits)
  have st: "\<not> is_drop st" "\<not> list_ex is_drop sts" using Cons.prems(2) by auto
  from ds show ?case
  proof (cases rule: drops_before_cases)
    case 1
    then have r': "elaborate_statements f types sts (own_step (Ran st) s) = Some (out', s')" using r st by (simp add: transfer_own_step)
    show ?thesis using Cons.IH [OF r' st(2) own_approx_step [OF Cons.prems(3)]] st(1) out 1
      by (auto simp: drops_fine_Cons is_drop_def)
  next
    case (2 l sp)
    have "transfer_drop_statement st (foldl (\<lambda>s d. transfer_drop_statement d s) s ds) = own_step (Ran st) s"
      using st(1) unfolding 2 by (simp add: transfer_own_step transfer_own_drop drop_then_dead)
    then have r': "elaborate_statements f types sts (own_step (Ran st) s) = Some (out', s')" using r by simp
    have "own_step (Ran st) (own_step (Ran (DropPlace (whole l) sp)) p) = own_step (Ran st) p" unfolding 2 by (rule drop_then_dead)
    moreover have "is_drop (DropPlace (whole l) sp)" by (simp add: is_drop_def)
    ultimately show ?thesis
      using Cons.IH [OF r' st(2) own_approx_step [OF Cons.prems(3)]] st(1) available_has [OF Cons.prems(3) 2(3)] out 2(2)
      by (auto simp: drops_fine_Cons is_drop_def)
  qed
qed auto

lemma return_drops_fine:
  "return_drops types sp is s = Some ds \<Longrightarrow> own_approx p s \<Longrightarrow> drops_fine ds p \<and> list_all is_drop ds"
proof (induction "is" arbitrary: s p ds)
  case (Cons i "is")
  from Cons.prems(1) obtain d where d: "(if local_id i \<in> fst s then droppable types i else Some False) = Some d"
    by (auto split: bind_splits)
  show ?case
  proof (cases "d \<and> available (local_id i) s")
    case True
    let ?drop = "DropPlace (whole (local_id i)) sp"
    from Cons.prems(1) d True obtain ds' where
      r: "return_drops types sp is (fst s - {local_id i}, insert (whole (local_id i)) (snd s)) = Some ds'" and ds: "ds = ?drop # ds'"
      by auto
    have "own_step (Ran ?drop) s = (fst s - {local_id i}, insert (whole (local_id i)) (snd s))"
      by (auto simp: own_step_def init_loses_def init_gains_def restores_def gives_up_def)
    then have "own_approx (own_step (Ran ?drop) p) (fst s - {local_id i}, insert (whole (local_id i)) (snd s))"
      using own_approx_step [OF Cons.prems(2), of "Ran ?drop"] by simp
    from Cons.IH [OF r this] show ?thesis
      using available_has [OF Cons.prems(2)] True ds by (auto simp: drops_fine_Cons is_drop_def)
  next
    case False
    then have "return_drops types sp is s = Some ds" using Cons.prems(1) d by auto
    from Cons.IH [OF this Cons.prems(2)] show ?thesis .
  qed
qed simp

text \<open>The elaboration of a block returns.\<close>

lemma droppable_returns: "interner_ok types \<Longrightarrow> \<exists>d. droppable types i = Some d"
  using is_move_only_returns [of types "local_ty i"] by (auto simp: droppable_def)

lemma drops_before_returns: "interner_ok types \<Longrightarrow> \<exists>ds. drops_before f types st s = Some ds"
  using droppable_returns by (auto simp: drops_before_def split: MirStatement.split option.split)

lemma elaborate_statements_returns: "interner_ok types \<Longrightarrow> \<exists>out s'. elaborate_statements f types sts s = Some (out, s')"
proof (induction sts arbitrary: s)
  case (Cons st sts)
  obtain ds where "drops_before f types st s = Some ds" using drops_before_returns [OF Cons.prems] by blast
  then show ?case using Cons.IH [OF Cons.prems, of "transfer_drop_statement st (foldl (\<lambda>s d. transfer_drop_statement d s) s ds)"] by auto
qed simp

lemma return_drops_returns: "interner_ok types \<Longrightarrow> \<exists>ds. return_drops types sp is s = Some ds"
proof (induction "is" arbitrary: s)
  case (Cons i "is")
  obtain d where d: "droppable types i = Some d" using droppable_returns [OF Cons.prems] by blast
  show ?case
    using Cons.IH [OF Cons.prems, of s] Cons.IH [OF Cons.prems, of "(fst s - {local_id i}, insert (whole (local_id i)) (snd s))"] d by auto
qed simp

definition elaborated_block :: "MirFunction \<Rightarrow> TypeStore \<Rightarrow> DropState option list \<Rightarrow> nat \<Rightarrow> BasicBlock" where
  "elaborated_block f types inputs b = the (elaborate_block f types inputs (mir_blocks f ! b))"

lemma elaborate_block_returns:
  assumes "interner_ok types" "ids_ok f" "length inputs = length (mir_blocks f)" "b < length (mir_blocks f)"
  shows "elaborate_block f types inputs (mir_blocks f ! b) = Some (elaborated_block f types inputs b)"
proof -
  have g: "get inputs (block_id (mir_blocks f ! b)) = Some (inputs ! b)"
    using assms(3,4) ids_okD [OF assms(2,4)] by (simp add: get_eq_Some)
  have "\<exists>blk. elaborate_block f types inputs (mir_blocks f ! b) = Some blk"
  proof (cases "inputs ! b")
    case None
    then show ?thesis using g by (simp add: elaborate_block_def)
  next
    case (Some s)
    obtain out s' where r: "elaborate_statements f types (block_statements (mir_blocks f ! b)) s = Some (out, s')"
      using elaborate_statements_returns [OF assms(1)] by blast
    show ?thesis using g Some r return_drops_returns [OF assms(1)]
      by (cases "block_terminator (mir_blocks f ! b)") (auto simp: elaborate_block_def)
  qed
  then show ?thesis by (auto simp: elaborated_block_def)
qed

text \<open>What the elaboration of a block is, for a path that reaches it.\<close>

lemma elaborated_block_fine:
  assumes t: "interner_ok types" "ids_ok f" "length inputs = length (mir_blocks f)" "b < length (mir_blocks f)"
    and n: "\<not> list_ex is_drop (block_statements (mir_blocks f ! b))" and s: "inputs ! b = Some s" "own_approx p s"
  shows "block_terminator (elaborated_block f types inputs b) = block_terminator (mir_blocks f ! b)"
    and "filter (\<lambda>st. \<not> is_drop st) (block_statements (elaborated_block f types inputs b)) = block_statements (mir_blocks f ! b)"
    and "drops_fine (block_statements (elaborated_block f types inputs b)) p"
    and "successors (block_terminator (mir_blocks f ! b)) \<noteq> [] \<Longrightarrow>
      run_own (block_statements (elaborated_block f types inputs b)) p = run_own (block_statements (mir_blocks f ! b)) p"
proof -
  let ?blk = "mir_blocks f ! b"
  have e: "elaborate_block f types inputs ?blk = Some (elaborated_block f types inputs b)"
    by (rule elaborate_block_returns [OF t])
  have g: "get inputs (block_id ?blk) = Some (Some s)" using t(3,4) ids_okD [OF t(2,4)] s(1) by (simp add: get_eq_Some)
  obtain out s' where r: "elaborate_statements f types (block_statements ?blk) s = Some (out, s')"
    using elaborate_statements_returns [OF t(1)] by blast
  note fine = elaborate_statements_fine [OF r n s(2)]
  show "block_terminator (elaborated_block f types inputs b) = block_terminator ?blk"
    "filter (\<lambda>st. \<not> is_drop st) (block_statements (elaborated_block f types inputs b)) = block_statements ?blk"
    "drops_fine (block_statements (elaborated_block f types inputs b)) p"
    "successors (block_terminator ?blk) \<noteq> [] \<Longrightarrow> run_own (block_statements (elaborated_block f types inputs b)) p = run_own (block_statements ?blk) p"
  proof -
    consider v accs sp where "block_terminator ?blk = Return v accs sp" | "\<And>v accs sp. block_terminator ?blk \<noteq> Return v accs sp" by blast
    then have "block_terminator (elaborated_block f types inputs b) = block_terminator ?blk \<and>
      filter (\<lambda>st. \<not> is_drop st) (block_statements (elaborated_block f types inputs b)) = block_statements ?blk \<and>
      drops_fine (block_statements (elaborated_block f types inputs b)) p \<and>
      (successors (block_terminator ?blk) \<noteq> [] \<longrightarrow>
        run_own (block_statements (elaborated_block f types inputs b)) p = run_own (block_statements ?blk) p)"
    proof cases
      case 1
      obtain ds where ds: "return_drops types sp (rev (mir_locals f)) s' = Some ds" using return_drops_returns [OF t(1)] by blast
      have blk: "elaborated_block f types inputs b = ?blk\<lparr>block_statements := out @ ds\<rparr>"
        using e g r ds 1 by (simp add: elaborate_block_def)
      note d = return_drops_fine [OF ds, of "run_own (block_statements ?blk) p"]
      have "filter (\<lambda>st. \<not> is_drop st) ds = []" using d fine by (simp add: filter_empty_conv list_all_iff)
      moreover have "successors (block_terminator ?blk) = []" by (simp add: 1 successors_def)
      ultimately show ?thesis using fine d by (simp add: blk drops_fine_append)
    next
      case 2
      then have "elaborated_block f types inputs b = ?blk\<lparr>block_statements := out\<rparr>"
        using e g r by (cases "block_terminator ?blk") (auto simp: elaborate_block_def)
      then show ?thesis using fine by simp
    qed
    then show "block_terminator (elaborated_block f types inputs b) = block_terminator ?blk"
      "filter (\<lambda>st. \<not> is_drop st) (block_statements (elaborated_block f types inputs b)) = block_statements ?blk"
      "drops_fine (block_statements (elaborated_block f types inputs b)) p"
      "successors (block_terminator ?blk) \<noteq> [] \<Longrightarrow> run_own (block_statements (elaborated_block f types inputs b)) p = run_own (block_statements ?blk) p"
      by blast+
  qed
qed

text \<open>A path of the elaborated function, and the path of the function that it comes from, own the same.\<close>

lemma owned_block: "owned f (tr @ block_events b) = own_step (Ended (block_terminator b)) (run_own (block_statements b) (owned f tr))"
  by (simp add: owned_def block_events_def run_own_def foldl_map)

lemma owned_statements: "owned f (tr @ map Ran sts) = run_own sts (owned f tr)"
  by (simp add: owned_def run_own_def foldl_map)

lemma block_events_ran:
  assumes "block_events b = pre @ Ran st # post"
  shows "\<exists>pre' post'. pre = map Ran pre' \<and> block_statements b = pre' @ st # post'"
proof -
  obtain ys where "post = ys @ [Ended (block_terminator b)]" using assms unfolding block_events_def
    by (cases post rule: rev_cases) auto
  then have "map Ran (block_statements b) = pre @ Ran st # ys" using assms by (simp add: block_events_def)
  then obtain us vs where "block_statements b = us @ vs" "map Ran us = pre" "map Ran vs = Ran st # ys"
    by (auto simp: map_eq_append_conv)
  then show ?thesis by (auto simp: map_eq_Cons_conv)
qed



end
