(* ===== verification/Fixpoint.thy ===== *)
theory Fixpoint
  imports Prelude
begin

text \<open>
  The loop \<open>loop { ... if !changed { break; } }\<close> over a step that reports whether it changed anything. It returns when
  each change makes a measure smaller, and then the step leaves the result as it is.
\<close>

partial_function (option) repeat_until :: "('s \<Rightarrow> ('s \<times> bool) option) \<Rightarrow> 's \<Rightarrow> 's option" where
  "repeat_until step s = Option.bind (step s) (\<lambda>(s', changed). if changed then repeat_until step s' else Some s')"

declare repeat_until.simps [code]

lemma repeat_until_returns:
  fixes m :: "'s \<Rightarrow> nat"
  assumes total: "\<And>s. good s \<Longrightarrow> \<exists>s' changed. step s = Some (s', changed) \<and> good s' \<and> (if changed then m s' < m s else s' = s)"
  shows "good s \<Longrightarrow> \<exists>r. repeat_until step s = Some r \<and> good r \<and> step r = Some (r, False)"
proof (induction "m s" arbitrary: s rule: less_induct)
  case less
  obtain s' changed where s: "step s = Some (s', changed)" "good s'" "if changed then m s' < m s else s' = s"
    using total [OF less.prems] by blast
  show ?case
  proof (cases changed)
    case True
    then have "\<exists>r. repeat_until step s' = Some r \<and> good r \<and> step r = Some (r, False)" using less.hyps [OF _ s(2)] s(3) by simp
    then show ?thesis using s(1) True by (simp add: repeat_until.simps [of step s])
  next
    case False
    then show ?thesis using s by (simp add: repeat_until.simps [of step s])
  qed
qed

text \<open>Families of sets that only grow, inside finite sets: the room that is left is a measure.\<close>

definition room :: "'a set \<Rightarrow> 'a set list \<Rightarrow> nat" where
  "room U ss = (\<Sum>s\<leftarrow>ss. card (U - s))"

lemma room_append [simp]: "room U (xs @ ys) = room U xs + room U ys"
  by (simp add: room_def)

lemma card_room_mono: "finite U \<Longrightarrow> A \<subseteq> B \<Longrightarrow> card (U - B) \<le> card (U - A)"
  by (intro card_mono) auto

lemma room_mono:
  assumes "finite U" "list_all2 (\<subseteq>) xs ys"
  shows "room U ys \<le> room U xs"
  using assms(2)
proof (induction rule: list_all2_induct)
  case (Cons x xs y ys)
  have "card (U - y) \<le> card (U - x)" by (rule card_room_mono [OF assms(1) Cons.hyps(1)])
  then show ?case using Cons.IH by (simp add: room_def)
qed (simp add: room_def)

lemma room_less:
  assumes "finite U" "list_all2 (\<subseteq>) xs ys" "xs \<noteq> ys" "\<And>y. y \<in> set ys \<Longrightarrow> y \<subseteq> U"
  shows "room U ys < room U xs"
  using assms(2-)
proof (induction rule: list_all2_induct)
  case (Cons x xs y ys)
  have xy: "card (U - y) \<le> card (U - x)" by (rule card_room_mono [OF assms(1) Cons.hyps(1)])
  have rest: "room U ys \<le> room U xs" by (rule room_mono [OF assms(1) Cons.hyps(2)])
  show ?case
  proof (cases "x = y")
    case True
    then have "room U ys < room U xs" using Cons by simp
    then show ?thesis using xy by (simp add: room_def)
  next
    case False
    then have "U - y \<subset> U - x" using Cons.hyps(1) Cons.prems(2) [of y] by auto
    then have "card (U - y) < card (U - x)" using assms(1) psubset_card_mono by blast
    then show ?thesis using rest by (simp add: room_def)
  qed
qed simp

end
