(* ===== verification/Mir_Liveness.thy ===== *)
theory Mir_Liveness
  imports Mir_Regions Fixpoint
begin

text \<open>
  Liveness of locals and the end of borrows: \<open>local_liveness\<close> iterates the backward equations until nothing changes, and
  \<open>infer_function_lifetimes\<close> ends the storage of a local that holds a borrow right after the statement that uses it
  last. The locals found live are those that some path uses before it redefines them, so the inference ends exactly
  the borrows that no path uses again.
\<close>

subsection \<open>The iteration\<close>

definition accessed :: "Terminator \<Rightarrow> LocalId set" where
  "accessed t = (\<lambda>a. place_local (access_place a)) ` set (terminator_accesses t)"

definition block_usage :: "BasicBlock \<Rightarrow> LocalId set \<times> LocalId set" where
  "block_usage b =
     (case foldl (\<lambda>(uses, defs) st. (uses \<union> (statement_uses st - defs), defs \<union> statement_definitions st)) ({}, {}) (block_statements b) of
        (uses, defs) \<Rightarrow> (uses \<union> (accessed (block_terminator b) - defs), defs))"

type_synonym Liveness = "LocalId set list \<times> LocalId set list"

fun live_of :: "LocalId set list \<Rightarrow> BasicBlockId list \<Rightarrow> LocalId set option" where
  "live_of ins [] = Some {}"
| "live_of ins (t # ts) = Option.bind (get ins t) (\<lambda>l. map_option ((\<union>) l) (live_of ins ts))"

definition liveness_block :: "(LocalId set \<times> LocalId set) list \<Rightarrow> BasicBlock \<Rightarrow> Liveness \<times> bool \<Rightarrow> (Liveness \<times> bool) option" where
  "liveness_block usage b st = (case st of ((ins, outs), changed) \<Rightarrow> (let i = block_id b in
     Option.bind (live_of ins (successors (block_terminator b))) (\<lambda>output.
     Option.bind (get usage i) (\<lambda>(uses, defs). (let input = uses \<union> (output - defs) in
     Option.bind (get outs i) (\<lambda>old_output.
     Option.bind (get ins i) (\<lambda>old_input.
       Some (if old_output \<noteq> output \<or> old_input \<noteq> input then ((ins[i := input], outs[i := output]), True)
         else ((ins, outs), changed)))))))))"

fun liveness_sweep :: "(LocalId set \<times> LocalId set) list \<Rightarrow> BasicBlock list \<Rightarrow> Liveness \<times> bool \<Rightarrow> (Liveness \<times> bool) option" where
  "liveness_sweep usage [] st = Some st"
| "liveness_sweep usage (b # bs) st = Option.bind (liveness_block usage b st) (liveness_sweep usage bs)"

definition local_liveness :: "MirFunction \<Rightarrow> Liveness option" where
  "local_liveness f =
     (let usage = map block_usage (mir_blocks f); n = length (mir_blocks f) in
      repeat_until (\<lambda>s. liveness_sweep usage (rev (mir_blocks f)) (s, False)) (replicate n {}, replicate n {}))"

definition transfer_liveness_backward :: "MirStatement \<Rightarrow> LocalId set \<Rightarrow> LocalId set" where
  "transfer_liveness_backward st live = (live - statement_definitions st) \<union> statement_uses st"

subsection \<open>The end of borrows\<close>

definition borrow_destination :: "MirStatement \<Rightarrow> LocalId option" where
  "borrow_destination st = (case st of Borrow d _ _ _ _ \<Rightarrow> Some d | _ \<Rightarrow> None)"

definition borrowed_locals :: "MirFunction \<Rightarrow> LocalId set" where
  "borrowed_locals f = set (List.map_filter borrow_destination (concat (map block_statements (mir_blocks f))))"

text \<open>\<open>after[index]\<close> for the statements of a block, from the last to the first.\<close>

fun live_afters :: "MirStatement list \<Rightarrow> LocalId set \<Rightarrow> LocalId set list \<times> LocalId set" where
  "live_afters [] live = ([], live)"
| "live_afters (st # sts) live = (case live_afters sts live of (as, l) \<Rightarrow> (l # as, transfer_liveness_backward st l))"

definition dying :: "LocalId set \<Rightarrow> MirStatement \<Rightarrow> LocalId set \<Rightarrow> LocalId set" where
  "dying borrowed st after_st =
     {l \<in> statement_uses st \<inter> borrowed. l \<notin> after_st} \<union>
     (case borrow_destination st of Some d \<Rightarrow> if d \<notin> after_st then {d} else {} | None \<Rightarrow> {})"

definition end_borrows :: "LocalId set \<Rightarrow> MirStatement \<times> LocalId set \<Rightarrow> MirStatement list" where
  "end_borrows borrowed sa = (case sa of (st, after_st) \<Rightarrow>
     st # map (\<lambda>l. StorageDead l (statement_span st)) (sorted_list_of_set (dying borrowed st after_st)))"

definition infer_block :: "LocalId set \<Rightarrow> LocalId set list \<Rightarrow> BasicBlock \<Rightarrow> BasicBlock option" where
  "infer_block borrowed outs b =
     map_option (\<lambda>out. b\<lparr>block_statements := concat (map (end_borrows borrowed) (zip (block_statements b)
         (fst (live_afters (block_statements b) (out \<union> accessed (block_terminator b))))))\<rparr>)
       (get outs (block_id b))"

definition infer_function_lifetimes :: "MirFunction \<Rightarrow> MirFunction option" where
  "infer_function_lifetimes f =
     (if borrowed_locals f = {} \<or> mir_blocks f = [] then Some f
      else Option.bind (local_liveness f) (\<lambda>(ins, outs).
        map_option (\<lambda>bs. f\<lparr>mir_blocks := bs\<rparr>) (map_blocks (infer_block (borrowed_locals f) outs) (mir_blocks f))))"

subsection \<open>Live locals\<close>

text \<open>A path needs a local when it uses it before an event that redefines it.\<close>

definition event_uses :: "MirEvent \<Rightarrow> LocalId set" where
  "event_uses ev = (case ev of Ran st \<Rightarrow> statement_uses st | Ended t \<Rightarrow> accessed t)"

definition event_definitions :: "MirEvent \<Rightarrow> LocalId set" where
  "event_definitions ev = (case ev of Ran st \<Rightarrow> statement_definitions st | Ended t \<Rightarrow> {})"

definition kept :: "MirEvent list \<Rightarrow> LocalId \<Rightarrow> bool" where
  "kept evs l \<longleftrightarrow> (\<forall>ev \<in> set evs. l \<notin> event_definitions ev)"

definition needed :: "MirEvent list \<Rightarrow> LocalId \<Rightarrow> bool" where
  "needed evs l \<longleftrightarrow> (\<exists>pre ev post. evs = pre @ ev # post \<and> kept pre l \<and> l \<in> event_uses ev)"

inductive live_in :: "MirFunction \<Rightarrow> BasicBlockId \<Rightarrow> LocalId \<Rightarrow> bool" for f where
  here: "b < length (mir_blocks f) \<Longrightarrow> needed (events_of f b) l \<Longrightarrow> live_in f b l"
| there: "b < length (mir_blocks f) \<Longrightarrow> kept (events_of f b) l \<Longrightarrow> t \<in> set (succs_of f b) \<Longrightarrow> live_in f t l \<Longrightarrow> live_in f b l"

text \<open>What is live after the first \<open>i\<close> events of a block.\<close>

definition live_from :: "MirFunction \<Rightarrow> BasicBlockId \<Rightarrow> nat \<Rightarrow> LocalId \<Rightarrow> bool" where
  "live_from f b i l \<longleftrightarrow> needed (drop i (events_of f b)) l \<or>
     kept (drop i (events_of f b)) l \<and> (\<exists>t \<in> set (succs_of f b). live_in f t l)"

lemma kept_simps [simp]: "kept [] l" "kept (ev # evs) l \<longleftrightarrow> l \<notin> event_definitions ev \<and> kept evs l"
  by (auto simp: kept_def)

lemma needed_simps [simp]: "\<not> needed [] l" "needed (ev # evs) l \<longleftrightarrow> l \<in> event_uses ev \<or> l \<notin> event_definitions ev \<and> needed evs l"
proof -
  show "\<not> needed [] l" by (simp add: needed_def)
  show "needed (ev # evs) l \<longleftrightarrow> l \<in> event_uses ev \<or> l \<notin> event_definitions ev \<and> needed evs l"
  proof
    assume "needed (ev # evs) l"
    then obtain pre e post where e: "ev # evs = pre @ e # post" "kept pre l" "l \<in> event_uses e" by (auto simp: needed_def)
    then show "l \<in> event_uses ev \<or> l \<notin> event_definitions ev \<and> needed evs l"
      by (cases pre) (auto simp: needed_def)
  next
    assume "l \<in> event_uses ev \<or> l \<notin> event_definitions ev \<and> needed evs l"
    then show "needed (ev # evs) l"
    proof
      assume "l \<in> event_uses ev"
      then show ?thesis unfolding needed_def by (intro exI [of _ "[]"]) simp
    next
      assume r: "l \<notin> event_definitions ev \<and> needed evs l"
      then obtain pre e post where "evs = pre @ e # post" "kept pre l" "l \<in> event_uses e" by (auto simp: needed_def)
      then show ?thesis using r unfolding needed_def by (intro exI [of _ "ev # pre"]) simp
    qed
  qed
qed

text \<open>The locals a list of statements and then a terminator needs and redefines.\<close>

lemma live_afters_start:
  "l \<in> snd (live_afters sts live) \<longleftrightarrow> needed (map Ran sts) l \<or> kept (map Ran sts) l \<and> l \<in> live"
  by (induction sts) (auto simp: transfer_liveness_backward_def event_uses_def event_definitions_def split: prod.split)

lemma length_live_afters [simp]: "length (fst (live_afters sts live)) = length sts"
  by (induction sts) (auto split: prod.split)

lemma live_afters_nth: "i < length sts \<Longrightarrow> fst (live_afters sts live) ! i = snd (live_afters (drop (Suc i) sts) live)"
proof (induction sts arbitrary: i)
  case (Cons st sts)
  then show ?case by (cases i) (auto split: prod.split)
qed simp

lemma usage_fold:
  "foldl (\<lambda>(uses, defs) st. (uses \<union> (statement_uses st - defs), defs \<union> statement_definitions st)) (U, D) sts =
     (U \<union> ({l. needed (map Ran sts) l} - D), D \<union> {l. \<not> kept (map Ran sts) l})"
  by (induction sts arbitrary: U D) (auto simp: event_uses_def event_definitions_def)

lemma needed_append: "needed (xs @ ys) l \<longleftrightarrow> needed xs l \<or> kept xs l \<and> needed ys l"
  by (induction xs) auto

lemma kept_append: "kept (xs @ ys) l \<longleftrightarrow> kept xs l \<and> kept ys l"
  by (induction xs) auto

lemma ended_simps [simp]: "event_uses (Ended t) = accessed t" "event_definitions (Ended t) = {}"
  by (simp_all add: event_uses_def event_definitions_def)

lemma block_usage_eq: "block_usage b = ({l. needed (block_events b) l}, {l. \<not> kept (block_events b) l})"
  by (auto simp: block_usage_def usage_fold block_events_def needed_append kept_append)

subsection \<open>The iteration finds the live locals\<close>

definition out_of :: "MirFunction \<Rightarrow> LocalId set list \<Rightarrow> BasicBlockId \<Rightarrow> LocalId set" where
  "out_of f ins b = (\<Union>t \<in> set (succs_of f b). ins ! t)"

definition in_of :: "MirFunction \<Rightarrow> LocalId set \<Rightarrow> BasicBlockId \<Rightarrow> LocalId set" where
  "in_of f output b = {l. needed (events_of f b) l} \<union> {l \<in> output. kept (events_of f b) l}"

definition live_room :: "MirFunction \<Rightarrow> LocalId set" where
  "live_room f = (\<Union>ev \<in> all_events f. event_uses ev)"

definition live_state :: "MirFunction \<Rightarrow> Liveness \<Rightarrow> bool" where
  "live_state f s \<longleftrightarrow> length (fst s) = length (mir_blocks f) \<and> length (snd s) = length (mir_blocks f) \<and>
     (\<forall>b < length (mir_blocks f). fst s ! b \<subseteq> {l. live_in f b l} \<and> fst s ! b \<subseteq> in_of f (snd s ! b) b \<and> snd s ! b \<subseteq> out_of f (fst s) b)"

definition grows :: "Liveness \<Rightarrow> Liveness \<Rightarrow> bool" where
  "grows s s' \<longleftrightarrow> list_all2 (\<subseteq>) (fst s @ snd s) (fst s' @ snd s')"

lemma live_of_eq: "\<forall>t \<in> set ts. t < length ins \<Longrightarrow> live_of ins ts = Some (\<Union>t \<in> set ts. ins ! t)"
  by (induction ts) (auto simp: get_def)

lemma in_of_mono: "A \<subseteq> B \<Longrightarrow> in_of f A b \<subseteq> in_of f B b"
  by (auto simp: in_of_def)

lemma out_of_mono:
  assumes "cfg_ok f" "b < length (mir_blocks f)" "\<And>c. c < length (mir_blocks f) \<Longrightarrow> ins ! c \<subseteq> ins' ! c"
  shows "out_of f ins b \<subseteq> out_of f ins' b"
  unfolding out_of_def using assms(3) cfg_ok_succs [OF assms(1,2)] by blast

lemma liveness_block_eq:
  assumes "cfg_ok f" "ids_ok f" "b < length (mir_blocks f)" "live_state f (ins, outs)"
  shows "liveness_block (map block_usage (mir_blocks f)) (mir_blocks f ! b) ((ins, outs), c) =
    (let output = out_of f ins b; input = in_of f output b in
     Some (if outs ! b \<noteq> output \<or> ins ! b \<noteq> input then ((ins[b := input], outs[b := output]), True) else ((ins, outs), c)))"
proof -
  have l: "length ins = length (mir_blocks f)" "length outs = length (mir_blocks f)" using assms(4) by (auto simp: live_state_def)
  have "live_of ins (successors (block_terminator (mir_blocks f ! b))) = Some (out_of f ins b)"
    using live_of_eq [of "successors (block_terminator (mir_blocks f ! b))" ins] cfg_ok_succs [OF assms(1,3)] l(1)
    by (simp add: out_of_def succs_of_def)
  moreover have "{l. needed (events_of f b) l} \<union> (A - {l. \<not> kept (events_of f b) l}) = in_of f A b" for A
    by (auto simp: in_of_def)
  ultimately show ?thesis
    using l assms(3) ids_okD [OF assms(2,3)] by (simp add: liveness_block_def get_def Let_def block_usage_eq events_of_def)
qed

lemma liveness_block_step:
  assumes g: "cfg_ok f" "ids_ok f" and b: "b < length (mir_blocks f)" and s: "live_state f s"
  shows "\<exists>s' chg. liveness_block (map block_usage (mir_blocks f)) (mir_blocks f ! b) (s, c) = Some (s', chg) \<and>
    live_state f s' \<and> grows s s' \<and> (if chg then c \<or> s' \<noteq> s else \<not> c \<and> s' = s \<and>
      snd s ! b = out_of f (fst s) b \<and> fst s ! b = in_of f (snd s ! b) b)"
proof -
  obtain ins outs where s': "s = (ins, outs)" by (cases s)
  note s = s [unfolded s']
  define lo where "lo = out_of f ins b"
  define li where "li = in_of f lo b"
  note e = liveness_block_eq [OF g b s, of c, folded lo_def, unfolded Let_def, folded li_def]
  note st = s [unfolded live_state_def fst_conv snd_conv]
  have out: "outs ! b \<subseteq> lo" using st b by (simp add: lo_def)
  have inn: "ins ! b \<subseteq> li" using st b in_of_mono [OF out] unfolding li_def by blast
  have "b < length ins" using st b by simp
  then have le: "ins ! c \<subseteq> ins[b := li] ! c" for c using inn by (cases "c = b") simp_all
  show ?thesis
  proof (cases "outs ! b \<noteq> lo \<or> ins ! b \<noteq> li")
    case True
    let ?s = "(ins[b := li], outs[b := lo])"
    have "live_in f b l" if "l \<in> li" for l
    proof -
      note l = that
      consider "needed (events_of f b) l" | t where "kept (events_of f b) l" "t \<in> set (succs_of f b)" "l \<in> ins ! t"
        using l by (auto simp: li_def in_of_def lo_def out_of_def)
      then show ?thesis
      proof cases
        case 1
        then show ?thesis using live_in.here b by blast
      next
        case 2
        then have "live_in f t l" using st cfg_ok_succs [OF g(1) b 2(2)] by blast
        then show ?thesis using live_in.there [OF b 2(1,2)] by blast
      qed
    qed
    then have "live_state f ?s"
      using st b out_of_mono [OF g(1) _ le] unfolding live_state_def fst_conv snd_conv
      by (auto simp: nth_list_update li_def lo_def) (use out_of_mono [OF g(1) _ le] in blast)+
    moreover have "grows s ?s"
      using out inn st b by (auto simp: grows_def s' list_all2_conv_all_nth nth_append nth_list_update)
    moreover have "?s \<noteq> s"
    proof
      assume "?s = s"
      then have "ins ! b = li" "outs ! b = lo" using st b unfolding s' by (metis nth_list_update_eq prod.inject)+
      then show False using True by blast
    qed
    ultimately show ?thesis using e True unfolding s' by auto
  next
    case False
    have "grows s s" by (auto simp: grows_def list_all2_refl)
    then show ?thesis using e False s by (cases c) (auto simp: s' lo_def li_def)
  qed
qed

lemma grows_refl: "grows s s"
  by (auto simp: grows_def list_all2_refl)

lemma grows_trans: "grows a b \<Longrightarrow> grows b c \<Longrightarrow> grows a c"
  unfolding grows_def by (rule list_all2_trans [of "(\<subseteq>)" "(\<subseteq>)" "(\<subseteq>)"]) auto

lemma grows_eq:
  assumes "grows a b" "grows b a" "length (fst a) = length (fst b)"
  shows "a = b"
proof -
  have "fst a @ snd a = fst b @ snd b" using assms(1,2) unfolding grows_def list_all2_conv_all_nth by (intro nth_equalityI) auto
  then show ?thesis using assms(3) by (simp add: prod_eq_iff)
qed

lemma liveness_sweep_step:
  assumes g: "cfg_ok f" "ids_ok f"
  shows "set bs \<subseteq> {..<length (mir_blocks f)} \<Longrightarrow> live_state f s \<Longrightarrow>
    \<exists>s' chg. liveness_sweep (map block_usage (mir_blocks f)) (map ((!) (mir_blocks f)) bs) (s, c) = Some (s', chg) \<and>
      live_state f s' \<and> grows s s' \<and> (if chg then c \<or> s' \<noteq> s else \<not> c \<and> s' = s \<and>
      (\<forall>b \<in> set bs. snd s ! b = out_of f (fst s) b \<and> fst s ! b = in_of f (snd s ! b) b))"
proof (induction bs arbitrary: s c)
  case (Cons b bs)
  obtain s1 c1 where s1: "liveness_block (map block_usage (mir_blocks f)) (mir_blocks f ! b) (s, c) = Some (s1, c1)"
    "live_state f s1" "grows s s1" "if c1 then c \<or> s1 \<noteq> s else \<not> c \<and> s1 = s \<and>
      snd s ! b = out_of f (fst s) b \<and> fst s ! b = in_of f (snd s ! b) b"
    using liveness_block_step [OF g _ Cons.prems(2), of b c] Cons.prems(1) by auto
  obtain s2 c2 where s2: "liveness_sweep (map block_usage (mir_blocks f)) (map ((!) (mir_blocks f)) bs) (s1, c1) = Some (s2, c2)"
    "live_state f s2" "grows s1 s2" "if c2 then c1 \<or> s2 \<noteq> s1 else \<not> c1 \<and> s2 = s1 \<and>
      (\<forall>b \<in> set bs. snd s1 ! b = out_of f (fst s1) b \<and> fst s1 ! b = in_of f (snd s1 ! b) b)"
    using Cons.IH [OF _ s1(2), of c1] Cons.prems(1) by auto
  have same: "s2 = s \<Longrightarrow> s1 = s"
    using s1(2,3) s2(3) Cons.prems(2) by (intro grows_eq) (auto simp: live_state_def)
  have "if c2 then c \<or> s2 \<noteq> s else \<not> c \<and> s2 = s \<and>
      (\<forall>b \<in> set (b # bs). snd s ! b = out_of f (fst s) b \<and> fst s ! b = in_of f (snd s ! b) b)"
    using s1(4) s2(4) same by (cases c2; cases c1) auto
  then show ?case using s1(1) s2(1,2) grows_trans [OF s1(3) s2(3)] by auto
qed (simp add: grows_refl)

lemma live_in_room: "live_in f b l \<Longrightarrow> l \<in> live_room f"
proof (induction rule: live_in.induct)
  case (here b l)
  then obtain ev where "ev \<in> set (events_of f b)" "l \<in> event_uses ev" unfolding needed_def by force
  then show ?case using events_of_all [OF here(1)] by (auto simp: live_room_def)
qed simp

lemma finite_live_room: "finite (live_room f)"
proof -
  have "finite (event_uses ev)" for ev
  proof (cases ev)
    case (Ran st)
    then show ?thesis by (cases st) (auto simp: event_uses_def statement_uses_def Let_def)
  qed (simp add: accessed_def)
  then show ?thesis by (simp add: live_room_def finite_all_events)
qed

lemma live_state_room:
  assumes "cfg_ok f" "live_state f s" "A \<in> set (fst s @ snd s)"
  shows "A \<subseteq> live_room f"
proof -
  have l: "length (fst s) = length (mir_blocks f)" "length (snd s) = length (mir_blocks f)" using assms(2) by (auto simp: live_state_def)
  have inn: "fst s ! b \<subseteq> live_room f" if "b < length (mir_blocks f)" for b
    using assms(2) that live_in_room unfolding live_state_def by blast
  have "snd s ! b \<subseteq> live_room f" if "b < length (mir_blocks f)" for b
  proof -
    have "snd s ! b \<subseteq> out_of f (fst s) b" using assms(2) that unfolding live_state_def by blast
    then show ?thesis using inn cfg_ok_succs [OF assms(1) that] unfolding out_of_def by blast
  qed
  then show ?thesis using inn assms(3) l by (auto simp: in_set_conv_nth)
qed

text \<open>The fixpoint: both lists of sets, exactly.\<close>

theorem local_liveness_correct:
  assumes g: "cfg_ok f" "ids_ok f"
  shows "\<exists>ins outs. local_liveness f = Some (ins, outs) \<and>
    length ins = length (mir_blocks f) \<and> length outs = length (mir_blocks f) \<and>
    (\<forall>b < length (mir_blocks f). ins ! b = {l. live_in f b l} \<and> outs ! b = {l. \<exists>t \<in> set (succs_of f b). live_in f t l})"
proof -
  let ?n = "length (mir_blocks f)"
  let ?step = "\<lambda>s. liveness_sweep (map block_usage (mir_blocks f)) (rev (mir_blocks f)) (s, False)"
  have blocks: "rev (mir_blocks f) = map ((!) (mir_blocks f)) (rev [0..<?n])" by (simp add: rev_map [symmetric] map_nth)
  note sweep = liveness_sweep_step [OF g, of "rev [0..<?n]", folded blocks]
  have sub: "set (rev [0..<?n]) \<subseteq> {..<?n}" by auto
  have "\<exists>s' chg. ?step s = Some (s', chg) \<and> live_state f s' \<and>
      (if chg then room (live_room f) (fst s' @ snd s') < room (live_room f) (fst s @ snd s) else s' = s)"
    if s: "live_state f s" for s
  proof -
    obtain s' chg where r: "?step s = Some (s', chg)" "live_state f s'" "grows s s'"
      "if chg then False \<or> s' \<noteq> s else \<not> False \<and> s' = s \<and>
        (\<forall>b \<in> set (rev [0..<?n]). snd s ! b = out_of f (fst s) b \<and> fst s ! b = in_of f (snd s ! b) b)"
      using sweep [OF sub s, of False] by blast
    have "room (live_room f) (fst s' @ snd s') < room (live_room f) (fst s @ snd s)" if chg
    proof (rule room_less [OF finite_live_room])
      show "list_all2 (\<subseteq>) (fst s @ snd s) (fst s' @ snd s')" using r(3) by (simp add: grows_def)
      have "length (fst s) = length (fst s')" using s r(2) by (simp add: live_state_def)
      then show "fst s @ snd s \<noteq> fst s' @ snd s'" using r(4) that by (auto simp: prod_eq_iff)
      show "y \<subseteq> live_room f" if "y \<in> set (fst s' @ snd s')" for y by (rule live_state_room [OF g(1) r(2) that])
    qed
    then show ?thesis using r by (cases chg) auto
  qed
  note loop = repeat_until_returns [of "live_state f" ?step "\<lambda>s. room (live_room f) (fst s @ snd s)", OF this]
  have "live_state f (replicate ?n {}, replicate ?n {})" by (simp add: live_state_def)
  then obtain s where s: "local_liveness f = Some s" "live_state f s" "?step s = Some (s, False)"
    using loop unfolding local_liveness_def Let_def by blast
  have fix_: "snd s ! b = out_of f (fst s) b" "fst s ! b = in_of f (snd s ! b) b" if "b < ?n" for b
    using sweep [OF sub s(2), of False] s(3) that by auto
  have "l \<in> fst s ! b" if "live_in f b l" for b l using that
  proof (induction rule: live_in.induct)
    case (here b l)
    then show ?case using fix_(2) [OF here(1)] unfolding in_of_def by auto
  next
    case (there b l t)
    have "l \<in> snd s ! b" using fix_(1) [OF there(1)] there(3) there.IH unfolding out_of_def by blast
    then show ?case using fix_(2) [OF there(1)] there(2) unfolding in_of_def by blast
  qed
  then have ins: "fst s ! b = {l. live_in f b l}" if "b < ?n" for b using s(2) that unfolding live_state_def by blast
  have "snd s ! b = {l. \<exists>t \<in> set (succs_of f b). live_in f t l}" if "b < ?n" for b
    using fix_(1) [OF that] ins cfg_ok_succs [OF g(1) that] unfolding out_of_def by auto
  then show ?thesis using ins s(1,2) by (intro exI [of _ "fst s"] exI [of _ "snd s"]) (simp add: live_state_def)
qed

subsection \<open>The borrows that end\<close>

text \<open>A borrow ends after a statement that uses or makes it, when no path from there uses it again before it is redefined.\<close>

definition ends_after :: "MirFunction \<Rightarrow> BasicBlockId \<Rightarrow> nat \<Rightarrow> LocalId set" where
  "ends_after f b i = {l \<in> borrowed_locals f. \<not> live_from f b (Suc i) l \<and>
     (l \<in> statement_uses (block_statements (mir_blocks f ! b) ! i) \<or>
      borrow_destination (block_statements (mir_blocks f ! b) ! i) = Some l)}"

definition with_ends :: "MirFunction \<Rightarrow> BasicBlockId \<Rightarrow> BasicBlock" where
  "with_ends f b = (let blk = mir_blocks f ! b; sts = block_statements blk in
     blk\<lparr>block_statements := concat (map (\<lambda>i. sts ! i #
       map (\<lambda>l. StorageDead l (statement_span (sts ! i))) (sorted_list_of_set (ends_after f b i))) [0..<length sts])\<rparr>)"

lemma live_afters_from:
  assumes "i < length (block_statements (mir_blocks f ! b))"
  shows "fst (live_afters (block_statements (mir_blocks f ! b))
      ({l. \<exists>t \<in> set (succs_of f b). live_in f t l} \<union> accessed (block_terminator (mir_blocks f ! b)))) ! i = {l. live_from f b (Suc i) l}"
proof -
  have "drop (Suc i) (events_of f b) =
      map Ran (drop (Suc i) (block_statements (mir_blocks f ! b))) @ [Ended (block_terminator (mir_blocks f ! b))]"
    using assms by (simp add: events_of_def block_events_def drop_map)
  then have "live_from f b (Suc i) l \<longleftrightarrow> l \<in> snd (live_afters (drop (Suc i) (block_statements (mir_blocks f ! b)))
      ({l. \<exists>t \<in> set (succs_of f b). live_in f t l} \<union> accessed (block_terminator (mir_blocks f ! b))))" for l
    by (auto simp: live_from_def live_afters_start needed_append kept_append)
  then show ?thesis using live_afters_nth [OF assms] by auto
qed

lemma borrowed_iff: "l \<in> borrowed_locals f \<longleftrightarrow> (\<exists>blk \<in> set (mir_blocks f). \<exists>st \<in> set (block_statements blk). borrow_destination st = Some l)"
  by (force simp: borrowed_locals_def List.map_filter_def)

lemma borrowed_destination:
  assumes "b < length (mir_blocks f)" "i < length (block_statements (mir_blocks f ! b))"
    "borrow_destination (block_statements (mir_blocks f ! b) ! i) = Some l"
  shows "l \<in> borrowed_locals f"
  unfolding borrowed_iff by (intro bexI [OF _ nth_mem [OF assms(1)]] bexI [OF _ nth_mem [OF assms(2)]] assms(3))

lemma infer_block_ends:
  assumes "ids_ok f" "b < length (mir_blocks f)" "length outs = length (mir_blocks f)"
    "outs ! b = {l. \<exists>t \<in> set (succs_of f b). live_in f t l}"
  shows "infer_block (borrowed_locals f) outs (mir_blocks f ! b) = Some (with_ends f b)"
proof -
  let ?sts = "block_statements (mir_blocks f ! b)"
  let ?afters = "fst (live_afters ?sts (outs ! b \<union> accessed (block_terminator (mir_blocks f ! b))))"
  have a: "?afters ! i = {l. live_from f b (Suc i) l}" if "i < length ?sts" for i
    using live_afters_from [OF that] assms(4) by simp
  have "dying (borrowed_locals f) (?sts ! i) (?afters ! i) = ends_after f b i" if "i < length ?sts" for i
    using borrowed_destination [OF assms(2) that] unfolding a [OF that] by (auto simp: dying_def ends_after_def split: option.split)
  then have "map (end_borrows (borrowed_locals f)) (zip ?sts ?afters) = map (\<lambda>i. ?sts ! i #
      map (\<lambda>l. StorageDead l (statement_span (?sts ! i))) (sorted_list_of_set (ends_after f b i))) [0..<length ?sts]"
    by (intro nth_equalityI) (simp_all add: end_borrows_def)
  moreover have "get outs (block_id (mir_blocks f ! b)) = Some (outs ! b)"
    using assms(3) ids_okD [OF assms(1,2)] assms(2) by (simp add: get_eq_Some)
  ultimately show ?thesis by (simp add: infer_block_def with_ends_def Let_def)
qed

lemma with_ends_none:
  assumes "borrowed_locals f = {}"
  shows "with_ends f b = mir_blocks f ! b"
proof -
  have "ends_after f b i = {}" for i using assms by (simp add: ends_after_def)
  then show ?thesis by (simp add: with_ends_def Let_def concat_map_singleton map_nth)
qed

lemma lifetimes_inferred:
  assumes "cfg_ok f" "ids_ok f"
  shows "infer_function_lifetimes f = Some (f\<lparr>mir_blocks := map (with_ends f) [0..<length (mir_blocks f)]\<rparr>)"
proof (cases "borrowed_locals f = {}")
  case True
  then have "map (with_ends f) [0..<length (mir_blocks f)] = mir_blocks f"
    by (intro nth_equalityI) (simp_all add: with_ends_none)
  then show ?thesis using True by (simp add: infer_function_lifetimes_def)
next
  case False
  obtain ins outs where l: "local_liveness f = Some (ins, outs)" "length outs = length (mir_blocks f)"
    "\<forall>b < length (mir_blocks f). outs ! b = {l. \<exists>t \<in> set (succs_of f b). live_in f t l}"
    using local_liveness_correct [OF assms] by blast
  have one: "infer_block (borrowed_locals f) outs (mir_blocks f ! b) = Some (with_ends f b)" if "b < length (mir_blocks f)" for b
    using infer_block_ends [OF assms(2) that l(2)] l(3) that by simp
  have "map_blocks (infer_block (borrowed_locals f) outs) (mir_blocks f) =
      Some (map (\<lambda>blk. the (infer_block (borrowed_locals f) outs blk)) (mir_blocks f))"
    by (rule map_blocks_total) (auto simp: in_set_conv_nth one)
  moreover have "map (\<lambda>blk. the (infer_block (borrowed_locals f) outs blk)) (mir_blocks f) = map (with_ends f) [0..<length (mir_blocks f)]"
    by (rule nth_equalityI) (simp_all add: one)
  moreover have "mir_blocks f \<noteq> []" using assms(1) by (simp add: cfg_ok_def)
  ultimately show ?thesis using False l(1) by (simp add: infer_function_lifetimes_def)
qed

text \<open>
  C19. On a function whose jumps stay inside it the inference returns the function with, after each statement that uses
  or makes a borrow, the end of the storage of exactly those borrows that no path uses again before they are redefined.
\<close>

theorem infer_lifetimes_exact:
  assumes "cfg_ok f" "ids_ok f"
  shows "infer_function_lifetimes f = Some (f\<lparr>mir_blocks := map (with_ends f) [0..<length (mir_blocks f)]\<rparr>)"
  by (rule lifetimes_inferred [OF assms])

definition sample_borrow :: MirFunction where
  "sample_borrow = sample_function\<lparr>mir_blocks := [
     \<lparr>block_id = 0,
      block_statements = [Borrow 4 (whole 0) BorrowRead True sample_span, Evaluate None [sample_access 4 AccRead] sample_span,
        Assign (whole 1) [] None [sample_access 0 AccMove] sample_span],
      block_terminator = Return None [] sample_span\<rparr>]\<rparr>"

theorem infer_lifetimes_exact_witness:
  "infer_function_lifetimes sample_borrow = Some (sample_borrow\<lparr>mir_blocks := [with_ends sample_borrow 0]\<rparr>) \<and>
   block_statements (with_ends sample_borrow 0) =
     [Borrow 4 (whole 0) BorrowRead True sample_span, Evaluate None [sample_access 4 AccRead] sample_span, StorageDead 4 sample_span,
      Assign (whole 1) [] None [sample_access 0 AccMove] sample_span]"
proof -
  have ok: "cfg_ok sample_borrow" "ids_ok sample_borrow" by code_simp+
  have run: "infer_function_lifetimes sample_borrow = Some (sample_borrow\<lparr>mir_blocks := [
      \<lparr>block_id = 0, block_statements =
       [Borrow 4 (whole 0) BorrowRead True sample_span, Evaluate None [sample_access 4 AccRead] sample_span, StorageDead 4 sample_span,
        Assign (whole 1) [] None [sample_access 0 AccMove] sample_span], block_terminator = Return None [] sample_span\<rparr>]\<rparr>)"
    by code_simp
  have "length (mir_blocks sample_borrow) = 1" by code_simp
  then have "infer_function_lifetimes sample_borrow = Some (sample_borrow\<lparr>mir_blocks := [with_ends sample_borrow 0]\<rparr>)"
    using infer_lifetimes_exact [OF ok] by simp
  then show ?thesis using run by (simp add: sample_borrow_def sample_function_def)
qed

end
