(* ===== verification/Mir_Returns.thy ===== *)
theory Mir_Returns
  imports Mir_Regions
begin

text \<open>
  Return values: \<open>materialize_returns\<close> evaluates the value of every return into a local of its own, before the region
  exits and storage ends that close the block, so that the cleanup cannot end what the value still needs.
\<close>

definition needs_local :: "MirFunction \<Rightarrow> MirOperand option \<Rightarrow> bool option" where
  "needs_local f v = (case v of
      None \<Rightarrow> Some False
    | Some x \<Rightarrow> (case operand_kind x of
        MPlace p \<Rightarrow> map_option (\<lambda>l. \<not> is_return l) (get (mir_locals f) (place_local p))
      | _ \<Rightarrow> Some True))"

definition operand_owned_region :: "MirOperand \<Rightarrow> MirFunction \<Rightarrow> LocalId option option" where
  "operand_owned_region x f = (case operand_kind x of
      MPlace p \<Rightarrow> map_option owned_region (get (mir_locals f) (place_local p))
    | _ \<Rightarrow> Some None)"

definition is_cleanup :: "MirStatement \<Rightarrow> bool" where
  "is_cleanup st = (case st of RegionExit _ _ \<Rightarrow> True | StorageDead _ _ \<Rightarrow> True | _ \<Rightarrow> False)"

text \<open>One past the last statement that is not part of the cleanup.\<close>

definition trailing_region_cleanup_start :: "MirStatement list \<Rightarrow> nat" where
  "trailing_region_cleanup_start sts = length (dropWhile is_cleanup (rev sts))"

definition return_local :: "nat \<Rightarrow> TypeId \<Rightarrow> LocalId option \<Rightarrow> Span \<Rightarrow> MirLocal" where
  "return_local l ty own s =
     \<lparr>local_id = l, local_symbol = None, local_name = lit ''$return'' @ nat_to_string l, local_ty = ty, local_mutable = False,
      is_parameter = False, is_return = True, scope_region = None, owned_region = own, local_span = s\<rparr>"

definition evaluate_return :: "TypeStore \<Rightarrow> MirOperand \<Rightarrow> LocalId \<Rightarrow> PlaceAccess list \<Rightarrow> Span \<Rightarrow> MirStatement list" where
  "evaluate_return types x l accs s =
     [StorageLive l s,
      (case (kind_of types (operand_ty x), operand_kind x) of
         (Some (TCapability Read _), MPlace source) \<Rightarrow> Borrow l source BorrowRead False s
       | (Some (TCapability Write _), MPlace source) \<Rightarrow> Borrow l source BorrowWrite False s
       | _ \<Rightarrow> Assign (whole l) [] (Some x) accs s)]"

definition returned_place :: "TypeId \<Rightarrow> LocalId \<Rightarrow> bool \<Rightarrow> Span \<Rightarrow> Terminator" where
  "returned_place ty l m s =
     Return (Some (MirOperand ty (MPlace (whole l)) s))
       [\<lparr>access_place = whole l, access_kind = if m then AccMove else AccRead, access_span = s\<rparr>] s"

definition with_return :: "TypeStore \<Rightarrow> MirFunction \<Rightarrow> nat \<Rightarrow> MirOperand \<Rightarrow> PlaceAccess list \<Rightarrow> Span \<Rightarrow> LocalId option \<Rightarrow> bool \<Rightarrow> MirFunction" where
  "with_return types f i x accs s own m =
     (let l = length (mir_locals f); blk = mir_blocks f ! i; sts = block_statements blk; k = trailing_region_cleanup_start sts in
      f\<lparr>mir_locals := mir_locals f @ [return_local l (operand_ty x) own s],
        mir_blocks := (mir_blocks f)[i := blk\<lparr>
          block_statements := take k sts @ evaluate_return types x l accs s @ drop k sts,
          block_terminator := returned_place (operand_ty x) l m s\<rparr>]\<rparr>)"

definition materialize_block :: "TypeStore \<Rightarrow> MirFunction \<Rightarrow> nat \<Rightarrow> MirFunction option" where
  "materialize_block types f i =
     Option.bind (get (mir_blocks f) i) (\<lambda>blk.
       case block_terminator blk of
         Return v accs s \<Rightarrow>
           Option.bind (needs_local f v) (\<lambda>needed.
             case v of
               Some x \<Rightarrow>
                 if needed then
                   Option.bind (operand_owned_region x f) (\<lambda>own.
                   Option.bind (is_move_only types (operand_ty x)) (\<lambda>m.
                     Some (with_return types f i x accs s own m)))
                 else Some f
             | None \<Rightarrow> Some f)
       | _ \<Rightarrow> Some f)"

fun materialize_from :: "TypeStore \<Rightarrow> MirFunction \<Rightarrow> nat list \<Rightarrow> MirFunction option" where
  "materialize_from types f [] = Some f"
| "materialize_from types f (i # is) = Option.bind (materialize_block types f i) (\<lambda>f'. materialize_from types f' is)"

definition materialize_function_returns :: "TypeStore \<Rightarrow> MirFunction \<Rightarrow> MirFunction option" where
  "materialize_function_returns types f = materialize_from types f [0..<length (mir_blocks f)]"

subsection \<open>What it returns\<close>

text \<open>The places that are returned are of the function.\<close>

definition returns_inside :: "MirFunction \<Rightarrow> BasicBlock \<Rightarrow> bool" where
  "returns_inside f blk = (case block_terminator blk of
      Return (Some x) _ _ \<Rightarrow> (case operand_kind x of MPlace p \<Rightarrow> place_local p < length (mir_locals f) | _ \<Rightarrow> True)
    | _ \<Rightarrow> True)"

text \<open>The value of a block's return is a return local, or there is none.\<close>

definition returns_local :: "MirFunction \<Rightarrow> BasicBlock \<Rightarrow> bool" where
  "returns_local f blk = (case block_terminator blk of
      Return (Some x) _ _ \<Rightarrow>
        (case operand_kind x of
           MPlace p \<Rightarrow> place_local p < length (mir_locals f) \<and> is_return (mir_locals f ! place_local p)
         | _ \<Rightarrow> False)
    | _ \<Rightarrow> True)"

text \<open>
  What becomes of a block: unchanged if its return needs no local. Otherwise the value is evaluated into a fresh return
  local of its type and region, after the last statement that is not cleanup, and the return takes that local.
\<close>

definition before_cleanup :: "MirStatement list \<Rightarrow> MirStatement list \<Rightarrow> bool" where
  "before_cleanup work cleanup \<longleftrightarrow> (work = [] \<or> \<not> is_cleanup (last work)) \<and> list_all is_cleanup cleanup"

definition fresh_return :: "MirFunction \<Rightarrow> MirFunction \<Rightarrow> MirOperand \<Rightarrow> LocalId \<Rightarrow> Span \<Rightarrow> bool" where
  "fresh_return f f' x l s \<longleftrightarrow> length (mir_locals f) \<le> l \<and> l < length (mir_locals f') \<and>
     (\<exists>own. operand_owned_region x f = Some own \<and> mir_locals f' ! l = return_local l (operand_ty x) own s)"

definition return_evaluated :: "TypeStore \<Rightarrow> MirFunction \<Rightarrow> MirFunction \<Rightarrow> BasicBlock \<Rightarrow> BasicBlock \<Rightarrow> bool" where
  "return_evaluated types f f' blk blk' \<longleftrightarrow>
     (if returns_local f blk then blk' = blk
      else \<exists>x accs s work cleanup l m. block_terminator blk = Return (Some x) accs s \<and> block_statements blk = work @ cleanup \<and>
        before_cleanup work cleanup \<and> fresh_return f f' x l s \<and> is_move_only types (operand_ty x) = Some m \<and>
        blk' = blk\<lparr>block_statements := work @ evaluate_return types x l accs s @ cleanup,
          block_terminator := returned_place (operand_ty x) l m s\<rparr>)"

definition extends :: "MirFunction \<Rightarrow> MirFunction \<Rightarrow> bool" where
  "extends f f' \<longleftrightarrow> (\<exists>ls bs. f' = f\<lparr>mir_locals := mir_locals f @ ls, mir_blocks := bs\<rparr> \<and> length bs = length (mir_blocks f))"

lemma cleanup_split:
  "before_cleanup (take (trailing_region_cleanup_start sts) sts) (drop (trailing_region_cleanup_start sts) sts)"
proof -
  let ?work = "rev (dropWhile is_cleanup (rev sts))" and ?cleanup = "rev (takeWhile is_cleanup (rev sts))"
  have sts: "?work @ ?cleanup = sts" by (metis rev_append rev_rev_ident takeWhile_dropWhile_id)
  have start: "trailing_region_cleanup_start sts = length ?work" by (simp add: trailing_region_cleanup_start_def)
  have "take (length ?work) sts = ?work" "drop (length ?work) sts = ?cleanup" using sts by (metis append_eq_conv_conj)+
  then show ?thesis unfolding start using hd_dropWhile [of is_cleanup "rev sts"]
    by (auto simp: before_cleanup_def list_all_iff last_rev dest: set_takeWhileD)
qed

lemma extends_refl: "extends f f"
  unfolding extends_def by (intro exI [of _ "[]"] exI [of _ "mir_blocks f"]) simp

lemma extends_trans:
  assumes "extends f g" "extends g h"
  shows "extends f h"
proof -
  obtain ls bs ms cs where "g = f\<lparr>mir_locals := mir_locals f @ ls, mir_blocks := bs\<rparr>" "length bs = length (mir_blocks f)"
    "h = g\<lparr>mir_locals := mir_locals g @ ms, mir_blocks := cs\<rparr>" "length cs = length (mir_blocks g)"
    using assms unfolding extends_def by blast
  then show ?thesis unfolding extends_def by (intro exI [of _ "ls @ ms"] exI [of _ cs]) simp
qed

lemma extends_simps:
  assumes "extends f f'"
  shows "length (mir_blocks f') = length (mir_blocks f)" "length (mir_locals f) \<le> length (mir_locals f')"
    "l < length (mir_locals f) \<Longrightarrow> mir_locals f' ! l = mir_locals f ! l"
  using assms by (auto simp: extends_def nth_append)

lemma returns_local_extends: "extends f f' \<Longrightarrow> returns_local f blk \<Longrightarrow> returns_local f' blk"
  using extends_simps [of f f'] by (fastforce simp: returns_local_def split: Terminator.splits option.splits MirOperandKind.splits)

lemma materialize_block_step:
  assumes t: "interner_ok types" and i: "i < length (mir_blocks f)" and r: "returns_inside f (mir_blocks f ! i)"
  shows "\<exists>f'. materialize_block types f i = Some f' \<and> extends f f' \<and>
    (\<forall>b. b \<noteq> i \<longrightarrow> mir_blocks f' ! b = mir_blocks f ! b) \<and>
    return_evaluated types f f' (mir_blocks f ! i) (mir_blocks f' ! i) \<and> returns_local f' (mir_blocks f' ! i) \<and>
    (returns_local f (mir_blocks f ! i) \<longrightarrow> f' = f)"
proof -
  let ?blk = "mir_blocks f ! i"
  have g: "get (mir_blocks f) i = Some ?blk" using i by (simp add: get_eq_Some)
  show ?thesis
  proof (cases "returns_local f ?blk")
    case True
    then have "materialize_block types f i = Some f"
      using i by (auto simp: materialize_block_def g returns_local_def needs_local_def get_def split: Terminator.split option.splits MirOperandKind.splits)
    then show ?thesis using True by (auto simp: extends_refl return_evaluated_def)
  next
    case False
    then obtain x accs s where x: "block_terminator ?blk = Return (Some x) accs s"
      by (auto simp: returns_local_def split: Terminator.splits option.splits)
    have need: "needs_local f (Some x) = Some True"
      using False r by (auto simp: returns_local_def x needs_local_def returns_inside_def get_def split: MirOperandKind.splits)
    obtain own where own: "operand_owned_region x f = Some own"
      using r by (cases "operand_kind x") (auto simp: returns_inside_def x operand_owned_region_def get_def)
    obtain m where m: "is_move_only types (operand_ty x) = Some m" using is_move_only_returns [OF t] by blast
    let ?f = "with_return types f i x accs s own m"
    have run: "materialize_block types f i = Some ?f" using g x need own m by (simp add: materialize_block_def)
    have ext: "extends f ?f"
      unfolding extends_def with_return_def Let_def by (rule exI, rule exI, rule conjI, rule refl) simp
    let ?k = "trailing_region_cleanup_start (block_statements ?blk)"
    have new: "mir_blocks ?f ! i = ?blk\<lparr>
        block_statements := take ?k (block_statements ?blk) @ evaluate_return types x (length (mir_locals f)) accs s @ drop ?k (block_statements ?blk),
        block_terminator := returned_place (operand_ty x) (length (mir_locals f)) m s\<rparr>"
      using i by (simp add: with_return_def Let_def)
    have "fresh_return f ?f x (length (mir_locals f)) s"
      using own by (simp add: fresh_return_def with_return_def Let_def)
    then have "return_evaluated types f ?f ?blk (mir_blocks ?f ! i)"
      unfolding return_evaluated_def using False m
      by (simp only: if_False) (intro exI [of _ x] exI [of _ accs] exI [of _ s] exI [of _ "take ?k (block_statements ?blk)"]
        exI [of _ "drop ?k (block_statements ?blk)"] exI [of _ "length (mir_locals f)"] exI [of _ m] conjI x new cleanup_split; simp)
    moreover have "returns_local ?f (mir_blocks ?f ! i)"
      unfolding new by (simp add: returns_local_def returned_place_def with_return_def Let_def return_local_def nth_append)
    ultimately show ?thesis using run ext False by (intro exI [of _ ?f]) (auto simp: with_return_def Let_def)
  qed
qed

lemma returns_inside_extends: "extends f f' \<Longrightarrow> returns_inside f blk \<Longrightarrow> returns_inside f' blk"
  using extends_simps(2) [of f f']
  by (force simp: returns_inside_def split: Terminator.splits option.splits MirOperandKind.splits)

lemma returns_local_back: "extends f f' \<Longrightarrow> returns_inside f blk \<Longrightarrow> returns_local f' blk \<Longrightarrow> returns_local f blk"
  using extends_simps(2,3) [of f f']
  by (auto simp: returns_inside_def returns_local_def split: Terminator.splits option.splits MirOperandKind.splits)

lemma operand_owned_region_extends:
  assumes "extends f f'" "returns_inside f blk" "block_terminator blk = Return (Some x) accs s"
  shows "operand_owned_region x f' = operand_owned_region x f"
  using assms(2,3) extends_simps [OF assms(1)]
  by (auto simp: returns_inside_def operand_owned_region_def get_def split: MirOperandKind.splits)

lemma fresh_return_extends:
  assumes "extends f g" "fresh_return g h x l s" "extends h k" "operand_owned_region x g = operand_owned_region x f"
  shows "fresh_return f k x l s"
  using assms(2,4) extends_simps(2) [OF assms(1)] extends_simps(2,3) [OF assms(3)] by (auto simp: fresh_return_def)

lemma return_evaluated_extends:
  assumes e: "extends f g" "extends h k" and r: "returns_inside f blk" and blk: "return_evaluated types g h blk blk'"
  shows "return_evaluated types f k blk blk'"
proof (cases "returns_local f blk")
  case True
  then show ?thesis using blk returns_local_extends [OF e(1)] by (simp add: return_evaluated_def)
next
  case False
  then have "\<not> returns_local g blk" using returns_local_back [OF e(1) r] by blast
  with blk obtain x accs s work cleanup l m where b: "block_terminator blk = Return (Some x) accs s"
    "block_statements blk = work @ cleanup" "before_cleanup work cleanup" "fresh_return g h x l s" "is_move_only types (operand_ty x) = Some m"
    "blk' = blk\<lparr>block_statements := work @ evaluate_return types x l accs s @ cleanup, block_terminator := returned_place (operand_ty x) l m s\<rparr>"
    unfolding return_evaluated_def by auto
  moreover have "fresh_return f k x l s"
    by (rule fresh_return_extends [OF e(1) b(4) e(2) operand_owned_region_extends [OF e(1) r b(1)]])
  ultimately show ?thesis using False unfolding return_evaluated_def by auto
qed

lemma materialize_from_step:
  assumes t: "interner_ok types"
  shows "distinct is \<Longrightarrow> set is \<subseteq> {..<length (mir_blocks f)} \<Longrightarrow> \<forall>i \<in> set is. returns_inside f (mir_blocks f ! i) \<Longrightarrow>
    \<exists>f'. materialize_from types f is = Some f' \<and> extends f f' \<and>
      (\<forall>b. b \<notin> set is \<longrightarrow> mir_blocks f' ! b = mir_blocks f ! b) \<and>
      (\<forall>b \<in> set is. return_evaluated types f f' (mir_blocks f ! b) (mir_blocks f' ! b) \<and> returns_local f' (mir_blocks f' ! b)) \<and>
      ((\<forall>b \<in> set is. returns_local f (mir_blocks f ! b)) \<longrightarrow> f' = f)"
proof (induction "is" arbitrary: f)
  case (Cons i "is")
  obtain f1 where f1: "materialize_block types f i = Some f1" "extends f f1" "\<forall>b. b \<noteq> i \<longrightarrow> mir_blocks f1 ! b = mir_blocks f ! b"
    "return_evaluated types f f1 (mir_blocks f ! i) (mir_blocks f1 ! i)" "returns_local f1 (mir_blocks f1 ! i)"
    "returns_local f (mir_blocks f ! i) \<longrightarrow> f1 = f"
    using materialize_block_step [OF t, of i f] Cons.prems by auto
  have ins: "\<forall>b \<in> set is. returns_inside f1 (mir_blocks f1 ! b)"
    using Cons.prems f1(3) returns_inside_extends [OF f1(2)] by fastforce
  obtain f2 where f2: "materialize_from types f1 is = Some f2" "extends f1 f2" "\<forall>b. b \<notin> set is \<longrightarrow> mir_blocks f2 ! b = mir_blocks f1 ! b"
    "\<forall>b \<in> set is. return_evaluated types f1 f2 (mir_blocks f1 ! b) (mir_blocks f2 ! b) \<and> returns_local f2 (mir_blocks f2 ! b)"
    "(\<forall>b \<in> set is. returns_local f1 (mir_blocks f1 ! b)) \<longrightarrow> f2 = f1"
    using Cons.IH [OF _ _ ins] Cons.prems extends_simps(1) [OF f1(2)] by auto
  have "return_evaluated types f f2 (mir_blocks f ! b) (mir_blocks f2 ! b) \<and> returns_local f2 (mir_blocks f2 ! b)" if b: "b \<in> set (i # is)" for b
  proof (cases "b = i")
    case True
    then have "mir_blocks f2 ! b = mir_blocks f1 ! i" using f2(3) Cons.prems(1) by simp
    then show ?thesis
      using return_evaluated_extends [OF extends_refl f2(2) _ f1(4)] f1(5) returns_local_extends [OF f2(2)] True Cons.prems(3) by simp
  next
    case False
    then have "b \<in> set is" "mir_blocks f1 ! b = mir_blocks f ! b" using b f1(3) by auto
    then show ?thesis using f2(4) return_evaluated_extends [OF f1(2) extends_refl] Cons.prems(3) b by fastforce
  qed
  moreover have "f2 = f" if r: "\<forall>b \<in> set (i # is). returns_local f (mir_blocks f ! b)" using f1(6) f2(5) r by auto
  ultimately show ?case using f1(1,3) f2(1,3) extends_trans [OF f1(2) f2(2)] by (intro exI [of _ f2]) auto
qed (simp add: extends_refl)

lemma materialize_again:
  assumes t: "interner_ok types" and r: "list_all (returns_local f) (mir_blocks f)"
  shows "materialize_function_returns types f = Some f"
proof -
  have loc: "\<forall>b \<in> set [0..<length (mir_blocks f)]. returns_local f (mir_blocks f ! b)" using r by (simp add: list_all_length)
  then have "\<forall>b \<in> set [0..<length (mir_blocks f)]. returns_inside f (mir_blocks f ! b)"
    by (auto simp: returns_local_def returns_inside_def split: Terminator.splits option.splits MirOperandKind.splits)
  moreover have "set [0..<length (mir_blocks f)] \<subseteq> {..<length (mir_blocks f)}" by auto
  ultimately show ?thesis
    using materialize_from_step [OF t distinct_upt, of 0 "length (mir_blocks f)" f] loc unfolding materialize_function_returns_def by blast
qed

lemma returns_materialized:
  assumes t: "interner_ok types" and r: "list_all (returns_inside f) (mir_blocks f)"
  shows "\<exists>f'. materialize_function_returns types f = Some f' \<and> extends f f' \<and>
    list_all2 (return_evaluated types f f') (mir_blocks f) (mir_blocks f') \<and>
    list_all (returns_local f') (mir_blocks f') \<and> materialize_function_returns types f' = Some f'"
proof -
  have sub: "distinct [0..<length (mir_blocks f)]" "set [0..<length (mir_blocks f)] \<subseteq> {..<length (mir_blocks f)}"
    "\<forall>i \<in> set [0..<length (mir_blocks f)]. returns_inside f (mir_blocks f ! i)"
    using r by (auto simp: list_all_length)
  obtain f' where f': "materialize_function_returns types f = Some f'" "extends f f'"
    "\<forall>b \<in> set [0..<length (mir_blocks f)]. return_evaluated types f f' (mir_blocks f ! b) (mir_blocks f' ! b) \<and> returns_local f' (mir_blocks f' ! b)"
    using materialize_from_step [OF t sub] unfolding materialize_function_returns_def by blast
  have len: "length (mir_blocks f') = length (mir_blocks f)" by (rule extends_simps(1) [OF f'(2)])
  have loc: "list_all (returns_local f') (mir_blocks f')" using f'(3) len by (simp add: list_all_length)
  show ?thesis using f' len loc materialize_again [OF t loc] by (intro exI [of _ f']) (auto simp: list_all_length list_all2_conv_all_nth)
qed


definition sample_return :: MirFunction where
  "sample_return = sample_function\<lparr>mir_blocks := [
     \<lparr>block_id = 0,
      block_statements = [Assign (whole 1) [] None [sample_access 0 AccMove] sample_span, RegionExit 2 sample_span],
      block_terminator = Return (Some (MirOperand 23 (MPlace (whole 1)) sample_span)) [sample_access 1 AccMove] sample_span\<rparr>]\<rparr>"


end
