(* ===== verification/Mir_Pipeline.thy ===== *)
theory Mir_Pipeline
  imports Mir_Verify Mir_Loans Mir_Moves Mir_Drops Mir_Liveness Mir_Returns
begin

text \<open>
  The passes over a lowered module as \<open>jadren-driver\<close> composes them: returns, region cleanup, lifetimes, drops, then the
  verifier and, if it accepts, the five analyses. On a module that the verifier accepts as it was lowered, with
  a local for each borrow, the composition returns, and if nothing is reported every path of the module that is compiled
  further obeys the rules of the five analyses at once.
\<close>

subsection \<open>The passes over a module\<close>

definition gather :: "(MirFunction \<Rightarrow> MirError list option) \<Rightarrow> MirModule \<Rightarrow> MirError list option" where
  "gather g m = map_option concat (map_blocks g m)"

definition analyze_definite_initialization :: "MirModule \<Rightarrow> MirError list option" where
  "analyze_definite_initialization m = gather analyze_initialization m"

definition analyze_moves :: "MirModule \<Rightarrow> MirError list option" where
  "analyze_moves m = gather analyze_function_moves m"

definition analyze_borrows :: "MirModule \<Rightarrow> TypeStore \<Rightarrow> MirError list option" where
  "analyze_borrows m types = gather (\<lambda>f. analyze_function_borrows f types) m"

definition analyze_lifetimes :: "MirModule \<Rightarrow> TypeStore \<Rightarrow> MirError list option" where
  "analyze_lifetimes m types = gather (\<lambda>f. analyze_function_lifetimes f types) m"

definition analyze_regions :: "MirModule \<Rightarrow> MirError list option" where
  "analyze_regions m = gather analyze_function_regions m"

definition materialize_returns :: "MirModule \<Rightarrow> TypeStore \<Rightarrow> MirModule option" where
  "materialize_returns m types = map_blocks (materialize_function_returns types) m"

definition elaborate_region_cleanup :: "MirModule \<Rightarrow> MirModule option" where
  "elaborate_region_cleanup m = map_blocks elaborate_function_region_cleanup m"

definition infer_lifetimes :: "MirModule \<Rightarrow> MirModule option" where
  "infer_lifetimes m = map_blocks infer_function_lifetimes m"

definition elaborate_drops :: "MirModule \<Rightarrow> TypeStore \<Rightarrow> MirModule option" where
  "elaborate_drops m types =
     Option.bind (materialize_returns m types) (map_blocks (\<lambda>f. elaborate_function_drops f types))"

text \<open>The module that is compiled further, the errors of the verifier, and the violated memory rules.\<close>

definition memory_errors :: "MirModule \<Rightarrow> TypeStore \<Rightarrow> MirError list \<Rightarrow> MirError list option" where
  "memory_errors m types lifetime_errors =
     Option.bind (analyze_definite_initialization m) (\<lambda>initialization.
     Option.bind (analyze_moves m) (\<lambda>moves.
     Option.bind (analyze_borrows m types) (\<lambda>borrows.
     Option.bind (analyze_regions m) (\<lambda>regions.
       Some (initialization @ moves @ borrows @ lifetime_errors @ regions)))))"

definition check_mir :: "MirModule \<Rightarrow> TypeStore \<Rightarrow> (MirModule \<times> MirError list \<times> MirError list) option" where
  "check_mir m types =
     Option.bind (materialize_returns m types) (\<lambda>m.
     Option.bind (elaborate_region_cleanup m) (\<lambda>m.
     Option.bind (infer_lifetimes m) (\<lambda>m.
     Option.bind (analyze_lifetimes m types) (\<lambda>lifetime_errors.
     Option.bind (elaborate_drops m types) (\<lambda>m.
       if verify_mir m types \<noteq> [] then Some (m, verify_mir m types, [])
       else Option.bind (memory_errors m types lifetime_errors) (\<lambda>errors. Some (m, [], errors)))))))"

subsection \<open>What the passes keep\<close>

text \<open>
  Functions on which every pass and analysis runs. All but the last part is checked by the verifier. That the borrows of a
  local are all of the same place and kind holds because every borrow is made into a local of its own: lowering and
  the materialisation of returns declare it for the borrow.
\<close>

definition lowered :: "MirFunction \<Rightarrow> bool" where
  "lowered f \<longleftrightarrow> cfg_ok f \<and> ids_ok f \<and> locals_ok f \<and> list_all (returns_inside f) (mir_blocks f) \<and> one_loan_each f"

lemma verified_lowered:
  assumes v: "verify_mir m types = []" and f: "f \<in> set m" "mir_blocks f \<noteq> []" "one_loan_each f"
  shows "lowered f"
proof -
  have ok: "function_ok types f" using v f(1) by (simp add: verify_mir_def verify_function_nil list_all_iff)
  have "returns_inside f blk" if "blk \<in> set (mir_blocks f)" for blk
  proof -
    have t: "terminator_ok f types (block_terminator blk)" using ok that by (simp add: function_ok_def block_ok_def list_all_iff)
    show ?thesis
    proof (cases "\<exists>x accs s. block_terminator blk = Return (Some x) accs s")
      case True
      then obtain x accs s where x: "block_terminator blk = Return (Some x) accs s" by blast
      then have "operand_ok f types x" using t by (simp add: terminator_ok_def operands_ok_self)
      then show ?thesis by (auto simp: x returns_inside_def operand_ok_def place_ok_def split: MirOperandKind.splits)
    qed (auto simp: returns_inside_def split: Terminator.splits option.splits)
  qed
  then show ?thesis using function_ok_analyses [OF ok] f(2,3) by (simp add: lowered_def list_all_iff)
qed

text \<open>A pass that only inserts statements of some kind.\<close>

definition block_inserted :: "(MirStatement \<Rightarrow> bool) \<Rightarrow> BasicBlock \<Rightarrow> BasicBlock \<Rightarrow> bool" where
  "block_inserted P b b' \<longleftrightarrow> block_id b' = block_id b \<and> block_terminator b' = block_terminator b \<and>
     (\<forall>st \<in> set (block_statements b'). st \<in> set (block_statements b) \<or> P st)"

definition inserted :: "(MirStatement \<Rightarrow> bool) \<Rightarrow> MirFunction \<Rightarrow> MirFunction \<Rightarrow> bool" where
  "inserted P f f' \<longleftrightarrow> (\<exists>bs. f' = f\<lparr>mir_blocks := bs\<rparr> \<and> list_all2 (block_inserted P) (mir_blocks f) bs)"

definition is_whole_drop :: "MirStatement \<Rightarrow> bool" where
  "is_whole_drop st \<longleftrightarrow> (\<exists>l s. st = DropPlace (whole l) s)"

lemma block_inserted_refl: "block_inserted P b b"
  by (simp add: block_inserted_def)

lemma inserted_refl: "inserted P f f"
  unfolding inserted_def by (intro exI [of _ "mir_blocks f"]) (simp add: list_all2_refl block_inserted_refl)

lemma inserted_simps:
  assumes "inserted P f f'"
  shows "mir_locals f' = mir_locals f" "length (mir_blocks f') = length (mir_blocks f)"
    "b < length (mir_blocks f) \<Longrightarrow> block_inserted P (mir_blocks f ! b) (mir_blocks f' ! b)"
  using assms by (auto simp: inserted_def list_all2_conv_all_nth)

lemma inserted_events:
  assumes "inserted P f f'" "ev \<in> all_events f'"
  shows "ev \<in> all_events f \<or> (\<exists>st. ev = Ran st \<and> P st)"
proof -
  obtain blk where blk: "blk \<in> set (mir_blocks f')" "ev \<in> set (block_events blk)" using assms(2) by (auto simp: all_events_def)
  then obtain b where b: "b < length (mir_blocks f')" "ev \<in> set (block_events (mir_blocks f' ! b))" by (metis in_set_conv_nth)
  then have b': "b < length (mir_blocks f)" using inserted_simps(2) [OF assms(1)] by simp
  have "ev \<in> set (block_events (mir_blocks f ! b)) \<or> (\<exists>st. ev = Ran st \<and> P st)"
    using b(2) inserted_simps(3) [OF assms(1) b'] by (auto simp: block_inserted_def block_events_def)
  then show ?thesis using nth_mem [OF b'] by (auto simp: all_events_def)
qed

lemma inserted_graph:
  assumes "inserted P f f'"
  shows "cfg_ok f \<Longrightarrow> cfg_ok f'" "ids_ok f \<Longrightarrow> ids_ok f'"
    "list_all (returns_inside f) (mir_blocks f) \<Longrightarrow> list_all (returns_inside f') (mir_blocks f')"
    "list_all (returns_local f) (mir_blocks f) \<Longrightarrow> list_all (returns_local f') (mir_blocks f')"
proof -
  note i = inserted_simps [OF assms, unfolded block_inserted_def]
  have "map block_id (mir_blocks f') = map block_id (mir_blocks f)" using i by (intro nth_equalityI) simp_all
  then show "ids_ok f \<Longrightarrow> ids_ok f'" using i(2) by (simp add: ids_ok_def)
  show "cfg_ok f \<Longrightarrow> cfg_ok f'" using i by (auto simp: cfg_ok_def list_all_length)
  have "returns_inside f' (mir_blocks f' ! b) = returns_inside f (mir_blocks f ! b)"
    "returns_local f' (mir_blocks f' ! b) = returns_local f (mir_blocks f ! b)" if "b < length (mir_blocks f)" for b
  proof -
    have t: "block_terminator (mir_blocks f' ! b) = block_terminator (mir_blocks f ! b)" using i(3) that by blast
    show "returns_inside f' (mir_blocks f' ! b) = returns_inside f (mir_blocks f ! b)" unfolding returns_inside_def i(1) t ..
    show "returns_local f' (mir_blocks f' ! b) = returns_local f (mir_blocks f ! b)" unfolding returns_local_def i(1) t ..
  qed
  then show "list_all (returns_inside f) (mir_blocks f) \<Longrightarrow> list_all (returns_inside f') (mir_blocks f')"
    "list_all (returns_local f) (mir_blocks f) \<Longrightarrow> list_all (returns_local f') (mir_blocks f')"
    using i(2) by (simp_all add: list_all_length)
qed

lemma cleanup_harmless: "is_cleanup st \<Longrightarrow> event_locals (Ran st) = {}" "is_cleanup st \<Longrightarrow> loan_gains (Ran st) = {}"
    "is_cleanup st \<Longrightarrow> move_accesses (Ran st) = []"
  by (cases st; simp add: is_cleanup_def event_locals_def event_accesses_def loan_gains_def move_accesses_def)+

lemma loans_of_gains: "loans_of f = (\<Union>ev \<in> all_events f. loan_gains ev)"
  by (force simp: loans_of_def loan_gains_def split: MirEvent.splits MirStatement.splits)

lemma inserted_loans:
  assumes i: "inserted P f f'" and P: "\<And>st. P st \<Longrightarrow> is_cleanup st \<or> is_whole_drop st" and f: "one_loan_each f"
  shows "one_loan_each f'"
proof -
  have none: "loan_gains (Ran st) = {}" if "P st" for st
    using P [OF that] by (cases st) (auto simp: is_whole_drop_def loan_gains_def is_cleanup_def)
  have "ev \<in> all_events f \<or> loan_gains ev = {}" if "ev \<in> all_events f'" for ev
    using inserted_events [OF i that] none by blast
  then have "loans_of f' \<subseteq> loans_of f" unfolding loans_of_gains by fastforce
  then show ?thesis using f unfolding one_loan_each_def by blast
qed

lemma inserted_cleanup_lowered:
  assumes "inserted is_cleanup f f'" "lowered f"
  shows "lowered f'"
proof -
  have "locals_ok f'" unfolding locals_ok_def
  proof (intro ballI)
    fix blk ev l
    assume a: "blk \<in> set (mir_blocks f')" "ev \<in> set (block_events blk)" "l \<in> event_locals ev"
    then have "ev \<in> all_events f'" by (auto simp: all_events_def)
    then have "ev \<in> all_events f" using inserted_events [OF assms(1)] cleanup_harmless(1) a(3) by blast
    then show "l < length (mir_locals f')" using locals_okD [of f ev] assms a(3) inserted_simps(1) [OF assms(1)] by (auto simp: lowered_def)
  qed
  then show ?thesis using assms inserted_graph [OF assms(1)] inserted_loans [OF assms(1)] by (simp add: lowered_def)
qed

text \<open>Region cleanup and lifetimes.\<close>

lemma inserted_map:
  assumes "\<And>b. b < length (mir_blocks f) \<Longrightarrow> block_inserted P (mir_blocks f ! b) (h b)"
  shows "inserted P f (f\<lparr>mir_blocks := map h [0..<length (mir_blocks f)]\<rparr>)"
  unfolding inserted_def using assms by (intro exI [of _ "map h [0..<length (mir_blocks f)]"]) (simp add: list_all2_conv_all_nth)

lemma cleaned_inserted: "block_inserted is_cleanup (mir_blocks f ! b) (cleaned inputs f b)"
  unfolding cleaned_def Let_def
  by (auto simp: block_inserted_def region_exits_def is_cleanup_def split: Terminator.split option.split)

lemma cleanup_inserted:
  assumes "cfg_ok f" "ids_ok f"
  shows "\<exists>f'. elaborate_function_region_cleanup f = Some f' \<and> inserted is_cleanup f f'"
proof -
  obtain inputs x where r: "analyse merge_union cleanup_event f {} () = Some (inputs, x)" "cleanup.solved f inputs x"
    using cleanup.analyse_solved [OF assms(1)] by blast
  have "elaborate_function_region_cleanup f = Some (f\<lparr>mir_blocks := map (cleaned inputs f) [0..<length (mir_blocks f)]\<rparr>)"
    using assms(1) r(1) cleanup_blocks [OF assms(2) cleanup.solved_simps(2) [OF r(2)]]
    by (simp add: elaborate_function_region_cleanup_def cfg_ok_def)
  then show ?thesis using inserted_map [of f is_cleanup "cleaned inputs f", OF cleaned_inserted] by blast
qed

lemma with_ends_inserted: "block_inserted is_cleanup (mir_blocks f ! b) (with_ends f b)"
  by (auto simp: block_inserted_def with_ends_def Let_def is_cleanup_def)

lemma lifetimes_inserted:
  assumes "cfg_ok f" "ids_ok f"
  shows "\<exists>f'. infer_function_lifetimes f = Some f' \<and> inserted is_cleanup f f'"
  using lifetimes_inferred [OF assms] inserted_map [of f is_cleanup "with_ends f", OF with_ends_inserted] by blast

text \<open>Drops.\<close>

lemma elaborate_statements_inserted:
  "elaborate_statements f types sts s = Some (out, s') \<Longrightarrow>
    (\<forall>st \<in> set out. st \<in> set sts \<or> is_whole_drop st) \<and> filter (\<lambda>st. \<not> is_drop st) out = filter (\<lambda>st. \<not> is_drop st) sts"
proof (induction sts arbitrary: s out)
  case (Cons st sts)
  from Cons.prems obtain ds out' where ds: "drops_before f types st s = Some ds"
    and r: "elaborate_statements f types sts (transfer_drop_statement st (foldl (\<lambda>s d. transfer_drop_statement d s) s ds)) = Some (out', s')"
    and out: "out = ds @ st # out'" by (auto split: bind_splits)
  have "(\<forall>d \<in> set ds. is_whole_drop d) \<and> filter (\<lambda>st. \<not> is_drop st) ds = []"
    using ds by (cases rule: drops_before_cases) (auto simp: is_whole_drop_def is_drop_def)
  then show ?case using Cons.IH [OF r] out by auto
qed simp

lemma return_drops_whole: "return_drops types sp is s = Some ds \<Longrightarrow> \<forall>d \<in> set ds. is_whole_drop d"
proof (induction "is" arbitrary: s ds)
  case (Cons i "is")
  then show ?case by (auto simp: is_whole_drop_def split: bind_splits if_splits) blast+
qed simp

definition drops_inserted :: "BasicBlock \<Rightarrow> BasicBlock \<Rightarrow> bool" where
  "drops_inserted b b' \<longleftrightarrow> block_inserted is_whole_drop b b' \<and>
     filter (\<lambda>st. \<not> is_drop st) (block_statements b') = filter (\<lambda>st. \<not> is_drop st) (block_statements b)"

lemma whole_drop_is_drop: "is_whole_drop st \<Longrightarrow> is_drop st"
  by (auto simp: is_whole_drop_def is_drop_def)

lemma elaborate_block_inserted:
  assumes "elaborate_block f types inputs b = Some b'"
  shows "drops_inserted b b'"
proof (cases "get inputs (block_id b)")
  case (Some i)
  show ?thesis
  proof (cases i)
    case None
    then show ?thesis using assms Some by (simp add: elaborate_block_def drops_inserted_def block_inserted_refl)
  next
    case (Some s)
    then obtain out s' where o: "elaborate_statements f types (block_statements b) s = Some (out, s')"
      using assms \<open>get inputs (block_id b) = Some i\<close> by (auto simp: elaborate_block_def split: bind_splits)
    note ins = elaborate_statements_inserted [OF o]
    show ?thesis
    proof (cases "block_terminator b")
      case (Return v accs sp)
      then obtain ds where ds: "return_drops types sp (rev (mir_locals f)) s' = Some ds" "b' = b\<lparr>block_statements := out @ ds\<rparr>"
        using assms \<open>get inputs (block_id b) = Some i\<close> Some o by (auto simp: elaborate_block_def)
      have "filter (\<lambda>st. \<not> is_drop st) ds = []" using return_drops_whole [OF ds(1)] whole_drop_is_drop by (auto simp: filter_empty_conv)
      then show ?thesis using ins return_drops_whole [OF ds(1)] by (auto simp: ds(2) drops_inserted_def block_inserted_def)
    qed (use assms \<open>get inputs (block_id b) = Some i\<close> Some o ins in \<open>auto simp: elaborate_block_def drops_inserted_def block_inserted_def\<close>)
  qed
qed (use assms in \<open>simp add: elaborate_block_def\<close>)

lemma elaborated_drops:
  assumes g: "cfg_ok f" and i: "ids_ok f" and t: "interner_ok types"
  shows "\<exists>bs. elaborate_function_drops f types = Some (f\<lparr>mir_blocks := bs\<rparr>) \<and> list_all2 drops_inserted (mir_blocks f) bs"
proof (cases "has_drops f")
  case True
  then show ?thesis
    by (intro exI [of _ "mir_blocks f"]) (simp add: elaborate_function_drops_def list_all2_refl drops_inserted_def block_inserted_refl)
next
  case False
  then have w: "cfg_ok f \<and> \<not> has_drops f" using g by simp
  obtain inputs x where r: "analyse merge_drops drop_event f (parameters_of f, {}) () = Some (inputs, x)" "drops.solved f inputs x"
    using drops.analyse_solved [OF w] by blast
  let ?bs = "map (\<lambda>blk. the (elaborate_block f types inputs blk)) (mir_blocks f)"
  have one: "elaborate_block f types inputs blk = Some (the (elaborate_block f types inputs blk))" if "blk \<in> set (mir_blocks f)" for blk
    using that elaborate_block_returns [OF t i drops.solved_simps(2) [OF r(2)]] by (auto simp: in_set_conv_nth)
  have "map_blocks (elaborate_block f types inputs) (mir_blocks f) = Some ?bs" by (rule map_blocks_total) (rule one)
  then have "elaborate_function_drops f types = Some (f\<lparr>mir_blocks := ?bs\<rparr>)"
    using False g r(1) by (simp add: elaborate_function_drops_def cfg_ok_def)
  moreover have "list_all2 drops_inserted (mir_blocks f) ?bs"
    using elaborate_block_inserted [OF one] by (simp add: list_all2_conv_all_nth)
  ultimately show ?thesis by blast
qed

lemma drops_inserted_inserted:
  assumes "list_all2 drops_inserted (mir_blocks f) bs"
  shows "inserted is_whole_drop f (f\<lparr>mir_blocks := bs\<rparr>)"
  unfolding inserted_def using assms by (intro exI [of _ bs]) (auto elim: list_all2_mono simp: drops_inserted_def)

subsection \<open>Returns\<close>

definition with_return_events :: "TypeStore \<Rightarrow> MirFunction \<Rightarrow> MirOperand \<Rightarrow> PlaceAccess list \<Rightarrow> Span \<Rightarrow> bool \<Rightarrow> MirEvent set" where
  "with_return_events types f x accs s m =
     Ran ` set (evaluate_return types x (length (mir_locals f)) accs s) \<union> {Ended (returned_place (operand_ty x) (length (mir_locals f)) m s)}"

lemma with_return_all:
  assumes i: "i < length (mir_blocks f)" and ev: "ev \<in> all_events (with_return types f i x accs s own m)"
  shows "ev \<in> all_events f \<or> ev \<in> with_return_events types f x accs s m"
proof -
  let ?f = "with_return types f i x accs s own m"
  obtain blk where "blk \<in> set (mir_blocks ?f)" "ev \<in> set (block_events blk)" using ev by (auto simp: all_events_def)
  then obtain b where b: "b < length (mir_blocks ?f)" "ev \<in> set (block_events (mir_blocks ?f ! b))" by (metis in_set_conv_nth)
  have len: "length (mir_blocks ?f) = length (mir_blocks f)" by (simp add: with_return_def Let_def)
  have "ev \<in> set (block_events (mir_blocks f ! b)) \<or> ev \<in> with_return_events types f x accs s m"
  proof (cases "b = i")
    case True
    then show ?thesis using b(2) i
      by (auto simp: with_return_def Let_def block_events_def with_return_events_def dest: in_set_takeD in_set_dropD)
  qed (use b(2) in \<open>simp add: with_return_def Let_def\<close>)
  then show ?thesis using b(1) len nth_mem [of b "mir_blocks f"] by (auto simp: all_events_def)
qed

text \<open>The new events, with what the analyses ask of them.\<close>

lemma with_return_new:
  assumes ev: "ev \<in> with_return_events types f x accs s m"
    and old: "Ended (Return (Some x) accs s) \<in> all_events f" and l: "locals_ok f" and r: "\<forall>p. operand_kind x = MPlace p \<longrightarrow> place_local p < length (mir_locals f)"
  shows "event_locals ev \<subseteq> {..length (mir_locals f)}" "loan_gains ev \<subseteq> {y. holder y = length (mir_locals f)}"
proof -
  have a: "place_local (access_place a) \<le> length (mir_locals f)" if "a \<in> set accs" for a
  proof -
    have "place_local (access_place a) \<in> event_locals (Ended (Return (Some x) accs s))"
      using that by (auto simp: event_locals_def event_accesses_def terminator_accesses_def)
    then show ?thesis using locals_okD [OF l old] by fastforce
  qed
  consider "ev = Ran (StorageLive (length (mir_locals f)) s)"
    | p k where "ev = Ran (Borrow (length (mir_locals f)) p k False s)" "operand_kind x = MPlace p"
    | "ev = Ran (Assign (whole (length (mir_locals f))) [] (Some x) accs s)"
    | "ev = Ended (returned_place (operand_ty x) (length (mir_locals f)) m s)"
    using ev by (auto simp: with_return_events_def evaluate_return_def split: option.splits type_kind.splits Capability.splits MirOperandKind.splits)
  then have "event_locals ev \<subseteq> {..length (mir_locals f)} \<and> loan_gains ev \<subseteq> {y. holder y = length (mir_locals f)}"
  proof cases
    case 2
    then show ?thesis using r by (auto simp: event_locals_def event_accesses_def access_to_def loan_gains_def)
  qed (use a in \<open>auto simp: event_locals_def event_accesses_def loan_gains_def returned_place_def terminator_accesses_def\<close>)
  then show "event_locals ev \<subseteq> {..length (mir_locals f)}" "loan_gains ev \<subseteq> {y. holder y = length (mir_locals f)}" by blast+
qed

lemma with_return_loans:
  assumes "a \<in> loan_gains e" "e \<in> with_return_events types f x accs s m" "b \<in> loan_gains e'" "e' \<in> with_return_events types f x accs s m"
  shows "a = b"
  using assms by (auto simp: with_return_events_def evaluate_return_def loan_gains_def
    split: option.splits type_kind.splits Capability.splits MirOperandKind.splits)

lemma with_return_lowered:
  assumes f: "lowered f" and i: "i < length (mir_blocks f)" and x: "block_terminator (mir_blocks f ! i) = Return (Some x) accs s"
  shows "lowered (with_return types f i x accs s own m)"
proof -
  let ?f = "with_return types f i x accs s own m"
  let ?n = "length (mir_locals f)"
  note f = f [unfolded lowered_def]
  have len: "length (mir_blocks ?f) = length (mir_blocks f)" "length (mir_locals ?f) = Suc ?n" by (simp_all add: with_return_def Let_def)
  have blk: "block_id (mir_blocks ?f ! b) = block_id (mir_blocks f ! b)"
      "block_terminator (mir_blocks ?f ! b) = (if b = i then returned_place (operand_ty x) ?n m s else block_terminator (mir_blocks f ! b))"
    if "b < length (mir_blocks f)" for b
    using that i by (auto simp: with_return_def Let_def nth_list_update)
  have old: "Ended (Return (Some x) accs s) \<in> all_events f"
  proof -
    have "Ended (Return (Some x) accs s) \<in> set (block_events (mir_blocks f ! i))" by (simp add: block_events_def x)
    then show ?thesis using nth_mem [OF i] by (auto simp: all_events_def)
  qed
  have r: "\<forall>p. operand_kind x = MPlace p \<longrightarrow> place_local p < ?n"
  proof -
    have "returns_inside f (mir_blocks f ! i)" using f i by (simp add: list_all_length)
    then show ?thesis by (auto simp: returns_inside_def x)
  qed
  have l: "locals_ok f" using f by simp
  note new = with_return_new [OF _ old l r]
  have event: "ev \<in> all_events f \<or> ev \<in> with_return_events types f x accs s m" if "ev \<in> all_events ?f" for ev
    by (rule with_return_all [OF i that])
  have cfg: "cfg_ok ?f"
    using f blk(2) len unfolding cfg_ok_def list_all_length by (auto simp: returned_place_def successors_def)
  have "map block_id (mir_blocks ?f) = map block_id (mir_blocks f)" using len blk(1) by (intro nth_equalityI) simp_all
  then have ids: "ids_ok ?f" using f len by (simp add: ids_ok_def)
  have loc: "event_locals ev \<subseteq> {..<Suc ?n}" if "ev \<in> all_events ?f" for ev
    using event [OF that] locals_okD [OF l] new(1) by (fastforce simp: lessThan_Suc_atMost)
  then have "locals_ok ?f" unfolding locals_ok_def len by (auto simp: all_events_def)
  moreover have "one_loan_each ?f" unfolding one_loan_each_def loans_of_gains
  proof (intro ballI impI)
    have small: "holder a < ?n" if "a \<in> loan_gains e" "e \<in> all_events f" for a e
    proof -
      have "holder a \<in> event_locals e" using that(1)
        by (auto simp: loan_gains_def event_locals_def event_accesses_def split: MirEvent.splits MirStatement.splits)
      then show ?thesis using locals_okD [OF l that(2)] by blast
    qed
    fix a b
    assume a: "a \<in> \<Union> (loan_gains ` all_events ?f)" and b: "b \<in> \<Union> (loan_gains ` all_events ?f)" and h: "holder a = holder b"
    obtain e e' where e: "a \<in> loan_gains e" "e \<in> all_events ?f" "b \<in> loan_gains e'" "e' \<in> all_events ?f" using a b by blast
    consider "e \<in> all_events f" "e' \<in> all_events f"
      | "e \<in> with_return_events types f x accs s m" "e' \<in> with_return_events types f x accs s m"
      | "e \<in> all_events f" "e' \<in> with_return_events types f x accs s m"
      | "e \<in> with_return_events types f x accs s m" "e' \<in> all_events f" using event e(2,4) by blast
    then show "a = b"
    proof cases
      case 1
      then show ?thesis using f e(1,3) h unfolding one_loan_each_def loans_of_gains by blast
    next
      case 2
      then show ?thesis using with_return_loans e(1,3) by blast
    next
      case 3
      then show ?thesis using small [OF e(1) 3(1)] new(2) [OF 3(2)] e(3) h by auto
    next
      case 4
      then show ?thesis using small [OF e(3) 4(2)] new(2) [OF 4(1)] e(1) h by auto
    qed
  qed
  moreover have "list_all (returns_inside ?f) (mir_blocks ?f)" unfolding list_all_length
  proof (intro allI impI)
    fix b
    assume b: "b < length (mir_blocks ?f)"
    show "returns_inside ?f (mir_blocks ?f ! b)"
    proof (cases "b = i")
      case True
      then show ?thesis using blk(2) i len(2) by (simp add: returns_inside_def returned_place_def)
    next
      case False
      then have "returns_inside f (mir_blocks f ! b)" using f b len by (simp add: list_all_length)
      then show ?thesis using blk(2) [of b] b len False
        by (auto simp: returns_inside_def split: Terminator.splits option.splits MirOperandKind.splits)
    qed
  qed
  ultimately show ?thesis using cfg ids by (simp add: lowered_def)
qed

lemma materialize_lowered:
  "materialize_from types f is = Some f' \<Longrightarrow> lowered f \<Longrightarrow> lowered f'"
proof (induction "is" arbitrary: f)
  case (Cons i "is")
  then obtain f1 where f1: "materialize_block types f i = Some f1" "materialize_from types f1 is = Some f'" by (auto split: bind_splits)
  have "lowered f1"
  proof (cases "f1 = f")
    case False
    then obtain x accs s own m where "i < length (mir_blocks f)" "block_terminator (mir_blocks f ! i) = Return (Some x) accs s"
      "f1 = with_return types f i x accs s own m"
      using f1(1) by (auto simp: materialize_block_def get_eq_Some split: bind_splits Terminator.splits option.splits if_splits)
    then show ?thesis using with_return_lowered [OF Cons.prems(2)] by simp
  qed (use Cons.prems(2) in simp)
  then show ?case using Cons.IH f1(2) by blast
qed simp

subsection \<open>Paths across the passes\<close>

text \<open>If two functions differ in events of a kind \<open>N\<close> only, so do their paths.\<close>

definition same_but :: "(MirEvent \<Rightarrow> bool) \<Rightarrow> MirFunction \<Rightarrow> MirFunction \<Rightarrow> bool" where
  "same_but N f f' \<longleftrightarrow> (\<forall>b < length (mir_blocks f). succs_of f' b = succs_of f b \<and>
     filter (\<lambda>ev. \<not> N ev) (events_of f' b) = filter (\<lambda>ev. \<not> N ev) (events_of f b))"

lemma filter_append_split:
  "filter P xs = ys @ zs \<Longrightarrow> \<exists>us vs. xs = us @ vs \<and> filter P us = ys \<and> filter P vs = zs"
proof (induction xs arbitrary: ys)
  case (Cons x xs)
  show ?case
  proof (cases "P x \<and> ys \<noteq> []")
    case True
    then obtain ys' where ys': "ys = x # ys'" "filter P xs = ys' @ zs" using Cons.prems by (cases ys) auto
    from Cons.IH [OF ys'(2)] obtain us vs where "xs = us @ vs" "filter P us = ys'" "filter P vs = zs" by blast
    then show ?thesis using True ys'(1) by (intro exI [of _ "x # us"] exI [of _ vs]) simp
  next
    case False
    show ?thesis
    proof (cases "P x")
      case True
      then show ?thesis using False Cons.prems by (intro exI [of _ "[]"] exI [of _ "x # xs"]) simp
    next
      case False
      then have "filter P xs = ys @ zs" using Cons.prems by simp
      from Cons.IH [OF this] obtain us vs where "xs = us @ vs" "filter P us = ys" "filter P vs = zs" by blast
      then show ?thesis using False by (intro exI [of _ "x # us"] exI [of _ vs]) simp
    qed
  qed
qed simp

lemma same_but_trace:
  assumes s: "same_but N f f'" and g: "cfg_ok f"
  shows "trace_to f' b tr' \<Longrightarrow> \<exists>tr. trace_to f b tr \<and> filter (\<lambda>ev. \<not> N ev) tr = filter (\<lambda>ev. \<not> N ev) tr'"
proof (induction rule: trace_to.induct)
  case entry
  then show ?case using trace_to.entry by blast
next
  case (step b tr' t)
  then obtain tr where tr: "trace_to f b tr" "filter (\<lambda>ev. \<not> N ev) tr = filter (\<lambda>ev. \<not> N ev) tr'" by blast
  note e = s [unfolded same_but_def, rule_format, OF trace_to_bound [OF g tr(1)]]
  then have "trace_to f t (tr @ events_of f b)" using trace_to.step [OF tr(1)] step.hyps(2) by simp
  then show ?case using e tr(2) by (intro exI [of _ "tr @ events_of f b"]) simp
qed

lemma same_but_event:
  assumes s: "same_but N f f'" and g: "cfg_ok f" and at: "at_event f' tr' ev" and n: "\<not> N ev"
  shows "\<exists>tr. at_event f tr ev \<and> filter (\<lambda>ev. \<not> N ev) tr = filter (\<lambda>ev. \<not> N ev) tr'"
proof -
  obtain b t' pre' post' where a: "trace_to f' b t'" "events_of f' b = pre' @ ev # post'" "tr' = t' @ pre'"
    using at unfolding at_event_def by blast
  obtain t where t: "trace_to f b t" "filter (\<lambda>ev. \<not> N ev) t = filter (\<lambda>ev. \<not> N ev) t'" using same_but_trace [OF s g a(1)] by blast
  have "filter (\<lambda>ev. \<not> N ev) (events_of f b) = filter (\<lambda>ev. \<not> N ev) pre' @ ev # filter (\<lambda>ev. \<not> N ev) post'"
    using s [unfolded same_but_def, rule_format, OF trace_to_bound [OF g t(1)]] a(2) n by simp
  from filter_append_split [OF this] obtain us vs where uv: "events_of f b = us @ vs" "filter (\<lambda>ev. \<not> N ev) us = filter (\<lambda>ev. \<not> N ev) pre'"
    "filter (\<lambda>ev. \<not> N ev) vs = ev # filter (\<lambda>ev. \<not> N ev) post'" by blast
  from filter_eq_ConsD [OF uv(3)] obtain ws zs where "vs = ws @ ev # zs" "\<forall>w \<in> set ws. N w" by auto
  then have "events_of f b = (us @ ws) @ ev # zs" "filter (\<lambda>ev. \<not> N ev) (us @ ws) = filter (\<lambda>ev. \<not> N ev) pre'"
    using uv(1,2) by simp_all
  moreover from this have "at_event f (t @ us @ ws) ev" unfolding at_event_def using t(1)
    by (intro exI [of _ b] exI [of _ t] exI [of _ "us @ ws"] exI [of _ zs]) simp
  ultimately show ?thesis using t(2) unfolding a(3) by (intro exI [of _ "t @ us @ ws"]) simp
qed

lemma same_but_trans:
  "same_but N f g \<Longrightarrow> same_but N g h \<Longrightarrow> length (mir_blocks g) = length (mir_blocks f) \<Longrightarrow> same_but N f h"
  by (simp add: same_but_def)

lemma filter_foldl:
  assumes "\<And>ev s. N ev \<Longrightarrow> u ev s = s"
  shows "foldl (\<lambda>s ev. u ev s) s (filter (\<lambda>ev. \<not> N ev) evs) = foldl (\<lambda>s ev. u ev s) s evs"
  by (induction evs arbitrary: s) (auto simp: assms)

text \<open>Drops change no loans; drops and storage ends open and close no regions.\<close>

definition drop_ran :: "MirEvent \<Rightarrow> bool" where
  "drop_ran ev \<longleftrightarrow> (\<exists>p s. ev = Ran (DropPlace p s))"

definition storage_ran :: "MirEvent \<Rightarrow> bool" where
  "storage_ran ev \<longleftrightarrow> drop_ran ev \<or> (\<exists>l s. ev = Ran (StorageDead l s))"

lemma held_filter: "held (filter (\<lambda>ev. \<not> drop_ran ev) tr) = held tr"
  unfolding held_def by (rule filter_foldl) (auto simp: drop_ran_def held_after_def)

lemma region_open_filter: "region_open (filter (\<lambda>ev. \<not> storage_ran ev) tr) r = region_open tr r"
proof -
  have open_fold: "region_open tr r \<longleftrightarrow> r \<in> foldl (\<lambda>s ev. (s - region_loses ev) \<union> region_gains ev) {} tr" for tr
    using in_force_foldl [of region_loses region_gains "{}" tr] by (simp add: region_open_def)
  have "foldl (\<lambda>s ev. (s - region_loses ev) \<union> region_gains ev) {} (filter (\<lambda>ev. \<not> storage_ran ev) tr) =
      foldl (\<lambda>s ev. (s - region_loses ev) \<union> region_gains ev) {} tr"
    by (rule filter_foldl [of storage_ran "\<lambda>ev s. (s - region_loses ev) \<union> region_gains ev"])
      (auto simp: storage_ran_def drop_ran_def region_loses_def region_gains_def)
  then show ?thesis by (simp add: open_fold)
qed

lemma filter_storage: "filter (\<lambda>ev. \<not> storage_ran ev) (filter (\<lambda>ev. \<not> drop_ran ev) evs) = filter (\<lambda>ev. \<not> storage_ran ev) evs"
  by (induction evs) (auto simp: storage_ran_def)

lemma drops_same:
  assumes "list_all2 drops_inserted (mir_blocks f) bs"
  shows "same_but drop_ran f (f\<lparr>mir_blocks := bs\<rparr>)" "same_but storage_ran f (f\<lparr>mir_blocks := bs\<rparr>)"
proof -
  have ran: "filter (\<lambda>ev. \<not> drop_ran ev) (map Ran sts) = map Ran (filter (\<lambda>st. \<not> is_drop st) sts)" for sts
  proof -
    have "drop_ran (Ran st) = is_drop st" for st by (cases st) (auto simp: drop_ran_def is_drop_def)
    then show ?thesis by (simp add: filter_map comp_def)
  qed
  have "succs_of (f\<lparr>mir_blocks := bs\<rparr>) b = succs_of f b \<and>
      filter (\<lambda>ev. \<not> drop_ran ev) (events_of (f\<lparr>mir_blocks := bs\<rparr>) b) = filter (\<lambda>ev. \<not> drop_ran ev) (events_of f b)"
    if "b < length (mir_blocks f)" for b
  proof -
    have "drops_inserted (mir_blocks f ! b) (bs ! b)" using assms that by (simp add: list_all2_conv_all_nth)
    then show ?thesis
      by (simp add: drops_inserted_def block_inserted_def succs_of_def events_of_def block_events_def ran)
  qed
  then show d: "same_but drop_ran f (f\<lparr>mir_blocks := bs\<rparr>)" by (simp add: same_but_def)
  show "same_but storage_ran f (f\<lparr>mir_blocks := bs\<rparr>)" unfolding same_but_def
  proof (intro allI impI)
    fix b
    assume "b < length (mir_blocks f)"
    with d have "succs_of (f\<lparr>mir_blocks := bs\<rparr>) b = succs_of f b \<and>
      filter (\<lambda>ev. \<not> drop_ran ev) (events_of (f\<lparr>mir_blocks := bs\<rparr>) b) = filter (\<lambda>ev. \<not> drop_ran ev) (events_of f b)"
      unfolding same_but_def by blast
    then show "succs_of (f\<lparr>mir_blocks := bs\<rparr>) b = succs_of f b \<and>
      filter (\<lambda>ev. \<not> storage_ran ev) (events_of (f\<lparr>mir_blocks := bs\<rparr>) b) = filter (\<lambda>ev. \<not> storage_ran ev) (events_of f b)"
      by (metis filter_storage)
  qed
qed

lemma ends_same: "same_but storage_ran f (f\<lparr>mir_blocks := map (with_ends f) [0..<length (mir_blocks f)]\<rparr>)"
  unfolding same_but_def
proof (intro allI impI)
  fix b
  assume b: "b < length (mir_blocks f)"
  have "filter (\<lambda>ev. \<not> storage_ran ev) (map Ran (concat (map (\<lambda>i. sts ! i # map (\<lambda>l. StorageDead l (sp i)) (ls i)) is))) =
      filter (\<lambda>ev. \<not> storage_ran ev) (map Ran (map ((!) sts) is))" for sts sp ls "is"
    by (induction "is") (auto simp: storage_ran_def filter_empty_conv)
  note f = this [of "block_statements (mir_blocks f ! b)" _ _ "[0..<length (block_statements (mir_blocks f ! b))]", unfolded map_nth]
  show "succs_of (f\<lparr>mir_blocks := map (with_ends f) [0..<length (mir_blocks f)]\<rparr>) b = succs_of f b \<and>
    filter (\<lambda>ev. \<not> storage_ran ev) (events_of (f\<lparr>mir_blocks := map (with_ends f) [0..<length (mir_blocks f)]\<rparr>) b) =
    filter (\<lambda>ev. \<not> storage_ran ev) (events_of f b)"
    using b by (simp add: succs_of_def events_of_def block_events_def with_ends_def Let_def f)
qed

subsection \<open>Accepted modules\<close>

text \<open>
  The memory rules, on every path of a function: locals are initialised before they are read; nothing moved is
  accessed; no access conflicts with a loan; no storage ends and nothing returns while a loan of it is held; regions
  own what they own, and none is open at a return.
\<close>

definition memory_safe :: "TypeStore \<Rightarrow> MirFunction \<Rightarrow> bool" where
  "memory_safe types f \<longleftrightarrow>
     (\<forall>tr ev. at_event f tr ev \<longrightarrow>
        event_reads ev \<subseteq> {l. initialised f tr l} \<and> moves_safe f ev (moved_by f tr) \<and>
        lifetime_safe types f ev (held tr) \<and> region_safe f ev {r. region_open tr r}) \<and>
     (\<forall>b i tr. at_point f b i tr \<longrightarrow> borrow_safe types f (events_of f b ! i) (held_at f b i)) \<and>
     (\<forall>tr v accs s r. at_event f tr (Ended (Return v accs s)) \<longrightarrow> \<not> region_open tr r)"

definition lifetimes_safe :: "TypeStore \<Rightarrow> MirFunction \<Rightarrow> bool" where
  "lifetimes_safe types f \<longleftrightarrow> (\<forall>tr ev. at_event f tr ev \<longrightarrow> lifetime_safe types f ev (held tr))"

definition regions_closed :: "MirFunction \<Rightarrow> bool" where
  "regions_closed f \<longleftrightarrow> (\<forall>tr v accs s r. at_event f tr (Ended (Return v accs s)) \<longrightarrow> \<not> region_open tr r)"

lemma regions_closed_same:
  assumes "same_but storage_ran f f'" "cfg_ok f" "regions_closed f"
  shows "regions_closed f'"
  unfolding regions_closed_def
proof (intro allI impI)
  fix tr v accs s r
  assume "at_event f' tr (Ended (Return v accs s))"
  then obtain tr0 where "at_event f tr0 (Ended (Return v accs s))" "filter (\<lambda>ev. \<not> storage_ran ev) tr0 = filter (\<lambda>ev. \<not> storage_ran ev) tr"
    using same_but_event [OF assms(1,2)] by (auto simp: storage_ran_def drop_ran_def)
  then show "\<not> region_open tr r" using assms(3) region_open_filter unfolding regions_closed_def by metis
qed

lemma lifetimes_safe_same:
  assumes s: "same_but drop_ran f f'" and g: "cfg_ok f" and l: "mir_locals f' = mir_locals f" and safe: "lifetimes_safe types f"
  shows "lifetimes_safe types f'"
  unfolding lifetimes_safe_def
proof (intro allI impI)
  fix tr ev
  assume at: "at_event f' tr ev"
  show "lifetime_safe types f' ev (held tr)"
  proof (cases "drop_ran ev")
    case True
    then show ?thesis by (auto simp: drop_ran_def lifetime_safe_def)
  next
    case False
    obtain tr0 where tr0: "at_event f tr0 ev" "filter (\<lambda>ev. \<not> drop_ran ev) tr0 = filter (\<lambda>ev. \<not> drop_ran ev) tr"
      using same_but_event [OF s g at False] by blast
    then have "lifetime_safe types f ev (held tr)" using safe held_filter unfolding lifetimes_safe_def by metis
    then show ?thesis by (simp add: lifetime_safe_def l)
  qed
qed

lemma traverse:
  assumes "\<And>x. x \<in> set xs \<Longrightarrow> \<exists>y. g x = Some y \<and> P x y"
  shows "\<exists>ys. map_blocks g xs = Some ys \<and> list_all2 P xs ys"
  using assms
proof (induction xs)
  case (Cons x xs)
  obtain y where "g x = Some y" "P x y" using Cons.prems [of x] by auto
  moreover obtain ys where "map_blocks g xs = Some ys" "list_all2 P xs ys" using Cons by auto
  ultimately show ?case by auto
qed simp

lemma gather_exact:
  assumes "\<And>f. f \<in> set m \<Longrightarrow> \<exists>e. g f = Some e \<and> (e = [] \<longleftrightarrow> Q f)"
  shows "\<exists>es. gather g m = Some es \<and> (es = [] \<longleftrightarrow> (\<forall>f \<in> set m. Q f))"
proof -
  obtain ys where ys: "map_blocks g m = Some ys" "list_all2 (\<lambda>f e. e = [] \<longleftrightarrow> Q f) m ys"
    using traverse [of m g "\<lambda>f e. e = [] \<longleftrightarrow> Q f"] assms by blast
  from ys(2) have "concat ys = [] \<longleftrightarrow> (\<forall>f \<in> set m. Q f)" by (induction rule: list_all2_induct) auto
  then show ?thesis using ys(1) by (simp add: gather_def)
qed

lemma gather_sound:
  assumes "\<And>f. f \<in> set m \<Longrightarrow> \<exists>e. g f = Some e \<and> (e = [] \<longrightarrow> Q f)"
  shows "\<exists>es. gather g m = Some es \<and> (es = [] \<longrightarrow> (\<forall>f \<in> set m. Q f))"
proof -
  obtain ys where ys: "map_blocks g m = Some ys" "list_all2 (\<lambda>f e. e = [] \<longrightarrow> Q f) m ys"
    using traverse [of m g "\<lambda>f e. e = [] \<longrightarrow> Q f"] assms by blast
  from ys(2) have "concat ys = [] \<longrightarrow> (\<forall>f \<in> set m. Q f)" by (induction rule: list_all2_induct) auto
  then show ?thesis using ys(1) by (simp add: gather_def)
qed

text \<open>What each pass of the pipeline gives the next.\<close>

definition settled :: "MirFunction \<Rightarrow> bool" where
  "settled f \<longleftrightarrow> lowered f \<and> list_all (returns_local f) (mir_blocks f)"

lemma settled_inserted: "inserted is_cleanup f f' \<Longrightarrow> settled f \<Longrightarrow> settled f'"
  using inserted_cleanup_lowered inserted_graph(4) unfolding settled_def by blast

lemma materialize_stage:
  assumes "interner_ok types" "lowered f"
  shows "\<exists>f'. materialize_function_returns types f = Some f' \<and> settled f'"
proof -
  obtain f' where "materialize_function_returns types f = Some f'" "list_all (returns_local f') (mir_blocks f')"
    using returns_materialized [OF assms(1), of f] assms(2) by (auto simp: lowered_def)
  then show ?thesis using materialize_lowered [OF _ assms(2)] unfolding materialize_function_returns_def settled_def by blast
qed

lemma cleanup_stage:
  assumes "settled f"
  shows "\<exists>f'. elaborate_function_region_cleanup f = Some f' \<and> settled f' \<and> regions_closed f'"
proof -
  have ok: "cfg_ok f" "ids_ok f" using assms by (simp_all add: settled_def lowered_def)
  obtain f' where f': "elaborate_function_region_cleanup f = Some f'" "inserted is_cleanup f f'" using cleanup_inserted [OF ok] by blast
  then have "regions_closed f'" using cleanup_closes [OF ok] unfolding regions_closed_def by auto
  then show ?thesis using f' settled_inserted [OF f'(2) assms] by blast
qed

lemma lifetimes_stage:
  assumes "settled f" "regions_closed f"
  shows "\<exists>f'. infer_function_lifetimes f = Some f' \<and> settled f' \<and> regions_closed f'"
proof -
  have ok: "cfg_ok f" "ids_ok f" using assms(1) by (simp_all add: settled_def lowered_def)
  have "inserted is_cleanup f (f\<lparr>mir_blocks := map (with_ends f) [0..<length (mir_blocks f)]\<rparr>)"
    by (rule inserted_map) (rule with_ends_inserted)
  then show ?thesis
    using lifetimes_inferred [OF ok] settled_inserted [OF _ assms(1)] regions_closed_same [OF ends_same ok(1) assms(2)] by blast
qed

lemma materialize_nothing:
  assumes "interner_ok types" "\<And>f. f \<in> set m \<Longrightarrow> settled f"
  shows "materialize_returns m types = Some m"
  using assms(2)
proof (induction m)
  case (Cons f m)
  then show ?case using materialize_again [OF assms(1), of f] by (simp add: materialize_returns_def settled_def)
qed (simp add: materialize_returns_def)

definition ready :: "MirFunction \<Rightarrow> bool" where
  "ready f \<longleftrightarrow> cfg_ok f \<and> one_loan_each f \<and> regions_closed f"

lemma drops_stage:
  assumes "interner_ok types" "settled f" "regions_closed f"
  shows "\<exists>f'. elaborate_function_drops f types = Some f' \<and> ready f' \<and> (lifetimes_safe types f \<longrightarrow> lifetimes_safe types f')"
proof -
  have ok: "cfg_ok f" "ids_ok f" using assms(2) by (simp_all add: settled_def lowered_def)
  obtain bs where bs: "elaborate_function_drops f types = Some (f\<lparr>mir_blocks := bs\<rparr>)" "list_all2 drops_inserted (mir_blocks f) bs"
    using elaborated_drops [OF ok assms(1)] by blast
  note ins = drops_inserted_inserted [OF bs(2)]
  have "one_loan_each (f\<lparr>mir_blocks := bs\<rparr>)"
    using inserted_loans [OF ins] assms(2) by (simp add: settled_def lowered_def)
  then have "ready (f\<lparr>mir_blocks := bs\<rparr>)"
    using inserted_graph(1) [OF ins ok(1)] regions_closed_same [OF drops_same(2) [OF bs(2)] ok(1) assms(3)] by (simp add: ready_def)
  then show ?thesis using bs(1) lifetimes_safe_same [OF drops_same(1) [OF bs(2)] ok(1)] by auto
qed

lemma memory_errors_exact:
  assumes r: "\<And>f. f \<in> set m \<Longrightarrow> ready f" and v: "verify_mir m types = []"
  shows "\<exists>es. memory_errors m types lts = Some es \<and>
    (es = [] \<and> (lts = [] \<longrightarrow> list_all (lifetimes_safe types) m) \<longrightarrow> list_all (memory_safe types) m)"
proof -
  have ok: "cfg_ok f" "locals_ok f" "one_loan_each f" if "f \<in> set m" for f
  proof -
    have "function_ok types f" using v that by (simp add: verify_mir_def verify_function_nil list_all_iff)
    then show "locals_ok f" by (rule function_ok_analyses)
  qed (use r that in \<open>auto simp: ready_def\<close>)
  have "\<exists>e. analyze_initialization f = Some e \<and> (e = [] \<longleftrightarrow> (\<forall>tr ev. at_event f tr ev \<longrightarrow> event_reads ev \<subseteq> {l. initialised f tr l}))" if "f \<in> set m" for f
    using initialization_exact [OF ok(1) [OF that]] by (simp add: subset_iff)
  from gather_exact [of m analyze_initialization, OF this] obtain i where i: "analyze_definite_initialization m = Some i"
    "i = [] \<longleftrightarrow> (\<forall>f \<in> set m. \<forall>tr ev. at_event f tr ev \<longrightarrow> event_reads ev \<subseteq> {l. initialised f tr l})" unfolding analyze_definite_initialization_def by blast
  have "\<exists>e. analyze_function_moves f = Some e \<and> (e = [] \<longrightarrow> (\<forall>tr ev. at_event f tr ev \<longrightarrow> moves_safe f ev (moved_by f tr)))" if "f \<in> set m" for f
    by (rule moves_sound [OF ok(1) [OF that]])
  from gather_sound [of m analyze_function_moves, OF this] obtain mv where mv: "analyze_moves m = Some mv"
    "mv = [] \<longrightarrow> (\<forall>f \<in> set m. \<forall>tr ev. at_event f tr ev \<longrightarrow> moves_safe f ev (moved_by f tr))" unfolding analyze_moves_def by blast
  have "\<exists>e. analyze_function_borrows f types = Some e \<and> (e = [] \<longrightarrow> (\<forall>b i tr. at_point f b i tr \<longrightarrow> borrow_safe types f (events_of f b ! i) (held_at f b i)))" if "f \<in> set m" for f
    by (rule borrows_sound [OF ok(1,3) [OF that]])
  from gather_sound [of m "\<lambda>f. analyze_function_borrows f types", OF this] obtain b where b: "analyze_borrows m types = Some b"
    "b = [] \<longrightarrow> (\<forall>f \<in> set m. \<forall>b i tr. at_point f b i tr \<longrightarrow> borrow_safe types f (events_of f b ! i) (held_at f b i))" unfolding analyze_borrows_def by blast
  have "\<exists>e. analyze_function_regions f = Some e \<and> (e = [] \<longleftrightarrow> (\<forall>tr ev. at_event f tr ev \<longrightarrow> region_safe f ev {r. region_open tr r}))" if "f \<in> set m" for f
    by (rule region_accesses_exact [OF ok(1,2) [OF that]])
  from gather_exact [of m analyze_function_regions, OF this] obtain rg where rg: "analyze_regions m = Some rg"
    "rg = [] \<longleftrightarrow> (\<forall>f \<in> set m. \<forall>tr ev. at_event f tr ev \<longrightarrow> region_safe f ev {r. region_open tr r})" unfolding analyze_regions_def by blast
  have "memory_errors m types lts = Some (i @ mv @ b @ lts @ rg)" by (simp add: memory_errors_def i(1) mv(1) b(1) rg(1))
  moreover have "list_all (memory_safe types) m" if "i @ mv @ b @ lts @ rg = []" "lts = [] \<longrightarrow> list_all (lifetimes_safe types) m"
    unfolding list_all_iff
  proof
    fix f
    assume f: "f \<in> set m"
    have "lifetimes_safe types f" "regions_closed f" using that f r by (auto simp: list_all_iff ready_def)
    then show "memory_safe types f"
      using that(1) i(2) mv(2) b(2) rg(2) f by (simp add: memory_safe_def lifetimes_safe_def regions_closed_def)
  qed
  ultimately show ?thesis by blast
qed


definition sample_operand :: "TypeId \<Rightarrow> LocalId \<Rightarrow> MirOperand" where
  "sample_operand ty l = MirOperand ty (MPlace (whole l)) sample_span"

definition sample_lowered :: MirFunction where
  "sample_lowered = sample_function\<lparr>mir_blocks := [
     \<lparr>block_id = 0,
      block_statements = [RegionEnter 2 sample_span, Assign (whole 3) [] (Some (MirOperand 8 MUnit sample_span)) [] sample_span],
      block_terminator = Switch (Some (MirOperand 1 MUnit sample_span)) [] [1] 2 sample_span\<rparr>,
     \<lparr>block_id = 1,
      block_statements = [Borrow 4 (whole 0) BorrowRead True sample_span,
        Evaluate (Some (sample_operand 8 4)) [sample_access 4 AccRead] sample_span],
      block_terminator = Goto 3 sample_span\<rparr>,
     \<lparr>block_id = 2,
      block_statements = [Evaluate (Some (sample_operand 8 3)) [sample_access 3 AccRead] sample_span],
      block_terminator = Goto 3 sample_span\<rparr>,
     \<lparr>block_id = 3,
      block_statements = [Assign (whole 1) [] (Some (sample_operand 23 0)) [sample_access 0 AccMove] sample_span],
      block_terminator = Return (Some (sample_operand 23 1)) [sample_access 1 AccMove] sample_span\<rparr>]\<rparr>"

lemma sample_verified: "verify_mir [sample_lowered] type_store_new = []"
  by code_simp

lemma sample_lowered_loans: "one_loan_each sample_lowered"
proof -
  have "loans_of sample_lowered \<subseteq> {Loan 4 (whole 0) BorrowRead}"
    by (auto simp: loans_of_def all_events_def sample_lowered_def sample_defs block_events_def intro: Loan.expand)
  then show ?thesis unfolding one_loan_each_def by blast
qed


subsection \<open>Limits of the borrow checks\<close>

text \<open>
  A local that borrows from another borrow: the first ends after its last use, and its end is then reported as the end
  of the second one's source.
\<close>

definition sample_reborrow :: MirFunction where
  "sample_reborrow = sample_function\<lparr>mir_blocks := [
     \<lparr>block_id = 0,
      block_statements = [Borrow 4 (whole 0) BorrowRead False sample_span, Borrow 1 (whole 4) BorrowRead False sample_span,
        Evaluate None [sample_access 1 AccRead] sample_span],
      block_terminator = Return None [] sample_span\<rparr>]\<rparr>"

lemma reborrow_reported:
  "map_option (map error_code) (Option.bind (infer_function_lifetimes sample_reborrow)
     (\<lambda>f. analyze_function_lifetimes f type_store_new)) = Some [lit ''J0506'']"
  by code_simp

text \<open>A value is overwritten while a borrow of it is held and used afterwards.\<close>

definition sample_overwrite :: MirFunction where
  "sample_overwrite = sample_function\<lparr>mir_blocks := [
     \<lparr>block_id = 0,
      block_statements = [Borrow 4 (whole 0) BorrowRead False sample_span, Assign (whole 0) [] None [] sample_span,
        Evaluate None [sample_access 4 AccRead] sample_span],
      block_terminator = Return None [] sample_span\<rparr>]\<rparr>"

lemma overwrite_accepted: "analyze_function_borrows sample_overwrite type_store_new = Some []"
  by code_simp

text \<open>A writable borrow is used once.\<close>

definition sample_write_borrow :: MirFunction where
  "sample_write_borrow = sample_function\<lparr>mir_blocks := [
     \<lparr>block_id = 0,
      block_statements = [Borrow 4 (whole 0) BorrowWrite False sample_span, Evaluate None [sample_access 4 AccRead] sample_span],
      block_terminator = Return None [] sample_span\<rparr>]\<rparr>"

lemma write_borrow_reported:
  "map_option (map error_code) (analyze_function_borrows sample_write_borrow type_store_new) = Some [lit ''J0503'']"
  by code_simp

text \<open>
  A local holds a loan on one path, and is lent itself on another. Where the paths meet it is taken for the place that it
  has borrowed on the first, so that reading it while it is lent for writing is accepted.
\<close>

definition sample_other_path :: MirFunction where
  "sample_other_path = sample_function\<lparr>mir_blocks := [
     \<lparr>block_id = 0, block_statements = [], block_terminator = Switch None [] [1] 2 sample_span\<rparr>,
     \<lparr>block_id = 1,
      block_statements = [Borrow 4 (whole 0) BorrowRead False sample_span],
      block_terminator = Goto 3 sample_span\<rparr>,
     \<lparr>block_id = 2,
      block_statements = [Borrow 1 (whole 4) BorrowWrite False sample_span],
      block_terminator = Goto 3 sample_span\<rparr>,
     \<lparr>block_id = 3,
      block_statements = [Evaluate None [sample_access 4 AccRead] sample_span],
      block_terminator = Return None [] sample_span\<rparr>]\<rparr>"

lemma other_path_accepted: "analyze_function_borrows sample_other_path type_store_new = Some []"
  by code_simp

end
