(* ===== verification/Spec2Isabelle.thy ===== *)
theory Spec2Isabelle
  imports Syntax_Tree Formatter Resolver Migration Release Unification Parallel_Loops Jir_Passes Jir_Loops Mir_Pipeline
begin

text \<open>
  A verification library for the Jadren compiler, the Rust crates under \<open>src/crates\<close>: its front end, its package and
  release tooling, its type store, its task pools, the memory checks of its middle representation, and the first
  optimisation passes of its intermediate representation. Every theory opens with a note on what it holds; this one says how the parts fit together.

  \<^bold>\<open>The program.\<close> A session registers source files (\<open>jadren-source\<close>). The lexer turns a file into tokens and
  diagnostics (\<open>jadren-lexer\<close>, \<open>jadren-diagnostics\<close>), the parser describes syntax nodes by their spans, and the tree
  builder nests them over the tokens without losing a character (\<open>jadren-syntax\<close>); the formatter works on the same
  tokens (\<open>jadren-format\<close>). Type checking interns types and solves inference variables (\<open>jadren-types\<close>). The checked
  program is a typed tree (\<open>jadren-hir\<close>), which is lowered to control flow graphs on which initialisation, moves,
  borrows, lifetimes and regions are checked and cleanup is inserted (\<open>jadren-mir\<close>, in the order of \<open>jadren-driver\<close>),
  and further to the intermediate representation in SSA form, which is optimised and verified before code is
  generated (\<open>jadren-jir\<close>). Around this are the manifest, the lock file and the local resolver (\<open>jadren-package\<close>), the
  edition migration (\<open>jadren-migration\<close>), the bill of materials and provenance of a release (\<open>jadren-release\<close>), the
  hashes that make all of it reproducible (\<open>jadren-determinism\<close>), and the task graph with its worker pools
  (\<open>jadren-concurrency\<close>).

  \<^bold>\<open>Shared ground.\<close> \<open>Prelude\<close> has the result type of fallible code (\<open>Inl\<close> the error), the fact collections and generic
  lemmas, and the locale \<open>progress_loop\<close> for loops that consume a text. \<open>Rust_Text\<close> models \<open>str\<close> and \<open>char\<close>: a string is
  the list of its scalar values, every offset counts UTF-8 bytes, and a slice inside a character is \<open>None\<close> where Rust
  panics. \<open>BTree\<close> models \<open>BTreeMap\<close> and \<open>BTreeSet\<close> as association lists with ascending keys, with the laws its clients
  use as the locale \<open>ordered_map\<close>. \<open>State_Ops\<close> sequences methods on \<open>&mut self\<close> that return a \<open>Result\<close> and keep the
  state they leave also when they fail.

  \<^bold>\<open>Text and trees.\<close> \<open>Source\<close> models files, spans, line starts and slicing. \<open>Tokens\<close> has the token kinds, \<open>Lexer\<close> the
  \<open>lex_*\<close> routines as moves of a position, \<open>Lexing\<close> the main loop: it ends, never slices inside a character, its
  tokens cover the text without gaps, their kinds fit their spelling, and diagnostics point into the file.
  \<open>Syntax_Tree\<close> models the validation of tokens and nodes, the stack that nests nodes and the distribution of tokens:
  an accepted tree has the tokens as leaves and every description once, and descriptions that cross are rejected. The
  theorem below joins the two: lexing and building reconstruct the text. \<open>Formatter\<close> models every output primitive and
  token rule; what is not whitespace is kept. \<open>Diagnostics\<close> models the renderings as text and as JSON; the JSON is the
  print of a value and a reader takes it back.

  \<^bold>\<open>Tooling.\<close> \<open>Determinism\<close> models the FNV-1a hasher and the lexical normalisation of paths. \<open>Manifest\<close> models the
  parser of \<open>jadren.toml\<close>, its validators, the canonical printer and the lock file, with the round trip of print and
  parse. \<open>Resolver\<close> models the recursive local resolver over a file system given as a record of functions. \<open>Migration\<close>
  plans the rewriting of a draft manifest; \<open>Release\<close> reads \<open>Cargo.lock\<close> and prints the bill of materials.

  \<^bold>\<open>Types.\<close> \<open>Types\<close> models the type descriptions, the interner and the fingerprints, \<open>Type_Transform\<close> the import between
  stores and the substitution of generic parameters, \<open>Unification\<close> the inference table. A description is one level of
  a type over identities; the tree of an identity unfolds it, and the operations are proved to do on trees what they
  should: the interner is injective, import preserves trees, a successful unification makes two trees equal and
  commits to nothing that another unifier does not have.

  \<^bold>\<open>Tasks.\<close> \<open>Task_Graph\<close> models the builder, which orders conflicting tasks by edges, and Kahn's algorithm; \<open>Dispatch\<close>
  what the execution loops of both pools share, and the deterministic scheduler. \<open>Worker_Pool\<close> and \<open>Work_Stealing\<close> are
  step relations: any interleaving of the calling thread and the workers is a run, a job may panic. Runs are free of
  races, bounded, return (no deadlock and no lost wake-up), and give the result of the tasks. \<open>Parallel_Loops\<close> models
  \<open>parallel_for\<close>, \<open>parallel_reduce\<close> and the cancellation scope on top of the pool, in builds with and without overflow
  checks.

  \<^bold>\<open>The typed tree and the memory checks.\<close> \<open>Hir\<close> models the typed tree and the walker over its expressions. \<open>Mir\<close> has
  places, operands, statements, terminators and functions of \<open>jadren-mir\<close>, and what each statement uses and defines.
  \<open>Mir_Dataflow\<close> is the worklist solver that the analyses share, with the join of each: it returns, and its result is
  the least solution. \<open>Mir_Analysis\<close> runs an analysis over a function and relates it to the paths of the control flow
  graph: a locale for what every analysis promises, one for those whose states come from paths, and one for those that are
  exact, each interpreted on the analyses.
  \<open>Mir_Init\<close>, \<open>Mir_Moves\<close>, \<open>Mir_Loans\<close> (borrows and lifetimes) and \<open>Mir_Regions\<close> model the five analyses; a path is the
  sequence of statements and terminators it runs, and what an analysis has to accept is stated on paths only: a local
  is initialised, a place moved, a loan held, a region open after such a sequence. \<open>Mir_Verify\<close> models the structural
  verifier. Four passes change the function: \<open>Mir_Returns\<close> evaluates returned values into locals, \<open>Mir_Regions\<close> closes
  the regions at returns, \<open>Mir_Liveness\<close> ends borrows after their last use (local liveness, a fixed point over
  \<open>Fixpoint\<close>, is what the paths need), and \<open>Mir_Drops\<close> inserts drops that are never executed twice or on a value that is
  gone. \<open>Mir_Pipeline\<close> composes passes, verifier and analyses as the driver does: if nothing is reported, the module that
  is compiled further obeys on every path the rules that the analyses check. The hypotheses are that the verifier accepts
  the module as it was lowered, that every function has a block, and that the borrows of a local are all of one place and
  kind (lowering declares a local for each borrow). Two of the rules are weaker than one expects, as the code is: the
  destination of an assignment is not an access, so that it may be lent, and a local that holds a loan on some path to a
  point stands there for the place it borrowed, also on the paths on which it holds nothing.

  \<^bold>\<open>The intermediate representation.\<close> \<open>Jir\<close> has the data of \<open>lib.rs\<close> and the operands of instructions and terminators.
  Instructions are polymorphic in their operands, so that the traversals written out by hand in \<open>optimize.rs\<close> are
  shown to be the map and the set of the data type; instructions that the source distinguishes only by the kind of
  storage they drop, resize or remove from are grouped under one constructor each. \<open>Jir_Semantics\<close> gives a function
  in SSA form a meaning over an arbitrary interpretation of the instructions: a pure instruction has a value or
  none, another one changes a machine state or traps, a terminator takes an edge; \<open>preserves\<close> says that every run that
  returns is a run of the transformed function. \<open>Jir_Simulation\<close> is the simulation argument, a locale that
  each step instantiates. \<open>Jir_Simplify\<close> models \<open>simplify_cfg_and_dce\<close> with its four steps, \<open>Jir_Integer\<close> the
  arithmetic on masked 128-bit words with a reference on the integers, \<open>Jir_Fold\<close> the folding of constants,
  \<open>Jir_Bounds\<close> the removal of proven bounds checks; \<open>Jir_Passes\<close> states the results for modules, with an example that
  runs through both passes. \<open>Jir_Dominators\<close> models both computations of dominators, of \<open>optimize.rs\<close> and of
  \<open>verifier.rs\<close>, against paths in the graph, and \<open>Jir_Loops\<close> the discovery of natural loops.

  \<^bold>\<open>How loops are modelled.\<close> A loop that visibly ends is a recursion with a measure (the lexer's loops: the rest of the
  text; the search for reachable blocks: the blocks not yet seen; dead code: the number of instructions). A loop whose
  end depends on an invariant is a \<open>partial_function\<close> with an option as result, and it is proved that it returns:
  the hash, import and substitution of types on well-formed stores, unification on tables that have a solution, Kahn's
  algorithm, the iterations of dominators and of liveness, the worklist of the memory analyses. Two models count steps. The resolver has fuel, one unit for each nested
  package, and the number of package names on disk is enough (\<open>resolve_local_returns\<close>). A run of a function of the
  intermediate representation has fuel, one unit for each block entered; a program may run forever, the transformations
  are proved to need no more of it than the original. The pools are step relations and have no fuel: their runs are
  bounded by a measure.

  \<^bold>\<open>Numbers.\<close> Word types are kept where the code wraps or masks (fingerprints, constants of the intermediate
  representation, the parallel loops' index arithmetic); lengths and indices of collections in memory are natural
  numbers.

  \<^bold>\<open>Parameters.\<close> The file system and the platform's path operations (\<open>Resolver\<close>), the jobs of tasks and which of them
  panic (the pools), the meaning of instructions (\<open>Jir_Semantics\<close>), and the arithmetic on floating-point numbers
  (\<open>Jir_Fold\<close>). The hypotheses on an interpretation say what the instructions are specified to do: constants denote
  values, branches on constants go where they say, arithmetic that has a value has the reference one.

  \<^bold>\<open>Not modelled.\<close> The parser, name resolution, effects and the type checker; the lowering to the typed tree, its verifier and
  the lowering to control flow graphs, which read the tables of the former; the specialisation of generic functions;
  the rest of the driver (the compilation cache, modules and files); the lowering to the intermediate representation, its text form, its alias analysis, the checks of its verifier and the other passes (inlining, stack
  promotion, redundant checks and offsets, hoisting out of loops); code generation, the language server, the command
  line and the UI, GPU and runtime crates, which are mostly calls of foreign libraries. Left out of modelled crates are
  pure formatting for people (\<open>Display\<close> of errors, the debug dump of trees) and failures of thread creation.
\<close>

subsection \<open>From the text to the tree\<close>

lemma validate_tokens_tiles:
  assumes "tiles a (map token_range ts) e" "list_all (\<lambda>t. span_source (token_span t) = src) ts"
    and "e \<le> len" "case prev of None \<Rightarrow> True | Some p \<Rightarrow> span_end p \<le> a"
  shows "validate_tokens_from \<lparr>span_source = src, span_start = 0, span_end = len\<rparr> prev
           (ts @ [\<lparr>kind = Eof, token_span = span_empty src e\<rparr>]) = Ok ()"
  using assms
proof (induction ts arbitrary: a prev)
  case Nil
  then show ?case by (auto simp: span_empty_def Let_def split: option.splits)
next
  case (Cons t ts)
  then have t: "span_start (token_span t) = a" "tiles (span_end (token_span t)) (map token_range ts) e"
    "a \<le> span_end (token_span t)" "span_source (token_span t) = src"
    by (simp_all add: token_range_def [of t])
  with tiles_le [OF t(2)] Cons.prems(3) have "span_end (token_span t) \<le> len" by simp
  with Cons.IH [OF t(2), of "Some (token_span t)"] Cons.prems t show ?case
    by (auto simp: Let_def split: option.splits)
qed

lemma reconstruct_lexed:
  assumes "lex f = Some out" "leaves rt = tokens out"
  shows "reconstruct rt f = file_text f"
proof -
  obtain ts ds where ts: "lex f = Some \<lparr>tokens = ts @ [\<lparr>kind = Eof, token_span = span_empty (file_id f) (str_len (file_text f))\<rparr>],
                        diagnostics = ds\<rparr>"
    and tl: "tiles 0 (map token_range ts) (str_len (file_text f))"
    and fits: "list_all (token_fits (file_id f) (file_text f)) ts"
    using lex_result [of f] by blast
  note sl = lexed_slices [OF tl fits]
  have eq: "map (slice_or_empty f) ts = map (\<lambda>t. the (slice f (token_span t))) ts"
    using sl(1) by (auto simp: list_all_iff slice_or_empty_def)
  have body: "concat (map (slice_or_empty f) ts) = file_text f" unfolding eq by (rule sl(2))
  have "slice f (span_empty (file_id f) (str_len (file_text f))) = Some []"
    by (auto simp: slice_Some_iff span_empty_def intro: exI [of _ "file_text f"])
  with body ts assms show ?thesis
    by (simp add: reconstruct_def reconstruct_leaves slice_or_empty_def)
qed

text \<open>
  C2. Lexing and tree building together lose nothing: for every file the lexer's tokens, put in a flat tree,
  or in any tree the builder makes of them with the parser's node descriptions, reconstruct the text of
  the file; with no node descriptions the builder does succeed.
\<close>

theorem lex_build_reconstruct:
  "\<exists>out. lex f = Some out \<and>
     reconstruct (flat (file_id f) (str_len (file_text f)) (tokens out)) f = file_text f \<and>
     (\<exists>rt. build (file_id f) (str_len (file_text f)) (tokens out) [] = Some (Ok rt)) \<and>
     (case build (file_id f) (str_len (file_text f)) (tokens out) ns of
        None \<Rightarrow> False
      | Some (Inl e) \<Rightarrow> True
      | Some (Inr rt) \<Rightarrow> reconstruct rt f = file_text f)"
proof -
  obtain ts ds where ts: "lex f = Some \<lparr>tokens = ts @ [\<lparr>kind = Eof, token_span = span_empty (file_id f) (str_len (file_text f))\<rparr>],
                        diagnostics = ds\<rparr>" (is "_ = Some ?out")
    and tl: "tiles 0 (map token_range ts) (str_len (file_text f))"
    and fits: "list_all (token_fits (file_id f) (file_text f)) ts"
    using lex_result [of f] by blast
  have src: "list_all (\<lambda>t. span_source (token_span t) = file_id f) ts"
    using fits by (auto simp: list_all_iff token_fits_def)
  have "reconstruct (flat (file_id f) (str_len (file_text f)) (tokens ?out)) f = file_text f"
    by (rule reconstruct_lexed [OF ts]) (simp add: flat_def)
  moreover have "\<exists>rt. build (file_id f) (str_len (file_text f)) (tokens ?out) [] = Some (Ok rt)"
    using validate_tokens_tiles [OF tl src order.refl, of None]
    by (simp add: build_def span_new_def validate_tokens_def sort_nodes_def build_node_def build_state_new_def)
  moreover obtain r where r: "build (file_id f) (str_len (file_text f)) (tokens ?out) ns = Some r"
    "\<forall>rt. r = Ok rt \<longrightarrow> leaves rt = tokens ?out" using build_result by blast
  have "case r of Inl e \<Rightarrow> True | Inr rt \<Rightarrow> reconstruct rt f = file_text f"
    using r(2) reconstruct_lexed [OF ts] by (auto split: sum.splits)
  ultimately show ?thesis using ts r(1) by (intro exI [of _ ?out]) (auto split: sum.splits)
qed

end
